(* ===== verification/Prelude.thy ===== *)
theory Prelude
  imports Main "HOL-Library.Word"
begin

text \<open>
  Shared vocabulary of the development: the machine integers of the C sources, the faults a
  kernel or library routine can end in, the error-propagating sequencing operator, bounded
  loops over such routines, and the list and word lemmas the components share.

  A routine of the sources that can panic, or whose C text has undefined behaviour on some
  inputs, is a function into \<open>fault + 'a\<close>: \<open>Inl\<close> is the fault, \<open>Inr\<close> the normal result.
  Error codes that the C code returns to its caller are ordinary results, never faults.
\<close>

unbundle bit_operations_syntax

section \<open>Machine integers\<close>

type_synonym u8 = "8 word"
type_synonym u16 = "16 word"
type_synonym u32 = "32 word"
type_synonym u64 = "64 word"

text \<open>The range of the C type \<open>int\<close>.\<close>

definition INT_MAX :: int where "INT_MAX = 2147483647"

definition INT_MIN :: int where "INT_MIN = - 2147483648"

section \<open>Faults\<close>

text \<open>
  \<open>Panic\<close> is the outcome of \<open>panic$\<close> and of the \<open>assert_*\<close> macros of brutal-debug.
  \<open>NullDeref\<close>, \<open>OutOfBounds\<close>, \<open>UseAfterFree\<close>, \<open>Uninitialised\<close> and \<open>TypeConfusion\<close> are C accesses with
  no defined result; \<open>WildPointer\<close> is an access outside of an array that holds pointers to kernel objects (a handle
  table, the mappings of a space, the processors). \<open>ArithUB\<close> is an arithmetic operation without one. \<open>OutOfFuel\<close> stands for a loop that goes on longer than the bound its model
  has, \<open>TooDeep\<close> for a recursion of \<open>object_deref\<close> and its destructors deeper than its bound;
  theory Refs shows that the latter never happens.
\<close>

datatype fault =
    Panic string
  | NullDeref
  | OutOfBounds
  | WildPointer
  | UseAfterFree
  | Uninitialised
  | TypeConfusion
  | ArithUB
  | OutOfFuel
  | TooDeep

named_theorems sbind_iff \<open>inversion rules for routines that returned normally\<close>
named_theorems model_defs \<open>definitions of the model that proofs unfold together\<close>

definition sbind :: "'e + 'a \<Rightarrow> ('a \<Rightarrow> 'e + 'b) \<Rightarrow> 'e + 'b" where
  "sbind m f = (case m of Inl e \<Rightarrow> Inl e | Inr x \<Rightarrow> f x)"

lemma sbind_simps [simp]:
  "sbind (Inl e) f = Inl e"
  "sbind (Inr x) f = f x"
  by (simp_all add: sbind_def)

lemma sbind_Inr_iff [sbind_iff]:
  "sbind m f = Inr y \<longleftrightarrow> (\<exists>x. m = Inr x \<and> f x = Inr y)"
  by (cases m) auto

lemma sbind_Inl_iff:
  "sbind m f = Inl e \<longleftrightarrow> m = Inl e \<or> (\<exists>x. m = Inr x \<and> f x = Inl e)"
  by (cases m) auto

lemma sbind_cong [fundef_cong]:
  "m = m' \<Longrightarrow> (\<And>x. m' = Inr x \<Longrightarrow> f x = f' x) \<Longrightarrow> sbind m f = sbind m' f'"
  by (cases m') auto

lemma sbind_assoc: "sbind (sbind m f) g = sbind m (\<lambda>x. sbind (f x) g)"
  by (cases m) auto

definition fault_of :: "'e + 'a \<Rightarrow> 'e option" where
  "fault_of m = (case m of Inl e \<Rightarrow> Some e | Inr _ \<Rightarrow> None)"

lemma fault_of_iff: "fault_of m = Some e \<longleftrightarrow> m = Inl e"
  by (cases m) (simp_all add: fault_of_def)

definition assert_truth :: "bool \<Rightarrow> string \<Rightarrow> fault + unit" where
  "assert_truth b msg = (if b then Inr () else Inl (Panic msg))"

lemma assert_truth_simps [simp]:
  "assert_truth True msg = Inr ()"
  "assert_truth False msg = Inl (Panic msg)"
  by (simp_all add: assert_truth_def)

lemma assert_truth_Inr [sbind_iff]: "assert_truth b msg = Inr u \<longleftrightarrow> b"
  by (simp add: assert_truth_def)

section \<open>Bounded loops\<close>

text \<open>
  \<open>for_each f xs s\<close> runs the loop body \<open>f\<close> for every index of \<open>xs\<close> in order and stops at the
  first fault.
\<close>

fun for_each :: "('i \<Rightarrow> 's \<Rightarrow> 'e + 's) \<Rightarrow> 'i list \<Rightarrow> 's \<Rightarrow> 'e + 's" where
  "for_each f [] s = Inr s"
| "for_each f (i # is) s = sbind (f i s) (for_each f is)"

lemma for_each_append:
  "for_each f (xs @ ys) s = sbind (for_each f xs s) (for_each f ys)"
  by (induction xs arbitrary: s) (simp_all add: sbind_assoc cong: sbind_cong)

lemma for_each_invariant:
  assumes "for_each f xs s = Inr t" and "P s"
    and "\<And>i s t. i \<in> set xs \<Longrightarrow> P s \<Longrightarrow> f i s = Inr t \<Longrightarrow> P t"
  shows "P t"
  using assms
proof (induction xs arbitrary: s)
  case Nil
  then show ?case by simp
next
  case (Cons i xs)
  from Cons.prems(1) obtain u where u: "f i s = Inr u" and rest: "for_each f xs u = Inr t"
    by (auto simp: sbind_Inr_iff)
  from Cons.prems(2,3) u have "P u" by auto
  with Cons.IH [OF rest] Cons.prems(3) show ?case by auto
qed

lemma for_each_cong [fundef_cong]:
  "xs = ys \<Longrightarrow> s = t \<Longrightarrow> (\<And>i u. i \<in> set ys \<Longrightarrow> f i u = g i u) \<Longrightarrow> for_each f xs s = for_each g ys t"
  by (induction ys arbitrary: xs s t) (auto intro!: sbind_cong)

section \<open>Safe runs\<close>

text \<open>
  A memory fault is an access through a pointer to an object that is not valid, an access outside of
  an array of such pointers, or a release of references that recurses without end. An overrun of the
  other arrays (\<open>OutOfBounds\<close>) is the subject of the theories of the components that have them. \<open>runs strict m P\<close> says that \<open>m\<close> does
  not end in a memory fault and that its result, if there is one, satisfies \<open>P\<close>: a routine may
  still panic, which stops the machine. Without \<open>strict\<close> it may also end in an access outside of an array
  of pointers, which is what a handle of more than 32 bits leads to.
\<close>

definition memory_fault :: "fault \<Rightarrow> bool" where
  "memory_fault f \<longleftrightarrow> f = WildPointer \<or> f = UseAfterFree \<or> f = NullDeref \<or> f = TypeConfusion \<or> f = TooDeep"

definition runs :: "bool \<Rightarrow> fault + 'a \<Rightarrow> ('a \<Rightarrow> bool) \<Rightarrow> bool" where
  "runs strict m P = (case m of Inl f \<Rightarrow> memory_fault f \<longrightarrow> \<not> strict \<and> f = WildPointer | Inr x \<Rightarrow> P x)"

named_theorems runs_intros \<open>safe runs of the routines\<close>

lemma runs_Inr [simp]: "runs strict (Inr x) P = P x"
  by (simp add: runs_def)

lemma runs_Inl [simp]: "runs strict (Inl f) P = (memory_fault f \<longrightarrow> \<not> strict \<and> f = WildPointer)"
  by (simp add: runs_def)

lemma memory_fault_simps [simp]:
  "\<not> memory_fault (Panic m)" "\<not> memory_fault OutOfBounds" "\<not> memory_fault Uninitialised"
  "\<not> memory_fault OutOfFuel" "\<not> memory_fault ArithUB" "memory_fault WildPointer" "memory_fault UseAfterFree" "memory_fault NullDeref" "memory_fault TypeConfusion"
  "memory_fault TooDeep"
  by (simp_all add: memory_fault_def)

lemma runs_sbind [simp]: "runs strict (sbind m f) P = runs strict m (\<lambda>x. runs strict (f x) P)"
  by (cases m) simp_all

lemma runs_assert [simp]: "runs strict (assert_truth b msg) P = (b \<longrightarrow> P ())"
  by (simp add: assert_truth_def)

lemma runs_mono: "runs strict m P \<Longrightarrow> (\<And>x. m = Inr x \<Longrightarrow> P x \<Longrightarrow> Q x) \<Longrightarrow> runs strict m Q"
  by (cases m) simp_all

lemma runs_conj: "runs strict m P \<Longrightarrow> runs strict m Q \<Longrightarrow> runs strict m (\<lambda>x. P x \<and> Q x)"
  by (cases m) simp_all

lemma runs_result: "runs strict m P \<Longrightarrow> m = Inr x \<Longrightarrow> P x"
  by simp

lemma runs_fault: "runs True m P \<Longrightarrow> m = Inl f \<Longrightarrow> \<not> memory_fault f"
  by simp

lemma runs_for_each:
  assumes "P s" and "\<And>i s. i \<in> set xs \<Longrightarrow> P s \<Longrightarrow> runs strict (f i s) P"
  shows "runs strict (for_each f xs s) P"
  using assms
proof (induction xs arbitrary: s)
  case (Cons i xs)
  have "runs strict (f i s) P" using Cons.prems by simp
  then show ?case by (simp, elim runs_mono) (rule Cons.IH, use Cons.prems in auto)
qed simp

section \<open>Lists\<close>

text \<open>\<open>vec_splice\<close> on the list a vector stands for.\<close>

definition list_splice :: "nat \<Rightarrow> nat \<Rightarrow> 'a list \<Rightarrow> 'a list" where
  "list_splice i n xs = take i xs @ drop (i + n) xs"

lemma length_list_splice: "i + n \<le> length xs \<Longrightarrow> length (list_splice i n xs) = length xs - n"
  by (simp add: list_splice_def)

lemma set_list_splice: "set (list_splice i n xs) \<subseteq> set xs"
  by (auto simp: list_splice_def dest: in_set_takeD in_set_dropD)

lemma drop_take_update:
  "i < length xs \<Longrightarrow> xs[i := x] = take i xs @ x # drop (Suc i) xs"
  by (simp add: upd_conv_take_nth_drop)

lemma take_update_ge: "n \<le> i \<Longrightarrow> take n (xs[i := x]) = take n xs"
  by simp

lemma take_Suc_update: "i < length xs \<Longrightarrow> take (Suc i) (xs[i := x]) = take i xs @ [x]"
  by (simp add: take_Suc_conv_app_nth)

section \<open>Words\<close>

lemma unat_of_nat_u64: "n < 2 ^ 64 \<Longrightarrow> unat (of_nat n :: u64) = n"
  by (simp add: unat_of_nat take_bit_nat_eq_self)

lemma of_nat_unat_u64: "(of_nat (unat a) :: u64) = a"
  by simp

lemma unat_plus_u64: "unat (a :: u64) + unat b < 2 ^ 64 \<Longrightarrow> unat (a + b) = unat a + unat b"
  by (simp add: unat_word_ariths)

lemma unat_mult_u64: "unat (a :: u64) * unat b < 2 ^ 64 \<Longrightarrow> unat (a * b) = unat a * unat b"
  by (simp add: unat_word_ariths)

lemma unat_minus_u64: "b \<le> (a :: u64) \<Longrightarrow> unat (a - b) = unat a - unat b"
  by (simp add: unat_sub)

lemma unat_lt_u64: "unat (a :: u64) < 2 ^ 64"
  using unsigned_less [of a] by simp

end
