(* ===== verification/Ring.thy ===== *)
theory Ring
  imports Prelude
begin

text \<open>
  The bounded ring buffer of \<open>brutal-ds/ring.c\<close>. A channel of the kernel is one of these.

  \<open>ring_data\<close> is the array behind \<open>impl->data\<close>, one entry per element of \<open>data_size\<close> bytes;
  \<open>alloc_calloc\<close> fills it with zero bytes, the value \<open>z\<close> of the element type. The indices and
  counters are C \<open>int\<close>s that stay between 0 and the capacity, hence \<open>nat\<close>.
\<close>

section \<open>Model\<close>

record 'a ring_impl =
  ring_data :: "'a list"
  ring_head :: nat
  ring_tail :: nat
  ring_used :: nat
  ring_capacity :: nat

definition ring_init_impl :: "nat \<Rightarrow> 'a \<Rightarrow> 'a ring_impl" where
  "ring_init_impl capacity z =
     \<lparr>ring_data = replicate capacity z, ring_head = 0, ring_tail = 0, ring_used = 0,
      ring_capacity = capacity\<rparr>"

definition ring_deinit_impl :: "'a ring_impl \<Rightarrow> 'a ring_impl" where
  "ring_deinit_impl r =
     \<lparr>ring_data = [], ring_head = 0, ring_tail = 0, ring_used = 0, ring_capacity = 0\<rparr>"

definition ring_push_impl :: "'a ring_impl \<Rightarrow> 'a \<Rightarrow> bool \<times> 'a ring_impl" where
  "ring_push_impl r x =
     (if ring_used r = ring_capacity r then (False, r)
      else (True, r\<lparr>ring_data := (ring_data r)[ring_head r := x],
                    ring_head := (ring_head r + 1) mod ring_capacity r,
                    ring_used := ring_used r + 1\<rparr>))"

definition ring_pop_impl :: "'a ring_impl \<Rightarrow> 'a option \<times> 'a ring_impl" where
  "ring_pop_impl r =
     (if ring_used r = 0 then (None, r)
      else (Some (ring_data r ! ring_tail r),
            r\<lparr>ring_tail := (ring_tail r + 1) mod ring_capacity r, ring_used := ring_used r - 1\<rparr>))"

definition ring_clear_impl :: "'a ring_impl \<Rightarrow> 'a ring_impl" where
  "ring_clear_impl r = r\<lparr>ring_head := 0, ring_tail := 0, ring_used := 0\<rparr>"

definition ring_len_impl :: "'a ring_impl \<Rightarrow> nat" where
  "ring_len_impl r = ring_used r"

definition ring_full :: "'a ring_impl \<Rightarrow> bool" where
  "ring_full r = (ring_used r = ring_capacity r)"

definition ring_any :: "'a ring_impl \<Rightarrow> bool" where
  "ring_any r = (ring_used r \<noteq> 0)"

section \<open>Invariant and abstraction\<close>

definition ring_inv :: "'a ring_impl \<Rightarrow> bool" where
  "ring_inv r \<longleftrightarrow> length (ring_data r) = ring_capacity r \<and> ring_used r \<le> ring_capacity r \<and>
     (0 < ring_capacity r \<longrightarrow> ring_tail r < ring_capacity r) \<and>
     (0 < ring_capacity r \<longrightarrow> ring_head r = (ring_tail r + ring_used r) mod ring_capacity r)"

definition ring_list :: "'a ring_impl \<Rightarrow> 'a list" where
  "ring_list r = map (\<lambda>k. ring_data r ! ((ring_tail r + k) mod ring_capacity r)) [0..<ring_used r]"

lemma length_ring_list [simp]: "length (ring_list r) = ring_used r"
  by (simp add: ring_list_def)

lemma ring_inv_init: "ring_inv (ring_init_impl n z)"
  by (simp add: ring_inv_def ring_init_impl_def)

lemma ring_list_init: "ring_list (ring_init_impl n z) = []"
  by (simp add: ring_list_def ring_init_impl_def)

lemma ring_inv_push: "ring_inv r \<Longrightarrow> ring_inv (snd (ring_push_impl r x))"
  by (auto simp: ring_inv_def ring_push_impl_def mod_simps add_ac)

lemma ring_inv_pop:
  assumes "ring_inv r"
  shows "ring_inv (snd (ring_pop_impl r))"
proof (cases "ring_used r")
  case 0
  with assms show ?thesis by (simp add: ring_pop_impl_def)
next
  case (Suc n)
  with assms show ?thesis
    by (auto simp: ring_inv_def ring_pop_impl_def mod_simps)
qed

lemma ring_inv_clear: "ring_inv r \<Longrightarrow> ring_inv (ring_clear_impl r)"
  by (auto simp: ring_inv_def ring_clear_impl_def)

text \<open>Two live positions of the ring are different cells.\<close>

lemma ring_slot_distinct:
  "j < k \<Longrightarrow> k < (c::nat) \<Longrightarrow> (t + j) mod c \<noteq> (t + k) mod c"
proof
  assume "j < k" "k < c" and eq: "(t + j) mod c = (t + k) mod c"
  from eq have "c dvd (t + k) - (t + j)"
    using \<open>j < k\<close> by (metis add_le_cancel_left less_imp_le_nat mod_eq_dvd_iff_nat)
  then have "c dvd k - j" by simp
  with \<open>j < k\<close> \<open>k < c\<close> show False by (auto dest: dvd_imp_le)
qed

lemma ring_list_push:
  assumes inv: "ring_inv r" and room: "ring_used r \<noteq> ring_capacity r"
  shows "ring_list (snd (ring_push_impl r x)) = ring_list r @ [x]"
proof -
  from inv room have cap: "ring_used r < ring_capacity r"
    and len: "length (ring_data r) = ring_capacity r"
    and hd: "ring_head r = (ring_tail r + ring_used r) mod ring_capacity r"
    by (auto simp: ring_inv_def)
  have old: "(ring_data r)[ring_head r := x] ! ((ring_tail r + k) mod ring_capacity r) =
      ring_data r ! ((ring_tail r + k) mod ring_capacity r)" if "k < ring_used r" for k
    using ring_slot_distinct [OF that cap, of "ring_tail r"] hd by simp
  have new: "(ring_data r)[ring_head r := x] ! ((ring_tail r + ring_used r) mod ring_capacity r) = x"
    using hd len cap by (simp add: mod_less_divisor)
  show ?thesis
    using room by (simp add: ring_push_impl_def ring_list_def old new)
qed

lemma ring_list_pop:
  assumes inv: "ring_inv r" and any: "ring_used r \<noteq> 0"
  shows "fst (ring_pop_impl r) = Some (hd (ring_list r)) \<and>
     ring_list (snd (ring_pop_impl r)) = tl (ring_list r)"
proof -
  from inv any have t: "ring_tail r < ring_capacity r"
    by (auto simp: ring_inv_def)
  obtain n where n: "ring_used r = Suc n" using any by (cases "ring_used r") auto
  have "ring_list r = ring_data r ! ring_tail r #
      map (\<lambda>k. ring_data r ! ((ring_tail r + Suc k) mod ring_capacity r)) [0..<n]"
    using t by (simp add: ring_list_def n upt_conv_Cons map_Suc_upt [symmetric] del: upt_Suc map_Suc_upt)
  then show ?thesis
    using any by (simp add: ring_pop_impl_def ring_list_def n mod_simps)
qed

section \<open>The queue interface\<close>

text \<open>
  What a client of the ring relies on: a bounded first-in first-out queue, described by the
  list of the elements that were pushed and not yet popped.
\<close>

locale bounded_fifo =
  fixes push :: "'q \<Rightarrow> 'a \<Rightarrow> bool \<times> 'q"
    and pop :: "'q \<Rightarrow> 'a option \<times> 'q"
    and contents :: "'q \<Rightarrow> 'a list"
    and capacity :: "'q \<Rightarrow> nat"
    and invar :: "'q \<Rightarrow> bool"
  assumes push_room: "invar q \<Longrightarrow> length (contents q) < capacity q \<Longrightarrow>
      fst (push q x) \<and> contents (snd (push q x)) = contents q @ [x]"
    and push_full: "invar q \<Longrightarrow> length (contents q) = capacity q \<Longrightarrow> push q x = (False, q)"
    and pop_any: "invar q \<Longrightarrow> contents q \<noteq> [] \<Longrightarrow>
      fst (pop q) = Some (hd (contents q)) \<and> contents (snd (pop q)) = tl (contents q)"
    and pop_none: "invar q \<Longrightarrow> contents q = [] \<Longrightarrow> pop q = (None, q)"
    and invar_push: "invar q \<Longrightarrow> invar (snd (push q x))"
    and invar_pop: "invar q \<Longrightarrow> invar (snd (pop q))"
    and bounded: "invar q \<Longrightarrow> length (contents q) \<le> capacity q"
    and capacity_push: "capacity (snd (push q x)) = capacity q"
    and capacity_pop: "capacity (snd (pop q)) = capacity q"
begin

fun push_all :: "'q \<Rightarrow> 'a list \<Rightarrow> 'q" where
  "push_all q [] = q"
| "push_all q (x # xs) = push_all (snd (push q x)) xs"

fun pop_n :: "nat \<Rightarrow> 'q \<Rightarrow> 'a option list \<times> 'q" where
  "pop_n 0 q = ([], q)"
| "pop_n (Suc n) q =
     (let (x, q1) = pop q; (xs, q2) = pop_n n q1 in (x # xs, q2))"

lemma push_all_contents:
  "invar q \<Longrightarrow> length (contents q) + length xs \<le> capacity q \<Longrightarrow>
   invar (push_all q xs) \<and> contents (push_all q xs) = contents q @ xs \<and>
   capacity (push_all q xs) = capacity q"
  by (induction xs arbitrary: q) (auto simp: push_room invar_push capacity_push)

lemma pop_n_contents:
  "invar q \<Longrightarrow> n \<le> length (contents q) \<Longrightarrow>
   fst (pop_n n q) = map Some (take n (contents q)) \<and>
   contents (snd (pop_n n q)) = drop n (contents q)"
proof (induction n arbitrary: q)
  case 0
  then show ?case by simp
next
  case (Suc n)
  then obtain y ys where c: "contents q = y # ys" by (cases "contents q") auto
  with Suc.prems have "fst (pop q) = Some y" "contents (snd (pop q)) = ys" "invar (snd (pop q))"
    using pop_any [of q] invar_pop [of q] by auto
  with Suc.IH [of "snd (pop q)"] Suc.prems c show ?case
    by (simp add: split_beta)
qed

lemma fifo_roundtrip:
  assumes "invar q" and "contents q = []" and "length xs \<le> capacity q"
  shows "fst (pop_n (length xs) (push_all q xs)) = map Some xs"
  using push_all_contents [of q xs] pop_n_contents [of "push_all q xs" "length xs"] assms
  by simp

end

interpretation ring: bounded_fifo ring_push_impl ring_pop_impl ring_list ring_capacity ring_inv
proof (unfold_locales, goal_cases)
  case (1 q x)
  then show ?case by (auto simp: ring_list_push) (simp add: ring_push_impl_def)
next
  case (2 q x)
  then show ?case by (simp add: ring_push_impl_def)
next
  case (3 q)
  then show ?case by (metis ring_list_pop length_0_conv length_ring_list)
next
  case (4 q)
  then show ?case by (metis length_0_conv length_ring_list ring_pop_impl_def)
next
  case (5 q x)
  then show ?case by (rule ring_inv_push)
next
  case (6 q)
  then show ?case by (rule ring_inv_pop)
next
  case (7 q)
  then show ?case by (simp add: ring_inv_def)
next
  case (8 q x)
  then show ?case by (simp add: ring_push_impl_def)
next
  case (9 q)
  then show ?case by (simp add: ring_pop_impl_def)
qed

section \<open>Properties\<close>

text \<open>
  C20. The ring buffer is a bounded queue: pushing refuses exactly when the buffer is full and
  otherwise appends, popping refuses exactly when it is empty and otherwise takes the oldest
  element, and both keep the buffer well formed.
\<close>

theorem ring_refines_queue:
  assumes "ring_inv r"
  shows "ring_push_impl r x = (if ring_full r then (False, r) else (True, snd (ring_push_impl r x))) \<and>
     (\<not> ring_full r \<longrightarrow> ring_list (snd (ring_push_impl r x)) = ring_list r @ [x]) \<and>
     fst (ring_pop_impl r) = (if ring_any r then Some (hd (ring_list r)) else None) \<and>
     ring_list (snd (ring_pop_impl r)) = tl (ring_list r) \<and>
     ring_inv (snd (ring_push_impl r x)) \<and> ring_inv (snd (ring_pop_impl r))"
proof (cases "ring_used r = 0")
  case True
  with assms show ?thesis
    using ring_list_push [OF assms, of x] ring_inv_push [OF assms, of x]
    by (auto simp: ring_full_def ring_any_def ring_push_impl_def ring_pop_impl_def ring_list_def)
next
  case False
  with assms show ?thesis
    using ring_list_push [OF assms, of x] ring_list_pop [OF assms] ring_inv_push [OF assms, of x]
      ring_inv_pop [OF assms]
    by (auto simp: ring_full_def ring_any_def ring_push_impl_def)
qed

theorem ring_refines_queue_witness:
  "ring_inv (ring_init_impl 2 (0 :: nat)) \<and>
   ring_list (snd (ring_push_impl (ring_init_impl 2 (0 :: nat)) 7)) = [7]"
proof -
  have i: "ring_inv (ring_init_impl 2 (0 :: nat))" by (rule ring_inv_init)
  have "\<not> ring_full (ring_init_impl 2 (0 :: nat))" by (simp add: ring_full_def ring_init_impl_def)
  with i ring_refines_queue [OF i, of 7] show ?thesis by (simp add: ring_list_init)
qed

text \<open>
  Messages leave a channel's buffer in the order they entered it: from an empty buffer, pushing
  any number of elements up to the capacity and popping as many gives them back in order.
\<close>

theorem ring_fifo_roundtrip:
  assumes "ring_inv r" and "ring_list r = []" and "length xs \<le> ring_capacity r"
  shows "fst (ring.pop_n (length xs) (fold (\<lambda>x q. snd (ring_push_impl q x)) xs r)) = map Some xs"
proof -
  have "ring.push_all r xs = fold (\<lambda>x q. snd (ring_push_impl q x)) xs r"
    by (induction xs arbitrary: r) auto
  with ring.fifo_roundtrip [OF assms] show ?thesis by simp
qed

theorem ring_fifo_roundtrip_witness:
  "ring_inv (ring_init_impl 3 (0 :: nat)) \<and>
   fst (ring.pop_n (length [5, 6, 7 :: nat])
          (fold (\<lambda>x q. snd (ring_push_impl q x)) [5, 6, 7] (ring_init_impl 3 (0 :: nat)))) =
     map Some [5, 6, 7]"
proof -
  have "length [5, 6, 7 :: nat] \<le> ring_capacity (ring_init_impl 3 (0 :: nat))"
    by (simp add: ring_init_impl_def)
  from ring_fifo_roundtrip [OF ring_inv_init ring_list_init this] ring_inv_init [of 3 "0 :: nat"]
  show ?thesis by blast
qed

end
