(* ===== verification/Slot.thy ===== *)
theory Slot
  imports Prelude
begin

text \<open>
  The slot table of \<open>brutal-ds/slot.c\<close>: an array with one used flag per entry. A domain of the
  kernel keeps its handles in one of these. \<open>SlotIndex\<close> is a C \<open>int\<close> and \<open>-1\<close> means that no
  slot is free. Both arrays come from zeroing allocations; \<open>z\<close> is the zero value of the entry
  type. Reading or writing outside of the arrays is the fault \<open>WildPointer\<close>.
\<close>

section \<open>Model\<close>

record 'a slot_impl =
  slot_data :: "'a list"
  slot_used :: "bool list"
  slot_cap :: nat

definition slot_capacity_impl :: "'a \<Rightarrow> 'a slot_impl \<Rightarrow> nat \<Rightarrow> 'a slot_impl" where
  "slot_capacity_impl z s new_capacity =
     (if slot_cap s \<ge> new_capacity then s
      else \<lparr>slot_data = take (slot_cap s) (slot_data s) @ replicate (new_capacity - slot_cap s) z,
            slot_used = take (slot_cap s) (slot_used s) @ replicate (new_capacity - slot_cap s) False,
            slot_cap = new_capacity\<rparr>)"

definition slot_init_impl :: "'a slot_impl" where
  "slot_init_impl = \<lparr>slot_data = [], slot_used = [], slot_cap = 0\<rparr>"

definition slot_deinit_impl :: "'a slot_impl \<Rightarrow> 'a slot_impl" where
  "slot_deinit_impl s = \<lparr>slot_data = [], slot_used = [], slot_cap = 0\<rparr>"

fun slot_find_from :: "bool list \<Rightarrow> nat list \<Rightarrow> int" where
  "slot_find_from used [] = -1"
| "slot_find_from used (i # is) = (if \<not> used ! i then int i else slot_find_from used is)"

definition slot_find_impl :: "'a slot_impl \<Rightarrow> int \<times> 'a slot_impl" where
  "slot_find_impl s =
     (let i = slot_find_from (slot_used s) [0..<slot_cap s] in
      if i \<ge> 0 then (i, s\<lparr>slot_used := (slot_used s)[nat i := True]\<rparr>) else (-1, s))"

definition slot_alloc_impl :: "'a \<Rightarrow> 'a slot_impl \<Rightarrow> int \<times> 'a slot_impl" where
  "slot_alloc_impl z s =
     (let s1 = slot_capacity_impl z s 16; (found_index, s2) = slot_find_impl s1 in
      if found_index \<ge> 0 then (found_index, s2)
      else slot_find_impl (slot_capacity_impl z s2 (slot_cap s2 + slot_cap s2 div 4)))"

definition slot_acquire_impl :: "'a slot_impl \<Rightarrow> nat \<Rightarrow> fault + 'a slot_impl" where
  "slot_acquire_impl s index =
     (if slot_cap s \<le> index then Inl WildPointer
      else sbind (assert_truth (\<not> slot_used s ! index) ''impl->used[index] is true'')
        (\<lambda>_. Inr (s\<lparr>slot_used := (slot_used s)[index := True]\<rparr>)))"

definition slot_release_impl :: "'a slot_impl \<Rightarrow> int \<Rightarrow> fault + 'a slot_impl" where
  "slot_release_impl s index =
     (if index < 0 \<or> int (slot_cap s) \<le> index then Inl WildPointer
      else sbind (assert_truth (slot_used s ! nat index) ''impl->used[index] is false'')
        (\<lambda>_. Inr (s\<lparr>slot_used := (slot_used s)[nat index := False]\<rparr>)))"

definition slot_valid_impl :: "'a slot_impl \<Rightarrow> int \<Rightarrow> bool" where
  "slot_valid_impl s index =
     (index \<ge> 0 \<and> index < int (slot_cap s) \<and> slot_used s ! nat index)"

definition slot_at :: "'a slot_impl \<Rightarrow> nat \<Rightarrow> fault + 'a" where
  "slot_at s index = (if index < slot_cap s then Inr (slot_data s ! index) else Inl WildPointer)"

definition slot_put :: "'a slot_impl \<Rightarrow> nat \<Rightarrow> 'a \<Rightarrow> fault + 'a slot_impl" where
  "slot_put s index x =
     (if index < slot_cap s then Inr (s\<lparr>slot_data := (slot_data s)[index := x]\<rparr>) else Inl WildPointer)"

definition slot_count :: "'a slot_impl \<Rightarrow> nat" where
  "slot_count s = slot_cap s"

section \<open>Invariant and abstraction\<close>

definition slot_inv :: "'a slot_impl \<Rightarrow> bool" where
  "slot_inv s \<longleftrightarrow> length (slot_data s) = slot_cap s \<and> length (slot_used s) = slot_cap s"

definition slot_lookup :: "'a slot_impl \<Rightarrow> nat \<Rightarrow> 'a option" where
  "slot_lookup s i = (if slot_valid_impl s (int i) then Some (slot_data s ! i) else None)"

lemma slot_lookup_alt:
  "slot_lookup s i = (if i < slot_cap s \<and> slot_used s ! i then Some (slot_data s ! i) else None)"
  by (auto simp: slot_lookup_def slot_valid_impl_def)

lemma slot_inv_init: "slot_inv slot_init_impl"
  by (simp add: slot_inv_def slot_init_impl_def)

lemma slot_lookup_init [simp]: "slot_lookup slot_init_impl i = None"
  by (simp add: slot_lookup_alt slot_init_impl_def)

lemma slot_inv_capacity: "slot_inv s \<Longrightarrow> slot_inv (slot_capacity_impl z s n)"
  by (simp add: slot_inv_def slot_capacity_impl_def)

lemma slot_lookup_capacity:
  "slot_inv s \<Longrightarrow> slot_lookup (slot_capacity_impl z s n) i = slot_lookup s i"
  by (auto simp: slot_lookup_alt slot_capacity_impl_def slot_inv_def nth_append)

lemma slot_cap_capacity [simp]: "slot_cap (slot_capacity_impl z s n) = max (slot_cap s) n"
  by (simp add: slot_capacity_impl_def)

lemma slot_used_grown:
  "slot_inv s \<Longrightarrow> slot_cap s < n \<Longrightarrow> \<not> slot_used (slot_capacity_impl z s n) ! slot_cap s"
  by (simp add: slot_capacity_impl_def slot_inv_def nth_append)

lemma slot_find_from_spec:
  "slot_find_from used ks = (case find (\<lambda>i. \<not> used ! i) ks of None \<Rightarrow> -1 | Some i \<Rightarrow> int i)"
  by (induction ks) auto

lemma slot_find_impl_spec:
  assumes "slot_inv s"
  shows "slot_find_impl s = (-1, s) \<and> (\<forall>i < slot_cap s. slot_used s ! i) \<or>
     (\<exists>i < slot_cap s. \<not> slot_used s ! i \<and>
        slot_find_impl s = (int i, s\<lparr>slot_used := (slot_used s)[i := True]\<rparr>))"
proof (cases "find (\<lambda>i. \<not> slot_used s ! i) [0..<slot_cap s]")
  case None
  then have "\<forall>i < slot_cap s. slot_used s ! i" by (simp add: find_None_iff)
  with None show ?thesis by (simp add: slot_find_impl_def slot_find_from_spec)
next
  case (Some i)
  then have "i < slot_cap s" "\<not> slot_used s ! i" by (auto simp: find_Some_iff)
  with Some show ?thesis by (auto simp: slot_find_impl_def slot_find_from_spec)
qed

text \<open>
  Allocation never fails: the table starts with 16 slots and grows by a quarter, so that the
  second search always finds a free slot.
\<close>

lemma slot_alloc_impl_spec:
  assumes inv: "slot_inv s"
  shows "\<exists>i t. slot_alloc_impl z s = (int i, t) \<and> slot_inv t \<and> i < slot_cap t \<and>
     slot_lookup s i = None \<and> slot_valid_impl t (int i) \<and>
     (\<forall>j. j \<noteq> i \<longrightarrow> slot_lookup t j = slot_lookup s j) \<and> slot_cap s \<le> slot_cap t"
proof -
  let ?s1 = "slot_capacity_impl z s 16"
  have inv1: "slot_inv ?s1" and look1: "\<And>j. slot_lookup ?s1 j = slot_lookup s j"
    using inv by (simp_all add: slot_inv_capacity slot_lookup_capacity)
  have step: "slot_inv (u\<lparr>slot_used := (slot_used u)[i := True]\<rparr>) \<and>
      slot_lookup u i = None \<and> slot_valid_impl (u\<lparr>slot_used := (slot_used u)[i := True]\<rparr>) (int i) \<and>
      (\<forall>j. j \<noteq> i \<longrightarrow> slot_lookup (u\<lparr>slot_used := (slot_used u)[i := True]\<rparr>) j = slot_lookup u j)"
    if "slot_inv u" "i < slot_cap u" "\<not> slot_used u ! i" for u :: "'a slot_impl" and i
    using that by (auto simp: slot_inv_def slot_lookup_alt slot_valid_impl_def)
  consider (full) "slot_find_impl ?s1 = (-1, ?s1)" "\<forall>i < slot_cap ?s1. slot_used ?s1 ! i"
    | (found) i where "i < slot_cap ?s1" "\<not> slot_used ?s1 ! i"
        "slot_find_impl ?s1 = (int i, ?s1\<lparr>slot_used := (slot_used ?s1)[i := True]\<rparr>)"
    using slot_find_impl_spec [OF inv1] by blast
  then show ?thesis
  proof cases
    case found
    then show ?thesis
      using step [OF inv1 found(1,2)] look1 by (auto simp: slot_alloc_impl_def Let_def)
  next
    case full
    let ?c = "slot_cap ?s1"
    let ?s2 = "slot_capacity_impl z ?s1 (?c + ?c div 4)"
    have inv2: "slot_inv ?s2" and look2: "\<And>j. slot_lookup ?s2 j = slot_lookup s j"
      using inv1 look1 by (simp_all add: slot_inv_capacity slot_lookup_capacity)
    have grow: "?c < slot_cap ?s2" by simp
    have "\<not> slot_used ?s2 ! ?c" by (rule slot_used_grown [OF inv1]) simp
    with grow slot_find_impl_spec [OF inv2] obtain i where
      i: "i < slot_cap ?s2" "\<not> slot_used ?s2 ! i"
        "slot_find_impl ?s2 = (int i, ?s2\<lparr>slot_used := (slot_used ?s2)[i := True]\<rparr>)"
      by blast
    have "slot_alloc_impl z s = slot_find_impl ?s2"
      using full(1) by (simp add: slot_alloc_impl_def)
    with i(3) show ?thesis
      using step [OF inv2 i(1,2)] i look2 by auto
  qed
qed

lemma slot_put_lookup:
  assumes "slot_inv s" and "slot_valid_impl s (int i)"
  shows "\<exists>t. slot_put s i x = Inr t \<and> slot_inv t \<and> slot_lookup t = (slot_lookup s)(i \<mapsto> x) \<and>
     slot_cap t = slot_cap s"
  using assms by (auto simp: slot_put_def slot_valid_impl_def slot_inv_def slot_lookup_alt fun_eq_iff)

lemma slot_release_lookup:
  assumes "slot_inv s" and "slot_valid_impl s (int i)"
  shows "\<exists>t. slot_release_impl s (int i) = Inr t \<and> slot_inv t \<and>
     slot_lookup t = (slot_lookup s)(i := None) \<and> slot_cap t = slot_cap s"
  using assms
  by (auto simp: slot_release_impl_def slot_valid_impl_def slot_inv_def slot_lookup_alt fun_eq_iff)

section \<open>The handle-table interface\<close>

text \<open>
  What a domain relies on: a partial map from indices to entries with an allocator of fresh
  indices. Adding an entry and removing an entry are built from the table's operations.
\<close>

locale handle_table =
  fixes alloc :: "'t \<Rightarrow> int \<times> 't"
    and put :: "'t \<Rightarrow> nat \<Rightarrow> 'a \<Rightarrow> fault + 't"
    and release :: "'t \<Rightarrow> int \<Rightarrow> fault + 't"
    and valid :: "'t \<Rightarrow> int \<Rightarrow> bool"
    and entry :: "'t \<Rightarrow> nat \<Rightarrow> 'a option"
    and invar :: "'t \<Rightarrow> bool"
  assumes alloc_fresh: "invar t \<Longrightarrow> \<exists>i u. alloc t = (int i, u) \<and> invar u \<and> entry t i = None \<and>
      valid u (int i) \<and> (\<forall>j. j \<noteq> i \<longrightarrow> entry u j = entry t j)"
    and put_entry: "invar t \<Longrightarrow> valid t (int i) \<Longrightarrow>
      \<exists>u. put t i x = Inr u \<and> invar u \<and> entry u = (entry t)(i \<mapsto> x)"
    and release_entry: "invar t \<Longrightarrow> valid t (int i) \<Longrightarrow>
      \<exists>u. release t (int i) = Inr u \<and> invar u \<and> entry u = (entry t)(i := None)"
    and valid_entry: "invar t \<Longrightarrow> valid t (int i) \<longleftrightarrow> entry t i \<noteq> None"
begin

text \<open>Allocating a slot and storing an entry extends the map at one fresh index.\<close>

lemma add_entry:
  assumes "invar t"
  shows "\<exists>i u. fst (alloc t) = int i \<and> put (snd (alloc t)) i x = Inr u \<and> invar u \<and>
     entry t i = None \<and> entry u = (entry t)(i \<mapsto> x)"
proof -
  obtain i s where a: "alloc t = (int i, s)" "invar s" "entry t i = None" "valid s (int i)"
    "\<forall>j. j \<noteq> i \<longrightarrow> entry s j = entry t j"
    using alloc_fresh [OF assms] by blast
  obtain u where "put s i x = Inr u" "invar u" "entry u = (entry s)(i \<mapsto> x)"
    using put_entry [OF a(2,4)] by blast
  with a show ?thesis by (auto simp: fun_eq_iff)
qed

text \<open>Releasing the added entry gives back the map there was before.\<close>

lemma add_release:
  assumes "invar t" and "alloc t = (int i, s)" and "put s i x = Inr u"
  shows "\<exists>w. release u (int i) = Inr w \<and> invar w \<and> entry w = entry t"
proof -
  obtain i' u' where *: "fst (alloc t) = int i'" "put (snd (alloc t)) i' x = Inr u'" "invar u'"
    "entry t i' = None" "entry u' = (entry t)(i' \<mapsto> x)"
    using add_entry [OF assms(1)] by blast
  with assms(2,3) have u: "invar u" "entry t i = None" "entry u = (entry t)(i \<mapsto> x)" by auto
  then have "valid u (int i)" by (simp add: valid_entry)
  from release_entry [OF u(1) this] u(2,3) show ?thesis by (auto simp: fun_eq_iff)
qed

end

interpretation slot: handle_table "slot_alloc_impl z" slot_put slot_release_impl slot_valid_impl
  slot_lookup slot_inv for z
proof (unfold_locales, goal_cases)
  case (1 t)
  then show ?case using slot_alloc_impl_spec [of t z] by blast
next
  case (2 t i x)
  then show ?case using slot_put_lookup [of t i x] by blast
next
  case (3 t i)
  then show ?case using slot_release_lookup [of t i] by blast
next
  case (4 t i)
  then show ?case by (simp add: slot_lookup_def)
qed

section \<open>Properties\<close>

text \<open>
  Allocating a slot never fails and never hands out a slot that is in use: the table grows when
  it is full, the entry returned was free, it is valid afterwards, and no other entry changes.
\<close>

theorem slot_alloc_fresh:
  assumes "slot_inv s"
  shows "\<exists>i t. slot_alloc_impl z s = (int i, t) \<and> slot_inv t \<and> slot_lookup s i = None \<and>
     slot_valid_impl t (int i) \<and> (\<forall>j. j \<noteq> i \<longrightarrow> slot_lookup t j = slot_lookup s j)"
  using slot_alloc_impl_spec [OF assms, of z] by blast

theorem slot_alloc_fresh_witness:
  "\<exists>i t. slot_alloc_impl (0 :: nat) slot_init_impl = (int i, t) \<and> slot_valid_impl t (int i)"
  using slot_alloc_fresh [OF slot_inv_init, of "0 :: nat"] by blast

end
