(* ===== verification/Mem.thy ===== *)
theory Mem
  imports Prelude
begin

text \<open>
  The memory primitives of \<open>brutal-mem\<close> (\<open>copy.c\<close>, \<open>move.c\<close>, \<open>set.c\<close>), as the loops they are.
  A buffer is the list of its cells and a pointer into it an index; \<open>mem_cpy\<close> reads one buffer
  and writes another, \<open>mem_move\<close> works inside one buffer, where the two areas may overlap.
  A cell stands for one byte, or for one element when a container moves whole elements.
\<close>

section \<open>Model\<close>

definition mem_cpy :: "'a list \<Rightarrow> nat \<Rightarrow> 'a list \<Rightarrow> nat \<Rightarrow> nat \<Rightarrow> 'a list" where
  "mem_cpy dst d src s n = fold (\<lambda>i m. m[d + i := src ! (s + i)]) [0..<n] dst"

definition mem_move :: "nat \<Rightarrow> nat \<Rightarrow> nat \<Rightarrow> 'a list \<Rightarrow> 'a list" where
  "mem_move udest usrc n mem =
     (if udest < usrc then fold (\<lambda>i m. m[udest + i := m ! (usrc + i)]) [0..<n] mem
      else if udest > usrc then fold (\<lambda>i m. m[udest + i := m ! (usrc + i)]) (rev [0..<n]) mem
      else mem)"

definition mem_set :: "nat \<Rightarrow> 'a \<Rightarrow> nat \<Rightarrow> 'a list \<Rightarrow> 'a list" where
  "mem_set d c n mem = fold (\<lambda>i m. m[d + i := c]) [0..<n] mem"

section \<open>What the loops compute\<close>

definition moved :: "nat \<Rightarrow> nat \<Rightarrow> nat \<Rightarrow> 'a list \<Rightarrow> 'a list" where
  "moved d s n m = take d m @ take n (drop s m) @ drop (d + n) m"

lemma length_fold_update [simp]:
  "length (fold (\<lambda>i m. m[f i := g i m]) xs m) = length m"
  by (induction xs arbitrary: m) auto

lemma length_mem_move [simp]: "length (mem_move d s n m) = length m"
  by (simp add: mem_move_def)

lemma nth_moved:
  assumes "d + n \<le> length m" "s + n \<le> length m" "j < length m"
  shows "moved d s n m ! j = (if d \<le> j \<and> j < d + n then m ! (s + (j - d)) else m ! j)"
proof -
  have l: "length (take d m) = d" "length (take n (drop s m)) = n" using assms by auto
  consider "j < d" | "d \<le> j" "j < d + n" | "d + n \<le> j" by linarith
  then show ?thesis
    using assms l by cases (auto simp: moved_def nth_append)
qed

lemma length_moved:
  "d + n \<le> length m \<Longrightarrow> s + n \<le> length m \<Longrightarrow> length (moved d s n m) = length m"
  by (simp add: moved_def)

lemma nth_copy_up:
  assumes "d \<le> s" "s + n \<le> length m" "j < length m"
  shows "fold (\<lambda>i m. m[d + i := m ! (s + i)]) [0..<n] m ! j =
     (if d \<le> j \<and> j < d + n then m ! (s + (j - d)) else m ! j)"
  using assms
proof (induction n arbitrary: j)
  case 0
  then show ?case by auto
next
  case (Suc n)
  let ?m = "fold (\<lambda>i m. m[d + i := m ! (s + i)]) [0..<n] m"
  have "?m ! (s + n) = m ! (s + n)"
    using Suc.IH [of "s + n"] Suc.prems by auto
  with Suc show ?case
    by (cases "j = d + n") (auto simp: nth_list_update)
qed

lemma nth_copy_down:
  assumes "s \<le> d" "d + n \<le> length m" "j < length m" "k \<le> n"
  shows "fold (\<lambda>i m. m[d + i := m ! (s + i)]) (rev [k..<n]) m ! j =
     (if d + k \<le> j \<and> j < d + n then m ! (s + (j - d)) else m ! j)"
  using assms(4,1,2,3)
proof (induction k arbitrary: j rule: inc_induct)
  case base
  then show ?case by auto
next
  case (step k)
  let ?m = "fold (\<lambda>i m. m[d + i := m ! (s + i)]) (rev [Suc k..<n]) m"
  have "[k..<n] = k # [Suc k..<n]" using step.hyps by (simp add: upt_conv_Cons)
  then have unfold: "fold (\<lambda>i m. m[d + i := m ! (s + i)]) (rev [k..<n]) m = ?m[d + k := ?m ! (s + k)]"
    by simp
  have "?m ! (s + k) = m ! (s + k)"
    using step.IH [of "s + k"] step.prems step.hyps by auto
  with step unfold show ?case
    by (cases "j = d + k") (auto simp: nth_list_update)
qed

text \<open>\<open>mem_move\<close> copies the source area as it was before the call, whatever the overlap.\<close>

lemma mem_move_eq_moved:
  assumes "d + n \<le> length m" "s + n \<le> length m"
  shows "mem_move d s n m = moved d s n m"
proof (rule nth_equalityI)
  show "length (mem_move d s n m) = length (moved d s n m)"
    using assms by (simp add: length_moved)
next
  fix j assume "j < length (mem_move d s n m)"
  then have j: "j < length m" by simp
  consider "d < s" | "s < d" | "d = s" by linarith
  then show "mem_move d s n m ! j = moved d s n m ! j"
  proof cases
    case 1
    then show ?thesis using nth_copy_up [of d s n m j] nth_moved [OF assms j] assms j
      by (simp add: mem_move_def)
  next
    case 2
    then show ?thesis using nth_copy_down [of s d n m j 0] nth_moved [OF assms j] assms j
      by (simp add: mem_move_def)
  next
    case 3
    then show ?thesis using nth_moved [OF assms j] by (simp add: mem_move_def)
  qed
qed

lemma mem_cpy_eq:
  assumes "d + n \<le> length dst" "s + n \<le> length src"
  shows "mem_cpy dst d src s n = take d dst @ take n (drop s src) @ drop (d + n) dst"
  using assms
proof (induction n)
  case 0
  then show ?case by (simp add: mem_cpy_def)
next
  case (Suc n)
  then have IH: "mem_cpy dst d src s n = take d dst @ take n (drop s src) @ drop (d + n) dst"
    by simp
  have "drop (d + n) dst = dst ! (d + n) # drop (d + Suc n) dst"
    using Suc.prems Cons_nth_drop_Suc [of "d + n" dst] by simp
  moreover have "take (Suc n) (drop s src) = take n (drop s src) @ [src ! (s + n)]"
    using Suc.prems by (simp add: take_Suc_conv_app_nth)
  moreover have "mem_cpy dst d src s (Suc n) = (mem_cpy dst d src s n)[d + n := src ! (s + n)]"
    by (simp add: mem_cpy_def)
  moreover have "length (take n (drop s src)) = n" using Suc.prems by simp
  ultimately show ?case
    using Suc.prems IH by (simp add: list_update_append)
qed

lemma mem_set_eq:
  assumes "d + n \<le> length m"
  shows "mem_set d c n m = take d m @ replicate n c @ drop (d + n) m"
  using assms
proof (induction n)
  case 0
  then show ?case by (simp add: mem_set_def)
next
  case (Suc n)
  then have IH: "mem_set d c n m = take d m @ replicate n c @ drop (d + n) m"
    by simp
  have "drop (d + n) m = m ! (d + n) # drop (d + Suc n) m"
    using Suc.prems Cons_nth_drop_Suc [of "d + n" m] by simp
  moreover have "mem_set d c (Suc n) m = (mem_set d c n m)[d + n := c]"
    by (simp add: mem_set_def)
  ultimately show ?case
    using Suc.prems IH by (simp add: list_update_append min_def replicate_append_same)
qed

section \<open>Properties\<close>

text \<open>
  \<open>mem_move\<close> copies correctly whatever the overlap: the destination area holds what the source
  area held before the call and every other cell keeps its value.
\<close>

theorem mem_move_overlap:
  assumes "d + n \<le> length m" "s + n \<le> length m"
  shows "length (mem_move d s n m) = length m \<and>
     (\<forall>j < length m. mem_move d s n m ! j = (if d \<le> j \<and> j < d + n then m ! (s + (j - d)) else m ! j))"
  using mem_move_eq_moved [OF assms] nth_moved [OF assms] length_moved [OF assms] by simp

theorem mem_move_overlap_witness:
  "mem_move 1 0 3 [1, 2, 3, 4 :: nat] ! 3 = 3 \<and> mem_move 0 1 3 [1, 2, 3, 4 :: nat] ! 0 = 2"
  using mem_move_overlap [of 1 3 "[1, 2, 3, 4 :: nat]" 0] mem_move_overlap [of 0 3 "[1, 2, 3, 4 :: nat]" 1]
  by simp

end
