(* ===== verification/Vec.thy ===== *)
theory Vec
  imports Mem
begin

text \<open>
  The growable array of \<open>brutal-ds/vec.c\<close> and the macros of \<open>vec.h\<close>.

  \<open>vec_data\<close> lists the \<open>vec_capacity\<close> cells of the buffer; \<open>None\<close> is a cell that was never
  written (\<open>alloc_acquire\<close> does not clear memory) and the empty list is the null pointer.
  \<open>vec_alloc\<close> is the \<open>Alloc\<close> the vector was made with, reduced to the answer it gives for a
  request of so many bytes; when it is refused, the vector stays as it is. Lengths, the capacity and
  the size of an element are C \<open>int\<close>s: where the code adds or multiplies them, a result above
  \<open>INT_MAX\<close> is the fault \<open>ArithUB\<close>. An access outside the buffer is the fault \<open>OutOfBounds\<close>, the use of an unwritten cell the
  fault \<open>Uninitialised\<close>.
\<close>

section \<open>Model\<close>

record 'a vec_impl =
  vec_data :: "'a option list"
  vec_len :: nat
  vec_alloc :: "nat \<Rightarrow> bool"
  vec_data_size :: nat
  vec_capacity :: nat

definition vec_init_impl :: "nat \<Rightarrow> (nat \<Rightarrow> bool) \<Rightarrow> 'a vec_impl" where
  "vec_init_impl data_size alloc =
     \<lparr>vec_data = [], vec_len = 0, vec_alloc = alloc, vec_data_size = data_size, vec_capacity = 0\<rparr>"

definition vec_deinit_impl :: "'a vec_impl \<Rightarrow> 'a vec_impl" where
  "vec_deinit_impl v =
     \<lparr>vec_data = [], vec_len = 0, vec_alloc = (\<lambda>_. False), vec_data_size = 0, vec_capacity = 0\<rparr>"

definition vec_realloc_impl :: "'a vec_impl \<Rightarrow> nat \<Rightarrow> fault + (bool \<times> 'a vec_impl)" where
  "vec_realloc_impl v new_len =
     (if INT_MAX < int (new_len * vec_data_size v) then Inl ArithUB
      else if \<not> vec_alloc v (new_len * vec_data_size v) then Inr (False, v)
      else
        let fresh = replicate new_len None;
            data = (if vec_data v \<noteq> []
                    then mem_cpy fresh 0 (vec_data v) 0 (min (vec_len v) new_len) else fresh)
        in Inr (True, v\<lparr>vec_data := data, vec_capacity := new_len\<rparr>))"

definition vec_expand_impl :: "'a vec_impl \<Rightarrow> fault + (bool \<times> 'a vec_impl)" where
  "vec_expand_impl v =
     (if INT_MAX < int (vec_len v + 1) then Inl ArithUB
      else if vec_len v + 1 > vec_capacity v
      then (if INT_MAX < int (vec_capacity v * 2) then Inl ArithUB
            else vec_realloc_impl v (if vec_capacity v = 0 then 1 else vec_capacity v * 2))
      else Inr (True, v))"

definition vec_reserve_impl :: "'a vec_impl \<Rightarrow> nat \<Rightarrow> fault + (bool \<times> 'a vec_impl)" where
  "vec_reserve_impl v n = (if n > vec_capacity v then vec_realloc_impl v n else Inr (True, v))"

function po2_at_least :: "nat \<Rightarrow> nat \<Rightarrow> fault + nat" where
  "po2_at_least n n2 =
     (if 0 < n2 \<and> n2 < n
      then if INT_MAX < int (push_bit 1 n2) then Inl ArithUB else po2_at_least n (push_bit 1 n2)
      else Inr n2)"
  by pat_completeness auto
termination
  by (relation "measure (\<lambda>(n, n2). n - n2)") auto

declare po2_at_least.simps [simp del]

definition vec_reserve_po2_impl :: "'a vec_impl \<Rightarrow> nat \<Rightarrow> fault + (bool \<times> 'a vec_impl)" where
  "vec_reserve_po2_impl v n =
     (if n = 0 then Inr (True, v) else sbind (po2_at_least n 1) (vec_reserve_impl v))"

definition vec_compact_impl :: "'a vec_impl \<Rightarrow> fault + (bool \<times> 'a vec_impl)" where
  "vec_compact_impl v =
     (if vec_len v = 0 then Inr (True, v\<lparr>vec_data := [], vec_capacity := 0\<rparr>)
      else vec_realloc_impl v (vec_len v))"

definition vec_move :: "'a vec_impl \<Rightarrow> nat \<Rightarrow> nat \<Rightarrow> nat \<Rightarrow> fault + 'a vec_impl" where
  "vec_move v d s n =
     (if d + n \<le> length (vec_data v) \<and> s + n \<le> length (vec_data v)
      then Inr (v\<lparr>vec_data := mem_move d s n (vec_data v)\<rparr>) else Inl OutOfBounds)"

text \<open>The return value of \<open>vec_expand_impl\<close> is tested as an error code, as in the source.\<close>

definition vec_insert_impl :: "'a vec_impl \<Rightarrow> nat \<Rightarrow> fault + (bool \<times> 'a vec_impl)" where
  "vec_insert_impl v idx =
     sbind (vec_expand_impl v) (\<lambda>(err, v1).
     if err then Inr (err, v1)
     else if vec_len v1 < idx then Inl OutOfBounds
     else sbind (vec_move v1 (idx + 1) idx (vec_len v1 - idx)) (\<lambda>v2. Inr (False, v2)))"

definition vec_splice_impl :: "'a vec_impl \<Rightarrow> nat \<Rightarrow> nat \<Rightarrow> fault + 'a vec_impl" where
  "vec_splice_impl v start count =
     (if vec_len v < start + count then Inl OutOfBounds
      else vec_move v start (start + count) (vec_len v - start - count))"

definition vec_swapsplice_impl :: "'a vec_impl \<Rightarrow> nat \<Rightarrow> nat \<Rightarrow> fault + 'a vec_impl" where
  "vec_swapsplice_impl v start count =
     (if vec_len v < count then Inl OutOfBounds
      else vec_move v start (vec_len v - count) count)"

definition vec_swap_impl :: "'a vec_impl \<Rightarrow> nat \<Rightarrow> nat \<Rightarrow> fault + 'a vec_impl" where
  "vec_swap_impl v i j =
     (if i = j then Inr v
      else if i < length (vec_data v) \<and> j < length (vec_data v)
      then Inr (v\<lparr>vec_data := (vec_data v)[i := vec_data v ! j, j := vec_data v ! i]\<rparr>)
      else Inl OutOfBounds)"

subsection \<open>The macros of vec.h\<close>

definition vec_push :: "'a vec_impl \<Rightarrow> 'a \<Rightarrow> fault + (bool \<times> 'a vec_impl)" where
  "vec_push v val =
     sbind (vec_expand_impl v) (\<lambda>(ok, v1).
     Inr (if ok then (True, v1\<lparr>vec_data := (vec_data v1)[vec_len v1 := Some val], vec_len := vec_len v1 + 1\<rparr>)
          else (False, v1)))"

definition vec_at :: "'a vec_impl \<Rightarrow> nat \<Rightarrow> fault + 'a" where
  "vec_at v i =
     (if i < length (vec_data v)
      then (case vec_data v ! i of None \<Rightarrow> Inl Uninitialised | Some x \<Rightarrow> Inr x)
      else Inl OutOfBounds)"

definition vec_set :: "'a vec_impl \<Rightarrow> nat \<Rightarrow> 'a \<Rightarrow> fault + 'a vec_impl" where
  "vec_set v i x =
     (if i < length (vec_data v) then Inr (v\<lparr>vec_data := (vec_data v)[i := Some x]\<rparr>)
      else Inl OutOfBounds)"

definition vec_pop :: "'a vec_impl \<Rightarrow> fault + ('a \<times> 'a vec_impl)" where
  "vec_pop v =
     (if vec_len v = 0 then Inl OutOfBounds
      else let v1 = v\<lparr>vec_len := vec_len v - 1\<rparr> in
           sbind (vec_at v1 (vec_len v1)) (\<lambda>x. Inr (x, v1)))"

definition vec_splice :: "'a vec_impl \<Rightarrow> nat \<Rightarrow> nat \<Rightarrow> fault + 'a vec_impl" where
  "vec_splice v start count =
     sbind (vec_splice_impl v start count) (\<lambda>v1. Inr (v1\<lparr>vec_len := vec_len v1 - count\<rparr>))"

definition vec_swapsplice :: "'a vec_impl \<Rightarrow> nat \<Rightarrow> nat \<Rightarrow> fault + 'a vec_impl" where
  "vec_swapsplice v start count =
     sbind (vec_swapsplice_impl v start count) (\<lambda>v1. Inr (v1\<lparr>vec_len := vec_len v1 - count\<rparr>))"

definition vec_insert :: "'a vec_impl \<Rightarrow> nat \<Rightarrow> 'a \<Rightarrow> fault + (bool \<times> 'a vec_impl)" where
  "vec_insert v idx val =
     sbind (vec_insert_impl v idx) (\<lambda>(result, v1).
       if result
       then sbind (vec_set v1 idx val) (\<lambda>v2. Inr (True, v2\<lparr>vec_len := vec_len v2 + 1\<rparr>))
       else Inr (False, v1))"

definition vec_truncate :: "'a vec_impl \<Rightarrow> nat \<Rightarrow> 'a vec_impl" where
  "vec_truncate v len = v\<lparr>vec_len := (if len < vec_len v then len else vec_len v)\<rparr>"

definition vec_clear :: "'a vec_impl \<Rightarrow> 'a vec_impl" where
  "vec_clear v = v\<lparr>vec_len := 0\<rparr>"

fun vec_find_from :: "'a vec_impl \<Rightarrow> 'a \<Rightarrow> nat list \<Rightarrow> fault + int" where
  "vec_find_from v val [] = Inr (-1)"
| "vec_find_from v val (i # is) =
     sbind (vec_at v i) (\<lambda>x. if x = val then Inr (int i) else vec_find_from v val is)"

definition vec_find :: "'a vec_impl \<Rightarrow> 'a \<Rightarrow> fault + int" where
  "vec_find v val = vec_find_from v val [0..<vec_len v]"

definition vec_remove :: "'a vec_impl \<Rightarrow> 'a \<Rightarrow> fault + 'a vec_impl" where
  "vec_remove v val =
     sbind (vec_find v val) (\<lambda>idx. if idx \<noteq> -1 then vec_splice v (nat idx) 1 else Inr v)"

definition vec_reverse :: "'a vec_impl \<Rightarrow> fault + 'a vec_impl" where
  "vec_reverse v =
     for_each (\<lambda>i w. vec_swap_impl w i (vec_len v - (i + 1))) (rev [0..<vec_len v div 2]) v"

section \<open>Invariant and abstraction\<close>

definition vec_inv :: "'a vec_impl \<Rightarrow> bool" where
  "vec_inv v \<longleftrightarrow> length (vec_data v) = vec_capacity v \<and> vec_len v \<le> vec_capacity v \<and>
     (\<forall>i < vec_len v. vec_data v ! i \<noteq> None)"

definition vec_list :: "'a vec_impl \<Rightarrow> 'a list" where
  "vec_list v = map the (take (vec_len v) (vec_data v))"

lemma vec_inv_init: "vec_inv (vec_init_impl n a)"
  by (simp add: vec_inv_def vec_init_impl_def)

lemma vec_list_init: "vec_list (vec_init_impl n a) = []"
  by (simp add: vec_list_def vec_init_impl_def)

lemma length_vec_list: "vec_inv v \<Longrightarrow> length (vec_list v) = vec_len v"
  by (simp add: vec_list_def vec_inv_def)

lemma vec_at_list: "vec_inv v \<Longrightarrow> i < vec_len v \<Longrightarrow> vec_at v i = Inr (vec_list v ! i)"
  by (auto simp: vec_at_def vec_list_def vec_inv_def split: option.split)

lemma vec_data_take:
  assumes "vec_inv v"
  shows "take (vec_len v) (vec_data v) = map Some (vec_list v)"
proof (rule nth_equalityI)
  show "length (take (vec_len v) (vec_data v)) = length (map Some (vec_list v))"
    using assms by (simp add: vec_inv_def vec_list_def)
next
  fix i assume "i < length (take (vec_len v) (vec_data v))"
  with assms have "i < vec_len v" "i < length (vec_data v)" by (auto simp: vec_inv_def)
  with assms have "vec_data v ! i \<noteq> None" by (simp add: vec_inv_def)
  with \<open>i < vec_len v\<close> \<open>i < length (vec_data v)\<close>
  show "take (vec_len v) (vec_data v) ! i = map Some (vec_list v) ! i"
    by (auto simp: vec_list_def)
qed

text \<open>A vector is determined, up to the cells past its length, by its list.\<close>

lemma vec_listI:
  assumes "vec_len v = length xs" "length (vec_data v) = vec_capacity v" "length xs \<le> vec_capacity v"
    and "take (length xs) (vec_data v) = map Some xs"
  shows "vec_inv v \<and> vec_list v = xs"
proof
  show "vec_list v = xs" using assms by (simp add: vec_list_def)
  have "vec_data v ! i = Some (xs ! i)" if "i < length xs" for i
    using arg_cong [where f = "\<lambda>l. l ! i", OF assms(4)] that by simp
  with assms show "vec_inv v" by (auto simp: vec_inv_def)
qed

lemma vec_realloc_list:
  assumes "vec_inv v" and "vec_alloc v (n * vec_data_size v)" and "vec_len v \<le> n" and "int (n * vec_data_size v) \<le> INT_MAX"
  shows "\<exists>w. vec_realloc_impl v n = Inr (True, w) \<and> vec_inv w \<and> vec_list w = vec_list v \<and> vec_capacity w = n \<and>
     vec_len w = vec_len v \<and> vec_alloc w = vec_alloc v \<and> vec_data_size w = vec_data_size v"
proof -
  have len: "length (vec_list v) = vec_len v" using assms(1) by (rule length_vec_list)
  define w where "w = v\<lparr>vec_data := map Some (vec_list v) @ replicate (n - vec_len v) None, vec_capacity := n\<rparr>"
  have r: "vec_realloc_impl v n = Inr (True, w)"
    using assms vec_data_take [OF assms(1)]
    by (auto simp: w_def vec_realloc_impl_def mem_cpy_eq vec_inv_def Let_def min_def)
  have "vec_inv w \<and> vec_list w = vec_list v"
    using len assms(3) by (intro vec_listI) (auto simp: w_def)
  with r show ?thesis by (simp add: w_def)
qed

text \<open>
  The vector can take one more element without leaving the range of \<open>int\<close>, and the allocator has the
  memory for it when the buffer is full.
\<close>

definition vec_fits :: "'a vec_impl \<Rightarrow> bool" where
  "vec_fits v \<longleftrightarrow> int (vec_len v) < INT_MAX \<and> (vec_len v = vec_capacity v \<longrightarrow>
     int (vec_capacity v * 2) \<le> INT_MAX \<and> int (max 1 (vec_capacity v * 2) * vec_data_size v) \<le> INT_MAX)"

definition vec_room :: "'a vec_impl \<Rightarrow> bool" where
  "vec_room v \<longleftrightarrow> (vec_len v = vec_capacity v \<longrightarrow> vec_alloc v (max 1 (vec_capacity v * 2) * vec_data_size v))"

lemma vec_expand_full:
  assumes "vec_inv v" "vec_fits v" "vec_len v = vec_capacity v"
  shows "vec_expand_impl v = vec_realloc_impl v (max 1 (vec_capacity v * 2))"
  using assms by (auto simp: vec_expand_impl_def vec_fits_def max_def)

lemma vec_expand_list:
  assumes "vec_inv v" and "vec_fits v" and "vec_room v"
  shows "\<exists>w. vec_expand_impl v = Inr (True, w) \<and> vec_inv w \<and> vec_list w = vec_list v \<and> vec_len w < vec_capacity w \<and>
     vec_len w = vec_len v \<and> vec_alloc w = vec_alloc v \<and> vec_data_size w = vec_data_size v"
proof (cases "vec_len v = vec_capacity v")
  case True
  let ?n = "max 1 (vec_capacity v * 2)"
  have n: "vec_len v < ?n" using True by auto
  have "vec_alloc v (?n * vec_data_size v)" "int (?n * vec_data_size v) \<le> INT_MAX"
    using assms True by (simp_all add: vec_room_def vec_fits_def)
  from vec_realloc_list [OF assms(1) this(1) _ this(2)] n show ?thesis
    unfolding vec_expand_full [OF assms(1,2) True] by auto
next
  case False
  with assms show ?thesis by (auto simp: vec_expand_impl_def vec_fits_def vec_inv_def)
qed

lemma vec_expand_refused:
  assumes "vec_inv v" and "vec_fits v" and "\<not> vec_room v"
  shows "vec_expand_impl v = Inr (False, v)"
  using assms vec_expand_full [OF assms(1,2)] by (auto simp: vec_room_def vec_fits_def vec_realloc_impl_def)

lemma vec_push_list:
  assumes inv: "vec_inv v" and fits: "vec_fits v" and room: "vec_room v"
  shows "\<exists>w. vec_push v x = Inr (True, w) \<and> vec_inv w \<and> vec_list w = vec_list v @ [x] \<and> vec_alloc w = vec_alloc v"
proof -
  obtain u where u: "vec_expand_impl v = Inr (True, u)" and eu: "vec_inv u" "vec_list u = vec_list v"
    "vec_len u < vec_capacity u" "vec_alloc u = vec_alloc v"
    using vec_expand_list [OF inv fits room] by blast
  let ?w = "u\<lparr>vec_data := (vec_data u)[vec_len u := Some x], vec_len := vec_len u + 1\<rparr>"
  have "take (Suc (vec_len u)) ((vec_data u)[vec_len u := Some x]) = map Some (vec_list u @ [x])"
    using eu vec_data_take [OF eu(1)] by (simp add: vec_inv_def take_Suc_update)
  then have "vec_inv ?w \<and> vec_list ?w = vec_list u @ [x]"
    using eu length_vec_list [OF eu(1)] by (intro vec_listI) (auto simp: vec_inv_def)
  with u eu show ?thesis by (simp add: vec_push_def)
qed

lemma vec_push_refused: "vec_inv v \<Longrightarrow> vec_fits v \<Longrightarrow> \<not> vec_room v \<Longrightarrow> vec_push v x = Inr (False, v)"
  by (simp add: vec_push_def vec_expand_refused)

lemma vec_splice_list:
  assumes inv: "vec_inv v" and rng: "start + count \<le> vec_len v"
  shows "\<exists>w. vec_splice v start count = Inr w \<and> vec_inv w \<and>
     vec_list w = take start (vec_list v) @ drop (start + count) (vec_list v) \<and>
     vec_alloc w = vec_alloc v \<and> vec_capacity w = vec_capacity v"
proof -
  let ?k = "vec_len v - start - count"
  have len: "length (vec_data v) = vec_capacity v" "vec_len v \<le> vec_capacity v"
    using inv by (auto simp: vec_inv_def)
  define w where "w = v\<lparr>vec_data := moved start (start + count) ?k (vec_data v),
    vec_len := vec_len v - count\<rparr>"
  have 1: "vec_splice v start count = Inr w"
    using rng len by (simp add: vec_splice_def vec_splice_impl_def vec_move_def w_def mem_move_eq_moved)
  have cells: "vec_data v = map Some (vec_list v) @ drop (vec_len v) (vec_data v)"
    using vec_data_take [OF inv] by (metis append_take_drop_id)
  let ?xs = "take start (vec_list v) @ drop (start + count) (vec_list v)"
  have 3: "length ?xs = vec_len v - count"
    using rng length_vec_list [OF inv] by simp
  have "take (length ?xs) (vec_data w) = map Some ?xs"
  proof -
    define L R where "L = vec_list v" and "R = drop (vec_len v) (vec_data v)"
    have D: "vec_data v = map Some L @ R" and l: "length L = vec_len v"
      using cells length_vec_list [OF inv] by (simp_all add: L_def R_def)
    obtain e where "vec_len v = start + count + e" using rng by (auto simp: le_iff_add)
    then show ?thesis
      using l unfolding 3 by (simp add: w_def D L_def [symmetric] moved_def drop_map take_map)
  qed
  then have "vec_inv w \<and> vec_list w = ?xs"
    using 3 rng len by (intro vec_listI) (auto simp: w_def length_moved)
  with 1 show ?thesis by (simp add: w_def)
qed


lemma vec_pop_list:
  assumes inv: "vec_inv v" and any: "vec_list v \<noteq> []"
  shows "\<exists>w. vec_pop v = Inr (last (vec_list v), w) \<and> vec_inv w \<and> vec_list w = butlast (vec_list v)"
proof -
  have l: "length (vec_list v) = vec_len v" using inv by (rule length_vec_list)
  with any have pos: "0 < vec_len v" by (metis length_greater_0_conv)
  define w where "w = v\<lparr>vec_len := vec_len v - 1\<rparr>"
  have "vec_at w (vec_len w) = Inr (vec_list v ! (vec_len v - 1))"
    using vec_at_list [OF inv, of "vec_len v - 1"] pos by (simp add: w_def vec_at_def split: if_splits)
  then have 1: "vec_pop v = Inr (last (vec_list v), w)"
    using pos any l by (simp add: vec_pop_def w_def last_conv_nth)
  have "vec_inv w \<and> vec_list w = butlast (vec_list v)"
    using inv pos l vec_data_take [OF inv]
    by (intro vec_listI)
      (auto simp: w_def vec_inv_def butlast_conv_take take_map [symmetric] min_def
        dest: arg_cong [where f = "take (vec_len v - 1)"])
  with 1 show ?thesis by blast
qed

lemma vec_set_list:
  assumes inv: "vec_inv v" and i: "i < vec_len v"
  shows "\<exists>w. vec_set v i x = Inr w \<and> vec_inv w \<and> vec_list w = (vec_list v)[i := x] \<and>
     vec_alloc w = vec_alloc v \<and> vec_capacity w = vec_capacity v"
proof -
  define w where "w = v\<lparr>vec_data := (vec_data v)[i := Some x]\<rparr>"
  have "vec_inv w \<and> vec_list w = (vec_list v)[i := x]"
    using inv i length_vec_list [OF inv] vec_data_take [OF inv]
    by (intro vec_listI) (auto simp: w_def vec_inv_def take_update_swap map_update)
  then show ?thesis using inv i by (auto simp: vec_set_def w_def vec_inv_def)
qed

text \<open>
  What the insertion macro does: the element at the insertion point is overwritten, nothing is
  shifted, and the length grows over whatever the cell past the end happens to hold.
\<close>

lemma vec_insert_cells:
  assumes inv: "vec_inv v" and fits: "vec_fits v" "vec_room v" and idx: "idx \<le> vec_len v"
  shows "\<exists>u w. vec_insert v idx x = Inr (True, w) \<and> vec_len w = vec_len v + 1 \<and>
     vec_capacity w = length (vec_data w) \<and> vec_len w \<le> vec_capacity w \<and>
     take (vec_len v) (vec_data w) = map Some ((vec_list v)[idx := x]) \<and> vec_expand_impl v = Inr (True, u) \<and>
     (idx < vec_len v \<longrightarrow> vec_data w ! vec_len v = vec_data u ! vec_len v)"
proof -
  obtain u where u: "vec_expand_impl v = Inr (True, u)" and eu: "vec_inv u" "vec_list u = vec_list v"
    "vec_len u < vec_capacity u" "vec_len u = vec_len v"
    using vec_expand_list [OF inv fits] by blast
  have cap: "length (vec_data u) = vec_capacity u" using eu(1) by (simp add: vec_inv_def)
  have 1: "vec_insert v idx x =
      Inr (True, u\<lparr>vec_data := (vec_data u)[idx := Some x], vec_len := vec_len u + 1\<rparr>)"
    using u eu cap idx by (simp add: vec_insert_def vec_insert_impl_def vec_set_def)
  have 2: "take (vec_len v) ((vec_data u)[idx := Some x]) = map Some ((vec_list v)[idx := x])"
    using vec_data_take [OF eu(1)] eu by (simp add: take_update_swap map_update)
  show ?thesis
    unfolding 1 using 2 eu cap u by auto
qed

subsection \<open>Search and removal\<close>

lemma vec_find_from_spec:
  assumes inv: "vec_inv v" and ix: "set ks \<subseteq> {..<vec_len v}"
  shows "vec_find_from v x ks =
     Inr (case find (\<lambda>i. vec_list v ! i = x) ks of None \<Rightarrow> -1 | Some i \<Rightarrow> int i)"
  using ix by (induction ks) (auto simp: vec_at_list [OF inv])

lemma find_upt_remove1:
  "(case find (\<lambda>i. xs ! i = x) [0..<length xs] of
      None \<Rightarrow> xs | Some i \<Rightarrow> take i xs @ drop (Suc i) xs) = remove1 x xs"
proof (induction xs)
  case Nil
  then show ?case by simp
next
  case (Cons y xs)
  have shift: "find P (map Suc ks) = map_option Suc (find (\<lambda>i. P (Suc i)) ks)" for P ks
    by (induction ks) auto
  have "[0..<length (y # xs)] = 0 # map Suc [0..<length xs]"
    by (simp add: map_Suc_upt upt_conv_Cons del: upt_Suc)
  with Cons.IH show ?case
    by (auto simp: shift split: option.splits simp del: upt_Suc)
qed

lemma vec_remove_list:
  assumes inv: "vec_inv v"
  shows "\<exists>w. vec_remove v x = Inr w \<and> vec_inv w \<and> vec_list w = remove1 x (vec_list v) \<and>
     vec_alloc w = vec_alloc v"
proof -
  have l: "length (vec_list v) = vec_len v" using inv by (rule length_vec_list)
  let ?f = "find (\<lambda>i. vec_list v ! i = x) [0..<vec_len v]"
  have f: "vec_find v x = Inr (case ?f of None \<Rightarrow> -1 | Some i \<Rightarrow> int i)"
    unfolding vec_find_def by (rule vec_find_from_spec [OF inv]) auto
  have r: "remove1 x (vec_list v) =
      (case ?f of None \<Rightarrow> vec_list v | Some i \<Rightarrow> take i (vec_list v) @ drop (Suc i) (vec_list v))"
    using find_upt_remove1 [of "vec_list v" x] l by simp
  show ?thesis
  proof (cases ?f)
    case None
    with f r inv show ?thesis by (simp add: vec_remove_def)
  next
    case (Some i)
    then have "i < vec_len v" by (auto simp: find_Some_iff)
    then have "i + 1 \<le> vec_len v" by simp
    from vec_splice_list [OF inv this] show ?thesis
      using Some f r by (auto simp: vec_remove_def)
  qed
qed

subsection \<open>Reversal and power-of-two reservation\<close>

lemma vec_swap_list:
  assumes inv: "vec_inv v" and i: "i < vec_len v" "j < vec_len v"
  shows "\<exists>w. vec_swap_impl v i j = Inr w \<and> vec_inv w \<and> vec_len w = vec_len v \<and>
     vec_list w = (vec_list v)[i := vec_list v ! j, j := vec_list v ! i]"
proof (cases "i = j")
  case True
  with inv i length_vec_list [OF inv] show ?thesis by (simp add: vec_swap_impl_def)
next
  case False
  have cap: "length (vec_data v) = vec_capacity v" "vec_len v \<le> vec_capacity v"
    using inv by (auto simp: vec_inv_def)
  have cell: "vec_data v ! k = Some (vec_list v ! k)" if "k < vec_len v" for k
    using arg_cong [where f = "\<lambda>l. l ! k", OF vec_data_take [OF inv]] that length_vec_list [OF inv]
    by simp
  define w where "w = v\<lparr>vec_data := (vec_data v)[i := vec_data v ! j, j := vec_data v ! i]\<rparr>"
  have "vec_inv w \<and> vec_list w = (vec_list v)[i := vec_list v ! j, j := vec_list v ! i]"
    using inv i length_vec_list [OF inv] vec_data_take [OF inv]
    by (intro vec_listI) (auto simp: w_def vec_inv_def take_update_swap map_update cell)
  moreover have "vec_swap_impl v i j = Inr w"
    using False i cap by (simp add: vec_swap_impl_def w_def)
  ultimately show ?thesis by (auto simp: w_def)
qed

lemma vec_reverse_loop:
  assumes inv: "vec_inv v" and k: "k \<le> vec_len v div 2"
  shows "\<exists>w. for_each (\<lambda>i w. vec_swap_impl w i (vec_len v - (i + 1))) (rev [k..<vec_len v div 2]) v
       = Inr w \<and> vec_inv w \<and> vec_len w = vec_len v \<and>
     (\<forall>m < vec_len v. vec_list w ! m =
        (if k \<le> m \<and> m < vec_len v - k then vec_list v ! (vec_len v - 1 - m) else vec_list v ! m))"
  using k
proof (induction k rule: inc_induct)
  case base
  have "vec_list v ! m = vec_list v ! (vec_len v - 1 - m)"
    if "vec_len v div 2 \<le> m" "m < vec_len v - vec_len v div 2" for m
  proof -
    from that have "vec_len v - 1 - m = m" by arith
    then show ?thesis by simp
  qed
  with inv show ?case by auto
next
  case (step k)
  let ?n = "vec_len v"
  let ?f = "\<lambda>i w. vec_swap_impl w i (?n - (i + 1))"
  from step.IH obtain u where u: "for_each ?f (rev [Suc k..<?n div 2]) v = Inr u"
    and iu: "vec_inv u" "vec_len u = ?n"
    and nu: "\<forall>m < ?n. vec_list u ! m =
        (if Suc k \<le> m \<and> m < ?n - Suc k then vec_list v ! (?n - 1 - m) else vec_list v ! m)"
    by blast
  have kn: "k < ?n" "?n - (k + 1) < ?n" "k < ?n - (k + 1)" "k < ?n - k" "?n - (k + 1) < ?n - k"
    using step.hyps by arith+
  obtain w where w: "vec_swap_impl u k (?n - (k + 1)) = Inr w" "vec_inv w" "vec_len w = ?n"
    "vec_list w = (vec_list u)[k := vec_list u ! (?n - (k + 1)), ?n - (k + 1) := vec_list u ! k]"
    using vec_swap_list [OF iu(1), of k "?n - (k + 1)"] iu kn by auto
  have lu: "length (vec_list u) = ?n" using length_vec_list [OF iu(1)] iu by simp
  have "vec_list w ! m = (if k \<le> m \<and> m < ?n - k then vec_list v ! (?n - 1 - m) else vec_list v ! m)"
    if m: "m < ?n" for m
  proof -
    consider "m = k" | "m = ?n - (k + 1)" | "m \<noteq> k" "m \<noteq> ?n - (k + 1)" by blast
    then show ?thesis
    proof cases
      case 1
      with w(4) lu kn nu [rule_format, of "?n - (k + 1)"] show ?thesis by simp
    next
      case 2
      with w(4) lu kn nu [rule_format, of k] show ?thesis by simp
    next
      case 3
      with w(4) lu kn nu [rule_format, of m] m show ?thesis by auto
    qed
  qed
  moreover have "for_each ?f (rev [k..<?n div 2]) v = Inr w"
    using u w(1) step.hyps by (simp add: upt_conv_Cons for_each_append)
  ultimately show ?case using w by blast
qed

lemma vec_reverse_list:
  assumes inv: "vec_inv v"
  shows "\<exists>w. vec_reverse v = Inr w \<and> vec_inv w \<and> vec_list w = rev (vec_list v)"
proof -
  obtain w where w: "vec_reverse v = Inr w" "vec_inv w" "vec_len w = vec_len v"
    "\<forall>m < vec_len v. vec_list w ! m = vec_list v ! (vec_len v - 1 - m)"
    using vec_reverse_loop [OF inv, of 0] by (auto simp: vec_reverse_def)
  have "vec_list w = rev (vec_list v)"
    by (rule nth_equalityI) (use w length_vec_list [OF inv] length_vec_list [OF w(2)] in \<open>auto simp: rev_nth\<close>)
  with w show ?thesis by blast
qed

lemma po2_at_least_ge: "0 < m \<Longrightarrow> po2_at_least n m = Inr k \<Longrightarrow> n \<le> k"
proof (induction n m rule: po2_at_least.induct)
  case (1 n m)
  then show ?case
    by (cases "m < n") (auto simp: po2_at_least.simps [of n m] split: if_splits)
qed

section \<open>The array interface\<close>

text \<open>
  What the kernel's tables rely on: a vector is a list that can be read by index, extended at
  its end and shortened anywhere. The components above this one use the list directly.
\<close>

locale list_array =
  fixes push :: "'v \<Rightarrow> 'a \<Rightarrow> fault + (bool \<times> 'v)"
    and get :: "'v \<Rightarrow> nat \<Rightarrow> fault + 'a"
    and splice :: "'v \<Rightarrow> nat \<Rightarrow> nat \<Rightarrow> fault + 'v"
    and remove :: "'v \<Rightarrow> 'a \<Rightarrow> fault + 'v"
    and elems :: "'v \<Rightarrow> 'a list"
    and invar :: "'v \<Rightarrow> bool"
    and fits :: "'v \<Rightarrow> bool"
    and room :: "'v \<Rightarrow> bool"
  assumes push_elems: "invar v \<Longrightarrow> fits v \<Longrightarrow> room v \<Longrightarrow>
      \<exists>w. push v x = Inr (True, w) \<and> invar w \<and> elems w = elems v @ [x]"
    and push_refused: "invar v \<Longrightarrow> fits v \<Longrightarrow> \<not> room v \<Longrightarrow> push v x = Inr (False, v)"
    and get_elems: "invar v \<Longrightarrow> i < length (elems v) \<Longrightarrow> get v i = Inr (elems v ! i)"
    and splice_elems: "invar v \<Longrightarrow> i + n \<le> length (elems v) \<Longrightarrow>
      \<exists>w. splice v i n = Inr w \<and> invar w \<and> elems w = take i (elems v) @ drop (i + n) (elems v)"
    and remove_elems: "invar v \<Longrightarrow>
      \<exists>w. remove v x = Inr w \<and> invar w \<and> elems w = remove1 x (elems v)"
begin

lemma push_remove:
  assumes "invar v" "fits v" "room v" and "x \<notin> set (elems v)"
  shows "\<exists>u w. push v x = Inr (True, u) \<and> remove u x = Inr w \<and> invar w \<and> elems w = elems v"
proof -
  from push_elems [OF assms(1-3), of x] obtain u where u: "push v x = Inr (True, u)" "invar u" "elems u = elems v @ [x]" by blast
  then show ?thesis
    using remove_elems [OF u(2), of x] assms(4) by (auto simp: remove1_append)
qed

lemma push_get:
  assumes "invar v" "fits v" "room v"
  shows "\<exists>u. push v x = Inr (True, u) \<and> get u (length (elems v)) = Inr x"
proof -
  from push_elems [OF assms, of x] obtain u where u: "push v x = Inr (True, u)" "invar u" "elems u = elems v @ [x]" by blast
  then show ?thesis using get_elems [OF u(2), of "length (elems v)"] by auto
qed

end

interpretation vec: list_array vec_push vec_at vec_splice vec_remove vec_list vec_inv vec_fits vec_room
proof (unfold_locales, goal_cases)
  case (1 v x)
  then show ?case using vec_push_list [of v x] by blast
next
  case (2 v x)
  then show ?case by (rule vec_push_refused)
next
  case (3 v i)
  then show ?case by (simp add: vec_at_list length_vec_list)
next
  case (4 v i n)
  then show ?case using vec_splice_list [of v i n] length_vec_list [of v] by auto
next
  case (5 v x)
  then show ?case using vec_remove_list [of v x] by auto
qed

text \<open>A vector whose allocator always has memory.\<close>

definition vec_ok :: "'a vec_impl \<Rightarrow> bool" where
  "vec_ok v \<longleftrightarrow> vec_inv v \<and> (\<forall>n. vec_alloc v n)"

section \<open>Properties\<close>

text \<open>
  C24. Pushing, splicing, removing and reversing a growable array are the operations on its list. For
  an array that can hold one more element in the range of \<open>int\<close>, pushing appends the element (growing
  the buffer by doubling), or, exactly when the buffer is full and the allocator refuses the larger
  one, reports failure and changes nothing; splicing removes exactly the given positions, removing a
  value removes its first occurrence, and reversing reverses. None of them reads or writes outside
  the buffer or overflows an \<open>int\<close>. (Insertion is not among them: see \<open>vec_insert_overwrites\<close>.)
\<close>

theorem vec_refines_list:
  assumes "vec_inv v" and "vec_fits v"
  shows "(\<exists>w. vec_push v x = Inr (vec_room v, w) \<and> vec_inv w \<and> (if vec_room v then vec_list w = vec_list v @ [x] else w = v)) \<and>
     (\<forall>i n. i + n \<le> length (vec_list v) \<longrightarrow> (\<exists>w. vec_splice v i n = Inr w \<and> vec_inv w \<and>
        vec_list w = take i (vec_list v) @ drop (i + n) (vec_list v))) \<and>
     (\<exists>w. vec_remove v x = Inr w \<and> vec_inv w \<and> vec_list w = remove1 x (vec_list v)) \<and>
     (\<exists>w. vec_reverse v = Inr w \<and> vec_inv w \<and> vec_list w = rev (vec_list v))"
proof -
  have "\<exists>w. vec_push v x = Inr (vec_room v, w) \<and> vec_inv w \<and> (if vec_room v then vec_list w = vec_list v @ [x] else w = v)"
    using vec.push_elems [OF assms, of x] vec.push_refused [OF assms, of x] assms(1) by (cases "vec_room v") auto
  then show ?thesis
    using vec.splice_elems [OF assms(1)] vec.remove_elems [OF assms(1), of x] vec_reverse_list [OF assms(1)] by blast
qed

theorem vec_refines_list_witness:
  "\<exists>w. vec_push \<lparr>vec_data = [Some (7 :: nat)], vec_len = 1, vec_alloc = (\<lambda>n. n \<le> 8), vec_data_size = 4, vec_capacity = 1\<rparr> 9 = Inr (True, w) \<and>
     vec_list w = [7, 9]"
proof -
  let ?v = "\<lparr>vec_data = [Some (7 :: nat)], vec_len = 1, vec_alloc = (\<lambda>n. n \<le> 8), vec_data_size = 4, vec_capacity = 1\<rparr>"
  have "vec_inv ?v" "vec_fits ?v" by (simp_all add: vec_inv_def vec_fits_def INT_MAX_def)
  from vec_refines_list [OF this, of 9] show ?thesis by (auto simp: vec_room_def vec_list_def)
qed

text \<open>
  Inserting into the middle of an array loses an element: the insertion succeeds and the length
  grows by one, but the element at the insertion point is overwritten instead of moved, and when
  the array was full the new last element is an uninitialised cell.
\<close>

theorem vec_insert_overwrites:
  assumes "vec_inv v" "vec_fits v" "vec_room v" "vec_len v = vec_capacity v" "idx < vec_len v"
  shows "\<exists>w. vec_insert v idx x = Inr (True, w) \<and> vec_len w = vec_len v + 1 \<and>
     (\<forall>i < vec_len v. vec_at w i = Inr ((vec_list v)[idx := x] ! i)) \<and>
     vec_at w (vec_len v) = Inl Uninitialised"
proof -
  have ll: "length (vec_list v) = vec_len v" by (rule length_vec_list [OF assms(1)])
  obtain u w where w: "vec_insert v idx x = Inr (True, w)" "vec_len w = vec_len v + 1"
    "vec_capacity w = length (vec_data w)" "vec_len w \<le> vec_capacity w"
    "take (vec_len v) (vec_data w) = map Some ((vec_list v)[idx := x])" "vec_expand_impl v = Inr (True, u)"
    "vec_data w ! vec_len v = vec_data u ! vec_len v"
    using vec_insert_cells [OF assms(1-3) less_imp_le [OF assms(5)], of x] assms(5) by blast
  have "vec_data w ! i = Some ((vec_list v)[idx := x] ! i)" if "i < vec_len v" for i
    using arg_cong [where f = "\<lambda>l. l ! i", OF w(5)] that ll by simp
  moreover have "vec_data u ! vec_len v = None"
    using assms w(6) unfolding vec_expand_full [OF assms(1,2,4)]
    by (auto simp: vec_realloc_impl_def Let_def mem_cpy_eq vec_inv_def nth_append min_def split: if_splits)
  ultimately show ?thesis using w by (auto simp: vec_at_def)
qed

theorem vec_insert_overwrites_witness:
  "\<exists>w. vec_insert \<lparr>vec_data = [Some (1 :: nat), Some 2], vec_len = 2, vec_alloc = (\<lambda>_. True),
       vec_data_size = 8, vec_capacity = 2\<rparr> 0 9 = Inr (True, w) \<and> vec_at w 2 = Inl Uninitialised"
proof -
  define v where "v = \<lparr>vec_data = [Some (1 :: nat), Some 2], vec_len = 2, vec_alloc = (\<lambda>_. True),
       vec_data_size = 8, vec_capacity = 2\<rparr>"
  have "vec_inv v" by (auto simp: v_def vec_inv_def less_Suc_eq numeral_2_eq_2)
  moreover have "vec_fits v" "vec_room v" by (simp_all add: v_def vec_fits_def vec_room_def INT_MAX_def)
  ultimately show ?thesis using vec_insert_overwrites [of v 0 9]
    unfolding v_def [symmetric] by (auto simp: v_def)
qed

end
