(* ===== verification/Ranges.thy ===== *)
theory Ranges
  imports Prelude
begin

text \<open>
  The address ranges of \<open>brutal-base/range.h\<close> and the alignment macros of \<open>macros.h\<close>, at the
  64-bit width of \<open>size_t\<close> and \<open>uintptr_t\<close>: sums and differences wrap. \<open>range_ok\<close> says that the
  end of a range does not, and \<open>range_set\<close> is the set of addresses it covers.
\<close>

section \<open>Model\<close>

record usize_range =
  rbase :: u64
  rsize :: u64

definition align_down :: "u64 \<Rightarrow> u64 \<Rightarrow> u64" where
  "align_down addr align = addr AND NOT (align - 1)"

definition align_up :: "u64 \<Rightarrow> u64 \<Rightarrow> u64" where
  "align_up addr align = (addr + align - 1) AND NOT (align - 1)"

definition mk_range :: "u64 \<Rightarrow> u64 \<Rightarrow> usize_range" where
  "mk_range b s = \<lparr>rbase = b, rsize = s\<rparr>"

definition range_empty :: "usize_range \<Rightarrow> bool" where
  "range_empty r = (rsize r = 0)"

definition range_any :: "usize_range \<Rightarrow> bool" where
  "range_any r = (rsize r > 0)"

definition range_begin :: "usize_range \<Rightarrow> u64" where
  "range_begin r = rbase r"

definition range_end :: "usize_range \<Rightarrow> u64" where
  "range_end r = rbase r + rsize r"

definition range_contain :: "usize_range \<Rightarrow> u64 \<Rightarrow> bool" where
  "range_contain r addr = (rbase r \<le> addr \<and> rsize r + rbase r \<ge> addr)"

definition range_contiguous :: "usize_range \<Rightarrow> usize_range \<Rightarrow> bool" where
  "range_contiguous l r = (range_begin l = range_end r \<or> range_end l = range_begin r)"

definition range_colide :: "usize_range \<Rightarrow> usize_range \<Rightarrow> bool" where
  "range_colide l r = (range_begin l < range_end r \<and> range_end l > range_begin r)"

definition range_touch :: "usize_range \<Rightarrow> usize_range \<Rightarrow> bool" where
  "range_touch l r = (range_colide l r \<or> range_contiguous l r)"

definition range_from_start_and_end :: "u64 \<Rightarrow> u64 \<Rightarrow> usize_range" where
  "range_from_start_and_end s e = mk_range s (e - s)"

definition range_merge :: "usize_range \<Rightarrow> usize_range \<Rightarrow> usize_range" where
  "range_merge l r =
     range_from_start_and_end (min (range_begin l) (range_begin r)) (max (range_end l) (range_end r))"

definition range_half_under :: "usize_range \<Rightarrow> usize_range \<Rightarrow> usize_range" where
  "range_half_under self split =
     (if range_colide self split \<and> rbase self < rbase split
      then mk_range (rbase self) (rbase split - rbase self) else mk_range 0 0)"

definition range_half_over :: "usize_range \<Rightarrow> usize_range \<Rightarrow> usize_range" where
  "range_half_over self split =
     (if range_colide self split \<and> range_end self > range_end split
      then mk_range (range_end split) (range_end self - range_end split) else mk_range 0 0)"

definition range_eq :: "usize_range \<Rightarrow> usize_range \<Rightarrow> bool" where
  "range_eq l r = (rbase l = rbase r \<and> rsize l = rsize r)"

definition range_mul :: "usize_range \<Rightarrow> u64 \<Rightarrow> usize_range" where
  "range_mul r v = mk_range (rbase r * v) (rsize r * v)"

definition range_div :: "usize_range \<Rightarrow> u64 \<Rightarrow> usize_range" where
  "range_div r v = mk_range (rbase r div v) (rsize r div v)"

definition range_align_bigger :: "usize_range \<Rightarrow> u64 \<Rightarrow> usize_range" where
  "range_align_bigger r align = mk_range (align_down (rbase r) align) (align_up (rsize r) align)"

definition range_align_smaller :: "usize_range \<Rightarrow> u64 \<Rightarrow> usize_range" where
  "range_align_smaller r align = mk_range (align_up (rbase r) align) (align_down (rsize r) align)"

text \<open>Page sizes and alignment tests of \<open>brutal-mem/const.h\<close> and \<open>pages.h\<close>.\<close>

definition MEM_PAGE_SIZE :: u64 where
  "MEM_PAGE_SIZE = 0x1000"

definition mem_is_addr_page_aligned :: "u64 \<Rightarrow> bool" where
  "mem_is_addr_page_aligned a = (a mod MEM_PAGE_SIZE = 0)"

definition mem_is_size_page_aligned :: "u64 \<Rightarrow> bool" where
  "mem_is_size_page_aligned s = (s mod MEM_PAGE_SIZE = 0)"

definition mem_is_range_page_aligned :: "usize_range \<Rightarrow> bool" where
  "mem_is_range_page_aligned r =
     (mem_is_addr_page_aligned (rbase r) \<and> mem_is_size_page_aligned (rsize r))"

section \<open>Ranges as address sets\<close>

definition range_ok :: "usize_range \<Rightarrow> bool" where
  "range_ok r \<longleftrightarrow> unat (rbase r) + unat (rsize r) < 2 ^ 64"

definition range_set :: "usize_range \<Rightarrow> nat set" where
  "range_set r = {unat (rbase r) ..< unat (rbase r) + unat (rsize r)}"

lemma mk_range_simps [simp]: "rbase (mk_range b s) = b" "rsize (mk_range b s) = s"
  by (simp_all add: mk_range_def)

lemma range_set_empty_iff [simp]: "range_set r = {} \<longleftrightarrow> rsize r = 0"
  by (auto simp: range_set_def unat_eq_0)

lemma unat_range_end: "range_ok r \<Longrightarrow> unat (range_end r) = unat (rbase r) + unat (rsize r)"
  by (simp add: range_ok_def range_end_def unat_plus_u64)

lemma range_set_alt: "range_ok r \<Longrightarrow> range_set r = {unat (rbase r) ..< unat (range_end r)}"
  by (simp add: range_set_def unat_range_end)

lemma range_colide_iff:
  assumes "range_ok l" "range_ok r"
  shows "range_colide l r \<longleftrightarrow>
     unat (rbase l) < unat (rbase r) + unat (rsize r) \<and> unat (rbase r) < unat (rbase l) + unat (rsize l)"
  using assms by (simp add: range_colide_def range_begin_def word_less_nat_alt unat_range_end)

text \<open>Two non-empty ranges collide exactly when they share an address.\<close>

lemma range_colide_set:
  assumes "range_ok l" "range_ok r" "rsize l \<noteq> 0" "rsize r \<noteq> 0"
  shows "range_colide l r \<longleftrightarrow> range_set l \<inter> range_set r \<noteq> {}"
proof -
  have pos: "0 < unat (rsize l)" "0 < unat (rsize r)" using assms by (auto simp: unat_gt_0)
  have "range_set l \<inter> range_set r = {max (unat (rbase l)) (unat (rbase r)) ..<
      min (unat (rbase l) + unat (rsize l)) (unat (rbase r) + unat (rsize r))}"
    by (simp add: range_set_def)
  then show ?thesis using pos by (auto simp: range_colide_iff [OF assms(1,2)])
qed

lemma range_half_under_set:
  assumes "range_ok self" "range_ok split" "range_colide self split"
  shows "range_ok (range_half_under self split) \<and>
     range_set (range_half_under self split) = {a \<in> range_set self. a < unat (rbase split)}"
proof (cases "rbase self < rbase split")
  case True
  then have lt: "unat (rbase self) < unat (rbase split)" by (simp add: word_less_nat_alt)
  have "unat (rbase split - rbase self) = unat (rbase split) - unat (rbase self)"
    using True by (simp add: unat_minus_u64)
  with True lt assms show ?thesis
    using unat_lt_u64 [of "rbase split"]
    by (auto simp: range_half_under_def range_ok_def range_set_def range_colide_iff)
next
  case False
  then have "unat (rbase split) \<le> unat (rbase self)" by (simp add: word_less_nat_alt)
  with False show ?thesis by (auto simp: range_half_under_def range_ok_def range_set_def)
qed

lemma range_half_over_set:
  assumes "range_ok self" "range_ok split" "range_colide self split"
  shows "range_ok (range_half_over self split) \<and>
     range_set (range_half_over self split) =
       {a \<in> range_set self. unat (rbase split) + unat (rsize split) \<le> a}"
proof (cases "range_end split < range_end self")
  case True
  then have lt: "unat (range_end split) < unat (range_end self)" by (simp add: word_less_nat_alt)
  have "unat (range_end self - range_end split) = unat (range_end self) - unat (range_end split)"
    using True by (simp add: unat_minus_u64)
  with True lt assms show ?thesis
    using unat_lt_u64 [of "range_end self"]
    by (auto simp: range_half_over_def range_ok_def range_set_def range_colide_iff unat_range_end)
next
  case False
  then have "unat (range_end self) \<le> unat (range_end split)" by (simp add: word_less_nat_alt)
  with False assms show ?thesis
    by (auto simp: range_half_over_def range_ok_def range_set_def unat_range_end)
qed

text \<open>What remains of a range when a colliding one is cut out of it.\<close>

lemma range_halves_set:
  assumes "range_ok self" "range_ok split" "range_colide self split"
  shows "range_set (range_half_under self split) \<union> range_set (range_half_over self split) =
     range_set self - range_set split"
proof -
  have "range_set split = {unat (rbase split) ..< unat (rbase split) + unat (rsize split)}"
    by (simp add: range_set_def)
  then show ?thesis
    using range_half_under_set [OF assms] range_half_over_set [OF assms] by auto
qed

lemma range_merge_set:
  assumes "range_ok l" "range_ok r" "range_contiguous l r"
  shows "range_ok (range_merge l r) \<and> range_set (range_merge l r) = range_set l \<union> range_set r"
proof -
  let ?b = "min (rbase l) (rbase r)" and ?e = "max (range_end l) (range_end r)"
  have b: "unat ?b = min (unat (rbase l)) (unat (rbase r))"
    by (simp add: min_def word_le_nat_alt)
  have e: "unat ?e = max (unat (range_end l)) (unat (range_end r))"
    by (simp add: max_def word_le_nat_alt)
  have c: "unat (rbase l) = unat (range_end r) \<or> unat (range_end l) = unat (rbase r)"
    using assms(3) by (auto simp: range_contiguous_def range_begin_def)
  have "?b \<le> ?e" using c b e assms(1,2) by (auto simp: word_le_nat_alt unat_range_end)
  then have "unat (?e - ?b) = unat ?e - unat ?b" by (rule unat_minus_u64)
  then have m: "rbase (range_merge l r) = ?b" "unat (rsize (range_merge l r)) = unat ?e - unat ?b"
    by (simp_all add: range_merge_def range_from_start_and_end_def range_begin_def)
  have el: "unat (range_end l) = unat (rbase l) + unat (rsize l)"
    and er: "unat (range_end r) = unat (rbase r) + unat (rsize r)"
    using assms(1,2) by (simp_all add: unat_range_end)
  have "unat ?b \<le> unat ?e" using \<open>?b \<le> ?e\<close> by (simp add: word_le_nat_alt)
  then have "range_ok (range_merge l r)"
    using unat_lt_u64 [of ?e] by (simp add: range_ok_def m)
  moreover have "range_set (range_merge l r) = range_set l \<union> range_set r"
    unfolding range_set_def m(2) m(1) b e using c el er by auto
  ultimately show ?thesis by simp
qed

section \<open>Pages\<close>

lemma unat_page_size [simp]: "unat MEM_PAGE_SIZE = 4096"
  by (simp add: MEM_PAGE_SIZE_def)

lemma page_aligned_nat: "mem_is_addr_page_aligned a \<longleftrightarrow> 4096 dvd unat a"
  by (simp add: mem_is_addr_page_aligned_def dvd_eq_mod_eq_0 unat_mod flip: unat_eq_0)

lemma size_aligned_nat: "mem_is_size_page_aligned a \<longleftrightarrow> 4096 dvd unat a"
  by (simp add: mem_is_size_page_aligned_def mem_is_addr_page_aligned_def [symmetric] page_aligned_nat)

end
