(* ===== verification/Range_Alloc.thy ===== *)
theory Range_Alloc
  imports Vec Ranges
begin

text \<open>
  The range allocator of \<open>brutal-ds/range.c\<close>: a vector of free ranges. It is built on the vector
  as \<open>vec.c\<close> has it, so that what its insertion does to the vector shows here. The index that a
  loop of the source advances is a parameter of the function that models the loop.
\<close>

section \<open>Model\<close>

type_synonym range_alloc = "usize_range vec_impl"

definition range_alloc_init :: "(nat \<Rightarrow> bool) \<Rightarrow> range_alloc" where
  "range_alloc_init alloc = vec_init_impl 16 alloc"

definition range_alloc_deinit :: "range_alloc \<Rightarrow> range_alloc" where
  "range_alloc_deinit v = vec_deinit_impl v"

text \<open>The search of \<open>range_alloc_alloc\<close> over the remaining indices.\<close>

fun range_alloc_scan :: "range_alloc \<Rightarrow> u64 \<Rightarrow> nat list \<Rightarrow> fault + (usize_range \<times> range_alloc)" where
  "range_alloc_scan v sz [] = Inr (mk_range 0 0, v)"
| "range_alloc_scan v sz (i # is) =
     sbind (vec_at v i) (\<lambda>r.
       if rsize r = sz then sbind (vec_splice v i 1) (\<lambda>w. Inr (r, w))
       else if rsize r > sz
       then sbind (vec_set v i (mk_range (rbase r + sz) (rsize r - sz)))
              (\<lambda>w. Inr (mk_range (rbase r) sz, w))
       else range_alloc_scan v sz is)"

definition range_alloc_alloc :: "range_alloc \<Rightarrow> u64 \<Rightarrow> fault + (usize_range \<times> range_alloc)" where
  "range_alloc_alloc v sz = range_alloc_scan v sz [0..<vec_len v]"

text \<open>The two loops of \<open>range_alloc_compress\<close>; each turn removes an entry of the vector.\<close>

definition range_alloc_absorb :: "range_alloc \<Rightarrow> nat \<Rightarrow> nat \<Rightarrow> fault + range_alloc" where
  "range_alloc_absorb v start other =
     sbind (vec_at v start) (\<lambda>a. sbind (vec_at v other) (\<lambda>b.
     sbind (vec_set v start (range_merge a b)) (\<lambda>w. vec_splice w other 1)))"

definition range_alloc_touching :: "range_alloc \<Rightarrow> nat \<Rightarrow> nat \<Rightarrow> fault + bool" where
  "range_alloc_touching v i j =
     sbind (vec_at v i) (\<lambda>a. sbind (vec_at v j) (\<lambda>b. Inr (range_contiguous a b)))"

lemma vec_splice_len: "vec_splice v i n = Inr w \<Longrightarrow> vec_len w = vec_len v - n \<and> i + n \<le> vec_len v"
  by (auto simp: vec_splice_def vec_splice_impl_def vec_move_def split: if_splits)

lemma range_alloc_absorb_len:
  "range_alloc_absorb v i j = Inr w \<Longrightarrow> vec_len w < vec_len v"
  by (auto simp: range_alloc_absorb_def vec_set_def sbind_iff split: if_splits dest: vec_splice_len)

function range_alloc_compress_up :: "range_alloc \<Rightarrow> nat \<Rightarrow> fault + range_alloc" where
  "range_alloc_compress_up v start =
     (if start + 1 < vec_len v
      then sbind (range_alloc_touching v start (start + 1)) (\<lambda>t.
             if t then sbind (range_alloc_absorb v start (start + 1))
                         (\<lambda>w. range_alloc_compress_up w start)
             else Inr v)
      else Inr v)"
  by pat_completeness auto
termination
  by (relation "measure (\<lambda>(v, start). vec_len v)") (auto dest: range_alloc_absorb_len)

declare range_alloc_compress_up.simps [simp del]

text \<open>The second loop keeps \<open>start\<close> where it is, as the source does.\<close>

function range_alloc_compress_down :: "range_alloc \<Rightarrow> nat \<Rightarrow> fault + range_alloc" where
  "range_alloc_compress_down v start =
     (if start > 0
      then sbind (range_alloc_touching v start (start - 1)) (\<lambda>t.
             if t then sbind (range_alloc_absorb v start (start - 1))
                         (\<lambda>w. range_alloc_compress_down w start)
             else Inr v)
      else Inr v)"
  by pat_completeness auto
termination
  by (relation "measure (\<lambda>(v, start). vec_len v)") (auto dest: range_alloc_absorb_len)

declare range_alloc_compress_down.simps [simp del]

definition range_alloc_compress :: "range_alloc \<Rightarrow> nat \<Rightarrow> fault + range_alloc" where
  "range_alloc_compress v start =
     sbind (range_alloc_compress_up v start) (\<lambda>w. range_alloc_compress_down w start)"

fun range_alloc_unused_from :: "range_alloc \<Rightarrow> usize_range \<Rightarrow> nat list \<Rightarrow> fault + range_alloc" where
  "range_alloc_unused_from v r [] = sbind (vec_push v r) (\<lambda>(_, v). Inr v)"
| "range_alloc_unused_from v r (i # is) =
     sbind (vec_at v i) (\<lambda>cur.
       if range_contiguous cur r
       then sbind (vec_set v i (range_merge cur r)) (\<lambda>w. range_alloc_compress w i)
       else if i + 1 < vec_len v
       then sbind (vec_at v (i + 1)) (\<lambda>nxt.
              if rbase cur < rbase r \<and> rbase r < rbase nxt
              then sbind (vec_insert v (i + 1) r) (\<lambda>(_, w). Inr w)
              else range_alloc_unused_from v r is)
       else range_alloc_unused_from v r is)"

definition range_alloc_unused :: "range_alloc \<Rightarrow> usize_range \<Rightarrow> fault + range_alloc" where
  "range_alloc_unused v r = range_alloc_unused_from v r [0..<vec_len v]"

text \<open>
  The loop of \<open>range_alloc_used\<close> calls \<open>range_alloc_unused\<close>, which can lengthen the vector that
  the loop runs over; its fuel is the number of turns.
\<close>

fun range_alloc_used_loop :: "nat \<Rightarrow> range_alloc \<Rightarrow> usize_range \<Rightarrow> nat \<Rightarrow> fault + range_alloc" where
  "range_alloc_used_loop 0 v r i = Inl OutOfFuel"
| "range_alloc_used_loop (Suc fuel) v r i =
     (if i < vec_len v
      then sbind (vec_at v i) (\<lambda>curr.
        if range_eq curr r then vec_splice v i 1
        else if range_colide curr r
        then let lower_half = range_half_under curr r; upper_half = range_half_over curr r in
          sbind (if rsize lower_half \<noteq> 0
                 then sbind (vec_set v i lower_half) (\<lambda>w.
                        if rsize upper_half \<noteq> 0 then range_alloc_unused w upper_half else Inr w)
                 else if rsize upper_half \<noteq> 0 then vec_set v i upper_half
                 else Inr v)
            (\<lambda>w. range_alloc_used_loop fuel w r (i + 1))
        else range_alloc_used_loop fuel v r (i + 1))
      else Inr v)"

definition range_alloc_used :: "range_alloc \<Rightarrow> usize_range \<Rightarrow> fault + range_alloc" where
  "range_alloc_used v r = range_alloc_used_loop (2 * vec_len v + 2) v r 0"

section \<open>Free sets\<close>

definition free_set :: "usize_range list \<Rightarrow> nat set" where
  "free_set rs = \<Union> (range_set ` set rs)"

fun ranges_disjoint :: "usize_range list \<Rightarrow> bool" where
  "ranges_disjoint [] = True"
| "ranges_disjoint (r # rs) = (range_set r \<inter> free_set rs = {} \<and> ranges_disjoint rs)"

definition ranges_ok :: "usize_range list \<Rightarrow> bool" where
  "ranges_ok rs \<longleftrightarrow> (\<forall>r \<in> set rs. range_ok r) \<and> ranges_disjoint rs"

lemma free_set_simps [simp]:
  "free_set [] = {}" "free_set (r # rs) = range_set r \<union> free_set rs"
  "free_set (xs @ ys) = free_set xs \<union> free_set ys"
  by (auto simp: free_set_def)

lemma ranges_disjoint_append:
  "ranges_disjoint (xs @ ys) \<longleftrightarrow>
     ranges_disjoint xs \<and> ranges_disjoint ys \<and> free_set xs \<inter> free_set ys = {}"
  by (induction xs) auto

lemma ranges_ok_split:
  "ranges_ok (xs @ r # ys) \<longleftrightarrow> ranges_ok (xs @ ys) \<and> range_ok r \<and>
     range_set r \<inter> free_set (xs @ ys) = {}"
  by (auto simp: ranges_ok_def ranges_disjoint_append)

text \<open>Cutting the front off a range.\<close>

lemma range_cut_set:
  assumes "range_ok r" "sz < rsize r"
  defines "front \<equiv> mk_range (rbase r) sz" and "rear \<equiv> mk_range (rbase r + sz) (rsize r - sz)"
  shows "range_ok front \<and> range_ok rear \<and> range_set front \<union> range_set rear = range_set r \<and>
     range_set front \<inter> range_set rear = {}"
proof -
  have lt: "unat sz < unat (rsize r)" using assms(2) by (simp add: word_less_nat_alt)
  have b: "unat (rbase r + sz) = unat (rbase r) + unat sz"
    using lt assms(1) by (intro unat_plus_u64) (simp add: range_ok_def)
  have s: "unat (rsize r - sz) = unat (rsize r) - unat sz"
    using assms(2) by (intro unat_minus_u64) simp
  show ?thesis
    using lt assms(1) unfolding front_def rear_def
    by (auto simp: range_ok_def range_set_def b s)
qed

lemma range_alloc_scan_spec:
  assumes "vec_ok v" "ranges_ok (vec_list v)" "k \<le> vec_len v"
    and "\<forall>i < k. rsize (vec_list v ! i) < sz"
  shows "\<exists>r w. range_alloc_scan v sz [k..<vec_len v] = Inr (r, w) \<and> vec_ok w \<and> ranges_ok (vec_list w) \<and>
     (r = mk_range 0 0 \<and> w = v \<and> (\<forall>q \<in> set (vec_list v). rsize q < sz) \<or>
      rsize r = sz \<and> range_ok r \<and> range_set r \<subseteq> free_set (vec_list v) \<and>
      free_set (vec_list w) = free_set (vec_list v) - range_set r)"
  using assms(3,4)
proof (induction k rule: inc_induct)
  case base
  then have "\<forall>q \<in> set (vec_list v). rsize q < sz"
    using length_vec_list assms(1) by (metis in_set_conv_nth vec_ok_def)
  with assms(1,2) show ?case by auto
next
  case (step k)
  let ?r = "vec_list v ! k"
  have inv: "vec_inv v" "\<And>n. vec_alloc v n" using assms(1) by (auto simp: vec_ok_def)
  have kl: "k < length (vec_list v)" using step.hyps length_vec_list [OF inv(1)] by simp
  have at: "vec_at v k = Inr ?r" using inv(1) step.hyps by (simp add: vec_at_list)
  define xs ys where "xs = take k (vec_list v)" and "ys = drop (Suc k) (vec_list v)"
  have list: "vec_list v = xs @ ?r # ys" using kl by (simp add: xs_def ys_def id_take_nth_drop [symmetric])
  have ok: "range_ok ?r" "range_set ?r \<inter> free_set (xs @ ys) = {}" "ranges_ok (xs @ ys)"
    using assms(2) list by (simp_all add: ranges_ok_split [of xs ?r ys, folded list])
  have fs: "free_set (vec_list v) = range_set ?r \<union> free_set (xs @ ys)" by (subst list) auto
  have upt: "[k..<vec_len v] = k # [Suc k..<vec_len v]" using step.hyps by (simp add: upt_conv_Cons)
  consider (eq) "rsize ?r = sz" | (gt) "sz < rsize ?r" | (lt) "rsize ?r < sz" by (metis not_less_iff_gr_or_eq)
  then show ?case
  proof cases
    case eq
    obtain w where w: "vec_splice v k 1 = Inr w" "vec_inv w" "vec_list w = xs @ ys" "vec_alloc w = vec_alloc v"
      using vec_splice_list [OF inv(1), of k 1] step.hyps by (auto simp: xs_def ys_def)
    have "range_alloc_scan v sz [k..<vec_len v] = Inr (?r, w)"
      unfolding upt using at eq w(1) by simp
    then show ?thesis using w inv(2) ok fs eq by (auto simp: vec_ok_def)
  next
    case gt
    let ?front = "mk_range (rbase ?r) sz" and ?rear = "mk_range (rbase ?r + sz) (rsize ?r - sz)"
    note cut = range_cut_set [OF ok(1) gt]
    obtain w where w: "vec_set v k ?rear = Inr w" "vec_inv w"
      "vec_list w = (vec_list v)[k := ?rear]" "vec_alloc w = vec_alloc v"
      using vec_set_list [OF inv(1), of k ?rear] step.hyps by auto
    have lw: "vec_list w = xs @ ?rear # ys"
      using w(3) kl by (simp add: drop_take_update xs_def ys_def)
    have "range_alloc_scan v sz [k..<vec_len v] = Inr (?front, w)"
      unfolding upt using at gt w(1) by auto
    moreover have "ranges_ok (vec_list w)"
      unfolding lw ranges_ok_split using ok cut by blast
    moreover have "free_set (vec_list w) = free_set (vec_list v) - range_set ?front"
      unfolding fs lw using cut ok(2) by auto
    moreover have "range_set ?front \<subseteq> free_set (vec_list v)" using cut fs by auto
    ultimately show ?thesis using w inv(2) cut by (auto simp: vec_ok_def)
  next
    case lt
    then have "\<forall>i < Suc k. rsize (vec_list v ! i) < sz" using step.prems by (simp add: less_Suc_eq)
    with step.IH at lt show ?thesis unfolding upt by auto
  qed
qed

text \<open>
  An allocation takes the requested number of addresses out of the free set and fails only when
  no free range is large enough.
\<close>

lemma range_alloc_alloc_spec:
  assumes "vec_ok v" "ranges_ok (vec_list v)"
  shows "\<exists>r w. range_alloc_alloc v sz = Inr (r, w) \<and> vec_ok w \<and> ranges_ok (vec_list w) \<and>
     (r = mk_range 0 0 \<and> w = v \<and> (\<forall>q \<in> set (vec_list v). rsize q < sz) \<or>
      rsize r = sz \<and> range_ok r \<and> range_set r \<subseteq> free_set (vec_list v) \<and>
      free_set (vec_list w) = free_set (vec_list v) - range_set r)"
  using range_alloc_scan_spec [OF assms, of 0 sz] by (simp add: range_alloc_alloc_def)

section \<open>Properties\<close>

text \<open>
  C39. Allocating from a space's range allocator takes exactly the requested number of addresses out
  of the free set, keeps the free ranges disjoint, and fails only when no free range is large
  enough, in which case nothing changes.
\<close>

theorem range_alloc_alloc_sound:
  assumes "vec_ok v" and "ranges_ok (vec_list v)"
  shows "\<exists>r w. range_alloc_alloc v sz = Inr (r, w) \<and> vec_ok w \<and> ranges_ok (vec_list w) \<and>
     (r = mk_range 0 0 \<and> w = v \<and> (\<forall>q \<in> set (vec_list v). rsize q < sz) \<or>
      rsize r = sz \<and> range_ok r \<and> range_set r \<subseteq> free_set (vec_list v) \<and>
      free_set (vec_list w) = free_set (vec_list v) - range_set r)"
  using range_alloc_alloc_spec [OF assms] .

theorem range_alloc_alloc_sound_witness:
  "\<exists>r w. range_alloc_alloc \<lparr>vec_data = [Some (mk_range 0x400000 0x10000)], vec_len = 1,
       vec_alloc = (\<lambda>_. True), vec_data_size = 16, vec_capacity = 1\<rparr> 0x1000 = Inr (r, w) \<and>
     vec_ok w \<and> ranges_ok (vec_list w)"
proof -
  let ?v = "\<lparr>vec_data = [Some (mk_range 0x400000 0x10000)], vec_len = 1,
       vec_alloc = (\<lambda>_. True), vec_data_size = 16, vec_capacity = 1\<rparr> :: range_alloc"
  have ok: "vec_ok ?v" by (simp add: vec_ok_def vec_inv_def)
  have "ranges_ok (vec_list ?v)" by (simp add: ranges_ok_def vec_list_def range_ok_def)
  from range_alloc_alloc_sound [OF ok this, of "0x1000"] show ?thesis by blast
qed

text \<open>
  Two fixed mappings break a space's range allocator: starting from the range a space begins
  with, reserving a first fixed range succeeds, and reserving a second one below it overwrites a
  free range and then reads an entry of the free list that was never written.
\<close>

theorem range_alloc_used_twice_uninitialised:
  "fault_of (sbind (range_alloc_unused (range_alloc_init (\<lambda>_. True)) (mk_range 0x400000 0x800000000000)) (\<lambda>v.
     range_alloc_used v (mk_range 0x40000000 0x1000))) = None \<and>
   fault_of (sbind (range_alloc_unused (range_alloc_init (\<lambda>_. True)) (mk_range 0x400000 0x800000000000)) (\<lambda>v.
     sbind (range_alloc_used v (mk_range 0x40000000 0x1000)) (\<lambda>v.
     range_alloc_used v (mk_range 0x20000000 0x1000)))) = Some Uninitialised"
  by code_simp

end
