(* ===== verification/Bits.thy ===== *)
theory Bits
  imports Mem Ranges
begin

text \<open>
  The bitmap of \<open>brutal-ds/bits.c\<close> and \<open>bits.h\<close>, which the physical memory manager keeps one bit
  per page in. \<open>bits_data\<close> is the byte array and \<open>bits_size\<close> its declared size in bytes; a bit
  index is a \<open>size_t\<close>, read as a natural number. Touching a byte outside the array is the fault
  \<open>OutOfBounds\<close>. Ranges of bits are \<open>usize_range\<close>s, whose end wraps as in the source.
\<close>

section \<open>Model\<close>

record bits =
  bits_data :: "u8 list"
  bits_size :: u64

definition bits_init :: "u8 list \<Rightarrow> u64 \<Rightarrow> bits" where
  "bits_init data sz = \<lparr>bits_data = data, bits_size = sz\<rparr>"

definition bits_len :: "bits \<Rightarrow> u64" where
  "bits_len b = bits_size b * 8"

definition bits_get :: "bits \<Rightarrow> nat \<Rightarrow> fault + bool" where
  "bits_get b index =
     (let byte_index = index div 8; bit_index = index mod 8 in
      if byte_index < length (bits_data b)
      then Inr ((bits_data b ! byte_index) AND push_bit bit_index 1 \<noteq> 0) else Inl OutOfBounds)"

definition bits_set :: "nat \<Rightarrow> bool \<Rightarrow> bits \<Rightarrow> fault + bits" where
  "bits_set index value b =
     (let byte_index = index div 8; bit_index = index mod 8; old = bits_data b ! byte_index in
      if byte_index < length (bits_data b)
      then Inr (b\<lparr>bits_data := (bits_data b)[byte_index :=
                  (if value then old OR push_bit bit_index 1 else old AND NOT (push_bit bit_index 1))]\<rparr>)
      else Inl OutOfBounds)"

definition bits_set_step :: "usize_range \<Rightarrow> bool \<Rightarrow> nat \<Rightarrow> nat \<times> bits \<Rightarrow> fault + (nat \<times> bits)" where
  "bits_set_step r value i = (\<lambda>(count, b).
     sbind (bits_get b (unat (rbase r + of_nat i))) (\<lambda>old.
       if old \<noteq> value
       then sbind (bits_set (unat (rbase r + of_nat i)) value b) (\<lambda>b1. Inr (count + 1, b1))
       else Inr (count, b)))"

definition bits_set_range :: "bits \<Rightarrow> usize_range \<Rightarrow> bool \<Rightarrow> fault + (nat \<times> bits)" where
  "bits_set_range b r value =
     sbind (assert_truth (range_end r \<le> bits_len b) ''range_end(range) > bits_len(bits)'')
       (\<lambda>_. for_each (bits_set_step r value) [0..<unat (rsize r)] (0, b))"

definition bits_fill :: "bits \<Rightarrow> bool \<Rightarrow> bits" where
  "bits_fill b value =
     b\<lparr>bits_data := mem_set 0 (if value then 0xff else 0) (unat (bits_size b)) (bits_data b)\<rparr>"

text \<open>The search loop, over the indices it visits in the order it visits them.\<close>

fun bits_find_loop :: "bits \<Rightarrow> nat \<Rightarrow> bool \<Rightarrow> nat list \<Rightarrow> nat \<Rightarrow> nat \<Rightarrow> fault + usize_range" where
  "bits_find_loop b sz upper [] range_start range_size = Inr (mk_range 0 0)"
| "bits_find_loop b sz upper (i # is) range_start range_size =
     sbind (bits_get b i) (\<lambda>bit.
       let (range_start, range_size) =
             (if \<not> bit then (if range_size = 0 \<or> upper then i else range_start, range_size + 1)
              else (0, 0))
       in if sz = range_size then Inr (mk_range (of_nat range_start) (of_nat range_size))
          else bits_find_loop b sz upper is range_start range_size)"

definition bits_find_free :: "bits \<Rightarrow> u64 \<Rightarrow> u64 \<Rightarrow> bool \<Rightarrow> fault + usize_range" where
  "bits_find_free b start sz upper =
     sbind (assert_truth (bits_len b > 1) ''bits_len(bits) <= 1'') (\<lambda>_.
       let start = min start (bits_len b) in
       if bits_size b = 0 then Inr (mk_range 0 0)
       else bits_find_loop b (unat sz) upper
              (if upper then rev [1..<unat start + 1] else [unat start..<unat (bits_len b)]) 0 0)"

section \<open>Invariant and abstraction\<close>

definition bits_inv :: "bits \<Rightarrow> bool" where
  "bits_inv b \<longleftrightarrow> length (bits_data b) = unat (bits_size b) \<and> unat (bits_size b) * 8 < 2 ^ 64"

definition bit_used :: "bits \<Rightarrow> nat \<Rightarrow> bool" where
  "bit_used b i = bit (bits_data b ! (i div 8)) (i mod 8)"

definition bits_count :: "bits \<Rightarrow> bool \<Rightarrow> nat" where
  "bits_count b v = card {i. i < unat (bits_len b) \<and> bit_used b i = v}"

lemma unat_bits_len: "bits_inv b \<Longrightarrow> unat (bits_len b) = length (bits_data b) * 8"
  by (simp add: bits_inv_def bits_len_def unat_mult_u64)

lemma bits_get_used:
  assumes "bits_inv b" "i < unat (bits_len b)"
  shows "bits_get b i = Inr (bit_used b i)"
  using assms by (auto simp: bits_get_def Let_def bit_used_def and_exp_eq_0_iff_not_bit unat_bits_len)

lemma bits_get_past_end:
  assumes "bits_inv b" "unat (bits_len b) \<le> i"
  shows "bits_get b i = Inl OutOfBounds"
  using assms by (auto simp: bits_get_def Let_def unat_bits_len)

lemma bits_set_used:
  assumes "bits_inv b" "i < unat (bits_len b)"
  shows "\<exists>c. bits_set i v b = Inr c \<and> bits_inv c \<and> bits_size c = bits_size b \<and>
     bit_used c = (bit_used b)(i := v)"
proof -
  let ?k = "i div 8"
  have k: "?k < length (bits_data b)" using assms by (simp add: unat_bits_len)
  define new where "new = (if v then bits_data b ! ?k OR push_bit (i mod 8) 1
      else bits_data b ! ?k AND NOT (push_bit (i mod 8) 1))"
  have new: "bit new m = (if m = i mod 8 then v else bit (bits_data b ! ?k) m)" if "m < 8" for m
    using that by (auto simp: new_def bit_simps)
  define c where "c = b\<lparr>bits_data := (bits_data b)[?k := new]\<rparr>"
  have "bit_used c j = ((bit_used b)(i := v)) j" for j
  proof (cases "j div 8 = ?k")
    case True
    have "j = i \<longleftrightarrow> j mod 8 = i mod 8" using True by (metis div_mod_decomp)
    with True k new [of "j mod 8"] show ?thesis by (simp add: bit_used_def c_def)
  next
    case False
    then show ?thesis by (auto simp: bit_used_def c_def)
  qed
  moreover have "bits_set i v b = Inr c"
    using k by (simp add: bits_set_def Let_def c_def new_def)
  moreover have "bits_inv c" "bits_size c = bits_size b" using assms(1) by (auto simp: bits_inv_def c_def)
  ultimately show ?thesis by blast
qed

section \<open>Setting a range of bits\<close>

lemma bits_set_loop:
  assumes inv: "bits_inv b" and n: "unat (rbase r) + n \<le> unat (bits_len b)"
  shows "\<exists>c. for_each (bits_set_step r v) [0..<n] (0, b) =
       Inr (card {i \<in> {unat (rbase r) ..< unat (rbase r) + n}. bit_used b i \<noteq> v}, c) \<and>
     bits_inv c \<and> bits_size c = bits_size b \<and>
     bit_used c = (\<lambda>i. if i \<in> {unat (rbase r) ..< unat (rbase r) + n} then v else bit_used b i)"
  using n
proof (induction n)
  case 0
  with inv show ?case by auto
next
  case (Suc n)
  let ?base = "unat (rbase r)"
  let ?diff = "\<lambda>n. {i \<in> {?base ..< ?base + n}. bit_used b i \<noteq> v}"
  from Suc obtain c where c: "for_each (bits_set_step r v) [0..<n] (0, b) = Inr (card (?diff n), c)"
    "bits_inv c" "bits_size c = bits_size b"
    "bit_used c = (\<lambda>i. if i \<in> {?base ..< ?base + n} then v else bit_used b i)" by auto
  have len: "?base + n < unat (bits_len c)" using Suc.prems c(3) by (simp add: bits_len_def)
  have w: "unat (rbase r + of_nat n) = ?base + n"
    using len unat_lt_u64 [of "bits_len c"] by (simp add: unat_plus_u64 unat_of_nat_u64)
  have get: "bits_get c (?base + n) = Inr (bit_used b (?base + n))"
    using bits_get_used [OF c(2) len] c(4) by simp
  have diff: "?diff (Suc n) = (if bit_used b (?base + n) \<noteq> v then insert (?base + n) (?diff n) else ?diff n)"
    using less_Suc_eq by auto
  have fin: "finite (?diff n)" "?base + n \<notin> ?diff n" by auto
  show ?case
  proof (cases "bit_used b (?base + n) = v")
    case True
    then have "bits_set_step r v n (card (?diff n), c) = Inr (card (?diff (Suc n)), c)"
      using get w diff by (simp add: bits_set_step_def)
    moreover have "bit_used c = (\<lambda>i. if i \<in> {?base ..< ?base + Suc n} then v else bit_used b i)"
      using c(4) True by (auto simp: fun_eq_iff less_Suc_eq)
    ultimately show ?thesis using c by (simp add: for_each_append)
  next
    case False
    obtain d where d: "bits_set (?base + n) v c = Inr d" "bits_inv d" "bits_size d = bits_size c"
      "bit_used d = (bit_used c)(?base + n := v)"
      using bits_set_used [OF c(2) len] by blast
    have "bits_set_step r v n (card (?diff n), c) = Inr (card (?diff (Suc n)), d)"
      using get w diff False fin d(1) by (simp add: bits_set_step_def)
    moreover have "bit_used d = (\<lambda>i. if i \<in> {?base ..< ?base + Suc n} then v else bit_used b i)"
      using c(4) d(4) by (auto simp: fun_eq_iff less_Suc_eq)
    ultimately show ?thesis using c d by (simp add: for_each_append)
  qed
qed

lemma bits_set_range_spec:
  assumes inv: "bits_inv b" and ok: "range_ok r" and len: "range_end r \<le> bits_len b"
  shows "\<exists>c. bits_set_range b r v = Inr (card {i \<in> range_set r. bit_used b i \<noteq> v}, c) \<and>
     bits_inv c \<and> bits_size c = bits_size b \<and>
     bit_used c = (\<lambda>i. if i \<in> range_set r then v else bit_used b i)"
proof -
  have "unat (rbase r) + unat (rsize r) \<le> unat (bits_len b)"
    using len ok by (simp add: word_le_nat_alt unat_range_end)
  from bits_set_loop [OF inv this, of v] len show ?thesis
    by (simp add: bits_set_range_def range_set_def)
qed

lemma bits_set_range_panics:
  "\<not> range_end r \<le> bits_len b \<Longrightarrow>
     bits_set_range b r v = Inl (Panic ''range_end(range) > bits_len(bits)'')"
  by (simp add: bits_set_range_def)

lemma bits_fill_used:
  assumes "bits_inv b"
  shows "bits_inv (bits_fill b v) \<and> bits_size (bits_fill b v) = bits_size b \<and>
     (\<forall>i < unat (bits_len b). bit_used (bits_fill b v) i = v)"
proof -
  have "bits_data (bits_fill b v) = replicate (length (bits_data b)) (if v then 0xff else 0)"
    using assms by (simp add: bits_fill_def bits_inv_def mem_set_eq)
  moreover have "bit (0xff :: u8) m" if "m < 8" for m
  proof -
    from that have "m = 0 \<or> m = 1 \<or> m = 2 \<or> m = 3 \<or> m = 4 \<or> m = 5 \<or> m = 6 \<or> m = 7" by arith
    then show ?thesis by (elim disjE) simp_all
  qed
  ultimately show ?thesis
    using assms by (auto simp: bit_used_def bits_fill_def bits_inv_def unat_bits_len [OF assms])
qed

section \<open>Searching for free bits\<close>

definition bits_free_at :: "bits \<Rightarrow> nat \<Rightarrow> nat \<Rightarrow> bool" where
  "bits_free_at b n k \<longleftrightarrow> (\<forall>j. n \<le> j \<and> j < n + k \<longrightarrow> \<not> bit_used b j)"

lemma bits_free_at_0 [simp]: "bits_free_at b n 0"
  by (auto simp: bits_free_at_def)

lemma bits_free_at_blocked: "bit_used b j \<Longrightarrow> n \<le> j \<Longrightarrow> j < n + k \<Longrightarrow> \<not> bits_free_at b n k"
  by (auto simp: bits_free_at_def)

text \<open>
  Scanning upwards from \<open>s\<close>, at index \<open>i\<close> the loop has counted the \<open>k\<close> free bits right below
  \<open>i\<close>, the bit before them is used, and no run of \<open>sz\<close> bits ends at or below \<open>i\<close>.
\<close>

lemma bits_find_lower_loop:
  assumes "bits_inv b" and "s \<le> i" "i \<le> unat (bits_len b)" "k < sz" "k \<le> i - s"
    and "bits_free_at b (i - k) k" and "k < i - s \<longrightarrow> bit_used b (i - k - 1)" and "0 < k \<longrightarrow> rs = i - k"
    and "\<forall>n. s \<le> n \<and> n + sz \<le> i \<longrightarrow> \<not> bits_free_at b n sz"
  shows "(\<exists>n. bits_find_loop b sz False [i..<unat (bits_len b)] rs k =
         Inr (mk_range (of_nat n) (of_nat sz)) \<and>
       s \<le> n \<and> n + sz \<le> unat (bits_len b) \<and> bits_free_at b n sz \<and>
       (\<forall>m. s \<le> m \<and> m < n \<longrightarrow> \<not> bits_free_at b m sz)) \<or>
     bits_find_loop b sz False [i..<unat (bits_len b)] rs k = Inr (mk_range 0 0) \<and>
       (\<forall>n. s \<le> n \<and> n + sz \<le> unat (bits_len b) \<longrightarrow> \<not> bits_free_at b n sz)"
  using assms
proof (induction "unat (bits_len b) - i" arbitrary: i k rs)
  case 0
  then have "i = unat (bits_len b)" by simp
  with 0 show ?case by simp
next
  case (Suc d)
  let ?L = "unat (bits_len b)"
  from Suc.hyps(2) have lt: "i < ?L" by simp
  have split: "[i..<?L] = i # [Suc i..<?L]" using lt by (rule upt_conv_Cons)
  note get = bits_get_used [OF Suc.prems(1) lt]
  have none': "\<not> bits_free_at b n sz" if "s \<le> n" "n < i - k" "n + sz \<le> Suc i" for n
  proof (cases "n + sz \<le> i")
    case True
    with that Suc.prems show ?thesis by auto
  next
    case False
    with that Suc.prems show ?thesis by (intro bits_free_at_blocked [of b "i - k - 1"]) auto
  qed
  show ?case
  proof (cases "bit_used b i")
    case True
    have "\<forall>n. s \<le> n \<and> n + sz \<le> Suc i \<longrightarrow> \<not> bits_free_at b n sz"
    proof (intro allI impI)
      fix n assume n: "s \<le> n \<and> n + sz \<le> Suc i"
      show "\<not> bits_free_at b n sz"
      proof (cases "n + sz \<le> i")
        case True
        with n Suc.prems show ?thesis by auto
      next
        case False
        with n Suc.prems \<open>bit_used b i\<close> show ?thesis by (intro bits_free_at_blocked [of b i]) auto
      qed
    qed
    with Suc.hyps(1) [of "Suc i" 0 0] Suc.hyps(2) Suc.prems lt True show ?thesis
      unfolding split by (simp add: get bits_free_at_def)
  next
    case False
    have free: "bits_free_at b (i - k) (Suc k)"
      using Suc.prems(6) False Suc.prems(5) by (auto simp: bits_free_at_def less_Suc_eq)
    have rs: "(if k = 0 then i else rs) = i - k" using Suc.prems(8) by auto
    show ?thesis
    proof (cases "sz = Suc k")
      case True
      with free rs none' Suc.prems lt False show ?thesis
        unfolding split by (intro disjI1 exI [of _ "i - k"]) (auto simp: get)
    next
      case neq: False
      have none: "\<forall>n. s \<le> n \<and> n + sz \<le> Suc i \<longrightarrow> \<not> bits_free_at b n sz"
        using none' Suc.prems(4) neq by auto
      have ik: "Suc i - Suc k = i - k" "Suc k < Suc i - s \<longleftrightarrow> k < i - s" using Suc.prems(5) by auto
      have step: "bits_find_loop b sz False [i..<?L] rs k =
          bits_find_loop b sz False [Suc i..<?L] (i - k) (Suc k)"
        unfolding split using False neq rs by (simp add: get)
      show ?thesis
        unfolding step using Suc.hyps(2) Suc.prems(1,2,4,5,7) lt neq free none
        by (intro Suc.hyps(1)) (simp_all add: ik)
    qed
  qed
qed

text \<open>Scanning downwards, the \<open>k\<close> free bits counted lie right above the next index \<open>i\<close>.\<close>

lemma bits_find_upper_loop:
  assumes "bits_inv b" and "i \<le> s" "s < unat (bits_len b)" "k < sz" "i + k \<le> s"
    and "bits_free_at b (Suc i) k" and "i + k < s \<longrightarrow> bit_used b (Suc (i + k))"
    and "\<forall>n. i < n \<and> n + sz \<le> Suc s \<longrightarrow> \<not> bits_free_at b n sz"
  shows "(\<exists>n. bits_find_loop b sz True (rev [1..<Suc i]) rs k = Inr (mk_range (of_nat n) (of_nat sz)) \<and>
       1 \<le> n \<and> n + sz \<le> Suc s \<and> bits_free_at b n sz \<and>
       (\<forall>m. n < m \<and> m + sz \<le> Suc s \<longrightarrow> \<not> bits_free_at b m sz)) \<or>
     bits_find_loop b sz True (rev [1..<Suc i]) rs k = Inr (mk_range 0 0) \<and>
       (\<forall>n. 1 \<le> n \<and> n + sz \<le> Suc s \<longrightarrow> \<not> bits_free_at b n sz)"
  using assms
proof (induction i arbitrary: k rs)
  case 0
  then show ?case by simp
next
  case (Suc i)
  let ?L = "unat (bits_len b)"
  have split: "rev [1..<Suc (Suc i)] = Suc i # rev [1..<Suc i]" by simp
  have lt: "Suc i < ?L" using Suc.prems by simp
  note get = bits_get_used [OF Suc.prems(1) lt]
  show ?case
  proof (cases "bit_used b (Suc i)")
    case True
    have "\<forall>n. i < n \<and> n + sz \<le> Suc s \<longrightarrow> \<not> bits_free_at b n sz"
    proof (intro allI impI)
      fix n assume n: "i < n \<and> n + sz \<le> Suc s"
      show "\<not> bits_free_at b n sz"
      proof (cases "Suc i < n")
        case True
        with n Suc.prems show ?thesis by auto
      next
        case False
        with n Suc.prems \<open>bit_used b (Suc i)\<close> show ?thesis
          by (intro bits_free_at_blocked [of b "Suc i"]) auto
      qed
    qed
    with Suc.IH [of 0 0] Suc.prems True show ?thesis
      unfolding split by (simp add: get bits_free_at_def)
  next
    case False
    have free: "bits_free_at b (Suc i) (Suc k)"
      unfolding bits_free_at_def
    proof (intro allI impI)
      fix j assume "Suc i \<le> j \<and> j < Suc i + Suc k"
      then show "\<not> bit_used b j"
        using Suc.prems(6) False by (cases "j = Suc i") (auto simp: bits_free_at_def)
    qed
    show ?thesis
    proof (cases "sz = Suc k")
      case True
      with free Suc.prems False show ?thesis
        unfolding split by (intro disjI1 exI [of _ "Suc i"]) (auto simp: get)
    next
      case neq: False
      have none: "\<forall>n. i < n \<and> n + sz \<le> Suc s \<longrightarrow> \<not> bits_free_at b n sz"
      proof (intro allI impI)
        fix n assume n: "i < n \<and> n + sz \<le> Suc s"
        show "\<not> bits_free_at b n sz"
        proof (cases "Suc i < n")
          case True
          with n Suc.prems show ?thesis by auto
        next
          case False
          with n neq Suc.prems show ?thesis
            by (intro bits_free_at_blocked [of b "Suc (Suc i + k)"]) auto
        qed
      qed
      have step: "bits_find_loop b sz True (rev [1..<Suc (Suc i)]) rs k =
          bits_find_loop b sz True (rev [1..<Suc i]) (Suc i) (Suc k)"
        unfolding split using False neq by (simp add: get)
      show ?thesis
        unfolding step using Suc.prems(1-5,7) neq free none by (intro Suc.IH) simp_all
    qed
  qed
qed

text \<open>
  The search from below returns the lowest run of the requested size at or above the start, and
  an empty range only when there is none.
\<close>

lemma bits_find_free_lower:
  assumes inv: "bits_inv b" and len: "1 < bits_len b" and sz: "0 < sz"
  shows "(\<exists>n. bits_find_free b start sz False = Inr (mk_range (of_nat n) sz) \<and>
       unat start \<le> n \<and> n + unat sz \<le> unat (bits_len b) \<and> bits_free_at b n (unat sz) \<and>
       (\<forall>m. unat start \<le> m \<and> m < n \<longrightarrow> \<not> bits_free_at b m (unat sz))) \<or>
     bits_find_free b start sz False = Inr (mk_range 0 0) \<and>
       (\<forall>n. unat start \<le> n \<and> n + unat sz \<le> unat (bits_len b) \<longrightarrow> \<not> bits_free_at b n (unat sz))"
proof -
  let ?s = "min start (bits_len b)" and ?L = "unat (bits_len b)"
  have s: "unat ?s = min (unat start) ?L" by (simp add: min_def word_le_nat_alt)
  have sz': "0 < unat sz" using sz by (simp add: word_less_nat_alt)
  have nz: "bits_size b \<noteq> 0" using len by (auto simp: bits_len_def)
  have run: "bits_find_free b start sz False = bits_find_loop b (unat sz) False [unat ?s..<?L] 0 0"
    using len nz by (simp add: bits_find_free_def Let_def)
  have "unat ?s \<le> ?L" by (simp add: s)
  moreover have "\<forall>n. unat ?s \<le> n \<and> n + unat sz \<le> unat ?s \<longrightarrow> \<not> bits_free_at b n (unat sz)"
    using sz' by auto
  ultimately have loop: "(\<exists>n. bits_find_free b start sz False = Inr (mk_range (of_nat n) sz) \<and>
       unat ?s \<le> n \<and> n + unat sz \<le> ?L \<and> bits_free_at b n (unat sz) \<and>
       (\<forall>m. unat ?s \<le> m \<and> m < n \<longrightarrow> \<not> bits_free_at b m (unat sz))) \<or>
     bits_find_free b start sz False = Inr (mk_range 0 0) \<and>
       (\<forall>n. unat ?s \<le> n \<and> n + unat sz \<le> ?L \<longrightarrow> \<not> bits_free_at b n (unat sz))"
    using bits_find_lower_loop [OF inv, of "unat ?s" "unat ?s" 0 "unat sz" 0] sz' unfolding run by simp
  show ?thesis
  proof (cases "unat start \<le> ?L")
    case True
    with loop s show ?thesis by simp
  next
    case False
    with loop s sz' show ?thesis by auto
  qed
qed

text \<open>
  The search from above returns the highest run that ends at or below the start. It never
  considers bit 0, and it needs the start to lie inside the bitmap.
\<close>

lemma bits_find_free_upper:
  assumes inv: "bits_inv b" and len: "1 < bits_len b" and sz: "0 < sz" and start: "start < bits_len b"
  shows "(\<exists>n. bits_find_free b start sz True = Inr (mk_range (of_nat n) sz) \<and>
       1 \<le> n \<and> n + unat sz \<le> Suc (unat start) \<and> bits_free_at b n (unat sz) \<and>
       (\<forall>m. n < m \<and> m + unat sz \<le> Suc (unat start) \<longrightarrow> \<not> bits_free_at b m (unat sz))) \<or>
     bits_find_free b start sz True = Inr (mk_range 0 0) \<and>
       (\<forall>n. 1 \<le> n \<and> n + unat sz \<le> Suc (unat start) \<longrightarrow> \<not> bits_free_at b n (unat sz))"
proof -
  have st: "min start (bits_len b) = start" using start by (simp add: min_def word_le_nat_alt word_less_nat_alt)
  have sz': "0 < unat sz" using sz by (simp add: word_less_nat_alt)
  have nz: "bits_size b \<noteq> 0" using len by (auto simp: bits_len_def)
  have run: "bits_find_free b start sz True =
      bits_find_loop b (unat sz) True (rev [1..<Suc (unat start)]) 0 0"
    using len nz st by (simp add: bits_find_free_def Let_def)
  have "\<forall>n. unat start < n \<and> n + unat sz \<le> Suc (unat start) \<longrightarrow> \<not> bits_free_at b n (unat sz)"
    using sz' by auto
  moreover have "unat start < unat (bits_len b)" using start by (simp add: word_less_nat_alt)
  ultimately show ?thesis
    using bits_find_upper_loop [OF inv, of "unat start" "unat start" 0 "unat sz" 0] sz'
    unfolding run by simp
qed

text \<open>Started at the length of the bitmap, the search from above reads past its end.\<close>

lemma bits_find_free_upper_overrun:
  assumes inv: "bits_inv b" and len: "1 < bits_len b" and start: "bits_len b \<le> start"
  shows "bits_find_free b start sz True = Inl OutOfBounds"
proof -
  let ?L = "unat (bits_len b)"
  have st: "min start (bits_len b) = bits_len b" using start by (simp add: min_def)
  have nz: "bits_size b \<noteq> 0" using len by (auto simp: bits_len_def)
  have "0 < ?L" using len by (simp add: word_less_nat_alt)
  then have "rev [1..<?L + 1] = ?L # rev [1..<?L]" by simp
  then show ?thesis
    using len nz st bits_get_past_end [OF inv, of ?L] by (simp add: bits_find_free_def Let_def)
qed

section \<open>Properties\<close>

text \<open>
  Searching the bitmap from below returns the first run of clear bits of the requested size at
  or above the start, and the empty range exactly when there is no such run; it never reads
  outside the bitmap.
\<close>

theorem bits_find_free_first_fit:
  assumes "bits_inv b" and "1 < bits_len b" and "0 < sz"
  shows "(\<exists>n. bits_find_free b start sz False = Inr (mk_range (of_nat n) sz) \<and>
       unat start \<le> n \<and> n + unat sz \<le> unat (bits_len b) \<and> bits_free_at b n (unat sz) \<and>
       (\<forall>m. unat start \<le> m \<and> m < n \<longrightarrow> \<not> bits_free_at b m (unat sz))) \<or>
     bits_find_free b start sz False = Inr (mk_range 0 0) \<and>
       (\<forall>n. unat start \<le> n \<and> n + unat sz \<le> unat (bits_len b) \<longrightarrow> \<not> bits_free_at b n (unat sz))"
  using bits_find_free_lower [OF assms] .

theorem bits_find_free_first_fit_witness:
  "bits_inv (bits_init [0x0f] 1) \<and> bits_find_free (bits_init [0x0f] 1) 0 2 False = Inr (mk_range 4 2) \<and>
   ((\<exists>n. bits_find_free (bits_init [0x0f] 1) 0 2 False = Inr (mk_range (of_nat n) 2) \<and>
       bits_free_at (bits_init [0x0f] 1) n 2) \<or>
    bits_find_free (bits_init [0x0f] 1) 0 2 False = Inr (mk_range 0 0))"
proof -
  let ?b = "bits_init [0x0f] 1"
  have i: "bits_inv ?b" and l: "1 < bits_len ?b"
    by (simp_all add: bits_inv_def bits_init_def bits_len_def)
  have "bits_find_free ?b 0 2 False = Inr (mk_range 4 2)" by code_simp
  with i bits_find_free_first_fit [OF i l, of 2 0] show ?thesis by auto
qed

text \<open>
  Setting a range of bits sets exactly the bits of the range, returns how many of them changed,
  and panics when the range ends past the bitmap.
\<close>

theorem bits_set_range_exact:
  assumes "bits_inv b" and "range_ok r"
  shows "if range_end r \<le> bits_len b
     then \<exists>c. bits_set_range b r v = Inr (card {i \<in> range_set r. bit_used b i \<noteq> v}, c) \<and> bits_inv c \<and>
        bits_len c = bits_len b \<and> (\<forall>i. bit_used c i = (if i \<in> range_set r then v else bit_used b i))
     else bits_set_range b r v = Inl (Panic ''range_end(range) > bits_len(bits)'')"
  using bits_set_range_spec [OF assms, of v] bits_set_range_panics [of r b v] by (auto simp: bits_len_def)

theorem bits_set_range_exact_witness:
  "bits_inv (bits_init [0] 1) \<and> range_ok (mk_range 2 3) \<and>
   (\<exists>n c. bits_set_range (bits_init [0] 1) (mk_range 2 3) True = Inr (n, c) \<and> bit_used c 3)"
proof -
  have i: "bits_inv (bits_init [0] 1)" and r: "range_ok (mk_range 2 3)"
    by (simp_all add: bits_inv_def bits_init_def range_ok_def)
  have e: "range_end (mk_range 2 3) \<le> bits_len (bits_init [0] 1)" and m: "3 \<in> range_set (mk_range 2 3)"
    by (simp_all add: range_end_def bits_len_def bits_init_def range_set_def)
  show ?thesis using bits_set_range_exact [OF i r, of True] e m i r by auto
qed

text \<open>
  Searching the bitmap from above with a start at or past its length reads one byte past the end
  of the bitmap.
\<close>

theorem bits_find_free_overrun:
  assumes "bits_inv b" and "1 < bits_len b" and "bits_len b \<le> start"
  shows "bits_find_free b start sz True = Inl OutOfBounds"
  using bits_find_free_upper_overrun [OF assms] .

theorem bits_find_free_overrun_witness:
  "bits_find_free (bits_init [0, 0] 2) (-1) 1 True = Inl OutOfBounds"
  by (rule bits_find_free_overrun) (simp_all add: bits_inv_def bits_init_def bits_len_def)

end
