(* ===== verification/Abi.thy ===== *)
theory Abi
  imports Ranges
begin

text \<open>
  The system-call interface of \<open>bal/abi/types.h\<close>, \<open>syscalls.h\<close> and \<open>helpers.c\<close>: result codes,
  object types, flag and right bits, addresses, events and messages. Handles, identifiers,
  flags and arguments are \<open>uint64_t\<close>, rights and message flags \<open>uint32_t\<close>.
\<close>

section \<open>Results and object types\<close>

datatype br_result =
    BR_SUCCESS
  | BR_INTERRUPTED
  | BR_TIMEOUT
  | BR_ALREADY_BINDED
  | BR_ALREADY_ACK
  | BR_NOT_BINDED
  | BR_NOT_PERMITTED
  | BR_BAD_ADDRESS
  | BR_BAD_ARGUMENTS
  | BR_BAD_HANDLE
  | BR_BAD_ID
  | BR_BAD_SYSCALL
  | BR_NOT_IMPLEMENTED
  | BR_OUT_OF_MEMORY
  | BR_CHANNEL_FULL
  | BR_CHANNEL_EMPTY
  | BR_WOULD_BLOCK

text \<open>\<open>Result(BrResult, T)\<close>: an error code or a value.\<close>

type_synonym 'a br_value = "br_result + 'a"

datatype br_type =
    BR_OBJECT_NONE
  | BR_OBJECT_ANY
  | BR_OBJECT_MEMORY
  | BR_OBJECT_DOMAIN
  | BR_OBJECT_SPACE
  | BR_OBJECT_TASK

datatype br_error =
    ERR_SUCCESS
  | ERR_BAD_ADDRESS
  | ERR_OUT_OF_MEMORY
  | ERR_BAD_ARGUMENTS
  | ERR_DENIED
  | ERR_BAD_HANDLE
  | ERR_NOT_IMPLEMENTED
  | ERR_BAD_SYSCALL
  | ERR_TIMEOUT
  | ERR_WOULD_BLOCK
  | ERR_UNDEFINED

fun br_result_to_error :: "br_result \<Rightarrow> br_error" where
  "br_result_to_error BR_SUCCESS = ERR_SUCCESS"
| "br_result_to_error BR_BAD_ADDRESS = ERR_BAD_ADDRESS"
| "br_result_to_error BR_OUT_OF_MEMORY = ERR_OUT_OF_MEMORY"
| "br_result_to_error BR_BAD_ARGUMENTS = ERR_BAD_ARGUMENTS"
| "br_result_to_error BR_NOT_PERMITTED = ERR_DENIED"
| "br_result_to_error BR_BAD_HANDLE = ERR_BAD_HANDLE"
| "br_result_to_error BR_NOT_IMPLEMENTED = ERR_NOT_IMPLEMENTED"
| "br_result_to_error BR_BAD_SYSCALL = ERR_BAD_SYSCALL"
| "br_result_to_error BR_TIMEOUT = ERR_TIMEOUT"
| "br_result_to_error BR_WOULD_BLOCK = ERR_WOULD_BLOCK"
| "br_result_to_error _ = ERR_UNDEFINED"

section \<open>Constants\<close>

definition BR_ID_EVENT :: u64 where "BR_ID_EVENT = -4"
definition BR_HANDLE_SELF :: u64 where "BR_HANDLE_SELF = -2"
definition BR_PORT_ANY :: u64 where "BR_PORT_ANY = -1"

definition BR_MEM_WRITABLE :: u64 where "BR_MEM_WRITABLE = 2"
definition BR_MEM_USER :: u64 where "BR_MEM_USER = 8"
definition BR_MEM_LOWER :: u64 where "BR_MEM_LOWER = 16"
definition BR_MEM_DMA :: u64 where "BR_MEM_DMA = 32"
definition BR_MEM_GLOBAL :: u64 where "BR_MEM_GLOBAL = 64"
definition BR_MEM_WRITE_THROUGHT :: u64 where "BR_MEM_WRITE_THROUGHT = 128"

definition BR_TASK_USER :: u64 where "BR_TASK_USER = 1"

definition BR_RIGHT_IRQ :: u32 where "BR_RIGHT_IRQ = 1"
definition BR_RIGHT_DMA :: u32 where "BR_RIGHT_DMA = 2"
definition BR_RIGHT_PIO :: u32 where "BR_RIGHT_PIO = 4"
definition BR_RIGHT_LOG :: u32 where "BR_RIGHT_LOG = 8"
definition BR_RIGHT_TASK :: u32 where "BR_RIGHT_TASK = 16"

definition BR_IPC_BLOCK :: u32 where "BR_IPC_BLOCK = 1"
definition BR_IPC_SEND :: u32 where "BR_IPC_SEND = 2"
definition BR_IPC_RECV :: u32 where "BR_IPC_RECV = 4"

definition BR_TIMEOUT_INFINITY :: u64 where "BR_TIMEOUT_INFINITY = -1"

definition BR_MSG_ARG_COUNT :: nat where "BR_MSG_ARG_COUNT = 5"

definition BR_MSG_HND :: "nat \<Rightarrow> u32" where
  "BR_MSG_HND i = push_bit i 1"

definition br_right_from_str :: "string \<Rightarrow> u32" where
  "br_right_from_str str =
     (if str = ''irq'' then BR_RIGHT_IRQ
      else if str = ''dma'' then BR_RIGHT_DMA
      else if str = ''pio'' then BR_RIGHT_PIO
      else if str = ''log'' then BR_RIGHT_LOG
      else if str = ''task'' then BR_RIGHT_TASK
      else 0)"

lemmas br_flag_defs = BR_MEM_WRITABLE_def BR_MEM_USER_def BR_MEM_LOWER_def BR_MEM_DMA_def
  BR_MEM_GLOBAL_def BR_MEM_WRITE_THROUGHT_def BR_TASK_USER_def

lemmas br_right_defs = BR_RIGHT_IRQ_def BR_RIGHT_DMA_def BR_RIGHT_PIO_def BR_RIGHT_LOG_def
  BR_RIGHT_TASK_def

lemmas br_ipc_defs = BR_IPC_BLOCK_def BR_IPC_SEND_def BR_IPC_RECV_def

section \<open>Events, addresses and messages\<close>

datatype br_event_type = BR_EVENT_INVALID | BR_EVENT_IRQ

record br_event =
  ev_type :: br_event_type
  ev_irq :: u32

text \<open>Comparing two events of one type panics unless the type is \<open>BR_EVENT_IRQ\<close>.\<close>

definition br_event_eq :: "br_event \<Rightarrow> br_event \<Rightarrow> fault + bool" where
  "br_event_eq a b =
     (if ev_type a \<noteq> ev_type b then Inr False
      else case ev_type a of
        BR_EVENT_IRQ \<Rightarrow> Inr (ev_irq a = ev_irq b)
      | BR_EVENT_INVALID \<Rightarrow> Inl (Panic ''Unhandled event type''))"

record br_addr =
  addr_id :: u64
  addr_port :: u64

definition br_addr_eq :: "br_addr \<Rightarrow> br_addr \<Rightarrow> bool" where
  "br_addr_eq a b =
     (addr_id a = addr_id b \<and>
      (addr_port a = addr_port b \<or> addr_port a = BR_PORT_ANY \<or> addr_port b = BR_PORT_ANY))"

definition BR_ADDR_EVENT :: br_addr where
  "BR_ADDR_EVENT = \<lparr>addr_id = BR_ID_EVENT, addr_port = BR_PORT_ANY\<rparr>"

record br_msg =
  msg_flags :: u32
  msg_from :: br_addr
  msg_to :: br_addr
  msg_prot :: u64
  msg_type :: u64
  msg_seq :: u64
  msg_args :: "u64 list"

text \<open>
  The event shares the storage of the arguments: on the little-endian targets its type is the
  low half of the first argument and the interrupt number its high half.
\<close>

definition event_args :: "br_event \<Rightarrow> u64 list" where
  "event_args e =
     [(case ev_type e of BR_EVENT_INVALID \<Rightarrow> 0 | BR_EVENT_IRQ \<Rightarrow> 1) OR push_bit 32 (ucast (ev_irq e)),
      0, 0, 0, 0]"

record br_task_args =
  arg1 :: u64
  arg2 :: u64
  arg3 :: u64
  arg4 :: u64
  arg5 :: u64

section \<open>Lemmas\<close>

lemma br_addr_eq_sym: "br_addr_eq a b = br_addr_eq b a"
  by (auto simp: br_addr_eq_def)

lemma br_event_eq_irq:
  "ev_type a = BR_EVENT_IRQ \<Longrightarrow> br_event_eq a b = Inr (ev_type b = BR_EVENT_IRQ \<and> ev_irq a = ev_irq b)"
  by (simp add: br_event_eq_def)

lemma br_event_eq_irq2:
  "ev_type b = BR_EVENT_IRQ \<Longrightarrow> br_event_eq a b = Inr (ev_type a = BR_EVENT_IRQ \<and> ev_irq a = ev_irq b)"
  by (cases "ev_type a") (simp_all add: br_event_eq_def)

text \<open>Every right bit is one of the five named ones, and they are distinct.\<close>

lemma br_right_bits:
  "BR_RIGHT_IRQ AND BR_RIGHT_DMA = 0" "BR_RIGHT_IRQ AND BR_RIGHT_PIO = 0"
  "BR_RIGHT_DMA AND BR_RIGHT_PIO = 0" "BR_RIGHT_LOG AND BR_RIGHT_TASK = 0"
  by (simp_all add: br_right_defs)

end
