(* ===== verification/Pmm.thy ===== *)
theory Pmm
  imports Bits Abi
begin

text \<open>
  The physical memory manager, \<open>kernel/pmm.c\<close>, the identity heap of \<open>kernel/x86_64/heap.c\<close> on
  top of it, and the boot memory map of \<open>bal/boot/handover.c\<close> that it is set up from. The
  file-level variables are the fields of one record. The bitmap bytes live in a region of
  physical memory that the manager reserves for itself; \<open>pmm_bitmap_addr\<close> is its address in the
  I/O window.
\<close>

section \<open>Address windows\<close>

definition MMAP_IO_BASE :: u64 where "MMAP_IO_BASE = 0xffff800000000000"
definition MMAP_KERNEL_BASE :: u64 where "MMAP_KERNEL_BASE = 0xffffffff80000000"

definition mmap_phys_to_io :: "u64 \<Rightarrow> u64" where
  "mmap_phys_to_io phys_addr = phys_addr + MMAP_IO_BASE"

definition mmap_phys_to_kernel :: "u64 \<Rightarrow> u64" where
  "mmap_phys_to_kernel phys_addr = phys_addr + MMAP_KERNEL_BASE"

definition mmap_io_to_phys :: "u64 \<Rightarrow> u64" where
  "mmap_io_to_phys io_addr = io_addr - MMAP_IO_BASE"

lemma mmap_io_to_phys_inverse [simp]:
  "mmap_io_to_phys (mmap_phys_to_io a) = a" "mmap_phys_to_io (mmap_io_to_phys a) = a"
  by (simp_all add: mmap_io_to_phys_def mmap_phys_to_io_def)

section \<open>The boot memory map\<close>

datatype handover_mmap_type =
    HANDOVER_MMAP_FREE
  | HANDOVER_MMAP_USED
  | HANDOVER_MMAP_RECLAIMABLE
  | HANDOVER_MMAP_RESERVED

record handover_mmap_entry =
  entry_range :: usize_range
  entry_type :: handover_mmap_type

definition handover_mmap_base :: "handover_mmap_entry list \<Rightarrow> fault + u64" where
  "handover_mmap_base entries =
     (case entries of [] \<Rightarrow> Inl Uninitialised | e # _ \<Rightarrow> Inr (rbase (entry_range e)))"

definition handover_mmap_end :: "handover_mmap_entry list \<Rightarrow> fault + u64" where
  "handover_mmap_end entries =
     (if entries = [] then Inl OutOfBounds else Inr (range_end (entry_range (last entries))))"

section \<open>The page allocator\<close>

record pmm =
  pmm_bitmap :: bits
  pmm_bitmap_addr :: u64
  bestbet_upper :: u64
  bestbet_lower :: u64
  available_memory :: u64
  used_memory :: u64
  usable_range :: usize_range

definition pmm_boot :: pmm where
  "pmm_boot = \<lparr>pmm_bitmap = \<lparr>bits_data = [], bits_size = 0\<rparr>, pmm_bitmap_addr = 0,
     bestbet_upper = 0, bestbet_lower = -1, available_memory = 0, used_memory = 0,
     usable_range = mk_range 0 0\<rparr>"

abbreviation (input) PMM_USED :: bool where "PMM_USED \<equiv> True"
abbreviation (input) PMM_UNUSED :: bool where "PMM_UNUSED \<equiv> False"

definition addr2pages :: "pmm \<Rightarrow> usize_range \<Rightarrow> usize_range" where
  "addr2pages p r = range_div (mk_range (rbase r - rbase (usable_range p)) (rsize r)) MEM_PAGE_SIZE"

definition pages2addr :: "pmm \<Rightarrow> usize_range \<Rightarrow> usize_range" where
  "pages2addr p r =
     (let r = range_mul r MEM_PAGE_SIZE in mk_range (rbase r + rbase (usable_range p)) (rsize r))"

definition pmm_used :: "pmm \<Rightarrow> usize_range \<Rightarrow> fault + (usize_range br_value \<times> pmm)" where
  "pmm_used p r =
     sbind (assert_truth (mem_is_range_page_aligned r) ''mem_is_range_page_aligned(range)'') (\<lambda>_.
     sbind (bits_set_range (pmm_bitmap p) (addr2pages p r) PMM_USED) (\<lambda>(count, b).
     Inr (Inr r, p\<lparr>pmm_bitmap := b, used_memory := used_memory p + of_nat count * MEM_PAGE_SIZE\<rparr>)))"

definition pmm_unused :: "pmm \<Rightarrow> usize_range \<Rightarrow> fault + (usize_range br_value \<times> pmm)" where
  "pmm_unused p r =
     sbind (assert_truth (mem_is_range_page_aligned r) ''mem_is_range_page_aligned(range)'') (\<lambda>_.
     if rbase r = 0 then Inr (Inl BR_BAD_ADDRESS, p)
     else
       let page_range = addr2pages p r in
       sbind (bits_set_range (pmm_bitmap p) page_range PMM_UNUSED) (\<lambda>(count, b).
       Inr (Inr r, p\<lparr>pmm_bitmap := b, used_memory := used_memory p - of_nat count * MEM_PAGE_SIZE,
         bestbet_upper := (if bestbet_upper p < range_end page_range then range_end page_range - 1
                           else bestbet_upper p),
         bestbet_lower := (if bestbet_lower p > range_begin page_range then range_begin page_range
                           else bestbet_lower p)\<rparr>)))"

definition pmm_alloc :: "pmm \<Rightarrow> u64 \<Rightarrow> bool \<Rightarrow> fault + (usize_range br_value \<times> pmm)" where
  "pmm_alloc p sz upper =
     sbind (assert_truth (mem_is_size_page_aligned sz) ''mem_is_size_page_aligned(size)'') (\<lambda>_.
     let page_count = sz div MEM_PAGE_SIZE in
     sbind (bits_find_free (pmm_bitmap p) (if upper then bestbet_upper p else bestbet_lower p)
              page_count upper) (\<lambda>page_range.
     sbind (if range_empty page_range
            then
              let p1 = (if upper then p\<lparr>bestbet_upper := -1\<rparr> else p\<lparr>bestbet_lower := 0\<rparr>) in
              sbind (bits_find_free (pmm_bitmap p1) (if upper then -1 else 0) page_count upper)
                (\<lambda>page_range. Inr (page_range, p1))
            else Inr (page_range, p)) (\<lambda>(page_range, p1).
     if \<not> range_any page_range then Inl (Panic ''pmm_alloc: out of memory!'')
     else
       let p2 = (if upper then p1\<lparr>bestbet_upper := range_begin page_range\<rparr>
                 else p1\<lparr>bestbet_lower := range_end page_range\<rparr>) in
       sbind (bits_set_range (pmm_bitmap p2) page_range PMM_USED) (\<lambda>(_, b).
       let pmm_range = pages2addr p2 page_range in
       Inr (Inr pmm_range,
            p2\<lparr>pmm_bitmap := b, used_memory := used_memory p2 + rsize pmm_range\<rparr>)))))"

subsection \<open>Setting up from the boot memory map\<close>

fun pmm_bitmap_place :: "handover_mmap_entry list \<Rightarrow> u64 \<Rightarrow> pmm \<Rightarrow> pmm" where
  "pmm_bitmap_place [] bitmap_size p = p"
| "pmm_bitmap_place (entry # es) bitmap_size p =
     (if entry_type entry = HANDOVER_MMAP_FREE \<and> rsize (entry_range entry) > bitmap_size \<and>
         \<not> range_colide (entry_range entry) (mk_range 0 0x4000)
      then p\<lparr>pmm_bitmap := bits_init (replicate (unat bitmap_size) 0) bitmap_size,
             pmm_bitmap_addr := mmap_phys_to_io (rbase (entry_range entry))\<rparr>
      else pmm_bitmap_place es bitmap_size p)"

definition pmm_bitmap_init :: "handover_mmap_entry list \<Rightarrow> pmm \<Rightarrow> fault + pmm" where
  "pmm_bitmap_init memory_map p =
     sbind (handover_mmap_base memory_map) (\<lambda>base.
     sbind (handover_mmap_end memory_map) (\<lambda>stop.
     let usable = range_from_start_and_end base stop;
         bitmap_size = align_up (rsize usable div MEM_PAGE_SIZE div 8) MEM_PAGE_SIZE;
         p1 = pmm_bitmap_place memory_map bitmap_size (p\<lparr>usable_range := usable\<rparr>)
     in Inr (p1\<lparr>pmm_bitmap := bits_fill (pmm_bitmap p1) PMM_USED\<rparr>)))"

definition pmm_mmap_entry :: "handover_mmap_entry \<Rightarrow> pmm \<Rightarrow> fault + pmm" where
  "pmm_mmap_entry entry p =
     (let r = entry_range entry in
      case entry_type entry of
        HANDOVER_MMAP_FREE \<Rightarrow>
          sbind (pmm_unused (p\<lparr>used_memory := used_memory p + rsize r\<rparr>) r) (\<lambda>(_, p1).
          Inr (p1\<lparr>available_memory := available_memory p1 + rsize r\<rparr>))
      | HANDOVER_MMAP_USED \<Rightarrow>
          Inr (p\<lparr>available_memory := available_memory p + rsize r,
                 used_memory := used_memory p + rsize r\<rparr>)
      | _ \<Rightarrow> Inr p)"

definition pmm_mmap_load :: "handover_mmap_entry list \<Rightarrow> pmm \<Rightarrow> fault + pmm" where
  "pmm_mmap_load memory_map p =
     sbind (for_each pmm_mmap_entry memory_map p) (\<lambda>p1.
     sbind (pmm_used p1 (mk_range (rbase (usable_range p1)) 0x4000)) (\<lambda>(_, p2). Inr p2))"

definition pmm_initialize :: "handover_mmap_entry list \<Rightarrow> pmm \<Rightarrow> fault + pmm" where
  "pmm_initialize memory_map p =
     sbind (pmm_bitmap_init memory_map p) (\<lambda>p1.
     sbind (pmm_mmap_load memory_map p1) (\<lambda>p2.
     sbind (if rbase (usable_range p2) > 0
            then sbind (pmm_used p2 (mk_range (rbase (usable_range p2)) MEM_PAGE_SIZE)) (\<lambda>(_, q). Inr q)
            else Inr p2) (\<lambda>p3.
     sbind (pmm_used p3 (mk_range (mmap_io_to_phys (pmm_bitmap_addr p3)) (bits_size (pmm_bitmap p3))))
       (\<lambda>(_, p4). Inr p4))))"

section \<open>The identity heap\<close>

definition heap_alloc_impl :: "pmm \<Rightarrow> u64 \<Rightarrow> bool \<Rightarrow> fault + (usize_range br_value \<times> pmm)" where
  "heap_alloc_impl p sz higher =
     sbind (pmm_alloc p (align_up sz MEM_PAGE_SIZE) higher) (\<lambda>(res, p1).
     Inr (case res of Inl e \<Rightarrow> Inl e
          | Inr r \<Rightarrow> Inr (mk_range (mmap_phys_to_io (rbase r)) (rsize r)), p1))"

definition heap_alloc :: "pmm \<Rightarrow> u64 \<Rightarrow> fault + (usize_range br_value \<times> pmm)" where
  "heap_alloc p sz = heap_alloc_impl p sz True"

definition heap_alloc_lower :: "pmm \<Rightarrow> u64 \<Rightarrow> fault + (usize_range br_value \<times> pmm)" where
  "heap_alloc_lower p sz = heap_alloc_impl p sz False"

definition heap_to_pmm :: "usize_range \<Rightarrow> usize_range" where
  "heap_to_pmm r = mk_range (mmap_io_to_phys (rbase r)) (rsize r)"

definition heap_free :: "pmm \<Rightarrow> usize_range \<Rightarrow> fault + (usize_range br_value \<times> pmm)" where
  "heap_free p r =
     sbind (pmm_unused p (heap_to_pmm r)) (\<lambda>(res, p1).
     Inr (case res of Inl e \<Rightarrow> Inl e | Inr _ \<Rightarrow> Inr r, p1))"

section \<open>Invariant and page view\<close>

lemma word_pred_less: "x \<noteq> 0 \<Longrightarrow> x - 1 < (x :: u64)"
  by (simp add: word_less_nat_alt unat_minus_one unat_gt_0 unat_eq_0)

text \<open>
  Page \<open>i\<close> of the manager is the page at \<open>usable base + 4096 * i\<close>. The invariant says that the
  bitmap is well formed, that no page it describes lies past the end of the address space, and
  that a search from above starts inside the bitmap.
\<close>

definition pmm_inv :: "pmm \<Rightarrow> bool" where
  "pmm_inv p \<longleftrightarrow> bits_inv (pmm_bitmap p) \<and> 1 < bits_len (pmm_bitmap p) \<and>
     mem_is_addr_page_aligned (rbase (usable_range p)) \<and>
     unat (rbase (usable_range p)) + unat (bits_len (pmm_bitmap p)) * 4096 < 2 ^ 64 \<and>
     bestbet_upper p < bits_len (pmm_bitmap p)"

definition page_used :: "pmm \<Rightarrow> nat \<Rightarrow> bool" where
  "page_used p i = bit_used (pmm_bitmap p) i"

definition page_count :: "pmm \<Rightarrow> nat" where
  "page_count p = unat (bits_len (pmm_bitmap p))"

definition pages_of :: "pmm \<Rightarrow> usize_range \<Rightarrow> nat set" where
  "pages_of p r = range_set (addr2pages p r)"

definition pmm_has_run :: "pmm \<Rightarrow> nat \<Rightarrow> bool" where
  "pmm_has_run p n \<longleftrightarrow> (\<exists>i. i + n \<le> page_count p \<and> bits_free_at (pmm_bitmap p) i n)"

lemma unat_div_page: "unat (a div MEM_PAGE_SIZE) = unat a div 4096"
  by (simp add: MEM_PAGE_SIZE_def unat_div)

lemma pages2addr_spec:
  assumes inv: "pmm_inv p" and ok: "range_ok pr" and len: "range_end pr \<le> bits_len (pmm_bitmap p)"
  defines "r \<equiv> pages2addr p pr"
  shows "unat (rbase r) = unat (rbase (usable_range p)) + unat (rbase pr) * 4096"
    and "unat (rsize r) = unat (rsize pr) * 4096" and "range_ok r"
    and "mem_is_range_page_aligned r" and "addr2pages p r = pr"
proof -
  let ?u = "rbase (usable_range p)" and ?L = "unat (bits_len (pmm_bitmap p))"
  have L: "unat (rbase pr) + unat (rsize pr) \<le> ?L"
    using len ok by (simp add: word_le_nat_alt unat_range_end)
  have fit: "unat ?u + ?L * 4096 < 2 ^ 64" using inv by (simp add: pmm_inv_def)
  have b: "unat (rbase pr * MEM_PAGE_SIZE) = unat (rbase pr) * 4096"
    using L fit by (subst unat_mult_u64) simp_all
  show s: "unat (rsize r) = unat (rsize pr) * 4096"
    using L fit unfolding r_def pages2addr_def range_mul_def Let_def
    by (simp, subst unat_mult_u64) simp_all
  show base: "unat (rbase r) = unat ?u + unat (rbase pr) * 4096"
    using L fit b unfolding r_def pages2addr_def range_mul_def Let_def
    by (simp, subst unat_plus_u64) simp_all
  show "range_ok r" using base s L fit by (simp add: range_ok_def)
  have "4096 dvd unat ?u" using inv by (simp add: pmm_inv_def page_aligned_nat)
  then show "mem_is_range_page_aligned r"
    by (simp add: mem_is_range_page_aligned_def page_aligned_nat size_aligned_nat base s)
  have "rbase r - ?u = rbase pr * MEM_PAGE_SIZE"
    by (simp add: r_def pages2addr_def range_mul_def Let_def)
  then have "(rbase r - ?u) div MEM_PAGE_SIZE = rbase pr"
    using b by (intro word_unat_eq_iff [THEN iffD2]) (simp add: unat_div_page)
  moreover have "rsize r div MEM_PAGE_SIZE = rsize pr"
    using s by (intro word_unat_eq_iff [THEN iffD2]) (simp add: unat_div_page)
  ultimately show "addr2pages p r = pr"
    by (simp add: addr2pages_def range_div_def mk_range_def)
qed

text \<open>What an allocation that found the pages \<open>pr\<close> does with them.\<close>

lemma pmm_take_spec:
  assumes inv: "pmm_inv p" and ok: "range_ok pr" and len: "range_end pr \<le> bits_len (pmm_bitmap p)"
    and free: "\<forall>i \<in> range_set pr. \<not> page_used p i"
    and p2: "pmm_bitmap p2 = pmm_bitmap p" "usable_range p2 = usable_range p"
      "used_memory p2 = used_memory p" "bestbet_upper p2 < bits_len (pmm_bitmap p)"
  shows "\<exists>q. sbind (bits_set_range (pmm_bitmap p2) pr PMM_USED) (\<lambda>(_, b).
       let pmm_range = pages2addr p2 pr in
       Inr (Inr pmm_range, p2\<lparr>pmm_bitmap := b, used_memory := used_memory p2 + rsize pmm_range\<rparr>))
       = (Inr (Inr (pages2addr p pr), q) :: fault + (usize_range br_value \<times> pmm)) \<and>
     pmm_inv q \<and> page_used q = (\<lambda>i. i \<in> range_set pr \<or> page_used p i) \<and>
     used_memory q = used_memory p + rsize (pages2addr p pr) \<and>
     usable_range q = usable_range p \<and> page_count q = page_count p"
proof -
  have bi: "bits_inv (pmm_bitmap p)" using inv by (simp add: pmm_inv_def)
  from bits_set_range_spec [OF bi ok len, of True] obtain c where
    c: "bits_set_range (pmm_bitmap p) pr True =
        Inr (card {i \<in> range_set pr. bit_used (pmm_bitmap p) i \<noteq> True}, c)"
      "bits_inv c" "bits_size c = bits_size (pmm_bitmap p)"
      "bit_used c = (\<lambda>i. if i \<in> range_set pr then True else bit_used (pmm_bitmap p) i)" by blast
  have same: "pages2addr p2 pr = pages2addr p pr" by (simp add: pages2addr_def p2)
  have bl: "bits_len c = bits_len (pmm_bitmap p)" using c(3) by (simp add: bits_len_def)
  define q where "q = p2\<lparr>pmm_bitmap := c, used_memory := used_memory p2 + rsize (pages2addr p pr)\<rparr>"
  have "pmm_inv q" using inv c(2) p2 bl by (simp add: pmm_inv_def q_def)
  moreover have "page_used q = (\<lambda>i. i \<in> range_set pr \<or> page_used p i)"
    using c(4) by (auto simp: page_used_def q_def fun_eq_iff)
  ultimately show ?thesis
    using c(1) p2 same bl by (intro exI [of _ q]) (simp add: q_def page_count_def Let_def)
qed

text \<open>
  The shape of a successful search, for either direction, and that it describes a range of the
  bitmap.
\<close>

lemma pmm_found_range:
  assumes inv: "pmm_inv p" and sz: "0 < n" and fit: "i + unat n \<le> page_count p"
  defines "pr \<equiv> mk_range (of_nat i) n"
  shows "range_ok pr" "range_end pr \<le> bits_len (pmm_bitmap p)" "range_set pr = {i ..< i + unat n}"
    "unat (range_begin pr) = i" "unat (range_end pr) = i + unat n" "range_any pr" "\<not> range_empty pr"
proof -
  have lt: "i + unat n < 2 ^ 64"
    using fit unat_lt_u64 [of "bits_len (pmm_bitmap p)"] by (simp add: page_count_def)
  then have i: "unat (of_nat i :: u64) = i" by (simp add: unat_of_nat_u64)
  show ok: "range_ok pr" using lt i by (simp add: pr_def range_ok_def)
  show "unat (range_begin pr) = i" using i by (simp add: pr_def range_begin_def)
  show e: "unat (range_end pr) = i + unat n" using ok i by (simp add: unat_range_end) (simp add: pr_def i)
  then show "range_end pr \<le> bits_len (pmm_bitmap p)"
    using fit by (simp add: word_le_nat_alt page_count_def)
  show "range_set pr = {i ..< i + unat n}" by (simp add: range_set_def pr_def i)
  show "range_any pr" "\<not> range_empty pr" using sz by (auto simp: pr_def range_any_def range_empty_def)
qed

lemma page_count_pos:
  assumes "mem_is_size_page_aligned sz" "0 < sz"
  shows "0 < sz div MEM_PAGE_SIZE" and "unat (sz div MEM_PAGE_SIZE) * 4096 = unat sz"
proof -
  have d: "4096 dvd unat sz" using assms(1) by (simp add: size_aligned_nat)
  then show m: "unat (sz div MEM_PAGE_SIZE) * 4096 = unat sz" by (simp add: unat_div_page)
  have "0 < unat sz" using assms(2) by (simp add: word_less_nat_alt)
  then show "0 < sz div MEM_PAGE_SIZE" using m by (simp add: word_less_nat_alt)
qed

text \<open>What a successful allocation of \<open>sz\<close> bytes promises.\<close>

definition pmm_allocated :: "pmm \<Rightarrow> u64 \<Rightarrow> usize_range \<Rightarrow> pmm \<Rightarrow> bool" where
  "pmm_allocated p sz r q \<longleftrightarrow> rsize r = sz \<and> range_ok r \<and> mem_is_range_page_aligned r \<and>
     unat (rbase r) = unat (rbase (usable_range p)) + unat (rbase (addr2pages p r)) * 4096 \<and>
     pages_of p r \<subseteq> {..<page_count p} \<and> (\<forall>i \<in> pages_of p r. \<not> page_used p i) \<and>
     page_used q = (\<lambda>i. i \<in> pages_of p r \<or> page_used p i) \<and>
     used_memory q = used_memory p + sz \<and> usable_range q = usable_range p \<and>
     page_count q = page_count p \<and> pmm_inv q"

lemma pmm_take_allocated:
  assumes inv: "pmm_inv p" and al: "mem_is_size_page_aligned sz" and pos: "0 < sz"
    and fit: "i + unat (sz div MEM_PAGE_SIZE) \<le> page_count p"
    and free: "bits_free_at (pmm_bitmap p) i (unat (sz div MEM_PAGE_SIZE))"
    and p2: "pmm_bitmap p2 = pmm_bitmap p" "usable_range p2 = usable_range p"
      "used_memory p2 = used_memory p" "bestbet_upper p2 < bits_len (pmm_bitmap p)"
  defines "pr \<equiv> mk_range (of_nat i) (sz div MEM_PAGE_SIZE)"
  shows "\<exists>q. sbind (bits_set_range (pmm_bitmap p2) pr PMM_USED) (\<lambda>(_, b).
       let pmm_range = pages2addr p2 pr in
       Inr (Inr pmm_range, p2\<lparr>pmm_bitmap := b, used_memory := used_memory p2 + rsize pmm_range\<rparr>))
       = (Inr (Inr (pages2addr p pr), q) :: fault + (usize_range br_value \<times> pmm)) \<and>
     pmm_allocated p sz (pages2addr p pr) q"
proof -
  note n = page_count_pos [OF al pos]
  note f = pmm_found_range [OF inv n(1) fit, folded pr_def]
  note a = pages2addr_spec [OF inv f(1,2)]
  have unused: "\<forall>i \<in> range_set pr. \<not> page_used p i"
    using free f(3) by (auto simp: bits_free_at_def page_used_def)
  have sz: "rsize (pages2addr p pr) = sz"
    using a(2) n(2) by (intro word_unat_eq_iff [THEN iffD2]) (simp add: pr_def)
  have pg: "pages_of p (pages2addr p pr) = range_set pr" by (simp add: pages_of_def a(5))
  show ?thesis
    using pmm_take_spec [OF inv f(1,2) unused p2] a sz pg unused f(3) fit
    by (fastforce simp: pmm_allocated_def)
qed

text \<open>An allocation from below takes a free run when there is one and panics when there is none.\<close>

lemma pmm_alloc_lower_spec:
  assumes inv: "pmm_inv p" and al: "mem_is_size_page_aligned sz" and pos: "0 < sz"
  shows "if pmm_has_run p (unat sz div 4096)
     then \<exists>r q. pmm_alloc p sz False = Inr (Inr r, q) \<and> pmm_allocated p sz r q
     else pmm_alloc p sz False = Inl (Panic ''pmm_alloc: out of memory!'')"
proof -
  let ?n = "sz div MEM_PAGE_SIZE" and ?b = "pmm_bitmap p"
  have bi: "bits_inv ?b" "1 < bits_len ?b" and up: "bestbet_upper p < bits_len ?b"
    using inv by (auto simp: pmm_inv_def)
  note n = page_count_pos [OF al pos]
  have un: "unat ?n = unat sz div 4096" by (rule unat_div_page)
  note found = pmm_found_range [OF inv n(1)]
  consider (hit) i where "bits_find_free ?b (bestbet_lower p) ?n False = Inr (mk_range (of_nat i) ?n)"
      "i + unat ?n \<le> page_count p" "bits_free_at ?b i (unat ?n)"
    | (miss) "bits_find_free ?b (bestbet_lower p) ?n False = Inr (mk_range 0 0)"
    using bits_find_free_lower [OF bi n(1), of "bestbet_lower p"] by (auto simp: page_count_def)
  then show ?thesis
  proof cases
    case hit
    then have run: "pmm_has_run p (unat sz div 4096)" using un by (auto simp: pmm_has_run_def)
    note f = found [OF hit(2)]
    show ?thesis
      using pmm_take_allocated [OF inv al pos hit(2,3),
          of "p\<lparr>bestbet_lower := range_end (mk_range (of_nat i) ?n)\<rparr>"] up hit(1) f run al
      by (auto simp: pmm_alloc_def Let_def)
  next
    case miss
    consider (hit2) i where "bits_find_free ?b 0 ?n False = Inr (mk_range (of_nat i) ?n)"
        "i + unat ?n \<le> page_count p" "bits_free_at ?b i (unat ?n)"
      | (none) "bits_find_free ?b 0 ?n False = Inr (mk_range 0 0)"
          "\<forall>i. i + unat ?n \<le> page_count p \<longrightarrow> \<not> bits_free_at ?b i (unat ?n)"
      using bits_find_free_lower [OF bi n(1), of 0] by (auto simp: page_count_def)
    then show ?thesis
    proof cases
      case hit2
      then have run: "pmm_has_run p (unat sz div 4096)" using un by (auto simp: pmm_has_run_def)
      note f = found [OF hit2(2)]
      show ?thesis
        using pmm_take_allocated [OF inv al pos hit2(2,3),
            of "p\<lparr>bestbet_lower := range_end (mk_range (of_nat i) ?n)\<rparr>"] up hit2(1) miss f run al
        by (auto simp: pmm_alloc_def Let_def range_empty_def)
    next
      case none
      then have "\<not> pmm_has_run p (unat sz div 4096)" using un by (auto simp: pmm_has_run_def)
      with none(1) miss al show ?thesis
        by (simp add: pmm_alloc_def Let_def range_empty_def range_any_def)
    qed
  qed
qed

text \<open>
  An allocation from above either takes a free run, or its search below the best bet failed and
  the second search reads past the end of the bitmap.
\<close>

lemma pmm_alloc_upper_spec:
  assumes inv: "pmm_inv p" and al: "mem_is_size_page_aligned sz" and pos: "0 < sz"
  shows "(\<exists>r q. pmm_alloc p sz True = Inr (Inr r, q) \<and> pmm_allocated p sz r q) \<or>
     pmm_alloc p sz True = Inl OutOfBounds \<and>
       (\<forall>i. 1 \<le> i \<and> i + unat sz div 4096 \<le> Suc (unat (bestbet_upper p)) \<longrightarrow>
          \<not> bits_free_at (pmm_bitmap p) i (unat sz div 4096))"
proof -
  let ?n = "sz div MEM_PAGE_SIZE" and ?b = "pmm_bitmap p"
  have bi: "bits_inv ?b" "1 < bits_len ?b" and up: "bestbet_upper p < bits_len ?b"
    using inv by (auto simp: pmm_inv_def)
  have upn: "Suc (unat (bestbet_upper p)) \<le> page_count p"
    using up by (simp add: word_less_nat_alt page_count_def)
  note n = page_count_pos [OF al pos]
  have un: "unat ?n = unat sz div 4096" by (rule unat_div_page)
  consider (hit) i where "bits_find_free ?b (bestbet_upper p) ?n True = Inr (mk_range (of_nat i) ?n)"
      "i + unat ?n \<le> page_count p" "bits_free_at ?b i (unat ?n)"
    | (miss) "bits_find_free ?b (bestbet_upper p) ?n True = Inr (mk_range 0 0)"
        "\<forall>i. 1 \<le> i \<and> i + unat ?n \<le> Suc (unat (bestbet_upper p)) \<longrightarrow> \<not> bits_free_at ?b i (unat ?n)"
    using bits_find_free_upper [OF bi n(1) up] upn by (elim disjE exE conjE) (meson le_trans)+
  then show ?thesis
  proof cases
    case hit
    note f = pmm_found_range [OF inv n(1) hit(2)]
    have "range_begin (mk_range (of_nat i) ?n) < bits_len ?b"
      using f(4) hit(2) n(1) by (simp add: word_less_nat_alt page_count_def)
    then show ?thesis
      using pmm_take_allocated [OF inv al pos hit(2,3),
          of "p\<lparr>bestbet_upper := range_begin (mk_range (of_nat i) ?n)\<rparr>"] hit(1) f al
      by (auto simp: pmm_alloc_def Let_def)
  next
    case miss
    have "bits_find_free ?b (-1) ?n True = Inl OutOfBounds"
      using bi by (intro bits_find_free_upper_overrun) simp_all
    with miss al show ?thesis
      by (simp add: pmm_alloc_def Let_def range_empty_def un)
  qed
qed

lemma pmm_alloc_misaligned:
  "\<not> mem_is_size_page_aligned sz \<Longrightarrow>
     pmm_alloc p sz upper = Inl (Panic ''mem_is_size_page_aligned(size)'')"
  by (simp add: pmm_alloc_def)

lemma pmm_alloc_result:
  assumes "pmm_inv p" "0 < sz" "pmm_alloc p sz upper = Inr (x, q)"
  shows "\<exists>r. x = Inr r \<and> pmm_allocated p sz r q"
proof -
  have al: "mem_is_size_page_aligned sz" using assms(3) pmm_alloc_misaligned by force
  show ?thesis
    using pmm_alloc_lower_spec [OF assms(1) al assms(2)] pmm_alloc_upper_spec [OF assms(1) al assms(2)]
      assms(3)
    by (cases upper) (auto split: if_splits)
qed

section \<open>Marking ranges and accounting\<close>

text \<open>A range that lies inside the pages the manager describes.\<close>

definition pmm_range_ok :: "pmm \<Rightarrow> usize_range \<Rightarrow> bool" where
  "pmm_range_ok p r \<longleftrightarrow> mem_is_range_page_aligned r \<and> rbase (usable_range p) \<le> rbase r \<and>
     unat (rbase r) + unat (rsize r) \<le> unat (rbase (usable_range p)) + page_count p * 4096"

lemma pages_fit:
  "(4096 :: nat) dvd a \<Longrightarrow> 4096 dvd b \<Longrightarrow> a + b \<le> n * 4096 \<Longrightarrow> a div 4096 + b div 4096 \<le> n"
  by (auto elim!: dvdE)

lemma addr2pages_ok:
  assumes inv: "pmm_inv p" and ok: "pmm_range_ok p r"
  shows "range_ok (addr2pages p r)" "range_end (addr2pages p r) \<le> bits_len (pmm_bitmap p)"
    "unat (rbase (addr2pages p r)) = (unat (rbase r) - unat (rbase (usable_range p))) div 4096"
    "unat (rsize (addr2pages p r)) = unat (rsize r) div 4096"
proof -
  let ?u = "rbase (usable_range p)"
  show b: "unat (rbase (addr2pages p r)) = (unat (rbase r) - unat ?u) div 4096"
    using ok by (simp add: addr2pages_def range_div_def unat_div_page unat_minus_u64 pmm_range_ok_def)
  show s: "unat (rsize (addr2pages p r)) = unat (rsize r) div 4096"
    by (simp add: addr2pages_def range_div_def unat_div_page)
  have le: "unat ?u \<le> unat (rbase r)" using ok by (simp add: pmm_range_ok_def word_le_nat_alt)
  have "4096 dvd unat (rsize r)"
    using ok by (simp add: pmm_range_ok_def mem_is_range_page_aligned_def size_aligned_nat)
  moreover have "4096 dvd unat (rbase r) - unat ?u"
    using ok inv by (intro dvd_diff_nat)
      (simp_all add: pmm_range_ok_def mem_is_range_page_aligned_def page_aligned_nat pmm_inv_def)
  moreover have "(unat (rbase r) - unat ?u) + unat (rsize r) \<le> page_count p * 4096"
    using ok le unfolding pmm_range_ok_def by linarith
  ultimately have sum: "(unat (rbase r) - unat ?u) div 4096 + unat (rsize r) div 4096 \<le> page_count p"
    using pages_fit by blast
  then show rok: "range_ok (addr2pages p r)"
    using unat_lt_u64 [of "bits_len (pmm_bitmap p)"] by (simp add: range_ok_def b s page_count_def)
  show "range_end (addr2pages p r) \<le> bits_len (pmm_bitmap p)"
    using sum by (simp add: word_le_nat_alt unat_range_end [OF rok] b s page_count_def)
qed

definition used_pages :: "pmm \<Rightarrow> nat" where
  "used_pages p = card {i. i < page_count p \<and> page_used p i}"

lemma card_marked:
  fixes N :: nat
  assumes "S \<subseteq> {..<N}"
  shows "card {i. i < N \<and> (i \<in> S \<or> P i)} = card {i. i < N \<and> P i} + card {i \<in> S. \<not> P i}"
    and "card {i. i < N \<and> P i} = card {i. i < N \<and> i \<notin> S \<and> P i} + card {i \<in> S. P i}"
proof -
  have "{i. i < N \<and> (i \<in> S \<or> P i)} = {i. i < N \<and> P i} \<union> {i \<in> S. \<not> P i}" using assms by auto
  moreover have "finite {i \<in> S. \<not> P i}" "finite {i \<in> S. P i}" using assms finite_subset [of _ "{..<N}"] by auto
  ultimately show "card {i. i < N \<and> (i \<in> S \<or> P i)} = card {i. i < N \<and> P i} + card {i \<in> S. \<not> P i}"
    by (simp add: card_Un_disjoint [of "{i. i < N \<and> P i}"] Int_def)
  have "{i. i < N \<and> P i} = {i. i < N \<and> i \<notin> S \<and> P i} \<union> {i \<in> S. P i}" using assms by auto
  with \<open>finite {i \<in> S. P i}\<close>
  show "card {i. i < N \<and> P i} = card {i. i < N \<and> i \<notin> S \<and> P i} + card {i \<in> S. P i}"
    by (simp add: card_Un_disjoint [of "{i. i < N \<and> i \<notin> S \<and> P i}"] Int_def)
qed

text \<open>The accounting invariant: bytes counted as used minus the bytes of used pages is constant.\<close>

definition pmm_slack :: "pmm \<Rightarrow> u64" where
  "pmm_slack p = used_memory p - of_nat (used_pages p) * MEM_PAGE_SIZE"

lemma pages_of_sub:
  assumes "pmm_inv p" "pmm_range_ok p r"
  shows "pages_of p r \<subseteq> {..<page_count p}"
  using addr2pages_ok [OF assms]
  by (auto simp: pages_of_def range_set_alt word_le_nat_alt page_count_def)

lemma pmm_used_spec:
  assumes inv: "pmm_inv p" and ok: "pmm_range_ok p r"
  shows "\<exists>q. pmm_used p r = Inr (Inr r, q) \<and> pmm_inv q \<and>
     page_used q = (\<lambda>i. i \<in> pages_of p r \<or> page_used p i) \<and> pmm_slack q = pmm_slack p \<and>
     usable_range q = usable_range p \<and> page_count q = page_count p"
proof -
  note a = addr2pages_ok [OF inv ok]
  have bi: "bits_inv (pmm_bitmap p)" using inv by (simp add: pmm_inv_def)
  from bits_set_range_spec [OF bi a(1,2), of True] obtain c where
    c: "bits_set_range (pmm_bitmap p) (addr2pages p r) True =
        Inr (card {i \<in> pages_of p r. bit_used (pmm_bitmap p) i \<noteq> True}, c)"
      "bits_inv c" "bits_size c = bits_size (pmm_bitmap p)"
      "bit_used c = (\<lambda>i. if i \<in> pages_of p r then True else bit_used (pmm_bitmap p) i)"
    unfolding pages_of_def by blast
  define q where "q = p\<lparr>pmm_bitmap := c, used_memory := used_memory p +
      of_nat (card {i \<in> pages_of p r. \<not> page_used p i}) * MEM_PAGE_SIZE\<rparr>"
  have bl: "bits_len c = bits_len (pmm_bitmap p)" using c(3) by (simp add: bits_len_def)
  have pu: "page_used q = (\<lambda>i. i \<in> pages_of p r \<or> page_used p i)"
    using c(4) by (auto simp: page_used_def q_def fun_eq_iff)
  have pc: "page_count q = page_count p" by (simp add: page_count_def q_def bl)
  have up: "used_pages q = used_pages p + card {i \<in> pages_of p r. \<not> page_used p i}"
    unfolding used_pages_def pu pc by (rule card_marked(1) [OF pages_of_sub [OF inv ok]])
  have "pmm_slack q = pmm_slack p"
    unfolding pmm_slack_def up by (simp add: q_def algebra_simps)
  moreover have "pmm_inv q" using inv c(2) bl by (simp add: pmm_inv_def q_def)
  moreover have "pmm_used p r = Inr (Inr r, q)"
    using c(1) ok by (simp add: pmm_used_def q_def pmm_range_ok_def page_used_def)
  ultimately show ?thesis using pu pc by (intro exI [of _ q]) (simp add: q_def)
qed

lemma pmm_unused_spec:
  assumes inv: "pmm_inv p" and ok: "pmm_range_ok p r" and nz: "rbase r \<noteq> 0"
  shows "\<exists>q. pmm_unused p r = Inr (Inr r, q) \<and> pmm_inv q \<and>
     page_used q = (\<lambda>i. i \<notin> pages_of p r \<and> page_used p i) \<and> pmm_slack q = pmm_slack p \<and>
     usable_range q = usable_range p \<and> page_count q = page_count p"
proof -
  let ?pr = "addr2pages p r"
  note a = addr2pages_ok [OF inv ok]
  have bi: "bits_inv (pmm_bitmap p)" using inv by (simp add: pmm_inv_def)
  from bits_set_range_spec [OF bi a(1,2), of False] obtain c where
    c: "bits_set_range (pmm_bitmap p) ?pr False =
        Inr (card {i \<in> pages_of p r. bit_used (pmm_bitmap p) i \<noteq> False}, c)"
      "bits_inv c" "bits_size c = bits_size (pmm_bitmap p)"
      "bit_used c = (\<lambda>i. if i \<in> pages_of p r then False else bit_used (pmm_bitmap p) i)"
    unfolding pages_of_def by blast
  define q where "q = p\<lparr>pmm_bitmap := c, used_memory := used_memory p -
      of_nat (card {i \<in> pages_of p r. page_used p i}) * MEM_PAGE_SIZE,
      bestbet_upper := (if bestbet_upper p < range_end ?pr then range_end ?pr - 1 else bestbet_upper p),
      bestbet_lower := (if bestbet_lower p > range_begin ?pr then range_begin ?pr else bestbet_lower p)\<rparr>"
  have bl: "bits_len c = bits_len (pmm_bitmap p)" using c(3) by (simp add: bits_len_def)
  have pu: "page_used q = (\<lambda>i. i \<notin> pages_of p r \<and> page_used p i)"
    using c(4) by (auto simp: page_used_def q_def fun_eq_iff)
  have pc: "page_count q = page_count p" by (simp add: page_count_def q_def bl)
  have up: "used_pages p = used_pages q + card {i \<in> pages_of p r. page_used p i}"
    unfolding used_pages_def pu pc by (rule card_marked(2) [OF pages_of_sub [OF inv ok]])
  have "pmm_slack q = pmm_slack p"
    unfolding pmm_slack_def up by (simp add: q_def algebra_simps)
  moreover have "bestbet_upper q < bits_len c"
  proof (cases "bestbet_upper p < range_end ?pr")
    case True
    then have "range_end ?pr - 1 < range_end ?pr"
      by (intro word_pred_less) auto
    with True a(2) bl show ?thesis by (simp add: q_def)
  next
    case False
    with inv bl show ?thesis by (simp add: q_def pmm_inv_def)
  qed
  then have "pmm_inv q" using inv c(2) bl by (simp add: pmm_inv_def q_def)
  moreover have "pmm_unused p r = Inr (Inr r, q)"
    using c(1) ok nz by (simp add: pmm_unused_def q_def pmm_range_ok_def page_used_def Let_def)
  ultimately show ?thesis using pu pc by (intro exI [of _ q]) (simp add: q_def)
qed

text \<open>What was allocated can be passed back.\<close>

lemma pmm_allocated_range_ok:
  assumes inv: "pmm_inv p" and pos: "0 < sz" and a: "pmm_allocated p sz r q"
  shows "pmm_range_ok q r"
proof -
  let ?u = "unat (rbase (usable_range p))" and ?i = "unat (rbase (addr2pages p r))"
  let ?n = "unat (rsize (addr2pages p r))"
  have b: "unat (rbase r) = ?u + ?i * 4096" and al: "mem_is_range_page_aligned r"
    and sub: "pages_of p r \<subseteq> {..<page_count p}" and same: "usable_range q = usable_range p"
      "page_count q = page_count p" and sz: "rsize r = sz"
    using a by (auto simp: pmm_allocated_def)
  have d: "4096 dvd unat (rsize r)" using al by (simp add: mem_is_range_page_aligned_def size_aligned_nat)
  have n: "?n = unat (rsize r) div 4096" by (simp add: addr2pages_def range_div_def unat_div_page)
  have "0 < unat (rsize r)" using pos sz by (simp add: word_less_nat_alt)
  with d n have pos_n: "0 < ?n" by (auto elim!: dvdE)
  have "?i + ?n - 1 \<in> pages_of p r" using pos_n by (simp add: pages_of_def range_set_def)
  with sub have "?i + ?n \<le> page_count p" using pos_n by auto
  then have "(?i + ?n) * 4096 \<le> page_count p * 4096" by (rule mult_le_mono1)
  moreover have "unat (rsize r) = ?n * 4096" using d n by simp
  ultimately show ?thesis
    using b al same by (simp add: pmm_range_ok_def word_le_nat_alt algebra_simps)
qed

section \<open>Properties\<close>

text \<open>
  C12. A successful page allocation, from above or below, returns page-aligned memory of exactly the
  requested size whose pages were all free, marks exactly those pages used, adds the size to the
  used total and keeps the manager's invariant.
\<close>

theorem pmm_alloc_exclusive:
  assumes "pmm_inv p" and "0 < sz" and "pmm_alloc p sz upper = Inr (x, q)"
  shows "\<exists>r. x = Inr r \<and> rsize r = sz \<and> range_ok r \<and> mem_is_range_page_aligned r \<and>
     (\<forall>i \<in> pages_of p r. i < page_count p \<and> \<not> page_used p i) \<and>
     (\<forall>i. page_used q i = (i \<in> pages_of p r \<or> page_used p i)) \<and>
     used_memory q = used_memory p + sz \<and> pmm_inv q"
  using pmm_alloc_result [OF assms] by (auto simp: pmm_allocated_def)

definition pmm_example :: pmm where
  "pmm_example = \<lparr>pmm_bitmap = bits_init [0x0f, 0xf0] 2, pmm_bitmap_addr = 0, bestbet_upper = 11,
     bestbet_lower = 0, available_memory = 0x10000, used_memory = 0x8000,
     usable_range = mk_range 0x100000 0x10000\<rparr>"

lemma pmm_example_inv: "pmm_inv pmm_example"
  by (simp add: pmm_example_def pmm_inv_def bits_inv_def bits_init_def bits_len_def
    mem_is_addr_page_aligned_def MEM_PAGE_SIZE_def)

theorem pmm_alloc_exclusive_witness:
  "\<exists>q. pmm_alloc pmm_example 0x2000 False = Inr (Inr (mk_range 0x104000 0x2000), q) \<and>
     page_used q 4 \<and> \<not> page_used pmm_example 4 \<and> pmm_inv q"
proof -
  have "map_sum id fst (pmm_alloc pmm_example 0x2000 False) = Inr (Inr (mk_range 0x104000 0x2000))"
    by code_simp
  then obtain q where q: "pmm_alloc pmm_example 0x2000 False = Inr (Inr (mk_range 0x104000 0x2000), q)"
    by (cases "pmm_alloc pmm_example 0x2000 False") auto
  have "4 \<in> pages_of pmm_example (mk_range 0x104000 0x2000)"
    by (simp add: pages_of_def addr2pages_def range_div_def range_set_def pmm_example_def MEM_PAGE_SIZE_def)
  with q pmm_alloc_exclusive [OF pmm_example_inv _ q] show ?thesis by auto
qed

text \<open>
  Allocating from below is complete: it succeeds whenever the bitmap has a run of free pages of
  the requested size anywhere, and it panics with the out-of-memory message exactly when there is
  none.
\<close>

theorem pmm_alloc_lower_complete:
  assumes "pmm_inv p" and "mem_is_size_page_aligned sz" and "0 < sz"
  shows "if pmm_has_run p (unat sz div 4096)
     then \<exists>r q. pmm_alloc p sz False = Inr (Inr r, q)
     else pmm_alloc p sz False = Inl (Panic ''pmm_alloc: out of memory!'')"
  using pmm_alloc_lower_spec [OF assms] by (auto split: if_splits)

theorem pmm_alloc_lower_complete_witness:
  "pmm_alloc pmm_example 0x9000 False = Inl (Panic ''pmm_alloc: out of memory!'') \<or>
   (\<exists>r q. pmm_alloc pmm_example 0x9000 False = Inr (Inr r, q))"
  using pmm_alloc_lower_complete [OF pmm_example_inv, of "0x9000"]
  by (auto simp: mem_is_size_page_aligned_def MEM_PAGE_SIZE_def split: if_splits)

text \<open>
  Marking and releasing ranges keeps the accounts: \<open>pmm_used\<close> and \<open>pmm_unused\<close> change exactly the
  pages of the range, and the number of bytes counted as used moves by exactly the bytes of the
  pages that changed, so that pages marked twice are counted once.
\<close>

theorem pmm_accounting:
  assumes "pmm_inv p" and "pmm_range_ok p r" and "rbase r \<noteq> 0"
  shows "(\<exists>q. pmm_used p r = Inr (Inr r, q) \<and> pmm_inv q \<and>
       (\<forall>i. page_used q i = (i \<in> pages_of p r \<or> page_used p i)) \<and>
       used_memory q - of_nat (used_pages q) * 4096 = used_memory p - of_nat (used_pages p) * 4096) \<and>
     (\<exists>q. pmm_unused p r = Inr (Inr r, q) \<and> pmm_inv q \<and>
       (\<forall>i. page_used q i = (i \<notin> pages_of p r \<and> page_used p i)) \<and>
       used_memory q - of_nat (used_pages q) * 4096 = used_memory p - of_nat (used_pages p) * 4096)"
  using pmm_used_spec [OF assms(1,2)] pmm_unused_spec [OF assms]
  by (auto simp: pmm_slack_def MEM_PAGE_SIZE_def)

theorem pmm_accounting_witness:
  "\<exists>q. pmm_used pmm_example (mk_range 0x103000 0x3000) = Inr (Inr (mk_range 0x103000 0x3000), q) \<and> pmm_inv q"
proof -
  have "pmm_range_ok pmm_example (mk_range 0x103000 0x3000)"
    by (simp add: pmm_range_ok_def pmm_example_def mem_is_range_page_aligned_def page_count_def
      mem_is_addr_page_aligned_def mem_is_size_page_aligned_def MEM_PAGE_SIZE_def bits_init_def bits_len_def)
  from pmm_accounting [OF pmm_example_inv this] show ?thesis by auto
qed

text \<open>
  Releasing an allocation gives back the page map there was before it: memory allocated and then
  passed to \<open>pmm_unused\<close> leaves every page as it was.
\<close>

theorem pmm_alloc_free_roundtrip:
  assumes "pmm_inv p" and "0 < sz" and "pmm_alloc p sz upper = Inr (Inr r, q)" and "rbase r \<noteq> 0"
  shows "\<exists>s. pmm_unused q r = Inr (Inr r, s) \<and> page_used s = page_used p \<and> pmm_inv s"
proof -
  have a: "pmm_allocated p sz r q" using pmm_alloc_result [OF assms(1-3)] by auto
  then have same: "usable_range q = usable_range p" "page_count q = page_count p" and inv: "pmm_inv q"
    by (auto simp: pmm_allocated_def)
  have pg: "pages_of q r = pages_of p r" by (simp add: pages_of_def addr2pages_def same)
  have "pmm_range_ok q r" by (rule pmm_allocated_range_ok [OF assms(1,2) a])
  from pmm_unused_spec [OF inv this assms(4)] a pg show ?thesis
    by (fastforce simp: pmm_allocated_def fun_eq_iff)
qed

theorem pmm_alloc_free_roundtrip_witness:
  "\<exists>q s. pmm_alloc pmm_example 0x2000 False = Inr (Inr (mk_range 0x104000 0x2000), q) \<and>
     pmm_unused q (mk_range 0x104000 0x2000) = Inr (Inr (mk_range 0x104000 0x2000), s) \<and>
     page_used s = page_used pmm_example"
proof -
  have "map_sum id fst (pmm_alloc pmm_example 0x2000 False) = Inr (Inr (mk_range 0x104000 0x2000))"
    by code_simp
  then obtain q where q: "pmm_alloc pmm_example 0x2000 False = Inr (Inr (mk_range 0x104000 0x2000), q)"
    by (cases "pmm_alloc pmm_example 0x2000 False") auto
  from pmm_alloc_free_roundtrip [OF pmm_example_inv _ q] q show ?thesis by auto
qed

end
