(* ===== verification/Vmm.thy ===== *)
theory Vmm
  imports Pmm
begin

text \<open>
  The x86-64 virtual memory manager, \<open>kernel/x86_64/vmm.c\<close> with \<open>paging.h\<close>: four levels of page
  tables of 512 raw 64-bit entries. A table is named by its address in the I/O window, and
  \<open>vmm_tables\<close> gives the content of each. The physical memory manager that tables are taken from
  is part of the state; \<open>vmm_invlpg\<close> records the TLB invalidations and \<open>vmm_cr3\<close> the loaded root.
\<close>

section \<open>Page table entries\<close>

definition pml_flag :: "bool \<Rightarrow> nat \<Rightarrow> u64" where
  "pml_flag b n = (if b then push_bit n 1 else 0)"

definition pml_make_entry :: "u64 \<Rightarrow> u64 \<Rightarrow> u64" where
  "pml_make_entry physical flags =
     push_bit 12 (drop_bit 12 physical) OR pml_flag True 0
       OR pml_flag (flags AND BR_MEM_WRITABLE \<noteq> 0) 1 OR pml_flag (flags AND BR_MEM_USER \<noteq> 0) 2
       OR pml_flag (flags AND BR_MEM_WRITE_THROUGHT \<noteq> 0) 3 OR pml_flag (flags AND BR_MEM_GLOBAL \<noteq> 0) 8"

definition pml_clean_entry :: u64 where
  "pml_clean_entry = 0"

definition pml_present :: "u64 \<Rightarrow> bool" where
  "pml_present e = bit e 0"

definition PML_GET_ADDR :: "u64 \<Rightarrow> u64" where
  "PML_GET_ADDR e = push_bit 12 (drop_bit 12 e)"

definition PMLX_GET_INDEX :: "u64 \<Rightarrow> nat \<Rightarrow> nat" where
  "PMLX_GET_INDEX addr level =
     unat (drop_bit (12 + level * 9) (addr AND push_bit (12 + level * 9) 0x1ff))"

section \<open>State and operations\<close>

record vmm =
  vmm_pmm :: pmm
  vmm_tables :: "u64 \<Rightarrow> nat \<Rightarrow> u64"
  vmm_kpml :: u64
  vmm_cr3 :: u64
  vmm_invlpg :: "u64 list"

definition vmm_write :: "u64 \<Rightarrow> nat \<Rightarrow> u64 \<Rightarrow> vmm \<Rightarrow> vmm" where
  "vmm_write table idx e v = v\<lparr>vmm_tables := (vmm_tables v)(table := (vmm_tables v table)(idx := e))\<rparr>"

definition vmm_flush :: "u64 \<Rightarrow> usize_range \<Rightarrow> vmm \<Rightarrow> usize_range br_value \<times> vmm" where
  "vmm_flush space r v =
     (Inr r, v\<lparr>vmm_invlpg := vmm_invlpg v @ map (\<lambda>i. (rbase r div MEM_PAGE_SIZE + of_nat i) * MEM_PAGE_SIZE)
        [0..<unat (rsize r div MEM_PAGE_SIZE)]\<rparr>)"

definition vmm_get_pml :: "vmm \<Rightarrow> u64 \<Rightarrow> nat \<Rightarrow> u64 br_value" where
  "vmm_get_pml v table idx =
     (let entry = vmm_tables v table idx in
      if \<not> pml_present entry then Inl BR_BAD_ADDRESS
      else Inr (mmap_phys_to_io (PML_GET_ADDR entry)))"

definition vmm_get_pml_or_alloc :: "u64 \<Rightarrow> nat \<Rightarrow> u64 \<Rightarrow> vmm \<Rightarrow> fault + (u64 br_value \<times> vmm)" where
  "vmm_get_pml_or_alloc table idx flags v =
     (let entry = vmm_tables v table idx in
      if pml_present entry then Inr (Inr (mmap_phys_to_io (PML_GET_ADDR entry)), v)
      else sbind (heap_alloc (vmm_pmm v) MEM_PAGE_SIZE) (\<lambda>(res, p).
        case res of Inl e \<Rightarrow> Inr (Inl e, v\<lparr>vmm_pmm := p\<rparr>)
        | Inr rng \<Rightarrow>
            let target = rbase rng;
                v1 = v\<lparr>vmm_pmm := p, vmm_tables := (vmm_tables v)(target := (\<lambda>_. 0))\<rparr>
            in Inr (Inr target, vmm_write table idx (pml_make_entry (mmap_io_to_phys target) flags) v1)))"

definition vmm_map_page :: "u64 \<Rightarrow> u64 \<Rightarrow> u64 \<Rightarrow> u64 \<Rightarrow> vmm \<Rightarrow> fault + (usize_range br_value \<times> vmm)" where
  "vmm_map_page pml4 virtual_page physical_page flags v =
     sbind (vmm_get_pml_or_alloc pml4 (PMLX_GET_INDEX virtual_page 3)
              ((flags OR BR_MEM_WRITABLE OR BR_MEM_USER) AND NOT BR_MEM_GLOBAL) v) (\<lambda>(r3, v).
     case r3 of Inl e \<Rightarrow> Inr (Inl e, v) | Inr pml3 \<Rightarrow>
     sbind (vmm_get_pml_or_alloc pml3 (PMLX_GET_INDEX virtual_page 2)
              (flags OR BR_MEM_WRITABLE OR BR_MEM_USER) v) (\<lambda>(r2, v).
     case r2 of Inl e \<Rightarrow> Inr (Inl e, v) | Inr pml2 \<Rightarrow>
     sbind (vmm_get_pml_or_alloc pml2 (PMLX_GET_INDEX virtual_page 1)
              (flags OR BR_MEM_WRITABLE OR BR_MEM_USER) v) (\<lambda>(r1, v).
     case r1 of Inl e \<Rightarrow> Inr (Inl e, v) | Inr pml1 \<Rightarrow>
     if pml_present (vmm_tables v pml1 (PMLX_GET_INDEX virtual_page 0))
     then Inl (Panic ''already mapped'')
     else Inr (Inr (mk_range virtual_page MEM_PAGE_SIZE),
               vmm_write pml1 (PMLX_GET_INDEX virtual_page 0) (pml_make_entry physical_page flags) v))))"

text \<open>The three look-ups that updating, unmapping and translating a page share.\<close>

definition vmm_leaf_table :: "vmm \<Rightarrow> u64 \<Rightarrow> u64 \<Rightarrow> u64 br_value" where
  "vmm_leaf_table v pml4 addr =
     sbind (vmm_get_pml v pml4 (PMLX_GET_INDEX addr 3)) (\<lambda>pml3.
     sbind (vmm_get_pml v pml3 (PMLX_GET_INDEX addr 2)) (\<lambda>pml2.
     vmm_get_pml v pml2 (PMLX_GET_INDEX addr 1)))"

definition vmm_update_page :: "u64 \<Rightarrow> u64 \<Rightarrow> u64 \<Rightarrow> vmm \<Rightarrow> fault + (usize_range br_value \<times> vmm)" where
  "vmm_update_page pml4 virtual_page flags v =
     (case vmm_leaf_table v pml4 virtual_page of Inl e \<Rightarrow> Inr (Inl e, v)
      | Inr pml1 \<Rightarrow>
          let idx = PMLX_GET_INDEX virtual_page 0; entry = vmm_tables v pml1 idx in
          if \<not> pml_present entry then Inl (Panic ''is not mapped'')
          else Inr (Inr (mk_range virtual_page MEM_PAGE_SIZE),
                    vmm_write pml1 idx (pml_make_entry (PML_GET_ADDR entry) flags) v))"

definition vmm_unmap_page :: "u64 \<Rightarrow> u64 \<Rightarrow> vmm \<Rightarrow> fault + (usize_range br_value \<times> vmm)" where
  "vmm_unmap_page pml4 virtual_page v =
     (case vmm_leaf_table v pml4 virtual_page of Inl e \<Rightarrow> Inr (Inl e, v)
      | Inr pml1 \<Rightarrow>
          let idx = PMLX_GET_INDEX virtual_page 0 in
          sbind (assert_truth (pml_present (vmm_tables v pml1 idx)) ''entry->present'') (\<lambda>_.
          Inr (Inr (mk_range virtual_page MEM_PAGE_SIZE), vmm_write pml1 idx pml_clean_entry v)))"

fun vmm_update_pages :: "u64 \<Rightarrow> u64 \<Rightarrow> u64 \<Rightarrow> nat list \<Rightarrow> vmm \<Rightarrow> fault + (unit br_value \<times> vmm)" where
  "vmm_update_pages space base flags [] v = Inr (Inr (), v)"
| "vmm_update_pages space base flags (i # is) v =
     sbind (vmm_update_page space (of_nat i * MEM_PAGE_SIZE + base) flags v) (\<lambda>(res, v).
     case res of Inl e \<Rightarrow> Inr (Inl e, v) | Inr _ \<Rightarrow> vmm_update_pages space base flags is v)"

definition vmm_update_flags :: "u64 \<Rightarrow> usize_range \<Rightarrow> u64 \<Rightarrow> vmm \<Rightarrow> fault + (usize_range br_value \<times> vmm)" where
  "vmm_update_flags space virtual_range flags v =
     sbind (assert_truth (mem_is_range_page_aligned virtual_range) ''mem_is_range_page_aligned(virtual_range)'') (\<lambda>_.
     sbind (vmm_update_pages space (rbase virtual_range) flags
              [0..<unat (rsize virtual_range div MEM_PAGE_SIZE)] v) (\<lambda>(res, v).
     case res of Inl e \<Rightarrow> Inr (Inl e, v) | Inr _ \<Rightarrow> Inr (Inr virtual_range, v)))"

text \<open>The loops of \<open>vmm_map\<close> and \<open>vmm_unmap\<close> ignore the error code of the page operation.\<close>

definition vmm_map :: "u64 \<Rightarrow> usize_range \<Rightarrow> usize_range \<Rightarrow> u64 \<Rightarrow> vmm \<Rightarrow> fault + (usize_range br_value \<times> vmm)" where
  "vmm_map space virtual_range physical_range flags v =
     sbind (assert_truth (mem_is_range_page_aligned virtual_range) ''mem_is_range_page_aligned(virtual_range)'') (\<lambda>_.
     sbind (assert_truth (mem_is_range_page_aligned physical_range) ''mem_is_range_page_aligned(physical_range)'') (\<lambda>_.
     if rsize virtual_range \<noteq> rsize physical_range
     then Inl (Panic ''virtual_range.size must be equal to physical_range.size'')
     else sbind (for_each (\<lambda>i v. sbind (vmm_map_page space
                     (of_nat i * MEM_PAGE_SIZE + rbase virtual_range)
                     (of_nat i * MEM_PAGE_SIZE + rbase physical_range) flags v) (\<lambda>(_, v). Inr v))
                  [0..<unat (rsize virtual_range div MEM_PAGE_SIZE)] v) (\<lambda>v.
       Inr (Inr virtual_range, v))))"

definition vmm_unmap :: "u64 \<Rightarrow> usize_range \<Rightarrow> vmm \<Rightarrow> fault + (usize_range br_value \<times> vmm)" where
  "vmm_unmap space virtual_range v =
     sbind (assert_truth (mem_is_range_page_aligned virtual_range) ''mem_is_range_page_aligned(virtual_range)'') (\<lambda>_.
     sbind (for_each (\<lambda>i v. sbind (vmm_unmap_page space
                 (of_nat i * MEM_PAGE_SIZE + align_down (rbase virtual_range) MEM_PAGE_SIZE) v) (\<lambda>(_, v). Inr v))
              [0..<unat (rsize virtual_range div MEM_PAGE_SIZE)] v) (\<lambda>v.
     Inr (Inr virtual_range, v)))"

definition vmm_virt2phys :: "u64 \<Rightarrow> usize_range \<Rightarrow> vmm \<Rightarrow> usize_range br_value" where
  "vmm_virt2phys space virtual_range v =
     (case vmm_leaf_table v space (rbase virtual_range) of Inl e \<Rightarrow> Inl e
      | Inr pml1 \<Rightarrow> Inr (mk_range (PML_GET_ADDR (vmm_tables v pml1 (PMLX_GET_INDEX (rbase virtual_range) 0)))
                           (rsize virtual_range)))"

definition vmm_space_create :: "vmm \<Rightarrow> fault + (u64 \<times> vmm)" where
  "vmm_space_create v =
     sbind (heap_alloc (vmm_pmm v) MEM_PAGE_SIZE) (\<lambda>(res, p).
     case res of Inl e \<Rightarrow> Inl (Panic ''UNWRAP'')
     | Inr rng \<Rightarrow>
         let space = rbase rng;
             v1 = v\<lparr>vmm_pmm := p, vmm_tables := (vmm_tables v)(space := (\<lambda>_. 0))\<rparr>;
             v2 = fold (\<lambda>i v. vmm_write space i 0 v) [0..<255] v1;
             v3 = fold (\<lambda>i v. vmm_write space i (vmm_tables v (vmm_kpml v) i) v) [255..<512] v2
         in Inr (space, v3))"

fun vmm_space_destroy_pml :: "nat \<Rightarrow> u64 \<Rightarrow> nat \<Rightarrow> nat \<Rightarrow> vmm \<Rightarrow> fault + vmm" where
  "vmm_space_destroy_pml 0 pml start stop v = Inr v"
| "vmm_space_destroy_pml (Suc level) pml start stop v =
     sbind (for_each (\<lambda>i v. case vmm_get_pml v pml i of Inl _ \<Rightarrow> Inr v
                | Inr sub \<Rightarrow> vmm_space_destroy_pml level sub 0 512 v) [start..<stop] v) (\<lambda>v.
     sbind (heap_free (vmm_pmm v) (mk_range pml MEM_PAGE_SIZE)) (\<lambda>(_, p). Inr (v\<lparr>vmm_pmm := p\<rparr>)))"

definition vmm_space_destroy :: "u64 \<Rightarrow> vmm \<Rightarrow> fault + vmm" where
  "vmm_space_destroy space v = vmm_space_destroy_pml 4 space 0 255 v"

definition vmm_space_switch :: "u64 \<Rightarrow> vmm \<Rightarrow> vmm" where
  "vmm_space_switch space v = v\<lparr>vmm_cr3 := mmap_io_to_phys space\<rparr>"

definition vmm_kernel_space :: "vmm \<Rightarrow> u64" where
  "vmm_kernel_space v = vmm_kpml v"

definition vmm_load_entry :: "u64 \<Rightarrow> handover_mmap_entry \<Rightarrow> vmm \<Rightarrow> fault + vmm" where
  "vmm_load_entry target entry v =
     (let r = entry_range entry; flags = BR_MEM_WRITABLE OR BR_MEM_GLOBAL in
      sbind (if entry_type entry = HANDOVER_MMAP_USED
             then sbind (vmm_map target (mk_range (mmap_phys_to_kernel (rbase r)) (rsize r)) r flags v)
                    (\<lambda>(_, v). Inr v)
             else Inr v) (\<lambda>v.
      if rbase r \<ge> 0x100000000
      then sbind (vmm_map target (mk_range (mmap_phys_to_io (rbase r)) (rsize r)) r flags v) (\<lambda>(_, v). Inr v)
      else Inr v))"

definition vmm_load_memory_map :: "u64 \<Rightarrow> handover_mmap_entry list \<Rightarrow> vmm \<Rightarrow> fault + vmm" where
  "vmm_load_memory_map target memory_map v =
     sbind (vmm_map target (mk_range (mmap_phys_to_io 0) 0x100000000) (mk_range 0 0x100000000)
              BR_MEM_WRITABLE v) (\<lambda>(_, v).
     for_each (vmm_load_entry target) memory_map v)"

definition vmm_initialize :: "handover_mmap_entry list \<Rightarrow> vmm \<Rightarrow> fault + vmm" where
  "vmm_initialize memory_map v =
     sbind (heap_alloc_lower (vmm_pmm v) MEM_PAGE_SIZE) (\<lambda>(res, p).
     case res of Inl e \<Rightarrow> Inl (Panic ''UNWRAP'')
     | Inr rng \<Rightarrow>
         let kpml = rbase rng;
             v1 = v\<lparr>vmm_pmm := p, vmm_kpml := kpml, vmm_tables := (vmm_tables v)(kpml := (\<lambda>_. 0))\<rparr>
         in sbind (vmm_load_memory_map kpml memory_map v1) (\<lambda>v. Inr (vmm_space_switch kpml v)))"

section \<open>Entries and indices\<close>

lemma pml_make_entry_present [simp]: "pml_present (pml_make_entry pa flags)"
  by (simp add: pml_present_def pml_make_entry_def pml_flag_def bit_simps)

lemma pml_flag_low: "n < 12 \<Longrightarrow> 12 \<le> m \<Longrightarrow> \<not> bit (pml_flag b n) m"
  by (simp add: pml_flag_def bit_simps)

lemma PML_GET_ADDR_make: "PML_GET_ADDR (pml_make_entry pa flags) = PML_GET_ADDR pa"
proof (rule bit_eqI)
  fix m assume "possible_bit TYPE(u64) m"
  then have m: "m < 64" by simp
  show "bit (PML_GET_ADDR (pml_make_entry pa flags)) m = bit (PML_GET_ADDR pa) m"
  proof (cases "12 \<le> m")
    case True
    with m show ?thesis
      by (simp add: PML_GET_ADDR_def pml_make_entry_def bit_push_bit_iff bit_drop_bit_eq bit_or_iff pml_flag_low)
  next
    case False
    then show ?thesis by (simp add: PML_GET_ADDR_def bit_push_bit_iff)
  qed
qed

lemma PML_GET_ADDR_aligned:
  assumes "4096 dvd unat a" shows "PML_GET_ADDR a = a"
proof -
  have "unat (drop_bit 12 a) = unat a div 4096" by (simp add: drop_bit_eq_div unat_div)
  then have "drop_bit 12 a = of_nat (unat a div 4096)" by (metis of_nat_unat_u64)
  then have "PML_GET_ADDR a = of_nat (unat a div 4096) * 4096"
    by (simp add: PML_GET_ADDR_def push_bit_eq_mult)
  also have "\<dots> = of_nat (unat a div 4096 * 4096)" by simp
  also have "unat a div 4096 * 4096 = unat a" using assms by simp
  finally show ?thesis by simp
qed

lemma PMLX_GET_INDEX_less: "PMLX_GET_INDEX a l < 512"
proof -
  let ?n = "12 + l * 9"
  let ?x = "drop_bit ?n (a AND push_bit ?n (mask 9))"
  have "bit (take_bit 9 ?x) m = bit ?x m" for m
    by (cases "m < 9") (simp_all only: bit_take_bit_iff bit_drop_bit_eq bit_and_iff bit_push_bit_iff
      bit_mask_iff o_apply, simp_all)
  then have tb: "take_bit 9 ?x = ?x" by (intro bit_eqI)
  have "unat (take_bit 9 ?x) < 2 ^ 9" by (simp only: unsigned_take_bit_eq take_bit_nat_less_exp)
  then have "unat ?x < 2 ^ 9" by (simp only: tb)
  moreover have "(mask 9 :: u64) = 0x1ff" by (simp add: mask_eq_exp_minus_1)
  ultimately show ?thesis by (simp add: PMLX_GET_INDEX_def)
qed

section \<open>Page tables as a tree\<close>

text \<open>The table reached from a root along a path of indices.\<close>

fun vmm_table :: "(u64 \<Rightarrow> nat \<Rightarrow> u64) \<Rightarrow> u64 \<Rightarrow> nat list \<Rightarrow> u64 option" where
  "vmm_table T r [] = Some r"
| "vmm_table T r (i # is) =
     (if pml_present (T r i) then vmm_table T (mmap_phys_to_io (PML_GET_ADDR (T r i))) is else None)"

definition vmm_path :: "u64 \<Rightarrow> nat list" where
  "vmm_path va = [PMLX_GET_INDEX va 3, PMLX_GET_INDEX va 2, PMLX_GET_INDEX va 1]"

definition vmm_paths :: "nat list set" where
  "vmm_paths = {P. length P \<le> 3 \<and> set P \<subseteq> {..<512}}"

text \<open>The leaf entry that maps an address, when it is mapped.\<close>

definition vmm_entry :: "vmm \<Rightarrow> u64 \<Rightarrow> u64 \<Rightarrow> u64 option" where
  "vmm_entry v r va =
     (case vmm_table (vmm_tables v) r (vmm_path va) of None \<Rightarrow> None
      | Some t \<Rightarrow> let e = vmm_tables v t (PMLX_GET_INDEX va 0) in if pml_present e then Some e else None)"

definition same_page :: "u64 \<Rightarrow> u64 \<Rightarrow> bool" where
  "same_page a b \<longleftrightarrow> vmm_path a = vmm_path b \<and> PMLX_GET_INDEX a 0 = PMLX_GET_INDEX b 0"

definition page_addr :: "pmm \<Rightarrow> nat \<Rightarrow> u64" where
  "page_addr p i = of_nat (unat (rbase (usable_range p)) + i * 4096)"

definition table_owned :: "pmm \<Rightarrow> u64 \<Rightarrow> bool" where
  "table_owned p t \<longleftrightarrow> (\<exists>i < page_count p. page_used p i \<and> t = mmap_phys_to_io (page_addr p i))"

text \<open>
  The invariant of a space with root \<open>r\<close>: different paths reach different tables, and every
  table occupies a page that the physical memory manager has given out.
\<close>

definition vmm_inv :: "vmm \<Rightarrow> u64 \<Rightarrow> bool" where
  "vmm_inv v r \<longleftrightarrow> pmm_inv (vmm_pmm v) \<and>
     (\<forall>P \<in> vmm_paths. \<forall>t. vmm_table (vmm_tables v) r P = Some t \<longrightarrow> table_owned (vmm_pmm v) t \<and>
        (\<forall>Q \<in> vmm_paths. vmm_table (vmm_tables v) r Q = Some t \<longrightarrow> P = Q))"

lemma vmm_path_paths: "vmm_path va \<in> vmm_paths"
  by (simp add: vmm_path_def vmm_paths_def PMLX_GET_INDEX_less)

lemma length_vmm_path [simp]: "length (vmm_path va) = 3"
  by (simp add: vmm_path_def)

lemma vmm_table_snoc:
  "vmm_table T r (P @ [i]) = (case vmm_table T r P of None \<Rightarrow> None
     | Some t \<Rightarrow> if pml_present (T t i) then Some (mmap_phys_to_io (PML_GET_ADDR (T t i))) else None)"
  by (induction P arbitrary: r) auto

lemma vmm_leaf_table_alt:
  "vmm_leaf_table v r va = (case vmm_table (vmm_tables v) r (vmm_path va) of
     None \<Rightarrow> Inl BR_BAD_ADDRESS | Some t \<Rightarrow> Inr t)"
  by (simp add: vmm_leaf_table_def vmm_get_pml_def vmm_path_def Let_def)

lemma vmm_inv_table:
  assumes "vmm_inv v r" "P \<in> vmm_paths" "vmm_table (vmm_tables v) r P = Some t"
  shows "table_owned (vmm_pmm v) t"
    and "\<And>Q. Q \<in> vmm_paths \<Longrightarrow> vmm_table (vmm_tables v) r Q = Some t \<Longrightarrow> Q = P"
  using assms unfolding vmm_inv_def by blast+

lemma page_addr_facts:
  assumes "pmm_inv p" "i < page_count p"
  shows "unat (page_addr p i) = unat (rbase (usable_range p)) + i * 4096" "4096 dvd unat (page_addr p i)"
proof -
  have "unat (rbase (usable_range p)) + i * 4096 < 2 ^ 64"
    using assms by (simp add: pmm_inv_def page_count_def)
  then show u: "unat (page_addr p i) = unat (rbase (usable_range p)) + i * 4096"
    unfolding page_addr_def by (rule unat_of_nat_u64)
  show "4096 dvd unat (page_addr p i)"
    using assms(1) unfolding u by (simp add: pmm_inv_def page_aligned_nat)
qed

lemma page_addr_inj:
  assumes "pmm_inv p" "i < page_count p" "j < page_count p" "page_addr p i = page_addr p j"
  shows "i = j"
proof -
  have "unat (rbase (usable_range p)) + i * 4096 = unat (rbase (usable_range p)) + j * 4096"
    using page_addr_facts(1) [OF assms(1,2)] page_addr_facts(1) [OF assms(1,3)] assms(4) by metis
  then show ?thesis by simp
qed

text \<open>One page from the heap is a page that was free, and now belongs to the caller.\<close>

lemma heap_alloc_page:
  assumes inv: "pmm_inv p" and r: "heap_alloc p MEM_PAGE_SIZE = Inr (x, q)"
  shows "\<exists>i < page_count p. x = Inr (mk_range (mmap_phys_to_io (page_addr p i)) MEM_PAGE_SIZE) \<and>
     \<not> page_used p i \<and> page_used q = (page_used p)(i := True) \<and> pmm_inv q \<and>
     usable_range q = usable_range p \<and> page_count q = page_count p"
proof -
  have al: "align_up MEM_PAGE_SIZE MEM_PAGE_SIZE = MEM_PAGE_SIZE" by (simp add: align_up_def MEM_PAGE_SIZE_def)
  obtain y where a: "pmm_alloc p MEM_PAGE_SIZE True = Inr (y, q)"
    and x: "x = (case y of Inl e \<Rightarrow> Inl e | Inr r \<Rightarrow> Inr (mk_range (mmap_phys_to_io (rbase r)) (rsize r)))"
    using r by (auto simp: heap_alloc_def heap_alloc_impl_def al sbind_Inr_iff split: prod.splits)
  obtain rng where y: "y = Inr rng" and ok: "pmm_allocated p MEM_PAGE_SIZE rng q"
    using pmm_alloc_result [OF inv _ a] by (auto simp: MEM_PAGE_SIZE_def)
  let ?u = "unat (rbase (usable_range p))"
  have sz: "rsize rng = MEM_PAGE_SIZE" "mem_is_range_page_aligned rng" using ok by (auto simp: pmm_allocated_def)
  have one: "rsize (addr2pages p rng) = 1"
    by (simp add: addr2pages_def range_div_def sz MEM_PAGE_SIZE_def)
  define i where "i = unat (rbase (addr2pages p rng))"
  have pages: "pages_of p rng = {i}" by (auto simp: pages_of_def range_set_def one i_def)
  have ip: "i < page_count p" using ok pages by (auto simp: pmm_allocated_def)
  have "unat (rbase rng) = ?u + i * 4096" using ok by (simp add: pmm_allocated_def i_def)
  then have base: "rbase rng = page_addr p i"
    unfolding page_addr_def by (metis of_nat_unat_u64)
  show ?thesis
    using ok x y base ip sz(1) by (intro exI [of _ i]) (auto simp: pmm_allocated_def pages fun_eq_iff)
qed

text \<open>
  Linking a fresh, cleared table below an existing one changes the tree only at the new path.
\<close>

lemma vmm_table_link:
  assumes inj: "\<And>Q. Q \<in> vmm_paths \<Longrightarrow> vmm_table T r Q = Some t \<Longrightarrow> Q = P"
    and t: "vmm_table T r P = Some t" and absent: "\<not> pml_present (T t idx)"
    and fresh: "\<And>Q. Q \<in> vmm_paths \<Longrightarrow> vmm_table T r Q \<noteq> Some a"
    and e: "pml_present e" "mmap_phys_to_io (PML_GET_ADDR e) = a"
    and P: "P @ [idx] \<in> vmm_paths" and Q: "Q \<in> vmm_paths"
  defines "T' \<equiv> (T(a := (\<lambda>_. 0)))(t := ((T(a := (\<lambda>_. 0))) t)(idx := e))"
  shows "vmm_table T' r Q = (if Q = P @ [idx] then Some a else vmm_table T r Q)"
  using Q
proof (induction Q rule: rev_induct)
  case Nil
  then show ?case by simp
next
  case (snoc j Q)
  have PP: "P \<in> vmm_paths" using P by (auto simp: vmm_paths_def)
  have ta: "t \<noteq> a" using fresh [OF PP] t by auto
  have T't: "T' t = (T t)(idx := e)" using ta by (simp add: T'_def)
  have T'a: "T' a = (\<lambda>_. 0)" using ta by (simp add: T'_def)
  have T'b: "T' b = T b" if "b \<noteq> t" "b \<noteq> a" for b using that by (simp add: T'_def)
  from snoc.prems have QQ: "Q \<in> vmm_paths" by (auto simp: vmm_paths_def)
  note IH = snoc.IH [OF QQ]
  show ?case
  proof (cases "Q = P @ [idx]")
    case True
    have new: "vmm_table T' r Q = Some a" using IH True by simp
    have old: "vmm_table T r Q = None" using True t absent by (simp add: vmm_table_snoc)
    have "vmm_table T' r (Q @ [j]) = None"
      by (simp only: vmm_table_snoc new) (simp add: T'a pml_present_def)
    moreover have "vmm_table T r (Q @ [j]) = None"
      by (simp only: vmm_table_snoc old) simp
    ultimately show ?thesis using True by simp
  next
    case False
    show ?thesis
    proof (cases "vmm_table T r Q")
      case None
      then have "Q \<noteq> P" using t by auto
      with None False IH show ?thesis by (simp add: vmm_table_snoc)
    next
      case (Some b)
      then have ba: "b \<noteq> a" using fresh [OF QQ] by auto
      show ?thesis
      proof (cases "b = t")
        case True
        then have "Q = P" using inj [OF QQ] Some by simp
        with True Some False IH e t T't show ?thesis by (auto simp: vmm_table_snoc)
      next
        case bt: False
        then have "Q \<noteq> P" using Some t by auto
        with bt ba Some False IH T'b show ?thesis by (simp add: vmm_table_snoc)
      qed
    qed
  qed
qed

lemma vmm_get_pml_or_alloc_spec:
  assumes inv: "vmm_inv v r" and t: "vmm_table (vmm_tables v) r P = Some t"
    and P: "P @ [idx] \<in> vmm_paths" and run: "vmm_get_pml_or_alloc t idx flags v = Inr (x, w)"
  shows "\<exists>a. x = Inr a \<and> vmm_inv w r \<and> vmm_table (vmm_tables w) r (P @ [idx]) = Some a \<and>
     (\<forall>va. vmm_entry w r va = vmm_entry v r va)"
proof (cases "pml_present (vmm_tables v t idx)")
  case True
  with run t inv show ?thesis
    by (auto simp: vmm_get_pml_or_alloc_def Let_def vmm_table_snoc)
next
  case False
  let ?p = "vmm_pmm v" and ?T = "vmm_tables v"
  have PP: "P \<in> vmm_paths" using P by (auto simp: vmm_paths_def)
  have pinv: "pmm_inv ?p" using inv by (simp add: vmm_inv_def)
  obtain y q where h: "heap_alloc ?p MEM_PAGE_SIZE = Inr (y, q)"
    using run False by (auto simp: vmm_get_pml_or_alloc_def Let_def sbind_Inr_iff)
  from heap_alloc_page [OF pinv h] obtain i where i: "i < page_count ?p" "\<not> page_used ?p i"
    and y: "y = Inr (mk_range (mmap_phys_to_io (page_addr ?p i)) MEM_PAGE_SIZE)"
    and q: "page_used q = (page_used ?p)(i := True)" "pmm_inv q" "usable_range q = usable_range ?p"
      "page_count q = page_count ?p" by blast
  define a where "a = mmap_phys_to_io (page_addr ?p i)"
  define e where "e = pml_make_entry (mmap_io_to_phys a) flags"
  define T' where "T' = (?T(a := (\<lambda>_. 0)))(t := ((?T(a := (\<lambda>_. 0))) t)(idx := e))"
  have w: "x = Inr a" "vmm_tables w = T'" "vmm_pmm w = q"
    using run False h y by (auto simp: vmm_get_pml_or_alloc_def Let_def vmm_write_def T'_def a_def e_def)
  have ea: "pml_present e" "mmap_phys_to_io (PML_GET_ADDR e) = a"
    using page_addr_facts(2) [OF pinv i(1)]
    by (simp_all add: e_def PML_GET_ADDR_make a_def PML_GET_ADDR_aligned)
  have same_addr: "page_addr q = page_addr ?p" by (simp add: page_addr_def fun_eq_iff q(3))
  have unowned: "\<not> table_owned ?p a"
    using i page_addr_inj [OF pinv _ i(1)] unfolding table_owned_def a_def
    by (metis mmap_io_to_phys_inverse(1))
  then have fresh: "vmm_table ?T r Q \<noteq> Some a" if "Q \<in> vmm_paths" for Q
    using vmm_inv_table(1) [OF inv that] by auto
  have tab: "vmm_table T' r Q = (if Q = P @ [idx] then Some a else vmm_table ?T r Q)"
    if "Q \<in> vmm_paths" for Q
    unfolding T'_def
    using vmm_table_link [OF vmm_inv_table(2) [OF inv PP t] t False fresh ea P that] by simp
  have owned: "table_owned q b" if "table_owned ?p b \<or> b = a" for b
    using that i(1) q same_addr by (auto simp: table_owned_def a_def)
  have winv: "vmm_inv w r"
    unfolding vmm_inv_def w(2,3)
  proof (intro conjI ballI allI impI)
    show "pmm_inv q" by (rule q(2))
  next
    fix Q b assume Q: "Q \<in> vmm_paths" "vmm_table T' r Q = Some b"
    then show "table_owned q b"
      using tab [OF Q(1)] vmm_inv_table(1) [OF inv Q(1)] by (intro owned) (auto split: if_splits)
    fix R assume R: "R \<in> vmm_paths" "vmm_table T' r R = Some b"
    show "Q = R"
    proof (cases "b = a")
      case True
      then have "Q = P @ [idx]" "R = P @ [idx]"
        using tab [OF Q(1)] tab [OF R(1)] Q R fresh by (metis (no_types))+
      then show ?thesis by simp
    next
      case False
      then have "Q \<noteq> P @ [idx]" "R \<noteq> P @ [idx]"
        using tab [OF Q(1)] tab [OF R(1)] Q(2) R(2) by auto
      then have "vmm_table ?T r Q = Some b" "vmm_table ?T r R = Some b"
        using tab [OF Q(1)] tab [OF R(1)] Q(2) R(2) by simp_all
      with vmm_inv_table(2) [OF inv R(1)] Q(1) show ?thesis by blast
    qed
  qed
  have entry: "vmm_entry w r va = vmm_entry v r va" for va
  proof (cases "vmm_path va = P @ [idx]")
    case True
    have "vmm_table ?T r (P @ [idx]) = None" using t False by (simp add: vmm_table_snoc)
    moreover have "T' a = (\<lambda>_. 0)" using fresh [OF PP] t by (auto simp: T'_def)
    ultimately show ?thesis
      using True tab [OF P] by (simp add: vmm_entry_def w pml_present_def)
  next
    case other: False
    note same = tab [OF vmm_path_paths, of va]
    show ?thesis
    proof (cases "vmm_table ?T r (vmm_path va)")
      case None
      with same other show ?thesis by (simp add: vmm_entry_def w)
    next
      case (Some b)
      have "b \<noteq> a" using fresh [OF vmm_path_paths] Some by auto
      moreover have "b \<noteq> t"
      proof
        assume "b = t"
        with Some have "vmm_path va = P" using vmm_inv_table(2) [OF inv PP t vmm_path_paths] by simp
        with P show False by (auto simp: vmm_paths_def dest: arg_cong [where f = length])
      qed
      ultimately have "T' b = ?T b" by (simp add: T'_def)
      with same other Some show ?thesis by (simp add: vmm_entry_def w)
    qed
  qed
  show ?thesis using w(1) winv tab [OF P] w(2) entry by simp
qed

text \<open>Writing a leaf entry changes nothing but the page it maps.\<close>

lemma vmm_table_leaf_write:
  assumes inj: "\<And>Q. Q \<in> vmm_paths \<Longrightarrow> vmm_table T r Q = Some t \<Longrightarrow> Q = P" and P: "length P = 3"
    and Q: "Q \<in> vmm_paths"
  shows "vmm_table (T(t := (T t)(idx := e))) r Q = vmm_table T r Q"
  using Q
proof (induction Q rule: rev_induct)
  case (snoc j Q)
  then have QQ: "Q \<in> vmm_paths" and l: "length Q < 3" by (auto simp: vmm_paths_def)
  have "b \<noteq> t" if "vmm_table T r Q = Some b" for b
    using inj [OF QQ] that P l by auto
  with snoc.IH [OF QQ] show ?case
    by (auto simp: vmm_table_snoc split: option.splits)
qed simp

lemma vmm_write_leaf:
  fixes e :: u64
  assumes inv: "vmm_inv v r" and t: "vmm_table (vmm_tables v) r (vmm_path va) = Some t"
  defines "w \<equiv> vmm_write t (PMLX_GET_INDEX va 0) e v"
  shows "vmm_inv w r \<and> vmm_entry w r va = (if pml_present e then Some e else None) \<and>
     (\<forall>vb. \<not> same_page vb va \<longrightarrow> vmm_entry w r vb = vmm_entry v r vb)"
proof -
  note inj = vmm_inv_table(2) [OF inv vmm_path_paths t]
  have T: "vmm_tables w = (vmm_tables v)(t := (vmm_tables v t)(PMLX_GET_INDEX va 0 := e))"
    by (simp add: w_def vmm_write_def)
  have tab: "vmm_table (vmm_tables w) r Q = vmm_table (vmm_tables v) r Q" if "Q \<in> vmm_paths" for Q
    unfolding T by (rule vmm_table_leaf_write [OF inj _ that]) simp_all
  have "vmm_inv w r" using inv tab by (simp add: vmm_inv_def w_def vmm_write_def)
  moreover have "vmm_entry w r va = (if pml_present e then Some e else None)"
    using tab [OF vmm_path_paths, of va] t T by (simp add: vmm_entry_def)
  moreover have "vmm_entry w r vb = vmm_entry v r vb" if "\<not> same_page vb va" for vb
  proof (cases "vmm_table (vmm_tables v) r (vmm_path vb) = Some t")
    case True
    then have "vmm_path vb = vmm_path va" by (intro inj vmm_path_paths)
    with that have "PMLX_GET_INDEX vb 0 \<noteq> PMLX_GET_INDEX va 0" by (simp add: same_page_def)
    with True tab [OF vmm_path_paths, of vb] T show ?thesis by (simp add: vmm_entry_def)
  next
    case False
    then show ?thesis
      using tab [OF vmm_path_paths, of vb] T by (auto simp: vmm_entry_def split: option.splits)
  qed
  ultimately show ?thesis by blast
qed

section \<open>Mapping, unmapping and translating pages\<close>

lemma vmm_map_page_spec:
  assumes inv: "vmm_inv v r" and run: "vmm_map_page r va pa flags v = Inr (x, w)"
  shows "x = Inr (mk_range va MEM_PAGE_SIZE) \<and> vmm_inv w r \<and> vmm_entry v r va = None \<and>
     vmm_entry w r va = Some (pml_make_entry pa flags) \<and>
     (\<forall>vb. \<not> same_page vb va \<longrightarrow> vmm_entry w r vb = vmm_entry v r vb)"
proof -
  have ix: "[PMLX_GET_INDEX va 3] \<in> vmm_paths" "[PMLX_GET_INDEX va 3, PMLX_GET_INDEX va 2] \<in> vmm_paths"
    using PMLX_GET_INDEX_less by (auto simp: vmm_paths_def)
  let ?f = "flags OR BR_MEM_WRITABLE OR BR_MEM_USER"
  obtain r3 v3 where g3: "vmm_get_pml_or_alloc r (PMLX_GET_INDEX va 3) (?f AND NOT BR_MEM_GLOBAL) v = Inr (r3, v3)"
    using run by (auto simp: vmm_map_page_def sbind_Inr_iff)
  from vmm_get_pml_or_alloc_spec [OF inv, of "[]" r, OF _ _ g3] ix obtain t3 where
    s3: "r3 = Inr t3" "vmm_inv v3 r" "vmm_table (vmm_tables v3) r [PMLX_GET_INDEX va 3] = Some t3"
      "\<And>vb. vmm_entry v3 r vb = vmm_entry v r vb" by auto
  obtain r2 v2 where g2: "vmm_get_pml_or_alloc t3 (PMLX_GET_INDEX va 2) ?f v3 = Inr (r2, v2)"
    using run g3 s3(1) by (auto simp: vmm_map_page_def sbind_Inr_iff)
  from vmm_get_pml_or_alloc_spec [OF s3(2,3) _ g2] ix obtain t2 where
    s2: "r2 = Inr t2" "vmm_inv v2 r"
      "vmm_table (vmm_tables v2) r [PMLX_GET_INDEX va 3, PMLX_GET_INDEX va 2] = Some t2"
      "\<And>vb. vmm_entry v2 r vb = vmm_entry v3 r vb" by auto
  obtain r1 v1 where g1: "vmm_get_pml_or_alloc t2 (PMLX_GET_INDEX va 1) ?f v2 = Inr (r1, v1)"
    using run g3 s3(1) g2 s2(1) by (auto simp: vmm_map_page_def sbind_Inr_iff)
  from vmm_get_pml_or_alloc_spec [OF s2(2,3) _ g1] vmm_path_paths [of va] obtain t1 where
    s1: "r1 = Inr t1" "vmm_inv v1 r" "vmm_table (vmm_tables v1) r (vmm_path va) = Some t1"
      "\<And>vb. vmm_entry v1 r vb = vmm_entry v2 r vb" by (auto simp: vmm_path_def)
  have absent: "\<not> pml_present (vmm_tables v1 t1 (PMLX_GET_INDEX va 0))"
    and x: "x = Inr (mk_range va MEM_PAGE_SIZE)"
    and w: "w = vmm_write t1 (PMLX_GET_INDEX va 0) (pml_make_entry pa flags) v1"
    using run g3 s3(1) g2 s2(1) g1 s1(1) by (auto simp: vmm_map_page_def split: if_splits)
  have "vmm_entry v1 r va = None" using s1(3) absent by (simp add: vmm_entry_def)
  then show ?thesis
    using vmm_write_leaf [OF s1(2,3), of "pml_make_entry pa flags"] x w s1(4) s2(4) s3(4) by simp
qed

lemma vmm_unmap_page_spec:
  assumes inv: "vmm_inv v r" and run: "vmm_unmap_page r va v = Inr (x, w)"
  shows "vmm_inv w r \<and> vmm_entry w r va = None \<and>
     (\<forall>vb. \<not> same_page vb va \<longrightarrow> vmm_entry w r vb = vmm_entry v r vb)"
proof (cases "vmm_table (vmm_tables v) r (vmm_path va)")
  case None
  with run inv show ?thesis by (auto simp: vmm_unmap_page_def vmm_leaf_table_alt vmm_entry_def)
next
  case (Some t)
  with run have "w = vmm_write t (PMLX_GET_INDEX va 0) pml_clean_entry v"
    by (auto simp: vmm_unmap_page_def vmm_leaf_table_alt Let_def sbind_Inr_iff)
  with vmm_write_leaf [OF inv Some, of pml_clean_entry] show ?thesis
    by (simp add: pml_clean_entry_def pml_present_def)
qed

lemma vmm_virt2phys_entry:
  assumes "vmm_entry v r va = Some e"
  shows "vmm_virt2phys r (mk_range va sz) v = Inr (mk_range (PML_GET_ADDR e) sz)"
  using assms by (auto simp: vmm_entry_def vmm_virt2phys_def vmm_leaf_table_alt Let_def split: option.splits if_splits)

lemma same_page_entry: "same_page a b \<Longrightarrow> vmm_entry v r a = vmm_entry v r b"
  by (auto simp: vmm_entry_def same_page_def split: option.split)

lemma vmm_map_loop:
  assumes inv: "vmm_inv v r"
    and run: "for_each (\<lambda>i v. sbind (vmm_map_page r (of_nat i * MEM_PAGE_SIZE + vb)
        (of_nat i * MEM_PAGE_SIZE + pb) flags v) (\<lambda>(_, v). Inr v)) [0..<n] v = Inr w"
  shows "vmm_inv w r \<and>
     (\<forall>i < n. vmm_entry w r (of_nat i * MEM_PAGE_SIZE + vb) =
        Some (pml_make_entry (of_nat i * MEM_PAGE_SIZE + pb) flags)) \<and>
     (\<forall>a. (\<forall>i < n. \<not> same_page a (of_nat i * MEM_PAGE_SIZE + vb)) \<longrightarrow> vmm_entry w r a = vmm_entry v r a)"
  using run
proof (induction n arbitrary: w)
  case 0
  with inv show ?case by simp
next
  case (Suc n)
  let ?va = "\<lambda>i. of_nat i * MEM_PAGE_SIZE + vb" and ?pa = "\<lambda>i. of_nat i * MEM_PAGE_SIZE + pb"
  from Suc.prems obtain u x where u: "for_each (\<lambda>i v. sbind (vmm_map_page r (?va i) (?pa i) flags v)
      (\<lambda>(_, v). Inr v)) [0..<n] v = Inr u" and page: "vmm_map_page r (?va n) (?pa n) flags u = Inr (x, w)"
    by (auto simp: for_each_append sbind_Inr_iff split: prod.splits)
  note IH = Suc.IH [OF u]
  note step = vmm_map_page_spec [OF conjunct1 [OF IH] page]
  have "\<not> same_page (?va i) (?va n)" if "i < n" for i
    using IH step that same_page_entry [of "?va i" "?va n" u r] by auto
  with IH step show ?case by (auto simp: less_Suc_eq)
qed

text \<open>
  Mapping a range: afterwards every page of it translates to the corresponding physical page with
  the requested flags, and every other page of the space translates as before.
\<close>

lemma vmm_map_spec:
  assumes inv: "vmm_inv v r" and run: "vmm_map r vr pr flags v = Inr (x, w)"
  shows "x = Inr vr \<and> rsize vr = rsize pr \<and> vmm_inv w r \<and>
     (\<forall>i < unat (rsize vr) div 4096. vmm_entry w r (of_nat i * MEM_PAGE_SIZE + rbase vr) =
        Some (pml_make_entry (of_nat i * MEM_PAGE_SIZE + rbase pr) flags)) \<and>
     (\<forall>a. (\<forall>i < unat (rsize vr) div 4096. \<not> same_page a (of_nat i * MEM_PAGE_SIZE + rbase vr)) \<longrightarrow>
        vmm_entry w r a = vmm_entry v r a)"
proof -
  from run obtain u where "rsize vr = rsize pr" "x = Inr vr" and
    loop: "for_each (\<lambda>i v. sbind (vmm_map_page r (of_nat i * MEM_PAGE_SIZE + rbase vr)
        (of_nat i * MEM_PAGE_SIZE + rbase pr) flags v) (\<lambda>(_, v). Inr v))
        [0..<unat (rsize vr div MEM_PAGE_SIZE)] v = Inr u" and "u = w"
    unfolding vmm_map_def by (auto simp: sbind_Inr_iff split: if_splits)
  with vmm_map_loop [OF inv loop] show ?thesis by (simp only: unat_div_page) simp
qed

lemma vmm_unmap_loop:
  assumes inv: "vmm_inv v r"
    and run: "for_each (\<lambda>i v. sbind (vmm_unmap_page r (of_nat i * MEM_PAGE_SIZE + vb) v) (\<lambda>(_, v). Inr v))
        [0..<n] v = Inr w"
  shows "vmm_inv w r \<and> (\<forall>i < n. vmm_entry w r (of_nat i * MEM_PAGE_SIZE + vb) = None) \<and>
     (\<forall>a. (\<forall>i < n. \<not> same_page a (of_nat i * MEM_PAGE_SIZE + vb)) \<longrightarrow> vmm_entry w r a = vmm_entry v r a)"
  using run
proof (induction n arbitrary: w)
  case 0
  with inv show ?case by simp
next
  case (Suc n)
  let ?va = "\<lambda>i. of_nat i * MEM_PAGE_SIZE + vb"
  from Suc.prems obtain u x where u: "for_each (\<lambda>i v. sbind (vmm_unmap_page r (?va i) v)
      (\<lambda>(_, v). Inr v)) [0..<n] v = Inr u" and page: "vmm_unmap_page r (?va n) u = Inr (x, w)"
    by (auto simp: for_each_append sbind_Inr_iff split: prod.splits)
  note IH = Suc.IH [OF u]
  note step = vmm_unmap_page_spec [OF conjunct1 [OF IH] page]
  have "vmm_entry w r (?va i) = None" if "i < n" for i
    using IH step that same_page_entry [of "?va i" "?va n" w r]
    by (cases "same_page (?va i) (?va n)") auto
  with IH step show ?case by (auto simp: less_Suc_eq)
qed

lemma align_down_page: "4096 dvd unat a \<Longrightarrow> align_down a MEM_PAGE_SIZE = a"
proof -
  assume "4096 dvd unat a"
  then have "push_bit 12 (drop_bit 12 a) = a" using PML_GET_ADDR_aligned by (simp add: PML_GET_ADDR_def)
  moreover have "a AND NOT (mask 12) = push_bit 12 (drop_bit 12 a)"
    by (rule bit_eqI) (auto simp: bit_and_iff bit_not_iff bit_mask_iff bit_push_bit_iff bit_drop_bit_eq)
  moreover have "MEM_PAGE_SIZE - 1 = mask 12" by (simp add: MEM_PAGE_SIZE_def mask_eq_exp_minus_1)
  ultimately show ?thesis by (simp only: align_down_def)
qed

lemma vmm_unmap_spec:
  assumes inv: "vmm_inv v r" and run: "vmm_unmap r vr v = Inr (x, w)"
  shows "x = Inr vr \<and> vmm_inv w r \<and>
     (\<forall>i < unat (rsize vr) div 4096. vmm_entry w r (of_nat i * MEM_PAGE_SIZE + rbase vr) = None) \<and>
     (\<forall>a. (\<forall>i < unat (rsize vr) div 4096. \<not> same_page a (of_nat i * MEM_PAGE_SIZE + rbase vr)) \<longrightarrow>
        vmm_entry w r a = vmm_entry v r a)"
proof -
  from run have al: "mem_is_range_page_aligned vr" by (auto simp: vmm_unmap_def sbind_Inr_iff assert_truth_Inr)
  then have ad: "align_down (rbase vr) MEM_PAGE_SIZE = rbase vr"
    by (intro align_down_page) (simp add: mem_is_range_page_aligned_def page_aligned_nat)
  from run have "x = Inr vr" and
    loop: "for_each (\<lambda>i v. sbind (vmm_unmap_page r (of_nat i * MEM_PAGE_SIZE + rbase vr) v) (\<lambda>(_, v). Inr v))
        [0..<unat (rsize vr div MEM_PAGE_SIZE)] v = Inr w"
    unfolding vmm_unmap_def ad by (auto simp: sbind_Inr_iff)
  with vmm_unmap_loop [OF inv loop] show ?thesis by (simp only: unat_div_page) simp
qed

section \<open>Properties\<close>

text \<open>
  C13. Mapping a range into a space makes every page of it translate to the corresponding page of the
  physical range with the requested flags, leaves every other page of the space as it was, and
  keeps the page tables a tree of pages owned by the kernel.
\<close>

theorem vmm_map_translates:
  assumes "vmm_inv v r" and "vmm_map r vr pr flags v = Inr (x, w)"
  shows "x = Inr vr \<and> vmm_inv w r \<and>
     (\<forall>i < unat (rsize vr) div 4096.
        vmm_entry w r (of_nat i * MEM_PAGE_SIZE + rbase vr) =
          Some (pml_make_entry (of_nat i * MEM_PAGE_SIZE + rbase pr) flags) \<and>
        vmm_virt2phys r (mk_range (of_nat i * MEM_PAGE_SIZE + rbase vr) MEM_PAGE_SIZE) w =
          Inr (mk_range (PML_GET_ADDR (of_nat i * MEM_PAGE_SIZE + rbase pr)) MEM_PAGE_SIZE)) \<and>
     (\<forall>a. (\<forall>i < unat (rsize vr) div 4096. \<not> same_page a (of_nat i * MEM_PAGE_SIZE + rbase vr)) \<longrightarrow>
        vmm_entry w r a = vmm_entry v r a)"
  using vmm_map_spec [OF assms] by (auto simp: vmm_virt2phys_entry PML_GET_ADDR_make)

definition vmm_example :: vmm where
  "vmm_example = \<lparr>vmm_pmm = pmm_example, vmm_tables = (\<lambda>_ _. 0), vmm_kpml = 0xffff800000100000,
     vmm_cr3 = 0, vmm_invlpg = []\<rparr>"

lemma vmm_example_inv: "vmm_inv vmm_example 0xffff800000100000"
proof -
  have tab: "vmm_table (\<lambda>_ _. 0) r P = (if P = [] then Some r else None)" for r P
    by (cases P) (simp_all add: pml_present_def)
  have "page_used pmm_example 0"
    by (simp add: page_used_def pmm_example_def bit_used_def bits_init_def)
  then have "table_owned pmm_example 0xffff800000100000"
    by (auto simp: table_owned_def page_addr_def mmap_phys_to_io_def MMAP_IO_BASE_def pmm_example_def
      page_count_def bits_len_def bits_init_def intro!: exI [of _ 0])
  then show ?thesis
    using pmm_example_inv by (simp add: vmm_inv_def vmm_example_def tab)
qed

lemma vmm_example_map:
  "\<exists>w. vmm_map 0xffff800000100000 (mk_range 0x400000 0x1000) (mk_range 0x7000 0x1000) 8 vmm_example =
     Inr (Inr (mk_range 0x400000 0x1000), w)"
proof -
  have "map_sum id fst (vmm_map 0xffff800000100000 (mk_range 0x400000 0x1000) (mk_range 0x7000 0x1000) 8
      vmm_example) = Inr (Inr (mk_range 0x400000 0x1000))" by code_simp
  then show ?thesis
    by (cases "vmm_map 0xffff800000100000 (mk_range 0x400000 0x1000) (mk_range 0x7000 0x1000) 8 vmm_example") auto
qed

theorem vmm_map_translates_witness:
  "\<exists>w. vmm_map 0xffff800000100000 (mk_range 0x400000 0x1000) (mk_range 0x7000 0x1000) 8 vmm_example =
       Inr (Inr (mk_range 0x400000 0x1000), w) \<and>
     vmm_entry w 0xffff800000100000 0x400000 = Some (pml_make_entry 0x7000 8)"
proof -
  obtain w where w: "vmm_map 0xffff800000100000 (mk_range 0x400000 0x1000) (mk_range 0x7000 0x1000) 8
      vmm_example = Inr (Inr (mk_range 0x400000 0x1000), w)" using vmm_example_map by blast
  with vmm_map_translates [OF vmm_example_inv w] show ?thesis by auto
qed

text \<open>
  C14. Unmapping a range makes every page of it unmapped, leaves every other page of the space as it
  was, and keeps the page tables a tree of pages owned by the kernel.
\<close>

theorem vmm_unmap_removes:
  assumes "vmm_inv v r" and "vmm_unmap r vr v = Inr (x, w)"
  shows "x = Inr vr \<and> vmm_inv w r \<and>
     (\<forall>i < unat (rsize vr) div 4096. vmm_entry w r (of_nat i * MEM_PAGE_SIZE + rbase vr) = None) \<and>
     (\<forall>a. (\<forall>i < unat (rsize vr) div 4096. \<not> same_page a (of_nat i * MEM_PAGE_SIZE + rbase vr)) \<longrightarrow>
        vmm_entry w r a = vmm_entry v r a)"
  using vmm_unmap_spec [OF assms] .

theorem vmm_unmap_removes_witness:
  "\<exists>w. vmm_unmap 0xffff800000100000 (mk_range 0x400000 0x1000) vmm_example =
     Inr (Inr (mk_range 0x400000 0x1000), w) \<and> vmm_entry w 0xffff800000100000 0x400000 = None"
proof -
  have "map_sum id fst (vmm_unmap 0xffff800000100000 (mk_range 0x400000 0x1000) vmm_example) =
      Inr (Inr (mk_range 0x400000 0x1000))" by code_simp
  then obtain w where w: "vmm_unmap 0xffff800000100000 (mk_range 0x400000 0x1000) vmm_example =
      Inr (Inr (mk_range 0x400000 0x1000), w)"
    by (cases "vmm_unmap 0xffff800000100000 (mk_range 0x400000 0x1000) vmm_example") auto
  with vmm_unmap_removes [OF vmm_example_inv w] show ?thesis by auto
qed

end
