(* ===== verification/Kstate.thy ===== *)
theory Kstate
  imports Ring Slot Range_Alloc Vmm
begin

text \<open>
  The state of the kernel: its objects (\<open>kernel/object.h\<close>, \<open>memory.h\<close>, \<open>domain.h\<close>, \<open>space.h\<close>,
  \<open>task.h\<close>), the channels (\<open>channel.h\<close>, \<open>parcel.h\<close>), the event bindings (\<open>event.h\<close>), the
  processors (\<open>cpu.h\<close>) and the file-level variables of the components.

  An object or a channel that the C code reaches through a pointer lives in a store, a partial
  function from addresses; an address is a natural number, is handed out once by \<open>alloc_make\<close> and
  is never reused, so that an access through a pointer to a freed object is the fault
  \<open>UseAfterFree\<close>. A pointer that may be null is an option. The \<open>type\<close> field of an object and the
  structure a pointer to it is cast to are one datatype here: using an object as a structure it
  is not is the fault \<open>TypeConfusion\<close>. The vectors of the kernel (\<open>_global\<close>, \<open>_tasks\<close>,
  \<open>_bindings\<close>, the mappings of a space) are lists, which theory Vec justifies; their allocation
  never fails. Locks serialise the operations and are the subject of theory Sync; \<open>k_locked\<close>
  says which channels have their lock held by another processor, which is all that an attempt to
  take a lock without waiting depends on.
\<close>

type_synonym ptr = nat

section \<open>Kernel objects\<close>

datatype memory_type = MEMORY_PMM | MEMORY_HEAP | MEMORY_DMA

record memory =
  memory_type :: memory_type
  memory_area :: usize_range

record mmapping =
  mm_range :: usize_range
  mm_object :: ptr
  mm_offset :: u64

record space =
  space_flags :: u64
  space_vmm :: u64
  space_mmaps :: "mmapping list"
  space_alloc :: range_alloc

text \<open>
  The context of a blocker is a \<open>ChannelOp\<close> on the stack of the blocked task. It is part of the
  blocker here, with the message it points to.
\<close>

record channel_op =
  op_channel :: ptr
  op_domain :: "ptr option"
  op_msg :: br_msg
  op_result :: br_result

datatype blocker_fn = ChannelWaitSend | ChannelWaitRecv

record blocker =
  blk_function :: "blocker_fn option"
  blk_context :: "channel_op option"
  blk_deadline :: u64
  blk_result :: br_result

record regs =
  reg_r15 :: u64
  reg_r14 :: u64
  reg_r13 :: u64
  reg_r12 :: u64
  reg_r11 :: u64
  reg_r10 :: u64
  reg_r9 :: u64
  reg_r8 :: u64
  reg_rbp :: u64
  reg_rdi :: u64
  reg_rsi :: u64
  reg_rdx :: u64
  reg_rcx :: u64
  reg_rbx :: u64
  reg_rax :: u64
  reg_int_no :: u64
  reg_error_code :: u64
  reg_rip :: u64
  reg_cs :: u64
  reg_rflags :: u64
  reg_rsp :: u64
  reg_ss :: u64

text \<open>
  The saved state of the vector unit is the initial image or what the processor saved.
\<close>

datatype simd_image = SimdInitial | SimdSaved "u8 list"

record kcontext =
  syscall_kernel_stack :: u64
  syscall_user_stack :: u64
  ctx_regs :: regs
  ctx_simd :: simd_image

record task =
  task_flags :: u64
  task_blocker :: blocker
  in_syscall :: bool
  stopped :: bool
  blocked :: bool
  started :: bool
  time_start :: u64
  time_end :: u64
  task_rights :: u32
  task_context :: kcontext
  task_space :: ptr
  task_domain :: ptr
  task_channel :: ptr
  task_sp :: u64
  task_stack :: usize_range
  task_result :: u64

datatype kbody =
    KMemory memory
  | KDomain "ptr option slot_impl"
  | KSpace space
  | KTask task

fun body_type :: "kbody \<Rightarrow> br_type" where
  "body_type (KMemory _) = BR_OBJECT_MEMORY"
| "body_type (KDomain _) = BR_OBJECT_DOMAIN"
| "body_type (KSpace _) = BR_OBJECT_SPACE"
| "body_type (KTask _) = BR_OBJECT_TASK"

section \<open>Reference counts\<close>

text \<open>
  The count of \<open>ref.h\<close> is an \<open>atomic_int\<close>: one more than its largest value is its least. The
  operations return the new count with their result.
\<close>

datatype refcount_result = REFCOUNT_REF | REFCOUNT_DEREF | REFCOUNT_0

definition refcount_init :: int where
  "refcount_init = 1"

definition refs_inc :: "int \<Rightarrow> int" where
  "refs_inc n = (if n = INT_MAX then INT_MIN else n + 1)"

definition refs_dec :: "int \<Rightarrow> int" where
  "refs_dec n = (if n = INT_MIN then INT_MAX else n - 1)"

definition refcount_ref :: "int \<Rightarrow> refcount_result \<times> int" where
  "refcount_ref refs = (REFCOUNT_REF, refs_inc refs)"

definition refcount_deref :: "int \<Rightarrow> refcount_result \<times> int" where
  "refcount_deref refs = (if refs = 1 then REFCOUNT_0 else REFCOUNT_DEREF, refs_dec refs)"

lemmas refcount_defs = refcount_ref_def refcount_deref_def refs_inc_def refs_dec_def INT_MAX_def INT_MIN_def

lemma refs_inc_small: "n < INT_MAX \<Longrightarrow> refs_inc n = n + 1"
  by (simp add: refs_inc_def)

lemma refs_inc_not_1: "0 < n \<Longrightarrow> refs_inc n \<noteq> 1"
  by (simp add: refs_inc_def INT_MIN_def)

lemma refs_dec_pos [simp]: "0 < n \<Longrightarrow> refs_dec n = n - 1"
  by (simp add: refs_dec_def INT_MIN_def)

lemma refs_dec_inc: "0 < n \<Longrightarrow> refs_dec (refs_inc n) = n"
  by (simp add: refs_dec_def refs_inc_def INT_MIN_def)

section \<open>Objects\<close>

record kobj =
  o_id :: u64
  o_refs :: int
  o_body :: kbody

definition o_type :: "kobj \<Rightarrow> br_type" where
  "o_type ob = body_type (o_body ob)"

section \<open>Channels, events and processors\<close>

record parcel =
  parcel_msg :: br_msg
  parcel_objs :: "ptr option list"

type_synonym channel = "parcel ring_impl"

record event_binding =
  bind_task :: ptr
  bind_event :: br_event
  bind_ack :: bool

record cpu =
  cpu_idle :: "ptr option"
  cpu_current :: "ptr option"
  cpu_next :: "ptr option"

section \<open>The kernel state\<close>

record kst =
  k_next :: ptr
  k_id :: u64
  k_init :: bool
  k_global :: "ptr list"
  k_objs :: "ptr \<Rightarrow> kobj option"
  k_chans :: "ptr \<Rightarrow> channel option"
  k_locked :: "ptr \<Rightarrow> bool"
  k_bindings :: "event_binding list"
  k_tasks :: "ptr list"
  k_tick :: u64
  k_cpus :: "cpu list"
  k_self :: nat
  k_ipis :: "nat list"
  k_vmm :: vmm
  k_log :: "u8 list list"

subsection \<open>Store access\<close>

definition kget :: "ptr \<Rightarrow> kst \<Rightarrow> fault + kobj" where
  "kget p s = (case k_objs s p of None \<Rightarrow> Inl UseAfterFree | Some ob \<Rightarrow> Inr ob)"

definition kput :: "ptr \<Rightarrow> kobj \<Rightarrow> kst \<Rightarrow> kst" where
  "kput p ob s = s\<lparr>k_objs := (k_objs s)(p \<mapsto> ob)\<rparr>"

definition kbody :: "ptr \<Rightarrow> kbody \<Rightarrow> kst \<Rightarrow> fault + kst" where
  "kbody p b s = sbind (kget p s) (\<lambda>ob. Inr (kput p (ob\<lparr>o_body := b\<rparr>) s))"

definition kfree :: "ptr \<Rightarrow> kst \<Rightarrow> kst" where
  "kfree p s = s\<lparr>k_objs := (k_objs s)(p := None)\<rparr>"

definition get_memory :: "ptr \<Rightarrow> kst \<Rightarrow> fault + memory" where
  "get_memory p s = sbind (kget p s) (\<lambda>ob. case o_body ob of KMemory m \<Rightarrow> Inr m | _ \<Rightarrow> Inl TypeConfusion)"

definition get_domain :: "ptr \<Rightarrow> kst \<Rightarrow> fault + ptr option slot_impl" where
  "get_domain p s = sbind (kget p s) (\<lambda>ob. case o_body ob of KDomain d \<Rightarrow> Inr d | _ \<Rightarrow> Inl TypeConfusion)"

definition get_space :: "ptr \<Rightarrow> kst \<Rightarrow> fault + space" where
  "get_space p s = sbind (kget p s) (\<lambda>ob. case o_body ob of KSpace sp \<Rightarrow> Inr sp | _ \<Rightarrow> Inl TypeConfusion)"

definition get_task :: "ptr \<Rightarrow> kst \<Rightarrow> fault + task" where
  "get_task p s = sbind (kget p s) (\<lambda>ob. case o_body ob of KTask t \<Rightarrow> Inr t | _ \<Rightarrow> Inl TypeConfusion)"

definition get_channel :: "ptr \<Rightarrow> kst \<Rightarrow> fault + channel" where
  "get_channel c s = (case k_chans s c of None \<Rightarrow> Inl UseAfterFree | Some r \<Rightarrow> Inr r)"

definition put_channel :: "ptr \<Rightarrow> channel \<Rightarrow> kst \<Rightarrow> kst" where
  "put_channel c r s = s\<lparr>k_chans := (k_chans s)(c \<mapsto> r)\<rparr>"

definition map_task :: "ptr \<Rightarrow> (task \<Rightarrow> task) \<Rightarrow> kst \<Rightarrow> fault + kst" where
  "map_task p f s = sbind (get_task p s) (\<lambda>t. kbody p (KTask (f t)) s)"

text \<open>A null pointer that is followed.\<close>

definition deref_ptr :: "ptr option \<Rightarrow> fault + ptr" where
  "deref_ptr po = (case po of None \<Rightarrow> Inl NullDeref | Some p \<Rightarrow> Inr p)"

subsection \<open>Memory managers inside the kernel state\<close>

definition on_vmm :: "(vmm \<Rightarrow> fault + ('a \<times> vmm)) \<Rightarrow> kst \<Rightarrow> fault + ('a \<times> kst)" where
  "on_vmm f s = sbind (f (k_vmm s)) (\<lambda>(x, v). Inr (x, s\<lparr>k_vmm := v\<rparr>))"

definition on_pmm :: "(pmm \<Rightarrow> fault + ('a \<times> pmm)) \<Rightarrow> kst \<Rightarrow> fault + ('a \<times> kst)" where
  "on_pmm f s = sbind (f (vmm_pmm (k_vmm s))) (\<lambda>(x, p). Inr (x, s\<lparr>k_vmm := (k_vmm s)\<lparr>vmm_pmm := p\<rparr>\<rparr>))"

definition unwrap :: "'a br_value \<Rightarrow> fault + 'a" where
  "unwrap r = (case r of Inl _ \<Rightarrow> Inl (Panic ''UNWRAP'') | Inr x \<Rightarrow> Inr x)"

section \<open>The running task\<close>

definition cpu_self :: "kst \<Rightarrow> fault + cpu" where
  "cpu_self s = (if k_self s < length (k_cpus s) then Inr (k_cpus s ! k_self s) else Inl WildPointer)"

definition task_self :: "kst \<Rightarrow> fault + ptr" where
  "task_self s = sbind (cpu_self s) (\<lambda>c. deref_ptr (cpu_current c))"

end
