(* ===== verification/Objects.thy ===== *)
theory Objects
  imports Kstate
begin

text \<open>
  Reference counting and the kernel objects: \<open>kernel/object.c\<close>, \<open>domain.c\<close>, \<open>memory.c\<close>,
  \<open>space.c\<close>, the creation and destruction of tasks (\<open>task.c\<close>) and channels (\<open>channel.c\<close>), and
  \<open>event_unbind_all\<close> of \<open>event.c\<close>, which the destructor of a task calls.

  \<open>object_deref\<close> calls the destructor of an object, which calls \<open>object_deref\<close> again. The
  destructors take the function to release references with as an argument, and \<open>object_deref\<close>
  closes the recursion with fuel: its depth is bounded by the number of objects, and
  \<open>kobject_deref\<close> starts with more fuel than there are addresses in use. A structure enters the
  store when it is complete: before \<open>object_init\<close> no other code can reach it.
\<close>

section \<open>object.c\<close>

definition alloc_make :: "kbody \<Rightarrow> kst \<Rightarrow> ptr \<times> kst" where
  "alloc_make b s =
     (k_next s, s\<lparr>k_next := k_next s + 1,
                  k_objs := (k_objs s)(k_next s \<mapsto> \<lparr>o_id = 0, o_refs = 0, o_body = b\<rparr>)\<rparr>)"

definition object_init :: "ptr \<Rightarrow> kst \<Rightarrow> fault + kst" where
  "object_init p s =
     sbind (kget p s) (\<lambda>ob.
     let s1 = kput p (ob\<lparr>o_refs := refcount_init, o_id := k_id s\<rparr>) s in
     Inr (s1\<lparr>k_id := k_id s + 1, k_init := True,
             k_global := (if k_init s then k_global s else []) @ [p]\<rparr>))"

definition object_ref :: "ptr \<Rightarrow> kst \<Rightarrow> fault + kst" where
  "object_ref p s = sbind (kget p s) (\<lambda>ob. Inr (kput p (ob\<lparr>o_refs := snd (refcount_ref (o_refs ob))\<rparr>) s))"

fun global_find :: "u64 \<Rightarrow> br_type \<Rightarrow> ptr list \<Rightarrow> kst \<Rightarrow> fault + (ptr option \<times> kst)" where
  "global_find oid ty [] s = Inr (None, s)"
| "global_find oid ty (p # ps) s =
     sbind (kget p s) (\<lambda>ob.
     if o_id ob = oid \<and> (o_type ob = ty \<or> ty = BR_OBJECT_ANY)
     then sbind (object_ref p s) (\<lambda>s1. Inr (Some p, s1))
     else global_find oid ty ps s)"

definition global_lookup :: "u64 \<Rightarrow> br_type \<Rightarrow> kst \<Rightarrow> fault + (ptr option \<times> kst)" where
  "global_lookup oid ty s = (if \<not> k_init s then Inr (None, s) else global_find oid ty (k_global s) s)"

section \<open>Destructors\<close>

definition memory_destroy :: "ptr \<Rightarrow> kst \<Rightarrow> fault + kst" where
  "memory_destroy self s =
     sbind (get_memory self s) (\<lambda>m.
     sbind (case memory_type m of
              MEMORY_HEAP \<Rightarrow> sbind (on_pmm (\<lambda>p. heap_free p (memory_area m)) s) (\<lambda>(_, s). Inr s)
            | MEMORY_PMM \<Rightarrow> sbind (on_pmm (\<lambda>p. pmm_unused p (memory_area m)) s) (\<lambda>(_, s). Inr s)
            | MEMORY_DMA \<Rightarrow> Inr s) (\<lambda>s.
     Inr (kfree self s)))"

definition domain_destroy_slot :: "(ptr option \<Rightarrow> kst \<Rightarrow> fault + kst) \<Rightarrow> ptr \<Rightarrow> nat \<Rightarrow> kst \<Rightarrow> fault + kst" where
  "domain_destroy_slot deref self i s =
     sbind (get_domain self s) (\<lambda>d.
     if slot_valid_impl d (int i)
     then sbind (slot_at d i) (\<lambda>po.
          sbind (deref po s) (\<lambda>s.
          sbind (get_domain self s) (\<lambda>d.
          sbind (slot_release_impl d (int i)) (\<lambda>d.
          kbody self (KDomain d) s))))
     else Inr s)"

definition domain_destroy :: "(ptr option \<Rightarrow> kst \<Rightarrow> fault + kst) \<Rightarrow> ptr \<Rightarrow> kst \<Rightarrow> fault + kst" where
  "domain_destroy deref self s =
     sbind (get_domain self s) (\<lambda>d.
     sbind (for_each (domain_destroy_slot deref self) [0..<slot_count d] s) (\<lambda>s.
     Inr (kfree self s)))"

definition space_mmap_destroy :: "(ptr option \<Rightarrow> kst \<Rightarrow> fault + kst) \<Rightarrow> ptr \<Rightarrow> nat \<Rightarrow> kst \<Rightarrow> fault + kst" where
  "space_mmap_destroy deref self index s =
     sbind (get_space self s) (\<lambda>sp.
     if length (space_mmaps sp) \<le> index then Inl WildPointer
     else
       let mapping = space_mmaps sp ! index in
       sbind (on_vmm (vmm_unmap (space_vmm sp) (mm_range mapping)) s) (\<lambda>(_, s).
       sbind (deref (Some (mm_object mapping)) s) (\<lambda>s.
       sbind (get_space self s) (\<lambda>sp.
       sbind (kbody self (KSpace (sp\<lparr>space_mmaps := list_splice index 1 (space_mmaps sp)\<rparr>)) s) (\<lambda>s.
       Inr (s\<lparr>k_vmm := snd (vmm_flush (space_vmm sp) (mm_range mapping) (k_vmm s))\<rparr>))))))"

text \<open>
  The loop of \<open>space_destroy\<close> advances its index and removes the entry it was at, so the entry that
  moves into its place is passed over. The fuel is the number of turns; the length at the start
  is enough, since every turn shortens the vector.
\<close>

fun space_destroy_loop :: "(ptr option \<Rightarrow> kst \<Rightarrow> fault + kst) \<Rightarrow> nat \<Rightarrow> ptr \<Rightarrow> nat \<Rightarrow> kst \<Rightarrow> fault + kst" where
  "space_destroy_loop deref 0 self i s = Inl TooDeep"
| "space_destroy_loop deref (Suc turns) self i s =
     sbind (get_space self s) (\<lambda>sp.
     if i < length (space_mmaps sp)
     then sbind (space_mmap_destroy deref self i s) (space_destroy_loop deref turns self (i + 1))
     else Inr s)"

definition space_destroy :: "(ptr option \<Rightarrow> kst \<Rightarrow> fault + kst) \<Rightarrow> ptr \<Rightarrow> kst \<Rightarrow> fault + kst" where
  "space_destroy deref self s =
     sbind (get_space self s) (\<lambda>sp.
     sbind (space_destroy_loop deref (length (space_mmaps sp) + 1) self 0 s) (\<lambda>s.
     sbind (vmm_space_destroy (space_vmm sp) (k_vmm s)) (\<lambda>v.
     Inr (kfree self (s\<lparr>k_vmm := v\<rparr>)))))"

text \<open>The loop of \<open>event_unbind_all\<close> has the same shape.\<close>

function event_unbind_all_loop :: "ptr \<Rightarrow> event_binding list \<Rightarrow> nat \<Rightarrow> event_binding list" where
  "event_unbind_all_loop task bs i =
     (if i < length bs
      then event_unbind_all_loop task
             (if bind_task (bs ! i) = task then list_splice i 1 bs else bs) (i + 1)
      else bs)"
  by pat_completeness auto
termination
  by (relation "measure (\<lambda>(task, bs, i). length bs - i)") (auto simp: list_splice_def)

declare event_unbind_all_loop.simps [simp del]

definition event_unbind_all :: "ptr \<Rightarrow> kst \<Rightarrow> br_result \<times> kst" where
  "event_unbind_all task s =
     (BR_SUCCESS, s\<lparr>k_bindings := event_unbind_all_loop task (k_bindings s) 0\<rparr>)"

definition channel_destroy :: "ptr \<Rightarrow> kst \<Rightarrow> fault + kst" where
  "channel_destroy c s = sbind (get_channel c s) (\<lambda>_. Inr (s\<lparr>k_chans := (k_chans s)(c := None)\<rparr>))"

definition task_destroy :: "(ptr option \<Rightarrow> kst \<Rightarrow> fault + kst) \<Rightarrow> ptr \<Rightarrow> kst \<Rightarrow> fault + kst" where
  "task_destroy deref self s =
     sbind (get_task self s) (\<lambda>t.
     let s = snd (event_unbind_all self s) in
     sbind (deref (Some (task_space t)) s) (\<lambda>s.
     sbind (deref (Some (task_domain t)) s) (\<lambda>s.
     sbind (channel_destroy (task_channel t) s) (\<lambda>s.
     sbind (on_pmm (\<lambda>p. heap_free p (task_stack t)) s) (\<lambda>(_, s).
     Inr (kfree self s))))))"

definition object_dtor :: "(ptr option \<Rightarrow> kst \<Rightarrow> fault + kst) \<Rightarrow> ptr \<Rightarrow> kst \<Rightarrow> fault + kst" where
  "object_dtor deref p s =
     sbind (kget p s) (\<lambda>ob.
     case o_body ob of
       KMemory _ \<Rightarrow> memory_destroy p s
     | KDomain _ \<Rightarrow> domain_destroy deref p s
     | KSpace _ \<Rightarrow> space_destroy deref p s
     | KTask _ \<Rightarrow> task_destroy deref p s)"

primrec object_deref :: "nat \<Rightarrow> ptr option \<Rightarrow> kst \<Rightarrow> fault + kst" where
  "object_deref 0 self s = Inl TooDeep"
| "object_deref (Suc fuel) self s =
     (case self of None \<Rightarrow> Inr s
      | Some p \<Rightarrow>
          sbind (kget p s) (\<lambda>ob.
          let (result, refs) = refcount_deref (o_refs ob); s1 = kput p (ob\<lparr>o_refs := refs\<rparr>) s in
          if result = REFCOUNT_0
          then object_dtor (object_deref fuel) p (s1\<lparr>k_global := remove1 p (k_global s1)\<rparr>)
          else Inr s1))"

definition kobject_deref :: "ptr option \<Rightarrow> kst \<Rightarrow> fault + kst" where
  "kobject_deref self s = object_deref (k_next s + 1) self s"

section \<open>Creation\<close>

definition domain_create :: "kst \<Rightarrow> fault + (ptr \<times> kst)" where
  "domain_create s =
     (let (self, s) = alloc_make (KDomain slot_init_impl) s in
      sbind (object_init self s) (\<lambda>s. Inr (self, s)))"

definition memory_create :: "memory_type \<Rightarrow> usize_range \<Rightarrow> kst \<Rightarrow> fault + (ptr \<times> kst)" where
  "memory_create ty r s =
     (let (self, s) = alloc_make (KMemory \<lparr>memory_type = ty, memory_area = r\<rparr>) s in
      sbind (object_init self s) (\<lambda>s. Inr (self, s)))"

definition memory_heap :: "usize_range \<Rightarrow> kst \<Rightarrow> fault + (ptr \<times> kst)" where
  "memory_heap heap s = memory_create MEMORY_HEAP heap s"

definition memory_pmm :: "usize_range \<Rightarrow> kst \<Rightarrow> fault + (ptr \<times> kst)" where
  "memory_pmm pmm s = memory_create MEMORY_PMM pmm s"

definition memory_dma :: "usize_range \<Rightarrow> kst \<Rightarrow> fault + (ptr \<times> kst)" where
  "memory_dma pmm s = memory_create MEMORY_DMA pmm s"

definition memory_range :: "memory \<Rightarrow> usize_range" where
  "memory_range m = (if memory_type m = MEMORY_HEAP then heap_to_pmm (memory_area m) else memory_area m)"

definition memory_base :: "memory \<Rightarrow> u64" where
  "memory_base m = rbase (memory_range m)"

definition memory_size :: "memory \<Rightarrow> u64" where
  "memory_size m = rsize (memory_range m)"

definition space_create :: "u64 \<Rightarrow> kst \<Rightarrow> fault + (ptr \<times> kst)" where
  "space_create flags s =
     sbind (on_vmm vmm_space_create s) (\<lambda>(vmm, s).
     sbind (range_alloc_unused (range_alloc_init (\<lambda>_. True)) (mk_range 0x400000 0x800000000000)) (\<lambda>alloc.
     let (self, s) = alloc_make (KSpace \<lparr>space_flags = flags, space_vmm = vmm, space_mmaps = [],
                                          space_alloc = alloc\<rparr>) s in
     sbind (object_init self s) (\<lambda>s. Inr (self, s))))"

definition IPC_CHANNEL_SIZE :: nat where "IPC_CHANNEL_SIZE = 256"
definition KERNEL_STACK_SIZE :: u64 where "KERNEL_STACK_SIZE = 16384"
definition USER_STACK_BASE :: u64 where "USER_STACK_BASE = 0xc0000000"

definition zero_msg :: br_msg where
  "zero_msg = \<lparr>msg_flags = 0, msg_from = \<lparr>addr_id = 0, addr_port = 0\<rparr>, msg_to = \<lparr>addr_id = 0, addr_port = 0\<rparr>,
     msg_prot = 0, msg_type = 0, msg_seq = 0, msg_args = replicate 5 0\<rparr>"

definition zero_parcel :: parcel where
  "zero_parcel = \<lparr>parcel_msg = zero_msg, parcel_objs = replicate BR_MSG_ARG_COUNT None\<rparr>"

definition channel_create :: "kst \<Rightarrow> ptr \<times> kst" where
  "channel_create s =
     (k_next s, s\<lparr>k_next := k_next s + 1,
                  k_chans := (k_chans s)(k_next s \<mapsto> ring_init_impl IPC_CHANNEL_SIZE zero_parcel)\<rparr>)"

definition zero_regs :: regs where
  "zero_regs = \<lparr>reg_r15 = 0, reg_r14 = 0, reg_r13 = 0, reg_r12 = 0, reg_r11 = 0, reg_r10 = 0, reg_r9 = 0,
     reg_r8 = 0, reg_rbp = 0, reg_rdi = 0, reg_rsi = 0, reg_rdx = 0, reg_rcx = 0, reg_rbx = 0,
     reg_rax = 0, reg_int_no = 0, reg_error_code = 0, reg_rip = 0, reg_cs = 0, reg_rflags = 0,
     reg_rsp = 0, reg_ss = 0\<rparr>"

text \<open>The registers of a new context are whatever was in its memory; they are set before it is used.\<close>

definition context_create :: kcontext where
  "context_create = \<lparr>syscall_kernel_stack = 0, syscall_user_stack = 0, ctx_regs = zero_regs, ctx_simd = SimdInitial\<rparr>"

definition zero_blocker :: blocker where
  "zero_blocker = \<lparr>blk_function = None, blk_context = None, blk_deadline = 0, blk_result = BR_SUCCESS\<rparr>"

definition task_create :: "ptr \<Rightarrow> u32 \<Rightarrow> u64 \<Rightarrow> kst \<Rightarrow> fault + (ptr \<times> kst)" where
  "task_create space rights flags s =
     sbind (object_ref space s) (\<lambda>s.
     sbind (domain_create s) (\<lambda>(domain, s).
     let (channel, s) = channel_create s in
     sbind (on_pmm (\<lambda>p. heap_alloc p KERNEL_STACK_SIZE) s) (\<lambda>(res, s).
     sbind (unwrap res) (\<lambda>stack.
     let (self, s) = alloc_make (KTask \<lparr>task_flags = flags, task_blocker = zero_blocker, in_syscall = False,
           stopped = False, blocked = False, started = False, time_start = 0, time_end = 0,
           task_rights = rights, task_context = context_create, task_space = space, task_domain = domain,
           task_channel = channel, task_sp = range_end stack, task_stack = stack, task_result = 0\<rparr>) s in
     sbind (object_init self s) (\<lambda>s. Inr (self, s))))))"

section \<open>domain.c\<close>

text \<open>A handle passed where a \<open>SlotIndex\<close>, an \<open>int\<close>, is expected keeps its low 32 bits.\<close>

definition slot_index :: "u64 \<Rightarrow> int" where
  "slot_index handle = sint (ucast handle :: u32)"

definition domain_add :: "ptr \<Rightarrow> ptr \<Rightarrow> kst \<Rightarrow> fault + (u64 \<times> kst)" where
  "domain_add self object s =
     sbind (get_domain self s) (\<lambda>d.
     let (i, d) = slot_alloc_impl None d; handle = (word_of_int i :: u64) in
     sbind (kbody self (KDomain d) s) (\<lambda>s.
     sbind (object_ref object s) (\<lambda>s.
     sbind (get_domain self s) (\<lambda>d.
     sbind (slot_put d (unat handle) (Some object)) (\<lambda>d.
     sbind (kbody self (KDomain d) s) (\<lambda>s.
     Inr (handle, s)))))))"

definition domain_remove :: "ptr \<Rightarrow> u64 \<Rightarrow> kst \<Rightarrow> fault + (br_result \<times> kst)" where
  "domain_remove self handle s =
     sbind (get_domain self s) (\<lambda>d.
     if \<not> slot_valid_impl d (slot_index handle) then Inr (BR_BAD_HANDLE, s)
     else
       sbind (slot_at d (unat handle)) (\<lambda>po.
       sbind (kobject_deref po s) (\<lambda>s.
       sbind (get_domain self s) (\<lambda>d.
       sbind (slot_release_impl d (slot_index handle)) (\<lambda>d.
       sbind (kbody self (KDomain d) s) (\<lambda>s.
       Inr (BR_SUCCESS, s)))))))"

definition domain_lookup :: "ptr \<Rightarrow> u64 \<Rightarrow> br_type \<Rightarrow> kst \<Rightarrow> fault + (ptr option \<times> kst)" where
  "domain_lookup self handle ty s =
     sbind (get_domain self s) (\<lambda>d.
     if \<not> slot_valid_impl d (slot_index handle) then Inr (None, s)
     else
       sbind (slot_at d (unat handle)) (\<lambda>po.
       sbind (deref_ptr po) (\<lambda>object.
       sbind (kget object s) (\<lambda>ob.
       if o_type ob \<noteq> ty \<and> ty \<noteq> BR_OBJECT_ANY then Inr (None, s)
       else sbind (object_ref object s) (\<lambda>s. Inr (Some object, s))))))"

section \<open>space.c\<close>

definition space_mmap_create :: "ptr \<Rightarrow> ptr \<Rightarrow> u64 \<Rightarrow> usize_range \<Rightarrow> u64 \<Rightarrow> kst \<Rightarrow> fault + kst" where
  "space_mmap_create self object offset vmm flags s =
     sbind (object_ref object s) (\<lambda>s.
     sbind (get_space self s) (\<lambda>sp.
     let mapping = \<lparr>mm_range = vmm, mm_object = object, mm_offset = offset\<rparr> in
     sbind (kbody self (KSpace (sp\<lparr>space_mmaps := space_mmaps sp @ [mapping]\<rparr>)) s) (\<lambda>s.
     sbind (get_memory object s) (\<lambda>m.
     let pmm = mk_range (memory_base m + offset) (rsize vmm) in
     sbind (on_vmm (vmm_map (space_vmm sp) vmm pmm (BR_MEM_USER OR flags)) s) (\<lambda>(_, s).
     Inr (s\<lparr>k_vmm := snd (vmm_flush (space_vmm sp) vmm (k_vmm s))\<rparr>))))))"

definition space_map :: "ptr \<Rightarrow> ptr \<Rightarrow> u64 \<Rightarrow> u64 \<Rightarrow> u64 \<Rightarrow> u64 \<Rightarrow> kst \<Rightarrow> fault + (usize_range br_value \<times> kst)" where
  "space_map self memory offset sz vaddr flags s =
     sbind (get_memory memory s) (\<lambda>m.
     let sz = (if sz = 0 then memory_size m else sz) in
     if offset + sz > memory_size m then Inr (Inl BR_BAD_ARGUMENTS, s)
     else
       sbind (get_space self s) (\<lambda>sp.
       if vaddr = 0
       then sbind (range_alloc_alloc (space_alloc sp) sz) (\<lambda>(r, alloc).
            sbind (kbody self (KSpace (sp\<lparr>space_alloc := alloc\<rparr>)) s) (\<lambda>s.
            if rsize r = 0 then Inr (Inl BR_OUT_OF_MEMORY, s)
            else sbind (space_mmap_create self memory offset r flags s) (\<lambda>s. Inr (Inr r, s))))
       else
         let r = mk_range vaddr sz in
         sbind (range_alloc_used (space_alloc sp) r) (\<lambda>alloc.
         sbind (kbody self (KSpace (sp\<lparr>space_alloc := alloc\<rparr>)) s) (\<lambda>s.
         sbind (space_mmap_create self memory offset r flags s) (\<lambda>s. Inr (Inr r, s))))))"

fun mmap_find :: "mmapping list \<Rightarrow> usize_range \<Rightarrow> nat \<Rightarrow> nat option" where
  "mmap_find [] r i = None"
| "mmap_find (mapping # ms) r i = (if range_eq (mm_range mapping) r then Some i else mmap_find ms r (i + 1))"

definition space_unmap :: "ptr \<Rightarrow> usize_range \<Rightarrow> kst \<Rightarrow> fault + (usize_range br_value \<times> kst)" where
  "space_unmap self r s =
     sbind (get_space self s) (\<lambda>sp.
     case mmap_find (space_mmaps sp) r 0 of
       Some i \<Rightarrow> sbind (space_mmap_destroy kobject_deref self i s) (\<lambda>s. Inr (Inr r, s))
     | None \<Rightarrow> Inr (Inl BR_BAD_ADDRESS, s))"

definition space_switch :: "ptr \<Rightarrow> kst \<Rightarrow> fault + kst" where
  "space_switch self s = sbind (get_space self s) (\<lambda>sp. Inr (s\<lparr>k_vmm := vmm_space_switch (space_vmm sp) (k_vmm s)\<rparr>))"

end
