(* ===== verification/Mm_Safe.thy ===== *)
theory Mm_Safe
  imports Objects
begin

text \<open>
  The memory managers, the containers and the range allocator never fault through an invalid
  pointer: whatever their state, they return, panic, or leave their own arrays. The collection
  \<open>runs_intros\<close> gathers these facts for the proofs about the kernel objects.
\<close>

lemma runs_True_iff: "runs strict m (\<lambda>_. True) \<Longrightarrow> runs strict m P \<longleftrightarrow> (\<forall>x. m = Inr x \<longrightarrow> P x)"
  by (cases m) simp_all

lemma runs_for_each_True:
  "(\<And>i s. i \<in> set xs \<Longrightarrow> runs strict (f i s) (\<lambda>_. True)) \<Longrightarrow> runs strict (for_each f xs s) (\<lambda>_. True)"
  by (rule runs_for_each) auto

lemma runs_bits_get [runs_intros]: "runs strict (bits_get b i) (\<lambda>_. True)"
  by (simp add: bits_get_def Let_def)

lemma runs_bits_set [runs_intros]: "runs strict (bits_set i v b) (\<lambda>_. True)"
  by (simp add: bits_set_def Let_def)

lemma runs_bits_set_range [runs_intros]: "runs strict (bits_set_range b r v) (\<lambda>_. True)"
  unfolding bits_set_range_def bits_set_step_def
  by (auto intro!: runs_for_each_True runs_intros simp: runs_True_iff [OF runs_bits_get] runs_True_iff [OF runs_bits_set])

lemma runs_bits_find_loop [runs_intros]: "runs strict (bits_find_loop b sz up ks rs k) (\<lambda>_. True)"
  by (induction b sz up ks rs k rule: bits_find_loop.induct)
    (auto simp: runs_True_iff [OF runs_bits_get] Let_def split: if_splits)

lemma runs_bits_find_free [runs_intros]: "runs strict (bits_find_free b st sz up) (\<lambda>_. True)"
  by (simp add: bits_find_free_def Let_def runs_bits_find_loop del: bits_find_loop.simps)

lemma runs_pmm_unused [runs_intros]: "runs strict (pmm_unused p r) (\<lambda>_. True)"
  by (auto simp: pmm_unused_def Let_def runs_True_iff [OF runs_bits_set_range])

lemma runs_pmm_alloc [runs_intros]: "runs strict (pmm_alloc p sz up) (\<lambda>_. True)"
  by (auto simp: pmm_alloc_def Let_def runs_True_iff [OF runs_bits_set_range] runs_True_iff [OF runs_bits_find_free])

lemma runs_heap_free [runs_intros]: "runs strict (heap_free p r) (\<lambda>_. True)"
  by (auto simp: heap_free_def runs_True_iff [OF runs_pmm_unused])

lemma runs_heap_alloc [runs_intros]: "runs strict (heap_alloc p sz) (\<lambda>_. True)"
  by (auto simp: heap_alloc_def heap_alloc_impl_def runs_True_iff [OF runs_pmm_alloc])

lemma runs_vmm_get_pml_or_alloc [runs_intros]: "runs strict (vmm_get_pml_or_alloc t i f v) (\<lambda>_. True)"
  by (auto simp: vmm_get_pml_or_alloc_def Let_def runs_True_iff [OF runs_heap_alloc] split: sum.split)

lemma runs_vmm_map_page [runs_intros]: "runs strict (vmm_map_page r va pa f v) (\<lambda>_. True)"
  unfolding vmm_map_page_def
  by (auto simp: runs_True_iff [OF runs_vmm_get_pml_or_alloc] split: sum.split)

lemma runs_vmm_map [runs_intros]: "runs strict (vmm_map r vr pr f v) (\<lambda>_. True)"
  unfolding vmm_map_def
  by (auto intro!: runs_for_each_True simp: runs_True_iff [OF runs_vmm_map_page])

lemma runs_vmm_unmap_page [runs_intros]: "runs strict (vmm_unmap_page r va v) (\<lambda>_. True)"
  by (auto simp: vmm_unmap_page_def Let_def split: sum.split)

lemma runs_vmm_unmap [runs_intros]: "runs strict (vmm_unmap r vr v) (\<lambda>_. True)"
  unfolding vmm_unmap_def
  by (auto intro!: runs_for_each_True simp: runs_True_iff [OF runs_vmm_unmap_page])

lemma runs_vmm_space_create [runs_intros]: "runs strict (vmm_space_create v) (\<lambda>_. True)"
proof -
  have "runs strict (case x of (res, p) \<Rightarrow> case res of Inl e \<Rightarrow> Inl (Panic m) | Inr rng \<Rightarrow> Inr (f rng p)) (\<lambda>_. True)"
    for x :: "usize_range br_value \<times> pmm" and m and f :: "usize_range \<Rightarrow> pmm \<Rightarrow> u64 \<times> vmm"
    by (auto split: prod.split sum.split)
  then show ?thesis
    unfolding vmm_space_create_def Let_def runs_sbind by (intro runs_mono [OF runs_heap_alloc])
qed

lemma runs_vmm_space_destroy_pml [runs_intros]: "runs strict (vmm_space_destroy_pml l pml a b v) (\<lambda>_. True)"
proof (induction l arbitrary: pml a b v)
  case (Suc l)
  have "runs strict (for_each (\<lambda>i v. case vmm_get_pml v pml i of Inl _ \<Rightarrow> Inr v
      | Inr sub \<Rightarrow> vmm_space_destroy_pml l sub 0 512 v) [a..<b] v) (\<lambda>_. True)"
    by (rule runs_for_each_True) (auto split: sum.split intro: Suc.IH)
  then show ?case by (simp add: runs_True_iff) (auto simp: runs_True_iff [OF runs_heap_free])
qed simp

lemma runs_vmm_space_destroy [runs_intros]: "runs strict (vmm_space_destroy r v) (\<lambda>_. True)"
  unfolding vmm_space_destroy_def by (rule runs_vmm_space_destroy_pml)

lemma runs_vec_at [runs_intros]: "runs strict (vec_at v i) (\<lambda>_. True)"
  by (auto simp: vec_at_def split: option.split)

lemma runs_vec_set [runs_intros]: "runs strict (vec_set v i x) (\<lambda>_. True)"
  by (simp add: vec_set_def)

lemma runs_vec_splice [runs_intros]: "runs strict (vec_splice v i n) (\<lambda>_. True)"
  by (simp add: vec_splice_def vec_splice_impl_def vec_move_def)

lemma runs_vec_expand: "runs strict (vec_expand_impl v) (\<lambda>_. True)"
  by (simp add: vec_expand_impl_def vec_realloc_impl_def Let_def)

lemma runs_vec_push [runs_intros]: "runs strict (vec_push v x) (\<lambda>_. True)"
  by (auto simp: vec_push_def runs_True_iff [OF runs_vec_expand])

lemma runs_vec_insert [runs_intros]: "runs strict (vec_insert v i x) (\<lambda>_. True)"
  by (auto simp: vec_insert_def vec_insert_impl_def vec_move_def vec_set_def runs_True_iff [OF runs_vec_expand])

lemma runs_range_alloc_alloc [runs_intros]: "runs strict (range_alloc_alloc v sz) (\<lambda>_. True)"
proof -
  have "runs strict (range_alloc_scan v sz ks) (\<lambda>_. True)" for ks
    by (induction ks) (auto simp: runs_True_iff [OF runs_vec_at] runs_True_iff [OF runs_vec_set]
      runs_True_iff [OF runs_vec_splice])
  then show ?thesis by (simp add: range_alloc_alloc_def)
qed

lemma runs_range_alloc_absorb: "runs strict (range_alloc_absorb v i j) (\<lambda>_. True)"
  by (auto simp: range_alloc_absorb_def runs_True_iff [OF runs_vec_at] runs_True_iff [OF runs_vec_set]
    intro: runs_intros)

lemma runs_range_alloc_touching: "runs strict (range_alloc_touching v i j) (\<lambda>_. True)"
  by (auto simp: range_alloc_touching_def runs_True_iff [OF runs_vec_at])

lemma runs_range_alloc_compress_up: "runs strict (range_alloc_compress_up v i) (\<lambda>_. True)"
proof (induction v i rule: range_alloc_compress_up.induct)
  case (1 v i)
  show ?case
    using 1 by (subst range_alloc_compress_up.simps)
      (auto simp: runs_True_iff [OF runs_range_alloc_touching] runs_True_iff [OF runs_range_alloc_absorb])
qed

lemma runs_range_alloc_compress_down: "runs strict (range_alloc_compress_down v i) (\<lambda>_. True)"
proof (induction v i rule: range_alloc_compress_down.induct)
  case (1 v i)
  show ?case
    using 1 by (subst range_alloc_compress_down.simps)
      (auto simp: runs_True_iff [OF runs_range_alloc_touching] runs_True_iff [OF runs_range_alloc_absorb])
qed

lemma runs_range_alloc_unused [runs_intros]: "runs strict (range_alloc_unused v r) (\<lambda>_. True)"
proof -
  have c: "runs strict (range_alloc_compress w i) (\<lambda>_. True)" for w i
    by (auto simp: range_alloc_compress_def runs_True_iff [OF runs_range_alloc_compress_up]
      intro: runs_range_alloc_compress_down)
  have "runs strict (range_alloc_unused_from v r ks) (\<lambda>_. True)" for ks
    by (induction ks) (auto simp: runs_True_iff [OF runs_vec_at] runs_True_iff [OF runs_vec_set]
      runs_True_iff [OF runs_vec_insert] runs_True_iff [OF runs_vec_push] intro: c)
  then show ?thesis by (simp add: range_alloc_unused_def)
qed

lemma runs_range_alloc_used [runs_intros]: "runs strict (range_alloc_used v r) (\<lambda>_. True)"
proof -
  have "runs strict (range_alloc_used_loop n v r i) (\<lambda>_. True)" for n i
    by (induction n arbitrary: v i)
      (auto simp: runs_True_iff [OF runs_vec_at] runs_True_iff [OF runs_vec_set] Let_def
        runs_True_iff [OF runs_range_alloc_unused] runs_intros)
  then show ?thesis unfolding range_alloc_used_def .
qed

section \<open>Inside the kernel state\<close>

lemma runs_on_pmm:
  assumes "\<And>p. runs strict (f p) (\<lambda>_. True)" and "\<And>x v. P (x, s\<lparr>k_vmm := v\<rparr>)"
  shows "runs strict (on_pmm f s) P"
  using assms by (auto simp: on_pmm_def runs_True_iff)

lemma runs_on_vmm:
  assumes "\<And>v. runs strict (f v) (\<lambda>_. True)" and "\<And>x v. P (x, s\<lparr>k_vmm := v\<rparr>)"
  shows "runs strict (on_vmm f s) P"
  using assms by (auto simp: on_vmm_def runs_True_iff)

lemma get_simps:
  assumes "k_objs s p = Some ob"
  shows "kget p s = Inr ob"
    "o_body ob = KMemory m \<Longrightarrow> get_memory p s = Inr m"
    "o_body ob = KDomain d \<Longrightarrow> get_domain p s = Inr d"
    "o_body ob = KSpace sp \<Longrightarrow> get_space p s = Inr sp"
    "o_body ob = KTask t \<Longrightarrow> get_task p s = Inr t"
    "kbody p b s = Inr (kput p (ob\<lparr>o_body := b\<rparr>) s)"
  using assms by (simp_all add: kget_def get_memory_def get_domain_def get_space_def get_task_def kbody_def)

end
