(* ===== verification/Refs.thy ===== *)
theory Refs
  imports Mm_Safe
begin

text \<open>
  Reference counting is safe: the invariant of the object store and its preservation by the
  operations of theory Objects.

  \<open>holders s p\<close> counts the references to \<open>p\<close> that the kernel state stores: in the slots of
  domains, the mappings of spaces, the space and domain of tasks, the parcels of channels and the
  task list. The references that the code running holds in local variables are described by a
  function \<open>d\<close> from pointers to numbers. \<open>kinv s d\<close> says that the reference count of every object
  is at least the number of references to it, stored or local. An object whose count has dropped
  to zero is being destroyed: what it still points to no longer counts as stored and is owned by
  its destructor.
\<close>

section \<open>Counting references\<close>

definition rc :: "kst \<Rightarrow> ptr \<Rightarrow> nat" where
  "rc s p = (case k_objs s p of None \<Rightarrow> 0 | Some ob \<Rightarrow> nat (o_refs ob))"

definition kind :: "kst \<Rightarrow> ptr \<Rightarrow> br_type option" where
  "kind s p = map_option o_type (k_objs s p)"

definition slots_held :: "ptr option slot_impl \<Rightarrow> nat \<Rightarrow> ptr \<Rightarrow> nat" where
  "slots_held d i p = (\<Sum>j = i..<slot_cap d. of_bool (slot_lookup d j = Some (Some p)))"

definition mmaps_held :: "mmapping list \<Rightarrow> ptr \<Rightarrow> nat" where
  "mmaps_held ms p = count_list (map mm_object ms) p"

fun body_held :: "kbody \<Rightarrow> ptr \<Rightarrow> nat" where
  "body_held (KMemory _) p = 0"
| "body_held (KDomain d) p = slots_held d 0 p"
| "body_held (KSpace sp) p = mmaps_held (space_mmaps sp) p"
| "body_held (KTask t) p = of_bool (task_space t = p) + of_bool (task_domain t = p)"

definition obj_held :: "kobj \<Rightarrow> ptr \<Rightarrow> nat" where
  "obj_held ob p = (if o_refs ob > 0 then body_held (o_body ob) p else 0)"

definition chan_held :: "channel \<Rightarrow> ptr \<Rightarrow> nat" where
  "chan_held r p = sum_list (map (\<lambda>pc. count_list (parcel_objs pc) (Some p)) (ring_list r))"

definition held_at :: "('a \<Rightarrow> ptr \<Rightarrow> nat) \<Rightarrow> 'a option \<Rightarrow> ptr \<Rightarrow> nat" where
  "held_at h x p = (case x of None \<Rightarrow> 0 | Some y \<Rightarrow> h y p)"

definition objs_held :: "kst \<Rightarrow> ptr \<Rightarrow> nat" where
  "objs_held s p = (\<Sum>q < k_next s. held_at obj_held (k_objs s q) p)"

definition chans_held :: "kst \<Rightarrow> ptr \<Rightarrow> nat" where
  "chans_held s p = (\<Sum>c < k_next s. held_at chan_held (k_chans s c) p)"

definition holders :: "kst \<Rightarrow> ptr \<Rightarrow> nat" where
  "holders s p = objs_held s p + chans_held s p + count_list (k_tasks s) p"

definition plus1 :: "ptr \<Rightarrow> (ptr \<Rightarrow> nat) \<Rightarrow> ptr \<Rightarrow> nat" where
  "plus1 p d = (\<lambda>x. d x + of_bool (x = p))"

section \<open>The invariant\<close>

fun body_wf :: "kst \<Rightarrow> kbody \<Rightarrow> bool" where
  "body_wf s (KMemory _) = True"
| "body_wf s (KDomain d) = (slot_inv d \<and> (\<forall>i. slot_lookup d i \<noteq> Some None))"
| "body_wf s (KSpace _) = True"
| "body_wf s (KTask t) = (k_chans s (task_channel t) \<noteq> None)"

fun body_typed :: "kst \<Rightarrow> kbody \<Rightarrow> bool" where
  "body_typed s (KTask t) =
     (kind s (task_space t) = Some BR_OBJECT_SPACE \<and> kind s (task_domain t) = Some BR_OBJECT_DOMAIN)"
| "body_typed s _ = True"

definition parcel_ok :: "parcel \<Rightarrow> bool" where
  "parcel_ok pc \<longleftrightarrow> length (parcel_objs pc) = BR_MSG_ARG_COUNT"

definition store_ok :: "kst \<Rightarrow> bool" where
  "store_ok s \<longleftrightarrow>
     (\<forall>q \<ge> k_next s. k_objs s q = None \<and> k_chans s q = None) \<and>
     (\<forall>q ob. k_objs s q = Some ob \<longrightarrow> 0 \<le> o_refs ob \<and> body_wf s (o_body ob) \<and>
        (0 < o_refs ob \<longrightarrow> body_typed s (o_body ob))) \<and>
     (\<forall>q q' ob ob' t t'. k_objs s q = Some ob \<and> o_body ob = KTask t \<and> k_objs s q' = Some ob' \<and>
        o_body ob' = KTask t' \<and> task_channel t = task_channel t' \<longrightarrow> q = q') \<and>
     (\<forall>c r. k_chans s c = Some r \<longrightarrow> ring_inv r \<and> ring_capacity r = IPC_CHANNEL_SIZE \<and> (\<forall>pc \<in> set (ring_list r). parcel_ok pc)) \<and>
     distinct (k_global s) \<and> (\<forall>p \<in> set (k_global s). 0 < rc s p) \<and>
     (\<forall>p \<in> set (k_tasks s). kind s p = Some BR_OBJECT_TASK)"

definition kinv :: "kst \<Rightarrow> (ptr \<Rightarrow> nat) \<Rightarrow> bool" where
  "kinv s d \<longleftrightarrow> store_ok s \<and> (\<forall>p. holders s p + d p \<le> rc s p)"

section \<open>Sums\<close>

lemma sum_update:
  fixes f :: "nat \<Rightarrow> nat"
  assumes "q < n"
  shows "(\<Sum>i<n. (f(q := a)) i) + f q = (\<Sum>i<n. f i) + a"
proof -
  have "(\<Sum>i<n. (f(q := a)) i) = a + (\<Sum>i\<in>{..<n} - {q}. f i)"
    using assms by (simp add: sum.remove [of _ q])
  moreover have "(\<Sum>i<n. f i) = f q + (\<Sum>i\<in>{..<n} - {q}. f i)"
    using assms by (simp add: sum.remove [of _ q])
  ultimately show ?thesis by simp
qed

lemma objs_held_update:
  assumes "q < k_next s" "k_next t = k_next s" "k_objs t = (k_objs s)(q := x)"
  shows "objs_held t p + held_at obj_held (k_objs s q) p = objs_held s p + held_at obj_held x p"
proof -
  have "(\<lambda>i. held_at obj_held (k_objs t i) p) =
      (\<lambda>i. held_at obj_held (k_objs s i) p)(q := held_at obj_held x p)"
    using assms(3) by auto
  then have "objs_held t p =
      (\<Sum>i<k_next s. ((\<lambda>i. held_at obj_held (k_objs s i) p)(q := held_at obj_held x p)) i)"
    unfolding objs_held_def assms(2) by (rule arg_cong)
  with sum_update [OF assms(1), of "\<lambda>i. held_at obj_held (k_objs s i) p" "held_at obj_held x p"]
  show ?thesis by (simp add: objs_held_def)
qed

lemma chans_held_update:
  assumes "c < k_next s" "k_next t = k_next s" "k_chans t = (k_chans s)(c := x)"
  shows "chans_held t p + held_at chan_held (k_chans s c) p = chans_held s p + held_at chan_held x p"
proof -
  have "(\<lambda>i. held_at chan_held (k_chans t i) p) =
      (\<lambda>i. held_at chan_held (k_chans s i) p)(c := held_at chan_held x p)"
    using assms(3) by auto
  then have "chans_held t p =
      (\<Sum>i<k_next s. ((\<lambda>i. held_at chan_held (k_chans s i) p)(c := held_at chan_held x p)) i)"
    unfolding chans_held_def assms(2) by (rule arg_cong)
  with sum_update [OF assms(1), of "\<lambda>i. held_at chan_held (k_chans s i) p" "held_at chan_held x p"]
  show ?thesis by (simp add: chans_held_def)
qed

lemma held_at_simps [simp]: "held_at h None p = 0" "held_at h (Some y) p = h y p"
  by (simp_all add: held_at_def)

lemma held_by_object:
  assumes "q < k_next s" "k_objs s q = Some ob"
  shows "obj_held ob p \<le> holders s p"
proof -
  have "held_at obj_held (k_objs s q) p \<le> objs_held s p"
    unfolding objs_held_def using assms(1) by (intro member_le_sum) auto
  with assms(2) show ?thesis by (simp add: holders_def)
qed

lemma held_by_channel:
  assumes "c < k_next s" "k_chans s c = Some r"
  shows "chan_held r p \<le> holders s p"
proof -
  have "held_at chan_held (k_chans s c) p \<le> chans_held s p"
    unfolding chans_held_def using assms(1) by (intro member_le_sum) auto
  with assms(2) show ?thesis by (simp add: holders_def)
qed

section \<open>Using the invariant\<close>

lemma kinv_store: "kinv s d \<Longrightarrow> store_ok s"
  by (simp add: kinv_def)

lemma kinv_count: "kinv s d \<Longrightarrow> holders s p + d p \<le> rc s p"
  by (simp add: kinv_def)

lemma store_bound: "store_ok s \<Longrightarrow> k_objs s q = Some ob \<Longrightarrow> q < k_next s"
  by (rule ccontr) (auto simp: store_ok_def)

lemma store_chan_bound: "store_ok s \<Longrightarrow> k_chans s c = Some r \<Longrightarrow> c < k_next s"
  by (rule ccontr) (auto simp: store_ok_def)

lemma store_obj:
  assumes "store_ok s" "k_objs s q = Some ob"
  shows "0 \<le> o_refs ob" "body_wf s (o_body ob)" "0 < o_refs ob \<Longrightarrow> body_typed s (o_body ob)"
  using assms unfolding store_ok_def by blast+

lemma rc_pos: "0 < rc s p \<longleftrightarrow> (\<exists>ob. k_objs s p = Some ob \<and> 0 < o_refs ob)"
  by (auto simp: rc_def split: option.splits)

lemma kinv_live:
  assumes "kinv s d" "0 < holders s p + d p"
  obtains ob where "k_objs s p = Some ob" "0 < o_refs ob" "p < k_next s"
proof -
  from assms have "0 < rc s p" using kinv_count [OF assms(1), of p] by linarith
  then obtain ob where "k_objs s p = Some ob" "0 < o_refs ob" by (auto simp: rc_pos)
  with store_bound [OF kinv_store [OF assms(1)]] show thesis using that by blast
qed

lemma kinv_weaken: "kinv s d \<Longrightarrow> (\<And>p. d' p \<le> d p) \<Longrightarrow> kinv s d'"
  unfolding kinv_def by (meson add_le_mono le_refl le_trans)

lemma holders_cong:
  assumes "k_next t = k_next s" "k_objs t = k_objs s" "k_chans t = k_chans s" "k_tasks t = k_tasks s"
  shows "holders t = holders s"
  using assms by (simp add: holders_def objs_held_def chans_held_def fun_eq_iff)

lemma body_cong:
  assumes "k_objs t = k_objs s" "k_chans t = k_chans s"
  shows "body_wf t = body_wf s" "body_typed t = body_typed s" "kind t = kind s" "rc t = rc s"
proof -
  show k: "kind t = kind s" and "rc t = rc s" using assms by (auto simp: kind_def rc_def fun_eq_iff)
  show "body_wf t = body_wf s"
  proof
    fix b show "body_wf t b = body_wf s b" using assms by (cases b) auto
  qed
  show "body_typed t = body_typed s"
  proof
    fix b show "body_typed t b = body_typed s b" using k by (cases b) auto
  qed
qed

text \<open>The invariant reads only the stores, the global list and the task list.\<close>

lemma kinv_cong:
  assumes "k_next t = k_next s" "k_objs t = k_objs s" "k_chans t = k_chans s" "k_tasks t = k_tasks s"
    "k_global t = k_global s"
  shows "kinv t d = kinv s d"
  unfolding kinv_def store_ok_def using assms by (simp add: holders_cong [OF assms(1-4)] body_cong [OF assms(2,3)])

section \<open>Changing one object\<close>

lemma body_typed_kind: "kind t = kind s \<Longrightarrow> body_typed t b = body_typed s b"
  by (cases b) auto

lemma body_wf_chans: "k_chans t = k_chans s \<Longrightarrow> body_wf t b = body_wf s b"
  by (cases b) auto

definition same_channel :: "kbody \<Rightarrow> kbody \<Rightarrow> bool" where
  "same_channel b b' \<longleftrightarrow> (\<forall>t t'. b = KTask t \<longrightarrow> b' = KTask t' \<longrightarrow> task_channel t' = task_channel t)"

lemma kinv_update_obj:
  assumes inv: "kinv s d" and q: "k_objs s q = Some ob"
    and t: "k_objs t = (k_objs s)(q \<mapsto> ob')" "k_next t = k_next s" "k_chans t = k_chans s" "k_tasks t = k_tasks s"
    and glob: "set (k_global t) \<subseteq> set (k_global s)" "distinct (k_global t)"
      "0 < o_refs ob' \<or> q \<notin> set (k_global t)"
    and ty: "o_type ob' = o_type ob" "same_channel (o_body ob) (o_body ob')"
    and wf: "0 \<le> o_refs ob'" "body_wf s (o_body ob')" "0 < o_refs ob' \<Longrightarrow> body_typed s (o_body ob')"
    and cnt: "\<And>p. obj_held ob' p + d' p + (if p = q then nat (o_refs ob) else 0) \<le>
        obj_held ob p + d p + (if p = q then nat (o_refs ob') else 0)"
  shows "kinv t d'"
proof -
  note st = kinv_store [OF inv]
  have k: "kind t = kind s" using t(1) q ty(1) by (auto simp: kind_def fun_eq_iff)
  have rcs: "rc t p = (if p = q then nat (o_refs ob') else rc s p)" for p using t(1) by (simp add: rc_def)
  have qn: "q < k_next s" using store_bound [OF st q] .
  have "holders t p + d' p \<le> rc t p" for p
  proof -
    have "objs_held t p + obj_held ob p = objs_held s p + obj_held ob' p"
      using objs_held_update [OF qn t(2,1), of p] q by simp
    moreover have "chans_held t p = chans_held s p" using t by (simp add: chans_held_def)
    moreover have "holders s p + d p \<le> rc s p" by (rule kinv_count [OF inv])
    moreover have "rc s q = nat (o_refs ob)" using q by (simp add: rc_def)
    ultimately show ?thesis using cnt [of p] t(4) rcs [of p] by (auto simp: holders_def split: if_splits)
  qed
  moreover have "store_ok t"
    unfolding store_ok_def
  proof (intro conjI)
    show "\<forall>x\<ge>k_next t. k_objs t x = None \<and> k_chans t x = None"
      using st qn t by (auto simp: store_ok_def)
    show "\<forall>x y. k_objs t x = Some y \<longrightarrow> 0 \<le> o_refs y \<and> body_wf t (o_body y) \<and>
        (0 < o_refs y \<longrightarrow> body_typed t (o_body y))"
      using st t wf body_typed_kind [OF k] body_wf_chans [OF t(3)] store_obj [OF st] by auto
    show "\<forall>x x' y y' tk tk'. k_objs t x = Some y \<and> o_body y = KTask tk \<and> k_objs t x' = Some y' \<and>
        o_body y' = KTask tk' \<and> task_channel tk = task_channel tk' \<longrightarrow> x = x'"
    proof (intro allI impI)
      fix x x' y y' tk tk'
      assume a: "k_objs t x = Some y \<and> o_body y = KTask tk \<and> k_objs t x' = Some y' \<and>
        o_body y' = KTask tk' \<and> task_channel tk = task_channel tk'"
      have old: "\<exists>z tz. k_objs s w = Some z \<and> o_body z = KTask tz \<and> task_channel tz = task_channel tv"
        if h: "k_objs t w = Some v" "o_body v = KTask tv" for w v tv
      proof (cases "w = q")
        case True
        with h t(1) have v: "v = ob'" by simp
        then obtain tz where tz: "o_body ob = KTask tz" using h(2) ty(1) by (cases "o_body ob") (auto simp: o_type_def)
        then have "task_channel tv = task_channel tz" using ty(2) h(2) v by (simp add: same_channel_def)
        with tz q True show ?thesis by auto
      next
        case False
        with h t(1) show ?thesis by auto
      qed
      from old [of x y tk] old [of x' y' tk'] a obtain z tz z' tz' where
        "k_objs s x = Some z" "o_body z = KTask tz" "k_objs s x' = Some z'" "o_body z' = KTask tz'"
        "task_channel tz = task_channel tz'" by auto
      with st show "x = x'" unfolding store_ok_def by blast
    qed
    show "\<forall>c r. k_chans t c = Some r \<longrightarrow> ring_inv r \<and> ring_capacity r = IPC_CHANNEL_SIZE \<and>
        (\<forall>pc\<in>set (ring_list r). parcel_ok pc)"
      using st unfolding t(3) store_ok_def by blast
    show "distinct (k_global t)" by (rule glob(2))
    show "\<forall>p\<in>set (k_global t). 0 < rc t p"
      using st glob rcs by (auto simp: store_ok_def)
    show "\<forall>p\<in>set (k_tasks t). kind t p = Some BR_OBJECT_TASK"
      using st unfolding k t(4) store_ok_def by blast
  qed
  ultimately show ?thesis by (simp add: kinv_def)
qed


section \<open>Freeing an object\<close>

lemma kinv_pointee:
  assumes inv: "kinv s d" and x: "k_objs s x = Some ob" "0 < o_refs ob" "0 < body_held (o_body ob) q"
  shows "0 < rc s q"
proof -
  have "0 < holders s q"
    using held_by_object [OF store_bound [OF kinv_store [OF inv] x(1)] x(1), of q] x(2,3)
    by (simp add: obj_held_def)
  with kinv_count [OF inv, of q] show ?thesis by linarith
qed

lemma body_typed_other:
  assumes inv: "kinv s d" and x: "k_objs s x = Some ob" "0 < o_refs ob"
    and k: "\<And>y. 0 < rc s y \<Longrightarrow> kind t y = kind s y"
  shows "body_typed t (o_body ob)"
proof -
  have ty: "body_typed s (o_body ob)" by (rule store_obj(3) [OF kinv_store [OF inv] x])
  show ?thesis
  proof (cases "o_body ob")
    case (KTask tk)
    then have "0 < rc s (task_space tk)" "0 < rc s (task_domain tk)"
      by (intro kinv_pointee [OF inv x]; simp)+
    with KTask ty k show ?thesis by simp
  qed simp_all
qed

lemma kinv_tasks_live:
  assumes "kinv s d" "p \<in> set (k_tasks s)"
  shows "0 < rc s p"
  using kinv_count [OF assms(1), of p] count_list_0_iff [of "k_tasks s" p] assms(2)
  by (simp add: holders_def)

text \<open>
  Freeing an object that is being destroyed, together with the channel of a task.
\<close>

lemma kinv_free:
  assumes inv: "kinv s d" and q: "k_objs s q = Some ob" "o_refs ob = 0"
    and t: "k_objs t = (k_objs s)(q := None)" "k_next t = k_next s" "k_tasks t = k_tasks s" "k_global t = k_global s"
    and ch: "k_chans t = k_chans s \<or>
      (\<exists>tk. o_body ob = KTask tk \<and> k_chans t = (k_chans s)(task_channel tk := None))"
  shows "kinv t d"
proof -
  note st = kinv_store [OF inv]
  have qn: "q < k_next s" using store_bound [OF st q(1)] .
  have rcq: "rc s q = 0" using q by (simp add: rc_def)
  have rcs: "rc t p = rc s p" for p using t(1) rcq by (simp add: rc_def)
  have ks: "kind t p = kind s p" if "0 < rc s p" for p
    using that rcq t(1) by (cases "p = q") (auto simp: kind_def)
  have chn: "k_chans t c = k_chans s c \<or> k_chans t c = None" for c using ch by (auto split: if_splits)
  have "holders t p + d p \<le> rc t p" for p
  proof -
    have "objs_held t p = objs_held s p"
      using objs_held_update [OF qn t(2,1), of p] q by (simp add: obj_held_def)
    moreover have "chans_held t p \<le> chans_held s p"
      unfolding chans_held_def t(2)
    proof (rule sum_mono)
      fix c show "held_at chan_held (k_chans t c) p \<le> held_at chan_held (k_chans s c) p"
        using chn [of c] by auto
    qed
    ultimately show ?thesis using kinv_count [OF inv, of p] t(3) rcs [of p] by (simp add: holders_def)
  qed
  moreover have "store_ok t"
    unfolding store_ok_def
  proof (intro conjI)
    show "\<forall>x\<ge>k_next t. k_objs t x = None \<and> k_chans t x = None"
    proof (intro allI impI)
      fix x assume "k_next t \<le> x"
      then have "k_objs s x = None" "k_chans s x = None" using st t(2) by (auto simp: store_ok_def)
      then show "k_objs t x = None \<and> k_chans t x = None" using t(1) chn [of x] by auto
    qed
    show "\<forall>x y. k_objs t x = Some y \<longrightarrow> 0 \<le> o_refs y \<and> body_wf t (o_body y) \<and>
        (0 < o_refs y \<longrightarrow> body_typed t (o_body y))"
    proof (intro allI impI)
      fix x y assume "k_objs t x = Some y"
      with t(1) have x: "x \<noteq> q" "k_objs s x = Some y" by (auto split: if_splits)
      have wf: "body_wf s (o_body y)" using store_obj(2) [OF st x(2)] .
      have "body_wf t (o_body y)"
      proof (cases "o_body y")
        case (KTask ty)
        have "task_channel ty \<noteq> task_channel tk" if "o_body ob = KTask tk" for tk
          using st q(1) x KTask that unfolding store_ok_def by blast
        with KTask wf ch show ?thesis by auto
      qed (use wf in auto)
      then show "0 \<le> o_refs y \<and> body_wf t (o_body y) \<and> (0 < o_refs y \<longrightarrow> body_typed t (o_body y))"
        using store_obj(1) [OF st x(2)] body_typed_other [OF inv x(2) _ ks] by auto
    qed
    show "\<forall>x x' y y' tk tk'. k_objs t x = Some y \<and> o_body y = KTask tk \<and> k_objs t x' = Some y' \<and>
        o_body y' = KTask tk' \<and> task_channel tk = task_channel tk' \<longrightarrow> x = x'"
    proof (intro allI impI)
      fix x x' y y' tk tk'
      assume a: "k_objs t x = Some y \<and> o_body y = KTask tk \<and> k_objs t x' = Some y' \<and>
        o_body y' = KTask tk' \<and> task_channel tk = task_channel tk'"
      then have "k_objs s x = Some y" "k_objs s x' = Some y'" using t(1) by (auto split: if_splits)
      with a st show "x = x'" unfolding store_ok_def by blast
    qed
    show "\<forall>c r. k_chans t c = Some r \<longrightarrow> ring_inv r \<and> ring_capacity r = IPC_CHANNEL_SIZE \<and>
        (\<forall>pc\<in>set (ring_list r). parcel_ok pc)"
    proof (intro allI impI)
      fix c r assume "k_chans t c = Some r"
      then have "k_chans s c = Some r" using chn [of c] by auto
      with st show "ring_inv r \<and> ring_capacity r = IPC_CHANNEL_SIZE \<and> (\<forall>pc\<in>set (ring_list r). parcel_ok pc)"
        unfolding store_ok_def by blast
    qed
    show "distinct (k_global t)" "\<forall>p\<in>set (k_global t). 0 < rc t p"
      using st rcs t(4) by (auto simp: store_ok_def)
    show "\<forall>p\<in>set (k_tasks t). kind t p = Some BR_OBJECT_TASK"
      using st ks kinv_tasks_live [OF inv] unfolding t(3) store_ok_def by auto
  qed
  ultimately show ?thesis by (simp add: kinv_def)
qed

section \<open>New objects and channels\<close>

definition fresh_channel :: "kst \<Rightarrow> kbody \<Rightarrow> bool" where
  "fresh_channel s b \<longleftrightarrow> (\<forall>t q ob t'. b = KTask t \<longrightarrow> k_objs s q = Some ob \<longrightarrow> o_body ob = KTask t' \<longrightarrow>
     task_channel t' \<noteq> task_channel t)"

text \<open>An object enters the store with one reference, owned by its creator.\<close>

lemma kinv_new_obj:
  assumes inv: "kinv s d"
    and t: "k_objs t = (k_objs s)(k_next s \<mapsto> ob)" "k_next t = k_next s + 1" "k_chans t = k_chans s"
      "k_tasks t = k_tasks s"
    and ob: "o_refs ob = 1" "body_wf s (o_body ob)" "body_typed s (o_body ob)" "fresh_channel s (o_body ob)"
    and glob: "k_global t = k_global s @ [k_next s] \<or> k_global t = [k_next s]"
    and cnt: "\<And>p. body_held (o_body ob) p + d' p \<le> d p"
  shows "kinv t (plus1 (k_next s) d')"
proof -
  let ?n = "k_next s"
  note st = kinv_store [OF inv]
  have none: "k_objs s ?n = None" "k_chans s ?n = None" using st by (auto simp: store_ok_def)
  have rcs: "rc t p = (if p = ?n then 1 else rc s p)" for p using t(1) ob(1) by (simp add: rc_def)
  have rn: "rc s ?n = 0" using none by (simp add: rc_def)
  have ks: "kind t p = kind s p" if "kind s p \<noteq> None" for p
    using that none t(1) by (auto simp: kind_def)
  have old: "k_objs t q = k_objs s q" if "q < ?n" for q using that t(1) by simp
  have tb: "body_typed t b" if "body_typed s b" for b
    using that ks by (cases b) auto
  have "holders t p + plus1 ?n d' p \<le> rc t p" for p
  proof -
    have "objs_held t p = objs_held s p + body_held (o_body ob) p"
      using t(1,2) ob(1) old by (simp add: objs_held_def obj_held_def)
    moreover have "chans_held t p = chans_held s p" using t(2,3) none by (simp add: chans_held_def)
    ultimately have "holders t p + d' p \<le> holders s p + d p"
      using cnt [of p] t(4) by (simp add: holders_def)
    with kinv_count [OF inv, of p] rn rcs [of p] show ?thesis by (auto simp: plus1_def)
  qed
  moreover have "store_ok t"
    unfolding store_ok_def
  proof (intro conjI)
    show "\<forall>x\<ge>k_next t. k_objs t x = None \<and> k_chans t x = None"
      using st t by (auto simp: store_ok_def)
    show "\<forall>x y. k_objs t x = Some y \<longrightarrow> 0 \<le> o_refs y \<and> body_wf t (o_body y) \<and>
        (0 < o_refs y \<longrightarrow> body_typed t (o_body y))"
      using t(1) ob store_obj [OF st] tb body_wf_chans [OF t(3)] by (auto split: if_splits)
    show "\<forall>x x' y y' tk tk'. k_objs t x = Some y \<and> o_body y = KTask tk \<and> k_objs t x' = Some y' \<and>
        o_body y' = KTask tk' \<and> task_channel tk = task_channel tk' \<longrightarrow> x = x'"
    proof (intro allI impI)
      fix x x' y y' tk tk'
      assume a: "k_objs t x = Some y \<and> o_body y = KTask tk \<and> k_objs t x' = Some y' \<and>
        o_body y' = KTask tk' \<and> task_channel tk = task_channel tk'"
      have inj: "k_objs s x = Some y \<Longrightarrow> k_objs s x' = Some y' \<Longrightarrow> x = x'"
        using a st unfolding store_ok_def by blast
      consider "x = ?n" "x' = ?n" | "x = ?n" "x' \<noteq> ?n" | "x \<noteq> ?n" "x' = ?n" | "x \<noteq> ?n" "x' \<noteq> ?n" by blast
      then show "x = x'"
      proof cases
        case 2
        then have "k_objs s x' = Some y'" "y = ob" using a t(1) by auto
        with a ob(4) show ?thesis unfolding fresh_channel_def by metis
      next
        case 3
        then have "k_objs s x = Some y" "y' = ob" using a t(1) by auto
        with a ob(4) show ?thesis unfolding fresh_channel_def by metis
      next
        case 4
        with a t(1) inj show ?thesis by simp
      qed simp
    qed
    show "\<forall>c r. k_chans t c = Some r \<longrightarrow> ring_inv r \<and> ring_capacity r = IPC_CHANNEL_SIZE \<and>
        (\<forall>pc\<in>set (ring_list r). parcel_ok pc)"
      using st unfolding t(3) store_ok_def by blast
    have g: "distinct (k_global s)" "\<forall>p\<in>set (k_global s). 0 < rc s p" using st by (auto simp: store_ok_def)
    with rn have "?n \<notin> set (k_global s)" by auto
    with g glob show "distinct (k_global t)" by auto
    show "\<forall>p\<in>set (k_global t). 0 < rc t p" using g(2) glob rcs by auto
    show "\<forall>p\<in>set (k_tasks t). kind t p = Some BR_OBJECT_TASK"
      using st ks unfolding t(4) store_ok_def by auto
  qed
  ultimately show ?thesis by (simp add: kinv_def)
qed

lemma kinv_new_chan:
  assumes inv: "kinv s d" and t: "t = s\<lparr>k_next := k_next s + 1, k_chans := (k_chans s)(k_next s \<mapsto> r)\<rparr>"
    and r: "ring_inv r" "ring_list r = []" "ring_capacity r = IPC_CHANNEL_SIZE"
  shows "kinv t d"
proof -
  let ?n = "k_next s"
  note st = kinv_store [OF inv]
  have none: "k_objs s ?n = None" using st by (auto simp: store_ok_def)
  have wf: "body_wf t b" if "body_wf s b" for b using that t by (cases b) auto
  have k: "kind t = kind s" "rc t = rc s" using t by (auto simp: kind_def rc_def fun_eq_iff)
  have "holders t p = holders s p" for p
  proof -
    have "(\<Sum>c < ?n. held_at chan_held (k_chans t c) p) = (\<Sum>c < ?n. held_at chan_held (k_chans s c) p)"
      by (rule sum.cong) (auto simp: t)
    then show ?thesis
      using none r(2) by (simp add: holders_def objs_held_def chans_held_def t chan_held_def)
  qed
  moreover have "store_ok t"
    using st r wf body_typed_kind [OF k(1)] unfolding store_ok_def k by (simp add: t)
  ultimately show ?thesis using inv by (simp add: kinv_def k)
qed

section \<open>Channel contents and the task list\<close>

lemma kinv_update_chan:
  assumes inv: "kinv s d" and c: "k_chans s c = Some r" and t: "t = put_channel c r' s"
    and r: "ring_inv r'" "ring_capacity r' = IPC_CHANNEL_SIZE" "\<forall>pc\<in>set (ring_list r'). parcel_ok pc"
    and cnt: "\<And>p. chan_held r' p + d' p \<le> chan_held r p + d p"
  shows "kinv t d'"
proof -
  note st = kinv_store [OF inv]
  have k: "kind t = kind s" "rc t = rc s" using t by (auto simp: put_channel_def kind_def rc_def fun_eq_iff)
  have wf: "body_wf t b" if "body_wf s b" for b using that t by (cases b) (auto simp: put_channel_def)
  have cn: "c < k_next s" using store_chan_bound [OF st c] .
  have "holders t p + d' p \<le> rc t p" for p
  proof -
    have "chans_held t p + chan_held r p = chans_held s p + chan_held r' p"
      using chans_held_update [OF cn, of t "Some r'" p] c t by (simp add: put_channel_def)
    moreover have "objs_held t p = objs_held s p" using t by (simp add: objs_held_def put_channel_def)
    moreover have "k_tasks t = k_tasks s" using t by (simp add: put_channel_def)
    ultimately show ?thesis using kinv_count [OF inv, of p] cnt [of p] by (simp add: holders_def k)
  qed
  moreover have "store_ok t"
    using st r wf body_typed_kind [OF k(1)] cn unfolding store_ok_def k by (simp add: t put_channel_def)
  ultimately show ?thesis by (simp add: kinv_def)
qed

lemma kinv_push_task:
  assumes inv: "kinv s (plus1 p d)" and k: "kind s p = Some BR_OBJECT_TASK"
  shows "kinv (s\<lparr>k_tasks := k_tasks s @ [p]\<rparr>) d"
proof -
  let ?t = "s\<lparr>k_tasks := k_tasks s @ [p]\<rparr>"
  note c = body_cong [of ?t s]
  have "holders ?t x + d x \<le> rc s x" for x
    using kinv_count [OF inv, of x] by (auto simp: holders_def objs_held_def chans_held_def plus1_def)
  then show ?thesis
    using kinv_store [OF inv] k unfolding kinv_def store_ok_def by (simp add: c)
qed

lemma count_list_remove1:
  "count_list (remove1 p xs) x = (if x = p then count_list xs x - 1 else count_list xs x)"
  by (induction xs) auto

lemma kinv_drop_task:
  assumes inv: "kinv s d" and p: "p \<in> set (k_tasks s)"
  shows "kinv (s\<lparr>k_tasks := remove1 p (k_tasks s)\<rparr>) (plus1 p d)"
proof -
  let ?t = "s\<lparr>k_tasks := remove1 p (k_tasks s)\<rparr>"
  note c = body_cong [of ?t s]
  have pos: "0 < count_list (k_tasks s) p" using p by (metis count_list_0_iff neq0_conv)
  have "holders ?t x + plus1 p d x \<le> rc s x" for x
    using kinv_count [OF inv, of x] pos
    by (auto simp: holders_def objs_held_def chans_held_def plus1_def count_list_remove1)
  moreover have "\<forall>x \<in> set (remove1 p (k_tasks s)). kind s x = Some BR_OBJECT_TASK"
    using kinv_store [OF inv] set_remove1_subset [of p "k_tasks s"] unfolding store_ok_def by blast
  ultimately show ?thesis
    using kinv_store [OF inv] unfolding kinv_def store_ok_def by (simp add: c)
qed


section \<open>What releasing references leaves alone\<close>

text \<open>
  Between \<open>s\<close> and \<open>t\<close> objects were released and perhaps destroyed: no address outside \<open>X\<close> got a new
  object, what is still there has its identity and contents, objects that were being destroyed
  are untouched, and channels are untouched or gone.
\<close>

definition frame :: "ptr set \<Rightarrow> kst \<Rightarrow> kst \<Rightarrow> bool" where
  "frame X s t \<longleftrightarrow> k_next t = k_next s \<and> k_tasks t = k_tasks s \<and> k_cpus t = k_cpus s \<and> k_self t = k_self s \<and>
     k_locked t = k_locked s \<and> k_tick t = k_tick s \<and> k_init t = k_init s \<and> set (k_global t) \<subseteq> set (k_global s) \<and>
     (\<forall>q ob'. q \<notin> X \<longrightarrow> k_objs t q = Some ob' \<longrightarrow> (\<exists>ob. k_objs s q = Some ob \<and> o_body ob' = o_body ob \<and>
        o_id ob' = o_id ob \<and> o_refs ob' \<le> o_refs ob)) \<and>
     (\<forall>q ob. q \<notin> X \<longrightarrow> k_objs s q = Some ob \<longrightarrow> o_refs ob \<le> 0 \<longrightarrow> k_objs t q = Some ob) \<and>
     (\<forall>c. k_chans t c \<noteq> None \<longrightarrow> k_chans t c = k_chans s c) \<and> (\<forall>q. 0 < rc t q \<longrightarrow> 0 < rc s q)"

lemma frame_refl: "frame X s s"
  by (simp add: frame_def)

lemma frame_objD: "frame X s t \<Longrightarrow> q \<notin> X \<Longrightarrow> k_objs t q = Some ob' \<Longrightarrow>
    \<exists>ob. k_objs s q = Some ob \<and> o_body ob' = o_body ob \<and> o_id ob' = o_id ob \<and> o_refs ob' \<le> o_refs ob"
  unfolding frame_def by blast

lemma frame_deadD: "frame X s t \<Longrightarrow> q \<notin> X \<Longrightarrow> k_objs s q = Some ob \<Longrightarrow> o_refs ob \<le> 0 \<Longrightarrow> k_objs t q = Some ob"
  unfolding frame_def by blast

lemma frame_trans:
  assumes "frame X s t" "frame X t u"
  shows "frame X s u"
proof -
  have "\<exists>ob. k_objs s q = Some ob \<and> o_body ob'' = o_body ob \<and> o_id ob'' = o_id ob \<and> o_refs ob'' \<le> o_refs ob"
    if h: "q \<notin> X" "k_objs u q = Some ob''" for q ob''
  proof -
    obtain ob' where "k_objs t q = Some ob'" "o_body ob'' = o_body ob'" "o_id ob'' = o_id ob'" "o_refs ob'' \<le> o_refs ob'"
      using frame_objD [OF assms(2) h] by blast
    with frame_objD [OF assms(1) h(1)] show ?thesis by fastforce
  qed
  moreover have "k_objs u q = Some ob" if "q \<notin> X" "k_objs s q = Some ob" "o_refs ob \<le> 0" for q ob
    using frame_deadD [OF assms(2) that(1) frame_deadD [OF assms(1) that]] that by simp
  moreover have "k_chans u c = k_chans s c" if "k_chans u c \<noteq> None" for c
    using assms that unfolding frame_def by metis
  ultimately show ?thesis using assms unfolding frame_def by auto
qed

lemma frame_mono: "frame X s t \<Longrightarrow> X \<subseteq> Y \<Longrightarrow> frame Y s t"
  unfolding frame_def by blast

lemma frame_fields:
  assumes "k_next t = k_next s" "k_tasks t = k_tasks s" "k_cpus t = k_cpus s" "k_self t = k_self s"
    "k_locked t = k_locked s" "k_tick t = k_tick s" "k_init t = k_init s" "set (k_global t) \<subseteq> set (k_global s)"
    "k_objs t = k_objs s" "k_chans t = k_chans s"
  shows "frame X s t"
  using assms unfolding frame_def by (auto simp: rc_def)

lemma frame_put: "o_refs ob \<le> 0 \<Longrightarrow> frame {p} s (kput p ob s)"
  by (auto simp: frame_def kput_def rc_def split: if_splits)

text \<open>The number of objects that are referenced bounds how deep a release can recurse.\<close>

definition live :: "kst \<Rightarrow> nat" where
  "live s = card {q. q < k_next s \<and> 0 < rc s q}"

lemma live_frame: "frame X s t \<Longrightarrow> live t \<le> live s"
  unfolding live_def frame_def by (intro card_mono) auto

lemma live_bound: "live s \<le> k_next s"
  unfolding live_def using card_mono [of "{..<k_next s}" "{q. q < k_next s \<and> 0 < rc s q}"] by auto

lemma live_drop:
  assumes "frame {p} s t" "0 < rc s p" "p < k_next s" "rc t p = 0"
  shows "live t < live s"
proof -
  have "{q. q < k_next t \<and> 0 < rc t q} \<subseteq> {q. q < k_next s \<and> 0 < rc s q} - {p}"
    using assms by (auto simp: frame_def)
  then have "live t \<le> card ({q. q < k_next s \<and> 0 < rc s q} - {p})" unfolding live_def by (intro card_mono) auto
  also have "\<dots> < live s" unfolding live_def using assms by (intro card_Diff1_less) auto
  finally show ?thesis .
qed

text \<open>When the object that was being destroyed is gone, nothing is excepted any more.\<close>

lemma frame_gone:
  assumes "frame {p} s t" "k_objs t p = None" "k_objs s p = None \<or> (\<exists>ob. k_objs s p = Some ob \<and> 0 < o_refs ob)"
  shows "frame {} s t"
proof -
  have "\<exists>ob. k_objs s q = Some ob \<and> o_body ob' = o_body ob \<and> o_id ob' = o_id ob \<and> o_refs ob' \<le> o_refs ob"
    if h: "k_objs t q = Some ob'" for q ob'
    using h assms(2) by (intro frame_objD [OF assms(1)]) auto
  moreover have "k_objs t q = Some ob" if "k_objs s q = Some ob" "o_refs ob \<le> 0" for q ob
    using that assms(3) by (intro frame_deadD [OF assms(1)]) auto
  ultimately show ?thesis using assms(1) unfolding frame_def by auto
qed

section \<open>References on their way out\<close>

text \<open>
  \<open>domain_remove\<close> and \<open>space_unmap\<close> release the reference of a slot or a mapping before they clear
  the slot or drop the mapping. While the reference is being released the invariant holds of the
  state as it will be afterwards: \<open>ovr v b s\<close> is \<open>s\<close> with the contents of the object \<open>v\<close> replaced by
  \<open>b\<close>. The caller owns a reference to \<open>v\<close>, so that \<open>v\<close> is not destroyed meanwhile. With no object
  at \<open>v\<close> the state is as it is.
\<close>

definition ovr :: "ptr \<Rightarrow> kbody \<Rightarrow> kst \<Rightarrow> kst" where
  "ovr v b s = s\<lparr>k_objs := (k_objs s)(v := map_option (\<lambda>ob. ob\<lparr>o_body := b\<rparr>) (k_objs s v))\<rparr>"

lemma ovr_fields [simp]:
  "k_next (ovr v b s) = k_next s" "k_chans (ovr v b s) = k_chans s" "k_tasks (ovr v b s) = k_tasks s"
  "k_global (ovr v b s) = k_global s" "k_cpus (ovr v b s) = k_cpus s" "k_self (ovr v b s) = k_self s"
  by (simp_all add: ovr_def)

lemma ovr_other: "x \<noteq> v \<Longrightarrow> k_objs (ovr v b s) x = k_objs s x"
  by (simp add: ovr_def)

lemma ovr_self: "k_objs (ovr v b s) v = map_option (\<lambda>ob. ob\<lparr>o_body := b\<rparr>) (k_objs s v)"
  by (simp add: ovr_def)

lemma ovr_rc: "rc (ovr v b s) = rc s"
  by (auto simp: rc_def ovr_def fun_eq_iff split: option.split)

lemma ovr_none: "k_objs s v = None \<Longrightarrow> ovr v b s = s"
  by (simp add: ovr_def fun_upd_idem)

lemma ovr_put: "x \<noteq> v \<Longrightarrow> ovr v b (kput x ob s) = kput x ob (ovr v b s)"
  by (simp add: ovr_def kput_def fun_upd_twist)

lemma ovr_update: "ovr v b (s\<lparr>k_vmm := m\<rparr>) = (ovr v b s)\<lparr>k_vmm := m\<rparr>"
  by (simp add: ovr_def)

text \<open>
  The condition on the object whose contents are replaced: something outside it keeps it alive, a
  reference the caller owns, or a task of the task list whose space or domain it is.
\<close>

definition anchored :: "ptr \<Rightarrow> kst \<Rightarrow> bool" where
  "anchored v s \<longleftrightarrow> (\<exists>q ob tk. q \<noteq> v \<and> q \<in> set (k_tasks s) \<and> k_objs s q = Some ob \<and> o_body ob = KTask tk \<and>
     (task_space tk = v \<or> task_domain tk = v))"

definition pinned :: "ptr \<Rightarrow> (ptr \<Rightarrow> nat) \<Rightarrow> kst \<Rightarrow> bool" where
  "pinned v d s \<longleftrightarrow> k_objs s v = None \<or> 0 < d v \<or> anchored v s"

lemma anchored_holders:
  assumes inv: "kinv (ovr v b s) d" and "anchored v s"
  shows "0 < holders (ovr v b s) v"
proof -
  from assms(2) obtain q ob tk where q: "q \<noteq> v" "q \<in> set (k_tasks s)" "k_objs s q = Some ob" "o_body ob = KTask tk"
    "task_space tk = v \<or> task_domain tk = v" unfolding anchored_def by blast
  have qo: "k_objs (ovr v b s) q = Some ob" using q by (simp add: ovr_other)
  have "0 < rc s q" using kinv_tasks_live [OF inv, of q] q(2) by (simp add: ovr_rc)
  then have "0 < obj_held ob v" using q by (auto simp: rc_def obj_held_def)
  moreover have "obj_held ob v \<le> holders (ovr v b s) v"
    by (rule held_by_object [OF store_bound [OF kinv_store [OF inv] qo] qo])
  ultimately show ?thesis by linarith
qed

lemma pinned_count:
  assumes "kinv (ovr v b s) d" "pinned v d s" "k_objs s v \<noteq> None"
  shows "0 < holders (ovr v b s) v + d v"
  using assms anchored_holders [OF assms(1)] by (auto simp: pinned_def)

lemma pinned_live:
  assumes "kinv (ovr v b s) d" "pinned v d s" "k_objs s x = Some ob" "o_refs ob = 0"
  shows "x \<noteq> v"
proof
  assume "x = v"
  with assms have "0 < holders (ovr v b s) v + d v" "rc s v = 0"
    using pinned_count [OF assms(1,2)] by (auto simp: rc_def)
  with kinv_count [OF assms(1), of v] show False by (simp add: ovr_rc)
qed

lemma anchored_frame:
  assumes a: "anchored v s" and fr: "frame X s t" and X: "\<forall>x\<in>X. rc t x = 0" and inv: "kinv (ovr v b t) d'"
  shows "anchored v t"
proof -
  from a obtain q ob tk where q: "q \<noteq> v" "q \<in> set (k_tasks s)" "k_objs s q = Some ob" "o_body ob = KTask tk"
    "task_space tk = v \<or> task_domain tk = v" unfolding anchored_def by blast
  have qt: "q \<in> set (k_tasks t)" using q(2) fr by (simp add: frame_def)
  then have "0 < rc t q" using kinv_tasks_live [OF inv, of q] by (simp add: ovr_rc)
  then have "q \<notin> X" "\<exists>ob'. k_objs t q = Some ob'" using X rc_pos [of t q] by auto
  then obtain ob' where ob': "k_objs t q = Some ob'" "q \<notin> X" by blast
  with frame_objD [OF fr ob'(2,1)] q have "o_body ob' = KTask tk" by auto
  with q qt ob' show ?thesis unfolding anchored_def by blast
qed

lemma pinned_frame:
  assumes pin: "pinned v d s" and fr: "frame X s t" and v: "v \<notin> X" and X: "\<forall>x\<in>X. rc t x = 0"
    and inv: "kinv (ovr v b t) d'"
  shows "pinned v d t"
proof -
  have "k_objs t v = None" if "k_objs s v = None"
    using frame_objD [OF fr v] that by (cases "k_objs t v") auto
  with pin anchored_frame [OF _ fr X inv] show ?thesis by (auto simp: pinned_def)
qed

lemma pinned_alive:
  assumes pin: "pinned v d s" "k_objs s v \<noteq> None" and fr: "frame {} s t" and inv: "kinv (ovr v b t) d"
  shows "0 < rc t v"
proof -
  have "0 < d v \<or> anchored v t" using pin anchored_frame [OF _ fr _ inv] by (auto simp: pinned_def)
  then have "0 < holders (ovr v b t) v + d v" using anchored_holders [OF inv] by auto
  with kinv_count [OF inv, of v] have "0 < rc (ovr v b t) v" by linarith
  then show ?thesis by (simp add: ovr_rc)
qed

lemma pinned_mono: "pinned v d s \<Longrightarrow> (\<And>x. d x \<le> d' x) \<Longrightarrow> pinned v d' s"
  unfolding pinned_def by (meson less_le_trans)

section \<open>The contract of releasing a reference\<close>

text \<open>
  What the destructors rely on: releasing a reference that the caller owns never touches memory
  that is not valid, takes that reference out of the caller's account, and leaves everything that
  is still reachable as it was.
\<close>

locale release_contract =
  fixes release :: "ptr option \<Rightarrow> kst \<Rightarrow> fault + kst" and depth :: nat
  assumes release_owned: "kinv (ovr v b s) (plus1 p d) \<Longrightarrow> pinned v d s \<Longrightarrow> live s < depth \<Longrightarrow>
      runs strict (release (Some p) s) (\<lambda>t. kinv (ovr v b t) d \<and> frame {} s t)"
begin

lemma domain_destroy_slot_ok:
  assumes inv: "kinv (ovr v b s) (\<lambda>p. d p + slots_held tb i p)" and pin: "pinned v d s"
    and deep: "live s < depth" and self: "k_objs s self = Some ob" "o_refs ob = 0"
    and body: "o_body ob = KDomain tb" and i: "i < slot_cap tb"
  shows "runs strict (domain_destroy_slot release self i s) (\<lambda>t. \<exists>tb'. frame {self} s t \<and>
     k_objs t self = Some (ob\<lparr>o_body := KDomain tb'\<rparr>) \<and> slot_cap tb' = slot_cap tb \<and>
     kinv (ovr v b t) (\<lambda>p. d p + slots_held tb' (Suc i) p))"
proof -
  have sv: "self \<noteq> v" using pinned_live [OF inv pinned_mono [OF pin] self] by simp
  have wf: "slot_inv tb" "\<forall>j. slot_lookup tb j \<noteq> Some None"
    using store_obj(2) [OF kinv_store [OF inv], of self ob] self(1) sv body by (simp_all add: ovr_other)
  have split: "slots_held tb i p = of_bool (slot_lookup tb i = Some (Some p)) + slots_held tb (Suc i) p" for p
    using i unfolding slots_held_def by (rule sum.atLeast_Suc_lessThan)
  show ?thesis
  proof (cases "slot_valid_impl tb (int i)")
    case False
    then have "slot_lookup tb i = None" by (simp add: slot_lookup_def)
    then have "kinv (ovr v b s) (\<lambda>p. d p + slots_held tb (Suc i) p)" using inv by (simp add: split)
    then show ?thesis
      using False self(1) body
      by (simp add: domain_destroy_slot_def get_simps [OF self(1)] frame_refl) (intro exI [of _ tb], simp)
  next
    case True
    then obtain q where q: "slot_data tb ! i = Some q"
      using wf(2) by (auto simp: slot_lookup_def) (metis not_None_eq)
    then have look: "slot_lookup tb i = Some (Some q)" using True by (simp add: slot_lookup_def)
    have inv': "kinv (ovr v b s) (plus1 q (\<lambda>p. d p + slots_held tb (Suc i) p))"
      using inv by (rule kinv_weaken) (simp add: split look plus1_def)
    have at: "slot_at tb i = Inr (Some q)" using q i by (simp add: slot_at_def)
    have step: "runs strict (sbind (get_domain self t) (\<lambda>d. sbind (slot_release_impl d (int i)) (\<lambda>d. kbody self (KDomain d) t)))
        (\<lambda>u. \<exists>tb'. frame {self} s u \<and> k_objs u self = Some (ob\<lparr>o_body := KDomain tb'\<rparr>) \<and>
          slot_cap tb' = slot_cap tb \<and> kinv (ovr v b u) (\<lambda>p. d p + slots_held tb' (Suc i) p))"
      if t: "kinv (ovr v b t) (\<lambda>p. d p + slots_held tb (Suc i) p)" "frame {} s t" for t
    proof -
      have self': "k_objs t self = Some ob" using frame_deadD [OF t(2) _ self(1)] self(2) by simp
      have selfo: "k_objs (ovr v b t) self = Some ob" using self' sv by (simp add: ovr_other)
      obtain tb' where rel: "slot_release_impl tb (int i) = Inr tb'" "slot_inv tb'"
        "slot_lookup tb' = (slot_lookup tb)(i := None)" "slot_cap tb' = slot_cap tb"
        using slot_release_lookup [OF wf(1) True] by blast
      have held: "slots_held tb' (Suc i) p = slots_held tb (Suc i) p" for p
        unfolding slots_held_def rel(4) by (rule sum.cong) (auto simp: rel(3))
      let ?ob = "ob\<lparr>o_body := KDomain tb'\<rparr>"
      have "kinv (kput self ?ob (ovr v b t)) (\<lambda>p. d p + slots_held tb' (Suc i) p)"
        by (rule kinv_update_obj [OF t(1) selfo, where ob' = ?ob])
          (use kinv_store [OF t(1)] self(2) rel wf selfo body in
            \<open>auto simp: kput_def held obj_held_def o_type_def same_channel_def store_ok_def rc_def\<close>)
      moreover have "frame {self} s (kput self ?ob t)"
        by (rule frame_trans [OF frame_mono [OF t(2)] frame_put]) (use self(2) in auto)
      ultimately show ?thesis
        using self' body rel sv by (auto simp: get_simps [OF self'] ovr_put) (auto simp: kput_def)
    qed
    show ?thesis
      using True at
      by (simp add: domain_destroy_slot_def get_simps [OF self(1)] body)
        (rule runs_mono [OF release_owned [OF inv' pinned_mono [OF pin] deep]], use step in auto)
  qed
qed

lemma domain_destroy_loop_ok:
  assumes "kinv (ovr v b s) (\<lambda>p. d p + slots_held tb i p)" and "pinned v d s"
    and "k_objs s self = Some ob" "o_refs ob = 0" and "o_body ob = KDomain tb" and "i \<le> slot_cap tb" and "live s < depth"
  shows "runs strict (for_each (domain_destroy_slot release self) [i..<slot_cap tb] s)
     (\<lambda>t. kinv (ovr v b t) d \<and> frame {self} s t \<and> (\<exists>c. k_objs t self = Some (ob\<lparr>o_body := c\<rparr>)))"
  using assms
proof (induction "slot_cap tb - i" arbitrary: i s tb ob)
  case 0
  then have "i = slot_cap tb" by simp
  with 0 show ?case
    by (simp add: slots_held_def frame_refl) (metis kobj.surjective kobj.update_convs(3))
next
  case (Suc n)
  from Suc.hyps(2) have i: "i < slot_cap tb" by simp
  have sv: "self \<noteq> v" using pinned_live [OF Suc.prems(1) pinned_mono [OF Suc.prems(2)] Suc.prems(3,4)] by simp
  have "runs strict (for_each (domain_destroy_slot release self) [Suc i..<slot_cap tb] t)
      (\<lambda>u. kinv (ovr v b u) d \<and> frame {self} s u \<and> (\<exists>c. k_objs u self = Some (ob\<lparr>o_body := c\<rparr>)))"
    if t: "frame {self} s t" "k_objs t self = Some (ob\<lparr>o_body := KDomain tb'\<rparr>)" "slot_cap tb' = slot_cap tb"
      "kinv (ovr v b t) (\<lambda>p. d p + slots_held tb' (Suc i) p)" for t tb'
  proof -
    have "pinned v d t" using pinned_frame [OF Suc.prems(2) t(1) _ _ t(4)] sv t(2) Suc.prems by (simp add: rc_def)
    then have "runs strict (for_each (domain_destroy_slot release self) [Suc i..<slot_cap tb'] t)
      (\<lambda>u. kinv (ovr v b u) d \<and> frame {self} t u \<and> (\<exists>c. k_objs u self = Some (ob\<lparr>o_body := KDomain tb', o_body := c\<rparr>)))"
      using Suc.hyps i t Suc.prems(4,7) live_frame [OF t(1)] by (intro Suc.hyps(1)) auto
    then show ?thesis
      unfolding t(3) by (rule runs_mono) (use t(1) frame_trans in auto)
  qed
  then show ?case
    unfolding upt_conv_Cons [OF i]
    by (simp, intro runs_mono [OF domain_destroy_slot_ok [OF Suc.prems(1,2,7,3-5) i]]) auto
qed

text \<open>The last step of every destructor.\<close>

lemma destroy_finish:
  assumes "kinv (ovr v b t) d" "pinned v d t" "frame {self} s t" "k_objs t self = Some ob" "o_refs ob = 0"
  shows "kinv (ovr v b (kfree self t)) d \<and> frame {self} s (kfree self t) \<and> k_objs (kfree self t) self = None"
proof -
  have sv: "self \<noteq> v" using pinned_live [OF assms(1,2,4,5)] .
  have o: "ovr v b (kfree self t) = kfree self (ovr v b t)"
    using sv by (simp add: ovr_def kfree_def fun_upd_twist)
  have "k_objs (ovr v b t) self = Some ob" using assms(4) sv by (simp add: ovr_other)
  then have "kinv (kfree self (ovr v b t)) d"
    by (rule kinv_free [OF assms(1)]) (simp_all add: kfree_def assms(5))
  moreover have "frame {self} t (kfree self t)" by (auto simp: frame_def kfree_def rc_def split: if_splits)
  ultimately show ?thesis using frame_trans [OF assms(3)] o by (auto simp: kfree_def)
qed

lemma domain_destroy_ok:
  assumes "kinv (ovr v b s) (\<lambda>p. d p + slots_held tb 0 p)" and "pinned v d s"
    and "k_objs s self = Some ob" "o_refs ob = 0" and "o_body ob = KDomain tb" and "live s < depth"
  shows "runs strict (domain_destroy release self s)
     (\<lambda>t. kinv (ovr v b t) d \<and> frame {self} s t \<and> k_objs t self = None)"
proof -
  have sv: "self \<noteq> v" using pinned_live [OF assms(1) pinned_mono [OF assms(2)] assms(3,4)] by simp
  show ?thesis
    using assms(5) by (simp add: domain_destroy_def get_simps [OF assms(3)] slot_count_def)
      (rule runs_mono [OF domain_destroy_loop_ok [OF assms(1-5) _ assms(6)]],
        use destroy_finish pinned_frame [OF assms(2)] sv assms(4) in \<open>auto simp: rc_def\<close>)
qed

end

context release_contract
begin

lemma mmaps_held_splice:
  assumes "i < length ms"
  shows "mmaps_held ms p = of_bool (mm_object (ms ! i) = p) + mmaps_held (list_splice i 1 ms) p"
proof -
  have "mmaps_held ms p = mmaps_held (take i ms @ ms ! i # drop (Suc i) ms) p"
    using assms by (simp add: id_take_nth_drop [symmetric])
  then show ?thesis by (simp add: mmaps_held_def list_splice_def)
qed

lemma kinv_vmm: "kinv (ovr v b (s\<lparr>k_vmm := m\<rparr>)) d = kinv (ovr v b s) d"
  by (rule kinv_cong) (simp_all add: ovr_def)

lemma live_vmm: "live (s\<lparr>k_vmm := m\<rparr>) = live s"
  by (simp add: live_def rc_def)

lemma pinned_vmm: "pinned v d (s\<lparr>k_vmm := m\<rparr>) = pinned v d s"
  by (simp add: pinned_def anchored_def)

lemma frame_vmm: "frame X s (t\<lparr>k_vmm := m\<rparr>) = frame X s t"
  by (simp add: frame_def rc_def)

lemma frame_vmm': "frame X (s\<lparr>k_vmm := m\<rparr>) t = frame X s t"
  by (simp add: frame_def rc_def)

lemmas vmm_simps = kinv_vmm live_vmm pinned_vmm frame_vmm frame_vmm'

lemma space_mmap_destroy_ok:
  assumes inv: "kinv (ovr v b s) (\<lambda>p. d p + mmaps_held (space_mmaps sp) p)" and pin: "pinned v d s"
    and deep: "live s < depth" and self: "k_objs s self = Some ob" "o_refs ob = 0"
    and body: "o_body ob = KSpace sp" and i: "i < length (space_mmaps sp)"
  shows "runs strict (space_mmap_destroy release self i s) (\<lambda>t. \<exists>sp'. frame {self} s t \<and>
     k_objs t self = Some (ob\<lparr>o_body := KSpace sp'\<rparr>) \<and> length (space_mmaps sp') < length (space_mmaps sp) \<and>
     kinv (ovr v b t) (\<lambda>p. d p + mmaps_held (space_mmaps sp') p))"
proof -
  let ?ms = "list_splice i 1 (space_mmaps sp)"
  let ?sp = "sp\<lparr>space_mmaps := ?ms\<rparr>"
  let ?ob = "ob\<lparr>o_body := KSpace ?sp\<rparr>"
  let ?q = "mm_object (space_mmaps sp ! i)"
  have sv: "self \<noteq> v" using pinned_live [OF inv pinned_mono [OF pin] self] by simp
  have inv': "kinv (ovr v b s) (plus1 ?q (\<lambda>p. d p + mmaps_held ?ms p))"
    using inv by (rule kinv_weaken) (use mmaps_held_splice [OF i] in \<open>auto simp: plus1_def\<close>)
  have step: "kinv (ovr v b (kput self ?ob t)) (\<lambda>p. d p + mmaps_held ?ms p) \<and> frame {self} s (kput self ?ob t) \<and>
       k_objs t self = Some ob"
    if t: "kinv (ovr v b t) (\<lambda>p. d p + mmaps_held ?ms p)" "frame {} s t" for t
  proof -
    have self': "k_objs t self = Some ob" using frame_deadD [OF t(2) _ self(1)] self(2) by simp
    then have selfo: "k_objs (ovr v b t) self = Some ob" using sv by (simp add: ovr_other)
    have "kinv (kput self ?ob (ovr v b t)) (\<lambda>p. d p + mmaps_held ?ms p)"
      by (rule kinv_update_obj [OF t(1) selfo, where ob' = ?ob])
        (use kinv_store [OF t(1)] self(2) selfo body in
          \<open>auto simp: kput_def obj_held_def o_type_def same_channel_def store_ok_def rc_def\<close>)
    moreover have "frame {self} s (kput self ?ob t)"
      by (rule frame_trans [OF frame_mono [OF t(2)] frame_put]) (use self(2) in auto)
    ultimately show ?thesis using self' sv by (simp add: ovr_put)
  qed
  have "runs strict (sbind (release (Some ?q) (s\<lparr>k_vmm := m\<rparr>)) (\<lambda>s. sbind (get_space self s) (\<lambda>sp.
       sbind (kbody self (KSpace (sp\<lparr>space_mmaps := list_splice i 1 (space_mmaps sp)\<rparr>)) s) (\<lambda>s.
       Inr (s\<lparr>k_vmm := snd (vmm_flush (space_vmm sp) r (k_vmm s))\<rparr>)))))
     (\<lambda>t. \<exists>sp'. frame {self} s t \<and>
     k_objs t self = Some (ob\<lparr>o_body := KSpace sp'\<rparr>) \<and> length (space_mmaps sp') < length (space_mmaps sp) \<and>
     kinv (ovr v b t) (\<lambda>p. d p + mmaps_held (space_mmaps sp') p))" for m r
    unfolding runs_sbind
  proof (rule runs_mono [OF release_owned [of v b _ ?q "\<lambda>p. d p + mmaps_held ?ms p"]])
    fix t assume "kinv (ovr v b t) (\<lambda>p. d p + mmaps_held ?ms p) \<and> frame {} (s\<lparr>k_vmm := m\<rparr>) t"
    then have t: "kinv (ovr v b t) (\<lambda>p. d p + mmaps_held ?ms p)" "frame {} s t" by (simp_all add: vmm_simps)
    note st = step [OF t]
    show "runs strict (get_space self t) (\<lambda>sp'.
        runs strict (kbody self (KSpace (sp'\<lparr>space_mmaps := list_splice i 1 (space_mmaps sp')\<rparr>)) t) (\<lambda>u.
        runs strict (Inr (u\<lparr>k_vmm := snd (vmm_flush (space_vmm sp') r (k_vmm u))\<rparr>)) (\<lambda>t. \<exists>sp'. frame {self} s t \<and>
     k_objs t self = Some (ob\<lparr>o_body := KSpace sp'\<rparr>) \<and> length (space_mmaps sp') < length (space_mmaps sp) \<and>
     kinv (ovr v b t) (\<lambda>p. d p + mmaps_held (space_mmaps sp') p))))"
      using st i body by (simp add: get_simps [of t self ob] vmm_simps)
        (intro exI [of _ ?sp], simp add: kput_def length_list_splice)
  qed (use inv' pinned_mono [OF pin] deep in \<open>simp_all add: vmm_simps\<close>)
  then show ?thesis
    using i body by (simp add: space_mmap_destroy_def get_simps [OF self(1)] not_le Let_def)
      (intro runs_on_vmm runs_intros, simp)
qed

lemma space_destroy_loop_ok:
  assumes "kinv (ovr v b s) (\<lambda>p. d p + mmaps_held (space_mmaps sp) p)" and "pinned v d s"
    and "live s < depth" and "k_objs s self = Some ob" "o_refs ob = 0"
    and "o_body ob = KSpace sp" and "length (space_mmaps sp) < turns"
  shows "runs strict (space_destroy_loop release turns self i s)
     (\<lambda>t. kinv (ovr v b t) d \<and> frame {self} s t \<and> (\<exists>c. k_objs t self = Some (ob\<lparr>o_body := c\<rparr>)))"
  using assms
proof (induction turns arbitrary: i s sp ob)
  case (Suc turns)
  have sv: "self \<noteq> v" using pinned_live [OF Suc.prems(1) pinned_mono [OF Suc.prems(2)] Suc.prems(4,5)] by simp
  show ?case
  proof (cases "i < length (space_mmaps sp)")
    case False
    have "k_objs s self = Some (ob\<lparr>o_body := o_body ob\<rparr>)" using Suc.prems(4) by simp
    moreover have "kinv (ovr v b s) d" by (rule kinv_weaken [OF Suc.prems(1)]) simp
    ultimately show ?thesis
      using False Suc.prems(6) by (auto simp: get_simps [OF Suc.prems(4)] frame_refl)
  next
    case True
    have "runs strict (space_destroy_loop release turns self (i + 1) t)
        (\<lambda>u. kinv (ovr v b u) d \<and> frame {self} s u \<and> (\<exists>c. k_objs u self = Some (ob\<lparr>o_body := c\<rparr>)))"
      if t: "frame {self} s t" "k_objs t self = Some (ob\<lparr>o_body := KSpace sp'\<rparr>)"
        "length (space_mmaps sp') < length (space_mmaps sp)"
        "kinv (ovr v b t) (\<lambda>p. d p + mmaps_held (space_mmaps sp') p)" for t sp'
    proof -
      have "pinned v d t" using pinned_frame [OF Suc.prems(2) t(1) _ _ t(4)] sv t(2) Suc.prems by (simp add: rc_def)
      then have "runs strict (space_destroy_loop release turns self (i + 1) t)
        (\<lambda>u. kinv (ovr v b u) d \<and> frame {self} t u \<and> (\<exists>c. k_objs u self = Some (ob\<lparr>o_body := KSpace sp', o_body := c\<rparr>)))"
        using t Suc.prems(3,5,7) live_frame [OF t(1)] by (intro Suc.IH) auto
      then show ?thesis by (rule runs_mono) (use t(1) frame_trans in auto)
    qed
    then show ?thesis
      using True Suc.prems(6)
      by (simp add: get_simps [OF Suc.prems(4)])
        (intro runs_mono [OF space_mmap_destroy_ok [OF Suc.prems(1-6) True]], auto)
  qed
qed simp

lemma space_destroy_ok:
  assumes "kinv (ovr v b s) (\<lambda>p. d p + mmaps_held (space_mmaps sp) p)" and "pinned v d s"
    and "live s < depth" and "k_objs s self = Some ob" "o_refs ob = 0" and "o_body ob = KSpace sp"
  shows "runs strict (space_destroy release self s)
     (\<lambda>t. kinv (ovr v b t) d \<and> frame {self} s t \<and> k_objs t self = None)"
proof -
  have sv: "self \<noteq> v" using pinned_live [OF assms(1) pinned_mono [OF assms(2)] assms(4,5)] by simp
  have fin: "runs strict (vmm_space_destroy (space_vmm sp) (k_vmm t)) (\<lambda>m. kinv (ovr v b (kfree self (t\<lparr>k_vmm := m\<rparr>))) d \<and>
      frame {self} s (kfree self (t\<lparr>k_vmm := m\<rparr>)) \<and> k_objs (kfree self (t\<lparr>k_vmm := m\<rparr>)) self = None)"
    if t: "kinv (ovr v b t) d" "frame {self} s t" "k_objs t self = Some (ob\<lparr>o_body := c\<rparr>)" for t c
    unfolding runs_True_iff [OF runs_vmm_space_destroy]
    using destroy_finish [of v b _ d self s] t pinned_frame [OF assms(2) t(2) _ _ t(1)] sv assms(5) by (simp add: vmm_simps rc_def)
  show ?thesis
    using assms(6) by (simp add: space_destroy_def get_simps [OF assms(4)] del: space_destroy_loop.simps)
      (rule runs_mono [OF space_destroy_loop_ok [OF assms]], use fin in auto)
qed

lemma memory_destroy_ok:
  assumes "kinv (ovr v b s) d" and "pinned v d s"
    and "k_objs s self = Some ob" "o_refs ob = 0" and "o_body ob = KMemory m"
  shows "runs strict (memory_destroy self s) (\<lambda>t. kinv (ovr v b t) d \<and> frame {self} s t \<and> k_objs t self = None)"
proof -
  have fin: "kinv (ovr v b (kfree self t)) d \<and> frame {self} s (kfree self t) \<and> k_objs (kfree self t) self = None"
    if "t = s \<or> (\<exists>w. t = s\<lparr>k_vmm := w\<rparr>)" for t
    using that destroy_finish [of v b t d self s ob] assms by (auto simp: vmm_simps frame_refl)
  have pm: "runs strict (on_pmm f s) (\<lambda>x. kinv (ovr v b (kfree self (snd x))) d \<and> frame {self} s (kfree self (snd x)) \<and>
      k_objs (kfree self (snd x)) self = None)"
    if "\<And>p. runs strict (f p) (\<lambda>_. True)" for f :: "pmm \<Rightarrow> fault + ('a \<times> pmm)"
    using fin that by (intro runs_on_pmm) auto
  show ?thesis
    using assms(5) fin [of s] pm [OF runs_heap_free] pm [OF runs_pmm_unused]
    by (simp add: memory_destroy_def get_simps [OF assms(3)] case_prod_beta split: memory_type.split)
qed

end

context release_contract
begin

lemma task_destroy_finish:
  assumes inv: "kinv (ovr v b t) d" and sv: "self \<noteq> v" and self: "k_objs t self = Some ob" "o_refs ob = 0"
    and body: "o_body ob = KTask tk" and fr: "frame {self} s t"
  shows "runs strict (sbind (channel_destroy (task_channel tk) t) (\<lambda>s. sbind (on_pmm (\<lambda>p. heap_free p r) s)
      (\<lambda>(_, s). Inr (kfree self s)))) (\<lambda>t. kinv (ovr v b t) d \<and> frame {self} s t \<and> k_objs t self = None)"
proof -
  have selfo: "k_objs (ovr v b t) self = Some ob" using self sv by (simp add: ovr_other)
  have "k_chans t (task_channel tk) \<noteq> None"
    using store_obj(2) [OF kinv_store [OF inv] selfo] body by simp
  then obtain c where c: "k_chans t (task_channel tk) = Some c" by blast
  have "kinv (ovr v b (kfree self (t\<lparr>k_chans := (k_chans t)(task_channel tk := None), k_vmm := m\<rparr>))) d" for m
    by (rule kinv_free [OF inv selfo self(2)]) (use sv body in \<open>auto simp: ovr_def kfree_def fun_upd_twist\<close>)
  moreover have "frame {self} s (kfree self (t\<lparr>k_chans := (k_chans t)(task_channel tk := None), k_vmm := m\<rparr>))" for m
    by (rule frame_trans [OF fr]) (auto simp: frame_def kfree_def rc_def split: if_splits)
  ultimately have "runs strict (on_pmm (\<lambda>p. heap_free p r) (t\<lparr>k_chans := (k_chans t)(task_channel tk := None)\<rparr>))
      (\<lambda>x. kinv (ovr v b (kfree self (snd x))) d \<and> frame {self} s (kfree self (snd x)) \<and>
        k_objs (kfree self (snd x)) self = None)"
    by (intro runs_on_pmm runs_heap_free) (simp add: kfree_def)
  then show ?thesis using c by (simp add: channel_destroy_def get_channel_def case_prod_beta)
qed

lemma task_destroy_ok:
  assumes inv: "kinv (ovr v b s) (\<lambda>p. d p + body_held (KTask tk) p)" and pin: "pinned v d s"
    and deep: "live s < depth" and self: "k_objs s self = Some ob" "o_refs ob = 0" and body: "o_body ob = KTask tk"
  shows "runs strict (task_destroy release self s) (\<lambda>t. kinv (ovr v b t) d \<and> frame {self} s t \<and> k_objs t self = None)"
proof -
  let ?s = "snd (event_unbind_all self s)"
  let ?d = "plus1 (task_domain tk) d"
  have sv: "self \<noteq> v" using pinned_live [OF inv pinned_mono [OF pin] self] by simp
  have "kinv (ovr v b s) (plus1 (task_space tk) ?d)"
    by (rule kinv_weaken [OF inv]) (auto simp: plus1_def)
  then have inv1: "kinv (ovr v b ?s) (plus1 (task_space tk) ?d)"
    by (rule iffD1 [OF kinv_cong, rotated -1]) (simp_all add: event_unbind_all_def ovr_def)
  have fr: "frame {} s ?s" by (rule frame_fields) (simp_all add: event_unbind_all_def)
  have pin1: "pinned v ?d ?s" using pinned_mono [OF pin, of ?d] by (simp add: event_unbind_all_def plus1_def pinned_def anchored_def)
  have one: "runs strict (release (Some (task_domain tk)) t) (\<lambda>u. kinv (ovr v b u) d \<and> frame {} s u)"
    if t: "kinv (ovr v b t) ?d \<and> frame {} ?s t" for t
  proof -
    have f: "frame {} s t" using t frame_trans [OF fr] by blast
    have "live t < depth" using live_frame [OF f] deep by simp
    moreover have "pinned v d t" using pinned_frame [OF pin f _ _ conjunct1 [OF t]] by simp
    ultimately show ?thesis using t frame_trans [OF f] by (intro runs_mono [OF release_owned]) auto
  qed
  have fin: "runs strict (sbind (channel_destroy (task_channel tk) t) (\<lambda>s. sbind (on_pmm (\<lambda>p. heap_free p (task_stack tk)) s)
      (\<lambda>(_, s). Inr (kfree self s)))) (\<lambda>t. kinv (ovr v b t) d \<and> frame {self} s t \<and> k_objs t self = None)"
    if t: "kinv (ovr v b t) d" "frame {} s t" for t
    using t frame_deadD [OF t(2) _ self(1)] self(2) body sv frame_mono [OF t(2)]
    by (intro task_destroy_finish) auto
  have "live ?s < depth" using live_frame [OF fr] deep by simp
  with one fin show ?thesis
    using body by (simp add: task_destroy_def get_simps [OF self(1)] Let_def)
      (rule runs_mono [OF release_owned [OF inv1 pin1]], assumption, blast intro: runs_mono)
qed

lemma object_dtor_ok:
  assumes inv: "kinv (ovr v b s) (\<lambda>p. d p + body_held (o_body ob) p)" and pin: "pinned v d s"
    and deep: "live s < depth" and self: "k_objs s self = Some ob" "o_refs ob = 0"
  shows "runs strict (object_dtor release self s) (\<lambda>t. kinv (ovr v b t) d \<and> frame {self} s t \<and> k_objs t self = None)"
proof (cases "o_body ob")
  case (KMemory m)
  then show ?thesis using inv memory_destroy_ok [OF _ pin self] by (simp add: object_dtor_def get_simps [OF self(1)])
next
  case (KDomain tb)
  then show ?thesis using inv domain_destroy_ok [OF _ pin self _ deep] by (simp add: object_dtor_def get_simps [OF self(1)])
next
  case (KSpace sp)
  then show ?thesis using inv space_destroy_ok [OF _ pin deep self] by (simp add: object_dtor_def get_simps [OF self(1)])
next
  case (KTask tk)
  then show ?thesis using inv task_destroy_ok [OF _ pin deep self KTask]
    by (simp add: object_dtor_def get_simps [OF self(1)] del: body_held.simps)
qed

end

section \<open>object\_deref keeps the contract\<close>

lemma deref_count_ok:
  assumes inv: "kinv (ovr v b s) (plus1 p d)" and pin: "pinned v d s" and p: "k_objs s p = Some ob"
    and t: "t = kput p (ob\<lparr>o_refs := o_refs ob - 1\<rparr>) s" and more: "1 < o_refs ob"
  shows "kinv (ovr v b t) d \<and> frame {} s t"
proof -
  obtain obx where po: "k_objs (ovr v b s) p = Some obx" and refs: "o_refs obx = o_refs ob"
    using p by (cases "p = v") (auto simp: ovr_def)
  let ?ob = "obx\<lparr>o_refs := o_refs ob - 1\<rparr>"
  have "k_objs (ovr v b t) x = ((k_objs (ovr v b s))(p \<mapsto> ?ob)) x" for x
    using p po t by (cases "p = v"; cases "x = v"; cases "x = p") (auto simp: ovr_def kput_def)
  then have objs: "k_objs (ovr v b t) = (k_objs (ovr v b s))(p \<mapsto> ?ob)" by auto
  have gl: "k_global t = k_global s" "distinct (k_global s)"
    using t kinv_store [OF inv] by (simp_all add: kput_def store_ok_def)
  have "kinv (ovr v b t) d"
    by (rule kinv_update_obj [OF inv po objs])
      (use more refs gl t store_obj [OF kinv_store [OF inv] po] in
        \<open>simp_all add: kput_def o_type_def same_channel_def obj_held_def plus1_def nat_diff_distrib\<close>)
  moreover have "frame {} s t" using p t more by (auto simp: frame_def kput_def rc_def)
  ultimately show ?thesis by simp
qed

lemma deref_last_ok:
  assumes inv: "kinv (ovr v b s) (plus1 p d)" and pin: "pinned v d s" and p: "k_objs s p = Some ob"
    and t: "t = (kput p (ob\<lparr>o_refs := 0\<rparr>) s)\<lparr>k_global := remove1 p (k_global s)\<rparr>" and last: "o_refs ob = 1"
  shows "kinv (ovr v b t) (\<lambda>x. d x + body_held (o_body ob) x) \<and> frame {p} s t \<and> live t < live s"
proof -
  have "p \<noteq> v"
  proof
    assume "p = v"
    have "kinv (ovr v b s) d" by (rule kinv_weaken [OF inv]) (simp add: plus1_def)
    with \<open>p = v\<close> have "0 < holders (ovr v b s) p + d p" using pinned_count [OF _ pin] p by simp
    moreover have "rc s p = 1" using p last by (simp add: rc_def)
    ultimately show False using kinv_count [OF inv, of p] by (simp add: ovr_rc plus1_def)
  qed
  then have po: "k_objs (ovr v b s) p = Some ob" using p by (simp add: ovr_other)
  have g: "distinct (k_global s)" using kinv_store [OF inv] by (simp add: store_ok_def)
  have "kinv (ovr v b t) (\<lambda>x. d x + body_held (o_body ob) x)"
    by (rule kinv_update_obj [OF inv po, where ob' = "ob\<lparr>o_refs := 0\<rparr>"])
      (use last t \<open>p \<noteq> v\<close> g store_obj [OF kinv_store [OF inv] po] in
        \<open>auto simp: ovr_def kput_def o_type_def same_channel_def obj_held_def plus1_def fun_upd_twist\<close>)
  moreover have fr: "frame {p} s t" using p t last set_remove1_subset [of p "k_global s"]
    by (auto simp: frame_def kput_def rc_def split: if_splits)
  moreover have "p < k_next s" using store_bound [OF kinv_store [OF inv] po] by simp
  then have "live t < live s" using p last t by (intro live_drop [OF fr]) (auto simp: rc_def kput_def)
  ultimately show ?thesis by simp
qed

lemma object_deref_contract: "release_contract (object_deref n) n"
proof (induction n)
  case 0
  show ?case by unfold_locales simp
next
  case (Suc n)
  show ?case
  proof
    fix v b s p d strict
    assume h: "kinv (ovr v b s) (plus1 p d)" "pinned v d s" "live s < Suc n"
    obtain obx where "k_objs (ovr v b s) p = Some obx" "0 < o_refs obx"
      using kinv_live [OF h(1), of p] by (auto simp: plus1_def)
    then obtain ob where ob: "k_objs s p = Some ob" "0 < o_refs ob"
      by (cases "p = v") (auto simp: ovr_def)
    have "k_objs s p = None \<or> (\<exists>ob. k_objs s p = Some ob \<and> 0 < o_refs ob)" using ob by simp
    note gone = frame_gone [OF _ _ this]
    let ?s = "kput p (ob\<lparr>o_refs := o_refs ob - 1\<rparr>) s"
    let ?t = "?s\<lparr>k_global := remove1 p (k_global ?s)\<rparr>"
    show "runs strict (object_deref (Suc n) (Some p) s) (\<lambda>t. kinv (ovr v b t) d \<and> frame {} s t)"
    proof (cases "o_refs ob = 1")
      case True
      then have t: "?t = (kput p (ob\<lparr>o_refs := 0\<rparr>) s)\<lparr>k_global := remove1 p (k_global s)\<rparr>" by (simp add: kput_def)
      note last = deref_last_ok [OF h(1,2) ob(1) t True]
      have "anchored v ?t" if "anchored v s"
        using that ob(1) unfolding anchored_def by (auto simp: kput_def)
      then have "pinned v d ?t" using h(2) ob(1) by (auto simp: pinned_def kput_def split: if_splits)
      then have "runs strict (object_dtor (object_deref n) p ?t)
          (\<lambda>u. kinv (ovr v b u) d \<and> frame {p} ?t u \<and> k_objs u p = None)"
        using last h(3) True by (intro release_contract.object_dtor_ok [OF Suc.IH,
          where ob = "ob\<lparr>o_refs := 0\<rparr>"]) (auto simp: kput_def)
      then have "runs strict (object_dtor (object_deref n) p ?t) (\<lambda>u. kinv (ovr v b u) d \<and> frame {} s u)"
        by (rule runs_mono) (use gone frame_trans last in blast)
      then show ?thesis using True by (simp add: get_simps [OF ob(1)] Let_def refcount_deref_def)
    next
      case False
      with ob(2) show ?thesis using deref_count_ok [OF h(1,2) ob(1) refl] by (simp add: get_simps [OF ob(1)] refcount_deref_def)
    qed
  qed
qed

text \<open>The kernel starts a release with more fuel than it has addresses, which is always enough.\<close>

interpretation kd: release_contract kobject_deref n for n
proof
  fix v b s p d strict
  assume "kinv (ovr v b s) (plus1 p d)" "pinned v d s"
  then show "runs strict (kobject_deref (Some p) s) (\<lambda>t. kinv (ovr v b t) d \<and> frame {} s t)"
    unfolding kobject_deref_def using live_bound [of s]
    by (intro release_contract.release_owned [OF object_deref_contract]) auto
qed

end
