(* ===== verification/Channels.thy ===== *)
theory Channels
  imports Objects
begin

text \<open>
  Messages in flight: \<open>kernel/parcel.c\<close>, which turns the handles of a message into counted object
  references and back, and the part of \<open>kernel/channel.c\<close> that works on the ring buffer of a
  channel. A parcel owns one reference to each object in it. The blocking operations, which
  need the scheduler, are in theory Ipc.
\<close>

section \<open>parcel.c\<close>

definition parcel_deinit_obj :: "parcel \<Rightarrow> nat \<Rightarrow> kst \<Rightarrow> fault + kst" where
  "parcel_deinit_obj self i s =
     (if parcel_objs self ! i \<noteq> None then kobject_deref (parcel_objs self ! i) s else Inr s)"

definition parcel_deinit :: "parcel \<Rightarrow> kst \<Rightarrow> fault + kst" where
  "parcel_deinit self s = for_each (parcel_deinit_obj self) [0..<BR_MSG_ARG_COUNT] s"

fun parcel_pack_from :: "ptr \<Rightarrow> br_msg \<Rightarrow> nat list \<Rightarrow> parcel \<Rightarrow> kst \<Rightarrow> fault + (br_result \<times> parcel \<times> kst)" where
  "parcel_pack_from domain msg [] self s = Inr (BR_SUCCESS, self, s)"
| "parcel_pack_from domain msg (i # is) self s =
     (if msg_flags msg AND BR_MSG_HND i \<noteq> 0
      then sbind (domain_lookup domain (msg_args msg ! i) BR_OBJECT_ANY s) (\<lambda>(po, s).
           let self = self\<lparr>parcel_objs := (parcel_objs self)[i := po]\<rparr> in
           case po of
             None \<Rightarrow> sbind (parcel_deinit self s) (\<lambda>s. Inr (BR_BAD_HANDLE, self, s))
           | Some _ \<Rightarrow> parcel_pack_from domain msg is self s)
      else parcel_pack_from domain msg is self s)"

definition parcel_pack :: "parcel \<Rightarrow> br_msg \<Rightarrow> ptr option \<Rightarrow> kst \<Rightarrow> fault + (br_result \<times> parcel \<times> kst)" where
  "parcel_pack self msg domain s =
     (let self = self\<lparr>parcel_msg := msg\<rparr> in
      case domain of
        None \<Rightarrow> Inr (BR_SUCCESS, self, s)
      | Some d \<Rightarrow> parcel_pack_from d msg [0..<BR_MSG_ARG_COUNT] self s)"

definition parcel_unpack_obj :: "parcel \<Rightarrow> ptr \<Rightarrow> nat \<Rightarrow> br_msg \<times> kst \<Rightarrow> fault + (br_msg \<times> kst)" where
  "parcel_unpack_obj self domain i = (\<lambda>(msg, s).
     case parcel_objs self ! i of
       None \<Rightarrow> Inr (msg, s)
     | Some object \<Rightarrow>
         sbind (domain_add domain object s) (\<lambda>(handle, s).
         Inr (msg\<lparr>msg_args := (msg_args msg)[i := handle]\<rparr>, s)))"

definition parcel_unpack :: "parcel \<Rightarrow> ptr option \<Rightarrow> kst \<Rightarrow> fault + (br_result \<times> br_msg \<times> kst)" where
  "parcel_unpack self domain s =
     (let msg = parcel_msg self in
      case domain of
        None \<Rightarrow> sbind (parcel_deinit self s) (\<lambda>s. Inr (BR_SUCCESS, msg, s))
      | Some d \<Rightarrow>
          sbind (for_each (parcel_unpack_obj self d) [0..<BR_MSG_ARG_COUNT] (msg, s)) (\<lambda>(msg, s).
          sbind (parcel_deinit self s) (\<lambda>s. Inr (BR_SUCCESS, msg, s))))"

section \<open>channel.c\<close>

definition channel_send_unlock :: "ptr \<Rightarrow> ptr option \<Rightarrow> br_msg \<Rightarrow> kst \<Rightarrow> fault + (br_result \<times> kst)" where
  "channel_send_unlock self domain msg s =
     sbind (get_channel self s) (\<lambda>r.
     if ring_full r then Inr (BR_CHANNEL_FULL, s)
     else
       sbind (parcel_pack zero_parcel msg domain s) (\<lambda>(res, parcel, s).
       if res \<noteq> BR_SUCCESS then Inr (res, s)
       else
         sbind (get_channel self s) (\<lambda>r.
         Inr (BR_SUCCESS, put_channel self (snd (ring_push_impl r parcel)) s))))"

definition channel_recv_unlock :: "ptr \<Rightarrow> ptr option \<Rightarrow> br_msg \<Rightarrow> kst \<Rightarrow> fault + (br_result \<times> br_msg \<times> kst)" where
  "channel_recv_unlock self domain msg s =
     sbind (get_channel self s) (\<lambda>r.
     if \<not> ring_any r then Inr (BR_CHANNEL_EMPTY, msg, s)
     else
       let (popped, r) = ring_pop_impl r;
           parcel = (case popped of None \<Rightarrow> zero_parcel | Some p \<Rightarrow> p)
       in parcel_unpack parcel domain (put_channel self r s))"

text \<open>
  The functions a blocked task waits on. They run with the operation's own record and write its
  result and message; when the channel's lock is taken they report that they have to be tried
  again.
\<close>

definition channel_wait_send :: "channel_op \<Rightarrow> kst \<Rightarrow> fault + (bool \<times> channel_op \<times> kst)" where
  "channel_wait_send op s =
     (if k_locked s (op_channel op) then Inr (False, op, s)
      else
        sbind (channel_send_unlock (op_channel op) (op_domain op) (op_msg op) s) (\<lambda>(res, s).
        Inr (res \<noteq> BR_CHANNEL_FULL, op\<lparr>op_result := res\<rparr>, s)))"

definition channel_wait_recv :: "channel_op \<Rightarrow> kst \<Rightarrow> fault + (bool \<times> channel_op \<times> kst)" where
  "channel_wait_recv op s =
     (if k_locked s (op_channel op) then Inr (False, op, s)
      else
        sbind (channel_recv_unlock (op_channel op) (op_domain op) (op_msg op) s) (\<lambda>(res, msg, s).
        Inr (res \<noteq> BR_CHANNEL_EMPTY, op\<lparr>op_result := res, op_msg := msg\<rparr>, s)))"

definition channel_send_non_blocking :: "ptr \<Rightarrow> ptr option \<Rightarrow> br_msg \<Rightarrow> kst \<Rightarrow> fault + (br_result \<times> kst)" where
  "channel_send_non_blocking self domain msg s = channel_send_unlock self domain msg s"

definition channel_recv_non_blocking :: "ptr \<Rightarrow> ptr option \<Rightarrow> br_msg \<Rightarrow> kst \<Rightarrow> fault + (br_result \<times> br_msg \<times> kst)" where
  "channel_recv_non_blocking self domain msg s = channel_recv_unlock self domain msg s"

end
