(* ===== verification/Sched.thy ===== *)
theory Sched
  imports Channels
begin

text \<open>
  The scheduler, \<open>kernel/sched.c\<close>, with the parts of \<open>kernel/cpu.h\<close>, \<open>kernel/task.c\<close> and
  \<open>kernel/x86_64/context.c\<close> it works on. \<open>sched_yield\<close> ends in \<open>arch_yield\<close>, a software
  interrupt that returns when the task is next given a processor; what happens until then is the
  argument \<open>arch_yield\<close> of the operations that can get there.
\<close>

section \<open>Contexts\<close>

definition GDT_KERNEL_CODE :: u64 where "GDT_KERNEL_CODE = 1"
definition GDT_KERNEL_DATA :: u64 where "GDT_KERNEL_DATA = 2"
definition GDT_USER_DATA :: u64 where "GDT_USER_DATA = 3"
definition GDT_USER_CODE :: u64 where "GDT_USER_CODE = 4"
definition GDT_RING_3 :: u64 where "GDT_RING_3 = 3"
definition RFLAGS_RESERVED1_ONE :: u64 where "RFLAGS_RESERVED1_ONE = 0x2"
definition RFLAGS_INTERRUPT_ENABLE :: u64 where "RFLAGS_INTERRUPT_ENABLE = 0x200"

definition context_start :: "kcontext \<Rightarrow> u64 \<Rightarrow> u64 \<Rightarrow> u64 \<Rightarrow> br_task_args \<Rightarrow> u64 \<Rightarrow> kcontext" where
  "context_start self ip sp ksp args flags =
     (let user = (flags AND BR_TASK_USER \<noteq> 0) in
      self\<lparr>ctx_regs := zero_regs\<lparr>reg_rip := ip,
         reg_rflags := RFLAGS_INTERRUPT_ENABLE OR RFLAGS_RESERVED1_ONE,
         reg_rdi := arg1 args, reg_rsi := arg2 args, reg_rdx := arg3 args, reg_rcx := arg4 args,
         reg_r8 := arg5 args,
         reg_cs := (if user then (GDT_USER_CODE * 8) OR GDT_RING_3 else GDT_KERNEL_CODE * 8),
         reg_ss := (if user then (GDT_USER_DATA * 8) OR GDT_RING_3 else GDT_KERNEL_DATA * 8),
         reg_rbp := 0, reg_rsp := sp\<rparr>,
       syscall_kernel_stack := ksp\<rparr>)"

section \<open>Task states\<close>

definition task_runnable :: "task \<Rightarrow> bool" where
  "task_runnable t =
     (let blocked_or_stopped = blocked t \<or> (stopped t \<and> \<not> in_syscall t) in
      started t \<and> \<not> blocked_or_stopped)"

definition sched_runnable :: "task \<Rightarrow> bool" where
  "sched_runnable t = ((started t \<and> \<not> blocked t) \<or> (started t \<and> stopped t \<and> \<not> in_syscall t))"

definition sched_tick :: "kst \<Rightarrow> u64" where
  "sched_tick s = k_tick s"

definition sched_deadline :: "u64 \<Rightarrow> kst \<Rightarrow> u64" where
  "sched_deadline timeout s = (if timeout = BR_TIMEOUT_INFINITY then -1 else k_tick s + timeout)"

section \<open>The task list\<close>

definition sched_enqueue :: "ptr \<Rightarrow> kst \<Rightarrow> fault + kst" where
  "sched_enqueue p s = sbind (object_ref p s) (\<lambda>s. Inr (s\<lparr>k_tasks := k_tasks s @ [p]\<rparr>))"

definition sched_dequeue :: "ptr \<Rightarrow> kst \<Rightarrow> fault + kst" where
  "sched_dequeue p s = kobject_deref (Some p) (s\<lparr>k_tasks := remove1 p (k_tasks s)\<rparr>)"

definition sched_start :: "ptr \<Rightarrow> u64 \<Rightarrow> u64 \<Rightarrow> br_task_args \<Rightarrow> kst \<Rightarrow> fault + kst" where
  "sched_start p ip sp args s =
     sbind (get_task p s) (\<lambda>t.
     sbind (assert_truth (\<not> started t) ''!task->started'') (\<lambda>_.
     sbind (map_task p (\<lambda>t. t\<lparr>task_context := context_start (task_context t) ip sp (range_end (task_stack t)) args (task_flags t),
                              started := True\<rparr>) s) (\<lambda>s.
     sched_enqueue p s)))"

section \<open>Attaching tasks to processors\<close>

definition map_cpu :: "nat \<Rightarrow> (cpu \<Rightarrow> cpu) \<Rightarrow> kst \<Rightarrow> kst" where
  "map_cpu i f s = s\<lparr>k_cpus := (k_cpus s)[i := f (k_cpus s ! i)]\<rparr>"

definition sched_cpu :: "ptr \<Rightarrow> kst \<Rightarrow> nat option" where
  "sched_cpu p s = find (\<lambda>i. cpu_next (k_cpus s ! i) = Some p) [0..<length (k_cpus s)]"

definition sched_running :: "ptr \<Rightarrow> kst \<Rightarrow> bool" where
  "sched_running p s = (sched_cpu p s \<noteq> None)"

definition sched_detach :: "ptr option \<Rightarrow> kst \<Rightarrow> fault + kst" where
  "sched_detach po s =
     (case po of None \<Rightarrow> Inr s
      | Some p \<Rightarrow>
          sbind (map_task p (\<lambda>t. t\<lparr>time_end := k_tick s\<rparr>) s) (\<lambda>s.
          Inr (fold (\<lambda>i s. if cpu_next (k_cpus s ! i) = Some p then map_cpu i (\<lambda>c. c\<lparr>cpu_next := None\<rparr>) s else s)
                 [0..<length (k_cpus s)] s)))"

definition sched_attach :: "ptr option \<Rightarrow> nat \<Rightarrow> kst \<Rightarrow> fault + kst" where
  "sched_attach po i s =
     (case po of None \<Rightarrow> Inr s
      | Some p \<Rightarrow>
          sbind (map_task p (\<lambda>t. t\<lparr>time_start := k_tick s\<rparr>) s) (\<lambda>s.
          Inr (map_cpu i (\<lambda>c. c\<lparr>cpu_next := Some p\<rparr>) s)))"

definition sched_next :: "ptr option \<Rightarrow> nat \<Rightarrow> kst \<Rightarrow> fault + kst" where
  "sched_next po i s = sbind (sched_detach (cpu_next (k_cpus s ! i)) s) (sched_attach po i)"

definition sched_current :: "ptr \<Rightarrow> nat \<Rightarrow> kst \<Rightarrow> fault + kst" where
  "sched_current p i s =
     sbind (sched_next (Some p) i s) (\<lambda>s. Inr (map_cpu i (\<lambda>c. c\<lparr>cpu_current := Some p\<rparr>) s))"

section \<open>Choosing a task\<close>

definition sched_pick :: "ptr option \<Rightarrow> ptr \<Rightarrow> kst \<Rightarrow> fault + ptr option" where
  "sched_pick best other s =
     sbind (get_task other s) (\<lambda>t.
     let just_stopped = (time_start t = k_tick s);
         runnable_and_not_running = (task_runnable t \<and> \<not> sched_running other s)
     in
     sbind (case best of None \<Rightarrow> Inr True
            | Some b \<Rightarrow> sbind (get_task b s) (\<lambda>tb. Inr (time_end t < time_end tb))) (\<lambda>waited_more.
     Inr (if \<not> just_stopped \<and> runnable_and_not_running \<and> waited_more then Some other else best)))"

definition sched_peek :: "kst \<Rightarrow> fault + ptr option" where
  "sched_peek s = for_each (\<lambda>p best. sched_pick best p s) (k_tasks s) None"

section \<open>Dispatching\<close>

definition sched_dispatch_to_current :: "ptr \<Rightarrow> kst \<Rightarrow> fault + (bool \<times> kst)" where
  "sched_dispatch_to_current p s =
     (case find (\<lambda>i. cpu_current (k_cpus s ! i) = Some p) [0..<length (k_cpus s)] of
        Some i \<Rightarrow> sbind (sched_next (Some p) i s) (\<lambda>s. Inr (True, s))
      | None \<Rightarrow> Inr (False, s))"

definition sched_dispatch_to_idle :: "ptr \<Rightarrow> kst \<Rightarrow> fault + (bool \<times> kst)" where
  "sched_dispatch_to_idle p s =
     (case find (\<lambda>i. cpu_next (k_cpus s ! i) = cpu_idle (k_cpus s ! i)) [0..<length (k_cpus s)] of
        Some i \<Rightarrow> sbind (sched_next (Some p) i s) (\<lambda>s. Inr (True, s))
      | None \<Rightarrow> Inr (False, s))"

definition active_time :: "nat \<Rightarrow> kst \<Rightarrow> fault + u64" where
  "active_time i s =
     sbind (deref_ptr (cpu_next (k_cpus s ! i))) (\<lambda>p.
     sbind (get_task p s) (\<lambda>t. Inr (k_tick s - time_start t)))"

definition sched_dispatch_to_active :: "ptr \<Rightarrow> kst \<Rightarrow> fault + (bool \<times> kst)" where
  "sched_dispatch_to_active p s =
     sbind (for_each (\<lambda>i best. sbind (active_time best s) (\<lambda>a. sbind (active_time i s) (\<lambda>b.
                Inr (if a < b then i else best)))) [0..<length (k_cpus s)] 0) (\<lambda>best.
     sbind (active_time best s) (\<lambda>a.
     if a = 0 then Inr (False, s)
     else sbind (sched_next (Some p) best s) (\<lambda>s. Inr (True, s))))"

definition sched_dispatch :: "ptr option \<Rightarrow> kst \<Rightarrow> fault + (bool \<times> kst)" where
  "sched_dispatch po s =
     (case po of None \<Rightarrow> Inr (False, s)
      | Some p \<Rightarrow>
          sbind (sched_dispatch_to_current p s) (\<lambda>(found, s).
          if found then Inr (True, s)
          else sbind (sched_dispatch_to_idle p s) (\<lambda>(found, s).
               if found then Inr (True, s) else sched_dispatch_to_active p s)))"

section \<open>The scheduling step\<close>

definition run_blocker :: "blocker \<Rightarrow> kst \<Rightarrow> fault + (bool \<times> blocker \<times> kst)" where
  "run_blocker b s =
     (case (blk_function b, blk_context b) of
        (Some ChannelWaitSend, Some op) \<Rightarrow>
          sbind (channel_wait_send op s) (\<lambda>(done, op, s). Inr (done, b\<lparr>blk_context := Some op\<rparr>, s))
      | (Some ChannelWaitRecv, Some op) \<Rightarrow>
          sbind (channel_wait_recv op s) (\<lambda>(done, op, s). Inr (done, b\<lparr>blk_context := Some op\<rparr>, s))
      | (Some _, None) \<Rightarrow> Inl NullDeref
      | (None, _) \<Rightarrow> Inr (False, b, s))"

definition sched_update_task :: "ptr \<Rightarrow> kst \<Rightarrow> fault + kst" where
  "sched_update_task p s =
     sbind (get_task p s) (\<lambda>t.
     if \<not> blocked t then Inr s
     else
       sbind (run_blocker (task_blocker t) s) (\<lambda>(has_reached_function, b, s).
       let has_reached_deadline = (blk_deadline b \<noteq> -1 \<and> blk_deadline b < k_tick s) in
       map_task p (\<lambda>t.
         if has_reached_function then t\<lparr>task_blocker := b\<lparr>blk_result := BR_SUCCESS\<rparr>, blocked := False\<rparr>
         else if has_reached_deadline then t\<lparr>task_blocker := b\<lparr>blk_result := BR_TIMEOUT\<rparr>, blocked := False\<rparr>
         else if stopped t then t\<lparr>task_blocker := b\<lparr>blk_result := BR_INTERRUPTED\<rparr>, blocked := False\<rparr>
         else t\<lparr>task_blocker := b\<rparr>) s))"

definition sched_update_cpu :: "nat \<Rightarrow> kst \<Rightarrow> fault + kst" where
  "sched_update_cpu i s =
     sbind (deref_ptr (cpu_current (k_cpus s ! i))) (\<lambda>p.
     sbind (get_task p s) (\<lambda>t.
     if \<not> task_runnable t then sched_next (cpu_idle (k_cpus s ! i)) i s else Inr s))"

definition sched_updated_blocked :: "kst \<Rightarrow> fault + kst" where
  "sched_updated_blocked s =
     sbind (for_each sched_update_task (k_tasks s) s) (\<lambda>s.
     for_each sched_update_cpu [0..<length (k_cpus s)] s)"

definition sched_switch_other :: "kst \<Rightarrow> kst" where
  "sched_switch_other s =
     s\<lparr>k_ipis := k_ipis s @ filter (\<lambda>i. k_self s \<noteq> i \<and> cpu_next (k_cpus s ! i) \<noteq> cpu_current (k_cpus s ! i))
                  [0..<length (k_cpus s)]\<rparr>"

fun sched_dispatch_loop :: "nat \<Rightarrow> kst \<Rightarrow> fault + kst" where
  "sched_dispatch_loop 0 s = Inl OutOfFuel"
| "sched_dispatch_loop (Suc turns) s =
     sbind (sched_peek s) (\<lambda>po.
     sbind (sched_dispatch po s) (\<lambda>(dispatched, s).
     if dispatched then sched_dispatch_loop turns s else Inr s))"

text \<open>Every dispatched task is marked as started in this tick, so the tasks bound the turns.\<close>

definition sched_schedule :: "kst \<Rightarrow> fault + kst" where
  "sched_schedule s =
     (let s = s\<lparr>k_tick := k_tick s + 1\<rparr> in
      sbind (sched_updated_blocked s) (\<lambda>s.
      sbind (sched_dispatch_loop (length (k_tasks s) + 1) s) (\<lambda>s.
      Inr (sched_switch_other s))))"

definition sched_switch :: "kst \<Rightarrow> kst" where
  "sched_switch s = map_cpu (k_self s) (\<lambda>c. c\<lparr>cpu_current := cpu_next c\<rparr>) s"

definition sched_yield :: "(kst \<Rightarrow> fault + kst) \<Rightarrow> kst \<Rightarrow> fault + kst" where
  "sched_yield arch_yield s =
     sbind (sched_updated_blocked s) (\<lambda>s.
     sbind (sched_peek s) (\<lambda>po.
     sbind (cpu_self s) (\<lambda>c.
     sbind (sched_next (case po of None \<Rightarrow> cpu_idle c | Some p \<Rightarrow> Some p) (k_self s) s) arch_yield)))"

definition sched_stop :: "(kst \<Rightarrow> fault + kst) \<Rightarrow> ptr \<Rightarrow> u64 \<Rightarrow> kst \<Rightarrow> fault + kst" where
  "sched_stop arch_yield p result s =
     sbind (get_task p s) (\<lambda>t.
     if stopped t then Inr s
     else
       sbind (map_task p (\<lambda>t. t\<lparr>stopped := True, task_result := result\<rparr>) s) (\<lambda>s.
       sbind (cpu_self s) (\<lambda>c.
       if cpu_current c = Some p \<and> \<not> in_syscall t then sched_yield arch_yield s else Inr s)))"

text \<open>Blocking returns the record the blocker was given, with what its function wrote to it.\<close>

definition sched_block ::
  "(kst \<Rightarrow> fault + kst) \<Rightarrow> blocker \<Rightarrow> kst \<Rightarrow> fault + (br_result \<times> channel_op option \<times> kst)" where
  "sched_block arch_yield b s =
     sbind (run_blocker b s) (\<lambda>(ready, b, s).
     if ready then Inr (BR_SUCCESS, blk_context b, s)
     else
       sbind (task_self s) (\<lambda>self.
       sbind (map_task self (\<lambda>t. t\<lparr>task_blocker := b, blocked := True\<rparr>) s) (\<lambda>s.
       sbind (sched_yield arch_yield s) (\<lambda>s.
       sbind (task_self s) (\<lambda>self.
       sbind (get_task self s) (\<lambda>t.
       Inr (blk_result (task_blocker t), blk_context (task_blocker t), s)))))))"

section \<open>Reclaiming stopped tasks\<close>

fun sched_finalize_loop :: "nat \<Rightarrow> nat \<Rightarrow> kst \<Rightarrow> fault + kst" where
  "sched_finalize_loop 0 i s = Inl OutOfFuel"
| "sched_finalize_loop (Suc turns) i s =
     (if i < length (k_tasks s)
      then
        let p = k_tasks s ! i in
        sbind (get_task p s) (\<lambda>t.
        if stopped t \<and> \<not> sched_runnable t \<and> \<not> sched_running p s
        then sbind (sched_dequeue p s) (sched_finalize_loop turns i)
        else sched_finalize_loop turns (i + 1) s)
      else Inr s)"

definition sched_finalize :: "kst \<Rightarrow> fault + kst" where
  "sched_finalize s = sched_finalize_loop (length (k_tasks s) + 1) 0 s"

section \<open>System call entry and exit\<close>

definition task_begin_syscall :: "(kst \<Rightarrow> fault + kst) \<Rightarrow> kst \<Rightarrow> fault + kst" where
  "task_begin_syscall arch_yield s =
     sbind (task_self s) (\<lambda>self.
     sbind (get_task self s) (\<lambda>t.
     sbind (if stopped t then sched_yield arch_yield s else Inr s) (\<lambda>s.
     sbind (task_self s) (\<lambda>self.
     map_task self (\<lambda>t. t\<lparr>in_syscall := True\<rparr>) s))))"

definition task_end_syscall :: "(kst \<Rightarrow> fault + kst) \<Rightarrow> kst \<Rightarrow> fault + kst" where
  "task_end_syscall arch_yield s =
     sbind (task_self s) (\<lambda>self.
     sbind (map_task self (\<lambda>t. t\<lparr>in_syscall := False\<rparr>) s) (\<lambda>s.
     sbind (task_self s) (\<lambda>self.
     sbind (get_task self s) (\<lambda>t.
     if stopped t then sched_yield arch_yield s else Inr s))))"

end
