(* ===== verification/Ipc.thy ===== *)
theory Ipc
  imports Sched
begin

text \<open>
  The blocking half of \<open>kernel/channel.c\<close> and the events of \<open>kernel/event.c\<close>, which are delivered
  as messages on the channel of the task that is bound to them.
\<close>

section \<open>Sending and receiving\<close>

definition channel_send_blocking ::
  "(kst \<Rightarrow> fault + kst) \<Rightarrow> ptr \<Rightarrow> ptr option \<Rightarrow> br_msg \<Rightarrow> u64 \<Rightarrow> kst \<Rightarrow> fault + (br_result \<times> kst)" where
  "channel_send_blocking arch_yield self domain msg deadline s =
     (let op = \<lparr>op_channel = self, op_domain = domain, op_msg = msg, op_result = BR_SUCCESS\<rparr> in
      sbind (sched_block arch_yield \<lparr>blk_function = Some ChannelWaitSend, blk_context = Some op,
               blk_deadline = deadline, blk_result = BR_SUCCESS\<rparr> s) (\<lambda>(result, op, s).
      if result \<noteq> BR_SUCCESS then Inr (result, s)
      else case op of None \<Rightarrow> Inl NullDeref | Some op \<Rightarrow> Inr (op_result op, s)))"

definition channel_recv_blocking ::
  "(kst \<Rightarrow> fault + kst) \<Rightarrow> ptr \<Rightarrow> ptr option \<Rightarrow> br_msg \<Rightarrow> u64 \<Rightarrow> kst \<Rightarrow> fault + (br_result \<times> br_msg \<times> kst)" where
  "channel_recv_blocking arch_yield self domain msg deadline s =
     (let op = \<lparr>op_channel = self, op_domain = domain, op_msg = msg, op_result = BR_SUCCESS\<rparr> in
      sbind (sched_block arch_yield \<lparr>blk_function = Some ChannelWaitRecv, blk_context = Some op,
               blk_deadline = deadline, blk_result = BR_SUCCESS\<rparr> s) (\<lambda>(result, op, s).
      case op of None \<Rightarrow> Inl NullDeref
      | Some op \<Rightarrow> Inr (if result \<noteq> BR_SUCCESS then result else op_result op, op_msg op, s)))"

definition channel_send ::
  "(kst \<Rightarrow> fault + kst) \<Rightarrow> ptr \<Rightarrow> ptr option \<Rightarrow> br_msg \<Rightarrow> u64 \<Rightarrow> u32 \<Rightarrow> kst \<Rightarrow> fault + (br_result \<times> kst)" where
  "channel_send arch_yield self domain msg deadline flags s =
     (if flags AND BR_IPC_BLOCK \<noteq> 0 then channel_send_blocking arch_yield self domain msg deadline s
      else channel_send_non_blocking self domain msg s)"

definition channel_recv ::
  "(kst \<Rightarrow> fault + kst) \<Rightarrow> ptr \<Rightarrow> ptr option \<Rightarrow> br_msg \<Rightarrow> u64 \<Rightarrow> u32 \<Rightarrow> kst \<Rightarrow> fault + (br_result \<times> br_msg \<times> kst)" where
  "channel_recv arch_yield self domain msg deadline flags s =
     (if flags AND BR_IPC_BLOCK \<noteq> 0 then channel_recv_blocking arch_yield self domain msg deadline s
      else channel_recv_non_blocking self domain msg s)"

section \<open>event.c\<close>

definition event_initialize :: "kst \<Rightarrow> kst" where
  "event_initialize s = s\<lparr>k_bindings := []\<rparr>"

fun event_binding_find :: "ptr \<Rightarrow> br_event \<Rightarrow> event_binding list \<Rightarrow> nat \<Rightarrow> fault + nat option" where
  "event_binding_find task event [] i = Inr None"
| "event_binding_find task event (b # bs) i =
     (if bind_task b = task
      then sbind (br_event_eq (bind_event b) event) (\<lambda>eq.
           if eq then Inr (Some i) else event_binding_find task event bs (i + 1))
      else event_binding_find task event bs (i + 1))"

definition event_binding_get :: "ptr \<Rightarrow> br_event \<Rightarrow> kst \<Rightarrow> fault + nat option" where
  "event_binding_get task event s = event_binding_find task event (k_bindings s) 0"

definition event_bind :: "ptr \<Rightarrow> br_event \<Rightarrow> kst \<Rightarrow> fault + (br_result \<times> kst)" where
  "event_bind task event s =
     sbind (event_binding_get task event s) (\<lambda>existing.
     if existing \<noteq> None then Inr (BR_ALREADY_BINDED, s)
     else Inr (BR_SUCCESS, s\<lparr>k_bindings := k_bindings s @
                 [\<lparr>bind_task = task, bind_event = event, bind_ack = True\<rparr>]\<rparr>))"

definition event_unbind_unlocked :: "ptr \<Rightarrow> br_event \<Rightarrow> kst \<Rightarrow> fault + (br_result \<times> kst)" where
  "event_unbind_unlocked task event s =
     sbind (event_binding_find task event (k_bindings s) 0) (\<lambda>found.
     case found of
       Some i \<Rightarrow> Inr (BR_SUCCESS, s\<lparr>k_bindings := list_splice i 1 (k_bindings s)\<rparr>)
     | None \<Rightarrow> Inr (BR_NOT_BINDED, s))"

definition event_unbind :: "ptr \<Rightarrow> br_event \<Rightarrow> kst \<Rightarrow> fault + (br_result \<times> kst)" where
  "event_unbind task event s = event_unbind_unlocked task event s"

definition event_dispatch :: "(kst \<Rightarrow> fault + kst) \<Rightarrow> ptr \<Rightarrow> br_event \<Rightarrow> kst \<Rightarrow> fault + (br_result \<times> kst)" where
  "event_dispatch arch_yield task event s =
     sbind (get_task task s) (\<lambda>t.
     channel_send arch_yield (task_channel t) None
       (zero_msg\<lparr>msg_from := BR_ADDR_EVENT, msg_args := event_args event\<rparr>) 0 BR_IPC_SEND s)"

definition set_ack :: "nat \<Rightarrow> bool \<Rightarrow> kst \<Rightarrow> kst" where
  "set_ack i v s = s\<lparr>k_bindings := (k_bindings s)[i := (k_bindings s ! i)\<lparr>bind_ack := v\<rparr>]\<rparr>"

definition event_trigger_binding :: "(kst \<Rightarrow> fault + kst) \<Rightarrow> br_event \<Rightarrow> nat \<Rightarrow> kst \<Rightarrow> fault + kst" where
  "event_trigger_binding arch_yield event i s =
     (let b = k_bindings s ! i in
      sbind (br_event_eq (bind_event b) event) (\<lambda>eq.
      if eq \<and> bind_ack b
      then
        let s = set_ack i False s in
        sbind (event_dispatch arch_yield (bind_task b) event s) (\<lambda>(res, s).
        Inr (if res = BR_CHANNEL_FULL then set_ack i False s else s))
      else Inr s))"

definition event_trigger :: "(kst \<Rightarrow> fault + kst) \<Rightarrow> br_event \<Rightarrow> kst \<Rightarrow> fault + kst" where
  "event_trigger arch_yield event s =
     for_each (event_trigger_binding arch_yield event) [0..<length (k_bindings s)] s"

definition event_ack :: "ptr \<Rightarrow> br_event \<Rightarrow> kst \<Rightarrow> fault + (br_result \<times> kst)" where
  "event_ack task event s =
     sbind (event_binding_get task event s) (\<lambda>found.
     case found of
       None \<Rightarrow> Inr (BR_NOT_BINDED, s)
     | Some i \<Rightarrow> Inr (BR_SUCCESS, set_ack i True s))"

end
