(* ===== verification/Syscalls.thy ===== *)
theory Syscalls
  imports Ipc
begin

text \<open>
  The system calls, \<open>kernel/syscalls.c\<close>. Every call takes its argument record and returns the
  result code, the argument record as the call leaves it, and the state. The calls to the
  platform, reading the clock (\<open>arch_now\<close>), port input and output (\<open>arch_in\<close>, \<open>arch_out\<close>) and
  giving up the processor (\<open>arch_yield\<close>), are arguments.
\<close>

section \<open>Argument records\<close>

record br_map_args =
  map_space :: u64
  map_memory :: u64
  map_offset :: u64
  map_size :: u64
  map_vaddr :: u64
  map_flags :: u64

record br_unmap_args =
  unmap_space :: u64
  unmap_vaddr :: u64
  unmap_size :: u64

record br_task_props =
  tprops_space :: u64
  tprops_rights :: u32
  tprops_flags :: u64

record br_memory_props =
  mprops_addr :: u64
  mprops_size :: u64
  mprops_flags :: u64

record br_space_props =
  sprops_flags :: u64

datatype br_props = TaskProps br_task_props | MemoryProps br_memory_props | SpaceProps br_space_props | NoProps

record br_create_args =
  create_id :: u64
  create_handle :: u64
  create_props :: br_props

record br_dup_args =
  dup_handle :: u64
  dup_copy :: u64

record br_start_args =
  start_handle :: u64
  start_ip :: u64
  start_sp :: u64
  start_args :: br_task_args

record br_exit_args =
  exit_handle :: u64
  exit_result :: u64

record br_ipc_args =
  ipc_to :: br_addr
  ipc_msg :: br_msg
  ipc_deadline :: u64
  ipc_flags :: u32

record br_drop_args =
  drop_handle :: u64
  drop_rights :: u32

datatype br_infos =
    MemoryInfos usize_range
  | DomainInfos nat
  | SpaceInfos u64
  | TaskInfos u32 bool bool bool
  | NoInfos

record br_inspect_args =
  inspect_id :: u64
  inspect_handle :: u64
  inspect_type :: br_type
  inspect_infos :: br_infos

record br_io_args =
  io_port :: u16
  io_data :: u32
  io_size :: int

section \<open>Shared steps\<close>

definition self_task :: "kst \<Rightarrow> fault + (ptr \<times> task)" where
  "self_task s = sbind (task_self s) (\<lambda>p. sbind (get_task p s) (\<lambda>t. Inr (p, t)))"

definition has_right :: "task \<Rightarrow> u32 \<Rightarrow> bool" where
  "has_right t r = (task_rights t AND r \<noteq> 0)"

text \<open>The space a call names: its own, or one of its handles. Either way it holds a reference.\<close>

definition lookup_space :: "u64 \<Rightarrow> kst \<Rightarrow> fault + (ptr option \<times> kst)" where
  "lookup_space handle s =
     sbind (self_task s) (\<lambda>(_, t).
     if handle = BR_HANDLE_SELF
     then sbind (object_ref (task_space t) s) (\<lambda>s. Inr (Some (task_space t), s))
     else domain_lookup (task_domain t) handle BR_OBJECT_SPACE s)"

definition lookup_task :: "u64 \<Rightarrow> kst \<Rightarrow> fault + (ptr option \<times> kst)" where
  "lookup_task handle s =
     sbind (self_task s) (\<lambda>(self, t).
     if handle = BR_HANDLE_SELF
     then sbind (object_ref self s) (\<lambda>s. Inr (Some self, s))
     else domain_lookup (task_domain t) handle BR_OBJECT_TASK s)"

section \<open>The calls\<close>

definition sys_log :: "u8 list \<Rightarrow> kst \<Rightarrow> fault + (br_result \<times> kst)" where
  "sys_log message s =
     sbind (self_task s) (\<lambda>(_, t).
     if \<not> has_right t BR_RIGHT_LOG then Inr (BR_NOT_PERMITTED, s)
     else Inr (BR_SUCCESS, s\<lparr>k_log := k_log s @ [message]\<rparr>))"

definition sys_now :: "u64 \<Rightarrow> kst \<Rightarrow> br_result \<times> (u64 \<times> u64) \<times> kst" where
  "sys_now arch_now s = (BR_SUCCESS, (sched_tick s, arch_now), s)"

definition sys_map :: "br_map_args \<Rightarrow> kst \<Rightarrow> fault + (br_result \<times> br_map_args \<times> kst)" where
  "sys_map args s =
     sbind (self_task s) (\<lambda>(_, t).
     if map_flags args AND (BR_MEM_WRITE_THROUGHT OR BR_MEM_GLOBAL) \<noteq> 0 \<and> \<not> has_right t BR_RIGHT_DMA
     then Inr (BR_NOT_PERMITTED, args, s)
     else
       sbind (lookup_space (map_space args) s) (\<lambda>(space, s).
       case space of None \<Rightarrow> Inr (BR_BAD_HANDLE, args, s)
       | Some space \<Rightarrow>
           sbind (self_task s) (\<lambda>(_, t).
           sbind (domain_lookup (task_domain t) (map_memory args) BR_OBJECT_MEMORY s) (\<lambda>(memory, s).
           case memory of None \<Rightarrow> sbind (kobject_deref (Some space) s) (\<lambda>s. Inr (BR_BAD_HANDLE, args, s))
           | Some memory \<Rightarrow>
               sbind (space_map space memory (map_offset args) (map_size args) (map_vaddr args)
                        (map_flags args) s) (\<lambda>(map_result, s).
               sbind (kobject_deref (Some space) s) (\<lambda>s.
               sbind (kobject_deref (Some memory) s) (\<lambda>s.
               case map_result of
                 Inl err \<Rightarrow> Inr (err, args, s)
               | Inr r \<Rightarrow> Inr (BR_SUCCESS, args\<lparr>map_vaddr := rbase r, map_size := rsize r\<rparr>, s))))))))"

definition sys_unmap :: "br_unmap_args \<Rightarrow> kst \<Rightarrow> fault + (br_result \<times> kst)" where
  "sys_unmap args s =
     sbind (lookup_space (unmap_space args) s) (\<lambda>(space, s).
     case space of None \<Rightarrow> Inr (BR_BAD_HANDLE, s)
     | Some space \<Rightarrow>
         sbind (space_unmap space (mk_range (unmap_vaddr args) (unmap_size args)) s) (\<lambda>(unmap_result, s).
         sbind (kobject_deref (Some space) s) (\<lambda>s.
         Inr (case unmap_result of Inl err \<Rightarrow> err | Inr _ \<Rightarrow> BR_SUCCESS, s))))"

text \<open>Every creation ends by adding the object to the caller's domain and dropping the local reference.\<close>

definition publish :: "ptr \<Rightarrow> kst \<Rightarrow> fault + (u64 \<times> u64 \<times> kst)" where
  "publish object s =
     sbind (kget object s) (\<lambda>ob.
     sbind (self_task s) (\<lambda>(_, t).
     sbind (domain_add (task_domain t) object s) (\<lambda>(handle, s).
     Inr (o_id ob, handle, s))))"

definition sys_create_task ::
  "br_task_props \<Rightarrow> br_create_args \<Rightarrow> kst \<Rightarrow> fault + (br_result \<times> br_create_args \<times> kst)" where
  "sys_create_task props args s =
     sbind (lookup_space (tprops_space props) s) (\<lambda>(space, s).
     case space of None \<Rightarrow> Inr (BR_BAD_HANDLE, args, s)
     | Some space \<Rightarrow>
         sbind (self_task s) (\<lambda>(_, t).
         sbind (task_create space (tprops_rights props AND task_rights t)
                  (tprops_flags props OR BR_TASK_USER) s) (\<lambda>(task, s).
         sbind (publish task s) (\<lambda>(oid, handle, s).
         sbind (kobject_deref (Some space) s) (\<lambda>s.
         sbind (kobject_deref (Some task) s) (\<lambda>s.
         Inr (BR_SUCCESS, args\<lparr>create_id := oid, create_handle := handle\<rparr>, s)))))))"

definition sys_create_memory ::
  "br_memory_props \<Rightarrow> br_create_args \<Rightarrow> kst \<Rightarrow> fault + (br_result \<times> br_create_args \<times> kst)" where
  "sys_create_memory props args s =
     sbind (self_task s) (\<lambda>(_, t).
     if mprops_flags props AND BR_MEM_DMA \<noteq> 0
     then
       if \<not> has_right t BR_RIGHT_DMA then Inr (BR_NOT_PERMITTED, args, s)
       else
         sbind (memory_dma (mk_range (mprops_addr props) (mprops_size props)) s) (\<lambda>(memory, s).
         sbind (publish memory s) (\<lambda>(oid, handle, s).
         sbind (kobject_deref (Some memory) s) (\<lambda>s.
         Inr (BR_SUCCESS, args\<lparr>create_id := oid, create_handle := handle\<rparr>, s))))
     else
       if mprops_flags props AND BR_MEM_LOWER \<noteq> 0 \<and> \<not> has_right t BR_RIGHT_DMA
       then Inr (BR_NOT_PERMITTED, args, s)
       else
         sbind (on_pmm (\<lambda>p. pmm_alloc p (mprops_size props) (mprops_flags props AND BR_MEM_LOWER = 0)) s)
           (\<lambda>(pmm_result, s).
         case pmm_result of Inl err \<Rightarrow> Inr (err, args, s)
         | Inr r \<Rightarrow>
             sbind (memory_pmm r s) (\<lambda>(memory, s).
             sbind (publish memory s) (\<lambda>(oid, handle, s).
             sbind (kobject_deref (Some memory) s) (\<lambda>s.
             Inr (BR_SUCCESS, args\<lparr>create_id := oid, create_handle := handle,
                    create_props := MemoryProps (props\<lparr>mprops_addr := rbase r\<rparr>)\<rparr>, s))))))"

definition sys_create_space ::
  "br_space_props \<Rightarrow> br_create_args \<Rightarrow> kst \<Rightarrow> fault + (br_result \<times> br_create_args \<times> kst)" where
  "sys_create_space props args s =
     sbind (space_create (sprops_flags props) s) (\<lambda>(space, s).
     sbind (publish space s) (\<lambda>(oid, handle, s).
     sbind (kobject_deref (Some space) s) (\<lambda>s.
     Inr (BR_SUCCESS, args\<lparr>create_id := oid, create_handle := handle\<rparr>, s))))"

definition sys_create :: "br_create_args \<Rightarrow> kst \<Rightarrow> fault + (br_result \<times> br_create_args \<times> kst)" where
  "sys_create args s =
     (case create_props args of
        TaskProps props \<Rightarrow>
          sbind (self_task s) (\<lambda>(_, t).
          if \<not> has_right t BR_RIGHT_TASK then Inr (BR_NOT_PERMITTED, args, s)
          else sys_create_task props args s)
      | SpaceProps props \<Rightarrow> sys_create_space props args s
      | MemoryProps props \<Rightarrow> sys_create_memory props args s
      | NoProps \<Rightarrow> Inr (BR_BAD_ARGUMENTS, args, s))"

definition sys_dup :: "br_dup_args \<Rightarrow> kst \<Rightarrow> fault + (br_result \<times> br_dup_args \<times> kst)" where
  "sys_dup args s =
     sbind (self_task s) (\<lambda>(_, t).
     sbind (domain_lookup (task_domain t) (dup_handle args) BR_OBJECT_ANY s) (\<lambda>(object, s).
     case object of None \<Rightarrow> Inr (BR_BAD_HANDLE, args, s)
     | Some object \<Rightarrow>
         sbind (domain_add (task_domain t) object s) (\<lambda>(handle, s).
         sbind (kobject_deref (Some object) s) (\<lambda>s.
         Inr (BR_SUCCESS, args\<lparr>dup_copy := handle\<rparr>, s)))))"

definition sys_start :: "br_start_args \<Rightarrow> kst \<Rightarrow> fault + (br_result \<times> kst)" where
  "sys_start args s =
     sbind (self_task s) (\<lambda>(_, t).
     sbind (domain_lookup (task_domain t) (start_handle args) BR_OBJECT_TASK s) (\<lambda>(task, s).
     case task of None \<Rightarrow> Inr (BR_BAD_HANDLE, s)
     | Some task \<Rightarrow>
         sbind (sched_start task (start_ip args) (start_sp args) (start_args args) s) (\<lambda>s.
         sbind (kobject_deref (Some task) s) (\<lambda>s.
         Inr (BR_SUCCESS, s)))))"

definition sys_exit :: "(kst \<Rightarrow> fault + kst) \<Rightarrow> br_exit_args \<Rightarrow> kst \<Rightarrow> fault + (br_result \<times> kst)" where
  "sys_exit arch_yield args s =
     sbind (lookup_task (exit_handle args) s) (\<lambda>(task, s).
     case task of None \<Rightarrow> Inr (BR_BAD_HANDLE, s)
     | Some task \<Rightarrow>
         sbind (sched_stop arch_yield task (exit_result args) s) (\<lambda>s.
         sbind (kobject_deref (Some task) s) (\<lambda>s.
         Inr (BR_SUCCESS, s))))"

definition sys_ipc_send ::
  "(kst \<Rightarrow> fault + kst) \<Rightarrow> br_ipc_args \<Rightarrow> br_msg \<Rightarrow> kst \<Rightarrow> fault + (br_result \<times> br_msg \<times> kst)" where
  "sys_ipc_send arch_yield args msg s =
     sbind (task_self s) (\<lambda>self.
     sbind (kget self s) (\<lambda>me.
     let msg = msg\<lparr>msg_from := (msg_from msg)\<lparr>addr_id := o_id me\<rparr>, msg_to := ipc_to args\<rparr> in
     sbind (global_lookup (addr_id (ipc_to args)) BR_OBJECT_TASK s) (\<lambda>(task, s).
     case task of None \<Rightarrow> Inr (BR_BAD_ID, msg, s)
     | Some task \<Rightarrow>
         sbind (get_task task s) (\<lambda>target.
         sbind (self_task s) (\<lambda>(_, t).
         sbind (channel_send arch_yield (task_channel target) (Some (task_domain t)) msg
                  (ipc_deadline args) (ipc_flags args) s) (\<lambda>(result, s).
         sbind (kobject_deref (Some task) s) (\<lambda>s.
         Inr (result, msg, s))))))))"

definition sys_ipc :: "(kst \<Rightarrow> fault + kst) \<Rightarrow> br_ipc_args \<Rightarrow> kst \<Rightarrow> fault + (br_result \<times> br_ipc_args \<times> kst)" where
  "sys_ipc arch_yield args s =
     sbind (if ipc_flags args AND BR_IPC_SEND \<noteq> 0 then sys_ipc_send arch_yield args (ipc_msg args) s
            else Inr (BR_SUCCESS, ipc_msg args, s)) (\<lambda>(result, msg, s).
     if result \<noteq> BR_SUCCESS then Inr (result, args, s)
     else if ipc_flags args AND BR_IPC_RECV \<noteq> 0
     then sbind (self_task s) (\<lambda>(_, t).
          sbind (channel_recv arch_yield (task_channel t) (Some (task_domain t)) msg
                   (ipc_deadline args) (ipc_flags args) s) (\<lambda>(result, msg, s).
          Inr (result, args\<lparr>ipc_msg := msg\<rparr>, s)))
     else Inr (result, args\<lparr>ipc_msg := msg\<rparr>, s))"

definition sys_drop :: "br_drop_args \<Rightarrow> kst \<Rightarrow> fault + (br_result \<times> kst)" where
  "sys_drop args s =
     sbind (lookup_task (drop_handle args) s) (\<lambda>(task, s).
     case task of None \<Rightarrow> Inr (BR_BAD_HANDLE, s)
     | Some task \<Rightarrow>
         sbind (get_task task s) (\<lambda>t.
         if task_rights t AND drop_rights args = 0
         then sbind (kobject_deref (Some task) s) (\<lambda>s. Inr (BR_NOT_PERMITTED, s))
         else
           sbind (map_task task (\<lambda>t. t\<lparr>task_rights := task_rights t AND NOT (drop_rights args)\<rparr>) s) (\<lambda>s.
           sbind (kobject_deref (Some task) s) (\<lambda>s. Inr (BR_SUCCESS, s)))))"

definition sys_close :: "u64 \<Rightarrow> kst \<Rightarrow> fault + (br_result \<times> kst)" where
  "sys_close handle s = sbind (self_task s) (\<lambda>(_, t). domain_remove (task_domain t) handle s)"

definition sys_bind :: "br_event \<Rightarrow> kst \<Rightarrow> fault + (br_result \<times> kst)" where
  "sys_bind event s =
     sbind (self_task s) (\<lambda>(self, t).
     if ev_type event = BR_EVENT_IRQ \<and> \<not> has_right t BR_RIGHT_IRQ then Inr (BR_NOT_PERMITTED, s)
     else event_bind self event s)"

definition sys_unbind :: "br_event \<Rightarrow> kst \<Rightarrow> fault + (br_result \<times> kst)" where
  "sys_unbind event s = sbind (task_self s) (\<lambda>self. event_unbind self event s)"

definition sys_ack :: "br_event \<Rightarrow> kst \<Rightarrow> fault + (br_result \<times> kst)" where
  "sys_ack event s = sbind (task_self s) (\<lambda>self. event_ack self event s)"

text \<open>The object that is inspected keeps the reference that the look-up took.\<close>

definition sys_inspect :: "br_inspect_args \<Rightarrow> kst \<Rightarrow> fault + (br_result \<times> br_inspect_args \<times> kst)" where
  "sys_inspect args s =
     sbind (self_task s) (\<lambda>(self, t).
     sbind (if inspect_handle args = BR_HANDLE_SELF then Inr (Some self, s)
            else domain_lookup (task_domain t) (inspect_handle args) BR_OBJECT_ANY s) (\<lambda>(object, s).
     case object of None \<Rightarrow> Inr (BR_BAD_HANDLE, args, s)
     | Some object \<Rightarrow>
         sbind (kget object s) (\<lambda>ob.
         Inr (BR_SUCCESS,
              args\<lparr>inspect_type := o_type ob, inspect_id := o_id ob,
                   inspect_infos := (case o_body ob of
                       KMemory m \<Rightarrow> MemoryInfos (memory_area m)
                     | KDomain d \<Rightarrow> DomainInfos (slot_count d)
                     | KSpace sp \<Rightarrow> SpaceInfos (space_flags sp)
                     | KTask t \<Rightarrow> TaskInfos (task_rights t) (stopped t) (started t) (blocked t))\<rparr>, s))))"

definition sys_in :: "(u16 \<Rightarrow> int \<Rightarrow> u32) \<Rightarrow> br_io_args \<Rightarrow> kst \<Rightarrow> fault + (br_result \<times> br_io_args \<times> kst)" where
  "sys_in arch_in args s =
     sbind (self_task s) (\<lambda>(_, t).
     if \<not> has_right t BR_RIGHT_PIO then Inr (BR_NOT_PERMITTED, args, s)
     else Inr (BR_SUCCESS, args\<lparr>io_data := arch_in (io_port args) (io_size args)\<rparr>, s))"

text \<open>What a write to a port does is outside the kernel state: the call returns the write it makes.\<close>

definition sys_out :: "br_io_args \<Rightarrow> kst \<Rightarrow> fault + (br_result \<times> (u16 \<times> int \<times> u32) option \<times> kst)" where
  "sys_out args s =
     sbind (self_task s) (\<lambda>(_, t).
     if \<not> has_right t BR_RIGHT_PIO then Inr (BR_NOT_PERMITTED, None, s)
     else Inr (BR_SUCCESS, Some (io_port args, io_size args, io_data args), s))"

section \<open>Dispatch\<close>

datatype syscall =
    ScLog "u8 list"
  | ScNow
  | ScMap br_map_args
  | ScUnmap br_unmap_args
  | ScCreate br_create_args
  | ScDup br_dup_args
  | ScStart br_start_args
  | ScExit br_exit_args
  | ScIpc br_ipc_args
  | ScDrop br_drop_args
  | ScClose u64
  | ScBind br_event
  | ScUnbind br_event
  | ScAck br_event
  | ScInspect br_inspect_args
  | ScIn br_io_args
  | ScOut br_io_args
  | ScInvalid

record platform =
  plat_now :: u64
  plat_in :: "u16 \<Rightarrow> int \<Rightarrow> u32"
  plat_yield :: "kst \<Rightarrow> fault + kst"

definition drop_args :: "fault + (br_result \<times> 'a \<times> kst) \<Rightarrow> fault + (br_result \<times> kst)" where
  "drop_args m = sbind m (\<lambda>(res, _, s). Inr (res, s))"

fun syscall_run :: "platform \<Rightarrow> syscall \<Rightarrow> kst \<Rightarrow> fault + (br_result \<times> kst)" where
  "syscall_run pl (ScLog m) s = sys_log m s"
| "syscall_run pl ScNow s = drop_args (Inr (sys_now (plat_now pl) s))"
| "syscall_run pl (ScMap a) s = drop_args (sys_map a s)"
| "syscall_run pl (ScUnmap a) s = sys_unmap a s"
| "syscall_run pl (ScCreate a) s = drop_args (sys_create a s)"
| "syscall_run pl (ScDup a) s = drop_args (sys_dup a s)"
| "syscall_run pl (ScStart a) s = sys_start a s"
| "syscall_run pl (ScExit a) s = sys_exit (plat_yield pl) a s"
| "syscall_run pl (ScIpc a) s = drop_args (sys_ipc (plat_yield pl) a s)"
| "syscall_run pl (ScDrop a) s = sys_drop a s"
| "syscall_run pl (ScClose h) s = sys_close h s"
| "syscall_run pl (ScBind e) s = sys_bind e s"
| "syscall_run pl (ScUnbind e) s = sys_unbind e s"
| "syscall_run pl (ScAck e) s = sys_ack e s"
| "syscall_run pl (ScInspect a) s = drop_args (sys_inspect a s)"
| "syscall_run pl (ScIn a) s = drop_args (sys_in (plat_in pl) a s)"
| "syscall_run pl (ScOut a) s = drop_args (sys_out a s)"
| "syscall_run pl ScInvalid s = Inr (BR_BAD_SYSCALL, s)"

text \<open>
  A handler gets the address of its arguments in the memory of the caller and reads them there, without
  asking whether the address is one of the caller. \<open>load_args\<close> stands for these reads: what the handler of a
  call finds at an address, or the fault that the access raises. Results written back to the arguments
  are the last but one component of what the calls return; they do not belong to the kernel state.
\<close>

definition BR_SYSCALL_COUNT :: u32 where "BR_SYSCALL_COUNT = 17"

definition syscall_dispatch ::
  "(u32 \<Rightarrow> u64 \<Rightarrow> fault + syscall) \<Rightarrow> platform \<Rightarrow> u32 \<Rightarrow> u64 \<Rightarrow> kst \<Rightarrow> fault + (br_result \<times> kst)" where
  "syscall_dispatch load_args pl syscall args s =
     (if BR_SYSCALL_COUNT \<le> syscall then Inr (BR_BAD_SYSCALL, s)
      else
        sbind (task_begin_syscall (plat_yield pl) s) (\<lambda>s.
        sbind (load_args syscall args) (\<lambda>call.
        sbind (syscall_run pl call s) (\<lambda>(result, s).
        sbind (task_end_syscall (plat_yield pl) s) (\<lambda>s.
        Inr (result, s))))))"

end
