(* ===== verification/Safety.thy ===== *)
theory Safety
  imports Refs Syscalls
begin

text \<open>
  Memory safety of the system calls: the invariant of theory Refs is kept by every system call
  that does not block, whatever arguments user space passes, and none of them uses an object
  that is gone, follows a null pointer or takes an object for one of another type. With handles that fit the
  table check none leaves a handle table either.
\<close>

section \<open>The state between two steps of a system call\<close>

fun shape :: "kbody \<Rightarrow> br_type \<times> (ptr \<times> ptr \<times> ptr \<times> bool) option" where
  "shape (KTask t) = (BR_OBJECT_TASK, Some (task_space t, task_domain t, task_channel t, in_syscall t))"
| "shape b = (body_type b, None)"

lemma shape_type: "fst (shape b) = body_type b"
  by (cases b) auto

lemma shape_task: "shape b = shape (KTask t) \<longleftrightarrow> (\<exists>t'. b = KTask t' \<and> task_space t' = task_space t \<and>
    task_domain t' = task_domain t \<and> task_channel t' = task_channel t \<and> in_syscall t' = in_syscall t)"
  by (cases b) auto

text \<open>
  Rights are bit sets. A state never gives a task more rights than it had, and a task that is new
  has no more than the running task.
\<close>

definition within :: "u32 \<Rightarrow> u32 \<Rightarrow> bool" where
  "within a b \<longleftrightarrow> a AND NOT b = 0"

lemma within_bits: "within a b \<longleftrightarrow> (\<forall>i. bit a i \<longrightarrow> bit b i)"
proof
  assume w: "within a b"
  show "\<forall>i. bit a i \<longrightarrow> bit b i"
  proof (intro allI impI)
    fix i assume a: "bit a i"
    then have "i < LENGTH(32)" by (rule bit_imp_le_length)
    moreover have "\<not> bit (a AND NOT b) i" using w by (simp add: within_def)
    ultimately show "bit b i" using a by (simp add: bit_and_iff bit_not_iff_eq possible_bit_word)
  qed
next
  assume "\<forall>i. bit a i \<longrightarrow> bit b i"
  then have "\<not> bit (a AND NOT b) i" for i by (simp add: bit_and_iff bit_not_iff_eq)
  then show "within a b" unfolding within_def by (intro bit_eqI) simp
qed

lemma within_refl [simp]: "within a a"
  by (simp add: within_bits)

lemma within_zero [simp]: "within 0 a"
  by (simp add: within_bits)

lemma within_trans: "within a b \<Longrightarrow> within b c \<Longrightarrow> within a c"
  by (simp add: within_bits)

lemma within_and [simp]: "within (a AND b) a" "within (a AND b) b"
  by (simp_all add: within_bits bit_and_iff)

fun body_rights :: "kbody \<Rightarrow> u32" where
  "body_rights (KTask t) = task_rights t"
| "body_rights _ = 0"

definition own_rights :: "kst \<Rightarrow> u32" where
  "own_rights s = (case task_self s of Inl _ \<Rightarrow> 0
     | Inr p \<Rightarrow> (case k_objs s p of None \<Rightarrow> 0 | Some ob \<Rightarrow> body_rights (o_body ob)))"

text \<open>An object after some steps: of the same type, with the same links and no more rights.\<close>

definition later :: "kbody \<Rightarrow> kbody \<Rightarrow> bool" where
  "later b b' \<longleftrightarrow> shape b' = shape b \<and> within (body_rights b') (body_rights b)"

lemma later_refl [simp]: "later b b"
  by (simp add: later_def)

lemma later_trans: "later a b \<Longrightarrow> later b c \<Longrightarrow> later a c"
  unfolding later_def using within_trans by metis

lemma later_simps [simp]:
  "later (KDomain d) (KDomain d')" "later (KSpace sp) (KSpace sp')" "later (KMemory m) (KMemory m')"
  by (simp_all add: later_def)

text \<open>
  What code holding a pointer relies on from one step to the next: the processor and its task stay,
  no address is reused, objects keep their type and tasks their links, and nobody gains rights.
\<close>

definition keep :: "kst \<Rightarrow> kst \<Rightarrow> bool" where
  "keep s t \<longleftrightarrow> k_cpus t = k_cpus s \<and> k_self t = k_self s \<and> set (k_tasks s) \<subseteq> set (k_tasks t) \<and> k_next s \<le> k_next t \<and>
     within (own_rights t) (own_rights s) \<and>
     (\<forall>q ob'. k_objs t q = Some ob' \<longrightarrow> (\<exists>ob. k_objs s q = Some ob \<and> later (o_body ob) (o_body ob')) \<or>
        \<not> q < k_next s \<and> within (body_rights (o_body ob')) (own_rights s))"

lemma keep_objD: "keep s t \<Longrightarrow> k_objs t q = Some ob' \<Longrightarrow> (\<exists>ob. k_objs s q = Some ob \<and> later (o_body ob) (o_body ob')) \<or>
    \<not> q < k_next s \<and> within (body_rights (o_body ob')) (own_rights s)"
  unfolding keep_def by blast

lemma keep_oldD: "keep s t \<Longrightarrow> k_objs t q = Some ob' \<Longrightarrow> q < k_next s \<Longrightarrow> \<exists>ob. k_objs s q = Some ob \<and> later (o_body ob) (o_body ob')"
  using keep_objD by blast

lemma keep_self: "keep s t \<Longrightarrow> task_self t = task_self s"
  by (simp add: keep_def task_self_def cpu_self_def)

text \<open>The clause on the running task's rights follows from the one on objects.\<close>

lemma keepI:
  assumes "k_cpus t = k_cpus s" "k_self t = k_self s" "set (k_tasks s) \<subseteq> set (k_tasks t)" "k_next s \<le> k_next t"
    and objs: "\<And>q ob'. k_objs t q = Some ob' \<Longrightarrow> (\<exists>ob. k_objs s q = Some ob \<and> later (o_body ob) (o_body ob')) \<or>
       \<not> q < k_next s \<and> within (body_rights (o_body ob')) (own_rights s)"
  shows "keep s t"
proof -
  have self: "task_self t = task_self s" using assms(1,2) by (simp add: task_self_def cpu_self_def)
  have "within (own_rights t) (own_rights s)"
  proof (cases "\<exists>p ob. task_self s = Inr p \<and> k_objs t p = Some ob")
    case True
    then obtain p ob where p: "task_self s = Inr p" "k_objs t p = Some ob" by blast
    then have "own_rights t = body_rights (o_body ob)" using self by (simp add: own_rights_def)
    with objs [OF p(2)] p(1) show ?thesis by (auto simp: own_rights_def later_def)
  next
    case False
    then have "own_rights t = 0" using self by (auto simp: own_rights_def split: sum.splits option.splits)
    then show ?thesis by simp
  qed
  with assms show ?thesis unfolding keep_def by blast
qed

text \<open>
  No handle table has more than \<open>n\<close> entries and no object more than \<open>n\<close> references: handles are indexed with
  a C \<open>int\<close>, and references are counted in one.
\<close>

definition tables :: "nat \<Rightarrow> kst \<Rightarrow> bool" where
  "tables n s \<longleftrightarrow> (\<forall>q ob. k_objs s q = Some ob \<longrightarrow> o_refs ob \<le> int n \<and> (\<forall>tb. o_body ob = KDomain tb \<longrightarrow> slot_cap tb \<le> n))"

definition running :: "kst \<Rightarrow> bool" where
  "running s \<longleftrightarrow> (\<exists>p. task_self s = Inr p \<and> p \<in> set (k_tasks s))"

definition safe :: "(ptr \<Rightarrow> nat) \<Rightarrow> nat \<Rightarrow> kst \<Rightarrow> bool" where
  "safe d n s \<longleftrightarrow> kinv s d \<and> tables n s \<and> running s"

lemma safe_kinv: "safe d n s \<Longrightarrow> kinv s d"
  by (simp add: safe_def)

lemma safe_refs: "safe d n s \<Longrightarrow> k_objs s q = Some ob \<Longrightarrow> o_refs ob \<le> int n"
  unfolding safe_def tables_def by blast

lemma safe_weaken: "safe d n s \<Longrightarrow> (\<And>p. d' p \<le> d p) \<Longrightarrow> n \<le> n' \<Longrightarrow> safe d' n' s"
  using kinv_weaken [of s d d'] by (fastforce simp: safe_def tables_def)

lemma safe_Suc: "safe d n s \<Longrightarrow> safe d (Suc n) s"
  by (erule safe_weaken) simp_all

lemma keep_refl: "keep s s"
  by (rule keepI) auto

lemma keep_trans:
  assumes "keep s t" "keep t u"
  shows "keep s u"
proof (rule keepI)
  show "k_cpus u = k_cpus s" "k_self u = k_self s" "set (k_tasks s) \<subseteq> set (k_tasks u)" "k_next s \<le> k_next u"
    using assms by (auto simp: keep_def)
next
  fix q ob'' assume u: "k_objs u q = Some ob''"
  have own: "within (own_rights t) (own_rights s)" "k_next s \<le> k_next t" using assms(1) by (simp_all add: keep_def)
  from keep_objD [OF assms(2) u]
  show "(\<exists>ob. k_objs s q = Some ob \<and> later (o_body ob) (o_body ob'')) \<or>
       \<not> q < k_next s \<and> within (body_rights (o_body ob'')) (own_rights s)"
  proof
    assume "\<exists>ob'. k_objs t q = Some ob' \<and> later (o_body ob') (o_body ob'')"
    then obtain ob' where ob': "k_objs t q = Some ob'" "later (o_body ob') (o_body ob'')" by blast
    from keep_objD [OF assms(1) ob'(1)] ob'(2) show ?thesis
      using later_trans within_trans unfolding later_def by metis
  next
    assume "\<not> q < k_next t \<and> within (body_rights (o_body ob'')) (own_rights t)"
    with own show ?thesis using within_trans by auto
  qed
qed

lemma frame_keep:
  assumes fr: "frame {} s t"
  shows "keep s t"
proof (rule keepI)
  show "k_cpus t = k_cpus s" "k_self t = k_self s" "set (k_tasks s) \<subseteq> set (k_tasks t)" "k_next s \<le> k_next t"
    using fr by (auto simp: frame_def)
next
  fix q ob' assume "k_objs t q = Some ob'"
  with frame_objD [OF fr] show "(\<exists>ob. k_objs s q = Some ob \<and> later (o_body ob) (o_body ob')) \<or>
       \<not> q < k_next s \<and> within (body_rights (o_body ob')) (own_rights s)" by fastforce
qed

lemma frame_tables: "frame {} s t \<Longrightarrow> tables n s \<Longrightarrow> tables n t"
  unfolding tables_def
proof (intro allI impI)
  fix q ob' assume fr: "frame {} s t" and tab: "\<forall>q ob. k_objs s q = Some ob \<longrightarrow> o_refs ob \<le> int n \<and> (\<forall>tb. o_body ob = KDomain tb \<longrightarrow> slot_cap tb \<le> n)"
    and t: "k_objs t q = Some ob'"
  from frame_objD [OF fr _ t] obtain ob where "k_objs s q = Some ob" "o_body ob' = o_body ob" "o_refs ob' \<le> o_refs ob" by auto
  with tab show "o_refs ob' \<le> int n \<and> (\<forall>tb. o_body ob' = KDomain tb \<longrightarrow> slot_cap tb \<le> n)" by force
qed

lemma keep_running: "running t" if h: "keep s t" "running s"
proof -
  have "task_self t = task_self s" by (rule keep_self [OF h(1)])
  with h show ?thesis unfolding running_def keep_def by auto
qed

lemma keep_kind:
  assumes "keep s t" "0 < rc t p" "kind s p = Some k" "kinv s d"
  shows "kind t p = Some k"
proof -
  obtain ob' where ob': "k_objs t p = Some ob'" using assms(2) by (auto simp: rc_pos)
  have "p < k_next s" using assms(3) store_bound [OF kinv_store [OF assms(4)]] by (auto simp: kind_def)
  with keep_oldD [OF assms(1) ob'] obtain ob where "k_objs s p = Some ob" "shape (o_body ob') = shape (o_body ob)"
    unfolding later_def by blast
  with assms(3) ob' show ?thesis by (simp add: kind_def o_type_def) (metis shape_type)
qed

lemma owned_live: "kinv s d \<Longrightarrow> 0 < d p \<Longrightarrow> 0 < rc s p"
  using kinv_count [of s d p] by linarith

lemma plus1_own [simp]: "0 < plus1 p d p"
  by (simp add: plus1_def)

lemma plus1_other [simp]: "0 < d q \<Longrightarrow> 0 < plus1 p d q"
  by (simp add: plus1_def)

text \<open>Objects by their type.\<close>

lemma domain_kind:
  assumes "kind s p = Some BR_OBJECT_DOMAIN"
  obtains ob tb where "k_objs s p = Some ob" "o_body ob = KDomain tb" "get_domain p s = Inr tb"
proof -
  from assms obtain ob where ob: "k_objs s p = Some ob" "o_type ob = BR_OBJECT_DOMAIN" by (auto simp: kind_def)
  then obtain tb where "o_body ob = KDomain tb" by (cases "o_body ob") (auto simp: o_type_def)
  with ob that show thesis using get_simps(3) by blast
qed

lemma space_kind:
  assumes "kind s p = Some BR_OBJECT_SPACE"
  obtains ob sp where "k_objs s p = Some ob" "o_body ob = KSpace sp" "get_space p s = Inr sp"
proof -
  from assms obtain ob where ob: "k_objs s p = Some ob" "o_type ob = BR_OBJECT_SPACE" by (auto simp: kind_def)
  then obtain sp where "o_body ob = KSpace sp" by (cases "o_body ob") (auto simp: o_type_def)
  with ob that show thesis using get_simps(4) by blast
qed

lemma memory_kind:
  assumes "kind s p = Some BR_OBJECT_MEMORY"
  obtains ob m where "k_objs s p = Some ob" "o_body ob = KMemory m" "get_memory p s = Inr m"
proof -
  from assms obtain ob where ob: "k_objs s p = Some ob" "o_type ob = BR_OBJECT_MEMORY" by (auto simp: kind_def)
  then obtain m where "o_body ob = KMemory m" by (cases "o_body ob") (auto simp: o_type_def)
  with ob that show thesis using get_simps(2) by blast
qed

lemma task_kind:
  assumes "kind s p = Some BR_OBJECT_TASK"
  obtains ob t where "k_objs s p = Some ob" "o_body ob = KTask t" "get_task p s = Inr t"
proof -
  from assms obtain ob where ob: "k_objs s p = Some ob" "o_type ob = BR_OBJECT_TASK" by (auto simp: kind_def)
  then obtain t where "o_body ob = KTask t" by (cases "o_body ob") (auto simp: o_type_def)
  with ob that show thesis using get_simps(5) by blast
qed

text \<open>The running task and what it points to.\<close>

lemma safe_self:
  assumes "safe d n s"
  obtains p ob t where "task_self s = Inr p" "self_task s = Inr (p, t)" "k_objs s p = Some ob" "o_body ob = KTask t"
    "p \<in> set (k_tasks s)" "0 < rc s p"
proof -
  from assms obtain p where p: "task_self s = Inr p" "p \<in> set (k_tasks s)" by (auto simp: safe_def running_def)
  have inv: "kinv s d" using assms by (simp add: safe_def)
  have "kind s p = Some BR_OBJECT_TASK" using kinv_store [OF inv] p(2) by (simp add: store_ok_def)
  then obtain ob t where "k_objs s p = Some ob" "o_body ob = KTask t" "get_task p s = Inr t" by (rule task_kind)
  with p that kinv_tasks_live [OF inv p(2)] show thesis by (simp add: self_task_def)
qed

text \<open>A bound on the counts of a state in which a task runs is not zero.\<close>

lemma safe_pos: "safe d n s \<Longrightarrow> 0 < n"
proof (rule safe_self)
  fix p ob assume "safe d n s" "k_objs s p = Some ob" "0 < rc s p"
  then show "0 < n" using safe_refs by (force simp: rc_def)
qed

lemma task_links:
  assumes inv: "kinv s d" and "0 < rc s p" "k_objs s p = Some ob" "o_body ob = KTask t"
  shows "0 < rc s (task_space t)" "kind s (task_space t) = Some BR_OBJECT_SPACE"
    "0 < rc s (task_domain t)" "kind s (task_domain t) = Some BR_OBJECT_DOMAIN"
    "\<exists>r. k_chans s (task_channel t) = Some r"
proof -
  have r: "0 < o_refs ob" using assms by (simp add: rc_def)
  show "0 < rc s (task_space t)" "0 < rc s (task_domain t)"
    by (rule kinv_pointee [OF inv assms(3) r], simp add: assms(4))+
  show "kind s (task_space t) = Some BR_OBJECT_SPACE" "kind s (task_domain t) = Some BR_OBJECT_DOMAIN"
    "\<exists>r. k_chans s (task_channel t) = Some r"
    using store_obj(2,3) [OF kinv_store [OF inv] assms(3)] r assms(4) by auto
qed

lemma keep_task:
  assumes "keep s t" "kinv s d" "0 < rc t p" "k_objs s p = Some ob" "o_body ob = KTask tk"
  obtains ob' tk' where "k_objs t p = Some ob'" "o_body ob' = KTask tk'" "task_space tk' = task_space tk"
    "task_domain tk' = task_domain tk" "task_channel tk' = task_channel tk" "in_syscall tk' = in_syscall tk"
proof -
  obtain ob' where ob': "k_objs t p = Some ob'" using assms(3) by (auto simp: rc_pos)
  have "p < k_next s" using store_bound [OF kinv_store [OF assms(2)] assms(4)] .
  with keep_oldD [OF assms(1) ob'] assms(4,5) have "shape (o_body ob') = shape (KTask tk)" unfolding later_def by auto
  with ob' that show thesis unfolding shape_task by blast
qed

section \<open>Single steps\<close>

lemma keep_put: "k_objs s q = Some ob \<Longrightarrow> later (o_body ob) (o_body ob') \<Longrightarrow> keep s (kput q ob' s)"
  by (rule keepI) (auto simp: kput_def split: if_splits)

lemma safe_put:
  assumes s: "safe d n s" and q: "k_objs s q = Some ob" and lat: "later (o_body ob) (o_body ob')"
    and refs: "0 < o_refs ob'" "o_refs ob' \<le> int n'" and wf: "body_wf s (o_body ob')" and ty: "body_typed s (o_body ob')"
    and tab: "\<And>tb. o_body ob' = KDomain tb \<Longrightarrow> slot_cap tb \<le> n'" "n \<le> n'"
    and cnt: "\<And>p. obj_held ob' p + d' p + (if p = q then nat (o_refs ob) else 0) \<le>
        obj_held ob p + d p + (if p = q then nat (o_refs ob') else 0)"
  shows "safe d' n' (kput q ob' s) \<and> keep s (kput q ob' s)"
proof -
  have inv: "kinv s d" and tb: "tables n s" "running s" using s by (simp_all add: safe_def)
  have sh: "shape (o_body ob') = shape (o_body ob)" using lat by (simp add: later_def)
  then have ty': "o_type ob' = o_type ob" using shape_type [of "o_body ob'"] shape_type [of "o_body ob"]
    by (simp add: o_type_def)
  have sc: "same_channel (o_body ob) (o_body ob')"
    using sh by (cases "o_body ob"; cases "o_body ob'") (auto simp: same_channel_def)
  have "kinv (kput q ob' s) d'"
    by (rule kinv_update_obj [OF inv q, where ob' = ob', OF _ _ _ _ _ _ _ ty' sc])
      (use refs wf ty cnt kinv_store [OF inv] in \<open>auto simp: kput_def store_ok_def\<close>)
  moreover have "keep s (kput q ob' s)" by (rule keep_put [OF q lat])
  moreover have "tables n' (kput q ob' s)"
    unfolding tables_def
  proof (intro allI impI)
    fix x y assume "k_objs (kput q ob' s) x = Some y"
    then have "x = q \<and> y = ob' \<or> o_refs y \<le> int n \<and> (\<forall>tb. o_body y = KDomain tb \<longrightarrow> slot_cap tb \<le> n)"
      using tb(1) unfolding tables_def by (cases "x = q") (auto simp: kput_def)
    then show "o_refs y \<le> int n' \<and> (\<forall>tb. o_body y = KDomain tb \<longrightarrow> slot_cap tb \<le> n')" using tab refs(2) by force
  qed
  ultimately show ?thesis using keep_running [OF _ tb(2)] by (simp add: safe_def)
qed

text \<open>Taking a reference does not wrap around while there is room in the count.\<close>

lemma object_ref_ok:
  assumes s: "safe d n s" and n: "n + 1 < 2 ^ 31" and p: "0 < rc s p"
  shows "runs strict (object_ref p s) (\<lambda>t. safe (plus1 p d) (Suc n) t \<and> keep s t)"
proof -
  obtain ob where ob: "k_objs s p = Some ob" "0 < o_refs ob" using p by (auto simp: rc_pos)
  note st = store_obj [OF kinv_store [OF safe_kinv [OF s]] ob(1)]
  have tab: "slot_cap tb \<le> n" if "o_body ob = KDomain tb" for tb
    using s ob(1) that by (auto simp: safe_def tables_def)
  have refs: "o_refs ob \<le> int n" by (rule safe_refs [OF s ob(1)])
  then have inc: "refs_inc (o_refs ob) = o_refs ob + 1" using n by (intro refs_inc_small) (simp add: INT_MAX_def)
  have "safe (plus1 p d) (Suc n) (kput p (ob\<lparr>o_refs := o_refs ob + 1\<rparr>) s) \<and> keep s (kput p (ob\<lparr>o_refs := o_refs ob + 1\<rparr>) s)"
    by (rule safe_put [OF s ob(1)]) (use ob(2) st tab refs le_SucI in \<open>auto simp: obj_held_def plus1_def nat_add_distrib\<close>)
  then show ?thesis using ob(1) inc by (simp add: object_ref_def get_simps refcount_ref_def)
qed

lemma kobject_deref_frame:
  assumes s: "safe (plus1 p d) n s"
  shows "runs strict (kobject_deref (Some p) s) (\<lambda>t. safe d n t \<and> frame {} s t)"
proof -
  let ?v = "k_next s"
  have none: "k_objs s ?v = None" using kinv_store [OF safe_kinv [OF s]] by (simp add: store_ok_def)
  have "runs strict (kobject_deref (Some p) s) (\<lambda>t. kinv (ovr ?v (KMemory undefined) t) d \<and> frame {} s t)"
    using s none by (intro kd.release_owned [where n = "live s + 1"]) (simp_all add: ovr_none safe_def pinned_def)
  then show ?thesis
  proof (rule runs_mono)
    fix t assume t: "kinv (ovr ?v (KMemory undefined) t) d \<and> frame {} s t"
    then have "k_objs t ?v = None" using none frame_objD [of "{}" s t ?v] by (cases "k_objs t ?v") auto
    with t s show "safe d n t \<and> frame {} s t"
      using frame_keep [of s t] frame_tables [of s t n] keep_running [of s t] by (simp add: safe_def ovr_none)
  qed
qed

lemma kobject_deref_ok:
  assumes s: "safe (plus1 p d) n s"
  shows "runs strict (kobject_deref (Some p) s) (\<lambda>t. safe d n t \<and> keep s t)"
  by (rule runs_mono [OF kobject_deref_frame [OF s]]) (use frame_keep in blast)

lemma kobject_deref_null: "kobject_deref None s = Inr s"
  by (simp add: kobject_deref_def)

lemma map_task_ok:
  assumes s: "safe d n s" and p: "0 < rc s p" "kind s p = Some BR_OBJECT_TASK"
    and f: "\<And>t. task_space (f t) = task_space t \<and> task_domain (f t) = task_domain t \<and>
      task_channel (f t) = task_channel t \<and> in_syscall (f t) = in_syscall t \<and> within (task_rights (f t)) (task_rights t)"
  shows "runs strict (map_task p f s) (\<lambda>t. safe d n t \<and> keep s t)"
proof -
  obtain ob t where ob: "k_objs s p = Some ob" "o_body ob = KTask t" "get_task p s = Inr t" using task_kind [OF p(2)] .
  note st = store_obj [OF kinv_store [OF safe_kinv [OF s]] ob(1)]
  have "safe d n (kput p (ob\<lparr>o_body := KTask (f t)\<rparr>) s) \<and> keep s (kput p (ob\<lparr>o_body := KTask (f t)\<rparr>) s)"
    by (rule safe_put [OF s ob(1)]) (use p(1) ob st f safe_refs [OF s ob(1)] in \<open>auto simp: obj_held_def rc_def later_def\<close>)
  then show ?thesis using ob by (simp add: map_task_def get_simps)
qed

section \<open>Domains\<close>

lemma slots_held_entry:
  assumes "slot_lookup tb i = Some (Some q)"
  shows "0 < slots_held tb 0 q"
proof -
  have "i < slot_cap tb" using assms by (auto simp: slot_lookup_alt split: if_splits)
  then have "of_bool (slot_lookup tb i = Some (Some q)) \<le> slots_held tb 0 q"
    unfolding slots_held_def by (intro member_le_sum) auto
  with assms show ?thesis by simp
qed

lemma slots_held_update:
  assumes look: "slot_lookup tb' = (slot_lookup tb)(i := x)" and i: "i < slot_cap tb'" and cap: "slot_cap tb \<le> slot_cap tb'"
  shows "slots_held tb' 0 p + of_bool (slot_lookup tb i = Some (Some p)) =
    slots_held tb 0 p + of_bool (x = Some (Some p))"
proof -
  let ?f = "\<lambda>j. of_bool (slot_lookup tb j = Some (Some p)) :: nat"
  let ?x = "of_bool (x = Some (Some p)) :: nat"
  have "slots_held tb' 0 p = (\<Sum>j < slot_cap tb'. (?f(i := ?x)) j)"
    unfolding slots_held_def by (rule sum.cong) (auto simp: look)
  moreover have "(\<Sum>j < slot_cap tb'. ?f j) = (\<Sum>j < slot_cap tb. ?f j)"
    using cap by (intro sum.mono_neutral_right) (auto simp: slot_lookup_alt)
  ultimately show ?thesis using sum_update [OF i, of ?f "of_bool (x = Some (Some p))"]
    by (simp add: slots_held_def atLeast0LessThan)
qed

text \<open>
  \<open>slot_valid\<close> sees a handle as an \<open>int\<close>, \<open>slot_at\<close> as it is: the two agree as long as the table is
  smaller than the range of \<open>int\<close>.
\<close>

lemma slot_index_small:
  assumes "unat h < 2 ^ 31"
  shows "slot_index h = int (unat h)"
proof -
  have ge: "0 \<le> uint h" by simp
  have u: "uint h < 2 ^ 31" using assms by (metis of_nat_less_iff of_nat_numeral of_nat_power uint_nat)
  then have "take_bit 32 (uint h) = uint h" by (intro take_bit_int_eq_self) auto
  moreover have "signed_take_bit 31 (uint h) = uint h" using u order_trans [OF _ ge]
    by (simp add: signed_take_bit_int_eq_self_iff)
  ultimately show ?thesis
    unfolding slot_index_def by (simp add: sint_uint unsigned_ucast_eq uint_nat [symmetric])
qed

text \<open>
  A handle of more than 32 bits whose low half is the index of an entry passes the check of that half and is
  then looked up outside of the table. Handles of at most 32 bits, and the reserved ones, whose low half is
  negative, do not. \<open>fits strict h\<close>: either such accesses are allowed or the handle is of that kind.
\<close>

definition handle_fits :: "u64 \<Rightarrow> bool" where
  "handle_fits h \<longleftrightarrow> h < 0x100000000 \<or> slot_index h < 0"

definition fits :: "bool \<Rightarrow> u64 \<Rightarrow> bool" where
  "fits strict h \<longleftrightarrow> (strict \<longrightarrow> handle_fits h)"

lemma slot_index_inside:
  assumes h: "handle_fits h" and v: "slot_valid_impl tb (slot_index h)"
  shows "unat h < slot_cap tb"
proof -
  have "h < 0x100000000" using h v by (simp add: handle_fits_def slot_valid_impl_def)
  then have "uint h < 2 ^ 32" by (simp add: word_less_def)
  moreover have "0 \<le> uint h" by simp
  ultimately have t: "take_bit 32 (uint h) = uint h" by (intro take_bit_int_eq_self) auto
  have i: "slot_index h = signed_take_bit 31 (uint h)"
    unfolding slot_index_def using t by (simp add: sint_uint unsigned_ucast_eq)
  have "0 \<le> slot_index h" using v by (simp add: slot_valid_impl_def)
  then have "\<not> bit (uint h) 31" unfolding i by simp
  then have "take_bit (Suc 31) (uint h) = take_bit 31 (uint h)" by (simp only: take_bit_Suc_from_most) simp
  then have "uint h < 2 ^ 31" using t take_bit_int_less_exp [of 31 "uint h"] by simp
  then have "int (unat h) < int (2 ^ 31)" by (simp add: uint_nat [symmetric])
  then have "unat h < 2 ^ 31" by (simp only: of_nat_less_iff)
  then have "slot_index h = int (unat h)" by (rule slot_index_small)
  with v have "int (unat h) < int (slot_cap tb)" by (simp add: slot_valid_impl_def)
  then show ?thesis by (simp only: of_nat_less_iff)
qed

lemma domain_lookup_ok:
  assumes s: "safe d n s" and n: "n + 1 < 2 ^ 31" and h: "fits strict h" and p: "0 < rc s p" "kind s p = Some BR_OBJECT_DOMAIN"
  shows "runs strict (domain_lookup p h ty s) (\<lambda>(po, t). keep s t \<and> (case po of None \<Rightarrow> t = s
     | Some q \<Rightarrow> safe (plus1 q d) (Suc n) t \<and> 0 < rc s q \<and> (ty = BR_OBJECT_ANY \<or> kind s q = Some ty)))"
proof -
  obtain ob tb where ob: "k_objs s p = Some ob" "o_body ob = KDomain tb" "get_domain p s = Inr tb" using domain_kind [OF p(2)] .
  have wf: "slot_inv tb" "\<forall>i. slot_lookup tb i \<noteq> Some None"
    using store_obj(2) [OF kinv_store [OF safe_kinv [OF s]] ob(1)] ob(2) by auto
  have entry: "\<exists>q obq. slot_data tb ! nat i = Some q \<and> k_objs s q = Some obq \<and> 0 < rc s q" if v: "slot_valid_impl tb i" for i
  proof -
    have look: "slot_lookup tb (nat i) = Some (slot_data tb ! nat i)" using v by (auto simp: slot_lookup_def slot_valid_impl_def)
    with wf(2) obtain q where q: "slot_data tb ! nat i = Some q" by (cases "slot_data tb ! nat i") metis+
    then have "0 < rc s q"
      using look slots_held_entry ob p(1) by (intro kinv_pointee [OF safe_kinv [OF s] ob(1)]) (auto simp: rc_def)
    with q show ?thesis by (auto simp: rc_pos)
  qed
  show ?thesis
  proof (cases "slot_valid_impl tb (slot_index h) \<and> unat h < slot_cap tb")
    case False
    then show ?thesis using h slot_index_inside [of h tb] by (auto simp: domain_lookup_def ob(3) keep_refl slot_at_def fits_def)
  next
    case True
    have "slot_cap tb \<le> n" using s ob by (auto simp: safe_def tables_def)
    with True n have idx: "slot_index h = int (unat h)" by (intro slot_index_small) simp
    obtain q obq where q: "slot_data tb ! unat h = Some q" "k_objs s q = Some obq" "0 < rc s q"
      using True entry [of "slot_index h"] by (auto simp: idx)
    have "kind s q = Some (o_type obq)" using q(2) by (simp add: kind_def)
    moreover have "runs strict (object_ref q s) (\<lambda>t. safe (plus1 q d) (Suc n) t \<and> keep s t)" by (rule object_ref_ok [OF s n q(3)])
    ultimately show ?thesis
      using True q by (auto simp: domain_lookup_def ob(3) slot_at_def deref_ptr_def get_simps [OF q(2)] keep_refl
        elim: runs_mono)
  qed
qed


lemma slot_alloc_cap: "slot_cap (snd (slot_alloc_impl z tb)) \<le> 2 * slot_cap tb + 20"
  by (auto simp: slot_alloc_impl_def slot_find_impl_def Let_def split: prod.split)

lemma domain_add_run:
  assumes self: "k_objs s self = Some ob" "o_body ob = KDomain tb" and obq: "k_objs s q = Some obq"
    and tb: "slot_inv tb" and small: "slot_cap tb \<le> 2 ^ 32"
  shows "\<exists>i tb'. domain_add self q s = Inr (of_nat i, kput self
      ((if self = q then ob\<lparr>o_refs := refs_inc (o_refs ob)\<rparr> else ob)\<lparr>o_body := KDomain tb'\<rparr>) (kput q (obq\<lparr>o_refs := refs_inc (o_refs obq)\<rparr>) s)) \<and>
     slot_inv tb' \<and> slot_lookup tb i = None \<and> slot_lookup tb' = (slot_lookup tb)(i \<mapsto> Some q) \<and>
     i < slot_cap tb' \<and> slot_cap tb \<le> slot_cap tb' \<and> slot_cap tb' \<le> 2 * slot_cap tb + 20"
proof -
  obtain i t1 where a: "slot_alloc_impl None tb = (int i, t1)" "slot_inv t1" "i < slot_cap t1" "slot_lookup tb i = None"
    "slot_valid_impl t1 (int i)" "\<forall>j. j \<noteq> i \<longrightarrow> slot_lookup t1 j = slot_lookup tb j" "slot_cap tb \<le> slot_cap t1"
    using slot_alloc_impl_spec [OF tb, of None] by blast
  obtain t2 where b: "slot_put t1 i (Some q) = Inr t2" "slot_inv t2" "slot_lookup t2 = (slot_lookup t1)(i \<mapsto> Some q)"
    "slot_cap t2 = slot_cap t1"
    using slot_put_lookup [OF a(2,5)] by blast
  have cap: "slot_cap t2 \<le> 2 * slot_cap tb + 20" using slot_alloc_cap [of None tb] a(1) b(4) by simp
  then have "i < 2 ^ 64" using a(3) b(4) small by simp
  then have i: "unat (of_nat i :: u64) = i" by (rule unat_of_nat_u64)
  have look: "slot_lookup t2 = (slot_lookup tb)(i \<mapsto> Some q)" using a(6) b(3) by auto
  let ?r = "kput self ((if self = q then ob\<lparr>o_refs := refs_inc (o_refs ob)\<rparr> else ob)\<lparr>o_body := KDomain t2\<rparr>)
      (kput q (obq\<lparr>o_refs := refs_inc (o_refs obq)\<rparr>) s)"
  have "domain_add self q s = Inr (of_nat i, ?r)"
  proof (cases "self = q")
    case True
    then show ?thesis using self obq a(1) b(1) i
      by (simp add: domain_add_def get_simps [OF self(1)] object_ref_def refcount_ref_def kget_def kput_def get_domain_def kbody_def)
  next
    case False
    then show ?thesis using self obq a(1) b(1) i
      by (simp add: domain_add_def get_simps [OF self(1)] object_ref_def refcount_ref_def kget_def kput_def get_domain_def kbody_def
        fun_upd_twist)
  qed
  with b a look cap show ?thesis by (intro exI [of _ i] exI [of _ t2]) simp
qed

lemma domain_add_ok:
  assumes s: "safe d n s" and n: "n + 1 < 2 ^ 31" and self: "0 < rc s self" "kind s self = Some BR_OBJECT_DOMAIN"
    and q: "0 < rc s q"
  shows "runs strict (domain_add self q s) (\<lambda>(h, t). safe d (2 * n + 20) t \<and> keep s t)"
proof -
  obtain ob tb where ob: "k_objs s self = Some ob" "o_body ob = KDomain tb" using domain_kind [OF self(2)] by blast
  obtain obq where obq: "k_objs s q = Some obq" "0 < o_refs obq" using q by (auto simp: rc_pos)
  have wf: "slot_inv tb" "\<forall>i. slot_lookup tb i \<noteq> Some None"
    using store_obj(2) [OF kinv_store [OF safe_kinv [OF s]] ob(1)] ob(2) by auto
  have small: "slot_cap tb \<le> n" using s ob by (auto simp: safe_def tables_def)
  obtain i tb' where r: "domain_add self q s = Inr (of_nat i, kput self
      ((if self = q then ob\<lparr>o_refs := refs_inc (o_refs ob)\<rparr> else ob)\<lparr>o_body := KDomain tb'\<rparr>) (kput q (obq\<lparr>o_refs := refs_inc (o_refs obq)\<rparr>) s))"
     "slot_inv tb'" "slot_lookup tb i = None" "slot_lookup tb' = (slot_lookup tb)(i \<mapsto> Some q)"
     "i < slot_cap tb'" "slot_cap tb \<le> slot_cap tb'" "slot_cap tb' \<le> 2 * slot_cap tb + 20"
    using domain_add_run [OF ob obq(1) wf(1)] small n by auto
  let ?r = "kput q (obq\<lparr>o_refs := refs_inc (o_refs obq)\<rparr>) s"
  let ?o = "if self = q then ob\<lparr>o_refs := refs_inc (o_refs ob)\<rparr> else ob"
  have ref: "safe (plus1 q d) (Suc n) ?r" "keep s ?r"
    using object_ref_ok [OF s n q] obq(1) by (simp_all add: object_ref_def refcount_ref_def get_simps)
  have at: "k_objs ?r self = Some ?o" using ob obq by (auto simp: kput_def)
  have cnt: "o_refs ?o \<le> int (2 * n + 20)" using safe_refs [OF ref(1) at] by simp
  have "0 < rc ?r self" using ref(2) self(1) at ob(1) refs_inc_small [of "o_refs ob"] safe_refs [OF s ob(1)] n
    by (auto simp: rc_def INT_MAX_def)
  then have pos: "0 < o_refs ?o" using at by (simp add: rc_def)
  have held: "slots_held tb' 0 p = slots_held tb 0 p + of_bool (p = q)" for p
    using slots_held_update [OF r(4,5,6), of p] r(3) by auto
  have "safe d (2 * n + 20) (kput self (?o\<lparr>o_body := KDomain tb'\<rparr>) ?r) \<and> keep ?r (kput self (?o\<lparr>o_body := KDomain tb'\<rparr>) ?r)"
    by (rule safe_put [OF ref(1) at])
      (use pos cnt ob(2) wf r small held in \<open>auto simp: obj_held_def plus1_def split: if_splits\<close>)
  then show ?thesis using r(1) ref(2) keep_trans by (auto split: if_splits)
qed

lemma domain_remove_ok:
  assumes s: "safe d n s" and n: "n + 1 < 2 ^ 31" and h: "fits strict h" and self: "0 < rc s self" "kind s self = Some BR_OBJECT_DOMAIN"
    and pin: "pinned self d s"
  shows "runs strict (domain_remove self h s) (\<lambda>(res, t). safe d n t \<and> keep s t)"
proof -
  obtain ob tb where ob: "k_objs s self = Some ob" "o_body ob = KDomain tb" "get_domain self s = Inr tb"
    using domain_kind [OF self(2)] .
  have wf: "slot_inv tb" "\<forall>i. slot_lookup tb i \<noteq> Some None"
    using store_obj(2) [OF kinv_store [OF safe_kinv [OF s]] ob(1)] ob(2) by auto
  have pos: "0 < o_refs ob" using self(1) ob(1) by (simp add: rc_def)
  show ?thesis
  proof (cases "slot_valid_impl tb (slot_index h) \<and> unat h < slot_cap tb")
    case False
    then show ?thesis using s h slot_index_inside [of h tb] by (auto simp: domain_remove_def ob(3) keep_refl slot_at_def fits_def)
  next
    case True
    have small: "slot_cap tb \<le> n" using s ob by (auto simp: safe_def tables_def)
    with True n have idx: "slot_index h = int (unat h)" by (intro slot_index_small) simp
    have valid: "slot_valid_impl tb (int (unat h))" using True idx by simp
    then have "slot_lookup tb (unat h) = Some (slot_data tb ! unat h)" by (simp add: slot_lookup_def)
    with wf(2) obtain q where q: "slot_data tb ! unat h = Some q" "slot_lookup tb (unat h) = Some (Some q)"
      by (cases "slot_data tb ! unat h") metis+
    obtain tb' where rel: "slot_release_impl tb (int (unat h)) = Inr tb'" "slot_inv tb'"
        "slot_lookup tb' = (slot_lookup tb)(unat h := None)" "slot_cap tb' = slot_cap tb"
      using slot_release_lookup [OF wf(1) valid] by blast
    have held: "slots_held tb 0 p = slots_held tb' 0 p + of_bool (p = q)" for p
      using slots_held_update [OF rel(3), of p] rel(4) True q(2) by auto
    have gone: "ovr self (KDomain tb') s = kput self (ob\<lparr>o_body := KDomain tb'\<rparr>) s"
      using ob(1) by (simp add: ovr_def kput_def)
    have "safe (plus1 q d) n (kput self (ob\<lparr>o_body := KDomain tb'\<rparr>) s) \<and> keep s (kput self (ob\<lparr>o_body := KDomain tb'\<rparr>) s)"
      by (rule safe_put [OF s ob(1)])
        (use pos safe_refs [OF s ob(1)] ob(2) wf rel small held in \<open>auto simp: obj_held_def plus1_def\<close>)
    then have inv: "kinv (ovr self (KDomain tb') s) (plus1 q d)" by (simp add: gone safe_def)
    have fin: "runs strict (sbind (get_domain self t) (\<lambda>tb. sbind (slot_release_impl tb (int (unat h))) (\<lambda>tb.
        sbind (kbody self (KDomain tb) t) (\<lambda>s. Inr (BR_SUCCESS, s))))) (\<lambda>(res, t). safe d n t \<and> keep s t)"
      if t: "kinv (ovr self (KDomain tb') t) d" "frame {} s t" for t
    proof -
      obtain ob' where ob': "k_objs t self = Some ob'" "0 < o_refs ob'"
        using pinned_alive [OF pin _ t(2,1)] ob(1) by (auto simp: rc_pos)
      have body: "o_body ob' = KDomain tb" using frame_objD [OF t(2) _ ob'(1)] ob by auto
      have o: "ovr self (KDomain tb') t = kput self (ob'\<lparr>o_body := KDomain tb'\<rparr>) t" (is "_ = ?t")
        using ob'(1) by (simp add: ovr_def kput_def)
      have k: "keep t ?t" by (rule keep_put [OF ob'(1)]) (simp add: body)
      have "tables n t" using s frame_tables [OF t(2)] by (simp add: safe_def)
      then have "tables n ?t" using rel(4) small ob'(1) by (auto simp: tables_def kput_def)
      moreover have ks: "keep s ?t" by (rule keep_trans [OF frame_keep [OF t(2)] k])
      moreover have "running ?t" using s by (intro keep_running [OF ks]) (simp add: safe_def)
      ultimately show ?thesis using t(1) rel(1) body o by (simp add: get_simps [OF ob'(1)] safe_def)
    qed
    show ?thesis
      using True q idx
      by (simp add: domain_remove_def ob(3) slot_at_def)
        (rule runs_mono [OF kd.release_owned [where n = "live s + 1", OF inv pin]], use fin in auto)
  qed
qed


section \<open>New objects\<close>

lemma safe_vmm [simp]: "safe d n (s\<lparr>k_vmm := v\<rparr>) = safe d n s"
proof -
  have "kinv (s\<lparr>k_vmm := v\<rparr>) d = kinv s d" by (rule kinv_cong) simp_all
  moreover have "running (s\<lparr>k_vmm := v\<rparr>) = running s" by (simp add: running_def task_self_def cpu_self_def)
  ultimately show ?thesis by (simp add: safe_def tables_def)
qed

lemma own_rights_vmm [simp]: "own_rights (s\<lparr>k_vmm := v\<rparr>) = own_rights s"
proof -
  have "task_self (s\<lparr>k_vmm := v\<rparr>) = task_self s" by (simp add: task_self_def cpu_self_def)
  then show ?thesis by (simp add: own_rights_def split: sum.split)
qed

lemma keep_vmm [simp]: "keep s (t\<lparr>k_vmm := v\<rparr>) = keep s t"
  by (simp add: keep_def)

lemma keep_vmm' [simp]: "keep (s\<lparr>k_vmm := v\<rparr>) t = keep s t"
  by (simp add: keep_def)

lemma kind_vmm [simp]: "kind (s\<lparr>k_vmm := v\<rparr>) = kind s"
  by (simp add: kind_def fun_eq_iff)

lemma rc_vmm [simp]: "rc (s\<lparr>k_vmm := v\<rparr>) = rc s"
  by (simp add: rc_def fun_eq_iff)

lemma create_ok:
  assumes s: "safe d n s" and wf: "body_wf s b" and ty: "body_typed s b" and ch: "fresh_channel s b"
    and held: "\<And>p. body_held b p + d' p \<le> d p" and tab: "\<And>tb. b = KDomain tb \<Longrightarrow> slot_cap tb \<le> n"
    and rights: "within (body_rights b) (own_rights s0)" and base: "keep s0 s"
  shows "runs strict (case alloc_make b s of (p, s) \<Rightarrow> sbind (object_init p s) (\<lambda>s. Inr (p, s)))
     (\<lambda>(p, t). safe (plus1 p d') n t \<and> keep s0 t \<and> kind t p = Some (body_type b) \<and> p = k_next s \<and> k_chans t = k_chans s \<and>
       k_objs t = (k_objs s)(p \<mapsto> \<lparr>o_id = k_id s, o_refs = 1, o_body = b\<rparr>))"
proof -
  let ?ob = "\<lparr>o_id = k_id s, o_refs = 1, o_body = b\<rparr>"
  let ?t = "s\<lparr>k_next := k_next s + 1, k_objs := (k_objs s)(k_next s \<mapsto> ?ob), k_id := k_id s + 1, k_init := True,
      k_global := (if k_init s then k_global s else []) @ [k_next s]\<rparr>"
  have run: "(case alloc_make b s of (p, s) \<Rightarrow> sbind (object_init p s) (\<lambda>s. Inr (p, s))) = Inr (k_next s, ?t)"
    by (simp add: alloc_make_def object_init_def kget_def kput_def refcount_init_def)
  have "kinv ?t (plus1 (k_next s) d')"
    by (rule kinv_new_obj [OF safe_kinv [OF s], where ob = ?ob]) (use wf ty ch held in auto)
  moreover have "tables n ?t" using s tab safe_pos [OF s] by (auto simp: safe_def tables_def)
  moreover have "keep s0 ?t"
  proof (rule keepI)
    show "k_cpus ?t = k_cpus s0" "k_self ?t = k_self s0" "set (k_tasks s0) \<subseteq> set (k_tasks ?t)" "k_next s0 \<le> k_next ?t"
      using base by (auto simp: keep_def)
  next
    fix q ob' assume "k_objs ?t q = Some ob'"
    then show "(\<exists>ob. k_objs s0 q = Some ob \<and> later (o_body ob) (o_body ob')) \<or>
       \<not> q < k_next s0 \<and> within (body_rights (o_body ob')) (own_rights s0)"
      using rights keep_objD [OF base, of q ob'] base by (auto simp: keep_def split: if_splits)
  qed
  moreover have "task_self ?t = task_self s" by (simp add: task_self_def cpu_self_def)
  then have "running ?t" using s by (simp add: safe_def running_def)
  ultimately show ?thesis unfolding run by (simp add: safe_def kind_def o_type_def)
qed

lemma memory_create_ok:
  assumes s: "safe d n s"
  shows "runs strict (memory_create ty r s) (\<lambda>(p, t). safe (plus1 p d) n t \<and> keep s t \<and> kind t p = Some BR_OBJECT_MEMORY)"
  unfolding memory_create_def Let_def
  by (rule runs_mono [OF create_ok [OF s, where d' = d and ?s0.0 = s]]) (auto simp: fresh_channel_def keep_refl)

lemma domain_create_ok:
  assumes s: "safe d n s"
  shows "runs strict (domain_create s) (\<lambda>(p, t). safe (plus1 p d) n t \<and> keep s t \<and> kind t p = Some BR_OBJECT_DOMAIN)"
  unfolding domain_create_def Let_def
  by (rule runs_mono [OF create_ok [OF s, where d' = d and ?s0.0 = s]])
    (auto simp: fresh_channel_def slot_inv_init slots_held_def keep_refl, auto simp: slot_init_impl_def)

lemma space_create_ok:
  assumes s: "safe d n s"
  shows "runs strict (space_create flags s) (\<lambda>(p, t). safe (plus1 p d) n t \<and> keep s t \<and> kind t p = Some BR_OBJECT_SPACE)"
proof -
  have c: "runs strict (case alloc_make (KSpace sp) (s\<lparr>k_vmm := v\<rparr>) of (p, s) \<Rightarrow> sbind (object_init p s) (\<lambda>s. Inr (p, s)))
      (\<lambda>(p, t). safe (plus1 p d) n t \<and> keep s t \<and> kind t p = Some BR_OBJECT_SPACE)" if "space_mmaps sp = []" for sp v
    using s that by (intro runs_mono [OF create_ok [where d' = d and d = d and n = n and ?s0.0 = s]])
      (auto simp: fresh_channel_def mmaps_held_def keep_refl)
  show ?thesis
    unfolding space_create_def Let_def runs_sbind
    by (rule runs_on_vmm [OF runs_vmm_space_create], simp only: prod.case runs_sbind,
        rule runs_mono [OF runs_range_alloc_unused], rule c, simp)
qed

lemma channel_create_ok:
  assumes s: "safe d n s"
  shows "case channel_create s of (c, t) \<Rightarrow> safe d n t \<and> keep s t \<and> k_chans t c \<noteq> None \<and> c = k_next s \<and> k_objs t = k_objs s"
proof -
  let ?t = "snd (channel_create s)"
  have "kinv ?t d"
    by (rule kinv_new_chan [OF safe_kinv [OF s]])
      (simp add: channel_create_def, rule ring_inv_init, rule ring_list_init, simp add: ring_init_impl_def)
  moreover have "keep s ?t" by (rule keepI) (auto simp: channel_create_def)
  moreover have "running ?t" using s by (intro keep_running [OF \<open>keep s ?t\<close>]) (simp add: safe_def)
  moreover have "tables n ?t" using s by (simp add: channel_create_def safe_def tables_def)
  ultimately show ?thesis by (simp add: channel_create_def safe_def)
qed

lemma fresh_channel_next:
  assumes st: "store_ok s" and objs: "k_objs t = k_objs s" and c: "task_channel tk = k_next s"
  shows "fresh_channel t (KTask tk)"
proof -
  have "task_channel t' \<noteq> k_next s" if "k_objs s q = Some ob" "o_body ob = KTask t'" for q ob t'
    using store_obj(2) [OF st that(1)] that(2) st by (auto simp: store_ok_def)
  then show ?thesis using objs c by (auto simp: fresh_channel_def)
qed

lemma task_create_ok:
  assumes s: "safe d n s" and n: "n + 1 < 2 ^ 31" and sp: "0 < rc s sp" "kind s sp = Some BR_OBJECT_SPACE"
    and rights: "within rights (own_rights s)"
  shows "runs strict (task_create sp rights flags s) (\<lambda>(p, t). safe (plus1 p d) (Suc n) t \<and> keep s t \<and> kind t p = Some BR_OBJECT_TASK)"
proof -
  have last: "runs strict (case alloc_make (KTask tk) (s2\<lparr>k_vmm := v\<rparr>) of (p, s) \<Rightarrow> sbind (object_init p s) (\<lambda>s. Inr (p, s)))
      (\<lambda>(p, t). safe (plus1 p d) (Suc n) t \<and> keep s t \<and> kind t p = Some BR_OBJECT_TASK)"
    if h: "safe (plus1 dom (plus1 sp d)) (Suc n) s1" "keep s s1" "kind s1 dom = Some BR_OBJECT_DOMAIN"
      "channel_create s1 = (c, s2)" "task_space tk = sp" "task_domain tk = dom" "task_channel tk = c" "task_rights tk = rights" for s1 dom c s2 tk v
  proof -
    have cc: "safe (plus1 dom (plus1 sp d)) (Suc n) s2" "keep s1 s2" "k_chans s2 c \<noteq> None" "c = k_next s1" "k_objs s2 = k_objs s1"
      using channel_create_ok [OF h(1)] h(4) by auto
    have k: "kind s2 x = kind s1 x" for x using cc(5) by (simp add: kind_def)
    have "0 < rc s1 sp" using owned_live [OF safe_kinv [OF h(1)]] by simp
    then have "kind s1 sp = Some BR_OBJECT_SPACE" using keep_kind [OF h(2) _ sp(2) safe_kinv [OF s]] by simp
    moreover have "fresh_channel (s2\<lparr>k_vmm := v\<rparr>) (KTask tk)"
      using fresh_channel_next [OF kinv_store [OF safe_kinv [OF h(1)]]] cc h(7) by simp
    moreover have "safe (plus1 dom (plus1 sp d)) (Suc n) (s2\<lparr>k_vmm := v\<rparr>)" using cc(1) by simp
    moreover have "keep s (s2\<lparr>k_vmm := v\<rparr>)" using keep_trans [OF h(2) cc(2)] by simp
    ultimately show ?thesis
      using h cc(3) k rights by (intro runs_mono [OF create_ok [where d' = d and n = "Suc n" and ?s0.0 = s]])
        (auto simp: plus1_def)
  qed
  have mid: "runs strict (let (channel, s) = channel_create s1 in
       sbind (on_pmm (\<lambda>p. heap_alloc p KERNEL_STACK_SIZE) s) (\<lambda>(res, s). sbind (unwrap res) (\<lambda>stack. f channel s stack)))
       (\<lambda>(p, t). safe (plus1 p d) (Suc n) t \<and> keep s t \<and> kind t p = Some BR_OBJECT_TASK)"
    if h: "safe (plus1 dom (plus1 sp d)) (Suc n) s1" "keep s s1" "kind s1 dom = Some BR_OBJECT_DOMAIN"
      and f: "\<And>c s2 v stack. channel_create s1 = (c, s2) \<Longrightarrow> runs strict (f c (s2\<lparr>k_vmm := v\<rparr>) stack)
        (\<lambda>(p, t). safe (plus1 p d) (Suc n) t \<and> keep s t \<and> kind t p = Some BR_OBJECT_TASK)" for s1 dom f
    by (cases "channel_create s1", simp only: Let_def prod.case runs_sbind, rule runs_on_pmm [OF runs_heap_alloc])
      (auto simp: unwrap_def f split: sum.split)
  show ?thesis
    unfolding task_create_def runs_sbind
    apply (rule runs_mono [OF object_ref_ok [OF s n sp(1)]])
    apply (elim conjE)
    apply (rule runs_mono [OF domain_create_ok], assumption)
    apply clarify
    apply (rule mid, assumption, erule (1) keep_trans, assumption)
    apply (unfold Let_def)
    apply (rule last, assumption, erule (1) keep_trans, assumption, assumption)
    apply simp_all
    done
qed

section \<open>Spaces\<close>

lemma owned_kind:
  assumes "safe d n s" "keep s t" "safe d' n' t" "0 < d' p" "kind s p = Some k"
  shows "kind t p = Some k"
  using keep_kind [OF assms(2) owned_live [OF safe_kinv [OF assms(3)] assms(4)] assms(5) safe_kinv [OF assms(1)]] .

lemma space_body_ok:
  assumes s: "safe d n s" and self: "0 < rc s self" "k_objs s self = Some ob" "o_body ob = KSpace sp"
    and held: "\<And>p. mmaps_held (space_mmaps sp') p + d' p \<le> mmaps_held (space_mmaps sp) p + d p"
  shows "runs strict (kbody self (KSpace sp') s) (\<lambda>t. safe d' n t \<and> keep s t)"
proof -
  have pos: "0 < o_refs ob" using self by (simp add: rc_def)
  have "safe d' n (kput self (ob\<lparr>o_body := KSpace sp'\<rparr>) s) \<and> keep s (kput self (ob\<lparr>o_body := KSpace sp'\<rparr>) s)"
    by (rule safe_put [OF s self(2)]) (use pos safe_refs [OF s self(2)] self held in \<open>auto simp: obj_held_def\<close>)
  then show ?thesis by (simp add: get_simps [OF self(2)])
qed

lemma space_mmap_create_ok:
  assumes s: "safe d n s" and n: "n + 1 < 2 ^ 31" and self: "0 < d self" "kind s self = Some BR_OBJECT_SPACE"
    and mem: "0 < d mem" "kind s mem = Some BR_OBJECT_MEMORY"
  shows "runs strict (space_mmap_create self mem offset r flags s) (\<lambda>t. safe d (Suc n) t \<and> keep s t)"
proof -
  have last: "runs strict (sbind (get_memory mem t) (\<lambda>m. let pmm = mk_range (memory_base m + offset) (rsize r) in
       sbind (on_vmm (vmm_map w r pmm (BR_MEM_USER OR flags)) t) (\<lambda>(_, s).
       Inr (s\<lparr>k_vmm := snd (vmm_flush w r (k_vmm s))\<rparr>)))) (\<lambda>t. safe d (Suc n) t \<and> keep s t)"
    if t: "safe d (Suc n) t" "keep s t" for t w
  proof -
    obtain m where "get_memory mem t = Inr m" using memory_kind [OF owned_kind [OF s t(2,1) mem]] by blast
    then show ?thesis using t by (simp add: Let_def) (intro runs_on_vmm runs_intros, simp)
  qed
  have mid: "runs strict (sbind (get_space self s1) (\<lambda>sp.
      sbind (kbody self (KSpace (sp\<lparr>space_mmaps := space_mmaps sp @ [\<lparr>mm_range = r, mm_object = mem, mm_offset = offset\<rparr>]\<rparr>)) s1) (f sp)))
      (\<lambda>t. safe d (Suc n) t \<and> keep s t)"
    if s1: "safe (plus1 mem d) (Suc n) s1" "keep s s1"
      and f: "\<And>sp t. safe d (Suc n) t \<Longrightarrow> keep s t \<Longrightarrow> runs strict (f sp t) (\<lambda>t. safe d (Suc n) t \<and> keep s t)" for s1 f
  proof -
    have own: "0 < plus1 mem d self" using self by simp
    obtain ob sp where sp: "k_objs s1 self = Some ob" "o_body ob = KSpace sp" "get_space self s1 = Inr sp"
      using space_kind [OF owned_kind [OF s s1(2,1) own self(2)]] .
    show ?thesis
      unfolding runs_sbind sp(3) runs_Inr
      by (rule runs_mono [OF space_body_ok [where d' = d, OF s1(1) owned_live [OF safe_kinv [OF s1(1)] own] sp(1,2)]])
        (use s1 f keep_trans in \<open>auto simp: mmaps_held_def plus1_def\<close>)
  qed
  have "0 < rc s mem" using owned_live [OF safe_kinv [OF s] mem(1)] .
  then show ?thesis
    unfolding space_mmap_create_def Let_def runs_sbind [of strict "object_ref mem s"]
    by (intro runs_mono [OF object_ref_ok [OF s n]] mid) (use last in \<open>auto simp: Let_def\<close>)
qed

lemma space_map_ok:
  assumes s: "safe d n s" and n: "n + 1 < 2 ^ 31" and self: "0 < d self" "kind s self = Some BR_OBJECT_SPACE"
    and mem: "0 < d mem" "kind s mem = Some BR_OBJECT_MEMORY"
  shows "runs strict (space_map self mem offset sz vaddr flags s) (\<lambda>(res, t). safe d (Suc n) t \<and> keep s t)"
proof -
  obtain m where m: "get_memory mem s = Inr m" using memory_kind [OF mem(2)] by blast
  obtain ob sp where sp: "k_objs s self = Some ob" "o_body ob = KSpace sp" "get_space self s = Inr sp"
    using space_kind [OF self(2)] .
  have pos: "0 < rc s self" by (rule owned_live [OF safe_kinv [OF s] self(1)])
  have fin: "runs strict (sbind (kbody self (KSpace (sp\<lparr>space_alloc := alloc\<rparr>)) s) f) (\<lambda>(res, t). safe d (Suc n) t \<and> keep s t)"
    if f: "\<And>t. safe d n t \<Longrightarrow> keep s t \<Longrightarrow> runs strict (f t) (\<lambda>(res, t). safe d (Suc n) t \<and> keep s t)" for alloc f
    unfolding runs_sbind by (rule runs_mono [OF space_body_ok [where d' = d, OF s pos sp(1,2)]]) (use f in auto)
  have make: "runs strict (sbind (space_mmap_create self mem offset r flags t) (\<lambda>s. Inr (Inr r, s))) (\<lambda>(res, t). safe d (Suc n) t \<and> keep s t)"
    if t: "safe d n t" "keep s t" for t r
    unfolding runs_sbind
    by (rule runs_mono [OF space_mmap_create_ok [OF t(1) n self(1) owned_kind [OF s t(2,1) self] mem(1) owned_kind [OF s t(2,1) mem]]])
      (use t keep_trans in auto)
  have any: "runs strict (sbind (range_alloc_alloc (space_alloc sp) z) (\<lambda>(r, alloc).
      sbind (kbody self (KSpace (sp\<lparr>space_alloc := alloc\<rparr>)) s) (\<lambda>s.
      if rsize r = 0 then Inr (Inl BR_OUT_OF_MEMORY, s)
      else sbind (space_mmap_create self mem offset r flags s) (\<lambda>s. Inr (Inr r, s))))) (\<lambda>(res, t). safe d (Suc n) t \<and> keep s t)" for z
    unfolding runs_sbind [of strict "range_alloc_alloc (space_alloc sp) z"]
    by (rule runs_mono [OF runs_range_alloc_alloc]) (auto simp del: runs_sbind intro!: fin make intro: safe_Suc)
  have fixed: "runs strict (sbind (range_alloc_used (space_alloc sp) r) (\<lambda>alloc.
      sbind (kbody self (KSpace (sp\<lparr>space_alloc := alloc\<rparr>)) s) (\<lambda>s.
      sbind (space_mmap_create self mem offset r flags s) (\<lambda>s. Inr (Inr r :: usize_range br_value, s))))) (\<lambda>(res, t). safe d (Suc n) t \<and> keep s t)" for r
    unfolding runs_sbind [of strict "range_alloc_used (space_alloc sp) r"]
    by (rule runs_mono [OF runs_range_alloc_used]) (auto simp del: runs_sbind intro!: fin make)
  show ?thesis
    using safe_weaken [OF s, of d "Suc n"] keep_refl [of s] any fixed by (simp add: space_map_def m sp(3) Let_def del: runs_sbind)
qed

lemma space_unmap_ok:
  assumes s: "safe d n s" and self: "0 < d self" "kind s self = Some BR_OBJECT_SPACE"
  shows "runs strict (space_unmap self r s) (\<lambda>(res, t). safe d n t \<and> keep s t)"
proof -
  obtain ob sp where sp: "k_objs s self = Some ob" "o_body ob = KSpace sp" "get_space self s = Inr sp"
    using space_kind [OF self(2)] .
  have pos: "0 < rc s self" by (rule owned_live [OF safe_kinv [OF s] self(1)])
  have "runs strict (space_mmap_destroy kobject_deref self i s) (\<lambda>t. safe d n t \<and> keep s t)"
    if i: "i < length (space_mmaps sp)" for i
  proof -
    let ?sp = "sp\<lparr>space_mmaps := list_splice i 1 (space_mmaps sp)\<rparr>"
    let ?q = "mm_object (space_mmaps sp ! i)"
    have o: "ovr self (KSpace ?sp) (s\<lparr>k_vmm := v\<rparr>) = (kput self (ob\<lparr>o_body := KSpace ?sp\<rparr>) s)\<lparr>k_vmm := v\<rparr>" for v
      using sp(1) by (simp add: ovr_def kput_def)
    have "safe (plus1 ?q d) n (kput self (ob\<lparr>o_body := KSpace ?sp\<rparr>) s)"
      using space_body_ok [OF s pos sp(1,2), of ?sp "plus1 ?q d"] kd.mmaps_held_splice [OF i]
      by (auto simp: get_simps [OF sp(1)] plus1_def)
    then have inv: "kinv (ovr self (KSpace ?sp) (s\<lparr>k_vmm := v\<rparr>)) (plus1 ?q d)" for v
      unfolding o using safe_kinv [OF iffD2 [OF safe_vmm]] by blast
    have fin: "runs strict (sbind (get_space self t) (\<lambda>sp.
       sbind (kbody self (KSpace (sp\<lparr>space_mmaps := list_splice i 1 (space_mmaps sp)\<rparr>)) t) (\<lambda>s.
       Inr (s\<lparr>k_vmm := snd (vmm_flush (space_vmm sp) w (k_vmm s))\<rparr>)))) (\<lambda>t. safe d n t \<and> keep s t)"
      if t: "kinv (ovr self (KSpace ?sp) t) d" "frame {} s t" for t w
    proof -
      have "0 < rc t self" using kinv_count [OF t(1), of self] self(1) by (simp add: ovr_rc)
      then obtain ob' where ob': "k_objs t self = Some ob'" by (auto simp: rc_pos)
      have body: "o_body ob' = KSpace sp" using frame_objD [OF t(2) _ ob'] sp by auto
      have o: "ovr self (KSpace ?sp) t = kput self (ob'\<lparr>o_body := KSpace ?sp\<rparr>) t" (is "_ = ?t")
        using ob' by (simp add: ovr_def kput_def)
      have "keep t ?t" by (rule keep_put [OF ob']) (simp add: body)
      then have ks: "keep s ?t" by (rule keep_trans [OF frame_keep [OF t(2)]])
      have "tables n t" using s frame_tables [OF t(2)] by (simp add: safe_def)
      then have "tables n ?t" using ob' by (auto simp: tables_def kput_def)
      moreover have "running ?t" using s by (intro keep_running [OF ks]) (simp add: safe_def)
      ultimately have "safe d n ?t" using t(1) unfolding o safe_def by blast
      then show ?thesis using ks body by (simp add: get_simps [OF ob'])
    qed
    have "pinned self d (s\<lparr>k_vmm := v\<rparr>)" for v using self by (simp add: pinned_def)
    then have rel: "runs strict (kobject_deref (Some ?q) (s\<lparr>k_vmm := v\<rparr>)) (\<lambda>t. kinv (ovr self (KSpace ?sp) t) d \<and> frame {} s t)" for v
      using kd.release_owned [where n = "live s + 1", OF inv, of v] by (simp add: kd.vmm_simps)
    show ?thesis
      using i by (simp add: space_mmap_destroy_def sp(3) not_le Let_def del: runs_sbind)
        (simp only: runs_sbind, intro runs_on_vmm runs_intros, simp only: prod.case runs_sbind,
          rule runs_mono [OF rel], use fin in simp)
  qed
  moreover have "i < length (space_mmaps sp)" if "mmap_find (space_mmaps sp) r 0 = Some i" for i
  proof -
    have "mmap_find ms r k = Some i \<Longrightarrow> k \<le> i \<and> i < k + length ms" for ms k
      by (induction ms arbitrary: k) (fastforce split: if_splits)+
    from this [OF that] show ?thesis by simp
  qed
  ultimately show ?thesis
    using s by (auto simp: space_unmap_def sp(3) keep_refl split: option.split)
qed


end
