(* ===== verification/Ipc_Safe.thy ===== *)
theory Ipc_Safe
  imports Safety
begin

text \<open>
  Messages keep the reference counts: packing a message into a parcel takes a reference to every
  object it names, a parcel in a channel is counted as a holder of its objects, and unpacking hands
  the references to the receiver's domain.
\<close>

section \<open>Tasks that stay\<close>

text \<open>A task stays while the running code owns a reference to it, or it is in the task list.\<close>

definition stays :: "(ptr \<Rightarrow> nat) \<Rightarrow> kst \<Rightarrow> ptr \<Rightarrow> bool" where
  "stays d s p \<longleftrightarrow> 0 < d p \<or> p \<in> set (k_tasks s)"

definition task_at :: "kst \<Rightarrow> ptr \<Rightarrow> task \<Rightarrow> bool" where
  "task_at s p t \<longleftrightarrow> (\<exists>ob. k_objs s p = Some ob \<and> o_body ob = KTask t)"

lemma stays_live: "safe d n s \<Longrightarrow> stays d s p \<Longrightarrow> 0 < rc s p"
  unfolding stays_def using owned_live [OF safe_kinv] kinv_tasks_live [OF safe_kinv] by blast

lemma stays_keep: "stays d s p \<Longrightarrow> keep s t \<Longrightarrow> (\<And>q. 0 < d q \<Longrightarrow> 0 < d' q) \<Longrightarrow> stays d' t p"
  unfolding stays_def keep_def by blast

lemma task_at_links:
  assumes "safe d n s" "stays d s p" "task_at s p tk"
  shows "0 < rc s (task_domain tk)" "kind s (task_domain tk) = Some BR_OBJECT_DOMAIN"
    "\<exists>r. k_chans s (task_channel tk) = Some r"
  using task_links [OF safe_kinv [OF assms(1)] stays_live [OF assms(1,2)]] assms(3) unfolding task_at_def by blast+

lemma task_at_keep:
  assumes "safe d n s" "task_at s p tk" "keep s t" "safe d' n' t" "stays d' t p"
  obtains tk' where "task_at t p tk'" "task_domain tk' = task_domain tk" "task_channel tk' = task_channel tk"
    "in_syscall tk' = in_syscall tk"
proof -
  from assms(2) obtain ob where ob: "k_objs s p = Some ob" "o_body ob = KTask tk" unfolding task_at_def by blast
  show thesis
    by (rule keep_task [OF assms(3) safe_kinv [OF assms(1)] stays_live [OF assms(4,5)] ob])
      (use that in \<open>auto simp: task_at_def\<close>)
qed

text \<open>The domain and the channel of a task that stays remain usable.\<close>

lemma domain_stays:
  assumes "safe d n s" "task_at s p tk" "keep s t" "safe d' n' t" "stays d' t p"
  shows "0 < rc t (task_domain tk)" "kind t (task_domain tk) = Some BR_OBJECT_DOMAIN"
    "\<exists>r. k_chans t (task_channel tk) = Some r"
proof -
  obtain tk' where tk': "task_at t p tk'" "task_domain tk' = task_domain tk" "task_channel tk' = task_channel tk"
    using task_at_keep [OF assms] by blast
  show "0 < rc t (task_domain tk)" "kind t (task_domain tk) = Some BR_OBJECT_DOMAIN"
    "\<exists>r. k_chans t (task_channel tk) = Some r"
    using task_at_links [OF assms(4,5) tk'(1)] by (simp_all add: tk'(2,3))
qed

section \<open>Parcels\<close>

definition in_parcel :: "parcel \<Rightarrow> ptr \<Rightarrow> nat" where
  "in_parcel pc p = count_list (parcel_objs pc) (Some p)"

definition dplus :: "(ptr \<Rightarrow> nat) \<Rightarrow> (ptr \<Rightarrow> nat) \<Rightarrow> ptr \<Rightarrow> nat" where
  "dplus d e = (\<lambda>p. d p + e p)"

lemma dplus_pos: "0 < d p \<Longrightarrow> 0 < dplus d e p"
  by (simp add: dplus_def)

lemma in_parcel_zero: "in_parcel zero_parcel p = 0"
  by (simp add: in_parcel_def zero_parcel_def count_list_0_iff)

lemma parcel_ok_zero: "parcel_ok zero_parcel"
  by (simp add: parcel_ok_def zero_parcel_def)

lemma count_list_update:
  "count_list (xs[i := y]) x \<le> count_list xs x + of_bool (y = x)"
  by (induction xs arbitrary: i) (auto split: nat.split)

lemma parcel_deinit_from:
  assumes "i \<le> length os" "safe (\<lambda>p. d p + count_list (drop i os) (Some p)) n s" "parcel_objs pc = os"
  shows "runs strict (for_each (parcel_deinit_obj pc) [i..<length os] s) (\<lambda>t. safe d n t \<and> frame {} s t)"
  using assms
proof (induction "length os - i" arbitrary: i s)
  case 0
  then show ?case by (simp add: frame_refl)
next
  case (Suc k)
  from Suc.hyps(2) have i: "i < length os" by simp
  have split: "drop i os = os ! i # drop (Suc i) os" using i by (simp add: Cons_nth_drop_Suc)
  have rest: "runs strict (for_each (parcel_deinit_obj pc) [Suc i..<length os] t) (\<lambda>u. safe d n u \<and> frame {} s u)"
    if t: "safe (\<lambda>p. d p + count_list (drop (Suc i) os) (Some p)) n t" "frame {} s t" for t
    using Suc.hyps(1) [of "Suc i" t] Suc.hyps(2) i t Suc.prems(3)
    by (intro runs_mono [OF Suc.hyps(1)]) (auto intro: frame_trans)
  show ?case
  proof (cases "os ! i")
    case None
    then show ?thesis
      using rest [of s] Suc.prems i by (simp add: upt_conv_Cons parcel_deinit_obj_def split frame_refl)
  next
    case (Some q)
    have "safe (plus1 q (\<lambda>p. d p + count_list (drop (Suc i) os) (Some p))) n s"
      by (rule safe_weaken [OF Suc.prems(2)]) (auto simp: split Some plus1_def)
    then show ?thesis
      using Some Suc.prems(3) i rest
      by (simp add: upt_conv_Cons parcel_deinit_obj_def) (intro runs_mono [OF kobject_deref_frame], auto)
  qed
qed

lemma parcel_deinit_frame:
  assumes "parcel_ok pc" "safe (dplus d (in_parcel pc)) n s"
  shows "runs strict (parcel_deinit pc s) (\<lambda>t. safe d n t \<and> frame {} s t)"
  using parcel_deinit_from [of 0 "parcel_objs pc" d n s pc] assms
  by (simp add: parcel_deinit_def parcel_ok_def dplus_def in_parcel_def)

lemma parcel_deinit_ok:
  assumes "parcel_ok pc" "safe (dplus d (in_parcel pc)) n s"
  shows "runs strict (parcel_deinit pc s) (\<lambda>t. safe d n t \<and> keep s t)"
  by (rule runs_mono [OF parcel_deinit_frame [OF assms]]) (use frame_keep in blast)

text \<open>The arguments of a message that are handles have at most 32 bits, or longer ones are allowed.\<close>

definition msg_fits :: "bool \<Rightarrow> br_msg \<Rightarrow> bool" where
  "msg_fits strict msg \<longleftrightarrow> (\<forall>i < BR_MSG_ARG_COUNT. msg_flags msg AND BR_MSG_HND i \<noteq> 0 \<longrightarrow> fits strict (msg_args msg ! i))"

lemma parcel_pack_from_ok:
  assumes "safe (dplus d (in_parcel pc)) n s" "n + length is < 2 ^ 31" "parcel_ok pc" "task_at s p tk" "stays d s p"
    "\<forall>i \<in> set is. i < BR_MSG_ARG_COUNT" "msg_fits strict msg"
  shows "runs strict (parcel_pack_from (task_domain tk) msg is pc s) (\<lambda>(res, pc', t). keep s t \<and> parcel_ok pc' \<and>
     safe (if res = BR_SUCCESS then dplus d (in_parcel pc') else d) (n + length is) t)"
  using assms
proof (induction "is" arbitrary: pc s tk n)
  case Nil
  then show ?case by (simp add: keep_refl)
next
  case (Cons i "is")
  show ?case
  proof (cases "msg_flags msg AND BR_MSG_HND i \<noteq> 0")
    case False
    have "n + length is < 2 ^ 31" using Cons.prems(2) by simp
    from Cons.IH [OF Cons.prems(1) this Cons.prems(3-5) _ Cons.prems(7)] Cons.prems(6) False
    show ?thesis by (auto elim!: runs_mono intro: safe_Suc)
  next
    case True
    let ?pc = "\<lambda>po. pc\<lparr>parcel_objs := (parcel_objs pc)[i := po]\<rparr>"
    have ok: "parcel_ok (?pc po)" for po using Cons.prems(3) by (simp add: parcel_ok_def)
    have st: "stays (dplus d (in_parcel pc)) s p" using Cons.prems(5) by (auto simp: stays_def dplus_pos)
    note dom = task_at_links [OF Cons.prems(1) st Cons.prems(4)]
    have less: "in_parcel (?pc po) q \<le> in_parcel pc q + of_bool (po = Some q)" for po q
      using count_list_update [of "parcel_objs pc" i po "Some q"] by (simp add: in_parcel_def)
    have found: "runs strict (parcel_pack_from (task_domain tk) msg is (?pc (Some q)) t) (\<lambda>(res, pc', u). keep s u \<and> parcel_ok pc' \<and>
       safe (if res = BR_SUCCESS then dplus d (in_parcel pc') else d) (n + length (i # is)) u)"
      if t: "keep s t" "safe (plus1 q (dplus d (in_parcel pc))) (Suc n) t" for q t
    proof -
      have t': "safe (dplus d (in_parcel (?pc (Some q)))) (Suc n) t"
      proof (rule safe_weaken [OF t(2)])
        fix x show "dplus d (in_parcel (?pc (Some q))) x \<le> plus1 q (dplus d (in_parcel pc)) x"
          using less [of "Some q" x] by (auto simp: dplus_def plus1_def)
      qed simp
      have st': "stays d t p" using stays_keep [OF Cons.prems(5) t(1)] .
      then have "stays (dplus d (in_parcel (?pc (Some q)))) t p" by (auto simp: stays_def dplus_pos)
      from task_at_keep [OF Cons.prems(1,4) t(1) t' this] obtain tk' where tk': "task_at t p tk'" "task_domain tk' = task_domain tk"
        by blast
      show ?thesis
        using Cons.IH [OF t' _ ok tk'(1) st'] Cons.prems(2,6,7) tk'(2) keep_trans [OF t(1)]
        by (auto elim!: runs_mono)
    qed
    have miss: "runs strict (parcel_deinit (?pc None) s) (\<lambda>t. keep s t \<and> parcel_ok (?pc None) \<and> safe d (n + length (i # is)) t)"
      using Cons.prems(1) less [of None] ok
      by (intro runs_mono [OF parcel_deinit_ok [where d = d and n = n]])
        (auto intro!: safe_weaken [OF Cons.prems(1)] simp: dplus_def elim: safe_weaken)
    have n: "n + 1 < 2 ^ 31" using Cons.prems(2) by simp
    have h: "fits strict (msg_args msg ! i)" using Cons.prems(6,7) True by (simp add: msg_fits_def)
    show ?thesis
      using True found miss
      by (simp add: Let_def) (rule runs_mono [OF domain_lookup_ok [OF Cons.prems(1) n h dom(1,2)]],
        auto split: option.splits elim!: runs_mono)
  qed
qed

lemma parcel_pack_ok:
  assumes s: "safe d n s" "n + 5 < 2 ^ 31" "msg_fits strict msg" and dom: "dm = None \<or> (\<exists>p tk. dm = Some (task_domain tk) \<and> task_at s p tk \<and> stays d s p)"
  shows "runs strict (parcel_pack zero_parcel msg dm s) (\<lambda>(res, pc, t). keep s t \<and> parcel_ok pc \<and>
     safe (if res = BR_SUCCESS then dplus d (in_parcel pc) else d) (n + 5) t)"
proof -
  let ?pc = "zero_parcel\<lparr>parcel_msg := msg\<rparr>"
  have pc: "parcel_ok ?pc" "dplus d (in_parcel ?pc) = d"
    using parcel_ok_zero in_parcel_zero by (auto simp: parcel_ok_def in_parcel_def dplus_def)
  show ?thesis
  proof (cases dm)
    case None
    then show ?thesis using safe_weaken [OF s(1), of d "n + 5"] pc by (simp add: parcel_pack_def keep_refl)
  next
    case (Some x)
    with dom obtain p tk where "x = task_domain tk" "task_at s p tk" "stays d s p" by auto
    then show ?thesis
      using parcel_pack_from_ok [of d ?pc n s "[0..<BR_MSG_ARG_COUNT]" p tk strict msg] s pc Some by (simp add: parcel_pack_def BR_MSG_ARG_COUNT_def)
  qed
qed

text \<open>Unpacking adds up to five handles, each of which may make the receiver's table grow.\<close>

abbreviation grow :: "nat \<Rightarrow> nat" where
  "grow n \<equiv> 2 * n + 20"

lemma parcel_unpack_obj_apply: "parcel_unpack_obj pc dm i (msg, s) =
    (case parcel_objs pc ! i of None \<Rightarrow> Inr (msg, s)
     | Some object \<Rightarrow> sbind (domain_add dm object s) (\<lambda>(handle, s). Inr (msg\<lparr>msg_args := (msg_args msg)[i := handle]\<rparr>, s)))"
  by (simp add: parcel_unpack_obj_def)

lemma parcel_unpack_from_ok:
  assumes "safe (dplus d (in_parcel pc)) n s" "(grow ^^ length is) n \<le> 2 ^ 30" "parcel_ok pc" "task_at s p tk" "stays d s p"
    "\<forall>i \<in> set is. i < BR_MSG_ARG_COUNT"
  shows "runs strict (for_each (parcel_unpack_obj pc (task_domain tk)) is (msg, s)) (\<lambda>(msg, t). keep s t \<and>
     safe (dplus d (in_parcel pc)) ((grow ^^ length is) n) t)"
  using assms
proof (induction "is" arbitrary: msg s n tk)
  case Nil
  then show ?case by (simp add: keep_refl)
next
  case (Cons i "is")
  have big: "n \<le> (grow ^^ k) n" for k by (induction k) auto
  have n31: "n + 1 < 2 ^ 31" using order_trans [OF big Cons.prems(2)] by simp
  have sw: "(grow ^^ length (i # is)) n = (grow ^^ length is) (grow n)" by (simp only: list.size add_0_right add_Suc_right funpow_Suc_right comp_apply)
  have st: "stays (dplus d (in_parcel pc)) s p" using Cons.prems(5) by (auto simp: stays_def dplus_pos)
  note dom = task_at_links [OF Cons.prems(1) st Cons.prems(4)]
  have rest: "runs strict (for_each (parcel_unpack_obj pc (task_domain tk)) is (msg, t)) (\<lambda>(msg, u). keep s u \<and>
     safe (dplus d (in_parcel pc)) ((grow ^^ length (i # is)) n) u)"
    if t: "keep s t" "safe (dplus d (in_parcel pc)) (grow n) t" for msg t
  proof -
    have st': "stays d t p" using stays_keep [OF Cons.prems(5) t(1)] .
    then have "stays (dplus d (in_parcel pc)) t p" by (auto simp: stays_def dplus_pos)
    from task_at_keep [OF Cons.prems(1,4) t(1,2) this] obtain tk' where tk': "task_at t p tk'" "task_domain tk' = task_domain tk"
      by blast
    show ?thesis
      unfolding sw tk'(2) [symmetric]
      by (rule runs_mono [OF Cons.IH [OF t(2) _ Cons.prems(3) tk'(1) st']])
        (use Cons.prems(2,6) sw keep_trans [OF t(1)] in auto)
  qed
  show ?case
  proof (cases "parcel_objs pc ! i")
    case None
    have "safe (dplus d (in_parcel pc)) (grow n) s" using Cons.prems(1) by (rule safe_weaken) auto
    then show ?thesis using None rest [OF keep_refl] by (simp add: parcel_unpack_obj_apply)
  next
    case (Some q)
    have "i < length (parcel_objs pc)" using Cons.prems(3,6) by (simp add: parcel_ok_def)
    then have "Some q \<in> set (parcel_objs pc)" using Some nth_mem by metis
    then have "0 < in_parcel pc q" unfolding in_parcel_def using count_list_0_iff [of "parcel_objs pc" "Some q"] by simp
    then have q: "0 < rc s q" by (intro owned_live [OF safe_kinv [OF Cons.prems(1)]]) (simp add: dplus_def)
    show ?thesis
      using Some
      by (simp add: parcel_unpack_obj_apply del: funpow.simps)
        (rule runs_mono [OF domain_add_ok [OF Cons.prems(1) n31 dom(1,2) q]], use rest in auto)
  qed
qed

lemma grow5: "(grow ^^ BR_MSG_ARG_COUNT) n = 32 * n + 620"
  by (simp add: BR_MSG_ARG_COUNT_def eval_nat_numeral)

lemma parcel_unpack_ok:
  assumes s: "safe (dplus d (in_parcel pc)) n s" "n \<le> 2 ^ 24" "parcel_ok pc"
    and dom: "dm = None \<or> (\<exists>p tk. dm = Some (task_domain tk) \<and> task_at s p tk \<and> stays d s p)"
  shows "runs strict (parcel_unpack pc dm s) (\<lambda>(res, msg, t). keep s t \<and> safe d (32 * n + 620) t)"
proof (cases dm)
  case None
  then show ?thesis
    using s by (simp add: parcel_unpack_def Let_def)
      (rule runs_mono [OF parcel_deinit_ok], auto intro: safe_weaken)
next
  case (Some x)
  with dom obtain p tk where x: "x = task_domain tk" "task_at s p tk" "stays d s p" by auto
  have "runs strict (for_each (parcel_unpack_obj pc x) [0..<BR_MSG_ARG_COUNT] (msg, s)) (\<lambda>(msg, t). keep s t \<and>
     safe (dplus d (in_parcel pc)) (32 * n + 620) t)" for msg
    using parcel_unpack_from_ok [OF s(1) _ s(3) x(2,3), of "[0..<BR_MSG_ARG_COUNT]" strict msg] s(2) by (simp add: x(1) grow5)
  note loop = this
  show ?thesis
    using Some s(3)
    by (simp add: parcel_unpack_def Let_def)
      (rule runs_mono [OF loop], auto intro!: runs_mono [OF parcel_deinit_ok] intro: keep_trans)
qed

section \<open>Channels\<close>

lemma keep_chan: "keep s (put_channel c r s)"
  by (rule keepI) (auto simp: put_channel_def)

lemma safe_chan:
  assumes s: "safe d n s" and c: "k_chans s c = Some r"
    and r: "ring_inv r'" "ring_capacity r' = IPC_CHANNEL_SIZE" "\<forall>pc\<in>set (ring_list r'). parcel_ok pc"
    and cnt: "\<And>p. chan_held r' p + d' p \<le> chan_held r p + d p"
  shows "safe d' n (put_channel c r' s)"
proof -
  have "kinv (put_channel c r' s) d'" by (rule kinv_update_chan [OF safe_kinv [OF s] c refl r cnt])
  moreover have "running (put_channel c r' s)" using s by (intro keep_running [OF keep_chan]) (simp add: safe_def)
  ultimately show ?thesis using s by (simp add: safe_def tables_def put_channel_def)
qed

lemma chan_facts:
  assumes "safe d n s" "k_chans s c = Some r"
  shows "ring_inv r" "ring_capacity r = IPC_CHANNEL_SIZE" "\<forall>pc\<in>set (ring_list r). parcel_ok pc"
  using kinv_store [OF safe_kinv [OF assms(1)]] assms(2) unfolding store_ok_def by blast+

lemma channel_push_ok:
  assumes s: "safe (dplus d (in_parcel pc)) n s" and c: "k_chans s c = Some r" and pc: "parcel_ok pc"
  shows "safe d n (put_channel c (snd (ring_push_impl r pc)) s)"
proof (rule safe_chan [OF s c])
  note f = chan_facts [OF s c]
  show "ring_inv (snd (ring_push_impl r pc))" by (rule ring_inv_push [OF f(1)])
  show "ring_capacity (snd (ring_push_impl r pc)) = IPC_CHANNEL_SIZE" using f(2) by (simp add: ring_push_impl_def)
  have l: "ring_list (snd (ring_push_impl r pc)) = ring_list r @ [pc] \<or> ring_push_impl r pc = (False, r)"
    using ring_list_push [OF f(1)] by (auto simp: ring_push_impl_def)
  then show "\<forall>pc\<in>set (ring_list (snd (ring_push_impl r pc))). parcel_ok pc" using f(3) pc by auto
  show "chan_held (snd (ring_push_impl r pc)) p + d p \<le> chan_held r p + dplus d (in_parcel pc) p" for p
    using l by (auto simp: chan_held_def dplus_def in_parcel_def)
qed

lemma channel_pop_ok:
  assumes s: "safe d n s" and c: "k_chans s c = Some r" and any: "ring_any r"
  obtains pc r' where "ring_pop_impl r = (Some pc, r')" "parcel_ok pc" "safe (dplus d (in_parcel pc)) n (put_channel c r' s)"
proof -
  note f = chan_facts [OF s c]
  have u: "ring_used r \<noteq> 0" using any by (simp add: ring_any_def)
  obtain r' where pop: "ring_pop_impl r = (Some (hd (ring_list r)), r')" and l: "ring_list r' = tl (ring_list r)"
    using ring_list_pop [OF f(1) u] by (cases "ring_pop_impl r") auto
  have "ring_list r \<noteq> []" using u length_ring_list [of r] by force
  then have ls: "ring_list r = hd (ring_list r) # ring_list r'" using l by simp
  then have sub: "set (ring_list r) = insert (hd (ring_list r)) (set (ring_list r'))" by (metis list.simps(15))
  have pc: "parcel_ok (hd (ring_list r))" "\<forall>pc\<in>set (ring_list r'). parcel_ok pc" using f(3) sub by auto
  have held: "chan_held r p = in_parcel (hd (ring_list r)) p + chan_held r' p" for p
    unfolding chan_held_def by (subst ls) (simp add: in_parcel_def)
  have "ring_inv r'" using ring_inv_pop [OF f(1)] pop by simp
  moreover have "ring_capacity r' = IPC_CHANNEL_SIZE" using pop u f(2) by (auto simp: ring_pop_impl_def)
  ultimately have "safe (dplus d (in_parcel (hd (ring_list r)))) n (put_channel c r' s)"
    using pc(2) held by (intro safe_chan [OF s c]) (simp_all add: dplus_def)
  with that pop pc(1) show thesis by blast
qed

lemma channel_send_unlock_ok:
  assumes s: "safe d n s" "n + 5 < 2 ^ 31" "msg_fits strict msg" and target: "task_at s q tq" "stays d s q"
    and dom: "dm = None \<or> (\<exists>p tk. dm = Some (task_domain tk) \<and> task_at s p tk \<and> stays d s p)"
  shows "runs strict (channel_send_unlock (task_channel tq) dm msg s) (\<lambda>(res, t). safe d (n + 5) t \<and> keep s t)"
proof -
  obtain r where r: "k_chans s (task_channel tq) = Some r" using task_at_links [OF s(1) target(2,1)] by blast
  have fin: "runs strict (sbind (get_channel (task_channel tq) t) (\<lambda>r. Inr (BR_SUCCESS,
      put_channel (task_channel tq) (snd (ring_push_impl r pc)) t))) (\<lambda>(res, t). safe d (n + 5) t \<and> keep s t)"
    if t: "keep s t" "parcel_ok pc" "safe (dplus d (in_parcel pc)) (n + 5) t" for t pc
  proof -
    have "stays (dplus d (in_parcel pc)) t q" using stays_keep [OF target(2) t(1)] dplus_pos by blast
    from domain_stays(3) [OF s(1) target(1) t(1,3) this] obtain r' where "k_chans t (task_channel tq) = Some r'" by blast
    then show ?thesis
      using channel_push_ok [OF t(3) _ t(2)] keep_trans [OF t(1) keep_chan] by (simp add: get_channel_def)
  qed
  show ?thesis
    using r safe_weaken [OF s(1), of d "n + 5"] by (simp add: channel_send_unlock_def get_channel_def [where s = s] keep_refl)
      (intro impI runs_mono [OF parcel_pack_ok [OF s dom]], use fin in auto)
qed

lemma channel_recv_unlock_ok:
  assumes s: "safe d n s" "n \<le> 2 ^ 24" and self: "task_at s p tk" "stays d s p"
  shows "runs strict (channel_recv_unlock (task_channel tk) (Some (task_domain tk)) msg s)
    (\<lambda>(res, msg, t). safe d (32 * n + 620) t \<and> keep s t)"
proof -
  obtain r where r: "k_chans s (task_channel tk) = Some r" using task_at_links [OF s(1) self(2,1)] by blast
  show ?thesis
  proof (cases "ring_any r")
    case False
    have "safe d (32 * n + 620) s" using s(1) by (rule safe_weaken) auto
    then show ?thesis using r False by (simp add: channel_recv_unlock_def get_channel_def keep_refl)
  next
    case True
    obtain pc r' where pop: "ring_pop_impl r = (Some pc, r')" "parcel_ok pc"
      "safe (dplus d (in_parcel pc)) n (put_channel (task_channel tk) r' s)" using channel_pop_ok [OF s(1) r True] .
    let ?s = "put_channel (task_channel tk) r' s"
    have "task_at ?s p tk" "stays d ?s p" using self by (simp_all add: task_at_def stays_def put_channel_def)
    then have "runs strict (parcel_unpack pc (Some (task_domain tk)) ?s) (\<lambda>(res, msg, t). keep ?s t \<and> safe d (32 * n + 620) t)"
      using pop s(2) by (intro parcel_unpack_ok) auto
    then show ?thesis
      using r True pop keep_trans [OF keep_chan]
      by (auto simp: channel_recv_unlock_def get_channel_def elim!: runs_mono)
  qed
qed

end
