(* ===== verification/Syscall_Safe.thy ===== *)
theory Syscall_Safe
  imports Ipc_Safe
begin

text \<open>
  Every system call that does not give up the processor is memory safe, and leaves a state in
  which the next one is.
\<close>

section \<open>Sequencing\<close>

lemma runs_bind: "runs strict m P \<Longrightarrow> (\<And>x. P x \<Longrightarrow> runs strict (f x) Q) \<Longrightarrow> runs strict (sbind m f) Q"
  by (auto elim: runs_mono)

lemma runs_bind2: "runs strict m (\<lambda>(a, b). P a b) \<Longrightarrow> (\<And>a b. P a b \<Longrightarrow> runs strict (f (a, b)) Q) \<Longrightarrow> runs strict (sbind m f) Q"
  by (auto elim: runs_mono)

lemma runs_bind3: "runs strict m (\<lambda>(a, b, c). P a b c) \<Longrightarrow> (\<And>a b c. P a b c \<Longrightarrow> runs strict (f (a, b, c)) Q) \<Longrightarrow> runs strict (sbind m f) Q"
  by (auto elim: runs_mono)

lemma plus1_commute: "plus1 p (plus1 q d) = plus1 q (plus1 p d)"
  by (auto simp: plus1_def)

lemma self_ok:
  assumes "safe d n s"
  obtains p t where "task_self s = Inr p" "self_task s = Inr (p, t)" "task_at s p t" "p \<in> set (k_tasks s)"
    "stays d s p" "0 < rc s p"
  using safe_self [OF assms] unfolding task_at_def stays_def by metis

lemma self_links:
  assumes "safe d n s" "task_at s p t" "stays d s p"
  shows "0 < rc s (task_space t)" "kind s (task_space t) = Some BR_OBJECT_SPACE"
    "0 < rc s (task_domain t)" "kind s (task_domain t) = Some BR_OBJECT_DOMAIN"
  using task_links [OF safe_kinv [OF assms(1)] stays_live [OF assms(1,3)]] assms(2) unfolding task_at_def by blast+

section \<open>Finding objects\<close>

text \<open>What a look-up hands to the code that called it.\<close>

definition looked :: "(ptr \<Rightarrow> nat) \<Rightarrow> nat \<Rightarrow> br_type \<Rightarrow> kst \<Rightarrow> ptr option \<Rightarrow> kst \<Rightarrow> bool" where
  "looked d n ty s po t \<longleftrightarrow> keep s t \<and> (case po of None \<Rightarrow> safe d n t
     | Some q \<Rightarrow> safe (plus1 q d) n t \<and> (ty = BR_OBJECT_ANY \<or> kind t q = Some ty))"

lemma looked_none: "looked d n ty s None t \<Longrightarrow> safe d n t \<and> keep s t"
  by (simp add: looked_def)

lemma looked_some: "looked d n ty s (Some q) t \<Longrightarrow> safe (plus1 q d) n t \<and> keep s t \<and> (ty = BR_OBJECT_ANY \<or> kind t q = Some ty)"
  by (simp add: looked_def)

lemma owned_kind_plus:
  assumes "safe d n s" "keep s t" "safe (plus1 q d) n' t" "kind s q = Some k"
  shows "kind t q = Some k"
  using owned_kind [OF assms(1,2,3) plus1_own assms(4)] .

lemma domain_lookup_looked:
  assumes s: "safe d n s" "n + 1 < 2 ^ 31" and h: "fits strict h" and p: "0 < rc s p" "kind s p = Some BR_OBJECT_DOMAIN"
  shows "runs strict (domain_lookup p h ty s) (\<lambda>(po, t). looked d (Suc n) ty s po t)"
  by (rule runs_mono [OF domain_lookup_ok [OF s h p]])
    (use safe_Suc [OF s(1)] owned_kind_plus [OF s(1)] in \<open>auto simp: looked_def split: option.splits\<close>)

lemma own_lookup_looked:
  assumes s: "safe d n s" "n + 1 < 2 ^ 31" "fits strict h" and t: "self_task s = Inr (p, t)" "task_at s p t" "stays d s p"
  shows "runs strict (domain_lookup (task_domain t) h ty s) (\<lambda>(po, t). looked d (Suc n) ty s po t)"
  using domain_lookup_looked [OF s self_links(3,4) [OF s(1) t(2,3)]] .

lemma ref_looked:
  assumes s: "safe d n s" "n + 1 < 2 ^ 31" and p: "0 < rc s p" "kind s p = Some ty"
  shows "runs strict (sbind (object_ref p s) (\<lambda>s. Inr (Some p, s))) (\<lambda>(po, t). looked d (Suc n) ty s po t)"
  by (rule runs_bind [OF object_ref_ok [OF s p(1)]])
    (use owned_kind_plus [OF s(1) _ _ p(2)] in \<open>auto simp: looked_def\<close>)

lemma lookup_space_looked:
  assumes s: "safe d n s" "n + 1 < 2 ^ 31" "fits strict h"
  shows "runs strict (lookup_space h s) (\<lambda>(po, t). looked d (Suc n) BR_OBJECT_SPACE s po t)"
proof -
  obtain p t where t: "self_task s = Inr (p, t)" "task_at s p t" "stays d s p" using self_ok [OF s(1)] by metis
  show ?thesis
    using ref_looked [OF s(1,2) self_links(1,2) [OF s(1) t(2,3)]] own_lookup_looked [OF s t]
    by (simp add: lookup_space_def t(1) del: runs_sbind)
qed

lemma lookup_task_looked:
  assumes s: "safe d n s" "n + 1 < 2 ^ 31" "fits strict h"
  shows "runs strict (lookup_task h s) (\<lambda>(po, t). looked d (Suc n) BR_OBJECT_TASK s po t)"
proof -
  obtain p t where t: "self_task s = Inr (p, t)" "task_at s p t" "stays d s p" "0 < rc s p" using self_ok [OF s(1)] by metis
  have "kind s p = Some BR_OBJECT_TASK" using t(2) by (auto simp: task_at_def kind_def o_type_def)
  then show ?thesis
    using ref_looked [OF s(1,2) t(4)] own_lookup_looked [OF s t(1-3)]
    by (simp add: lookup_task_def t(1) del: runs_sbind)
qed

text \<open>The list of all objects holds live objects only, so looking one up by its number is safe.\<close>

lemma global_find_looked:
  assumes s: "safe d n s" "n + 1 < 2 ^ 31" and ps: "\<forall>p \<in> set ps. 0 < rc s p"
  shows "runs strict (global_find oid ty ps s) (\<lambda>(po, t). looked d (Suc n) ty s po t)"
  using ps
proof (induction ps)
  case Nil
  then show ?case using safe_Suc [OF s(1)] by (simp add: looked_def keep_refl)
next
  case (Cons p ps)
  then obtain ob where ob: "k_objs s p = Some ob" by (auto simp: rc_pos)
  have "runs strict (sbind (object_ref p s) (\<lambda>s. Inr (Some p, s))) (\<lambda>(po, t). looked d (Suc n) (o_type ob) s po t)"
    using Cons.prems ob by (intro ref_looked [OF s]) (auto simp: kind_def)
  then have "runs strict (sbind (object_ref p s) (\<lambda>s. Inr (Some p, s))) (\<lambda>(po, t). looked d (Suc n) ty s po t)"
    if "o_type ob = ty \<or> ty = BR_OBJECT_ANY"
    by (rule runs_mono) (use that in \<open>auto simp: looked_def split: option.splits\<close>)
  then show ?case using Cons ob by (auto simp: get_simps simp del: runs_sbind)
qed

lemma global_lookup_looked:
  assumes s: "safe d n s" "n + 1 < 2 ^ 31"
  shows "runs strict (global_lookup oid ty s) (\<lambda>(po, t). looked d (Suc n) ty s po t)"
  using safe_Suc [OF s(1)] global_find_looked [OF s] kinv_store [OF safe_kinv [OF s(1)]]
  by (simp add: global_lookup_def store_ok_def looked_def keep_refl)

section \<open>Calls on memory and spaces\<close>

lemma deref_one:
  assumes "safe (plus1 p d) n t" "keep s t" "\<And>u. safe d n u \<Longrightarrow> keep s u \<Longrightarrow> runs strict (f u) Q"
  shows "runs strict (sbind (kobject_deref (Some p) t) f) Q"
  by (rule runs_bind [OF kobject_deref_ok [OF assms(1)]]) (use assms(2,3) keep_trans in blast)

lemma looked_bind:
  assumes "runs strict m (\<lambda>(po, t). looked d n ty s0 po t)" "keep s s0"
    and "\<And>t. safe d n t \<Longrightarrow> keep s t \<Longrightarrow> runs strict (f t) Q"
    and "\<And>q t. safe (plus1 q d) n t \<Longrightarrow> keep s t \<Longrightarrow> keep s0 t \<Longrightarrow> ty = BR_OBJECT_ANY \<or> kind t q = Some ty \<Longrightarrow> runs strict (g q t) Q"
  shows "runs strict (sbind m (\<lambda>(po, t). case po of None \<Rightarrow> f t | Some q \<Rightarrow> g q t)) Q"
proof (rule runs_bind2 [OF assms(1)])
  fix po t assume l: "looked d n ty s0 po t"
  then have "keep s t" using keep_trans [OF assms(2)] by (simp add: looked_def)
  then show "runs strict (case (po, t) of (po, t) \<Rightarrow> case po of None \<Rightarrow> f t | Some q \<Rightarrow> g q t) Q"
    using l assms(3,4) by (auto simp: looked_def split: option.split)
qed

text \<open>The running task, again after some steps.\<close>

lemma self_bind:
  assumes s: "safe d n s" and f: "\<And>p t. self_task s = Inr (p, t) \<Longrightarrow> task_at s p t \<Longrightarrow> stays d s p \<Longrightarrow> task_self s = Inr p \<Longrightarrow>
      p \<in> set (k_tasks s) \<Longrightarrow> runs strict (f (p, t)) Q"
  shows "runs strict (sbind (self_task s) f) Q"
  using self_ok [OF s] f by (metis sbind_simps(2))

lemma map_memory_ok:
  assumes s: "safe (plus1 mem (plus1 sp d)) n s1" and n: "n + 1 < 2 ^ 31" and s': "keep s s1" "kind s1 mem = Some BR_OBJECT_MEMORY" "kind s1 sp = Some BR_OBJECT_SPACE"
    and f: "\<And>res t. safe d (Suc n) t \<Longrightarrow> keep s t \<Longrightarrow> runs strict (f res t) Q"
  shows "runs strict (sbind (space_map sp mem off sz va fl s1) (\<lambda>(res, s). sbind (kobject_deref (Some sp) s) (\<lambda>s.
     sbind (kobject_deref (Some mem) s) (f res)))) Q"
proof (rule runs_bind2 [OF space_map_ok [OF s n _ s'(3) _ s'(2)]])
  fix res s3 assume "safe (plus1 mem (plus1 sp d)) (Suc n) s3 \<and> keep s1 s3"
  then have s3: "safe (plus1 sp (plus1 mem d)) (Suc n) s3" "keep s s3"
    using keep_trans [OF s'(1)] plus1_commute [of sp] by auto
  show "runs strict (case (res, s3) of (res, s) \<Rightarrow> sbind (kobject_deref (Some sp) s) (\<lambda>s. sbind (kobject_deref (Some mem) s) (f res))) Q"
    unfolding prod.case by (rule deref_one [OF s3], rule deref_one, assumption, assumption) (rule f)
qed simp_all

lemma sys_map_ok:
  assumes s: "safe d n s" "n \<le> 2 ^ 30" and h: "fits strict (map_space args)" "fits strict (map_memory args)"
  shows "runs strict (sys_map args s) (\<lambda>(res, args, t). safe d (Suc (Suc (Suc n))) t \<and> keep s t)"
  unfolding sys_map_def
  apply (rule self_bind [OF s(1)])
  apply (simp only: prod.case split: if_split)
  apply (intro conjI impI)
   apply (use safe_weaken [OF s(1), of d "Suc (Suc (Suc n))"] in \<open>simp add: keep_refl\<close>)
  apply (rule looked_bind [OF lookup_space_looked [OF s(1) _ h(1)] keep_refl])
    apply (use s(2) in simp)
   apply (auto intro: safe_weaken)[1]
  apply (rule self_bind, assumption)
  apply (simp only: prod.case)
  apply (rule looked_bind [OF own_lookup_looked [OF _ _ h(2)]], assumption)
       apply (use s(2) in simp)
      apply assumption+
   apply (rule deref_one, assumption+, auto intro: safe_weaken)[1]
  apply (rule map_memory_ok, assumption)
      apply (use s(2) in simp)
     apply assumption
    apply simp
   apply (rule owned_kind, assumption+, simp, simp)
  apply (simp split: sum.split)
  done

lemma sys_unmap_ok:
  assumes s: "safe d n s" "n \<le> 2 ^ 30" and h: "fits strict (unmap_space args)"
  shows "runs strict (sys_unmap args s) (\<lambda>(res, t). safe d (Suc n) t \<and> keep s t)"
  unfolding sys_unmap_def
  apply (rule looked_bind [OF lookup_space_looked [OF s(1) _ h] keep_refl])
    apply (use s(2) in simp)
   apply simp
  apply (rule runs_bind2 [OF space_unmap_ok], assumption, simp, simp)
  apply (simp only: prod.case, elim conjE)
  apply (rule deref_one, assumption, erule (1) keep_trans, simp)
  done

section \<open>Creating objects\<close>

lemma publish_ok:
  assumes s: "safe d n s0" "n + 1 < 2 ^ 31" "0 < d q" "keep s s0"
    and f: "\<And>oid h t. safe d (grow n) t \<Longrightarrow> keep s t \<Longrightarrow> runs strict (f (oid, h, t)) Q"
  shows "runs strict (sbind (publish q s0) f) Q"
proof -
  have q: "0 < rc s0 q" using owned_live [OF safe_kinv [OF s(1)] s(3)] .
  then obtain ob where ob: "k_objs s0 q = Some ob" by (auto simp: rc_pos)
  obtain p t where t: "self_task s0 = Inr (p, t)" "task_at s0 p t" "stays d s0 p" using self_ok [OF s(1)] by metis
  have "runs strict (domain_add (task_domain t) q s0) (\<lambda>(h, t). safe d (grow n) t \<and> keep s0 t)"
    using domain_add_ok [OF s(1,2) self_links(3,4) [OF s(1) t(2,3)] q] .
  then show ?thesis
    using f keep_trans [OF s(4)]
    by (simp add: publish_def get_simps [OF ob] t(1)) (erule runs_mono, auto)
qed

lemma sys_create_space_ok:
  assumes s: "safe d n s" "n + 1 < 2 ^ 31"
  shows "runs strict (sys_create_space props args s) (\<lambda>(res, args, t). safe d (grow n) t \<and> keep s t)"
  unfolding sys_create_space_def
  apply (rule runs_bind2 [OF space_create_ok [OF s(1)]])
  apply (simp only: prod.case, elim conjE)
  apply (rule publish_ok, assumption, rule s(2), simp, assumption)
  apply (simp only: prod.case)
  apply (rule deref_one, assumption+, simp)
  done

lemma create_memory_ok:
  assumes s: "safe d n s1" "n + 1 < 2 ^ 31" "keep s s1" and f: "\<And>x h t. safe d (grow n) t \<Longrightarrow> keep s t \<Longrightarrow> runs strict (f x h t) Q"
  shows "runs strict (sbind (memory_create ty r s1) (\<lambda>(memory, s). sbind (publish memory s) (\<lambda>(oid, handle, s).
     sbind (kobject_deref (Some memory) s) (f oid handle)))) Q"
  apply (rule runs_bind2 [OF memory_create_ok [OF s(1)]])
  apply (simp only: prod.case, elim conjE)
  apply (rule publish_ok, assumption, rule s(2), simp, rule keep_trans [OF s(3)], assumption)
  apply (simp only: prod.case)
  apply (rule deref_one, assumption+, rule f, assumption+)
  done

lemma sys_create_memory_ok:
  assumes s: "safe d n s" "n + 1 < 2 ^ 31"
  shows "runs strict (sys_create_memory props args s) (\<lambda>(res, args, t). safe d (grow n) t \<and> keep s t)"
proof -
  have w: "safe d (grow n) s" using s(1) by (rule safe_weaken) auto
  have make: "runs strict (sbind (memory_create ty r s1) (\<lambda>(memory, s). sbind (publish memory s) (\<lambda>(oid, handle, s).
     sbind (kobject_deref (Some memory) s) (\<lambda>s. Inr (BR_SUCCESS, g oid handle, s))))) (\<lambda>(res, args, t). safe d (grow n) t \<and> keep s t)"
    if "safe d n s1" "keep s s1" for ty r s1 and g :: "u64 \<Rightarrow> u64 \<Rightarrow> br_create_args"
    by (rule create_memory_ok [OF that(1) s(2) that(2)]) simp
  have alloc: "runs strict (sbind (on_pmm (\<lambda>p. pmm_alloc p sz up) s) (\<lambda>(pmm_result, s). case pmm_result of Inl err \<Rightarrow> Inr (err, args, s)
         | Inr r \<Rightarrow> sbind (memory_create MEMORY_PMM r s) (\<lambda>(memory, s). sbind (publish memory s) (\<lambda>(oid, handle, s).
             sbind (kobject_deref (Some memory) s) (\<lambda>s. Inr (BR_SUCCESS, g r oid handle, s))))))
      (\<lambda>(res, args, t). safe d (grow n) t \<and> keep s t)" for sz up and g :: "usize_range \<Rightarrow> u64 \<Rightarrow> u64 \<Rightarrow> br_create_args"
    unfolding runs_sbind [of strict "on_pmm _ s"]
    by (rule runs_on_pmm [OF runs_pmm_alloc])
      (use s(1) w make in \<open>simp add: keep_refl del: runs_sbind split: sum.split\<close>)
  show ?thesis
    unfolding sys_create_memory_def memory_dma_def memory_pmm_def
    by (rule self_bind [OF s(1)]) (use w s(1) make [OF s(1) keep_refl] alloc in \<open>simp add: keep_refl del: runs_sbind\<close>)
qed


lemma own_rights_at: "task_self s = Inr p \<Longrightarrow> task_at s p t \<Longrightarrow> own_rights s = task_rights t"
  by (auto simp: own_rights_def task_at_def)

lemma sys_create_task_ok:
  assumes s: "safe d n s" "n \<le> 2 ^ 30" and h: "fits strict (tprops_space props)"
  shows "runs strict (sys_create_task props args s) (\<lambda>(res, args, t). safe d (grow (Suc (Suc n))) t \<and> keep s t)"
  unfolding sys_create_task_def
  apply (rule looked_bind [OF lookup_space_looked [OF s(1) _ h] keep_refl])
    apply (use s(2) in simp)
   apply (auto intro: safe_weaken)[1]
  apply (rule self_bind, assumption)
  apply (simp only: prod.case)
  apply (rule runs_bind2 [OF task_create_ok], assumption)
      apply (use s(2) in simp)
     apply (rule owned_live [OF safe_kinv], assumption, simp)
    apply simp
   apply (simp add: own_rights_at)
  apply (simp only: prod.case, elim conjE)
  apply (rule publish_ok, assumption, use s(2) in simp, simp, erule (1) keep_trans)
  apply (simp only: prod.case)
  apply (rule deref_one, subst plus1_commute, assumption+)
  apply (rule deref_one, assumption+, simp)
  done

lemma sys_create_ok:
  assumes s: "safe d n s" "n \<le> 2 ^ 30" and h: "\<And>props. create_props args = TaskProps props \<Longrightarrow> fits strict (tprops_space props)"
  shows "runs strict (sys_create args s) (\<lambda>(res, args, t). safe d (grow (Suc (Suc n))) t \<and> keep s t)"
proof -
  have w: "safe d (grow (Suc (Suc n))) s" using s(1) by (rule safe_weaken) auto
  have "runs strict (sbind (self_task s) (\<lambda>(_, t). if \<not> has_right t BR_RIGHT_TASK then Inr (BR_NOT_PERMITTED, args, s)
          else sys_create_task props args s)) (\<lambda>(res, args, t). safe d (grow (Suc (Suc n))) t \<and> keep s t)"
    if "create_props args = TaskProps props" for props
    by (rule self_bind [OF s(1)]) (use w sys_create_task_ok [OF s h [OF that]] in \<open>simp add: keep_refl\<close>)
  moreover have n1: "n + 1 < 2 ^ 31" using s(2) by simp
  have "runs strict (sys_create_memory p args s) (\<lambda>(res, args, t). safe d (grow (Suc (Suc n))) t \<and> keep s t)"
    "runs strict (sys_create_space p' args s) (\<lambda>(res, args, t). safe d (grow (Suc (Suc n))) t \<and> keep s t)" for p p'
    by (rule runs_mono [OF sys_create_memory_ok [OF s(1) n1]], auto intro: safe_weaken)
      (rule runs_mono [OF sys_create_space_ok [OF s(1) n1]], auto intro: safe_weaken)
  ultimately show ?thesis
    using w
    by (simp add: sys_create_def keep_refl del: runs_sbind split: br_props.split)
qed

lemma sys_dup_ok:
  assumes s: "safe d n s" "n \<le> 2 ^ 30" and h: "fits strict (dup_handle args)"
  shows "runs strict (sys_dup args s) (\<lambda>(res, args, t). safe d (grow (Suc n)) t \<and> keep s t)"
  unfolding sys_dup_def
  apply (rule self_bind [OF s(1)])
  apply (simp only: prod.case)
  apply (rule looked_bind [OF own_lookup_looked [OF s(1) _ h] keep_refl])
       apply (use s(2) in simp)
      apply assumption+
   apply (auto intro: safe_weaken)[1]
  apply (rule runs_bind2 [OF domain_add_ok], assumption, use s(2) in simp)
     apply (rule domain_stays(1) [OF s(1)], assumption+, erule stays_keep, assumption, simp)
    apply (rule domain_stays(2) [OF s(1)], assumption+, erule stays_keep, assumption, simp)
   apply (rule owned_live [OF safe_kinv], assumption, simp)
  apply (simp only: prod.case, elim conjE)
  apply (rule deref_one, assumption, erule (1) keep_trans, simp)
  done

section \<open>Tasks\<close>

lemma safe_push_task:
  assumes s: "safe (plus1 p d) n s" and k: "kind s p = Some BR_OBJECT_TASK"
  shows "safe d n (s\<lparr>k_tasks := k_tasks s @ [p]\<rparr>)" "keep s (s\<lparr>k_tasks := k_tasks s @ [p]\<rparr>)"
proof -
  show kp: "keep s (s\<lparr>k_tasks := k_tasks s @ [p]\<rparr>)" by (rule keepI) auto
  have "kinv (s\<lparr>k_tasks := k_tasks s @ [p]\<rparr>) d" using kinv_push_task [OF safe_kinv [OF s] k] .
  then show "safe d n (s\<lparr>k_tasks := k_tasks s @ [p]\<rparr>)"
    using s keep_running [OF kp] by (simp add: safe_def tables_def)
qed

lemma sched_start_ok:
  assumes s: "safe d n s" and n: "n + 1 < 2 ^ 31" and s': "0 < d p" "kind s p = Some BR_OBJECT_TASK"
  shows "runs strict (sched_start p ip sp args s) (\<lambda>t. safe d (Suc n) t \<and> keep s t)"
proof -
  obtain t where t: "get_task p s = Inr t" using task_kind [OF s'(2)] by blast
  let ?f = "\<lambda>t. t\<lparr>task_context := context_start (task_context t) ip sp (range_end (task_stack t)) args (task_flags t), started := True\<rparr>"
  have live: "0 < rc u p" if "safe d n u" for u using owned_live [OF safe_kinv [OF that] s'(1)] .
  have "runs strict (sched_enqueue p u) (\<lambda>t. safe d (Suc n) t \<and> keep s t)" if u: "safe d n u" "keep s u" for u
  proof -
    have k: "kind u p = Some BR_OBJECT_TASK" by (rule owned_kind [OF s u(2,1) s'])
    show ?thesis
      unfolding sched_enqueue_def
    proof (rule runs_bind [OF object_ref_ok [OF u(1) n live [OF u(1)]]])
      fix w assume w: "safe (plus1 p d) (Suc n) w \<and> keep u w"
      then have "kind w p = Some BR_OBJECT_TASK" using owned_kind [OF u(1) _ _ _ k] by auto
      then show "runs strict (Inr (w\<lparr>k_tasks := k_tasks w @ [p]\<rparr>)) (\<lambda>t. safe d (Suc n) t \<and> keep s t)"
        using safe_push_task w keep_trans [OF u(2)] keep_trans by (simp, blast)
    qed
  qed
  then show ?thesis
    unfolding sched_start_def t
    by (simp del: runs_sbind) (simp only: runs_sbind [of strict "assert_truth _ _"] runs_assert, intro impI
      runs_bind [OF map_task_ok [OF s live [OF s] s'(2), of ?f]], simp_all)
qed

lemma sys_start_ok:
  assumes s: "safe d n s" "n \<le> 2 ^ 30" and h: "fits strict (start_handle args)"
  shows "runs strict (sys_start args s) (\<lambda>(res, t). safe d (Suc (Suc n)) t \<and> keep s t)"
  unfolding sys_start_def
  apply (rule self_bind [OF s(1)])
  apply (simp only: prod.case)
  apply (rule looked_bind [OF own_lookup_looked [OF s(1) _ h] keep_refl])
       apply (use s(2) in simp)
      apply assumption+
   apply (auto intro: safe_weaken)[1]
  apply (rule runs_bind [OF sched_start_ok], assumption, use s(2) in simp, simp, simp)
  apply (elim conjE)
  apply (rule deref_one, assumption, erule (1) keep_trans, simp)
  done

text \<open>
  A task stopped by a system call of its own keeps the processor until the call returns, because
  the call is marked as in progress.
\<close>

lemma sched_stop_ok:
  assumes s: "safe d n s" "0 < d p" "kind s p = Some BR_OBJECT_TASK" "task_self s = Inr self" "task_at s self tk" "in_syscall tk"
  shows "runs strict (sched_stop y p result s) (\<lambda>t. safe d n t \<and> keep s t)"
proof -
  obtain ob t where t: "k_objs s p = Some ob" "o_body ob = KTask t" "get_task p s = Inr t" using task_kind [OF s(3)] .
  have live: "0 < rc s p" using owned_live [OF safe_kinv [OF s(1)] s(2)] .
  obtain c where c: "cpu_self s = Inr c" "cpu_current c = Some self"
    using s(4) by (auto simp: task_self_def sbind_Inr_iff deref_ptr_def split: option.splits)
  have self: "\<not> (cpu_current c = Some p \<and> \<not> in_syscall t)" using c(2) s(5,6) t by (auto simp: task_at_def)
  have fin: "runs strict (sbind (cpu_self u) (\<lambda>c. if cpu_current c = Some p \<and> \<not> in_syscall t then sched_yield y u else Inr u))
      (\<lambda>t. safe d n t \<and> keep s t)" if u: "safe d n u" "keep s u" for u
  proof -
    have "cpu_self u = cpu_self s" using u(2) by (simp add: keep_def cpu_self_def)
    then show ?thesis using c(1) self u by auto
  qed
  show ?thesis
    unfolding sched_stop_def t(3)
    using s(1) fin by (simp add: keep_refl del: runs_sbind)
      (intro impI runs_bind [OF map_task_ok [OF s(1) live s(3)]], simp_all)
qed

lemma sys_exit_ok:
  assumes s: "safe d n s" "n \<le> 2 ^ 30" and h: "fits strict (exit_handle args)" and self: "task_self s = Inr self" "task_at s self tk" "in_syscall tk"
  shows "runs strict (sys_exit y args s) (\<lambda>(res, t). safe d (Suc n) t \<and> keep s t)"
proof -
  have stay: "\<exists>tk'. task_self t = Inr self \<and> task_at t self tk' \<and> in_syscall tk'" if t: "safe d' n' t" "keep s t" for d' n' t
  proof -
    have "task_self t = task_self s" by (rule keep_self [OF t(2)])
    then have "task_self t = Inr self" using self(1) by simp
    moreover from this have "stays d' t self" using self_ok [OF t(1)] by force
    ultimately show ?thesis using task_at_keep [OF s(1) self(2) t(2,1)] self(3) by metis
  qed
  have "runs strict (sbind (sched_stop y q (exit_result args) t) (\<lambda>s. sbind (kobject_deref (Some q) s) (\<lambda>s. Inr (BR_SUCCESS, s))))
      (\<lambda>(res, t). safe d (Suc n) t \<and> keep s t)"
    if t: "safe (plus1 q d) (Suc n) t" "keep s t" "kind t q = Some BR_OBJECT_TASK" for q t
  proof -
    from stay [OF t(1,2)] obtain tk' where tk': "task_self t = Inr self" "task_at t self tk'" "in_syscall tk'" by blast
    show ?thesis
      by (rule runs_bind [OF sched_stop_ok [OF t(1) plus1_own t(3) tk']])
        (elim conjE, rule deref_one, assumption, erule keep_trans [OF t(2)], simp)
  qed
  then show ?thesis
    unfolding sys_exit_def by (intro looked_bind [OF lookup_task_looked [OF s(1) _ h] keep_refl]) (use s(2) in auto)
qed

lemma sys_drop_ok:
  assumes s: "safe d n s" "n \<le> 2 ^ 30" and h: "fits strict (drop_handle args)"
  shows "runs strict (sys_drop args s) (\<lambda>(res, t). safe d (Suc n) t \<and> keep s t)"
proof -
  have "runs strict (sbind (get_task q t) (\<lambda>tk. if task_rights tk AND drop_rights args = 0
         then sbind (kobject_deref (Some q) t) (\<lambda>s. Inr (BR_NOT_PERMITTED, s))
         else
           sbind (map_task q (\<lambda>t. t\<lparr>task_rights := task_rights t AND NOT (drop_rights args)\<rparr>) t) (\<lambda>s.
           sbind (kobject_deref (Some q) s) (\<lambda>s. Inr (BR_SUCCESS, s))))) (\<lambda>(res, t). safe d (Suc n) t \<and> keep s t)"
    if t: "safe (plus1 q d) (Suc n) t" "keep s t" "kind t q = Some BR_OBJECT_TASK" for q t
  proof -
    obtain tk where tk: "get_task q t = Inr tk" using task_kind [OF t(3)] by blast
    have live: "0 < rc t q" using owned_live [OF safe_kinv [OF t(1)]] by simp
    have a: "runs strict (sbind (kobject_deref (Some q) t) (\<lambda>s. Inr (BR_NOT_PERMITTED, s))) (\<lambda>(res, t). safe d (Suc n) t \<and> keep s t)"
      by (rule deref_one [OF t(1,2)]) simp
    have b: "runs strict (sbind (map_task q (\<lambda>t. t\<lparr>task_rights := task_rights t AND NOT (drop_rights args)\<rparr>) t) (\<lambda>s.
           sbind (kobject_deref (Some q) s) (\<lambda>s. Inr (BR_SUCCESS, s)))) (\<lambda>(res, t). safe d (Suc n) t \<and> keep s t)"
      by (rule runs_bind [OF map_task_ok [OF t(1) live t(3)]], simp)
        (elim conjE, rule deref_one, assumption, erule keep_trans [OF t(2)], simp)
    show ?thesis unfolding tk using a b by (simp del: runs_sbind)
  qed
  then show ?thesis
    unfolding sys_drop_def by (intro looked_bind [OF lookup_task_looked [OF s(1) _ h] keep_refl]) (use s(2) in auto)
qed

section \<open>Messages, handles and events\<close>

lemma sys_ipc_send_ok:
  assumes s: "safe d n s" "n \<le> 2 ^ 30" and h: "msg_fits strict msg" and nb: "ipc_flags args AND BR_IPC_BLOCK = 0"
  shows "runs strict (sys_ipc_send y args msg s) (\<lambda>(res, msg, t). safe d (n + 6) t \<and> keep s t)"
proof -
  obtain p0 t0 where p0: "task_self s = Inr p0" "task_at s p0 t0" using self_ok [OF s(1)] by metis
  then obtain ob where ob: "k_objs s p0 = Some ob" by (auto simp: task_at_def)
  let ?msg = "msg\<lparr>msg_from := (msg_from msg)\<lparr>addr_id := o_id ob\<rparr>, msg_to := ipc_to args\<rparr>"
  have n6: "Suc n + 5 < 2 ^ 31" using s(2) by simp
  have fit: "msg_fits strict ?msg" using h by (simp add: msg_fits_def)
  have "runs strict (sbind (get_task q t) (\<lambda>target. sbind (self_task t) (\<lambda>(_, tk).
         sbind (channel_send y (task_channel target) (Some (task_domain tk)) ?msg
                  (ipc_deadline args) (ipc_flags args) t) (\<lambda>(result, s).
         sbind (kobject_deref (Some q) s) (\<lambda>s. Inr (result, ?msg, s)))))) (\<lambda>(res, msg, t). safe d (n + 6) t \<and> keep s t)"
    if t: "safe (plus1 q d) (Suc n) t" "keep s t" "kind t q = Some BR_OBJECT_TASK" for q t
  proof -
    obtain obq tq where tq: "k_objs t q = Some obq" "o_body obq = KTask tq" "get_task q t = Inr tq" using task_kind [OF t(3)] .
    have target: "task_at t q tq" "stays (plus1 q d) t q" using tq by (auto simp: task_at_def stays_def)
    obtain p tk where self: "self_task t = Inr (p, tk)" "task_at t p tk" "stays (plus1 q d) t p" using self_ok [OF t(1)] by metis
    have "runs strict (channel_send_unlock (task_channel tq) (Some (task_domain tk)) ?msg t) (\<lambda>(res, u). safe (plus1 q d) (n + 6) u \<and> keep t u)"
      using channel_send_unlock_ok [OF t(1) n6 fit target, of "Some (task_domain tk)"] self by (auto simp: ac_simps)
    then have "runs strict (channel_send y (task_channel tq) (Some (task_domain tk)) ?msg (ipc_deadline args) (ipc_flags args) t)
        (\<lambda>(res, u). safe (plus1 q d) (n + 6) u \<and> keep t u)"
      using nb by (simp add: channel_send_def channel_send_non_blocking_def)
    then show ?thesis
      unfolding tq(3) self(1) sbind_simps prod.case
      by (rule runs_bind2) (simp only: prod.case, elim conjE, rule deref_one, assumption, erule keep_trans [OF t(2)], simp)
  qed
  then show ?thesis
    unfolding sys_ipc_send_def p0(1) sbind_simps get_simps(1) [OF ob] Let_def
    using s(2) safe_weaken by (intro looked_bind [OF global_lookup_looked [OF s(1)] keep_refl]) force+
qed

lemma sys_ipc_ok:
  assumes s: "safe d n s" "n + 6 \<le> 2 ^ 24" and h: "msg_fits strict (ipc_msg args)" and nb: "ipc_flags args AND BR_IPC_BLOCK = 0"
  shows "runs strict (sys_ipc y args s) (\<lambda>(res, args, t). safe d (32 * n + 812) t \<and> keep s t)"
proof -
  have n: "n \<le> 2 ^ 30" using s(2) by simp
  have recv: "runs strict (sbind (self_task t) (\<lambda>(_, tk). sbind (channel_recv y (task_channel tk) (Some (task_domain tk)) msg
                   (ipc_deadline args) (ipc_flags args) t) (\<lambda>(result, msg, s). Inr (result, args\<lparr>ipc_msg := msg\<rparr>, s))))
      (\<lambda>(res, args, t). safe d (32 * n + 812) t \<and> keep s t)" if t: "safe d (n + 6) t" "keep s t" for t msg
  proof (rule self_bind [OF t(1)])
    fix p tk assume tk: "task_at t p tk" "stays d t p"
    have "runs strict (channel_recv y (task_channel tk) (Some (task_domain tk)) msg (ipc_deadline args) (ipc_flags args) t)
        (\<lambda>(res, msg, u). safe d (32 * n + 812) u \<and> keep t u)"
      using channel_recv_unlock_ok [OF t(1) s(2) tk] nb by (simp add: add_mult_distrib2 ac_simps channel_recv_def channel_recv_non_blocking_def)
    then show "runs strict (case (p, tk) of (_, tk) \<Rightarrow> sbind (channel_recv y (task_channel tk) (Some (task_domain tk)) msg
                   (ipc_deadline args) (ipc_flags args) t) (\<lambda>(result, msg, s). Inr (result, args\<lparr>ipc_msg := msg\<rparr>, s)))
        (\<lambda>(res, args, t). safe d (32 * n + 812) t \<and> keep s t)"
      unfolding prod.case by (rule runs_bind3) (use keep_trans [OF t(2)] in auto)
  qed
  have w: "safe d (32 * n + 812) t" if "safe d (n + 6) t" for t using that by (rule safe_weaken) auto
  have "runs strict (if ipc_flags args AND BR_IPC_SEND \<noteq> 0 then sys_ipc_send y args (ipc_msg args) s
            else Inr (BR_SUCCESS, ipc_msg args, s)) (\<lambda>(res, msg, t). safe d (n + 6) t \<and> keep s t)"
    using sys_ipc_send_ok [OF s(1) n h nb] safe_weaken [OF s(1), of d "n + 6"] by (simp add: keep_refl)
  then show ?thesis
    unfolding sys_ipc_def by (rule runs_bind3) (use recv w in \<open>simp del: runs_sbind\<close>)
qed

lemma sys_close_ok:
  assumes s: "safe d n s" "n \<le> 2 ^ 30" and h: "fits strict hdl"
  shows "runs strict (sys_close hdl s) (\<lambda>(res, t). safe d n t \<and> keep s t)"
  unfolding sys_close_def
proof (rule self_bind [OF s(1)])
  fix p t assume t: "task_at s p t" "stays d s p" "p \<in> set (k_tasks s)"
  note l = self_links(3,4) [OF s(1) t(1,2)]
  have "p \<noteq> task_domain t" using l(2) t(1) by (auto simp: task_at_def kind_def o_type_def)
  then have "pinned (task_domain t) d s" using t by (auto simp: pinned_def anchored_def task_at_def)
  then show "runs strict (case (p, t) of (_, t) \<Rightarrow> domain_remove (task_domain t) hdl s) (\<lambda>(res, t). safe d n t \<and> keep s t)"
    using domain_remove_ok [OF s(1) _ h l] s(2) by simp
qed

lemma safe_other [simp]:
  "safe d n (s\<lparr>k_bindings := b\<rparr>) = safe d n s" "safe d n (s\<lparr>k_log := l\<rparr>) = safe d n s"
proof -
  have "kinv (s\<lparr>k_bindings := b\<rparr>) d = kinv s d" "kinv (s\<lparr>k_log := l\<rparr>) d = kinv s d" by (rule kinv_cong; simp)+
  moreover have "running (s\<lparr>k_bindings := b\<rparr>) = running s" "running (s\<lparr>k_log := l\<rparr>) = running s"
    by (simp_all add: running_def task_self_def cpu_self_def)
  ultimately show "safe d n (s\<lparr>k_bindings := b\<rparr>) = safe d n s" "safe d n (s\<lparr>k_log := l\<rparr>) = safe d n s"
    by (simp_all add: safe_def tables_def)
qed

lemma keep_other: "keep s (s\<lparr>k_bindings := b\<rparr>)" "keep s (s\<lparr>k_log := l\<rparr>)"
  by (rule keepI; auto)+

lemma runs_br_event_eq: "runs strict (br_event_eq a b) (\<lambda>_. True)"
  by (auto simp: br_event_eq_def split: br_event_type.split)

lemma runs_event_binding_find: "runs strict (event_binding_find task e bs i) (\<lambda>_. True)"
  by (induction bs arbitrary: i) (auto simp: runs_True_iff [OF runs_br_event_eq])

lemma events_ok:
  assumes s: "safe d n s"
  shows "runs strict (event_bind p e s) (\<lambda>(res, t). safe d n t \<and> keep s t)"
    "runs strict (event_unbind p e s) (\<lambda>(res, t). safe d n t \<and> keep s t)"
    "runs strict (event_ack p e s) (\<lambda>(res, t). safe d n t \<and> keep s t)"
  using s by (auto simp: event_bind_def event_unbind_def event_unbind_unlocked_def event_ack_def event_binding_get_def
    set_ack_def runs_True_iff [OF runs_event_binding_find] keep_refl keep_other split: option.split)

lemma sys_inspect_ok:
  assumes s: "safe d n s" "n \<le> 2 ^ 30" and h: "fits strict (inspect_handle args)"
  shows "runs strict (sys_inspect args s) (\<lambda>(res, args, t). safe d (Suc n) t \<and> keep s t)"
proof -
  have n1: "n + 1 < 2 ^ 31" using s(2) by simp
  have fin: "runs strict (sbind (kget q t) (\<lambda>ob. Inr (BR_SUCCESS, f ob, t))) (\<lambda>(res, args, t). safe d (Suc n) t \<and> keep s t)"
    if t: "safe d' (Suc n) t" "keep s t" "0 < rc t q" "\<And>p. d p \<le> d' p" for q t d' f
  proof -
    obtain ob where "k_objs t q = Some ob" using t(3) by (auto simp: rc_pos)
    moreover have "safe d (Suc n) t" using t(1) by (rule safe_weaken) (auto intro: t(4))
    ultimately show ?thesis using t(2) by (simp add: get_simps)
  qed
  show ?thesis
    unfolding sys_inspect_def
  proof (rule self_bind [OF s(1)])
    fix p t assume t: "self_task s = Inr (p, t)" "task_at s p t" "stays d s p"
    have "runs strict (if inspect_handle args = BR_HANDLE_SELF then Inr (Some p, s)
            else domain_lookup (task_domain t) (inspect_handle args) BR_OBJECT_ANY s)
        (\<lambda>(po, u). keep s u \<and> (case po of None \<Rightarrow> safe d (Suc n) u
          | Some q \<Rightarrow> \<exists>d'. safe d' (Suc n) u \<and> 0 < rc u q \<and> (\<forall>p. d p \<le> d' p)))"
    proof (cases "inspect_handle args = BR_HANDLE_SELF")
      case True
      then show ?thesis using safe_Suc [OF s(1)] stays_live [OF s(1) t(3)] by (auto simp: keep_refl)
    next
      case False
      show ?thesis
        unfolding if_not_P [OF False]
        by (rule runs_mono [OF own_lookup_looked [OF s(1) n1 h t]])
          (use owned_live [OF safe_kinv] in \<open>fastforce simp: looked_def plus1_def split: option.splits\<close>)
    qed
    then show "runs strict (case (p, t) of (self, t) \<Rightarrow> sbind (if inspect_handle args = BR_HANDLE_SELF then Inr (Some self, s)
            else domain_lookup (task_domain t) (inspect_handle args) BR_OBJECT_ANY s) (\<lambda>(object, s).
       case object of None \<Rightarrow> Inr (BR_BAD_HANDLE, args, s)
       | Some object \<Rightarrow> sbind (kget object s) (\<lambda>ob.
           Inr (BR_SUCCESS,
                args\<lparr>inspect_type := o_type ob, inspect_id := o_id ob,
                     inspect_infos := (case o_body ob of
                         KMemory m \<Rightarrow> MemoryInfos (memory_area m)
                       | KDomain d \<Rightarrow> DomainInfos (slot_count d)
                       | KSpace sp \<Rightarrow> SpaceInfos (space_flags sp)
                       | KTask t \<Rightarrow> TaskInfos (task_rights t) (stopped t) (started t) (blocked t))\<rparr>, s))))
        (\<lambda>(res, args, t). safe d (Suc n) t \<and> keep s t)"
      unfolding prod.case by (rule runs_bind2) (auto simp del: runs_sbind intro: fin split: option.splits)
  qed
qed

section \<open>Every call\<close>

text \<open>A call that does not ask to wait for a channel.\<close>

fun non_blocking :: "syscall \<Rightarrow> bool" where
  "non_blocking (ScIpc a) = (ipc_flags a AND BR_IPC_BLOCK = 0)"
| "non_blocking _ = True"

text \<open>Every handle among the arguments of a call fits the table, or handles that do not are allowed.\<close>

fun handles_fit :: "bool \<Rightarrow> syscall \<Rightarrow> bool" where
  "handles_fit strict (ScMap a) = (fits strict (map_space a) \<and> fits strict (map_memory a))"
| "handles_fit strict (ScUnmap a) = fits strict (unmap_space a)"
| "handles_fit strict (ScCreate a) = (case create_props a of TaskProps p \<Rightarrow> fits strict (tprops_space p) | _ \<Rightarrow> True)"
| "handles_fit strict (ScDup a) = fits strict (dup_handle a)"
| "handles_fit strict (ScStart a) = fits strict (start_handle a)"
| "handles_fit strict (ScExit a) = fits strict (exit_handle a)"
| "handles_fit strict (ScIpc a) = msg_fits strict (ipc_msg a)"
| "handles_fit strict (ScDrop a) = fits strict (drop_handle a)"
| "handles_fit strict (ScClose h) = fits strict h"
| "handles_fit strict (ScInspect a) = fits strict (inspect_handle a)"
| "handles_fit strict _ = True"

lemma handles_fit_any: "handles_fit False call"
  by (cases call) (auto simp: fits_def msg_fits_def split: br_props.split)

definition in_call :: "kst \<Rightarrow> bool" where
  "in_call s \<longleftrightarrow> (\<exists>p t. task_self s = Inr p \<and> task_at s p t \<and> in_syscall t)"

lemma drop_args_ok: "runs strict m (\<lambda>(res, a, t). P t) \<Longrightarrow> runs strict (drop_args m) (\<lambda>(res, t). P t)"
  unfolding drop_args_def by (auto elim: runs_mono)

lemma syscall_run_ok:
  assumes s: "safe d n s" "n \<le> 2 ^ 20" "non_blocking call" "in_call s" and fit: "handles_fit strict call"
  shows "runs strict (syscall_run pl call s) (\<lambda>(res, t). safe d (32 * n + 812) t \<and> keep s t)"
proof -
  have n: "n \<le> 2 ^ 30" "n + 6 \<le> 2 ^ 24" using s(2) by simp_all
  have lift: "runs strict m (\<lambda>(res, t). safe d (32 * n + 812) t \<and> keep s t)"
    if "runs strict m (\<lambda>(res, t). safe d k t \<and> keep s t)" "k \<le> 32 * n + 812" for m k
    by (rule runs_mono [OF that(1)]) (use that(2) in \<open>auto intro: safe_weaken\<close>)
  obtain p t where self: "task_self s = Inr p" "task_at s p t" "in_syscall t" using s(4) by (auto simp: in_call_def)
  have st: "self_task s = Inr (p, t)" using self by (auto simp: self_task_def task_at_def get_simps)
  show ?thesis
  proof (cases call)
    case (ScIpc a)
    then show ?thesis using drop_args_ok [OF sys_ipc_ok [OF s(1) n(2)]] s(3) fit by simp
  next
    case (ScExit a)
    then show ?thesis using lift [OF sys_exit_ok [OF s(1) n(1) _ self]] fit by simp
  next
    case (ScCreate a)
    have "runs strict (drop_args (sys_create a s)) (\<lambda>(res, t). safe d (grow (Suc (Suc n))) t \<and> keep s t)"
      by (rule drop_args_ok [OF sys_create_ok [OF s(1) n(1)]]) (use fit ScCreate in simp)
    with ScCreate show ?thesis using lift [of _ "grow (Suc (Suc n))"] by simp
  next
    case (ScDup a)
    then show ?thesis using lift [OF drop_args_ok [OF sys_dup_ok [OF s(1) n(1)]]] fit by simp
  next
    case (ScMap a)
    then show ?thesis using lift [OF drop_args_ok [OF sys_map_ok [OF s(1) n(1)]]] fit by simp
  next
    case (ScUnmap a)
    then show ?thesis using lift [OF sys_unmap_ok [OF s(1) n(1)]] fit by simp
  next
    case (ScStart a)
    then show ?thesis using lift [OF sys_start_ok [OF s(1) n(1)]] fit by simp
  next
    case (ScDrop a)
    then show ?thesis using lift [OF sys_drop_ok [OF s(1) n(1)]] fit by simp
  next
    case (ScClose a)
    then show ?thesis using lift [OF sys_close_ok [OF s(1) n(1)]] fit by simp
  next
    case (ScInspect a)
    then show ?thesis using lift [OF drop_args_ok [OF sys_inspect_ok [OF s(1) n(1)]]] fit by simp
  next
    case (ScBind e)
    have "runs strict (sys_bind e s) (\<lambda>(res, t). safe d n t \<and> keep s t)"
      using events_ok(1) [OF s(1)] s(1) by (simp add: sys_bind_def st keep_refl)
    with ScBind show ?thesis using lift [of _ n] by simp
  next
    case (ScUnbind e)
    then show ?thesis using lift [OF events_ok(2) [OF s(1)]] by (simp add: sys_unbind_def self)
  next
    case (ScAck e)
    then show ?thesis using lift [OF events_ok(3) [OF s(1)]] by (simp add: sys_ack_def self)
  next
    case (ScLog l)
    have "runs strict (sys_log l s) (\<lambda>(res, t). safe d n t \<and> keep s t)" using s(1) by (simp add: sys_log_def st keep_refl keep_other)
    with ScLog show ?thesis using lift [of _ n] by simp
  next
    case ScNow
    have "runs strict (syscall_run pl call s) (\<lambda>(res, t). safe d n t \<and> keep s t)"
      using s(1) ScNow by (simp add: sys_now_def drop_args_def keep_refl)
    then show ?thesis using lift [of _ n] by simp
  next
    case (ScIn a)
    have "runs strict (syscall_run pl call s) (\<lambda>(res, t). safe d n t \<and> keep s t)"
      using s(1) ScIn by (simp add: sys_in_def drop_args_def st keep_refl)
    then show ?thesis using lift [of _ n] by simp
  next
    case (ScOut a)
    have "runs strict (syscall_run pl call s) (\<lambda>(res, t). safe d n t \<and> keep s t)"
      using s(1) ScOut by (simp add: sys_out_def drop_args_def st keep_refl)
    then show ?thesis using lift [of _ n] by simp
  next
    case ScInvalid
    have "runs strict (syscall_run pl call s) (\<lambda>(res, t). safe d n t \<and> keep s t)"
      using s(1) ScInvalid by (simp add: keep_refl)
    then show ?thesis using lift [of _ n] by simp
  qed
qed


section \<open>A state with one running task\<close>

text \<open>
  A task (object 3) with its space (object 0), its domain (object 1) and its channel (2); its first
  handle is a memory object (object 4). It is inside a system call and may log and make tasks.
\<close>

definition space_example :: space where
  "space_example = \<lparr>space_flags = 0, space_vmm = 0xffff800000100000, space_mmaps = [],
     space_alloc = range_alloc_init (\<lambda>_. True)\<rparr>"

definition task_example :: task where
  "task_example = \<lparr>task_flags = BR_TASK_USER, task_blocker = zero_blocker, in_syscall = True, stopped = False,
     blocked = False, started = True, time_start = 0, time_end = 0, task_rights = BR_RIGHT_LOG OR BR_RIGHT_TASK,
     task_context = context_create, task_space = 0, task_domain = 1, task_channel = 2, task_sp = 0,
     task_stack = mk_range 0 0, task_result = 0\<rparr>"

definition table_example :: "ptr option slot_impl" where
  "table_example = \<lparr>slot_data = [Some 4, None], slot_used = [True, False], slot_cap = 2\<rparr>"

definition kst_example :: kst where
  "kst_example = \<lparr>k_next = 5, k_id = 5, k_init = True, k_global = [0, 1, 3, 4],
     k_objs = [0 \<mapsto> \<lparr>o_id = 0, o_refs = 1, o_body = KSpace space_example\<rparr>,
               1 \<mapsto> \<lparr>o_id = 1, o_refs = 1, o_body = KDomain table_example\<rparr>,
               3 \<mapsto> \<lparr>o_id = 2, o_refs = 1, o_body = KTask task_example\<rparr>,
               4 \<mapsto> \<lparr>o_id = 3, o_refs = 1, o_body = KMemory \<lparr>memory_type = MEMORY_PMM, memory_area = mk_range 0x4000 0x1000\<rparr>\<rparr>],
     k_chans = [2 \<mapsto> ring_init_impl IPC_CHANNEL_SIZE zero_parcel], k_locked = (\<lambda>_. False), k_bindings = [],
     k_tasks = [3], k_tick = 0, k_cpus = [\<lparr>cpu_idle = None, cpu_current = Some 3, cpu_next = Some 3\<rparr>], k_self = 0,
     k_ipis = [], k_vmm = vmm_example, k_log = []\<rparr>"

lemma table_example_lookup: "slot_lookup table_example i = (if i = 0 then Some (Some 4) else None)"
  by (cases i) (auto simp: slot_lookup_alt table_example_def nth_Cons' numeral_2_eq_2 less_Suc_eq)

lemma table_example_held: "slots_held table_example 0 p = of_bool (p = 4)"
  unfolding slots_held_def table_example_lookup by (simp add: table_example_def numeral_2_eq_2)

lemma sum_below_5: "(\<Sum>q < (5::nat). f q) = f 0 + f 1 + f 2 + f 3 + (f 4 :: nat)"
  by (simp add: eval_nat_numeral)

lemma kst_example_held: "holders kst_example p = of_bool (p = 0) + of_bool (p = 1) + of_bool (p = 3) + of_bool (p = 4)"
  by (simp add: holders_def objs_held_def chans_held_def sum_below_5 kst_example_def held_at_def obj_held_def
    space_example_def mmaps_held_def table_example_held task_example_def chan_held_def ring_list_init)

lemma kst_example_store: "store_ok kst_example"
  unfolding store_ok_def
proof (intro conjI)
  show "\<forall>x\<ge>k_next kst_example. k_objs kst_example x = None \<and> k_chans kst_example x = None"
    by (simp add: kst_example_def)
  show "\<forall>x y. k_objs kst_example x = Some y \<longrightarrow> 0 \<le> o_refs y \<and> body_wf kst_example (o_body y) \<and>
      (0 < o_refs y \<longrightarrow> body_typed kst_example (o_body y))"
    by (auto simp: kst_example_def table_example_lookup task_example_def kind_def o_type_def split: if_splits)
      (simp add: slot_inv_def table_example_def)
  show "\<forall>x x' y y' tk tk'. k_objs kst_example x = Some y \<and> o_body y = KTask tk \<and> k_objs kst_example x' = Some y' \<and>
      o_body y' = KTask tk' \<and> task_channel tk = task_channel tk' \<longrightarrow> x = x'"
    by (auto simp: kst_example_def split: if_splits)
  show "\<forall>c r. k_chans kst_example c = Some r \<longrightarrow> ring_inv r \<and> ring_capacity r = IPC_CHANNEL_SIZE \<and>
      (\<forall>pc\<in>set (ring_list r). parcel_ok pc)"
    by (auto simp: kst_example_def ring_inv_init ring_list_init split: if_splits) (simp add: ring_init_impl_def)
  show "distinct (k_global kst_example)" "\<forall>p\<in>set (k_global kst_example). 0 < rc kst_example p"
    "\<forall>p\<in>set (k_tasks kst_example). kind kst_example p = Some BR_OBJECT_TASK"
    by (simp_all add: kst_example_def rc_def kind_def o_type_def)
qed

lemma kst_example_kinv: "kinv kst_example (\<lambda>_. 0)"
  unfolding kinv_def kst_example_held using kst_example_store by (auto simp: rc_def kst_example_def)

lemma kst_example_safe: "safe (\<lambda>_. 0) 2 kst_example"
proof -
  have "tables 2 kst_example" by (auto simp: tables_def kst_example_def table_example_def split: if_splits)
  moreover have "running kst_example" by (simp add: running_def task_self_def cpu_self_def kst_example_def deref_ptr_def)
  ultimately show ?thesis using kst_example_kinv by (simp add: safe_def)
qed

lemma kst_example_self: "task_self kst_example = Inr 3" "task_at kst_example 3 task_example"
  by (simp_all add: task_self_def cpu_self_def kst_example_def deref_ptr_def task_at_def)

lemma kst_example_in_call: "in_call kst_example"
  using kst_example_self by (auto simp: in_call_def task_example_def)

section \<open>Theorems\<close>



text \<open>
  C2. Rights are confined. Whatever system call a task makes, every task that exists afterwards either
  existed before and has no right it did not have, or is new and has only rights of the caller.
\<close>

theorem syscall_rights_confined:
  assumes "safe (\<lambda>_. 0) n s" and "n \<le> 2 ^ 20" and "non_blocking call" and "in_call s"
    and "syscall_run pl call s = Inr (res, t)" and "task_at t q tk"
  shows "(\<exists>tk0. task_at s q tk0 \<and> within (task_rights tk) (task_rights tk0)) \<or>
    (k_objs s q = None \<and> within (task_rights tk) (own_rights s))"
proof -
  from assms(6) obtain ob' where ob': "k_objs t q = Some ob'" "o_body ob' = KTask tk" by (auto simp: task_at_def)
  have "keep s t" using syscall_run_ok [OF assms(1-4) handles_fit_any, of pl] assms(5) by simp
  from keep_objD [OF this ob'(1)] show ?thesis
  proof
    assume "\<exists>ob. k_objs s q = Some ob \<and> later (o_body ob) (o_body ob')"
    then obtain ob where ob: "k_objs s q = Some ob" "later (o_body ob) (KTask tk)" using ob'(2) by auto
    then obtain tk0 where "o_body ob = KTask tk0" by (cases "o_body ob") (auto simp: later_def)
    with ob show ?thesis by (auto simp: task_at_def later_def)
  next
    assume new: "\<not> q < k_next s \<and> within (body_rights (o_body ob')) (own_rights s)"
    then have "k_objs s q = None" using kinv_store [OF safe_kinv [OF assms(1)]] by (simp add: store_ok_def)
    with new ob'(2) show ?thesis by simp
  qed
qed

theorem syscall_rights_confined_witness:
  "\<exists>t tk. syscall_run \<lparr>plat_now = 0, plat_in = (\<lambda>_ _. 0), plat_yield = Inr\<rparr>
      (ScDrop \<lparr>drop_handle = BR_HANDLE_SELF, drop_rights = BR_RIGHT_LOG\<rparr>) kst_example = Inr (BR_SUCCESS, t) \<and>
    task_at t 3 tk \<and> task_rights tk = BR_RIGHT_TASK \<and> within (task_rights tk) (own_rights kst_example)"
proof -
  let ?pl = "\<lparr>plat_now = 0, plat_in = (\<lambda>_ _. 0), plat_yield = Inr\<rparr>" 
  let ?c = "ScDrop \<lparr>drop_handle = BR_HANDLE_SELF, drop_rights = BR_RIGHT_LOG\<rparr>"
  let ?r = "map_sum id (\<lambda>(res, t). (res, map_option (\<lambda>ob. body_rights (o_body ob)) (k_objs t 3))) (syscall_run ?pl ?c kst_example)"
  have "?r = Inr (BR_SUCCESS, Some BR_RIGHT_TASK)" by code_simp
  then obtain t ob where t: "syscall_run ?pl ?c kst_example = Inr (BR_SUCCESS, t)" "k_objs t 3 = Some ob"
      "body_rights (o_body ob) = BR_RIGHT_TASK"
    by (cases "syscall_run ?pl ?c kst_example") auto
  then obtain tk where tk: "task_at t 3 tk" "task_rights tk = BR_RIGHT_TASK"
    by (cases "o_body ob") (auto simp: task_at_def BR_RIGHT_TASK_def)
  have "task_at kst_example 3 tk0 \<Longrightarrow> tk0 = task_example" for tk0 using kst_example_self(2) by (auto simp: task_at_def)
  moreover have "k_objs kst_example 3 \<noteq> None" by (simp add: kst_example_def)
  ultimately have "within (task_rights tk) (task_rights task_example)"
    using syscall_rights_confined [OF kst_example_safe _ _ kst_example_in_call t(1) tk(1)] by auto
  with t tk own_rights_at [OF kst_example_self] show ?thesis by auto
qed


end
