(* ===== verification/Capabilities.thy ===== *)
theory Capabilities
  imports Syscall_Safe
begin

text \<open>
  Handles as capabilities: what a handle gives access to, that giving one back undoes taking it, and
  where the code uses a handle at two different widths. Also the refusals of the privileged calls.
\<close>

section \<open>Looking up a handle\<close>

lemma domain_lookup_run:
  assumes self: "k_objs s self = Some ob" "o_body ob = KDomain tb" and cap: "slot_cap tb \<le> 2 ^ 31"
    and i: "i < slot_cap tb"
  shows "domain_lookup self (of_nat i) ty s = (case slot_lookup tb i of None \<Rightarrow> Inr (None, s)
     | Some po \<Rightarrow> sbind (deref_ptr po) (\<lambda>object. sbind (kget object s) (\<lambda>ob.
         if o_type ob \<noteq> ty \<and> ty \<noteq> BR_OBJECT_ANY then Inr (None, s)
         else sbind (object_ref object s) (\<lambda>s. Inr (Some object, s)))))"
proof -
  have u: "unat (of_nat i :: u64) = i" using i cap by (intro unat_of_nat_u64) simp
  then have "slot_index (of_nat i) = int i" using i cap by (subst slot_index_small) simp_all
  then show ?thesis
    using i by (simp add: domain_lookup_def get_simps(3) [OF self] slot_lookup_def slot_at_def u)
qed


lemma slot_index_low:
  assumes "unat h mod 2 ^ 32 < 2 ^ 31"
  shows "slot_index h = int (unat h mod 2 ^ 32)"
proof -
  have u: "take_bit 32 (uint h) = int (unat h mod 2 ^ 32)"
  proof -
    have "take_bit 32 (uint h) = int (take_bit 32 (unat h))" unfolding uint_nat by (rule take_bit_of_nat)
    then show ?thesis by (simp only: take_bit_nat_def)
  qed
  have "signed_take_bit 31 (take_bit 32 (uint h)) = take_bit 32 (uint h)"
    unfolding u signed_take_bit_int_eq_self_iff using assms by auto
  then show ?thesis unfolding slot_index_def u [symmetric] by (simp add: sint_uint unsigned_ucast_eq)
qed

section \<open>Theorems\<close>

text \<open>
  C5. A reference that is given up is given up once and nothing else is lost: releasing an owned
  reference ends, never uses memory that is not there, keeps every count at least as high as what is held, and
  every object that is still referenced afterwards is there with its number and its contents.
\<close>

theorem object_deref_sound:
  assumes "kinv s (plus1 p d)"
  shows "(\<forall>f. kobject_deref (Some p) s = Inl f \<longrightarrow> \<not> memory_fault f) \<and>
    (\<forall>t. kobject_deref (Some p) s = Inr t \<longrightarrow> kinv t d \<and>
      (\<forall>q. 0 < holders t q + d q \<longrightarrow> (\<exists>ob ob'. k_objs s q = Some ob \<and> k_objs t q = Some ob' \<and>
         o_body ob' = o_body ob \<and> o_id ob' = o_id ob)))"
proof -
  let ?v = "k_next s"
  have none: "k_objs s ?v = None" using kinv_store [OF assms] by (simp add: store_ok_def)
  have run: "runs True (kobject_deref (Some p) s) (\<lambda>t. kinv (ovr ?v (KMemory undefined) t) d \<and> frame {} s t)"
    using assms none by (intro kd.release_owned [where n = "live s + 1"]) (simp_all add: ovr_none pinned_def)
  have "kinv t d \<and> (\<forall>q. 0 < holders t q + d q \<longrightarrow> (\<exists>ob ob'. k_objs s q = Some ob \<and> k_objs t q = Some ob' \<and>
      o_body ob' = o_body ob \<and> o_id ob' = o_id ob))" if t: "kobject_deref (Some p) s = Inr t" for t
  proof -
    have f: "kinv (ovr ?v (KMemory undefined) t) d" "frame {} s t" using run t by simp_all
    then have "k_objs t ?v = None" using none frame_objD [of "{}" s t ?v] by (cases "k_objs t ?v") auto
    with f have inv: "kinv t d" by (simp add: ovr_none)
    show ?thesis
    proof (intro conjI allI impI inv)
      fix q assume "0 < holders t q + d q"
      from kinv_live [OF inv this] obtain ob' where "k_objs t q = Some ob'" by blast
      with frame_objD [OF f(2) _ this] show "\<exists>ob ob'. k_objs s q = Some ob \<and> k_objs t q = Some ob' \<and>
          o_body ob' = o_body ob \<and> o_id ob' = o_id ob" by auto
    qed
  qed
  with run show ?thesis by (cases "kobject_deref (Some p) s") auto
qed

theorem object_deref_sound_witness:
  "\<exists>s. object_ref 4 kst_example = Inr s \<and> (\<exists>t ob. kobject_deref (Some 4) s = Inr t \<and> k_objs t 4 = Some ob)"
proof -
  obtain s where s: "object_ref 4 kst_example = Inr s" by (simp add: object_ref_def kget_def kst_example_def)
  have "runs True (object_ref 4 kst_example) (\<lambda>t. safe (plus1 4 (\<lambda>_. 0)) (Suc 2) t \<and> keep kst_example t)"
    by (rule object_ref_ok [OF kst_example_safe]) (simp_all add: rc_def kst_example_def)
  then have inv: "kinv s (plus1 4 (\<lambda>_. 0))" using s by (simp add: safe_def)
  have "kobject_deref (Some 4) s \<noteq> Inl f" for f
    using s by (auto simp: object_ref_def kget_def kst_example_def kput_def kobject_deref_def Let_def refcount_defs)
  then obtain t where t: "kobject_deref (Some 4) s = Inr t" by (cases "kobject_deref (Some 4) s") auto
  have "holders t 4 > 0"
  proof -
    have "\<exists>ob. k_objs t 1 = Some ob \<and> o_body ob = KDomain table_example \<and> 0 < o_refs ob"
      using s t by (auto simp: object_ref_def kget_def kst_example_def kput_def kobject_deref_def Let_def refcount_defs)
    then obtain ob where ob: "k_objs t 1 = Some ob" "o_body ob = KDomain table_example" "0 < o_refs ob" by blast
    have "k_next t = 5" using s t by (auto simp: object_ref_def kget_def kst_example_def kput_def kobject_deref_def Let_def refcount_defs)
    then have "obj_held ob 4 \<le> holders t 4" using ob by (intro held_by_object [of 1]) auto
    then show ?thesis using ob by (simp add: obj_held_def table_example_held)
  qed
  moreover from object_deref_sound [OF inv] t
  have "\<forall>q. 0 < holders t q + 0 \<longrightarrow> (\<exists>ob ob'. k_objs s q = Some ob \<and> k_objs t q = Some ob' \<and>
      o_body ob' = o_body ob \<and> o_id ob' = o_id ob)" by simp
  ultimately obtain ob where "k_objs t 4 = Some ob" by auto
  with s t show ?thesis by blast
qed

text \<open>
  C6. Handles round-trip. Adding an object to a domain gives a handle that was not in use; the handle
  looks the object up at its own type and at no other; removing the handle succeeds, after which it
  finds nothing, and every object and every other handle is as it was before.
\<close>

theorem domain_handle_roundtrip:
  assumes self: "k_objs s self = Some ob" "o_body ob = KDomain tb" "slot_inv tb" "slot_cap tb \<le> 2 ^ 20"
    and obq: "k_objs s q = Some obq" "0 < o_refs obq"
  shows "\<exists>h t t1 t2 tb2. domain_add self q s = Inr (h, t) \<and>
     slot_lookup tb (unat h) = None \<and>
     domain_lookup self h (o_type obq) t = Inr (Some q, t1) \<and>
     (\<forall>ty. ty \<noteq> o_type obq \<longrightarrow> ty \<noteq> BR_OBJECT_ANY \<longrightarrow> domain_lookup self h ty t = Inr (None, t)) \<and>
     domain_remove self h t = Inr (BR_SUCCESS, t2) \<and>
     domain_lookup self h BR_OBJECT_ANY t2 = Inr (None, t2) \<and>
     k_objs t2 = (k_objs s)(self \<mapsto> ob\<lparr>o_body := KDomain tb2\<rparr>) \<and> slot_lookup tb2 = slot_lookup tb"
proof -
  obtain i tb' where r: "domain_add self q s = Inr (of_nat i, kput self
      ((if self = q then ob\<lparr>o_refs := refs_inc (o_refs ob)\<rparr> else ob)\<lparr>o_body := KDomain tb'\<rparr>) (kput q (obq\<lparr>o_refs := refs_inc (o_refs obq)\<rparr>) s))"
     "slot_inv tb'" "slot_lookup tb i = None" "slot_lookup tb' = (slot_lookup tb)(i \<mapsto> Some q)"
     "i < slot_cap tb'" "slot_cap tb' \<le> 2 * slot_cap tb + 20"
    using domain_add_run [OF self(1,2) obq(1) self(3)] self(4) by auto
  let ?o = "(if self = q then ob\<lparr>o_refs := refs_inc (o_refs ob)\<rparr> else ob)\<lparr>o_body := KDomain tb'\<rparr>"
  let ?t = "kput self ?o (kput q (obq\<lparr>o_refs := refs_inc (o_refs obq)\<rparr>) s)"
  have cap: "slot_cap tb' \<le> 2 ^ 31" using r(6) self(4) by simp
  have at: "k_objs ?t self = Some ?o" "o_body ?o = KDomain tb'" by (simp_all add: kput_def)
  obtain obq' where q: "k_objs ?t q = Some obq'" "o_type obq' = o_type obq" "o_refs obq' = refs_inc (o_refs obq)"
    using obq self by (cases "self = q") (auto simp: kput_def o_type_def)
  have u: "unat (of_nat i :: u64) = i" using r(5) cap by (intro unat_of_nat_u64) simp
  have idx: "slot_index (of_nat i) = int i" using r(5) cap u by (subst slot_index_small) simp_all
  have look: "domain_lookup self (of_nat i) ty ?t = (if o_type obq \<noteq> ty \<and> ty \<noteq> BR_OBJECT_ANY then Inr (None, ?t)
     else Inr (Some q, kput q (obq'\<lparr>o_refs := refs_inc (o_refs obq')\<rparr>) ?t))" for ty
    unfolding domain_lookup_run [OF at cap r(5)] using q by (simp add: r(4) deref_ptr_def object_ref_def refcount_ref_def get_simps [OF q(1)])
  have valid: "slot_valid_impl tb' (int i)" using r(4) slot_lookup_def [of tb' i] by (auto split: if_splits)
  obtain tb2 where tb2: "slot_release_impl tb' (int i) = Inr tb2" "slot_lookup tb2 = (slot_lookup tb')(i := None)"
      "slot_cap tb2 = slot_cap tb'" using slot_release_lookup [OF r(2) valid] by blast
  have sl: "slot_data tb' ! i = Some q" using r(4) valid slot_lookup_def [of tb' i] by simp
  have l2: "slot_lookup tb2 = slot_lookup tb" using tb2(2) r(3,4) by auto
  let ?u = "kput q (obq'\<lparr>o_refs := o_refs obq\<rparr>) ?t"
  have de: "kobject_deref (Some q) ?t = Inr ?u"
    using q refs_inc_not_1 [OF obq(2)] refs_dec_inc [OF obq(2)]
    by (simp add: kobject_deref_def get_simps [OF q(1)] Let_def refcount_deref_def)
  have body: "\<exists>o1. k_objs ?u self = Some o1 \<and> o_body o1 = KDomain tb' \<and> o_id o1 = o_id ob \<and> o_refs o1 = o_refs ob"
    using q(1) at obq self by (cases "self = q") (auto simp: kput_def)
  then obtain o1 where o1: "k_objs ?u self = Some o1" "o_body o1 = KDomain tb'" "o_id o1 = o_id ob" "o_refs o1 = o_refs ob" by blast
  let ?t2 = "kput self (o1\<lparr>o_body := KDomain tb2\<rparr>) ?u"
  have rem: "domain_remove self (of_nat i) ?t = Inr (BR_SUCCESS, ?t2)"
    using valid idx u sl r(5) de tb2(1)
    by (simp add: domain_remove_def get_simps(3) [OF at] slot_at_def get_simps(3,6) [OF o1(1)] o1(2))
  have o1': "o1\<lparr>o_body := KDomain tb2\<rparr> = ob\<lparr>o_body := KDomain tb2\<rparr>" using o1 by (cases o1; cases ob) simp
  have objs: "k_objs ?t2 = (k_objs s)(self \<mapsto> ob\<lparr>o_body := KDomain tb2\<rparr>)"
  proof (cases "self = q")
    case True
    then show ?thesis using o1' by (simp add: kput_def)
  next
    case False
    then have "obq' = obq\<lparr>o_refs := refs_inc (o_refs obq)\<rparr>" using q(1) by (simp add: kput_def)
    then show ?thesis using False o1' obq(1) by (auto simp: kput_def fun_eq_iff)
  qed
  have "domain_lookup self (of_nat i) BR_OBJECT_ANY ?t2 = Inr (None, ?t2)"
    using domain_lookup_run [of ?t2 self "ob\<lparr>o_body := KDomain tb2\<rparr>" tb2 i BR_OBJECT_ANY] objs tb2(3) cap r(3,5) l2 by simp
  then show ?thesis
    using r(1,3) look rem objs l2 u by auto
qed

theorem domain_handle_roundtrip_witness:
  "\<exists>h t. domain_add 1 3 kst_example = Inr (h, t) \<and> (\<exists>t1. domain_lookup 1 h BR_OBJECT_TASK t = Inr (Some 3, t1)) \<and>
     domain_lookup 1 h BR_OBJECT_SPACE t = Inr (None, t)"
proof -
  let ?d = "\<lparr>o_id = 1, o_refs = 1, o_body = KDomain table_example\<rparr>"
  let ?q = "\<lparr>o_id = 2, o_refs = 1, o_body = KTask task_example\<rparr>"
  have a: "k_objs kst_example 1 = Some ?d" "o_body ?d = KDomain table_example" "slot_inv table_example"
    "slot_cap table_example \<le> 2 ^ 20" "k_objs kst_example 3 = Some ?q" "0 < o_refs ?q"
    by (simp_all add: kst_example_def table_example_def slot_inv_def)
  have ty: "o_type ?q = BR_OBJECT_TASK" by (simp add: o_type_def)
  show ?thesis using domain_handle_roundtrip [OF a] unfolding ty by fastforce
qed

text \<open>
  A handle is a 64-bit number, but \<open>slot_valid\<close> looks at its low 32 bits only. A handle whose low
  half names a slot in use and whose high half is not zero passes the check, and the access that
  follows is outside the table: user space makes the kernel read out of bounds.
\<close>

theorem domain_lookup_high_handle:
  assumes "k_objs s self = Some ob" and "o_body ob = KDomain tb" and "unat h mod 2 ^ 32 < 2 ^ 31"
    and "slot_valid_impl tb (int (unat h mod 2 ^ 32))" and "slot_cap tb \<le> unat h"
  shows "domain_lookup self h ty s = Inl WildPointer \<and> domain_remove self h s = Inl WildPointer"
  using assms slot_index_low [OF assms(3)]
  by (simp add: domain_lookup_def domain_remove_def get_simps(3) [OF assms(1,2)] slot_at_def)

theorem domain_lookup_high_handle_witness:
  "domain_lookup 1 0x100000000 BR_OBJECT_ANY kst_example = Inl WildPointer"
proof -
  have a: "k_objs kst_example 1 = Some \<lparr>o_id = 1, o_refs = 1, o_body = KDomain table_example\<rparr>" by (simp add: kst_example_def)
  have u: "unat (0x100000000 :: u64) mod 2 ^ 32 = 0" "unat (0x100000000 :: u64) = 2 ^ 32" by simp_all
  have v: "slot_valid_impl table_example 0" "slot_cap table_example \<le> 2 ^ 32"
    by (simp_all add: slot_valid_impl_def table_example_def)
  show ?thesis
    using domain_lookup_high_handle [OF a, of table_example "0x100000000" BR_OBJECT_ANY] u v by simp
qed

text \<open>
  C40. The privileged calls are refused without the right they need, and a refused call changes nothing:
  logging, port input and output, binding an interrupt, creating a task, and the memory flags
  that reach physical memory.
\<close>

theorem refused_without_right:
  assumes "self_task s = Inr (p, t)"
  shows "(\<not> has_right t BR_RIGHT_LOG \<longrightarrow> syscall_run pl (ScLog m) s = Inr (BR_NOT_PERMITTED, s)) \<and>
    (\<not> has_right t BR_RIGHT_PIO \<longrightarrow> syscall_run pl (ScIn io) s = Inr (BR_NOT_PERMITTED, s) \<and>
       sys_out io s = Inr (BR_NOT_PERMITTED, None, s)) \<and>
    (\<not> has_right t BR_RIGHT_IRQ \<and> ev_type e = BR_EVENT_IRQ \<longrightarrow> syscall_run pl (ScBind e) s = Inr (BR_NOT_PERMITTED, s)) \<and>
    (\<not> has_right t BR_RIGHT_TASK \<longrightarrow>
       syscall_run pl (ScCreate (a\<lparr>create_props := TaskProps tp\<rparr>)) s = Inr (BR_NOT_PERMITTED, s)) \<and>
    (\<not> has_right t BR_RIGHT_DMA \<and> mprops_flags mp AND (BR_MEM_DMA OR BR_MEM_LOWER) \<noteq> 0 \<longrightarrow>
       syscall_run pl (ScCreate (a\<lparr>create_props := MemoryProps mp\<rparr>)) s = Inr (BR_NOT_PERMITTED, s)) \<and>
    (\<not> has_right t BR_RIGHT_DMA \<and> map_flags ma AND (BR_MEM_WRITE_THROUGHT OR BR_MEM_GLOBAL) \<noteq> 0 \<longrightarrow>
       syscall_run pl (ScMap ma) s = Inr (BR_NOT_PERMITTED, s))"
proof -
  have "mprops_flags mp AND (BR_MEM_DMA OR BR_MEM_LOWER) \<noteq> 0 \<Longrightarrow>
      mprops_flags mp AND BR_MEM_DMA \<noteq> 0 \<or> mprops_flags mp AND BR_MEM_LOWER \<noteq> 0"
    by (auto simp: bit.conj_disj_distrib)
  then show ?thesis
    using assms by (auto simp: drop_args_def sys_log_def sys_in_def sys_out_def sys_bind_def sys_create_def
      sys_create_memory_def sys_map_def)
qed

theorem refused_without_right_witness:
  "self_task kst_example = Inr (3, task_example) \<and> \<not> has_right task_example BR_RIGHT_PIO \<and>
   sys_out \<lparr>io_port = 0x64, io_data = 0xfe, io_size = 1\<rparr> kst_example = Inr (BR_NOT_PERMITTED, None, kst_example)"
proof -
  have a: "self_task kst_example = Inr (3, task_example)"
    using kst_example_self by (auto simp: self_task_def task_at_def get_simps)
  have b: "\<not> has_right task_example BR_RIGHT_PIO" by code_simp
  show ?thesis using refused_without_right [OF a] a b by blast
qed

end
