(* ===== verification/Messages.thy ===== *)
theory Messages
  imports Capabilities
begin

text \<open>
  What the kernel's messages deliver: a message that is sent joins the end of the receiver's channel
  with the objects its handles name, signed with the number of its sender; a message that is
  received is the oldest one, with new handles for its objects.
\<close>

section \<open>What a handle names\<close>

definition names :: "kst \<Rightarrow> ptr \<Rightarrow> u64 \<Rightarrow> ptr \<Rightarrow> bool" where
  "names s dm h q \<longleftrightarrow> (\<exists>ob tb. k_objs s dm = Some ob \<and> o_body ob = KDomain tb \<and> slot_lookup tb (unat h) = Some (Some q))"

definition same_bodies :: "kst \<Rightarrow> kst \<Rightarrow> bool" where
  "same_bodies s t \<longleftrightarrow> k_chans t = k_chans s \<and> (\<forall>p. map_option o_body (k_objs t p) = map_option o_body (k_objs s p))"

lemma same_bodies_refl: "same_bodies s s"
  by (simp add: same_bodies_def)

lemma same_bodies_trans: "same_bodies s t \<Longrightarrow> same_bodies t u \<Longrightarrow> same_bodies s u"
  by (simp add: same_bodies_def)

lemma names_same: "same_bodies s t \<Longrightarrow> names t dm h q \<longleftrightarrow> names s dm h q"
proof -
  assume "same_bodies s t"
  then have "map_option o_body (k_objs t dm) = map_option o_body (k_objs s dm)" by (simp add: same_bodies_def)
  then show ?thesis unfolding names_def by (cases "k_objs t dm"; cases "k_objs s dm") auto
qed

definition caps :: "nat \<Rightarrow> kst \<Rightarrow> bool" where
  "caps n s \<longleftrightarrow> (\<forall>q ob tb. k_objs s q = Some ob \<longrightarrow> o_body ob = KDomain tb \<longrightarrow> slot_cap tb \<le> n)"

lemma safe_caps: "safe d n s \<Longrightarrow> caps n s"
  by (auto simp: safe_def tables_def caps_def)

lemma caps_same: "same_bodies s t \<Longrightarrow> caps n s \<Longrightarrow> caps n t"
  unfolding caps_def
proof (intro allI impI)
  fix q ob tb assume h: "same_bodies s t" "\<forall>q ob tb. k_objs s q = Some ob \<longrightarrow> o_body ob = KDomain tb \<longrightarrow> slot_cap tb \<le> n"
    "k_objs t q = Some ob" "o_body ob = KDomain tb"
  then have "map_option o_body (k_objs s q) = Some (KDomain tb)" by (metis option.simps(9) same_bodies_def)
  with h(2) show "slot_cap tb \<le> n" by auto
qed

lemma object_ref_same: "object_ref p s = Inr t \<Longrightarrow> same_bodies s t"
  by (auto simp: object_ref_def kget_def kput_def same_bodies_def split: option.splits)

lemma domain_lookup_names:
  assumes "domain_lookup dm h ty s = Inr (po, t)" and "caps n s" and "n \<le> 2 ^ 31"
  shows "same_bodies s t \<and> (case po of None \<Rightarrow> t = s | Some q \<Rightarrow> names s dm h q)"
proof -
  obtain ob tb where tb: "k_objs s dm = Some ob" "o_body ob = KDomain tb" "get_domain dm s = Inr tb"
    using assms(1) by (auto simp: domain_lookup_def get_domain_def kget_def sbind_Inr_iff
      split: option.splits kbody.splits)
  show ?thesis
  proof (cases "slot_valid_impl tb (slot_index h)")
    case False
    then show ?thesis using assms(1) tb by (auto simp: domain_lookup_def same_bodies_refl)
  next
    case True
    then obtain po' q where q: "slot_at tb (unat h) = Inr po'" "po' = Some q"
        "t = s \<and> po = None \<or> object_ref q s = Inr t \<and> po = Some q"
      using assms(1) tb by (auto simp: domain_lookup_def sbind_Inr_iff deref_ptr_def split: if_splits option.splits)
    then have cap: "unat h < slot_cap tb" by (simp add: slot_at_def split: if_splits)
    moreover have "slot_cap tb \<le> n" using assms(2) tb by (auto simp: caps_def)
    ultimately have "slot_index h = int (unat h)" using assms(3) by (intro slot_index_small) simp
    then have "slot_lookup tb (unat h) = Some (Some q)" using True q cap by (simp add: slot_lookup_def slot_at_def)
    with q(3) tb object_ref_same show ?thesis by (auto simp: names_def same_bodies_refl)
  qed
qed

section \<open>Packing\<close>

lemma parcel_pack_from_names:
  assumes "parcel_pack_from dm msg is pc s = Inr (BR_SUCCESS, pc', t)" and "caps n s" "n \<le> 2 ^ 31"
    and "distinct is" "\<forall>i \<in> set is. i < length (parcel_objs pc)"
  shows "same_bodies s t \<and> parcel_msg pc' = parcel_msg pc \<and> length (parcel_objs pc') = length (parcel_objs pc) \<and>
    (\<forall>i < length (parcel_objs pc). if i \<in> set is \<and> msg_flags msg AND BR_MSG_HND i \<noteq> 0
       then \<exists>q. parcel_objs pc' ! i = Some q \<and> names s dm (msg_args msg ! i) q else parcel_objs pc' ! i = parcel_objs pc ! i)"
  using assms
proof (induction "is" arbitrary: pc s)
  case Nil
  then show ?case by (simp add: same_bodies_refl)
next
  case (Cons i "is")
  show ?case
  proof (cases "msg_flags msg AND BR_MSG_HND i \<noteq> 0")
    case False
    then show ?thesis using Cons.IH [of pc s] Cons.prems by auto
  next
    case True
    then obtain q s1 where l: "domain_lookup dm (msg_args msg ! i) BR_OBJECT_ANY s = Inr (Some q, s1)"
      and rest: "parcel_pack_from dm msg is (pc\<lparr>parcel_objs := (parcel_objs pc)[i := Some q]\<rparr>) s1 = Inr (BR_SUCCESS, pc', t)"
      using Cons.prems(1) by (auto simp: sbind_Inr_iff Let_def split: option.splits)
    have n: "same_bodies s s1" "names s dm (msg_args msg ! i) q" using domain_lookup_names [OF l Cons.prems(2,3)] by auto
    from Cons.IH [OF rest caps_same [OF n(1) Cons.prems(2)] Cons.prems(3)] Cons.prems(4,5)
    have ih: "same_bodies s1 t" "parcel_msg pc' = parcel_msg pc" "length (parcel_objs pc') = length (parcel_objs pc)"
      "\<forall>j < length (parcel_objs pc). if j \<in> set is \<and> msg_flags msg AND BR_MSG_HND j \<noteq> 0
       then \<exists>q. parcel_objs pc' ! j = Some q \<and> names s1 dm (msg_args msg ! j) q
       else parcel_objs pc' ! j = (parcel_objs pc)[i := Some q] ! j" by auto
    have "if j \<in> set (i # is) \<and> msg_flags msg AND BR_MSG_HND j \<noteq> 0
       then \<exists>q. parcel_objs pc' ! j = Some q \<and> names s dm (msg_args msg ! j) q else parcel_objs pc' ! j = parcel_objs pc ! j"
      if j: "j < length (parcel_objs pc)" for j
      using ih(4) j True n Cons.prems(4,5) names_same [OF n(1)] by (cases "j = i") auto
    with ih n same_bodies_trans show ?thesis by blast
  qed
qed

text \<open>What is in the parcel of a message sent by the owner of domain \<open>dm\<close>.\<close>

definition carries :: "kst \<Rightarrow> ptr option \<Rightarrow> br_msg \<Rightarrow> parcel \<Rightarrow> bool" where
  "carries s dm msg pc \<longleftrightarrow> parcel_msg pc = msg \<and> (\<forall>i < BR_MSG_ARG_COUNT. case dm of None \<Rightarrow> parcel_objs pc ! i = None
     | Some d \<Rightarrow> if msg_flags msg AND BR_MSG_HND i \<noteq> 0 then \<exists>q. parcel_objs pc ! i = Some q \<and> names s d (msg_args msg ! i) q
        else parcel_objs pc ! i = None)"

lemma carries_same: "same_bodies s t \<Longrightarrow> carries t dm msg pc = carries s dm msg pc"
  unfolding carries_def by (simp only: names_same)

lemma parcel_pack_carries:
  assumes "parcel_pack zero_parcel msg dm s = Inr (BR_SUCCESS, pc, t)" and "caps n s" "n \<le> 2 ^ 31"
  shows "same_bodies s t \<and> carries s dm msg pc"
proof -
  have z: "length (parcel_objs zero_parcel) = BR_MSG_ARG_COUNT" "i < BR_MSG_ARG_COUNT \<Longrightarrow> parcel_objs zero_parcel ! i = None" for i
    by (simp_all add: zero_parcel_def)
  show ?thesis
  proof (cases dm)
    case None
    then show ?thesis using assms(1) z by (auto simp: parcel_pack_def carries_def same_bodies_refl)
  next
    case (Some d)
    then have "parcel_pack_from d msg [0..<BR_MSG_ARG_COUNT] (zero_parcel\<lparr>parcel_msg := msg\<rparr>) s = Inr (BR_SUCCESS, pc, t)"
      using assms(1) by (simp add: parcel_pack_def)
    from parcel_pack_from_names [OF this assms(2,3)] z Some show ?thesis by (auto simp: carries_def)
  qed
qed

lemma channel_send_unlock_result:
  assumes run: "channel_send_unlock c dm msg s = Inr (res, t)" and c: "k_chans s c = Some r" "ring_inv r"
    and tab: "caps n s" "n \<le> 2 ^ 31"
  shows "(res = BR_CHANNEL_FULL \<longrightarrow> ring_full r \<and> t = s) \<and> (ring_full r \<longrightarrow> res = BR_CHANNEL_FULL) \<and>
    (res = BR_SUCCESS \<longrightarrow> (\<exists>pc r'. carries s dm msg pc \<and> k_chans t = (k_chans s)(c \<mapsto> r') \<and> ring_list r' = ring_list r @ [pc]))"
proof (cases "ring_full r")
  case True
  then show ?thesis using run c by (auto simp: channel_send_unlock_def get_channel_def)
next
  case False
  then obtain res' pc s1 where p: "parcel_pack zero_parcel msg dm s = Inr (res', pc, s1)"
    "res' \<noteq> BR_SUCCESS \<and> res = res' \<or> res' = BR_SUCCESS \<and> res = BR_SUCCESS \<and>
      (\<exists>r1. k_chans s1 c = Some r1 \<and> t = put_channel c (snd (ring_push_impl r1 pc)) s1)"
    using run c by (auto simp: channel_send_unlock_def get_channel_def sbind_Inr_iff split: if_splits option.splits)
  have "res' \<noteq> BR_CHANNEL_FULL"
  proof -
    have "parcel_pack_from d msg is pc0 s0 = Inr (x, pc1, s2) \<Longrightarrow> x \<noteq> BR_CHANNEL_FULL" for d "is" pc0 s0 x pc1 s2
      by (induction "is" arbitrary: pc0 s0)
        (auto simp: sbind_Inr_iff Let_def split: if_splits option.splits)
    then show ?thesis using p(1) by (auto simp: parcel_pack_def Let_def split: option.splits)
  qed
  moreover have "\<exists>pc r'. carries s dm msg pc \<and> k_chans t = (k_chans s)(c \<mapsto> r') \<and> ring_list r' = ring_list r @ [pc]"
    if "res = BR_SUCCESS"
  proof -
    from that p(2) obtain r1 where r1: "k_chans s1 c = Some r1" "t = put_channel c (snd (ring_push_impl r1 pc)) s1" "res' = BR_SUCCESS"
      by auto
    have same: "same_bodies s s1" "carries s dm msg pc" using parcel_pack_carries [OF _ tab] p(1) r1(3) by auto
    then have "r1 = r" "k_chans s1 = k_chans s" using r1(1) c by (auto simp: same_bodies_def)
    with r1 same False c ring_list_push [of r pc] show ?thesis
      by (intro exI [of _ pc] exI [of _ "snd (ring_push_impl r pc)"]) (simp add: put_channel_def ring_full_def)
  qed
  ultimately show ?thesis using False p(2) by auto
qed

section \<open>Unpacking\<close>

text \<open>Adding a handle keeps what the other handles of the domain name.\<close>

lemma domain_add_names:
  assumes run: "domain_add dm q s = Inr (h, t)" and s: "safe d n s" "n + 1 < 2 ^ 31"
    and dm: "0 < rc s dm" "kind s dm = Some BR_OBJECT_DOMAIN" and q: "0 < rc s q"
  shows "names t dm h q \<and> (\<forall>h' q'. names s dm h' q' \<longrightarrow> names t dm h' q') \<and> k_chans t = k_chans s"
proof -
  obtain ob tb where ob: "k_objs s dm = Some ob" "o_body ob = KDomain tb" using domain_kind [OF dm(2)] by blast
  obtain obq where obq: "k_objs s q = Some obq" using q by (auto simp: rc_pos)
  have wf: "slot_inv tb" using store_obj(2) [OF kinv_store [OF safe_kinv [OF s(1)]] ob(1)] ob(2) by auto
  have small: "slot_cap tb \<le> n" using s(1) ob by (auto simp: safe_def tables_def)
  obtain i tb' where r: "domain_add dm q s = Inr (of_nat i, kput dm
      ((if dm = q then ob\<lparr>o_refs := refs_inc (o_refs ob)\<rparr> else ob)\<lparr>o_body := KDomain tb'\<rparr>) (kput q (obq\<lparr>o_refs := refs_inc (o_refs obq)\<rparr>) s))"
     "slot_lookup tb i = None" "slot_lookup tb' = (slot_lookup tb)(i \<mapsto> Some q)" "i < slot_cap tb'" "slot_cap tb' \<le> 2 * slot_cap tb + 20"
    using domain_add_run [OF ob obq wf] small s(2) by auto
  have u: "unat (of_nat i :: u64) = i" using r(4,5) small s(2) by (intro unat_of_nat_u64) simp
  show ?thesis
    using run r(1-3) u ob by (auto simp: names_def kput_def)
qed

text \<open>The arguments after the objects with indices in \<open>is\<close> have been unpacked.\<close>

lemma unpack_names:
  assumes "for_each (parcel_unpack_obj pc (task_domain tk)) is (msg, s) = Inr (msg', t)"
    and "safe (dplus d (in_parcel pc)) n s" "(grow ^^ length is) n \<le> 2 ^ 30" "parcel_ok pc" "task_at s p tk" "stays d s p"
    and "\<forall>i \<in> set is. i < BR_MSG_ARG_COUNT" "distinct is" "length (msg_args msg) = BR_MSG_ARG_COUNT"
  shows "length (msg_args msg') = BR_MSG_ARG_COUNT \<and> k_chans t = k_chans s \<and>
    (\<forall>h q. names s (task_domain tk) h q \<longrightarrow> names t (task_domain tk) h q) \<and>
    (\<forall>i < BR_MSG_ARG_COUNT. if i \<in> set is then (case parcel_objs pc ! i of None \<Rightarrow> msg_args msg' ! i = msg_args msg ! i
       | Some q \<Rightarrow> names t (task_domain tk) (msg_args msg' ! i) q) else msg_args msg' ! i = msg_args msg ! i)"
  using assms
proof (induction "is" arbitrary: msg s n tk)
  case Nil
  then show ?case by simp
next
  case (Cons i "is")
  have sw: "(grow ^^ length (i # is)) n = (grow ^^ length is) (grow n)"
    by (simp only: list.size add_0_right add_Suc_right funpow_Suc_right comp_apply)
  have big: "n \<le> (grow ^^ k) n" for k by (induction k) auto
  have n31: "n + 1 < 2 ^ 31" using order_trans [OF big Cons.prems(3)] by simp
  have st: "stays (dplus d (in_parcel pc)) s p" using Cons.prems(6) by (auto simp: stays_def dplus_pos)
  note dom = task_at_links [OF Cons.prems(2) st Cons.prems(5)]
  have less: "(grow ^^ length is) (grow n) \<le> 2 ^ 30" using Cons.prems(3) sw by simp
  show ?case
  proof (cases "parcel_objs pc ! i")
    case None
    have "safe (dplus d (in_parcel pc)) (grow n) s" using Cons.prems(2) by (rule safe_weaken) auto
    from Cons.IH [OF _ this less Cons.prems(4,5,6)] Cons.prems(1,7-9) None
    show ?thesis by (auto simp: parcel_unpack_obj_apply)
  next
    case (Some q)
    have "i < length (parcel_objs pc)" using Cons.prems(4,7) by (simp add: parcel_ok_def)
    then have "Some q \<in> set (parcel_objs pc)" using Some nth_mem by metis
    then have "0 < in_parcel pc q" unfolding in_parcel_def using count_list_0_iff [of "parcel_objs pc" "Some q"] by simp
    then have q: "0 < rc s q" by (intro owned_live [OF safe_kinv [OF Cons.prems(2)]]) (simp add: dplus_def)
    obtain h s1 where add: "domain_add (task_domain tk) q s = Inr (h, s1)"
      and rest: "for_each (parcel_unpack_obj pc (task_domain tk)) is (msg\<lparr>msg_args := (msg_args msg)[i := h]\<rparr>, s1) = Inr (msg', t)"
      using Cons.prems(1) Some by (auto simp: parcel_unpack_obj_apply sbind_Inr_iff)
    have s1: "safe (dplus d (in_parcel pc)) (grow n) s1" "keep s s1"
      using domain_add_ok [OF Cons.prems(2) n31 dom(1,2) q] add by simp_all
    note nm = domain_add_names [OF add Cons.prems(2) n31 dom(1,2) q]
    have st1: "stays d s1 p" using stays_keep [OF Cons.prems(6) s1(2)] .
    then have "stays (dplus d (in_parcel pc)) s1 p" by (auto simp: stays_def dplus_pos)
    from task_at_keep [OF Cons.prems(2,5) s1(2,1) this] obtain tk' where tk': "task_at s1 p tk'" "task_domain tk' = task_domain tk"
      by blast
    have rest': "for_each (parcel_unpack_obj pc (task_domain tk')) is (msg\<lparr>msg_args := (msg_args msg)[i := h]\<rparr>, s1) = Inr (msg', t)"
      using rest tk'(2) by simp
    from Cons.IH [OF rest' s1(1) less Cons.prems(4) tk'(1) st1] Cons.prems(7-9)
    have ih: "length (msg_args msg') = BR_MSG_ARG_COUNT" "k_chans t = k_chans s1"
      "\<forall>h q. names s1 (task_domain tk) h q \<longrightarrow> names t (task_domain tk) h q"
      "\<forall>j < BR_MSG_ARG_COUNT. if j \<in> set is then (case parcel_objs pc ! j of None \<Rightarrow> msg_args msg' ! j = (msg_args msg)[i := h] ! j
       | Some q \<Rightarrow> names t (task_domain tk) (msg_args msg' ! j) q) else msg_args msg' ! j = (msg_args msg)[i := h] ! j"
      unfolding tk'(2) by (simp_all cong: option.case_cong if_cong)
    have "if j \<in> set (i # is) then (case parcel_objs pc ! j of None \<Rightarrow> msg_args msg' ! j = msg_args msg ! j
       | Some q \<Rightarrow> names t (task_domain tk) (msg_args msg' ! j) q) else msg_args msg' ! j = msg_args msg ! j"
      if "j < BR_MSG_ARG_COUNT" for j
      using ih(3) ih(4) [rule_format, OF that] nm Some Cons.prems(7-9) that
      by (cases "j = i") (auto split: option.splits if_splits)
    with ih nm show ?thesis by auto
  qed
qed

lemma names_frame:
  assumes "frame {} s t" "names s dm h q" "k_objs t dm \<noteq> None"
  shows "names t dm h q"
  using assms frame_objD [OF assms(1), of dm] unfolding names_def by fastforce

lemma zero_channel: "ring_list (ring_init_impl IPC_CHANNEL_SIZE zero_parcel) = []"
  by (rule ring_list_init)

section \<open>Theorems\<close>

text \<open>
  C3. A message is delivered as it was sent and its sender cannot be forged. When a send without
  waiting succeeds, the message is the last one in the channel of a task with the number it was
  addressed to, behind the messages that were already there (unless that task is gone when the
  send returns); it carries a reference to exactly the objects that its handle arguments name in
  the sender's domain; and its sender field holds the number of the running task, whatever the
  caller wrote there. The bound leaves room in the 32-bit reference counts.
\<close>

theorem ipc_send_authentic:
  assumes s: "safe d n s" "n \<le> 2 ^ 30" and nb: "ipc_flags args AND BR_IPC_BLOCK = 0"
    and self: "task_self s = Inr p" "k_objs s p = Some me" "o_body me = KTask tk"
    and run: "sys_ipc_send y args msg s = Inr (BR_SUCCESS, m', t)"
  shows "\<exists>q obq tq pc r. k_objs s q = Some obq \<and> o_id obq = addr_id (ipc_to args) \<and> o_body obq = KTask tq \<and>
     k_chans s (task_channel tq) = Some r \<and> carries s (Some (task_domain tk)) m' pc \<and>
     addr_id (msg_from (parcel_msg pc)) = o_id me \<and> msg_args (parcel_msg pc) = msg_args msg \<and>
     (k_chans t (task_channel tq) = None \<or> (\<exists>r'. k_chans t (task_channel tq) = Some r' \<and> ring_list r' = ring_list r @ [pc]))"
proof -
  let ?msg = "msg\<lparr>msg_from := (msg_from msg)\<lparr>addr_id := o_id me\<rparr>, msg_to := ipc_to args\<rparr>"
  have me: "kget p s = Inr me" by (rule get_simps(1) [OF self(2)])
  obtain po s1 where l: "global_lookup (addr_id (ipc_to args)) BR_OBJECT_TASK s = Inr (po, s1)"
    using run self(1) me by (auto simp: sys_ipc_send_def Let_def sbind_Inr_iff)
  have n1: "n + 1 < 2 ^ 31" using s(2) by simp
  have lk: "looked d (Suc n) BR_OBJECT_TASK s po s1" using global_lookup_looked [OF s(1) n1] l by (metis (no_types, lifting) case_prod_conv runs_Inr)
  obtain q where q: "po = Some q" using run self(1) me l by (cases po) (auto simp: sys_ipc_send_def Let_def)
  have s1: "safe (plus1 q d) (Suc n) s1" "keep s s1" "kind s1 q = Some BR_OBJECT_TASK" using lk q by (auto simp: looked_def)
  have found: "\<exists>ob. global_find oid ty ps s = Inr (Some q, s1) \<longrightarrow> k_objs s q = Some ob \<and> o_id ob = oid \<and> same_bodies s s1"
    for oid ty ps
    by (induction ps) (auto simp: sbind_Inr_iff kget_def object_ref_same split: if_splits option.splits)
  then obtain obq where obq: "k_objs s q = Some obq" "o_id obq = addr_id (ipc_to args)" "same_bodies s s1"
    using l q unfolding global_lookup_def by (metis (no_types, lifting) Pair_inject option.distinct(1) sum.inject(2))
  obtain ob1 tq where tq: "k_objs s1 q = Some ob1" "o_body ob1 = KTask tq" "get_task q s1 = Inr tq" using task_kind [OF s1(3)] .
  have bq: "o_body obq = KTask tq" using obq(1,3) tq(1,2) by (metis option.inject option.simps(9) same_bodies_def)
  have "task_self s1 = Inr p" using keep_self [OF s1(2)] self(1) by simp
  then obtain ob2 tk1 where tk1: "self_task s1 = Inr (p, tk1)" "k_objs s1 p = Some ob2" "o_body ob2 = KTask tk1"
    using safe_self [OF s1(1)] by (metis sum.inject(2))
  have tk: "tk1 = tk" using self(2,3) tk1(2,3) obq(3)
    by (metis kbody.inject(4) option.inject option.simps(9) same_bodies_def)
  obtain s2 where send: "channel_send_unlock (task_channel tq) (Some (task_domain tk)) ?msg s1 = Inr (BR_SUCCESS, s2)"
      and de: "kobject_deref (Some q) s2 = Inr t" and m': "m' = ?msg"
    using run self(1) me l q tq(3) tk1(1) tk nb
    by (auto simp: sys_ipc_send_def Let_def sbind_Inr_iff channel_send_def channel_send_non_blocking_def)
  have tqa: "task_at s1 q tq" "stays (plus1 q d) s1 q" using tq by (auto simp: task_at_def stays_def)
  obtain r where r1: "k_chans s1 (task_channel tq) = Some r" using task_at_links(3) [OF s1(1) tqa(2,1)] by blast
  have r: "k_chans s (task_channel tq) = Some r" "ring_inv r" using r1 obq(3) chan_facts(1) [OF s1(1)] by (simp_all add: same_bodies_def)
  have tab: "caps (Suc n) s1" "Suc n \<le> 2 ^ 31" using safe_caps [OF s1(1)] s(2) by simp_all
  obtain pc r' where pc: "carries s1 (Some (task_domain tk)) ?msg pc" "k_chans s2 = (k_chans s1)(task_channel tq \<mapsto> r')"
      "ring_list r' = ring_list r @ [pc]"
    using channel_send_unlock_result [OF send r1 r(2) tab] by blast
  have "stays (plus1 q d) s1 p" using safe_self [OF s1(1)] \<open>task_self s1 = Inr p\<close> by (metis stays_def sum.inject(2))
  then have "runs False (channel_send_unlock (task_channel tq) (Some (task_domain tk)) ?msg s1) (\<lambda>(res, u). safe (plus1 q d) (Suc n + 5) u \<and> keep s1 u)"
    using tk1(2,3) tk s(2) by (intro channel_send_unlock_ok [OF s1(1) _ _ tqa]) (auto simp: task_at_def msg_fits_def fits_def)
  then have s2: "safe (plus1 q d) (Suc n + 5) s2" using send by simp
  have "frame {} s2 t" using kobject_deref_frame [OF s2] de by simp
  then have fr: "k_chans t c = None \<or> k_chans t c = k_chans s2 c" for c unfolding frame_def by blast
  have "carries s (Some (task_domain tk)) ?msg pc" using pc(1) carries_same [OF obq(3)] by simp
  moreover have "addr_id (msg_from (parcel_msg pc)) = o_id me" "msg_args (parcel_msg pc) = msg_args msg"
    using pc(1) by (simp_all add: carries_def)
  moreover have "k_chans t (task_channel tq) = None \<or> (\<exists>r'. k_chans t (task_channel tq) = Some r' \<and> ring_list r' = ring_list r @ [pc])"
    using pc(2,3) fr [of "task_channel tq"] by auto
  ultimately show ?thesis using obq(1,2) bq r(1) m'
    by (intro exI [of _ q] exI [of _ obq] exI [of _ tq] exI [of _ pc] exI [of _ r]) simp
qed

definition ipc_example :: br_ipc_args where
  "ipc_example = \<lparr>ipc_to = \<lparr>addr_id = 2, addr_port = 0\<rparr>, ipc_msg = zero_msg\<lparr>msg_flags := BR_MSG_HND 0\<rparr>,
     ipc_deadline = 0, ipc_flags = BR_IPC_SEND\<rparr>"

theorem ipc_send_authentic_witness:
  "\<exists>m t pc. sys_ipc_send Inr ipc_example (ipc_msg ipc_example) kst_example = Inr (BR_SUCCESS, m, t) \<and>
     addr_id (msg_from (parcel_msg pc)) = 2 \<and> carries kst_example (Some 1) m pc"
proof -
  have "map_sum id fst (sys_ipc_send Inr ipc_example (ipc_msg ipc_example) kst_example) = Inr BR_SUCCESS" by code_simp
  then obtain m t where run: "sys_ipc_send Inr ipc_example (ipc_msg ipc_example) kst_example = Inr (BR_SUCCESS, m, t)"
    by (cases "sys_ipc_send Inr ipc_example (ipc_msg ipc_example) kst_example") auto
  have nb: "ipc_flags ipc_example AND BR_IPC_BLOCK = 0" by code_simp
  have me: "k_objs kst_example 3 = Some \<lparr>o_id = 2, o_refs = 1, o_body = KTask task_example\<rparr>" by (simp add: kst_example_def)
  have dm: "task_domain task_example = 1" by (simp add: task_example_def)
  obtain pc where "carries kst_example (Some (task_domain task_example)) m pc" "addr_id (msg_from (parcel_msg pc)) = 2"
    using ipc_send_authentic [OF kst_example_safe _ nb kst_example_self(1) me _ run, of task_example] by auto
  with run show ?thesis unfolding dm by blast
qed



end
