(* ===== verification/Blocking.thy ===== *)
theory Blocking
  imports Messages
begin

text \<open>
  What a blocked task's function can do to the kernel when the scheduler calls it: it sends or
  receives a message, and so packs and unpacks parcels, uses capability tables and releases
  objects. A relation between states that holds of the few elementary updates these operations
  are made of holds of all of them; the locale states the elementary updates and proves the rest
  once, for every such relation.
\<close>

locale kernel_relation =
  fixes R :: "kst \<Rightarrow> kst \<Rightarrow> bool"
  assumes R_refl: "R s s" and R_trans: "R s t \<Longrightarrow> R t u \<Longrightarrow> R s u"
    and R_body: "kbody p b s = Inr t \<Longrightarrow> \<forall>x. b \<noteq> KTask x \<Longrightarrow> R s t"
    and R_refs: "kget p s = Inr ob \<Longrightarrow> R s (kput p (ob\<lparr>o_refs := n\<rparr>) s)"
    and R_free: "R s (kfree p s)"
    and R_vmm: "R s (s\<lparr>k_vmm := v\<rparr>)" and R_global: "R s (s\<lparr>k_global := g\<rparr>)"
    and R_bindings: "R s (s\<lparr>k_bindings := b'\<rparr>)" and R_chans: "R s (s\<lparr>k_chans := c\<rparr>)"
begin

lemma R_steps:
  "on_pmm f s = Inr (x, t) \<Longrightarrow> R s t" "on_vmm g s = Inr (y, t) \<Longrightarrow> R s t"
  "object_ref p s = Inr t \<Longrightarrow> R s t" "channel_destroy c s = Inr t \<Longrightarrow> R s t" "R s (put_channel ch r s)"
  "R s (snd (event_unbind_all p s))"
  using R_vmm R_refs R_chans R_bindings
  by (auto simp: on_pmm_def on_vmm_def object_ref_def channel_destroy_def put_channel_def event_unbind_all_def sbind_Inr_iff)

lemma R_kbody: "kbody p (KSpace sp) s = Inr t \<Longrightarrow> R s t" "kbody p (KDomain dm) s = Inr t \<Longrightarrow> R s t"
  by (erule R_body, simp)+

lemma R_trans3: "R s t \<Longrightarrow> R t u \<Longrightarrow> R u v \<Longrightarrow> R s v"
  using R_trans by blast

lemma R_for_each:
  assumes "for_each f xs s = Inr t" "\<And>i s t. f i s = Inr t \<Longrightarrow> R s t"
  shows "R s t"
  by (rule for_each_invariant [OF assms(1), where P = "R s"]) (use assms(2) R_trans R_refl in blast)+

lemma R_space_loop:
  assumes dr: "\<And>po s t. deref po s = Inr t \<Longrightarrow> R s t"
  shows "space_destroy_loop deref turns self i s = Inr t \<Longrightarrow> R s t"
proof (induction turns arbitrary: i s)
  case (Suc turns)
  have d: "R s u" if run: "space_mmap_destroy deref self i s = Inr u" for u
    using run by (auto simp: space_mmap_destroy_def sbind_Inr_iff Let_def split: if_splits dest!: R_steps(2) dr R_kbody)
      (rule R_trans [OF R_trans3 R_vmm], assumption+)
  show ?case using Suc d R_trans R_refl by (auto simp: sbind_Inr_iff split: if_splits)
qed simp

lemma R_dtor:
  assumes d: "\<And>po s t. deref po s = Inr t \<Longrightarrow> R s t" and run: "object_dtor deref p s = Inr t"
  shows "R s t"
proof -
  have m: "R s u" if run: "memory_destroy p s = Inr u" for u
  proof -
    obtain x where "get_memory p s = Inr x" using run by (auto simp: memory_destroy_def sbind_Inr_iff)
    then show ?thesis using run R_free
      by (cases "memory_type x") (auto simp: memory_destroy_def sbind_Inr_iff dest!: R_steps(1) intro: R_trans [OF _ R_free])
  qed
  have sl: "R w u" if run: "domain_destroy_slot deref p i w = Inr u" for i w u
  proof -
    have "u = w \<or> (\<exists>po v dm. deref po w = Inr v \<and> kbody p (KDomain dm) v = Inr u)"
      using run by (auto simp: domain_destroy_slot_def sbind_Inr_iff split: if_splits)
    then show ?thesis using d R_body R_trans R_refl by blast
  qed
  have dm: "R s u" if run: "domain_destroy deref p s = Inr u" for u
  proof -
    obtain xs v where "for_each (domain_destroy_slot deref p) xs s = Inr v" "u = kfree p v"
      using run by (auto simp: domain_destroy_def sbind_Inr_iff)
    then show ?thesis using R_for_each sl R_free R_trans by blast
  qed
  have sp: "R s u" if run: "space_destroy deref p s = Inr u" for u
  proof -
    obtain n v x where v: "space_destroy_loop deref n p 0 s = Inr v" "u = kfree p (v\<lparr>k_vmm := x\<rparr>)"
      using run by (auto simp: space_destroy_def sbind_Inr_iff simp del: space_destroy_loop.simps)
    have "R s v" using v(1) by (rule R_space_loop [rotated]) (rule d)
    then show ?thesis unfolding v(2) by (rule R_trans3 [OF _ R_vmm R_free])
  qed
  have tk: "R s u" if run: "task_destroy deref p s = Inr u" for u
    using run R_steps(6) [of s p]
    by (auto simp: task_destroy_def sbind_Inr_iff Let_def dest!: R_steps(1,4) d)
      (rule R_trans3 [OF R_trans3 R_trans R_free], assumption+)
  obtain ob where ob: "kget p s = Inr ob" using run by (auto simp: object_dtor_def sbind_Inr_iff)
  show ?thesis using run m dm sp tk by (cases "o_body ob") (auto simp: object_dtor_def ob)
qed

lemma R_deref: "object_deref n po s = Inr t \<Longrightarrow> R s t"
proof (induction n arbitrary: po s t)
  case (Suc n)
  have dt: "object_dtor (object_deref n) p u = Inr t \<Longrightarrow> R u t" for p u by (rule R_dtor [OF Suc.IH])
  show ?case
  proof (cases po)
    case (Some p)
    then obtain ob where ob: "kget p s = Inr ob" using Suc.prems by (auto simp: sbind_Inr_iff)
    let ?s = "kput p (ob\<lparr>o_refs := refs_dec (o_refs ob)\<rparr>) s"
    have "R s ?s" by (rule R_refs [OF ob])
    moreover have "t = ?s \<or> object_dtor (object_deref n) p (?s\<lparr>k_global := remove1 p (k_global ?s)\<rparr>) = Inr t"
      using Suc.prems Some ob by (auto simp: Let_def refcount_deref_def split: if_splits)
    ultimately show ?thesis using dt R_global R_trans by blast
  qed (use Suc.prems R_refl in simp)
qed simp

lemma R_kobject_deref: "kobject_deref po s = Inr t \<Longrightarrow> R s t"
  unfolding kobject_deref_def by (rule R_deref)

lemma R_domain_add: "domain_add dm q s = Inr (h, t) \<Longrightarrow> R s t"
proof -
  assume "domain_add dm q s = Inr (h, t)"
  then obtain b1 s1 s2 b2 where h: "kbody dm (KDomain b1) s = Inr s1" "object_ref q s1 = Inr s2" "kbody dm (KDomain b2) s2 = Inr t"
    by (auto simp: domain_add_def Let_def sbind_Inr_iff case_prod_unfold)
  show ?thesis using R_body [OF h(1)] R_steps(3) [OF h(2)] R_body [OF h(3)] R_trans3 by blast
qed

lemma R_domain_lookup: "domain_lookup dm h ty s = Inr (po, t) \<Longrightarrow> R s t"
  using R_steps(3) R_refl by (auto simp: domain_lookup_def sbind_Inr_iff split: if_splits)

lemma R_parcel_deinit: "parcel_deinit pc s = Inr t \<Longrightarrow> R s t"
  unfolding parcel_deinit_def
  by (erule R_for_each) (auto simp: parcel_deinit_obj_def R_kobject_deref R_refl split: if_splits)

lemma R_pack: "parcel_pack_from dm msg is pc s = Inr (res, pc', t) \<Longrightarrow> R s t"
proof (induction "is" arbitrary: pc s)
  case (Cons i "is")
  then show ?case
    using R_domain_lookup R_parcel_deinit R_trans
    by (auto simp: sbind_Inr_iff Let_def split: if_splits option.splits) blast+
qed (simp add: R_refl)

lemma R_unpack: "for_each (parcel_unpack_obj pc dm) is (msg, s) = Inr (msg', t) \<Longrightarrow> R s t"
proof (induction "is" arbitrary: msg s)
  case (Cons i "is")
  then show ?case
    using R_domain_add R_trans
    by (auto simp: sbind_Inr_iff parcel_unpack_obj_apply split: option.splits) blast+
qed (simp add: R_refl)

lemma R_send: "channel_send_unlock c dm msg s = Inr (res, t) \<Longrightarrow> R s t"
proof -
  assume "channel_send_unlock c dm msg s = Inr (res, t)"
  then have "t = s \<or> (\<exists>r pc u. parcel_pack zero_parcel msg dm s = Inr (r, pc, u) \<and> (t = u \<or> (\<exists>q. t = put_channel c q u)))"
    by (auto simp: channel_send_unlock_def sbind_Inr_iff split: if_splits)
  moreover have "R s u" if "parcel_pack zero_parcel msg dm s = Inr (r, pc, u)" for r pc u
    using that R_pack R_refl by (auto simp: parcel_pack_def Let_def split: option.splits)
  ultimately show ?thesis using R_steps(5) R_trans R_refl by blast
qed

lemma R_recv: "channel_recv_unlock c dm m s = Inr (res, msg, t) \<Longrightarrow> R s t"
proof -
  assume run: "channel_recv_unlock c dm m s = Inr (res, msg, t)"
  have "R w t" if "parcel_unpack pc dm w = Inr (res, msg, t)" for pc w
    using that R_parcel_deinit R_unpack R_trans
    by (auto simp: parcel_unpack_def Let_def sbind_Inr_iff split: option.splits) blast
  moreover have "t = s \<or> (\<exists>pc r. parcel_unpack pc dm (put_channel c r s) = Inr (res, msg, t))"
    using run by (auto simp: channel_recv_unlock_def sbind_Inr_iff Let_def split: if_splits prod.splits)
  ultimately show ?thesis using R_steps(5) R_trans R_refl by blast
qed

lemma R_run_blocker: "run_blocker bl s = Inr (x, y, u) \<Longrightarrow> R s u"
  using R_send R_recv R_refl
  by (auto simp: run_blocker_def channel_wait_send_def channel_wait_recv_def sbind_Inr_iff
    split: option.splits blocker_fn.splits if_splits)


end

end
