(* ===== verification/Sched_Props.thy ===== *)
theory Sched_Props
  imports Blocking
begin

text \<open>
  Correctness of the scheduler: which task is picked, that handing out processors comes to an end,
  and that no task is given two processors.
\<close>

section \<open>Picking a task\<close>

text \<open>A task that may be given a processor now.\<close>

definition eligible :: "kst \<Rightarrow> ptr \<Rightarrow> bool" where
  "eligible s p \<longleftrightarrow> (\<exists>t. get_task p s = Inr t \<and> task_runnable t \<and> time_start t \<noteq> k_tick s) \<and> \<not> sched_running p s"

definition waited :: "kst \<Rightarrow> ptr \<Rightarrow> u64" where
  "waited s p = (case get_task p s of Inl _ \<Rightarrow> 0 | Inr t \<Rightarrow> time_end t)"

definition best_of :: "kst \<Rightarrow> ptr set \<Rightarrow> ptr option \<Rightarrow> bool" where
  "best_of s P best \<longleftrightarrow> (case best of None \<Rightarrow> \<forall>p \<in> P. \<not> eligible s p
     | Some b \<Rightarrow> b \<in> P \<and> eligible s b \<and> (\<forall>p \<in> P. eligible s p \<longrightarrow> waited s b \<le> waited s p))"

lemma sched_pick_best:
  assumes "best_of s P best" and "get_task p s = Inr t"
  shows "\<exists>best'. sched_pick best p s = Inr best' \<and> best_of s (insert p P) best'"
proof (cases best)
  case None
  then show ?thesis
    using assms by (auto simp: sched_pick_def best_of_def eligible_def Let_def)
next
  case (Some b)
  then obtain tb where tb: "get_task b s = Inr tb" using assms(1) by (auto simp: best_of_def eligible_def)
  have el: "eligible s p \<longleftrightarrow> task_runnable t \<and> time_start t \<noteq> k_tick s \<and> \<not> sched_running p s"
    using assms(2) by (auto simp: eligible_def)
  have w: "waited s p = time_end t" "waited s b = time_end tb" using assms(2) tb by (simp_all add: waited_def)
  show ?thesis
  proof (cases "eligible s p \<and> time_end t < time_end tb")
    case True
    then have "sched_pick best p s = Inr (Some p)" using assms(2) tb el Some by (simp add: sched_pick_def Let_def)
    moreover have "best_of s (insert p P) (Some p)"
      using True assms(1) Some w by (auto simp: best_of_def intro: order.strict_implies_order order.trans)
    ultimately show ?thesis by blast
  next
    case False
    then have "sched_pick best p s = Inr (Some b)" using assms(2) tb el Some by (auto simp: sched_pick_def Let_def)
    moreover have "best_of s (insert p P) (Some b)" using False assms(1) Some w by (auto simp: best_of_def not_less)
    ultimately show ?thesis by blast
  qed
qed

lemma sched_peek_loop:
  assumes "best_of s P best" and "\<forall>p \<in> set ps. \<exists>t. get_task p s = Inr t"
  shows "\<exists>best'. for_each (\<lambda>p best. sched_pick best p s) ps best = Inr best' \<and> best_of s (P \<union> set ps) best'"
  using assms
proof (induction ps arbitrary: P best)
  case (Cons p ps)
  then obtain t where "get_task p s = Inr t" by auto
  from sched_pick_best [OF Cons.prems(1) this] obtain b where "sched_pick best p s = Inr b" "best_of s (insert p P) b" by blast
  with Cons.IH [OF this(2)] Cons.prems(2) show ?case by auto
qed auto

section \<open>What scheduling leaves alone\<close>

text \<open>The last start of a task, and the parts of the state that handing out processors keeps.\<close>

definition starts :: "kst \<Rightarrow> ptr \<Rightarrow> u64 option" where
  "starts s p = (case get_task p s of Inl _ \<Rightarrow> None | Inr t \<Rightarrow> Some (time_start t))"

definition same_tasks :: "kst \<Rightarrow> kst \<Rightarrow> bool" where
  "same_tasks s t \<longleftrightarrow> k_tasks t = k_tasks s \<and> k_tick t = k_tick s \<and> length (k_cpus t) = length (k_cpus s) \<and>
     (\<forall>i < length (k_cpus s). cpu_idle (k_cpus t ! i) = cpu_idle (k_cpus s ! i)) \<and> k_self t = k_self s"

lemma same_tasks_refl: "same_tasks s s"
  by (simp add: same_tasks_def)

lemma same_tasks_trans: "same_tasks s t \<Longrightarrow> same_tasks t u \<Longrightarrow> same_tasks s u"
  by (simp add: same_tasks_def)

lemma map_task_result:
  assumes "map_task p f s = Inr t"
  obtains ob tk where "k_objs s p = Some ob" "o_body ob = KTask tk" "t = kput p (ob\<lparr>o_body := KTask (f tk)\<rparr>) s"
  using assms by (auto simp: map_task_def get_task_def kbody_def kget_def sbind_Inr_iff split: option.splits kbody.splits)

lemma get_task_put: "get_task q (kput p ob s) = (if q = p then (case o_body ob of KTask t \<Rightarrow> Inr t | _ \<Rightarrow> Inl TypeConfusion) else get_task q s)"
  by (simp add: get_task_def kget_def kput_def)

lemma map_task_starts:
  assumes "map_task p f s = Inr t" "\<And>tk. time_start (f tk) = g (time_start tk)"
  shows "starts t = (starts s)(p := map_option g (starts s p))" "k_cpus t = k_cpus s" "same_tasks s t"
proof -
  obtain ob tk where m: "k_objs s p = Some ob" "o_body ob = KTask tk" "t = kput p (ob\<lparr>o_body := KTask (f tk)\<rparr>) s"
    using map_task_result [OF assms(1)] .
  show "starts t = (starts s)(p := map_option g (starts s p))"
    using m assms(2) by (auto simp: starts_def get_task_put fun_eq_iff get_simps)
  show "k_cpus t = k_cpus s" "same_tasks s t" using m(3) by (simp_all add: kput_def same_tasks_def)
qed

lemma starts_cpus [simp]: "starts (s\<lparr>k_cpus := c\<rparr>) = starts s"
  by (simp add: fun_eq_iff starts_def get_task_def kget_def)

text \<open>Taking a task off every processor it is next on.\<close>

definition detached :: "ptr \<Rightarrow> cpu list \<Rightarrow> cpu list" where
  "detached p cs = map (\<lambda>c. if cpu_next c = Some p then c\<lparr>cpu_next := None\<rparr> else c) cs"

lemma detach_fold:
  "n \<le> length (k_cpus s) \<Longrightarrow>
   fold (\<lambda>i s. if cpu_next (k_cpus s ! i) = Some p then map_cpu i (\<lambda>c. c\<lparr>cpu_next := None\<rparr>) s else s) [0..<n] s =
   s\<lparr>k_cpus := detached p (take n (k_cpus s)) @ drop n (k_cpus s)\<rparr>"
proof (induction n)
  case 0
  then show ?case by (simp add: detached_def)
next
  case (Suc n)
  let ?s = "s\<lparr>k_cpus := detached p (take n (k_cpus s)) @ drop n (k_cpus s)\<rparr>"
  have len: "length (detached p (take n (k_cpus s))) = n" using Suc.prems by (simp add: detached_def)
  have at: "k_cpus ?s ! n = k_cpus s ! n" using len Suc.prems by (simp add: nth_append)
  have "take (Suc n) (k_cpus s) = take n (k_cpus s) @ [k_cpus s ! n]" using Suc.prems by (simp add: take_Suc_conv_app_nth)
  moreover have "drop n (k_cpus s) = k_cpus s ! n # drop (Suc n) (k_cpus s)" using Suc.prems by (simp add: Cons_nth_drop_Suc)
  ultimately show ?case
    using Suc at len by (auto simp: map_cpu_def detached_def list_update_append nth_append)
qed

lemma sched_detach_result:
  assumes "sched_detach po s = Inr t"
  shows "starts t = starts s" "same_tasks s t" "k_cpus t = (case po of None \<Rightarrow> k_cpus s | Some p \<Rightarrow> detached p (k_cpus s))"
proof -
  have "starts t = starts s \<and> same_tasks s t \<and> k_cpus t = (case po of None \<Rightarrow> k_cpus s | Some p \<Rightarrow> detached p (k_cpus s))"
  proof (cases po)
    case None
    then show ?thesis using assms by (simp add: sched_detach_def same_tasks_refl)
  next
    case (Some p)
    then obtain u where u: "map_task p (\<lambda>t. t\<lparr>time_end := k_tick s\<rparr>) s = Inr u"
      "t = u\<lparr>k_cpus := detached p (k_cpus u)\<rparr>"
      using assms detach_fold [of "length (k_cpus u)" u p for u] by (auto simp: sched_detach_def sbind_Inr_iff)
    note m = map_task_starts [OF u(1), of id]
    have "starts t = starts u" using u(2) by simp
    moreover have "starts u = starts s" using m by (simp add: option.map_id fun_upd_idem)
    moreover have "same_tasks s t" using m(3) u(2) by (simp add: same_tasks_def detached_def)
    ultimately show ?thesis using u(2) m Some by simp
  qed
  then show "starts t = starts s" "same_tasks s t" "k_cpus t = (case po of None \<Rightarrow> k_cpus s | Some p \<Rightarrow> detached p (k_cpus s))" by auto
qed

lemma sched_attach_result:
  assumes "sched_attach (Some p) i s = Inr t"
  shows "starts t = (starts s)(p := Some (k_tick s))" "same_tasks s t"
    "k_cpus t = (k_cpus s)[i := (k_cpus s ! i)\<lparr>cpu_next := Some p\<rparr>]"
proof -
  obtain u where u: "map_task p (\<lambda>t. t\<lparr>time_start := k_tick s\<rparr>) s = Inr u" "t = map_cpu i (\<lambda>c. c\<lparr>cpu_next := Some p\<rparr>) u"
    using assms by (auto simp: sched_attach_def sbind_Inr_iff)
  note m = map_task_starts [OF u(1), of "\<lambda>_. k_tick s"]
  have "starts s p \<noteq> None"
    using u(1) by (auto simp: starts_def map_task_def sbind_Inr_iff split: sum.splits)
  then have "starts u = (starts s)(p := Some (k_tick s))" using m(1) by auto
  moreover have "starts t = starts u" using u(2) by (simp add: map_cpu_def)
  ultimately show "starts t = (starts s)(p := Some (k_tick s))" by simp
  show "k_cpus t = (k_cpus s)[i := (k_cpus s ! i)\<lparr>cpu_next := Some p\<rparr>]" using u(2) m by (simp add: map_cpu_def)
  have "cpu_idle ((k_cpus s)[i := (k_cpus s ! i)\<lparr>cpu_next := Some p\<rparr>] ! j) = cpu_idle (k_cpus s ! j)" if "j < length (k_cpus s)" for j
    using that by (cases "i = j") auto
  then show "same_tasks s t" using u(2) m(2,3) by (auto simp: same_tasks_def map_cpu_def)
qed

lemma sched_next_result:
  assumes "sched_next (Some p) i s = Inr t"
  shows "starts t = (starts s)(p := Some (k_tick s))" "same_tasks s t"
    "k_cpus t = (let cs = (case cpu_next (k_cpus s ! i) of None \<Rightarrow> k_cpus s | Some q \<Rightarrow> detached q (k_cpus s))
       in cs[i := (cs ! i)\<lparr>cpu_next := Some p\<rparr>])"
proof -
  obtain u where u: "sched_detach (cpu_next (k_cpus s ! i)) s = Inr u" "sched_attach (Some p) i u = Inr t"
    using assms by (auto simp: sched_next_def sbind_Inr_iff)
  note d = sched_detach_result [OF u(1)] and a = sched_attach_result [OF u(2)]
  show "starts t = (starts s)(p := Some (k_tick s))" using d a by (simp add: same_tasks_def)
  show "same_tasks s t" using same_tasks_trans [OF d(2) a(2)] .
  show "k_cpus t = (let cs = (case cpu_next (k_cpus s ! i) of None \<Rightarrow> k_cpus s | Some q \<Rightarrow> detached q (k_cpus s))
       in cs[i := (cs ! i)\<lparr>cpu_next := Some p\<rparr>])" using d(3) a(3) by (simp add: Let_def)
qed

section \<open>Dispatching\<close>

lemma sched_dispatch_result:
  assumes "sched_dispatch po s = Inr (found, t)"
  shows "(\<not> found \<and> t = s) \<or> (found \<and> (\<exists>p i. po = Some p \<and> sched_next (Some p) i s = Inr t))"
  using assms
  by (auto simp: sched_dispatch_def sched_dispatch_to_current_def sched_dispatch_to_idle_def sched_dispatch_to_active_def
    sbind_Inr_iff split: option.splits if_splits)

lemma sched_peek_some:
  assumes "sched_peek s = Inr (Some p)"
  shows "p \<in> set (k_tasks s) \<and> eligible s p"
proof -
  have "best = None \<or> (\<exists>b. best = Some b \<and> b \<in> P \<and> eligible s b) \<Longrightarrow>
      for_each (\<lambda>p best. sched_pick best p s) ps best = Inr best' \<Longrightarrow>
      best' = None \<or> (\<exists>b. best' = Some b \<and> b \<in> P \<union> set ps \<and> eligible s b)" for ps P best best'
  proof (induction ps arbitrary: best P)
    case (Cons q ps)
    then obtain b where b: "sched_pick best q s = Inr b" "for_each (\<lambda>p best. sched_pick best p s) ps b = Inr best'"
      by (auto simp: sbind_Inr_iff)
    then have "b = best \<or> b = Some q \<and> eligible s q"
      by (auto simp: sched_pick_def sbind_Inr_iff Let_def eligible_def split: if_splits)
    then have "b = None \<or> (\<exists>x. b = Some x \<and> x \<in> insert q P \<and> eligible s x)" using Cons.prems(1) by auto
    from Cons.IH [OF this b(2)] show ?case by auto
  qed auto
  from this [of None "{}" "k_tasks s" "Some p"] assms show ?thesis by (auto simp: sched_peek_def)
qed

text \<open>The tasks that were not given a processor in this tick.\<close>

definition fresh :: "kst \<Rightarrow> nat" where
  "fresh s = card {p \<in> set (k_tasks s). starts s p \<noteq> Some (k_tick s)}"

lemma fresh_next:
  assumes "sched_peek s = Inr (Some p)" "sched_next (Some p) i s = Inr t"
  shows "fresh t < fresh s"
proof -
  have p: "p \<in> set (k_tasks s)" "starts s p \<noteq> Some (k_tick s)"
    using sched_peek_some [OF assms(1)] by (auto simp: eligible_def starts_def)
  note n = sched_next_result [OF assms(2)]
  have "{q \<in> set (k_tasks t). starts t q \<noteq> Some (k_tick t)} = {q \<in> set (k_tasks s). starts s q \<noteq> Some (k_tick s)} - {p}"
    using n(1,2) by (auto simp: same_tasks_def split: if_splits)
  moreover have "card ({q \<in> set (k_tasks s). starts s q \<noteq> Some (k_tick s)} - {p}) < card {q \<in> set (k_tasks s). starts s q \<noteq> Some (k_tick s)}"
    using p by (intro card_Diff1_less) auto
  ultimately show ?thesis unfolding fresh_def by simp
qed

lemma sched_peek_no_fuel: "sched_peek s \<noteq> Inl OutOfFuel"
proof -
  have g: "get_task p s \<noteq> Inl OutOfFuel" for p
    by (auto simp: get_task_def kget_def sbind_Inl_iff split: option.splits kbody.splits)
  have "sched_pick b p s \<noteq> Inl OutOfFuel" for b p
    using g by (auto simp: sched_pick_def sbind_Inl_iff Let_def split: option.splits)
  then have "for_each (\<lambda>p best. sched_pick best p s) ps b \<noteq> Inl OutOfFuel" for ps b
    by (induction ps arbitrary: b) (auto simp: sbind_Inl_iff)
  then show ?thesis by (simp add: sched_peek_def)
qed

lemma no_fuel_simps:
  "get_task p s \<noteq> Inl OutOfFuel" "kget p s \<noteq> Inl OutOfFuel" "deref_ptr po \<noteq> Inl OutOfFuel"
  by (auto simp: get_task_def kget_def deref_ptr_def sbind_Inl_iff split: option.splits kbody.splits)

lemma sched_next_no_fuel: "sched_next po i s \<noteq> Inl OutOfFuel"
proof -
  have m: "map_task p f u \<noteq> Inl OutOfFuel" for p f u
    by (auto simp: map_task_def kbody_def sbind_Inl_iff no_fuel_simps)
  show ?thesis
    by (auto simp: sched_next_def sched_detach_def sched_attach_def sbind_Inl_iff m split: option.splits)
qed

lemma sched_dispatch_no_fuel: "sched_dispatch po s \<noteq> Inl OutOfFuel"
proof -
  have a: "active_time i s \<noteq> Inl OutOfFuel" for i by (auto simp: active_time_def sbind_Inl_iff no_fuel_simps)
  have l: "for_each (\<lambda>i best. sbind (active_time best s) (\<lambda>x. sbind (active_time i s) (\<lambda>y. Inr (if x < y then i else best)))) is b \<noteq>
      Inl OutOfFuel" for "is" b
    by (induction "is" arbitrary: b) (auto simp: sbind_Inl_iff a)
  show ?thesis
    by (auto simp: sched_dispatch_def sched_dispatch_to_current_def sched_dispatch_to_idle_def sched_dispatch_to_active_def
      sbind_Inl_iff sbind_Inr_iff sched_next_no_fuel a l split: option.splits if_splits)
qed

lemma sched_dispatch_loop_enough: "fresh s < turns \<Longrightarrow> sched_dispatch_loop turns s \<noteq> Inl OutOfFuel"
proof (induction turns arbitrary: s)
  case (Suc turns)
  have "sched_dispatch_loop turns t \<noteq> Inl OutOfFuel"
    if h: "sched_peek s = Inr po" "sched_dispatch po s = Inr (True, t)" for po t
  proof -
    obtain p i where "po = Some p" "sched_next (Some p) i s = Inr t" using sched_dispatch_result [OF h(2)] by auto
    with fresh_next h(1) Suc.prems show ?thesis by (intro Suc.IH) fastforce
  qed
  then show ?case
    using sched_peek_no_fuel sched_dispatch_no_fuel by (auto simp: sbind_Inl_iff split: if_splits)
qed simp

section \<open>One processor for each task\<close>

definition exclusive :: "kst \<Rightarrow> bool" where
  "exclusive s \<longleftrightarrow>
     (\<forall>i < length (k_cpus s). \<forall>j < length (k_cpus s). i \<noteq> j \<longrightarrow>
        (cpu_next (k_cpus s ! i) \<noteq> None \<longrightarrow> cpu_next (k_cpus s ! i) \<noteq> cpu_next (k_cpus s ! j)) \<and>
        (cpu_idle (k_cpus s ! i) \<noteq> None \<longrightarrow> cpu_next (k_cpus s ! j) \<noteq> cpu_idle (k_cpus s ! i) \<and>
           cpu_idle (k_cpus s ! j) \<noteq> cpu_idle (k_cpus s ! i))) \<and>
     (\<forall>i < length (k_cpus s). \<forall>p \<in> set (k_tasks s). cpu_idle (k_cpus s ! i) \<noteq> Some p)"

lemma exclusive_cpus: "k_cpus t = k_cpus s \<Longrightarrow> k_tasks t = k_tasks s \<Longrightarrow> exclusive t = exclusive s"
  by (simp add: exclusive_def)

lemma detached_nth: "i < length cs \<Longrightarrow> cpu_idle (detached q cs ! i) = cpu_idle (cs ! i) \<and>
    (cpu_next (detached q cs ! i) = cpu_next (cs ! i) \<or> cpu_next (detached q cs ! i) = None)"
  by (auto simp: detached_def)

lemma length_detached [simp]: "length (detached q cs) = length cs"
  by (simp add: detached_def)

lemma exclusive_next:
  assumes ex: "exclusive s" and run: "sched_next (Some p) i s = Inr t"
    and only: "\<And>j. j < length (k_cpus s) \<Longrightarrow> j \<noteq> i \<Longrightarrow> cpu_next (k_cpus s ! j) \<noteq> Some p \<and> cpu_idle (k_cpus s ! j) \<noteq> Some p"
  shows "exclusive t"
proof -
  define cs where "cs = (case cpu_next (k_cpus s ! i) of None \<Rightarrow> k_cpus s | Some q \<Rightarrow> detached q (k_cpus s))"
  have t: "k_cpus t = cs[i := (cs ! i)\<lparr>cpu_next := Some p\<rparr>]" "k_tasks t = k_tasks s"
    using sched_next_result [OF run] by (auto simp: cs_def Let_def same_tasks_def)
  have cs: "length cs = length (k_cpus s)" "\<And>j. j < length (k_cpus s) \<Longrightarrow> cpu_idle (cs ! j) = cpu_idle (k_cpus s ! j) \<and>
      (cpu_next (cs ! j) = cpu_next (k_cpus s ! j) \<or> cpu_next (cs ! j) = None)"
    unfolding cs_def using detached_nth by (auto split: option.splits)
  have len: "length (k_cpus t) = length (k_cpus s)" using t cs by simp
  have idle: "cpu_idle (k_cpus t ! j) = cpu_idle (k_cpus s ! j)" if "j < length (k_cpus s)" for j
    using that t(1) cs by (cases "i = j") auto
  have nxt: "cpu_next (k_cpus t ! j) = Some p \<and> j = i \<or> j \<noteq> i \<and> (cpu_next (k_cpus t ! j) = cpu_next (k_cpus s ! j) \<or> cpu_next (k_cpus t ! j) = None)"
    if "j < length (k_cpus s)" for j
    using that t(1) cs by (cases "i = j") auto
  show ?thesis
    unfolding exclusive_def len t(2)
  proof (intro conjI allI impI ballI)
    fix a b assume h: "a < length (k_cpus s)" "b < length (k_cpus s)" "a \<noteq> b"
    have e: "cpu_next (k_cpus s ! a) \<noteq> None \<Longrightarrow> cpu_next (k_cpus s ! a) \<noteq> cpu_next (k_cpus s ! b)"
      "cpu_idle (k_cpus s ! a) \<noteq> None \<Longrightarrow> cpu_next (k_cpus s ! b) \<noteq> cpu_idle (k_cpus s ! a) \<and> cpu_idle (k_cpus s ! b) \<noteq> cpu_idle (k_cpus s ! a)"
      using ex h unfolding exclusive_def by blast+
    show "cpu_next (k_cpus t ! a) \<noteq> cpu_next (k_cpus t ! b)" if "cpu_next (k_cpus t ! a) \<noteq> None"
      using nxt [OF h(1)] nxt [OF h(2)] only [OF h(1)] only [OF h(2)] e(1) h(3) that by auto
    show "cpu_next (k_cpus t ! b) \<noteq> cpu_idle (k_cpus t ! a)" if "cpu_idle (k_cpus t ! a) \<noteq> None"
      using nxt [OF h(2)] only [OF h(1)] e(2) h(3) that idle [OF h(1)] by auto
    show "cpu_idle (k_cpus t ! b) \<noteq> cpu_idle (k_cpus t ! a)" if "cpu_idle (k_cpus t ! a) \<noteq> None"
      using e(2) idle [OF h(1)] idle [OF h(2)] that by auto
  next
    fix a q assume "a < length (k_cpus s)" "q \<in> set (k_tasks s)"
    then show "cpu_idle (k_cpus t ! a) \<noteq> Some q" using ex idle unfolding exclusive_def by auto
  qed
qed

lemma exclusive_next_none:
  assumes ex: "exclusive s" and run: "sched_next None i s = Inr t"
  shows "exclusive t"
proof -
  have d: "sched_detach (cpu_next (k_cpus s ! i)) s = Inr t" using run by (auto simp: sched_next_def sched_attach_def sbind_Inr_iff)
  note r = sched_detach_result [OF d]
  have cs: "length (k_cpus t) = length (k_cpus s)" "\<And>j. j < length (k_cpus s) \<Longrightarrow> cpu_idle (k_cpus t ! j) = cpu_idle (k_cpus s ! j) \<and>
      (cpu_next (k_cpus t ! j) = cpu_next (k_cpus s ! j) \<or> cpu_next (k_cpus t ! j) = None)"
    unfolding r(3) using detached_nth by (auto split: option.splits)
  have k: "k_tasks t = k_tasks s" using r(2) by (simp add: same_tasks_def)
  show ?thesis
    unfolding exclusive_def cs(1) k using ex cs(2) unfolding exclusive_def by (metis (no_types, lifting))
qed

lemma exclusive_dispatch_loop:
  "exclusive s \<Longrightarrow> sched_dispatch_loop turns s = Inr t \<Longrightarrow> exclusive t"
proof (induction turns arbitrary: s)
  case (Suc turns)
  obtain po found u where h: "sched_peek s = Inr po" "sched_dispatch po s = Inr (found, u)"
      "if found then sched_dispatch_loop turns u = Inr t else t = u"
    using Suc.prems(2) by (auto simp: sbind_Inr_iff split: if_splits)
  from sched_dispatch_result [OF h(2)] show ?case
  proof
    assume "\<not> found \<and> u = s"
    with h(3) Suc.prems(1) show ?thesis by simp
  next
    assume "found \<and> (\<exists>p i. po = Some p \<and> sched_next (Some p) i s = Inr u)"
    then obtain p i where p: "found" "po = Some p" "sched_next (Some p) i s = Inr u" by blast
    have pk: "p \<in> set (k_tasks s)" "\<not> sched_running p s" using sched_peek_some h(1) p(2) by (auto simp: eligible_def)
    have "cpu_next (k_cpus s ! j) \<noteq> Some p \<and> cpu_idle (k_cpus s ! j) \<noteq> Some p" if "j < length (k_cpus s)" for j
      using pk that Suc.prems(1) by (auto simp: sched_running_def sched_cpu_def find_None_iff exclusive_def)
    then have "exclusive u" using exclusive_next [OF Suc.prems(1) p(3)] by blast
    with Suc.IH h(3) p(1) show ?thesis by simp
  qed
qed simp

lemma exclusive_update_cpu:
  assumes ex: "exclusive s" and i: "i < length (k_cpus s)" and run: "sched_update_cpu i s = Inr t"
  shows "exclusive t \<and> length (k_cpus t) = length (k_cpus s)"
proof -
  have "t = s \<or> sched_next (cpu_idle (k_cpus s ! i)) i s = Inr t"
    using run by (auto simp: sched_update_cpu_def sbind_Inr_iff split: if_splits)
  then show ?thesis
  proof
    assume n: "sched_next (cpu_idle (k_cpus s ! i)) i s = Inr t"
    show ?thesis
    proof (cases "cpu_idle (k_cpus s ! i)")
      case None
      have "length (k_cpus t) = length (k_cpus s)"
        using n None sched_detach_result(2) by (auto simp: sched_next_def sched_attach_def sbind_Inr_iff same_tasks_def)
      then show ?thesis using exclusive_next_none [OF ex] n None by simp
    next
      case (Some p)
      have "cpu_next (k_cpus s ! j) \<noteq> Some p \<and> cpu_idle (k_cpus s ! j) \<noteq> Some p" if "j < length (k_cpus s)" "j \<noteq> i" for j
        using ex that i Some unfolding exclusive_def by (metis option.distinct(1))
      then show ?thesis
        using exclusive_next [OF ex] n Some sched_next_result(2) by (auto simp: same_tasks_def)
    qed
  qed (use ex in simp)
qed

section \<open>Blockers leave the processors alone\<close>

definition quiet :: "kst \<Rightarrow> kst \<Rightarrow> bool" where
  "quiet s t \<longleftrightarrow> k_cpus t = k_cpus s \<and> k_tasks t = k_tasks s \<and> k_tick t = k_tick s"

interpretation qr: kernel_relation quiet
  by unfold_locales (auto simp: quiet_def kbody_def kput_def kfree_def sbind_Inr_iff)

lemma quiet_update_task: "sched_update_task p s = Inr t \<Longrightarrow> quiet s t"
proof -
  have m: "map_task p f u = Inr t \<Longrightarrow> quiet u t" for f u by (erule map_task_result) (simp add: quiet_def kput_def)
  show "sched_update_task p s = Inr t \<Longrightarrow> quiet s t"
    using qr.R_run_blocker m qr.R_trans qr.R_refl
    by (auto simp: sched_update_task_def sbind_Inr_iff Let_def split: if_splits) blast
qed

section \<open>Theorems\<close>

text \<open>
  C19. The scheduler is fair among waiting tasks. When every entry of the task list is a task,
  \<open>sched_peek\<close> returns a task that is runnable, is on no processor and was not started in this tick,
  and no other such task has been off its processor for longer; it returns none only when there is
  no such task.
\<close>

theorem sched_peek_longest_waiting:
  assumes "\<forall>p \<in> set (k_tasks s). \<exists>t. get_task p s = Inr t"
  shows "\<exists>best. sched_peek s = Inr best \<and> (case best of None \<Rightarrow> \<forall>p \<in> set (k_tasks s). \<not> eligible s p
     | Some b \<Rightarrow> b \<in> set (k_tasks s) \<and> eligible s b \<and> (\<forall>p \<in> set (k_tasks s). eligible s p \<longrightarrow> waited s b \<le> waited s p))"
  using sched_peek_loop [of s "{}" None "k_tasks s"] assms by (simp add: sched_peek_def best_of_def)

theorem sched_peek_longest_waiting_witness:
  "\<exists>best. sched_peek (kst_example\<lparr>k_tick := 1, k_cpus := []\<rparr>) = Inr best \<and> best = Some 3"
proof -
  let ?s = "kst_example\<lparr>k_tick := 1, k_cpus := []\<rparr>"
  have t: "get_task 3 ?s = Inr task_example" by (simp add: get_task_def kget_def kst_example_def)
  have "\<forall>p \<in> set (k_tasks ?s). \<exists>t. get_task p ?s = Inr t" using t by (simp add: kst_example_def)
  from sched_peek_longest_waiting [OF this] obtain best where b: "sched_peek ?s = Inr best"
    "case best of None \<Rightarrow> \<forall>p \<in> set (k_tasks ?s). \<not> eligible ?s p
     | Some b \<Rightarrow> b \<in> set (k_tasks ?s) \<and> eligible ?s b \<and> (\<forall>p \<in> set (k_tasks ?s). eligible ?s p \<longrightarrow> waited ?s b \<le> waited ?s p)" by blast
  have "eligible ?s 3"
    unfolding eligible_def using t by (simp add: task_runnable_def task_example_def sched_running_def sched_cpu_def)
  with b show ?thesis by (cases best) (auto simp: kst_example_def)
qed

text \<open>
  C18. Handing out processors ends. The loop of \<open>sched_schedule\<close> picks and dispatches tasks until none
  is left to dispatch; every turn starts a task that had not been started in this tick, so the loop
  ends within as many turns as there are tasks, whatever the state.
\<close>

theorem sched_dispatch_ends: "sched_dispatch_loop (length (k_tasks s) + 1) s \<noteq> Inl OutOfFuel"
proof (rule sched_dispatch_loop_enough)
  have "fresh s \<le> card (set (k_tasks s))" unfolding fresh_def by (intro card_mono) auto
  also have "\<dots> \<le> length (k_tasks s)" by (rule card_length)
  finally show "fresh s < length (k_tasks s) + 1" by simp
qed

text \<open>
  C7. No task runs on two processors. If every task is next on at most one processor and each idle task
  only on its own, the same holds after a scheduling step, whatever the blocked tasks it wakes up
  were waiting for.
\<close>

theorem sched_schedule_exclusive:
  assumes "exclusive s" and "sched_schedule s = Inr t"
  shows "exclusive t"
proof -
  let ?s = "s\<lparr>k_tick := k_tick s + 1\<rparr>"
  obtain s1 s2 s3 where h: "for_each sched_update_task (k_tasks ?s) ?s = Inr s1"
    "for_each sched_update_cpu [0..<length (k_cpus s1)] s1 = Inr s2"
    "sched_dispatch_loop (length (k_tasks s2) + 1) s2 = Inr s3" "t = sched_switch_other s3"
    using assms(2) by (auto simp: sched_schedule_def sched_updated_blocked_def sbind_Inr_iff Let_def)
  have "quiet ?s s1" by (rule qr.R_for_each [OF h(1)]) (rule quiet_update_task)
  then have e1: "exclusive s1" using assms(1) by (simp add: quiet_def exclusive_def)
  have "exclusive s2 \<and> length (k_cpus s2) = length (k_cpus s1)"
    by (rule for_each_invariant [OF h(2), where P = "\<lambda>u. exclusive u \<and> length (k_cpus u) = length (k_cpus s1)"])
      (use e1 in \<open>auto dest: exclusive_update_cpu\<close>)
  then have "exclusive s3" using exclusive_dispatch_loop h(3) by blast
  then show ?thesis using h(4) by (simp add: sched_switch_other_def exclusive_def)
qed

theorem sched_schedule_exclusive_witness:
  "exclusive kst_example \<and> (\<exists>t. sched_schedule kst_example = Inr t \<and> exclusive t)"
proof -
  have e: "exclusive kst_example" by (simp add: exclusive_def kst_example_def)
  have "fault_of (sched_schedule kst_example) = None" by code_simp
  then obtain t where "sched_schedule kst_example = Inr t" by (cases "sched_schedule kst_example") (auto simp: fault_of_def)
  with sched_schedule_exclusive [OF e this] e show ?thesis by blast
qed

text \<open>
  Stopped tasks are not reclaimed. \<open>sched_finalize\<close> leaves out tasks that \<open>sched_runnable\<close> accepts,
  and \<open>sched_runnable\<close> accepts every started task that is stopped outside a system call: such tasks
  stay in the task list, with all their memory, for ever.
\<close>

theorem sched_finalize_keeps_stopped:
  assumes "\<forall>p \<in> set (k_tasks s). \<exists>t. get_task p s = Inr t \<and> (stopped t \<longrightarrow> started t \<and> \<not> in_syscall t)"
  shows "sched_finalize s = Inr s"
proof -
  have "length (k_tasks s) - i < turns \<Longrightarrow> sched_finalize_loop turns i s = Inr s" for turns i
  proof (induction turns arbitrary: i)
    case (Suc turns)
    show ?case
    proof (cases "i < length (k_tasks s)")
      case True
      then obtain t where t: "get_task (k_tasks s ! i) s = Inr t" "stopped t \<longrightarrow> started t \<and> \<not> in_syscall t"
        using assms nth_mem by blast
      then have "\<not> (stopped t \<and> \<not> sched_runnable t \<and> \<not> sched_running (k_tasks s ! i) s)" by (auto simp: sched_runnable_def)
      then show ?thesis using True t(1) Suc by auto
    qed simp
  qed simp
  then show ?thesis by (simp add: sched_finalize_def del: sched_finalize_loop.simps)
qed

theorem sched_finalize_keeps_stopped_witness:
  "\<exists>s. get_task 3 s = Inr (task_example\<lparr>in_syscall := False, stopped := True\<rparr>) \<and> k_tasks s = [3] \<and> sched_finalize s = Inr s"
proof -
  let ?t = "task_example\<lparr>in_syscall := False, stopped := True\<rparr>"
  let ?s = "kput 3 \<lparr>o_id = 2, o_refs = 1, o_body = KTask ?t\<rparr> kst_example"
  have t: "get_task 3 ?s = Inr ?t" "k_tasks ?s = [3]" by (simp_all add: get_task_def kget_def kput_def kst_example_def)
  have "sched_finalize ?s = Inr ?s"
    by (rule sched_finalize_keeps_stopped) (use t in \<open>simp add: task_example_def\<close>)
  with t show ?thesis by blast
qed


end
