(* ===== verification/Event_Props.thy ===== *)
theory Event_Props
  imports Messages
begin

text \<open>
  Correctness of \<open>event.c\<close>: what one trigger of an interrupt event delivers, that a delivered event is
  not delivered again before it is acknowledged, and what the removal of a task's bindings leaves
  behind.
\<close>

section \<open>Deliveries\<close>

text \<open>The parcel of an event, the bindings it goes to and the state of a channel's queue.\<close>

definition event_parcel :: "br_event \<Rightarrow> parcel" where
  "event_parcel e = zero_parcel\<lparr>parcel_msg := zero_msg\<lparr>msg_from := BR_ADDR_EVENT, msg_args := event_args e\<rparr>\<rparr>"

definition for_event :: "br_event \<Rightarrow> event_binding \<Rightarrow> bool" where
  "for_event e b \<longleftrightarrow> ev_type (bind_event b) = BR_EVENT_IRQ \<and> ev_irq (bind_event b) = ev_irq e"

definition disarm :: "br_event \<Rightarrow> event_binding \<Rightarrow> event_binding" where
  "disarm e b = (if for_event e b then b\<lparr>bind_ack := False\<rparr> else b)"

definition wants_on :: "kst \<Rightarrow> br_event \<Rightarrow> ptr \<Rightarrow> event_binding \<Rightarrow> bool" where
  "wants_on s e c b \<longleftrightarrow> for_event e b \<and> bind_ack b \<and> map_sum id task_channel (get_task (bind_task b) s) = Inr c"

definition queue_of :: "kst \<Rightarrow> ptr \<Rightarrow> parcel list" where
  "queue_of s c = (case k_chans s c of None \<Rightarrow> [] | Some r \<Rightarrow> ring_list r)"

definition cap_of :: "kst \<Rightarrow> ptr \<Rightarrow> nat" where
  "cap_of s c = (case k_chans s c of None \<Rightarrow> 0 | Some r \<Rightarrow> ring_capacity r)"

definition rings_ok :: "kst \<Rightarrow> bool" where
  "rings_ok s \<longleftrightarrow> (\<forall>c r. k_chans s c = Some r \<longrightarrow> ring_inv r)"

definition delivered :: "kst \<Rightarrow> br_event \<Rightarrow> event_binding list \<Rightarrow> kst \<Rightarrow> bool" where
  "delivered s e bs t \<longleftrightarrow> rings_ok t \<and> k_objs t = k_objs s \<and> (\<forall>c. cap_of t c = cap_of s c \<and> queue_of t c = queue_of s c @
     replicate (min (cap_of s c - length (queue_of s c)) (length (filter (wants_on s e c) bs))) (event_parcel e))"

lemma disarm_simps [simp]:
  "bind_task (disarm e b) = bind_task b" "bind_event (disarm e b) = bind_event b" "for_event e' (disarm e b) = for_event e' b"
  by (simp_all add: disarm_def for_event_def)

lemma event_eq_irq: "ev_type e = BR_EVENT_IRQ \<Longrightarrow> br_event_eq (bind_event b) e = Inr (for_event e b)"
  by (simp add: br_event_eq_irq2 for_event_def)

lemma wants_on_cong: "k_objs t = k_objs s \<Longrightarrow> wants_on t e c = wants_on s e c"
  by (simp add: fun_eq_iff wants_on_def get_task_def kget_def)

lemma delivered_nil: "rings_ok s \<Longrightarrow> delivered s e [] s"
  by (simp add: delivered_def)

lemma event_dispatch_delivers:
  assumes run: "event_dispatch y p e s = Inr (res, t)" and ok: "rings_ok s" and tk: "get_task p s = Inr tk"
  shows "k_bindings t = k_bindings s \<and> rings_ok t \<and> k_objs t = k_objs s \<and> (\<forall>c. cap_of t c = cap_of s c \<and> queue_of t c = queue_of s c @
     replicate (min (cap_of s c - length (queue_of s c)) (of_bool (task_channel tk = c))) (event_parcel e))"
proof -
  obtain r where r: "k_chans s (task_channel tk) = Some r" and step:
    "(ring_full r \<and> t = s) \<or> (\<not> ring_full r \<and> t = put_channel (task_channel tk) (snd (ring_push_impl r (event_parcel e))) s)"
    using run tk by (auto simp: event_dispatch_def channel_send_def channel_send_non_blocking_def channel_send_unlock_def
      parcel_pack_def get_channel_def sbind_Inr_iff Let_def event_parcel_def BR_IPC_SEND_def BR_IPC_BLOCK_def
      split: if_splits option.splits)
  have inv: "ring_inv r" using ok r by (auto simp: rings_ok_def)
  then have used: "ring_used r \<le> ring_capacity r" by (auto simp: ring_inv_def)
  from step show ?thesis
  proof
    assume "ring_full r \<and> t = s"
    then show ?thesis using ok r by (auto simp: cap_of_def queue_of_def ring_full_def)
  next
    assume f: "\<not> ring_full r \<and> t = put_channel (task_channel tk) (snd (ring_push_impl r (event_parcel e))) s"
    then have "ring_used r \<noteq> ring_capacity r" by (simp add: ring_full_def)
    then have one: "min (ring_capacity r - ring_used r) (Suc 0) = Suc 0" using used by simp
    have cap: "ring_capacity (snd (ring_push_impl r x)) = ring_capacity r" for x by (simp add: ring_push_impl_def)
    from f r ok one cap ring_inv_push [OF inv] ring_list_push [OF inv \<open>ring_used r \<noteq> ring_capacity r\<close>] show ?thesis
      by (auto simp: put_channel_def cap_of_def queue_of_def rings_ok_def)
  qed
qed

lemma delivered_step:
  assumes "delivered s e bs t" "event_trigger_binding y e i t = Inr u" "ev_type e = BR_EVENT_IRQ"
    and i: "i < length (k_bindings t)" and b: "k_bindings t ! i = b"
  shows "delivered s e (bs @ [b]) u \<and> k_bindings u = (k_bindings t)[i := disarm e b]"
proof (cases "for_event e b \<and> bind_ack b")
  case False
  then have "u = t" using assms by (auto simp: event_trigger_binding_def event_eq_irq)
  moreover have "disarm e b = b" using False by (cases b) (auto simp: disarm_def)
  moreover have "\<not> wants_on s e c b" for c using False by (auto simp: wants_on_def)
  moreover have "k_bindings t = (k_bindings t)[i := b]" using b by (metis list_update_id)
  ultimately show ?thesis using assms(1) by (simp add: delivered_def)
next
  case True
  let ?t = "set_ack i False t"
  have ack: "k_objs ?t = k_objs t" "k_chans ?t = k_chans t" "k_bindings ?t = (k_bindings t)[i := disarm e b]"
    using True b by (simp_all add: set_ack_def disarm_def)
  obtain res v where d: "event_dispatch y (bind_task b) e ?t = Inr (res, v)"
    and u: "u = (if res = BR_CHANNEL_FULL then set_ack i False v else v)"
    using assms True by (auto simp: event_trigger_binding_def event_eq_irq sbind_Inr_iff Let_def)
  then obtain tk where tk: "get_task (bind_task b) ?t = Inr tk" by (auto simp: event_dispatch_def sbind_Inr_iff)
  have ok: "rings_ok ?t" using assms(1) ack by (simp add: delivered_def rings_ok_def)
  note D = event_dispatch_delivers [OF d ok tk]
  have same: "k_objs u = k_objs v" "k_chans u = k_chans v" "k_bindings u = k_bindings v"
    using u D i True b by (auto simp: set_ack_def disarm_def)
  have "map_sum id task_channel (get_task (bind_task b) s) = Inr (task_channel tk)"
    using tk ack assms(1) by (auto simp: delivered_def get_task_def kget_def)
  then have w: "wants_on s e c b \<longleftrightarrow> task_channel tk = c" for c using True by (auto simp: wants_on_def)
  have "delivered s e (bs @ [b]) u"
    using assms(1) D same ack w
    by (auto simp: delivered_def cap_of_def queue_of_def rings_ok_def replicate_add [symmetric] min_def)
  then show ?thesis using D same ack by simp
qed

lemma event_trigger_prefix:
  assumes e: "ev_type e = BR_EVENT_IRQ" and ok: "rings_ok s"
  shows "n \<le> length (k_bindings s) \<Longrightarrow> for_each (event_trigger_binding y e) [0..<n] s = Inr t \<Longrightarrow>
    delivered s e (take n (k_bindings s)) t \<and> k_bindings t = map (disarm e) (take n (k_bindings s)) @ drop n (k_bindings s)"
proof (induction n arbitrary: t)
  case 0
  then show ?case using ok by (simp add: delivered_nil)
next
  case (Suc n)
  then obtain u where u: "for_each (event_trigger_binding y e) [0..<n] s = Inr u" "event_trigger_binding y e n u = Inr t"
    by (auto simp: for_each_append sbind_Inr_iff)
  have n: "n < length (k_bindings s)" using Suc.prems by simp
  with Suc.IH u have IH: "delivered s e (take n (k_bindings s)) u"
    "k_bindings u = map (disarm e) (take n (k_bindings s)) @ drop n (k_bindings s)" by auto
  have b: "n < length (k_bindings u)" "k_bindings u ! n = k_bindings s ! n" using IH n by (auto simp: nth_append)
  from delivered_step [OF IH(1) u(2) e b] show ?case
    using IH n by (simp add: take_Suc_conv_app_nth list_update_append Cons_nth_drop_Suc [symmetric])
qed

section \<open>Theorems\<close>

text \<open>
  C8. What triggering an interrupt event does. After \<open>event_trigger\<close> every channel has
  got one copy of the event for each binding of its task that was armed, as far as the channel had
  room (the copies that do not fit are lost); no kernel object changed; all bindings of the event are disarmed, also
  those whose copy was lost, and no others; and a second trigger before an acknowledgement changes nothing at all.
\<close>

theorem event_trigger_exact:
  assumes e: "ev_type e = BR_EVENT_IRQ" and ok: "rings_ok s" and run: "event_trigger y e s = Inr t"
  shows "k_objs t = k_objs s \<and> k_bindings t = map (disarm e) (k_bindings s) \<and> event_trigger y e t = Inr t \<and>
    (\<forall>c. queue_of t c = queue_of s c @
       replicate (min (cap_of s c - length (queue_of s c)) (length (filter (wants_on s e c) (k_bindings s)))) (event_parcel e))"
proof -
  have D: "delivered s e (k_bindings s) t \<and> k_bindings t = map (disarm e) (k_bindings s)"
    using event_trigger_prefix [OF e ok _ run [unfolded event_trigger_def]] by simp
  have "event_trigger_binding y e i t = Inr t" if i: "i < length (k_bindings t)" for i
  proof -
    have "k_bindings t ! i = disarm e (k_bindings s ! i)" using D i by simp
    then show ?thesis using e by (auto simp: event_trigger_binding_def event_eq_irq Let_def disarm_def for_event_def)
  qed
  then have "for_each (event_trigger_binding y e) is t = Inr t" if "set is \<subseteq> {..<length (k_bindings t)}" for "is"
    using that by (induction "is") auto
  then have "event_trigger y e t = Inr t" unfolding event_trigger_def by (metis atLeast_upt subset_refl)
  then show ?thesis using D by (simp add: delivered_def)
qed

definition irq_example :: br_event where
  "irq_example = \<lparr>ev_type = BR_EVENT_IRQ, ev_irq = 1\<rparr>"

definition bound_example :: kst where
  "bound_example = kst_example\<lparr>k_bindings := [\<lparr>bind_task = 3, bind_event = irq_example, bind_ack = True\<rparr>]\<rparr>"

theorem event_trigger_exact_witness:
  "\<exists>t. event_trigger Inr irq_example bound_example = Inr t \<and> queue_of t 2 = [event_parcel irq_example] \<and>
     event_trigger Inr irq_example t = Inr t"
proof -
  have ok: "rings_ok bound_example" by (auto simp: rings_ok_def bound_example_def kst_example_def ring_inv_init split: if_splits)
  have "fault_of (event_trigger Inr irq_example bound_example) = None" by code_simp
  then obtain t where t: "event_trigger Inr irq_example bound_example = Inr t"
    by (cases "event_trigger Inr irq_example bound_example") (auto simp: fault_of_def)
  have e: "ev_type irq_example = BR_EVENT_IRQ" by (simp add: irq_example_def)
  have q: "queue_of bound_example 2 = []" "cap_of bound_example 2 = IPC_CHANNEL_SIZE"
    "filter (wants_on bound_example irq_example 2) (k_bindings bound_example) = k_bindings bound_example"
    "length (k_bindings bound_example) = 1" "Suc 0 < IPC_CHANNEL_SIZE"
    by (simp_all add: queue_of_def cap_of_def bound_example_def kst_example_def ring_list_def wants_on_def for_event_def
      irq_example_def get_task_def kget_def task_example_def ring_init_impl_def IPC_CHANNEL_SIZE_def)
  from event_trigger_exact [OF e ok t] q t show ?thesis by (auto simp: min_def)
qed

text \<open>
  The removal of a task's bindings skips entries. \<open>event_unbind_all\<close>, which \<open>task_destroy\<close> calls,
  moves past the entry that slides into the place of a removed one: of two adjacent bindings of a
  task the second stays. Once the task is freed, the next trigger of that event follows the
  binding to the freed task.
\<close>

theorem event_unbind_all_leaves_dangling:
  assumes bs: "k_bindings s = [b1, b2]" and p: "bind_task b1 = p" "bind_task b2 = p"
    and e: "bind_event b2 = e" "ev_type e = BR_EVENT_IRQ" "bind_ack b2"
  shows "k_bindings (snd (event_unbind_all p s)) = [b2] \<and>
    event_trigger y e (kfree p (snd (event_unbind_all p s))) = Inl UseAfterFree"
proof -
  have "event_unbind_all_loop p [b1, b2] 0 = [b2]"
    using p by (simp add: event_unbind_all_loop.simps list_splice_def)
  moreover have "for_event e b2" using e by (simp add: for_event_def)
  ultimately show ?thesis using bs e p
    by (simp add: event_unbind_all_def event_trigger_def kfree_def event_trigger_binding_def event_eq_irq Let_def set_ack_def
      event_dispatch_def get_task_def kget_def)
qed

theorem event_unbind_all_leaves_dangling_witness:
  "event_trigger Inr irq_example (kfree 3 (snd (event_unbind_all 3 (kst_example\<lparr>k_bindings :=
     [\<lparr>bind_task = 3, bind_event = irq_example\<lparr>ev_irq := 4\<rparr>, bind_ack = True\<rparr>,
      \<lparr>bind_task = 3, bind_event = irq_example, bind_ack = True\<rparr>]\<rparr>)))) = Inl UseAfterFree"
  using event_unbind_all_leaves_dangling [of "kst_example\<lparr>k_bindings :=
     [\<lparr>bind_task = 3, bind_event = irq_example\<lparr>ev_irq := 4\<rparr>, bind_ack = True\<rparr>,
      \<lparr>bind_task = 3, bind_event = irq_example, bind_ack = True\<rparr>]\<rparr>"
      "\<lparr>bind_task = 3, bind_event = irq_example\<lparr>ev_irq := 4\<rparr>, bind_ack = True\<rparr>"
      "\<lparr>bind_task = 3, bind_event = irq_example, bind_ack = True\<rparr>" 3 irq_example Inr]
  by (simp add: irq_example_def)

end
