(* ===== verification/Sync.thy ===== *)
theory Sync
  imports Prelude
begin

text \<open>
  Locks and interrupts: \<open>brutal-sync\<close> (\<open>lock.c\<close>, \<open>rwlock.c\<close>), \<open>embed/kernel/sync.c\<close> and
  \<open>kernel/cpu.c\<close>. The operations are functions on the lock and on the interrupt state of the
  processor that runs them. Several processors are a step relation, in which each step is one
  atomic access to a lock or one update of the processor's own state; a processor that waits for
  a lock repeats the failing step. An interrupt handler can start on a processor whenever its
  interrupts are on.
\<close>

section \<open>cpu.c\<close>

record cpu_irq =
  retain_enable :: bool
  retain_depth :: int
  irq_on :: bool

definition cpu_enable_interrupts :: "cpu_irq \<Rightarrow> cpu_irq" where
  "cpu_enable_interrupts c = c\<lparr>irq_on := True\<rparr>"

definition cpu_disable_interrupts :: "cpu_irq \<Rightarrow> cpu_irq" where
  "cpu_disable_interrupts c = c\<lparr>irq_on := False\<rparr>"

definition cpu_begin_interrupt :: "cpu_irq \<Rightarrow> fault + cpu_irq" where
  "cpu_begin_interrupt c =
     sbind (assert_truth (retain_enable c) ''cpu_self()->retain_enable is false'') (\<lambda>_.
     Inr (c\<lparr>retain_enable := False\<rparr>))"

definition cpu_end_interrupt :: "cpu_irq \<Rightarrow> fault + cpu_irq" where
  "cpu_end_interrupt c =
     sbind (assert_truth (\<not> retain_enable c) ''cpu_self()->retain_enable is true'') (\<lambda>_.
     Inr (c\<lparr>retain_enable := True\<rparr>))"

definition cpu_retain_disable :: "cpu_irq \<Rightarrow> cpu_irq" where
  "cpu_retain_disable c = c\<lparr>retain_enable := False\<rparr>"

definition cpu_retain_enable :: "cpu_irq \<Rightarrow> cpu_irq" where
  "cpu_retain_enable c = c\<lparr>retain_enable := True\<rparr>"

definition cpu_retain_interrupts :: "cpu_irq \<Rightarrow> cpu_irq" where
  "cpu_retain_interrupts c =
     (if retain_enable c
      then (let c = cpu_disable_interrupts c in c\<lparr>retain_depth := retain_depth c + 1\<rparr>)
      else c)"

definition cpu_release_interrupts :: "cpu_irq \<Rightarrow> cpu_irq" where
  "cpu_release_interrupts c =
     (if retain_enable c
      then (let c = c\<lparr>retain_depth := retain_depth c - 1\<rparr> in
            if retain_depth c = 0 then cpu_enable_interrupts c else c)
      else c)"

definition embed_sync_enter :: "cpu_irq \<Rightarrow> cpu_irq" where
  "embed_sync_enter c = cpu_retain_interrupts c"

definition embed_sync_leave :: "cpu_irq \<Rightarrow> cpu_irq" where
  "embed_sync_leave c = cpu_release_interrupts c"

lemmas sync_defs = embed_sync_enter_def embed_sync_leave_def cpu_retain_interrupts_def cpu_release_interrupts_def
  cpu_enable_interrupts_def cpu_disable_interrupts_def Let_def

section \<open>lock.c\<close>

text \<open>The compare-and-exchange of \<open>lock_try_acquire_impl\<close>: one atomic access.\<close>

record lock = locked :: int

definition lock_try_acquire_impl :: "lock \<Rightarrow> bool \<times> lock" where
  "lock_try_acquire_impl l = (if locked l = 0 then (True, l\<lparr>locked := 1\<rparr>) else (False, l))"

text \<open>
  Processors at work on any number of locks. A processor is outside the lock functions
  (\<open>Running\<close>), in the loop of \<open>lock_acquire\<close> (\<open>Spinning\<close>), in \<open>lock_try_acquire\<close> between the call to
  \<open>embed_sync_enter\<close> and the exchange (\<open>Trying\<close>), or about to call \<open>embed_sync_leave\<close> (\<open>Leaving\<close>).
  \<open>y_held\<close> lists the locks a processor has acquired and not released. Code releases only locks it
  holds, and returns from an interrupt without locks.
\<close>

datatype lock_phase = Running | Spinning nat | Trying nat | Leaving

record sync =
  y_locks :: "nat \<Rightarrow> lock"
  y_cpu :: "nat \<Rightarrow> cpu_irq"
  y_phase :: "nat \<Rightarrow> lock_phase"
  y_held :: "nat \<Rightarrow> nat list"

definition take_lock :: "nat \<Rightarrow> nat \<Rightarrow> lock \<Rightarrow> sync \<Rightarrow> sync" where
  "take_lock i l k s = s\<lparr>y_locks := (y_locks s)(l := k), y_phase := (y_phase s)(i := Running),
     y_held := (y_held s)(i := l # y_held s i)\<rparr>"

inductive lock_acquire_step :: "sync \<Rightarrow> sync \<Rightarrow> bool" where
  acquire_enter: "y_phase s i = Running \<Longrightarrow>
     lock_acquire_step s (s\<lparr>y_cpu := (y_cpu s)(i := embed_sync_enter (y_cpu s i)), y_phase := (y_phase s)(i := Spinning l)\<rparr>)"
| acquire_spin: "y_phase s i = Spinning l \<Longrightarrow> lock_try_acquire_impl (y_locks s l) = (False, k) \<Longrightarrow>
     lock_acquire_step s (s\<lparr>y_locks := (y_locks s)(l := k)\<rparr>)"
| acquire_done: "y_phase s i = Spinning l \<Longrightarrow> lock_try_acquire_impl (y_locks s l) = (True, k) \<Longrightarrow>
     lock_acquire_step s (take_lock i l k s)"

inductive lock_try_acquire_step :: "sync \<Rightarrow> sync \<Rightarrow> bool" where
  try_enter: "y_phase s i = Running \<Longrightarrow>
     lock_try_acquire_step s (s\<lparr>y_cpu := (y_cpu s)(i := embed_sync_enter (y_cpu s i)), y_phase := (y_phase s)(i := Trying l)\<rparr>)"
| try_fail: "y_phase s i = Trying l \<Longrightarrow> lock_try_acquire_impl (y_locks s l) = (False, k) \<Longrightarrow>
     lock_try_acquire_step s (s\<lparr>y_locks := (y_locks s)(l := k), y_phase := (y_phase s)(i := Leaving)\<rparr>)"
| try_done: "y_phase s i = Trying l \<Longrightarrow> lock_try_acquire_impl (y_locks s l) = (True, k) \<Longrightarrow>
     lock_try_acquire_step s (take_lock i l k s)"

inductive lock_release_step :: "sync \<Rightarrow> sync \<Rightarrow> bool" where
  release_unlock: "y_phase s i = Running \<Longrightarrow> l \<in> set (y_held s i) \<Longrightarrow>
     lock_release_step s (s\<lparr>y_locks := (y_locks s)(l := (y_locks s l)\<lparr>locked := 0\<rparr>), y_phase := (y_phase s)(i := Leaving),
       y_held := (y_held s)(i := remove1 l (y_held s i))\<rparr>)"
| release_leave: "y_phase s i = Leaving \<Longrightarrow>
     lock_release_step s (s\<lparr>y_cpu := (y_cpu s)(i := embed_sync_leave (y_cpu s i)), y_phase := (y_phase s)(i := Running)\<rparr>)"

text \<open>
  The processor enters \<open>interrupt_handler\<close> with interrupts off and returns with them on; in between
  the handler runs lock operations like any other code.
\<close>

inductive interrupt_step :: "sync \<Rightarrow> sync \<Rightarrow> bool" where
  interrupt_begin: "irq_on (y_cpu s i) \<Longrightarrow> cpu_begin_interrupt ((y_cpu s i)\<lparr>irq_on := False\<rparr>) = Inr c \<Longrightarrow>
     interrupt_step s (s\<lparr>y_cpu := (y_cpu s)(i := c)\<rparr>)"
| interrupt_end: "y_phase s i = Running \<Longrightarrow> y_held s i = [] \<Longrightarrow> cpu_end_interrupt (y_cpu s i) = Inr c \<Longrightarrow>
     interrupt_step s (s\<lparr>y_cpu := (y_cpu s)(i := c\<lparr>irq_on := True\<rparr>)\<rparr>)"

definition sync_step :: "sync \<Rightarrow> sync \<Rightarrow> bool" where
  "sync_step s t \<longleftrightarrow> lock_acquire_step s t \<or> lock_try_acquire_step s t \<or> lock_release_step s t \<or> interrupt_step s t"

definition sync_init :: "sync \<Rightarrow> bool" where
  "sync_init s \<longleftrightarrow> (\<forall>l. locked (y_locks s l) = 0) \<and>
     (\<forall>i. y_cpu s i = \<lparr>retain_enable = True, retain_depth = 0, irq_on = True\<rparr> \<and> y_phase s i = Running \<and> y_held s i = [])"

section \<open>rwlock.c\<close>

text \<open>The counters are C \<open>int\<close>s; theorem \<open>rwlock_exclusion\<close> bounds them by the number of processors.\<close>

record rwlock =
  pendings :: int
  readers :: int
  writers :: int

text \<open>
  The inner lock makes each of these functions one atomic section; taking it and giving it back
  are a call to \<open>embed_sync_enter\<close> and one to \<open>embed_sync_leave\<close>.
\<close>

definition rwlock_try_acquire_read :: "rwlock \<Rightarrow> cpu_irq \<Rightarrow> bool \<times> rwlock \<times> cpu_irq" where
  "rwlock_try_acquire_read r c =
     (let c = embed_sync_enter c in
      if pendings r \<noteq> 0 then (False, r, embed_sync_leave c)
      else if writers r \<noteq> 0 then (False, r, embed_sync_leave c)
      else
        let r = r\<lparr>readers := readers r + 1\<rparr>; c = embed_sync_enter c in
        (True, r, embed_sync_leave c))"

definition rwlock_release_read :: "rwlock \<Rightarrow> cpu_irq \<Rightarrow> fault + (rwlock \<times> cpu_irq)" where
  "rwlock_release_read r c =
     (let c = embed_sync_enter c in
      sbind (assert_truth (readers r > 0) ''self->readers-- > 0'') (\<lambda>_.
      let r = r\<lparr>readers := readers r - 1\<rparr>; c = embed_sync_leave c in
      Inr (r, embed_sync_leave c)))"

definition rwlock_try_acquire_write :: "rwlock \<Rightarrow> cpu_irq \<Rightarrow> bool \<times> rwlock \<times> cpu_irq" where
  "rwlock_try_acquire_write r c =
     (let c = embed_sync_enter c in
      if readers r \<noteq> 0 then (False, r, embed_sync_leave c)
      else if writers r \<noteq> 0 then (False, r, embed_sync_leave c)
      else
        let r = r\<lparr>writers := writers r + 1\<rparr>; c = embed_sync_enter c in
        (True, r, embed_sync_leave c))"

definition rwlock_release_write :: "rwlock \<Rightarrow> cpu_irq \<Rightarrow> fault + (rwlock \<times> cpu_irq)" where
  "rwlock_release_write r c =
     (let c = embed_sync_enter c in
      sbind (assert_truth (writers r > 0) ''self->writers-- > 0'') (\<lambda>_.
      let r = r\<lparr>writers := writers r - 1\<rparr>; c = embed_sync_leave c in
      Inr (r, embed_sync_leave c)))"

text \<open>
  \<open>n\<close> processors that use one read-write lock. \<open>Want_Read\<close> and \<open>Want_Write\<close> are the loops of
  \<open>rwlock_acquire_read\<close> and \<open>rwlock_acquire_write\<close>; \<open>Got_Write\<close> is the latter after its loop and
  before it decrements the number of waiting writers.
\<close>

datatype rw_phase = Outside | Want_Read | Reading | Want_Write | Got_Write | Writing

record rwsync =
  rw_lock :: rwlock
  rw_cpu :: "nat \<Rightarrow> cpu_irq"
  rw_phase :: "nat \<Rightarrow> rw_phase"

definition rw_set :: "nat \<Rightarrow> rw_phase \<Rightarrow> rwlock \<Rightarrow> cpu_irq \<Rightarrow> rwsync \<Rightarrow> rwsync" where
  "rw_set i ph r c s = s\<lparr>rw_lock := r, rw_cpu := (rw_cpu s)(i := c), rw_phase := (rw_phase s)(i := ph)\<rparr>"

inductive rwlock_acquire_read_step :: "nat \<Rightarrow> rwsync \<Rightarrow> rwsync \<Rightarrow> bool" for n where
  read_enter: "i < n \<Longrightarrow> rw_phase s i = Outside \<Longrightarrow>
     rwlock_acquire_read_step n s (rw_set i Want_Read (rw_lock s) (embed_sync_enter (rw_cpu s i)) s)"
| read_try: "i < n \<Longrightarrow> rw_phase s i = Want_Read \<Longrightarrow> rwlock_try_acquire_read (rw_lock s) (rw_cpu s i) = (ok, r, c) \<Longrightarrow>
     rwlock_acquire_read_step n s (rw_set i (if ok then Reading else Want_Read) r c s)"

inductive rwlock_acquire_write_step :: "nat \<Rightarrow> rwsync \<Rightarrow> rwsync \<Rightarrow> bool" for n where
  write_enter: "i < n \<Longrightarrow> rw_phase s i = Outside \<Longrightarrow>
     rwlock_acquire_write_step n s (rw_set i Want_Write ((rw_lock s)\<lparr>pendings := pendings (rw_lock s) + 1\<rparr>) (embed_sync_enter (rw_cpu s i)) s)"
| write_try: "i < n \<Longrightarrow> rw_phase s i = Want_Write \<Longrightarrow> rwlock_try_acquire_write (rw_lock s) (rw_cpu s i) = (ok, r, c) \<Longrightarrow>
     rwlock_acquire_write_step n s (rw_set i (if ok then Got_Write else Want_Write) r c s)"
| write_done: "i < n \<Longrightarrow> rw_phase s i = Got_Write \<Longrightarrow>
     rwlock_acquire_write_step n s (rw_set i Writing ((rw_lock s)\<lparr>pendings := pendings (rw_lock s) - 1\<rparr>) (rw_cpu s i) s)"

inductive rwlock_release_step :: "nat \<Rightarrow> rwsync \<Rightarrow> rwsync \<Rightarrow> bool" for n where
  read_release: "i < n \<Longrightarrow> rw_phase s i = Reading \<Longrightarrow> rwlock_release_read (rw_lock s) (rw_cpu s i) = Inr (r, c) \<Longrightarrow>
     rwlock_release_step n s (rw_set i Outside r c s)"
| write_release: "i < n \<Longrightarrow> rw_phase s i = Writing \<Longrightarrow> rwlock_release_write (rw_lock s) (rw_cpu s i) = Inr (r, c) \<Longrightarrow>
     rwlock_release_step n s (rw_set i Outside r c s)"

definition rw_step :: "nat \<Rightarrow> rwsync \<Rightarrow> rwsync \<Rightarrow> bool" where
  "rw_step n s t \<longleftrightarrow> rwlock_acquire_read_step n s t \<or> rwlock_acquire_write_step n s t \<or> rwlock_release_step n s t"

definition rw_init :: "rwsync \<Rightarrow> bool" where
  "rw_init s \<longleftrightarrow> rw_lock s = \<lparr>pendings = 0, readers = 0, writers = 0\<rparr> \<and> (\<forall>i. rw_phase s i = Outside)"

section \<open>Invariants of step relations\<close>

locale invariant_of =
  fixes start :: "'s \<Rightarrow> bool" and step :: "'s \<Rightarrow> 's \<Rightarrow> bool" and inv :: "'s \<Rightarrow> bool"
  assumes inv_start: "start s \<Longrightarrow> inv s" and inv_step: "inv s \<Longrightarrow> step s t \<Longrightarrow> inv t"
begin

lemma inv_reachable: "step\<^sup>*\<^sup>* s t \<Longrightarrow> start s \<Longrightarrow> inv t"
  by (induction rule: rtranclp_induct) (auto intro: inv_start inv_step)

end

lemma two_steps: "r a b \<Longrightarrow> r b c \<Longrightarrow> r\<^sup>*\<^sup>* a c"
  by (rule rtranclp.rtrancl_into_rtrancl [OF r_into_rtranclp])

section \<open>Locks\<close>

definition lock_phase_depth :: "lock_phase \<Rightarrow> int" where
  "lock_phase_depth p = (if p = Running then 0 else 1)"

text \<open>
  Outside interrupt handlers the depth counts the locks held and the lock function that is
  running, and interrupts are on exactly at depth 0; in a handler interrupts are off.
\<close>

definition cpu_inv :: "cpu_irq \<Rightarrow> lock_phase \<Rightarrow> nat list \<Rightarrow> bool" where
  "cpu_inv c p held \<longleftrightarrow> distinct held \<and>
     (if retain_enable c then retain_depth c = int (length held) + lock_phase_depth p \<and> (irq_on c \<longleftrightarrow> retain_depth c = 0)
      else retain_depth c = 0 \<and> \<not> irq_on c)"

definition sync_inv :: "sync \<Rightarrow> bool" where
  "sync_inv s \<longleftrightarrow> (\<forall>i. cpu_inv (y_cpu s i) (y_phase s i) (y_held s i)) \<and>
     (\<forall>i j l. l \<in> set (y_held s i) \<longrightarrow> l \<in> set (y_held s j) \<longrightarrow> i = j) \<and>
     (\<forall>l. locked (y_locks s l) \<noteq> 0 \<longleftrightarrow> (\<exists>i. l \<in> set (y_held s i)))"

lemma cpu_inv_enter: "cpu_inv c Running h \<Longrightarrow> p \<noteq> Running \<Longrightarrow> cpu_inv (embed_sync_enter c) p h"
  by (auto simp: cpu_inv_def sync_defs lock_phase_depth_def split: if_splits)

lemma cpu_inv_leave: "cpu_inv c Leaving h \<Longrightarrow> cpu_inv (embed_sync_leave c) Running h"
  by (auto simp: cpu_inv_def sync_defs lock_phase_depth_def split: if_splits)

lemma cpu_inv_take: "cpu_inv c p h \<Longrightarrow> p \<noteq> Running \<Longrightarrow> l \<notin> set h \<Longrightarrow> cpu_inv c Running (l # h)"
  by (auto simp: cpu_inv_def lock_phase_depth_def split: if_splits)

lemma cpu_inv_drop: "cpu_inv c Running h \<Longrightarrow> l \<in> set h \<Longrightarrow> cpu_inv c Leaving (remove1 l h)"
proof -
  assume "cpu_inv c Running h" and l: "l \<in> set h"
  moreover have "int (length (remove1 l h)) = int (length h) - 1"
    using l length_pos_if_in_set [OF l] by (simp add: length_remove1 of_nat_diff Suc_le_eq del: length_greater_0_conv)
  ultimately show ?thesis by (auto simp: cpu_inv_def lock_phase_depth_def)
qed

lemma try_acquire_impl_simps:
  "lock_try_acquire_impl l = (False, k) \<longleftrightarrow> locked l \<noteq> 0 \<and> k = l"
  "lock_try_acquire_impl l = (True, k) \<longleftrightarrow> locked l = 0 \<and> k = l\<lparr>locked := 1\<rparr>"
  by (auto simp: lock_try_acquire_impl_def)

lemma sync_inv_cpu:
  assumes "sync_inv s" "cpu_inv c p (y_held s i)"
  shows "sync_inv (s\<lparr>y_cpu := (y_cpu s)(i := c), y_phase := (y_phase s)(i := p)\<rparr>)"
  using assms by (simp add: sync_inv_def)

lemma sync_inv_take:
  assumes inv: "sync_inv s" and p: "y_phase s i \<noteq> Running" and free: "locked (y_locks s l) = 0"
  shows "sync_inv (take_lock i l ((y_locks s l)\<lparr>locked := 1\<rparr>) s)"
proof -
  have out: "l \<notin> set (y_held s j)" for j using inv free by (auto simp: sync_inv_def)
  have "cpu_inv (y_cpu s i) (y_phase s i) (y_held s i)" using inv by (simp add: sync_inv_def)
  from cpu_inv_take [OF this p out] have "cpu_inv (y_cpu s i) Running (l # y_held s i)" .
  moreover have "(\<exists>j. x \<in> set (((y_held s)(i := l # y_held s i)) j)) \<longleftrightarrow> x = l \<or> (\<exists>j. x \<in> set (y_held s j))" for x
    by auto
  ultimately show ?thesis using inv out unfolding sync_inv_def take_lock_def by simp blast
qed

lemma sync_inv_drop:
  assumes inv: "sync_inv s" and p: "y_phase s i = Running" and l: "l \<in> set (y_held s i)"
  shows "sync_inv (s\<lparr>y_locks := (y_locks s)(l := (y_locks s l)\<lparr>locked := 0\<rparr>), y_phase := (y_phase s)(i := Leaving),
       y_held := (y_held s)(i := remove1 l (y_held s i))\<rparr>)"
proof -
  have ci: "cpu_inv (y_cpu s i) Running (y_held s i)" using inv p by (metis sync_inv_def)
  then have d: "distinct (y_held s i)" by (simp add: cpu_inv_def)
  have out: "j \<noteq> i \<Longrightarrow> l \<notin> set (y_held s j)" for j using inv l by (auto simp: sync_inv_def)
  have "(\<exists>j. x \<in> set (((y_held s)(i := remove1 l (y_held s i))) j)) \<longleftrightarrow> x \<noteq> l \<and> (\<exists>j. x \<in> set (y_held s j))" for x
    using d out by (auto simp: set_remove1_eq) metis
  then show ?thesis
    using inv d cpu_inv_drop [OF ci l] unfolding sync_inv_def by (simp add: set_remove1_eq) blast
qed

lemma sync_inv_step:
  assumes inv: "sync_inv s" and step: "sync_step s t"
  shows "sync_inv t"
proof -
  have ci: "cpu_inv (y_cpu s i) (y_phase s i) (y_held s i)" for i using inv by (simp add: sync_inv_def)
  have a: "lock_acquire_step s t \<Longrightarrow> sync_inv t"
  proof (induction rule: lock_acquire_step.cases)
    case (acquire_enter s' i l)
    then show ?case using inv ci [of i] by (auto intro!: sync_inv_cpu cpu_inv_enter)
  qed (use inv sync_inv_take in \<open>auto simp: try_acquire_impl_simps\<close>)
  have b: "lock_try_acquire_step s t \<Longrightarrow> sync_inv t"
  proof (induction rule: lock_try_acquire_step.cases)
    case (try_enter s' i l)
    then show ?case using inv ci [of i] by (auto intro!: sync_inv_cpu cpu_inv_enter)
  next
    case (try_fail s' i l k)
    then have "cpu_inv (y_cpu s i) Leaving (y_held s i)" using ci [of i] by (simp add: cpu_inv_def lock_phase_depth_def)
    with try_fail inv show ?case by (auto simp: try_acquire_impl_simps sync_inv_def)
  qed (use inv sync_inv_take in \<open>auto simp: try_acquire_impl_simps\<close>)
  have c: "lock_release_step s t \<Longrightarrow> sync_inv t"
  proof (induction rule: lock_release_step.cases)
    case (release_leave s' i)
    then show ?case using inv ci [of i] by (auto intro!: sync_inv_cpu cpu_inv_leave)
  qed (use inv sync_inv_drop in auto)
  have d: "interrupt_step s t \<Longrightarrow> sync_inv t"
  proof (induction rule: interrupt_step.cases)
    case (interrupt_begin s' i c)
    then have "cpu_inv c (y_phase s i) (y_held s i)"
      using ci [of i] by (auto simp: cpu_inv_def cpu_begin_interrupt_def sbind_Inr_iff assert_truth_Inr split: if_splits)
    with interrupt_begin inv show ?case by (simp add: sync_inv_def)
  next
    case (interrupt_end s' i c)
    then have "cpu_inv (c\<lparr>irq_on := True\<rparr>) (y_phase s i) (y_held s i)"
      using ci [of i] by (auto simp: cpu_inv_def cpu_end_interrupt_def sbind_Inr_iff assert_truth_Inr lock_phase_depth_def split: if_splits)
    with interrupt_end inv show ?case by (simp add: sync_inv_def)
  qed
  show ?thesis using step a b c d by (auto simp: sync_step_def)
qed

interpretation lk: invariant_of sync_init sync_step sync_inv
proof
  show "sync_init s \<Longrightarrow> sync_inv s" for s by (auto simp: sync_init_def sync_inv_def cpu_inv_def lock_phase_depth_def)
qed (rule sync_inv_step)

section \<open>Read-write locks\<close>

definition tally :: "nat \<Rightarrow> ('a \<Rightarrow> bool) \<Rightarrow> (nat \<Rightarrow> 'a) \<Rightarrow> int" where
  "tally n P f = (\<Sum>i < n. of_bool (P (f i)))"

lemma tally_upd: "i < n \<Longrightarrow> tally n P (f(i := x)) = tally n P f - of_bool (P (f i)) + of_bool (P x)"
proof -
  assume i: "i < n"
  have "(\<Sum>j \<in> {..<n} - {i}. of_bool (P ((f(i := x)) j))) = (\<Sum>j \<in> {..<n} - {i}. of_bool (P (f j)) :: int)"
    by (rule sum.cong) auto
  then show ?thesis
    using i sum.remove [of "{..<n}" i "\<lambda>j. of_bool (P (f j)) :: int"] sum.remove [of "{..<n}" i "\<lambda>j. of_bool (P ((f(i := x)) j)) :: int"]
    unfolding tally_def by simp
qed

lemma tally_pos: "i < n \<Longrightarrow> P (f i) \<Longrightarrow> 0 < tally n P f"
  unfolding tally_def by (rule sum_pos2) auto

lemma tally_bounds: "0 \<le> tally n P f" "tally n P f \<le> int n"
  using sum_bounded_above [of "{..<n}" "\<lambda>i. of_bool (P (f i)) :: int" 1] by (auto simp: tally_def intro: sum_nonneg)

definition rw_inv :: "nat \<Rightarrow> rwsync \<Rightarrow> bool" where
  "rw_inv n s \<longleftrightarrow> readers (rw_lock s) = tally n (\<lambda>p. p = Reading) (rw_phase s) \<and>
     writers (rw_lock s) = tally n (\<lambda>p. p = Got_Write \<or> p = Writing) (rw_phase s) \<and>
     pendings (rw_lock s) = tally n (\<lambda>p. p = Want_Write \<or> p = Got_Write) (rw_phase s) \<and>
     writers (rw_lock s) \<le> 1 \<and> (writers (rw_lock s) = 1 \<longrightarrow> readers (rw_lock s) = 0)"

lemmas rw_op_defs = rwlock_try_acquire_read_def rwlock_try_acquire_write_def rwlock_release_read_def rwlock_release_write_def

lemma rw_inv_step:
  assumes inv: "rw_inv n s" and step: "rw_step n s t"
  shows "rw_inv n t"
proof -
  note d = rw_inv_def rw_set_def tally_upd rw_op_defs Let_def sbind_Inr_iff assert_truth_Inr
  have a: "rwlock_acquire_read_step n s t \<Longrightarrow> rw_inv n t"
    by (induction rule: rwlock_acquire_read_step.cases) (use inv in \<open>auto simp: d split: if_splits\<close>)
  have b: "rwlock_acquire_write_step n s t \<Longrightarrow> rw_inv n t"
    by (induction rule: rwlock_acquire_write_step.cases) (use inv in \<open>auto simp: d split: if_splits\<close>)
  have c: "rwlock_release_step n s t \<Longrightarrow> rw_inv n t"
    by (induction rule: rwlock_release_step.cases) (use inv in \<open>auto simp: d split: if_splits\<close>)
  show ?thesis using step a b c by (auto simp: rw_step_def)
qed

interpretation rw: invariant_of rw_init "rw_step n" "rw_inv n" for n
proof
  show "rw_init s \<Longrightarrow> rw_inv n s" for s by (simp add: rw_init_def rw_inv_def tally_def)
qed (rule rw_inv_step)

section \<open>Theorems\<close>

text \<open>
  C9. Locks exclude each other and interrupts. Whatever processors do with locks and whenever
  interrupts arrive, in every reachable state a lock is held by at most one processor, a locked
  lock has a holder, and a processor that can be interrupted holds no lock, is inside no lock
  function and passes the assertion of \<open>cpu_begin_interrupt\<close>: no handler ever waits for a lock that
  the code it interrupted holds.
\<close>

theorem lock_mutual_exclusion:
  assumes "sync_init s" and "sync_step\<^sup>*\<^sup>* s t"
  shows "(l \<in> set (y_held t i) \<and> l \<in> set (y_held t j) \<longrightarrow> i = j) \<and> (locked (y_locks t l) \<noteq> 0 \<longleftrightarrow> (\<exists>k. l \<in> set (y_held t k))) \<and>
    (irq_on (y_cpu t i) \<longrightarrow> y_held t i = [] \<and> y_phase t i = Running \<and> (\<exists>c. cpu_begin_interrupt (y_cpu t i) = Inr c))"
proof -
  have inv: "sync_inv t" using lk.inv_reachable assms by blast
  then have "cpu_inv (y_cpu t i) (y_phase t i) (y_held t i)" by (simp add: sync_inv_def)
  then have "irq_on (y_cpu t i) \<longrightarrow> y_held t i = [] \<and> y_phase t i = Running \<and> (\<exists>c. cpu_begin_interrupt (y_cpu t i) = Inr c)"
    by (auto simp: cpu_inv_def lock_phase_depth_def cpu_begin_interrupt_def split: if_splits)
  with inv show ?thesis by (auto simp: sync_inv_def)
qed

definition sync_example :: sync where
  "sync_example = \<lparr>y_locks = (\<lambda>_. \<lparr>locked = 0\<rparr>), y_cpu = (\<lambda>_. \<lparr>retain_enable = True, retain_depth = 0, irq_on = True\<rparr>),
     y_phase = (\<lambda>_. Running), y_held = (\<lambda>_. [])\<rparr>"

theorem lock_mutual_exclusion_witness:
  "\<exists>t. sync_step\<^sup>*\<^sup>* sync_example t \<and> 7 \<in> set (y_held t 0) \<and> 7 \<notin> set (y_held t 1) \<and> \<not> irq_on (y_cpu t 0)"
proof -
  let ?u = "sync_example\<lparr>y_cpu := (y_cpu sync_example)(0 := embed_sync_enter (y_cpu sync_example 0)),
    y_phase := (y_phase sync_example)(0 := Spinning 7)\<rparr>"
  let ?t = "take_lock 0 7 \<lparr>locked = 1\<rparr> ?u"
  have "sync_step sync_example ?u"
    unfolding sync_step_def by (intro disjI1 acquire_enter) (simp add: sync_example_def)
  moreover have "sync_step ?u ?t"
    unfolding sync_step_def by (intro disjI1 acquire_done) (simp_all add: sync_example_def lock_try_acquire_impl_def)
  ultimately have r: "sync_step\<^sup>*\<^sup>* sync_example ?t" by (rule two_steps)
  have i: "sync_init sync_example" by (simp add: sync_init_def sync_example_def)
  have h: "7 \<in> set (y_held ?t 0)" by (simp add: take_lock_def)
  from lock_mutual_exclusion [OF i r, of 7 0 1] h have "7 \<notin> set (y_held ?t 1)" by auto
  moreover from lock_mutual_exclusion [OF i r, of 7 0 1] h have "\<not> irq_on (y_cpu ?t 0)" by auto
  ultimately show ?thesis using r h by blast
qed

text \<open>
  C10. The read-write lock keeps readers and writers apart. In every reachable state of any number
  of processors \<open>readers\<close> is exactly the number of processors that read, \<open>writers\<close> that of those that have
  the lock for writing, \<open>pendings\<close> that of those inside of \<open>rwlock_acquire_write\<close>; a processor that writes is
  alone; there is at most one writer and the other counters never exceed the number of processors, so
  that no C \<open>int\<close> overflows; and releasing what is held passes the assertions of \<open>rwlock_release_read\<close>
  and \<open>rwlock_release_write\<close>.
\<close>

theorem rwlock_exclusion:
  assumes "rw_init s" and "(rw_step n)\<^sup>*\<^sup>* s t" and "i < n" "j < n"
  shows "(rw_phase t i = Writing \<and> (rw_phase t j = Writing \<or> rw_phase t j = Reading) \<longrightarrow> i = j) \<and>
    readers (rw_lock t) = tally n (\<lambda>p. p = Reading) (rw_phase t) \<and> readers (rw_lock t) \<le> int n \<and>
    writers (rw_lock t) = tally n (\<lambda>p. p = Got_Write \<or> p = Writing) (rw_phase t) \<and> writers (rw_lock t) \<le> 1 \<and>
    pendings (rw_lock t) = tally n (\<lambda>p. p = Want_Write \<or> p = Got_Write) (rw_phase t) \<and> pendings (rw_lock t) \<le> int n \<and>
    (rw_phase t i = Reading \<longrightarrow> (\<exists>x. rwlock_release_read (rw_lock t) (rw_cpu t i) = Inr x)) \<and>
    (rw_phase t i = Writing \<longrightarrow> (\<exists>x. rwlock_release_write (rw_lock t) (rw_cpu t i) = Inr x))"
proof -
  have inv: "rw_inv n t" using rw.inv_reachable assms(1,2) by blast
  let ?W = "\<lambda>p. p = Got_Write \<or> p = Writing" and ?R = "\<lambda>p. p = Reading"
  have two: "2 \<le> tally n ?W (rw_phase t)" if h: "rw_phase t i = Writing" "rw_phase t j = Writing" "i \<noteq> j"
  proof -
    have "0 < tally n ?W ((rw_phase t)(i := Outside))" using h assms(4) by (intro tally_pos [of j]) auto
    with h show ?thesis using assms(3) by (simp add: tally_upd)
  qed
  have r: "rw_phase t k = Reading \<Longrightarrow> k < n \<Longrightarrow> 0 < readers (rw_lock t)" for k
    using inv tally_pos [of k n ?R "rw_phase t"] by (simp add: rw_inv_def)
  have w: "rw_phase t k = Writing \<Longrightarrow> k < n \<Longrightarrow> 0 < writers (rw_lock t)" for k
    using inv tally_pos [of k n ?W "rw_phase t"] by (simp add: rw_inv_def)
  have W: "writers (rw_lock t) = tally n ?W (rw_phase t)" "writers (rw_lock t) \<le> 1"
    "writers (rw_lock t) = 1 \<longrightarrow> readers (rw_lock t) = 0" using inv unfolding rw_inv_def by blast+
  have "rw_phase t i = Writing \<and> (rw_phase t j = Writing \<or> rw_phase t j = Reading) \<longrightarrow> i = j"
  proof (rule impI, rule ccontr)
    assume h: "rw_phase t i = Writing \<and> (rw_phase t j = Writing \<or> rw_phase t j = Reading)" and ne: "i \<noteq> j"
    have one: "writers (rw_lock t) = 1" using w [of i] W(2) h assms(3) by simp
    show False using h two r [of j] W one ne assms(4) by linarith
  qed
  moreover have "rw_phase t i = Reading \<Longrightarrow> \<exists>x. rwlock_release_read (rw_lock t) (rw_cpu t i) = Inr x"
    using r [of i] assms(3) by (simp add: rwlock_release_read_def Let_def)
  moreover have "rw_phase t i = Writing \<Longrightarrow> \<exists>x. rwlock_release_write (rw_lock t) (rw_cpu t i) = Inr x"
    using w [of i] assms(3) by (simp add: rwlock_release_write_def Let_def)
  ultimately show ?thesis using inv unfolding rw_inv_def by (simp add: tally_bounds)
qed

text \<open>
  Acquiring a read-write lock leaks a level of interrupt retention. \<open>rwlock_acquire_write\<close> and
  \<open>rwlock_acquire_read\<close> enter the section twice, once themselves and once in the try function, and
  the release functions leave it once. After one acquisition and release on a processor that had
  interrupts on, its depth is 1 and its interrupts stay off, and no balanced pair of lock operations
  turns them on again.
\<close>

theorem rwlock_retains_interrupts:
  assumes c: "retain_enable c" "retain_depth c = 0"
    and acq: "rwlock_try_acquire_write \<lparr>pendings = 1, readers = 0, writers = 0\<rparr> (embed_sync_enter c) = (ok, r, d)"
    and rel: "rwlock_release_write (r\<lparr>pendings := pendings r - 1\<rparr>) d = Inr (r', e)"
  shows "ok \<and> r' = \<lparr>pendings = 0, readers = 0, writers = 0\<rparr> \<and> retain_depth e = 1 \<and> \<not> irq_on e \<and>
    \<not> irq_on (embed_sync_leave (embed_sync_enter e))"
proof -
  have "ok" "r = \<lparr>pendings = 1, readers = 0, writers = 1\<rparr>" "d = c\<lparr>irq_on := False, retain_depth := 2\<rparr>"
    using acq c by (auto simp: rwlock_try_acquire_write_def sync_defs)
  then show ?thesis using rel c by (auto simp: rwlock_release_write_def sync_defs sbind_Inr_iff)
qed

theorem rwlock_retains_interrupts_witness:
  "\<exists>e. rwlock_release_write \<lparr>pendings = 0, readers = 0, writers = 1\<rparr> \<lparr>retain_enable = True, retain_depth = 2, irq_on = False\<rparr> =
     Inr (\<lparr>pendings = 0, readers = 0, writers = 0\<rparr>, e) \<and> \<not> irq_on e"
proof -
  let ?c = "\<lparr>retain_enable = True, retain_depth = 0, irq_on = True\<rparr>"
  have "rwlock_try_acquire_write \<lparr>pendings = 1, readers = 0, writers = 0\<rparr> (embed_sync_enter ?c) =
    (True, \<lparr>pendings = 1, readers = 0, writers = 1\<rparr>, \<lparr>retain_enable = True, retain_depth = 2, irq_on = False\<rparr>)"
    by (simp add: rwlock_try_acquire_write_def sync_defs)
  from rwlock_retains_interrupts [OF _ _ this] show ?thesis by (simp add: rwlock_release_write_def sync_defs)
qed

theorem rwlock_exclusion_witness:
  "\<exists>t. (rw_step 2)\<^sup>*\<^sup>* \<lparr>rw_lock = \<lparr>pendings = 0, readers = 0, writers = 0\<rparr>, rw_cpu = y_cpu sync_example, rw_phase = (\<lambda>_. Outside)\<rparr> t \<and>
     rw_phase t 0 = Reading \<and> rw_phase t 1 \<noteq> Writing \<and> readers (rw_lock t) = 1 \<and> writers (rw_lock t) = 0"
proof -
  let ?s = "\<lparr>rw_lock = \<lparr>pendings = 0, readers = 0, writers = 0\<rparr>, rw_cpu = y_cpu sync_example, rw_phase = (\<lambda>_. Outside)\<rparr>"
  let ?c = "embed_sync_enter (y_cpu sync_example 0)"
  let ?u = "rw_set 0 Want_Read (rw_lock ?s) ?c ?s"
  obtain ok r c where att: "rwlock_try_acquire_read (rw_lock ?u) (rw_cpu ?u 0) = (ok, r, c)" by (metis prod_cases3)
  have ok: "ok" using att by (simp add: rwlock_try_acquire_read_def rw_set_def Let_def)
  let ?t = "rw_set 0 (if ok then Reading else Want_Read) r c ?u"
  have "rw_step 2 ?s ?u" unfolding rw_step_def using read_enter [of 0 2 ?s] by simp
  moreover have "rw_step 2 ?u ?t" unfolding rw_step_def by (intro disjI1 read_try att) (simp_all add: rw_set_def)
  ultimately have run: "(rw_step 2)\<^sup>*\<^sup>* ?s ?t" by (rule two_steps)
  have init: "rw_init ?s" by (simp add: rw_init_def)
  have p: "rw_phase ?t 0 = Reading" using ok by (simp add: rw_set_def)
  have "tally 2 (\<lambda>p. p = Reading) (rw_phase ?t) = 1" "tally 2 (\<lambda>p. p = Got_Write \<or> p = Writing) (rw_phase ?t) = 0"
    using ok by (simp_all add: tally_def rw_set_def numeral_2_eq_2)
  with rwlock_exclusion [OF init run, of 1 0] p show ?thesis using run by (intro exI [of _ ?t]) auto
qed

end
