(* ===== verification/Interrupts.thy ===== *)
theory Interrupts
  imports Sched_Props Event_Props Sync
begin

text \<open>
  The interrupt path of the x86-64 kernel: \<open>interrupt_handler\<close> (\<open>interrupts.c\<close>) with the saving and
  loading of task contexts (\<open>context.c\<close>). The handler brings the scheduler, the events, the address
  spaces and the interrupt state of the processor together: on a timer interrupt and on a
  rescheduling request it saves the registers it was entered with in the context of the running
  task, lets the scheduler choose, and returns with the registers of the task that runs next.
\<close>

section \<open>Contexts\<close>

text \<open>
  The processor the handler runs on: the registers on the interrupt stack, which are the ones it
  will return with, the vector unit, the context the system call entry finds through the \<open>GS\<close> base
  (by its task), the interrupt state and the number of interrupts acknowledged.
\<close>

record machine =
  m_regs :: regs
  m_simd :: simd_image
  m_gs :: "ptr option"
  m_irq :: cpu_irq
  m_eois :: nat

definition context_save :: "kcontext \<Rightarrow> machine \<Rightarrow> kcontext" where
  "context_save self m = self\<lparr>ctx_simd := m_simd m, ctx_regs := m_regs m\<rparr>"

definition context_load :: "ptr \<Rightarrow> kcontext \<Rightarrow> machine \<Rightarrow> machine" where
  "context_load p self m = m\<lparr>m_gs := Some p, m_regs := ctx_regs self, m_simd := ctx_simd self\<rparr>"

section \<open>interrupts.c\<close>

definition IPI_RESCHED :: u64 where "IPI_RESCHED = 100"
definition IPI_STOP :: u64 where "IPI_STOP = 101"

definition save_current :: "machine \<Rightarrow> kst \<Rightarrow> fault + kst" where
  "save_current m s = sbind (task_self s) (\<lambda>p. map_task p (\<lambda>t. t\<lparr>task_context := context_save (task_context t) m\<rparr>) s)"

definition load_current :: "machine \<Rightarrow> kst \<Rightarrow> fault + (machine \<times> kst)" where
  "load_current m s =
     sbind (task_self s) (\<lambda>p.
     sbind (get_task p s) (\<lambda>t.
     let m = context_load p (task_context t) m in
     sbind (space_switch (task_space t) s) (\<lambda>s. Inr (m, s))))"

text \<open>
  The handler returns \<open>None\<close> when it halts the processor for good, which it does on \<open>IPI_STOP\<close>. A
  processor exception ends in \<open>interrupt_error_handler\<close>, the kernel's panic.
\<close>

definition interrupt_handler :: "(kst \<Rightarrow> fault + kst) \<Rightarrow> machine \<Rightarrow> kst \<Rightarrow> fault + (machine \<times> kst) option" where
  "interrupt_handler arch_yield m s =
     (let int_no = reg_int_no (m_regs m) in
      if int_no < 32 then Inl (Panic ''KERNEL PANIC'')
      else
        sbind (cpu_begin_interrupt (m_irq m)) (\<lambda>c.
        let m = m\<lparr>m_irq := c\<rparr> in
        sbind (if int_no \<ge> 32 \<and> int_no \<le> 48
               then event_trigger arch_yield \<lparr>ev_type = BR_EVENT_IRQ, ev_irq = ucast (int_no - 32)\<rparr> s
               else Inr s) (\<lambda>s.
        sbind (if int_no = 32
               then sbind (save_current m s) (\<lambda>s.
                    sbind (sched_schedule s) (\<lambda>s.
                    sbind (load_current m (sched_switch s)) (\<lambda>r. Inr (Some r))))
               else if int_no = IPI_RESCHED
               then sbind (save_current m s) (\<lambda>s.
                    sbind (load_current m (sched_switch s)) (\<lambda>r. Inr (Some r)))
               else if int_no = IPI_STOP then Inr None
               else Inr (Some (m, s))) (\<lambda>r.
        case r of None \<Rightarrow> Inr None
        | Some (m, s) \<Rightarrow>
            sbind (cpu_end_interrupt (m_irq m)) (\<lambda>c.
            Inr (Some (m\<lparr>m_irq := c, m_eois := m_eois m + 1\<rparr>, s)))))))"

section \<open>Scheduling keeps contexts\<close>

text \<open>Every task of the second state was a task of the first, with the same context.\<close>

definition ctx_of :: "kst \<Rightarrow> ptr \<Rightarrow> kcontext option" where
  "ctx_of s p = (case get_task p s of Inl _ \<Rightarrow> None | Inr t \<Rightarrow> Some (task_context t))"

definition tracks :: "kst \<Rightarrow> kst \<Rightarrow> bool" where
  "tracks s t \<longleftrightarrow> (\<forall>p c. ctx_of t p = Some c \<longrightarrow> ctx_of s p = Some c)"

lemma ctx_of_cong: "k_objs t = k_objs s \<Longrightarrow> ctx_of t p = ctx_of s p"
  by (simp add: ctx_of_def get_task_def kget_def)

lemma ctx_of_kput: "ctx_of (kput p ob s) q = (if q = p then (case o_body ob of KTask t \<Rightarrow> Some (task_context t) | _ \<Rightarrow> None) else ctx_of s q)"
  by (auto simp: ctx_of_def get_task_put split: kbody.splits)

lemma ctx_of_Some: "k_objs s p = Some ob \<Longrightarrow> o_body ob = KTask t \<Longrightarrow> ctx_of s p = Some (task_context t)"
  by (simp add: ctx_of_def get_task_def kget_def)

lemma tracks_refl: "tracks s s"
  by (simp add: tracks_def)

lemma tracks_trans: "tracks s t \<Longrightarrow> tracks t u \<Longrightarrow> tracks s u"
  by (simp add: tracks_def)

lemma tracks_objs: "k_objs t = k_objs s \<Longrightarrow> tracks s t"
  unfolding tracks_def using ctx_of_cong [of t s] by auto

interpretation tr: kernel_relation tracks
proof
  show "tracks s t" if "kbody p b s = Inr t" "\<forall>x. b \<noteq> KTask x" for p b s t
    using that by (cases b) (auto simp: kbody_def sbind_Inr_iff tracks_def ctx_of_kput split: if_splits)
  show "tracks s (kput p (ob\<lparr>o_refs := n\<rparr>) s)" if "kget p s = Inr ob" for p ob n s
    using that by (auto simp: tracks_def ctx_of_kput kget_def ctx_of_Some split: option.splits if_splits kbody.splits)
  show "tracks s (kfree p s)" for s p
    by (auto simp: tracks_def ctx_of_def get_task_def kget_def kfree_def)
  show "tracks s u" if "tracks s t" "tracks t u" for s t u using that by (rule tracks_trans)
qed (simp_all add: tracks_refl tracks_objs)

lemma tracks_map_task:
  assumes "map_task p f s = Inr t" and "\<And>t. task_context (f t) = task_context t"
  shows "tracks s t"
proof -
  obtain ob tk where m: "k_objs s p = Some ob" "o_body ob = KTask tk" "t = kput p (ob\<lparr>o_body := KTask (f tk)\<rparr>) s"
    using map_task_result [OF assms(1)] .
  then show ?thesis using assms(2) ctx_of_Some [OF m(1,2)] by (simp add: tracks_def ctx_of_kput)
qed

lemma tracks_fold_cpus: "k_objs (fold (\<lambda>i s. if P i s then map_cpu i f s else s) xs s) = k_objs s"
  by (induction xs arbitrary: s) (simp_all add: map_cpu_def)

lemma tracks_sched_next: "sched_next po i s = Inr t \<Longrightarrow> tracks s t"
proof -
  have d: "tracks u v" if run: "sched_detach qo u = Inr v" for qo u v
  proof (cases qo)
    case (Some q)
    then obtain w where "map_task q (\<lambda>t. t\<lparr>time_end := k_tick u\<rparr>) u = Inr w" "k_objs v = k_objs w"
      using run by (auto simp: sched_detach_def sbind_Inr_iff tracks_fold_cpus)
    then show ?thesis using tracks_map_task tracks_objs tracks_trans by fastforce
  qed (use run tracks_refl in \<open>simp add: sched_detach_def\<close>)
  have a: "tracks u v" if run: "sched_attach qo i u = Inr v" for qo u v
  proof (cases qo)
    case (Some q)
    then obtain w where "map_task q (\<lambda>t. t\<lparr>time_start := k_tick u\<rparr>) u = Inr w" "k_objs v = k_objs w"
      using run by (auto simp: sched_attach_def sbind_Inr_iff map_cpu_def)
    then show ?thesis using tracks_map_task tracks_objs tracks_trans by fastforce
  qed (use run tracks_refl in \<open>simp add: sched_attach_def\<close>)
  assume "sched_next po i s = Inr t"
  then obtain u where "sched_detach (cpu_next (k_cpus s ! i)) s = Inr u" "sched_attach po i u = Inr t"
    by (auto simp: sched_next_def sbind_Inr_iff)
  then show ?thesis using d a tracks_trans by blast
qed

lemma tracks_dispatch_loop: "sched_dispatch_loop turns s = Inr t \<Longrightarrow> tracks s t"
proof (induction turns arbitrary: s)
  case (Suc turns)
  then obtain po found u where h: "sched_dispatch po s = Inr (found, u)" "if found then sched_dispatch_loop turns u = Inr t else t = u"
    by (auto simp: sbind_Inr_iff split: if_splits)
  have "tracks s u" using sched_dispatch_result [OF h(1)] tracks_sched_next tracks_refl by blast
  then show ?case using h(2) Suc.IH tracks_trans by (auto split: if_splits)
qed simp

lemma tracks_update_task: "sched_update_task p s = Inr t \<Longrightarrow> tracks s t"
proof -
  assume run: "sched_update_task p s = Inr t"
  have "t = s \<or> (\<exists>bl x b u f. run_blocker bl s = Inr (x, b, u) \<and> map_task p f u = Inr t \<and> (\<forall>t. task_context (f t) = task_context t))"
    using run by (fastforce simp: sched_update_task_def sbind_Inr_iff Let_def split: if_splits)
  then show ?thesis using tr.R_run_blocker tracks_map_task tracks_trans tracks_refl by blast
qed

lemma tracks_schedule:
  assumes "sched_schedule s = Inr t"
  shows "tracks s t"
proof -
  let ?s = "s\<lparr>k_tick := k_tick s + 1\<rparr>"
  obtain s1 s2 s3 where h: "for_each sched_update_task (k_tasks ?s) ?s = Inr s1"
    "for_each sched_update_cpu [0..<length (k_cpus s1)] s1 = Inr s2"
    "sched_dispatch_loop (length (k_tasks s2) + 1) s2 = Inr s3" "t = sched_switch_other s3"
    using assms by (auto simp: sched_schedule_def sched_updated_blocked_def sbind_Inr_iff Let_def)
  have "tracks s ?s" by (rule tracks_objs) simp
  moreover have "tracks ?s s1" using tr.R_for_each [OF h(1)] tracks_update_task by blast
  moreover have "tracks s1 s2"
    by (rule tr.R_for_each [OF h(2)])
      (auto simp: sched_update_cpu_def sbind_Inr_iff tracks_refl split: if_splits dest: tracks_sched_next)
  moreover have "tracks s2 s3" by (rule tracks_dispatch_loop [OF h(3)])
  moreover have "tracks s3 t" using h(4) by (intro tracks_objs) (simp add: sched_switch_other_def)
  ultimately show ?thesis using tracks_trans by blast
qed

text \<open>Triggering an event changes bindings and channels only.\<close>

lemma event_trigger_frame:
  assumes "event_trigger y e s = Inr t"
  shows "k_objs t = k_objs s \<and> k_cpus t = k_cpus s \<and> k_self t = k_self s"
proof -
  have d: "k_objs v = k_objs u \<and> k_cpus v = k_cpus u \<and> k_self v = k_self u" if "event_dispatch y p e u = Inr (res, v)" for p res u v
    using that by (auto simp: event_dispatch_def channel_send_def channel_send_non_blocking_def channel_send_unlock_def
      parcel_pack_def get_channel_def put_channel_def sbind_Inr_iff Let_def BR_IPC_SEND_def BR_IPC_BLOCK_def
      split: if_splits option.splits)
  have b: "k_objs v = k_objs u \<and> k_cpus v = k_cpus u \<and> k_self v = k_self u" if "event_trigger_binding y e i u = Inr v" for i u v
  proof -
    have "v = u \<or> (\<exists>p res w. event_dispatch y p e (set_ack i False u) = Inr (res, w) \<and> (v = set_ack i False w \<or> v = w))"
      using that unfolding event_trigger_binding_def Let_def by (fastforce simp: sbind_Inr_iff split: if_splits)
    then show ?thesis
    proof (elim disjE exE conjE)
      fix p res w assume "event_dispatch y p e (set_ack i False u) = Inr (res, w)" "v = set_ack i False w"
      with d [OF this(1)] show ?thesis by (simp add: set_ack_def)
    next
      fix p res w assume "event_dispatch y p e (set_ack i False u) = Inr (res, w)" "v = w"
      with d [OF this(1)] show ?thesis by (simp add: set_ack_def)
    qed simp
  qed
  show ?thesis
    by (rule for_each_invariant [OF assms [unfolded event_trigger_def], where P = "\<lambda>u. k_objs u = k_objs s \<and> k_cpus u = k_cpus s \<and> k_self u = k_self s"])
      (simp, drule b, simp)
qed

section \<open>Theorems\<close>

lemma save_current_result:
  assumes "save_current m s = Inr t" and "task_self s = Inr p"
  shows "ctx_of t q = (if q = p then map_option (\<lambda>c. context_save c m) (ctx_of s p) else ctx_of s q)" "k_cpus t = k_cpus s" "k_self t = k_self s"
proof -
  have "map_task p (\<lambda>t. t\<lparr>task_context := context_save (task_context t) m\<rparr>) s = Inr t" using assms by (simp add: save_current_def)
  then obtain ob tk where o: "k_objs s p = Some ob" "o_body ob = KTask tk"
    "t = kput p (ob\<lparr>o_body := KTask (tk\<lparr>task_context := context_save (task_context tk) m\<rparr>)\<rparr>) s"
    by (rule map_task_result)
  show "ctx_of t q = (if q = p then map_option (\<lambda>c. context_save c m) (ctx_of s p) else ctx_of s q)"
    using o ctx_of_Some [OF o(1,2)] by (simp add: ctx_of_kput)
  show "k_cpus t = k_cpus s" "k_self t = k_self s" using o(3) by (simp_all add: kput_def)
qed

lemma load_current_result:
  assumes "load_current m s = Inr (m', t)"
  shows "\<exists>q c sp. task_self t = Inr q \<and> ctx_of t q = Some c \<and> m' = context_load q c m \<and> k_objs t = k_objs s \<and>
    vmm_cr3 (k_vmm t) = mmap_io_to_phys (space_vmm sp) \<and> sbind (get_task q t) (\<lambda>tk. get_space (task_space tk) t) = Inr sp"
proof -
  obtain q tk sp where h: "task_self s = Inr q" "get_task q s = Inr tk" "get_space (task_space tk) s = Inr sp"
    "m' = context_load q (task_context tk) m" "t = s\<lparr>k_vmm := vmm_space_switch (space_vmm sp) (k_vmm s)\<rparr>"
    using assms by (auto simp: load_current_def space_switch_def sbind_Inr_iff Let_def)
  have "task_self t = Inr q" using h(1,5) by (simp add: task_self_def cpu_self_def split: if_splits)
  moreover have "get_task q t = Inr tk" "get_space (task_space tk) t = Inr sp"
    using h by (simp_all add: get_task_def get_space_def kget_def)
  ultimately show ?thesis using h by (intro exI [of _ q] exI [of _ "task_context tk"] exI [of _ sp]) (simp add: ctx_of_def vmm_space_switch_def)
qed

text \<open>
  C11. A context switch loses nothing. When a timer interrupt or a rescheduling request returns, the
  processor runs some task with exactly the registers and vector state of that task's context, with
  its address space active and its context ready for system calls. The interrupted task's context
  holds exactly the registers and vector state it was interrupted with, and no other context
  changed, whatever the scheduler and the tasks it woke up did; in particular, a task that is not
  switched away continues with its own registers.
\<close>

theorem interrupt_switches_context:
  assumes run: "interrupt_handler y m s = Inr (Some (m', t))" and n: "reg_int_no (m_regs m) = 32 \<or> reg_int_no (m_regs m) = IPI_RESCHED"
    and p: "task_self s = Inr p"
  shows "\<exists>q c sp. task_self t = Inr q \<and> ctx_of t q = Some c \<and> m_regs m' = ctx_regs c \<and> m_simd m' = ctx_simd c \<and> m_gs m' = Some q \<and>
    sbind (get_task q t) (\<lambda>tk. get_space (task_space tk) t) = Inr sp \<and> vmm_cr3 (k_vmm t) = mmap_io_to_phys (space_vmm sp) \<and>
    (\<forall>r c. ctx_of t r = Some c \<longrightarrow> (if r = p then ctx_regs c = m_regs m \<and> ctx_simd c = m_simd m else ctx_of s r = Some c)) \<and>
    (q = p \<longrightarrow> m_regs m' = m_regs m \<and> m_simd m' = m_simd m)"
proof -
  let ?n = "reg_int_no (m_regs m)"
  let ?e = "\<lparr>ev_type = BR_EVENT_IRQ, ev_irq = ucast (?n - 32)\<rparr> :: br_event"
  obtain c0 s1 s2 s3 m1 s4 c1 where h: "if ?n \<ge> 32 \<and> ?n \<le> 48 then event_trigger y ?e s = Inr s1 else s1 = s"
    "save_current (m\<lparr>m_irq := c0\<rparr>) s1 = Inr s2" "if ?n = 32 then sched_schedule s2 = Inr s3 else s3 = s2"
    "load_current (m\<lparr>m_irq := c0\<rparr>) (sched_switch s3) = Inr (m1, t)" "m' = m1\<lparr>m_irq := c1, m_eois := m_eois m1 + 1\<rparr>"
    using run n by (auto simp: interrupt_handler_def Let_def sbind_Inr_iff IPI_RESCHED_def split: if_splits)
  have e: "k_objs s1 = k_objs s \<and> task_self s1 = Inr p"
    using h(1) p event_trigger_frame [of y ?e s s1] by (auto simp: task_self_def cpu_self_def split: if_splits)
  have c: "ctx_of s1 r = ctx_of s r" for r using e by (intro ctx_of_cong) simp
  note sv = save_current_result [OF h(2), of p]
  have "tracks s2 s3" using h(3) tracks_schedule tracks_refl by (auto split: if_splits)
  moreover have "tracks s3 (sched_switch s3)" by (intro tracks_objs) (simp add: sched_switch_def map_cpu_def)
  moreover obtain q c sp where l: "task_self t = Inr q" "ctx_of t q = Some c" "m1 = context_load q c (m\<lparr>m_irq := c0\<rparr>)" "k_objs t = k_objs (sched_switch s3)"
    "vmm_cr3 (k_vmm t) = mmap_io_to_phys (space_vmm sp)" "sbind (get_task q t) (\<lambda>tk. get_space (task_space tk) t) = Inr sp"
    using load_current_result [OF h(4)] by blast
  moreover have "tracks (sched_switch s3) t" using l(4) by (rule tracks_objs)
  ultimately have tr: "tracks s2 t" using tracks_trans by blast
  have ctx: "if r = p then ctx_regs d = m_regs m \<and> ctx_simd d = m_simd m else ctx_of s r = Some d" if "ctx_of t r = Some d" for r d
  proof -
    have "ctx_of s2 r = Some d" using tr that by (simp add: tracks_def)
    then show ?thesis using sv(1) [of r] e c [of r] by (auto simp: context_save_def split: if_splits)
  qed
  have out: "m_regs m' = ctx_regs c" "m_simd m' = ctx_simd c" "m_gs m' = Some q" using h(5) l(3) by (simp_all add: context_load_def)
  have "q = p \<longrightarrow> m_regs m' = m_regs m \<and> m_simd m' = m_simd m" using ctx [OF l(2)] out by simp
  then show ?thesis using l(1,2,5,6) ctx out by blast
qed

theorem interrupt_switches_context_witness:
  "\<exists>m s m' t. interrupt_handler Inr m s = Inr (Some (m', t)) \<and> reg_int_no (m_regs m) = 32 \<and> task_self t = Inr 3 \<and> m_regs m' = m_regs m"
proof -
  let ?m = "\<lparr>m_regs = zero_regs\<lparr>reg_int_no := 32, reg_rip := 0x401000\<rparr>, m_simd = SimdSaved [], m_gs = None,
    m_irq = \<lparr>retain_enable = True, retain_depth = 0, irq_on = False\<rparr>, m_eois = 0\<rparr>"
  have "map_sum id (map_option (\<lambda>(m, s). map_sum id id (task_self s))) (interrupt_handler Inr ?m kst_example) = Inr (Some (Inr 3))"
    by code_simp
  then obtain m' t where r: "interrupt_handler Inr ?m kst_example = Inr (Some (m', t))" and q: "task_self t = Inr 3"
    by (cases "interrupt_handler Inr ?m kst_example") (auto simp: sum.map_id0 map_sum.id)
  from interrupt_switches_context [OF r _ kst_example_self(1)] q have "m_regs m' = m_regs ?m" by auto
  with r q show ?thesis by fastforce
qed

end
