(* ===== verification/Hashes.thy ===== *)
theory Hashes
  imports Prelude
begin

text \<open>
  The hash functions of \<open>brutal-hash\<close>: FNV (\<open>fnv.c\<close>), Adler-32 (\<open>adler32.c\<close>) and CRC-32 (\<open>crc32.c\<close>),
  at the width of the C integers. The streaming variants pass their bytes on to a writer or take
  them from a reader, which are arguments of the model.
\<close>

section \<open>fnv.c\<close>

definition FNV1_32_INIT :: u32 where
  "FNV1_32_INIT = 0x811c9dc5"

definition FNV_32_PRIME :: u32 where
  "FNV_32_PRIME = 0x01000193"

definition FNV1_64_INIT :: u64 where
  "FNV1_64_INIT = 0xcbf29ce484222325"

definition FNV_64_PRIME :: u64 where
  "FNV_64_PRIME = 0x100000001b3"

fun fnv_32 :: "u8 list \<Rightarrow> u32 \<Rightarrow> u32" where
  "fnv_32 [] hval = hval"
| "fnv_32 (b # bs) hval = fnv_32 bs ((hval * FNV_32_PRIME) XOR ucast b)"

fun fnv_32a :: "u8 list \<Rightarrow> u32 \<Rightarrow> u32" where
  "fnv_32a [] hval = hval"
| "fnv_32a (b # bs) hval = fnv_32a bs ((hval XOR ucast b) * FNV_32_PRIME)"

fun fnv_64 :: "u8 list \<Rightarrow> u64 \<Rightarrow> u64" where
  "fnv_64 [] hval = hval"
| "fnv_64 (b # bs) hval = fnv_64 bs ((hval * FNV_64_PRIME) XOR ucast b)"

fun fnv_64a :: "u8 list \<Rightarrow> u64 \<Rightarrow> u64" where
  "fnv_64a [] hval = hval"
| "fnv_64a (b # bs) hval = fnv_64a bs ((hval XOR ucast b) * FNV_64_PRIME)"

section \<open>adler32.c\<close>

definition A32_BASE :: u32 where
  "A32_BASE = 65521"

record adler32_state =
  a32_s1 :: u32
  a32_s2 :: u32

definition adler32_init :: adler32_state where
  "adler32_init = \<lparr>a32_s1 = 1, a32_s2 = 0\<rparr>"

definition adler32_step :: "u8 \<Rightarrow> adler32_state \<Rightarrow> adler32_state" where
  "adler32_step b self =
     (let self = self\<lparr>a32_s1 := (a32_s1 self + ucast b) mod A32_BASE\<rparr> in
      self\<lparr>a32_s2 := (a32_s2 self + a32_s1 self) mod A32_BASE\<rparr>)"

definition adler32_write_impl :: "(u8 list \<Rightarrow> 'r) \<Rightarrow> u8 list \<Rightarrow> adler32_state \<Rightarrow> 'r \<times> adler32_state" where
  "adler32_write_impl io_write data self = (io_write data, fold adler32_step data self)"

definition adler32_get :: "adler32_state \<Rightarrow> u32" where
  "adler32_get self = push_bit 16 (a32_s2 self) OR a32_s1 self"

fun adler32_loop :: "u8 list \<Rightarrow> u32 \<Rightarrow> u32 \<Rightarrow> u32 \<times> u32" where
  "adler32_loop [] s1 s2 = (s1, s2)"
| "adler32_loop (b # bs) s1 s2 =
     (let s1 = (s1 + ucast b) mod A32_BASE; s2 = (s2 + s1) mod A32_BASE in adler32_loop bs s1 s2)"

definition adler32 :: "u8 list \<Rightarrow> u32" where
  "adler32 buf = (case adler32_loop buf 1 0 of (s1, s2) \<Rightarrow> push_bit 16 s2 OR s1)"

section \<open>crc32.c\<close>

definition crc32tab :: "u32 list" where
  "crc32tab =
     [0x00000000, 0x1DB71064, 0x3B6E20C8, 0x26D930AC, 0x76DC4190,
      0x6B6B51F4, 0x4DB26158, 0x5005713C, 0xEDB88320, 0xF00F9344,
      0xD6D6A3E8, 0xCB61B38C, 0x9B64C2B0, 0x86D3D2D4, 0xA00AE278,
      0xBDBDF21C]"

record crc32_state =
  crc :: u32
  crc_count :: u64

definition crc32_init_writer :: crc32_state where
  "crc32_init_writer = \<lparr>crc = 0xFFFFFFFF, crc_count = 0\<rparr>"

definition crc32_init_reader :: crc32_state where
  "crc32_init_reader = \<lparr>crc = 0xFFFFFFFF, crc_count = 0\<rparr>"

definition crc32_nibble :: "u32 \<Rightarrow> u32" where
  "crc32_nibble c = crc32tab ! unat (c AND 0x0F) XOR drop_bit 4 c"

fun crc32_impl :: "u32 \<Rightarrow> u8 list \<Rightarrow> u32" where
  "crc32_impl c [] = c"
| "crc32_impl c (b # bs) = crc32_impl (crc32_nibble (crc32_nibble (c XOR ucast b))) bs"

definition crc32_write_impl :: "(u8 list \<Rightarrow> 'r) \<Rightarrow> u8 list \<Rightarrow> crc32_state \<Rightarrow> 'r \<times> crc32_state" where
  "crc32_write_impl io_write data self =
     (let self = self\<lparr>crc := crc32_impl (crc self) data\<rparr>;
          self = self\<lparr>crc_count := crc_count self + of_nat (length data)\<rparr>
      in (io_write data, self))"

text \<open>The reader returns the bytes it could read, or an error, on which nothing is updated.\<close>

definition crc32_read_impl :: "(nat \<Rightarrow> 'e + u8 list) \<Rightarrow> nat \<Rightarrow> crc32_state \<Rightarrow> ('e + u8 list) \<times> crc32_state" where
  "crc32_read_impl io_read n self =
     (case io_read n of
        Inl e \<Rightarrow> (Inl e, self)
      | Inr data \<Rightarrow>
          (let self = self\<lparr>crc := crc32_impl (crc self) data\<rparr>;
               self = self\<lparr>crc_count := crc_count self + of_nat (length data)\<rparr>
           in (Inr data, self)))"

definition crc32_get :: "crc32_state \<Rightarrow> u32" where
  "crc32_get self = crc self XOR 0xFFFFFFFF"

definition crc32 :: "u8 list \<Rightarrow> u32" where
  "crc32 buf = crc32_impl 0xFFFFFFFF buf XOR 0xFFFFFFFF"

section \<open>The reference CRC\<close>

text \<open>
  CRC-32 as division by the reflected polynomial \<open>0xEDB88320\<close>, one bit of the message at a time,
  the lowest bit of each byte first.
\<close>

definition crc_bit :: "u32 \<Rightarrow> u32" where
  "crc_bit c = drop_bit 1 c XOR (if bit c 0 then 0xEDB88320 else 0)"

definition crc_reference :: "u8 list \<Rightarrow> u32" where
  "crc_reference bs = fold (\<lambda>b c. (crc_bit ^^ 8) (c XOR ucast b)) bs 0xFFFFFFFF XOR 0xFFFFFFFF"

lemma crc_bit_xor: "crc_bit (a XOR b) = crc_bit a XOR crc_bit b"
  by (auto simp: crc_bit_def bit_xor_iff drop_bit_xor xor.assoc xor.left_commute)

lemma crc_bits_xor: "(crc_bit ^^ n) (a XOR b) = (crc_bit ^^ n) a XOR (crc_bit ^^ n) b"
  by (induction n) (simp_all add: crc_bit_xor)

lemma crc_bits_low:
  assumes "take_bit n c = 0"
  shows "(crc_bit ^^ n) c = drop_bit n c"
  using assms
proof (induction n arbitrary: c)
  case (Suc n)
  have "\<not> bit c 0" using Suc.prems by (metis bit_0_eq bit_take_bit_iff zero_less_Suc bot_apply bot_bool_def)
  then have b: "crc_bit c = drop_bit 1 c" by (simp add: crc_bit_def)
  have "take_bit n (drop_bit 1 c) = drop_bit 1 (take_bit (Suc n) c)" by (simp add: drop_bit_take_bit)
  with Suc b have "(crc_bit ^^ n) (crc_bit c) = drop_bit n (drop_bit 1 c)" by simp
  then show ?case by (simp add: funpow_Suc_right del: funpow.simps)
qed simp

lemma nibble_take_bit: "c AND 0xF = take_bit 4 (c :: u32)"
  by (simp add: take_bit_eq_mask mask_numeral)

lemma crc_nibble_low: "(crc_bit ^^ 4) (take_bit 4 c) = crc32tab ! unat (take_bit 4 c)"
proof -
  have tab: "list_all (\<lambda>n. (crc_bit ^^ 4) (word_of_nat n) = crc32tab ! n) [0..<16]" by code_simp
  have "unat (take_bit 4 c) < 16" using take_bit_nat_less_exp [of 4 "unat c"] by (simp add: unsigned_take_bit_eq)
  with bspec [OF tab [unfolded list_all_iff], of "unat (take_bit 4 c)"]
  have "(crc_bit ^^ 4) (word_of_nat (unat (take_bit 4 c))) = crc32tab ! unat (take_bit 4 c)" by simp
  then show ?thesis by simp
qed

lemma crc32_nibble_bits: "crc32_nibble c = (crc_bit ^^ 4) c"
proof -
  let ?hi = "push_bit 4 (drop_bit 4 c)"
  have c: "take_bit 4 c XOR ?hi = c" by (rule bit_word_eqI) (auto simp: bit_simps)
  have "(crc_bit ^^ 4) ?hi = drop_bit 4 ?hi" by (rule crc_bits_low) (simp add: take_bit_push_bit)
  moreover have "drop_bit 4 ?hi = drop_bit 4 c" by (rule bit_word_eqI) (auto simp: bit_simps dest: bit_imp_le_length)
  ultimately have "(crc_bit ^^ 4) c = crc32tab ! unat (take_bit 4 c) XOR drop_bit 4 c"
    using c crc_bits_xor [of 4 "take_bit 4 c" ?hi] crc_nibble_low by metis
  then show ?thesis by (simp add: crc32_nibble_def nibble_take_bit)
qed

lemma crc32_impl_fold: "crc32_impl c bs = fold (\<lambda>b c. (crc_bit ^^ 8) (c XOR ucast b)) bs c"
proof (induction bs arbitrary: c)
  case (Cons b bs)
  have "(crc_bit ^^ 8) x = crc32_nibble (crc32_nibble x)" for x
    using funpow_add [of 4 4 crc_bit] by (simp add: crc32_nibble_bits)
  then show ?case using Cons by simp
qed simp

lemma crc32_impl_append: "crc32_impl c (xs @ ys) = crc32_impl (crc32_impl c xs) ys"
  by (simp add: crc32_impl_fold)

lemma crc32_write_stream:
  "crc (fold (\<lambda>d s. snd (crc32_write_impl w d s)) chunks s) = crc32_impl (crc s) (concat chunks)"
  "crc_count (fold (\<lambda>d s. snd (crc32_write_impl w d s)) chunks s) = crc_count s + of_nat (length (concat chunks))"
  by (induction chunks arbitrary: s) (simp_all add: crc32_write_impl_def Let_def crc32_impl_append)

section \<open>The value of Adler-32\<close>

text \<open>The two sums over unbounded numbers, without any reduction.\<close>

fun adler_sums :: "u8 list \<Rightarrow> nat \<Rightarrow> nat \<Rightarrow> nat \<times> nat" where
  "adler_sums [] a b = (a, b)"
| "adler_sums (x # xs) a b = adler_sums xs (a + unat x) (b + (a + unat x))"

lemma a32_step:
  assumes "unat s < 65521" "unat (t :: u32) < 65521"
  shows "unat ((s + t) mod A32_BASE) = (unat s + unat t) mod 65521"
  using assms by (simp add: A32_BASE_def unat_mod unat_add_lem [THEN iffD1])

lemma adler_loop_sums:
  assumes "unat s1 = a mod 65521" "unat s2 = b mod 65521"
  shows "case adler32_loop bs s1 s2 of (t1, t2) \<Rightarrow> (case adler_sums bs a b of (x, y) \<Rightarrow>
    unat t1 = x mod 65521 \<and> unat t2 = y mod 65521)"
  using assms
proof (induction bs arbitrary: s1 s2 a b)
  case (Cons x xs)
  have "unat x < 256" using unsigned_less [of x] by simp
  then have x: "unat (ucast x :: u32) = unat x" "unat x < 65521"
    by (simp_all add: unsigned_ucast_eq take_bit_nat_eq_self_iff)
  then have 1: "unat ((s1 + ucast x) mod A32_BASE) = (a + unat x) mod 65521"
    using a32_step [of s1 "ucast x"] Cons.prems(1) x by (simp add: mod_simps)
  then have 2: "unat ((s2 + (s1 + ucast x) mod A32_BASE) mod A32_BASE) = (b + (a + unat x)) mod 65521"
    using a32_step [of s2 "(s1 + ucast x) mod A32_BASE"] Cons.prems(2) by (simp add: mod_simps)
  show ?case using Cons.IH [OF 1 2] by (simp add: Let_def)
qed simp

lemma adler32_fold_loop: "adler32_loop bs (a32_s1 s) (a32_s2 s) = (a32_s1 (fold adler32_step bs s), a32_s2 (fold adler32_step bs s))"
proof (induction bs arbitrary: s)
  case (Cons b bs)
  show ?case using Cons.IH [of "adler32_step b s"] by (simp add: adler32_step_def Let_def)
qed simp

lemma adler32_write_stream: "fold (\<lambda>d s. snd (adler32_write_impl w d s)) chunks s = fold adler32_step (concat chunks) s"
  by (induction chunks arbitrary: s) (simp_all add: adler32_write_impl_def)

section \<open>Theorems\<close>

text \<open>
  C26. The table-driven CRC is the polynomial one. For every message, and however it is cut into
  writes, \<open>crc32\<close> and the streaming writer compute the CRC-32 defined bit by bit from the polynomial,
  and the writer counts the bytes modulo $2^{64}$.
\<close>

theorem crc32_is_reference:
  "crc32 (concat chunks) = crc_reference (concat chunks) \<and>
   crc32_get (fold (\<lambda>d s. snd (crc32_write_impl w d s)) chunks crc32_init_writer) = crc_reference (concat chunks) \<and>
   crc_count (fold (\<lambda>d s. snd (crc32_write_impl w d s)) chunks crc32_init_writer) = of_nat (length (concat chunks))"
  by (simp add: crc32_def crc_reference_def crc32_impl_fold crc32_get_def crc32_write_stream crc32_init_writer_def)

text \<open>
  Adler-32 never wraps around. At 32 bits the two sums of \<open>adler32\<close> are the exact ones reduced
  modulo 65521, so both fit their half of the result, and the streaming writer ends with the same
  value however the message is cut.
\<close>

theorem adler32_exact:
  "\<exists>t1 t2. adler32 (concat chunks) = push_bit 16 t2 OR t1 \<and> adler32_get (fold (\<lambda>d s. snd (adler32_write_impl w d s)) chunks adler32_init) =
     adler32 (concat chunks) \<and> unat t1 = fst (adler_sums (concat chunks) 1 0) mod 65521 \<and>
     unat t2 = snd (adler_sums (concat chunks) 1 0) mod 65521 \<and> unat t1 < 65521 \<and> unat t2 < 65521"
proof -
  obtain t1 t2 where t: "adler32_loop (concat chunks) 1 0 = (t1, t2)" by fastforce
  have "unat t1 = fst (adler_sums (concat chunks) 1 0) mod 65521" "unat t2 = snd (adler_sums (concat chunks) 1 0) mod 65521"
    using adler_loop_sums [of 1 1 0 0 "concat chunks"] t by (simp_all add: case_prod_unfold)
  moreover have "adler32_get (fold (\<lambda>d s. snd (adler32_write_impl w d s)) chunks adler32_init) = push_bit 16 t2 OR t1"
    using adler32_fold_loop [of "concat chunks" adler32_init] t by (simp add: adler32_write_stream adler32_get_def adler32_init_def)
  ultimately show ?thesis using t by (intro exI [of _ t1] exI [of _ t2]) (simp add: adler32_def)
qed

end
