(* ===== verification/Text.thy ===== *)
theory Text
  imports Prelude
begin

text \<open>
  Characters and strings: \<open>stdc-ansi/ctype.c\<close>, the string functions of \<open>brutal-base/str.h\<close> and
  \<open>brutal-text/str.c\<close>, and UTF-8 (\<open>brutal-text/utf8.c\<close>, \<open>utf8.h\<close>). A \<open>Str\<close> is the list of its bytes; a
  character of C type \<open>int\<close> is an \<open>int\<close>, with the character constants as their ASCII codes.
\<close>

section \<open>ctype.c\<close>

definition isalnum :: "int \<Rightarrow> bool" where
  "isalnum c = (if c \<le> 122 \<and> c \<ge> 97 then True else if c \<le> 90 \<and> c \<ge> 65 then True else if c \<le> 57 \<and> c \<ge> 48 then True else False)"

definition isalpha :: "int \<Rightarrow> bool" where
  "isalpha c = (if c \<le> 122 \<and> c \<ge> 97 then True else if c \<le> 90 \<and> c \<ge> 65 then True else False)"

definition isblank :: "int \<Rightarrow> bool" where
  "isblank c = (if c = 32 \<or> c = 9 then True else False)"

definition iscntrl :: "int \<Rightarrow> bool" where
  "iscntrl c = (if c < 0x1f \<or> c = 0x7f then True else False)"

definition isdigit :: "int \<Rightarrow> bool" where
  "isdigit c = (if c \<le> 57 \<and> c \<ge> 48 then True else False)"

definition isgraph :: "int \<Rightarrow> bool" where
  "isgraph c = (if c \<ge> 0x21 \<and> c \<le> 0x7f then True else False)"

definition islower :: "int \<Rightarrow> bool" where
  "islower c = (if c \<ge> 97 \<and> c \<le> 122 then True else False)"

definition isprint :: "int \<Rightarrow> bool" where
  "isprint c = (if c \<ge> 0x20 \<and> c \<le> 0x7f then True else False)"

text \<open>
  \<open>ispunct\<close> looks at \<open>sizeof(punctuation)\<close> characters, and \<open>punctuation\<close> is a pointer: at the first
  eight only.
\<close>

definition punctuation :: "int list" where
  "punctuation = [33, 34, 35, 36, 37, 38, 39, 40, 41, 42, 43, 44, 45, 46, 47, 58, 59, 60, 61, 62, 63, 64, 32, 91, 92, 93, 94, 95, 96,
     123, 124, 125, 126, 0]"

definition sizeof_pointer :: nat where
  "sizeof_pointer = 8"

definition ispunct :: "int \<Rightarrow> bool" where
  "ispunct c = list_ex (\<lambda>i. punctuation ! i = c) [0..<sizeof_pointer]"

definition isspace :: "int \<Rightarrow> bool" where
  "isspace c = (if c = 32 \<or> c = 10 \<or> c = 13 \<or> c = 9 \<or> c = 11 then True else False)"

definition isupper :: "int \<Rightarrow> bool" where
  "isupper c = (if c \<ge> 65 \<and> c \<le> 90 then True else False)"

definition isxdigit :: "int \<Rightarrow> bool" where
  "isxdigit c = (if isdigit c then True else if c \<le> 70 \<and> c \<ge> 65 then True else if c \<le> 102 \<and> c \<ge> 97 then True else False)"

definition tolower :: "int \<Rightarrow> int" where
  "tolower c = (if c \<ge> 65 \<and> c \<le> 90 then c - 65 + 97 else c)"

definition toupper :: "int \<Rightarrow> int" where
  "toupper c = (if c \<ge> 97 \<and> c \<le> 122 then c - 97 + 65 else c)"

section \<open>Strings\<close>

type_synonym str = "u8 list"

definition str_empty :: "str \<Rightarrow> bool" where
  "str_empty s = (length s = 0)"

definition str_any :: "str \<Rightarrow> bool" where
  "str_any s = (length s \<noteq> 0)"

fun all_from :: "(nat \<Rightarrow> bool) \<Rightarrow> nat \<Rightarrow> nat \<Rightarrow> bool" where
  "all_from P i 0 = True"
| "all_from P i (Suc n) = (if \<not> P i then False else all_from P (i + 1) n)"

definition str_eq :: "str \<Rightarrow> str \<Rightarrow> bool" where
  "str_eq lhs rhs =
     (if length lhs \<noteq> length rhs then False else all_from (\<lambda>i. lhs ! i = rhs ! i) 0 (length lhs))"

definition str_sub :: "str \<Rightarrow> nat \<Rightarrow> nat \<Rightarrow> str" where
  "str_sub s from to = take (to - from) (drop from s)"

definition str_concat :: "str \<Rightarrow> str \<Rightarrow> str" where
  "str_concat lhs rhs = lhs @ rhs"

definition str_dup :: "str \<Rightarrow> str" where
  "str_dup s = (if str_empty s then [] else s)"

definition str_eq_ci :: "str \<Rightarrow> str \<Rightarrow> bool" where
  "str_eq_ci lhs rhs =
     (if length lhs \<noteq> length rhs then False
      else all_from (\<lambda>i. tolower (uint (lhs ! i)) = tolower (uint (rhs ! i))) 0 (length lhs))"

definition str_count :: "str \<Rightarrow> str \<Rightarrow> int" where
  "str_count haystack needle =
     (if length haystack < length needle then 0
      else fold (\<lambda>i count. if str_eq (take (length needle) (drop i haystack)) needle then count + 1 else count)
             [0..<length haystack - length needle] 0)"

definition str_count_chr :: "str \<Rightarrow> u8 \<Rightarrow> int" where
  "str_count_chr s chr = fold (\<lambda>i result. if s ! i = chr then result + 1 else result) [0..<length s] 0"

definition str_last :: "str \<Rightarrow> str \<Rightarrow> int" where
  "str_last l r =
     (if length l < length r then 0
      else fold (\<lambda>i pos. if str_eq (take (length r) (drop i l)) r then int i else pos) [0..<length l - length r] (- 1))"

definition str_last_chr :: "str \<Rightarrow> u8 \<Rightarrow> int" where
  "str_last_chr s chr = fold (\<lambda>i result. if s ! i = chr then int i else result) [0..<length s] (- 1)"

fun first_from :: "(nat \<Rightarrow> bool) \<Rightarrow> nat \<Rightarrow> nat \<Rightarrow> int" where
  "first_from P i 0 = - 1"
| "first_from P i (Suc n) = (if P i then int i else first_from P (i + 1) n)"

definition str_first :: "str \<Rightarrow> str \<Rightarrow> int" where
  "str_first l r =
     (if length l < length r then - 1
      else first_from (\<lambda>i. str_eq (take (length r) (drop i l)) r) 0 (length l - length r + 1))"

definition str_first_chr :: "str \<Rightarrow> u8 \<Rightarrow> int" where
  "str_first_chr s chr = first_from (\<lambda>i. s ! i = chr) 0 (length s)"

section \<open>utf8.c\<close>

type_synonym rune = u32

definition utf8_from_rune :: "rune \<Rightarrow> str" where
  "utf8_from_rune rune =
     (if rune \<le> 0x7F then [ucast rune]
      else if rune \<le> 0x07FF then
        [ucast ((drop_bit 6 rune AND 0x1F) OR 0xC0),
         ucast ((drop_bit 0 rune AND 0x3F) OR 0x80)]
      else if rune \<le> 0xFFFF then
        [ucast ((drop_bit 12 rune AND 0x0F) OR 0xE0),
         ucast ((drop_bit 6 rune AND 0x3F) OR 0x80),
         ucast ((drop_bit 0 rune AND 0x3F) OR 0x80)]
      else if rune \<le> 0x10FFFF then
        [ucast ((drop_bit 18 rune AND 0x07) OR 0xF0),
         ucast ((drop_bit 12 rune AND 0x3F) OR 0x80),
         ucast ((drop_bit 6 rune AND 0x3F) OR 0x80),
         ucast ((drop_bit 0 rune AND 0x3F) OR 0x80)]
      else [0xEF, 0xBF, 0xBD])"

definition utf8_rune_len :: "rune \<Rightarrow> nat" where
  "utf8_rune_len rune =
     (if rune \<le> 0x7F then 1
      else if rune \<le> 0x07FF then 2
      else if rune \<le> 0xFFFF then 3
      else if rune \<le> 0x10FFFF then 4
      else 0)"

definition utf8_byte_len :: "u8 \<Rightarrow> nat" where
  "utf8_byte_len first =
     (if first AND 0xf8 = 0xf0 then 4
      else if first AND 0xf0 = 0xe0 then 3
      else if first AND 0xe0 = 0xc0 then 2
      else 1)"

definition utf8_valid :: "str \<Rightarrow> bool" where
  "utf8_valid s = (\<not> str_empty s \<and> length s \<ge> utf8_byte_len (s ! 0))"

definition utf8_to_rune :: "str \<Rightarrow> rune" where
  "utf8_to_rune s =
     (if \<not> utf8_valid s then 0xFFFD
      else if s ! 0 AND 0xf8 = 0xf0 then
        push_bit 18 (ucast (0x07 AND s ! 0)) OR push_bit 12 (ucast (0x3f AND s ! 1)) OR
        push_bit 6 (ucast (0x3f AND s ! 2)) OR ucast (0x3f AND s ! 3)
      else if s ! 0 AND 0xf0 = 0xe0 then
        push_bit 12 (ucast (0x0f AND s ! 0)) OR push_bit 6 (ucast (0x3f AND s ! 1)) OR ucast (0x3f AND s ! 2)
      else if s ! 0 AND 0xe0 = 0xc0 then
        push_bit 6 (ucast (0x1f AND s ! 0)) OR ucast (0x3f AND s ! 1)
      else ucast (s ! 0))"

definition uft8_next_rune :: "str \<Rightarrow> (rune \<times> str) option" where
  "uft8_next_rune s =
     (if \<not> utf8_valid s then None
      else let len = utf8_byte_len (s ! 0) in Some (utf8_to_rune s, drop len s))"

text \<open>\<open>utf8.h\<close>: the decoder that is fed one byte at a time has room for five bytes.\<close>

record utf8_decoder =
  dec_len :: nat
  dec_buffer :: "u8 list"

definition utf8_decode :: "utf8_decoder \<Rightarrow> u8 \<Rightarrow> fault + (rune option \<times> utf8_decoder)" where
  "utf8_decode self byte =
     (if dec_len self \<ge> 5 then Inl OutOfBounds
      else
        let self = self\<lparr>dec_buffer := (dec_buffer self)[dec_len self := byte], dec_len := dec_len self + 1\<rparr> in
        if utf8_byte_len (dec_buffer self ! 0) = dec_len self
        then Inr (Some (utf8_to_rune (take (dec_len self) (dec_buffer self))), self)
        else Inr (None, self))"

section \<open>What the loops compute\<close>

lemma all_from_iff: "all_from P i n \<longleftrightarrow> (\<forall>k < n. P (i + k))"
  by (induction n arbitrary: i) (auto simp: less_Suc_eq_0_disj)

lemma str_eq_iff [simp]: "str_eq lhs rhs \<longleftrightarrow> lhs = rhs"
  by (auto simp: str_eq_def all_from_iff intro: nth_equalityI)

lemma first_from_spec:
  "(first_from P i n = - 1 \<and> (\<forall>k < n. \<not> P (i + k))) \<or> (\<exists>k < n. first_from P i n = int (i + k) \<and> P (i + k) \<and> (\<forall>j < k. \<not> P (i + j)))"
proof (induction n arbitrary: i)
  case (Suc n)
  show ?case
  proof (cases "P i")
    case True
    then show ?thesis by (intro disjI2 exI [of _ 0]) simp
  next
    case False
    from Suc [of "i + 1"] show ?thesis
    proof
      assume "first_from P (i + 1) n = - 1 \<and> (\<forall>k < n. \<not> P (i + 1 + k))"
      with False show ?thesis by (auto simp: less_Suc_eq_0_disj)
    next
      assume "\<exists>k < n. first_from P (i + 1) n = int (i + 1 + k) \<and> P (i + 1 + k) \<and> (\<forall>j < k. \<not> P (i + 1 + j))"
      then obtain k where "k < n" "first_from P (i + 1) n = int (i + 1 + k)" "P (i + 1 + k)" "\<forall>j < k. \<not> P (i + 1 + j)" by blast
      with False show ?thesis by (intro disjI2 exI [of _ "Suc k"]) (auto simp: less_Suc_eq_0_disj)
    qed
  qed
qed simp

definition occurs_at :: "str \<Rightarrow> str \<Rightarrow> nat \<Rightarrow> bool" where
  "occurs_at r l i \<longleftrightarrow> i + length r \<le> length l \<and> take (length r) (drop i l) = r"

lemma fold_count: "fold (\<lambda>i c. if P i then c + 1 else c) xs c = c + int (length (filter P xs))"
  by (induction xs arbitrary: c) auto

section \<open>Bits of UTF-8\<close>

lemma word_small:
  fixes x :: "'a::len word"
  assumes "list_all (\<lambda>n. P (word_of_nat n :: 'a word)) [0..<m]" and "unat x < m"
  shows "P x"
  using bspec [OF assms(1) [unfolded list_all_iff], of "unat x"] assms(2) by simp

lemma unat_take_bit_less: "unat (take_bit n (x :: u32)) < 2 ^ n"
  by (simp add: unsigned_take_bit_eq)

lemma utf8_continuation: "ucast (0x3f AND (ucast (take_bit 6 x OR 0x80) :: u8)) = take_bit 6 (x :: u32)"
proof (rule word_small [where m = 64 and P = "\<lambda>y. ucast (0x3f AND (ucast (y OR 0x80) :: u8)) = y"])
  show "list_all (\<lambda>n. ucast (0x3f AND (ucast ((word_of_nat n :: u32) OR 0x80) :: u8)) = (word_of_nat n :: u32)) [0..<64]" by code_simp
qed (use unat_take_bit_less [of 6 x] in simp)

lemma utf8_lead1: "unat r < 128 \<Longrightarrow> utf8_byte_len (ucast (r :: u32)) = 1 \<and> ucast (ucast r :: u8) = r \<and>
   ucast r AND 0xf8 \<noteq> (0xf0 :: u8) \<and> ucast r AND 0xf0 \<noteq> (0xe0 :: u8) \<and> ucast r AND 0xe0 \<noteq> (0xc0 :: u8)"
  by (rule word_small [where m = 128]) code_simp

lemma utf8_lead2: "unat y < 32 \<Longrightarrow> (let b = ucast (y OR 0xC0 :: u32) :: u8 in utf8_byte_len b = 2 \<and> ucast (0x1f AND b) = y \<and>
   b AND 0xf8 \<noteq> 0xf0 \<and> b AND 0xf0 \<noteq> 0xe0 \<and> b AND 0xe0 = 0xc0)"
  by (rule word_small [where m = 32]) code_simp

lemma utf8_lead3: "unat y < 16 \<Longrightarrow> (let b = ucast (y OR 0xE0 :: u32) :: u8 in utf8_byte_len b = 3 \<and> ucast (0x0f AND b) = y \<and>
   b AND 0xf8 \<noteq> 0xf0 \<and> b AND 0xf0 = 0xe0)"
  by (rule word_small [where m = 16]) code_simp

lemma utf8_lead4: "unat y < 8 \<Longrightarrow> (let b = ucast (y OR 0xF0 :: u32) :: u8 in utf8_byte_len b = 4 \<and> ucast (0x07 AND b) = y \<and>
   b AND 0xf8 = 0xf0)"
  by (rule word_small [where m = 8]) code_simp

lemma mask_take_bit:
  "x AND 0x3F = take_bit 6 (x :: u32)" "x AND 0x1F = take_bit 5 x" "x AND 0x0F = take_bit 4 x" "x AND 0x07 = take_bit 3 x"
  by (simp_all add: take_bit_eq_mask mask_numeral)

lemma join_bits2: "push_bit 6 (take_bit 5 (drop_bit 6 r)) OR take_bit 6 r = take_bit 11 (r :: u32)"
  by (rule bit_word_eqI) (auto simp: bit_simps)

lemma join_bits3:
  "push_bit 12 (take_bit 4 (drop_bit 12 r)) OR push_bit 6 (take_bit 6 (drop_bit 6 r)) OR take_bit 6 r = take_bit 16 (r :: u32)"
proof (rule bit_word_eqI)
  fix n assume "n < LENGTH(32)"
  consider "n < 6" | "6 \<le> n" "n < 12" | "12 \<le> n" by linarith
  then show "bit (push_bit 12 (take_bit 4 (drop_bit 12 r)) OR push_bit 6 (take_bit 6 (drop_bit 6 r)) OR take_bit 6 r) n = bit (take_bit 16 r) n"
    by cases (auto simp: bit_simps)
qed

lemma join_bits4:
  "push_bit 18 (take_bit 3 (drop_bit 18 r)) OR push_bit 12 (take_bit 6 (drop_bit 12 r)) OR
     push_bit 6 (take_bit 6 (drop_bit 6 r)) OR take_bit 6 r = take_bit 21 (r :: u32)"
proof (rule bit_word_eqI)
  fix n assume "n < LENGTH(32)"
  consider "n < 6" | "6 \<le> n" "n < 12" | "12 \<le> n" "n < 18" | "18 \<le> n" by linarith
  then show "bit (push_bit 18 (take_bit 3 (drop_bit 18 r)) OR push_bit 12 (take_bit 6 (drop_bit 12 r)) OR
     push_bit 6 (take_bit 6 (drop_bit 6 r)) OR take_bit 6 r) n = bit (take_bit 21 r) n"
    by cases (auto simp: bit_simps)
qed

lemmas join_bits = join_bits2 join_bits3 join_bits4

lemma small_take_bit: "unat r < 2 ^ n \<Longrightarrow> take_bit n (r :: u32) = r"
  by (rule word_unat_eq_iff [THEN iffD2]) (simp add: unsigned_take_bit_eq take_bit_nat_eq_self)

lemma utf8_decode_encode:
  assumes "r \<le> 0x10FFFF"
  shows "utf8_byte_len ((utf8_from_rune r @ rest) ! 0) = length (utf8_from_rune r) \<and> utf8_to_rune (utf8_from_rune r @ rest) = r"
proof -
  consider "r \<le> 0x7F" | "\<not> r \<le> 0x7F" "r \<le> 0x7FF" | "\<not> r \<le> 0x7F" "\<not> r \<le> 0x7FF" "r \<le> 0xFFFF"
    | "\<not> r \<le> 0x7F" "\<not> r \<le> 0x7FF" "\<not> r \<le> 0xFFFF" by blast
  then show ?thesis
  proof cases
    case 1
    then have "unat r < 128" by (simp add: word_le_nat_alt)
    from utf8_lead1 [OF this] 1 show ?thesis by (simp add: utf8_from_rune_def utf8_to_rune_def utf8_valid_def str_empty_def)
  next
    case 2
    then have "take_bit 11 r = r" by (intro small_take_bit) (simp add: word_le_nat_alt)
    moreover have "unat (take_bit 5 (drop_bit 6 r)) < 32" using unat_take_bit_less [of 5 "drop_bit 6 r"] by simp
    from utf8_lead2 [OF this] have L: "utf8_byte_len (ucast (take_bit 5 (drop_bit 6 r) OR 0xC0)) = 2"
      "ucast (0x1f AND (ucast (take_bit 5 (drop_bit 6 r) OR 0xC0) :: u8)) = take_bit 5 (drop_bit 6 r)"
      "(ucast (take_bit 5 (drop_bit 6 r) OR 0xC0) :: u8) AND 0xf8 \<noteq> 0xf0" "(ucast (take_bit 5 (drop_bit 6 r) OR 0xC0) :: u8) AND 0xf0 \<noteq> 0xe0"
      "(ucast (take_bit 5 (drop_bit 6 r) OR 0xC0) :: u8) AND 0xe0 = 0xc0" by (simp_all add: Let_def)
    ultimately show ?thesis using 2 join_bits(1) [of r] utf8_continuation [of r]
      by (simp add: utf8_from_rune_def utf8_to_rune_def utf8_valid_def str_empty_def mask_take_bit)
  next
    case 3
    then have "take_bit 16 r = r" by (intro small_take_bit) (simp add: word_le_nat_alt)
    moreover have "unat (take_bit 4 (drop_bit 12 r)) < 16" using unat_take_bit_less [of 4 "drop_bit 12 r"] by simp
    from utf8_lead3 [OF this] have L: "utf8_byte_len (ucast (take_bit 4 (drop_bit 12 r) OR 0xE0)) = 3"
      "ucast (0x0f AND (ucast (take_bit 4 (drop_bit 12 r) OR 0xE0) :: u8)) = take_bit 4 (drop_bit 12 r)"
      "(ucast (take_bit 4 (drop_bit 12 r) OR 0xE0) :: u8) AND 0xf8 \<noteq> 0xf0" "(ucast (take_bit 4 (drop_bit 12 r) OR 0xE0) :: u8) AND 0xf0 = 0xe0"
      by (simp_all add: Let_def)
    ultimately show ?thesis using 3 join_bits(2) [of r] utf8_continuation [of r] utf8_continuation [of "drop_bit 6 r"]
      by (simp add: utf8_from_rune_def utf8_to_rune_def utf8_valid_def str_empty_def mask_take_bit)
  next
    case 4
    then have "take_bit 21 r = r" using assms by (intro small_take_bit) (simp add: word_le_nat_alt)
    moreover have "unat (take_bit 3 (drop_bit 18 r)) < 8" using unat_take_bit_less [of 3 "drop_bit 18 r"] by simp
    from utf8_lead4 [OF this] have L: "utf8_byte_len (ucast (take_bit 3 (drop_bit 18 r) OR 0xF0)) = 4"
      "ucast (0x07 AND (ucast (take_bit 3 (drop_bit 18 r) OR 0xF0) :: u8)) = take_bit 3 (drop_bit 18 r)"
      "(ucast (take_bit 3 (drop_bit 18 r) OR 0xF0) :: u8) AND 0xf8 = 0xf0" by (simp_all add: Let_def)
    ultimately show ?thesis
      using 4 assms join_bits(3) [of r] utf8_continuation [of r] utf8_continuation [of "drop_bit 6 r"] utf8_continuation [of "drop_bit 12 r"]
      by (simp add: utf8_from_rune_def utf8_to_rune_def utf8_valid_def str_empty_def mask_take_bit)
  qed
qed


lemma utf8_from_rune_len: "r \<le> 0x10FFFF \<Longrightarrow> length (utf8_from_rune r) = utf8_rune_len r"
  by (simp add: utf8_from_rune_def utf8_rune_len_def)

lemma uft8_next_rune_encode: "r \<le> 0x10FFFF \<Longrightarrow> uft8_next_rune (utf8_from_rune r @ rest) = Some (r, rest)"
proof -
  assume r: "r \<le> 0x10FFFF"
  have "utf8_from_rune r \<noteq> []" by (simp add: utf8_from_rune_def)
  with utf8_decode_encode [OF r, of rest] show ?thesis
    by (simp add: uft8_next_rune_def utf8_valid_def str_empty_def Let_def)
qed

text \<open>The loop a caller of \<open>uft8_next_rune\<close> writes: read until it returns false.\<close>

function utf8_runes :: "str \<Rightarrow> rune list" where
  "utf8_runes s = (case uft8_next_rune s of None \<Rightarrow> [] | Some (r, rest) \<Rightarrow> r # utf8_runes rest)"
  by pat_completeness auto
termination
  by (relation "measure length") (auto simp: uft8_next_rune_def utf8_valid_def utf8_byte_len_def str_empty_def Let_def split: if_splits)

declare utf8_runes.simps [simp del]

section \<open>Theorems\<close>

text \<open>
  C25. UTF-8 round trip. Encoding any sequence of code points up to \<open>0x10FFFF\<close> and reading the bytes
  rune by rune with \<open>uft8_next_rune\<close> gives the sequence back and uses up all the bytes; the encoding of
  each code point is as long as \<open>utf8_rune_len\<close> says and as its first byte announces.
\<close>

theorem utf8_roundtrip:
  assumes "\<forall>r \<in> set rs. r \<le> 0x10FFFF"
  shows "utf8_runes (concat (map utf8_from_rune rs)) = rs \<and>
    (\<forall>r \<in> set rs. length (utf8_from_rune r) = utf8_rune_len r \<and> utf8_byte_len (utf8_from_rune r ! 0) = utf8_rune_len r)"
proof -
  have "utf8_runes (concat (map utf8_from_rune rs)) = rs"
    using assms
  proof (induction rs)
    case Nil
    then show ?case by (simp add: utf8_runes.simps [of "[]"] uft8_next_rune_def utf8_valid_def str_empty_def)
  next
    case (Cons r rs)
    then show ?case
      by (simp add: utf8_runes.simps [of "utf8_from_rune r @ _"] uft8_next_rune_encode)
  qed
  moreover have "utf8_byte_len (utf8_from_rune r ! 0) = utf8_rune_len r" if "r \<le> 0x10FFFF" for r
    using utf8_decode_encode [OF that, of "[]"] utf8_from_rune_len [OF that] by simp
  ultimately show ?thesis using assms utf8_from_rune_len by simp
qed

theorem utf8_roundtrip_witness:
  "utf8_runes (concat (map utf8_from_rune [0x41, 0xE9, 0x20AC, 0x1F600])) = [0x41, 0xE9, 0x20AC, 0x1F600]"
  using utf8_roundtrip [of "[0x41, 0xE9, 0x20AC, 0x1F600]"] by simp

text \<open>
  \<open>str_first\<close> is right at both ends of the string and \<open>str_count\<close> and \<open>str_last\<close> are not.
  \<open>str_first\<close> returns the position of the first occurrence, or -1 exactly when there is none.
  \<open>str_count\<close> counts the occurrences that end before the last byte, so an occurrence at the end is
  not counted; in particular every string is found in itself 0 times.
\<close>

theorem str_search:
  "(if \<exists>i. occurs_at r l i then str_first l r = int (LEAST i. occurs_at r l i) else str_first l r = - 1) \<and>
   str_count l r = int (card {i. occurs_at r l i \<and> i + length r < length l}) \<and> str_count l l = 0 \<and> str_last l l = - 1"
proof -
  have le: "\<not> length l < length r \<Longrightarrow> take (length r) (drop i l) = r \<and> i < length l - length r + 1 \<longleftrightarrow> occurs_at r l i" for i
    by (auto simp: occurs_at_def)
  have short: "length l < length r \<Longrightarrow> \<not> occurs_at r l i" for i by (simp add: occurs_at_def)
  have "if \<exists>i. occurs_at r l i then str_first l r = int (LEAST i. occurs_at r l i) else str_first l r = - 1"
  proof (cases "length l < length r")
    case True
    then show ?thesis using short by (simp add: str_first_def)
  next
    case False
    let ?P = "\<lambda>i. take (length r) (drop i l) = r" and ?n = "length l - length r + 1"
    have s: "str_first l r = first_from ?P 0 ?n" using False by (simp add: str_first_def del: first_from.simps)
    from first_from_spec [of ?P 0 ?n] show ?thesis
    proof
      assume "first_from ?P 0 ?n = - 1 \<and> (\<forall>k < ?n. \<not> ?P (0 + k))"
      with le [OF False] s show ?thesis by auto
    next
      assume "\<exists>k < ?n. first_from ?P 0 ?n = int (0 + k) \<and> ?P (0 + k) \<and> (\<forall>j < k. \<not> ?P (0 + j))"
      then obtain k where k: "k < ?n" "first_from ?P 0 ?n = int k" "?P k" "\<forall>j < k. \<not> ?P j" by auto
      have "occurs_at r l k" using k le [OF False] by blast
      moreover have "(LEAST i. occurs_at r l i) = k"
        using k le [OF False] by (intro Least_equality) (metis, metis not_le)
      ultimately show ?thesis using k s by auto
    qed
  qed
  moreover have "str_count l r = int (card {i. occurs_at r l i \<and> i + length r < length l})"
  proof (cases "length l < length r")
    case True
    then show ?thesis using short by (simp add: str_count_def)
  next
    case False
    let ?hits = "filter (\<lambda>i. take (length r) (drop i l) = r) [0..<length l - length r]"
    have "{i. occurs_at r l i \<and> i + length r < length l} = set ?hits" by (auto simp: occurs_at_def)
    moreover have "card (set ?hits) = length ?hits" by (rule distinct_card) simp
    ultimately show ?thesis using False by (simp add: str_count_def fold_count)
  qed
  ultimately show ?thesis by (simp add: str_count_def str_last_def)
qed

end
