(* ===== verification/Hash_Map.thy ===== *)
theory Hash_Map
  imports Hashes Text
begin

text \<open>
  The hash map of \<open>brutal-ds/map.c\<close>: 512 buckets, each a vector of nodes with the hash, the key and
  the data. A pointer to a node is its bucket and its position there; copying the data in and out
  of a node is storing and reading the value. Vectors are lists (theory Vec shows that vectors
  behave as such).
\<close>

section \<open>map.c\<close>

definition MAP_BUCKET_COUNT :: nat where
  "MAP_BUCKET_COUNT = 512"

record 'd mapnode =
  node_hash :: u32
  node_key :: str
  node_data :: 'd

record 'd map_impl =
  map_buckets :: "'d mapnode list list"

definition map_hash :: "str \<Rightarrow> u32" where
  "map_hash key = fnv_32 key FNV1_32_INIT"

definition map_node_create :: "str \<Rightarrow> 'd \<Rightarrow> 'd mapnode" where
  "map_node_create key data = \<lparr>node_hash = map_hash key, node_key = key, node_data = data\<rparr>"

definition map_bucket :: "u32 \<Rightarrow> nat" where
  "map_bucket hash = unat (hash mod of_nat MAP_BUCKET_COUNT)"

fun map_node_from :: "str \<Rightarrow> u32 \<Rightarrow> 'd mapnode list \<Rightarrow> nat \<Rightarrow> nat option" where
  "map_node_from key hash [] i = None"
| "map_node_from key hash (node # nodes) i =
     (if node_hash node = hash \<and> str_eq key (node_key node) then Some i
      else map_node_from key hash nodes (i + 1))"

definition map_node :: "'d map_impl \<Rightarrow> str \<Rightarrow> u32 \<Rightarrow> nat option" where
  "map_node impl key hash = map_node_from key hash (map_buckets impl ! map_bucket hash) 0"

definition map_init_impl :: "'d map_impl" where
  "map_init_impl = \<lparr>map_buckets = fold (\<lambda>_ bs. bs @ [[]]) [0..<MAP_BUCKET_COUNT] []\<rparr>"

definition map_put_impl :: "'d map_impl \<Rightarrow> str \<Rightarrow> 'd \<Rightarrow> bool \<times> 'd map_impl" where
  "map_put_impl impl key data =
     (let hash = map_hash key; b = map_bucket hash; bucket = map_buckets impl ! b in
      case map_node impl key hash of
        Some i \<Rightarrow> (True, impl\<lparr>map_buckets := (map_buckets impl)[b := bucket[i := (bucket ! i)\<lparr>node_data := data\<rparr>]]\<rparr>)
      | None \<Rightarrow> (True, impl\<lparr>map_buckets := (map_buckets impl)[b := bucket @ [map_node_create key data]]\<rparr>))"

definition map_get_impl :: "'d map_impl \<Rightarrow> str \<Rightarrow> 'd option" where
  "map_get_impl impl key =
     (let hash = map_hash key in
      case map_node impl key hash of
        Some i \<Rightarrow> Some (node_data (map_buckets impl ! map_bucket hash ! i))
      | None \<Rightarrow> None)"

text \<open>The order in which \<open>map_foreach\<close> visits the entries: bucket by bucket, each from its start.\<close>

definition map_foreach :: "'d map_impl \<Rightarrow> (str \<times> 'd) list" where
  "map_foreach impl = concat (map (map (\<lambda>node. (node_key node, node_data node))) (map_buckets impl))"

section \<open>The contract of a dictionary\<close>

locale dictionary =
  fixes valid :: "'m \<Rightarrow> bool" and empty :: 'm and put :: "'k \<Rightarrow> 'v \<Rightarrow> 'm \<Rightarrow> 'm" and get :: "'m \<Rightarrow> 'k \<Rightarrow> 'v option"
  assumes valid_empty: "valid empty" and get_empty: "get empty k = None"
    and valid_put: "valid m \<Longrightarrow> valid (put k v m)" and get_put: "valid m \<Longrightarrow> get (put k v m) k' = (if k' = k then Some v else get m k')"
begin

lemma puts: "valid m \<Longrightarrow> valid (fold (\<lambda>(k, v). put k v) kvs m) \<and> get (fold (\<lambda>(k, v). put k v) kvs m) = get m ++ map_of (rev kvs)"
proof (induction kvs arbitrary: m)
  case (Cons kv kvs)
  obtain k v where kv: "kv = (k, v)" by fastforce
  have g: "get (put k v m) = (get m)(k \<mapsto> v)" using get_put [OF Cons.prems] by (auto simp: fun_eq_iff)
  show ?case using Cons.IH [OF valid_put [OF Cons.prems, of k v], unfolded g] kv
    by (simp add: map_add_upd_left fun_upd_def [symmetric] map_add_assoc [symmetric] del: fun_upd_apply)
qed simp

lemma puts_empty: "get (fold (\<lambda>(k, v). put k v) kvs empty) = map_of (rev kvs)"
proof -
  have "get empty = (\<lambda>_. None)" using get_empty by auto
  then show ?thesis using puts [OF valid_empty] by simp
qed

end

section \<open>The hash map is a dictionary\<close>

text \<open>
  The invariant: every node is in the bucket of its hash, carries the hash of its key, and no
  bucket has a key twice.
\<close>

definition bucket_ok :: "nat \<Rightarrow> 'd mapnode list \<Rightarrow> bool" where
  "bucket_ok b ns \<longleftrightarrow> distinct (map node_key ns) \<and> (\<forall>n \<in> set ns. node_hash n = map_hash (node_key n) \<and> map_bucket (node_hash n) = b)"

definition map_inv :: "'d map_impl \<Rightarrow> bool" where
  "map_inv impl \<longleftrightarrow> length (map_buckets impl) = MAP_BUCKET_COUNT \<and> (\<forall>b < MAP_BUCKET_COUNT. bucket_ok b (map_buckets impl ! b))"

definition entry_of :: "'d mapnode \<Rightarrow> str \<times> 'd" where
  "entry_of n = (node_key n, node_data n)"

lemma map_bucket_less: "map_bucket h < MAP_BUCKET_COUNT"
proof -
  have "h mod 512 < (512 :: u32)" by (rule word_mod_less_divisor) simp
  then show ?thesis by (simp add: map_bucket_def MAP_BUCKET_COUNT_def word_less_nat_alt)
qed

lemma node_from_spec:
  assumes "bucket_ok b ns"
  shows "case map_node_from key (map_hash key) ns i of None \<Rightarrow> key \<notin> node_key ` set ns
    | Some j \<Rightarrow> i \<le> j \<and> j - i < length ns \<and> node_key (ns ! (j - i)) = key"
  using assms
proof (induction ns arbitrary: i)
  case (Cons n ns)
  have ok: "bucket_ok b ns" and h: "node_hash n = map_hash (node_key n)" using Cons.prems by (auto simp: bucket_ok_def)
  show ?case
  proof (cases "node_key n = key")
    case True
    then show ?thesis using h by simp
  next
    case False
    from Cons.IH [OF ok, of "i + 1"] show ?thesis
      using False by (cases "map_node_from key (map_hash key) ns (i + 1)") (auto simp: nth_Cons' Suc_diff_le)
  qed
qed simp

lemma map_node_cases:
  assumes inv: "map_inv m" and ns: "ns = map_buckets m ! map_bucket (map_hash key)"
  shows "(map_node m key (map_hash key) = None \<and> key \<notin> node_key ` set ns) \<or>
    (\<exists>i. map_node m key (map_hash key) = Some i \<and> i < length ns \<and> node_key (ns ! i) = key)"
proof -
  have "bucket_ok (map_bucket (map_hash key)) ns" using inv ns map_bucket_less by (auto simp: map_inv_def)
  from node_from_spec [OF this, of key 0] ns show ?thesis by (auto simp: map_node_def split: option.splits)
qed

text \<open>Reading the map is looking up the key in its bucket.\<close>

lemma map_of_nth: "distinct (map fst xs) \<Longrightarrow> i < length xs \<Longrightarrow> map_of xs (fst (xs ! i)) = Some (snd (xs ! i))"
  by (metis map_of_is_SomeI nth_mem prod.collapse)

lemma bucket_distinct: "bucket_ok b ns \<Longrightarrow> distinct (map fst (map entry_of ns))"
  by (simp add: bucket_ok_def entry_of_def comp_def)

lemma map_get_bucket:
  assumes inv: "map_inv m"
  shows "map_get_impl m key = map_of (map entry_of (map_buckets m ! map_bucket (map_hash key))) key"
proof -
  let ?ns = "map_buckets m ! map_bucket (map_hash key)"
  have ok: "bucket_ok (map_bucket (map_hash key)) ?ns" using inv map_bucket_less by (auto simp: map_inv_def)
  from map_node_cases [OF inv refl, of key] show ?thesis
  proof (elim disjE exE conjE)
    assume none: "map_node m key (map_hash key) = None" "key \<notin> node_key ` set ?ns"
    then have "map_of (map entry_of ?ns) key = None" by (force simp: map_of_eq_None_iff entry_of_def)
    with none show ?thesis by (simp add: map_get_impl_def)
  next
    fix i assume some: "map_node m key (map_hash key) = Some i" "i < length ?ns" "node_key (?ns ! i) = key"
    with map_of_nth [OF bucket_distinct [OF ok], of i] show ?thesis by (simp add: map_get_impl_def entry_of_def)
  qed
qed

lemma push_empty: "fold (\<lambda>_ bs. bs @ [[]]) [0..<n] xs = xs @ replicate n []"
  by (induction n) (simp_all add: replicate_append_same)

lemma map_inv_init: "map_inv map_init_impl"
  by (simp add: map_inv_def map_init_impl_def bucket_ok_def push_empty)

lemma map_put_bucket:
  assumes inv: "map_inv m" and ns: "ns = map_buckets m ! map_bucket (map_hash key)"
  shows "\<exists>ns'. snd (map_put_impl m key v) = m\<lparr>map_buckets := (map_buckets m)[map_bucket (map_hash key) := ns']\<rparr> \<and>
    bucket_ok (map_bucket (map_hash key)) ns' \<and> map_of (map entry_of ns') = (map_of (map entry_of ns))(key \<mapsto> v)"
proof -
  have ok: "bucket_ok (map_bucket (map_hash key)) ns" using inv ns map_bucket_less by (auto simp: map_inv_def)
  from map_node_cases [OF inv ns] show ?thesis
  proof (elim disjE exE conjE)
    assume none: "map_node m key (map_hash key) = None" "key \<notin> node_key ` set ns"
    let ?ns = "ns @ [map_node_create key v]"
    have "bucket_ok (map_bucket (map_hash key)) ?ns" using ok none by (auto simp: bucket_ok_def map_node_create_def)
    moreover have "map_of (map entry_of ns) key = None" using none by (auto simp: map_of_eq_None_iff entry_of_def)
    then have "map_of (map entry_of ?ns) = (map_of (map entry_of ns))(key \<mapsto> v)"
      by (auto simp: map_add_def fun_eq_iff entry_of_def map_node_create_def split: option.splits)
    ultimately show ?thesis using none ns by (intro exI [of _ ?ns]) (simp add: map_put_impl_def Let_def)
  next
    fix i assume some: "map_node m key (map_hash key) = Some i" "i < length ns" "node_key (ns ! i) = key"
    let ?ns = "ns[i := (ns ! i)\<lparr>node_data := v\<rparr>]"
    have keys: "map node_key ?ns = map node_key ns" using some by (simp add: map_update list_update_same_conv)
    have "bucket_ok (map_bucket (map_hash key)) ?ns"
      using ok keys some by (auto simp: bucket_ok_def dest!: set_update_subset_insert [THEN subsetD])
    moreover have "map_of (map entry_of ?ns) = (map_of (map entry_of ns))(key \<mapsto> v)"
    proof -
      have "map entry_of ?ns = (map entry_of ns)[i := (key, v)]" using some by (simp add: map_update entry_of_def)
      moreover have "map_of (xs[i := (key, v)]) = (map_of xs)(key \<mapsto> v)"
        if "distinct (map fst xs)" "i < length xs" "fst (xs ! i) = key" for xs :: "(str \<times> 'a) list"
        using that by (induction xs arbitrary: i) (auto simp: fun_eq_iff nth_Cons' split: nat.splits)
      ultimately show ?thesis using bucket_distinct [OF ok] some by (simp add: entry_of_def)
    qed
    ultimately show ?thesis using some ns by (intro exI [of _ ?ns]) (simp add: map_put_impl_def Let_def)
  qed
qed

lemma map_inv_put: "map_inv m \<Longrightarrow> map_inv (snd (map_put_impl m key v))"
proof -
  assume inv: "map_inv m"
  obtain ns' where "snd (map_put_impl m key v) = m\<lparr>map_buckets := (map_buckets m)[map_bucket (map_hash key) := ns']\<rparr>"
    "bucket_ok (map_bucket (map_hash key)) ns'" using map_put_bucket [OF inv refl, of key v] by (elim exE conjE)
  then show ?thesis using inv by (auto simp: map_inv_def nth_list_update map_bucket_less)
qed

lemma map_get_put:
  assumes inv: "map_inv m"
  shows "map_get_impl (snd (map_put_impl m key v)) k = (if k = key then Some v else map_get_impl m k)"
proof -
  let ?b = "map_bucket (map_hash key)"
  obtain ns' where p: "snd (map_put_impl m key v) = m\<lparr>map_buckets := (map_buckets m)[?b := ns']\<rparr>"
    "map_of (map entry_of ns') = (map_of (map entry_of (map_buckets m ! ?b)))(key \<mapsto> v)"
    using map_put_bucket [OF inv refl, of key v] by blast
  have "?b < length (map_buckets m)" using inv map_bucket_less by (simp add: map_inv_def)
  then show ?thesis
    using p map_get_bucket [OF map_inv_put [OF inv, of key v], of k] map_get_bucket [OF inv, of k]
    by (auto simp: nth_list_update)
qed

interpretation hm: dictionary map_inv map_init_impl "\<lambda>k v m. snd (map_put_impl m k v)" map_get_impl
proof
  show "map_get_impl map_init_impl k = None" for k :: str
    using map_bucket_less [of "map_hash k"]
    by (simp add: map_get_impl_def map_node_def map_init_impl_def push_empty Let_def)
qed (simp_all add: map_inv_init map_inv_put map_get_put)

text \<open>Going through the buckets in order finds each key in its own bucket and nowhere else.\<close>

lemma bucket_keys: "bucket_ok b ns \<Longrightarrow> e \<in> set (map entry_of ns) \<Longrightarrow> map_bucket (map_hash (fst e)) = b"
  unfolding bucket_ok_def entry_of_def by (metis (no_types, lifting) fst_conv image_iff image_set)

lemma bucket_miss: "bucket_ok b ns \<Longrightarrow> map_bucket (map_hash k) \<noteq> b \<Longrightarrow> map_of (map entry_of ns) k = None"
  using bucket_keys [of b ns] unfolding map_of_eq_None_iff by blast

lemma concat_distinct:
  assumes "\<forall>b < length bs. bucket_ok (n + b) (bs ! b)"
  shows "distinct (map fst (concat (map (map entry_of) bs))) \<and> (\<forall>e \<in> set (concat (map (map entry_of) bs)). n \<le> map_bucket (map_hash (fst e)))"
  using assms
proof (induction bs arbitrary: n)
  case (Cons ns bs)
  let ?xs = "map entry_of ns" and ?ys = "concat (map (map entry_of) bs)"
  have ok: "bucket_ok n ns" "\<forall>b < length bs. bucket_ok (Suc n + b) (bs ! b)" using Cons.prems by force+
  note IH = Cons.IH [OF ok(2)] and here = bucket_keys [OF ok(1)]
  have "fst x \<noteq> fst y" if x: "x \<in> set ?xs" and y: "y \<in> set ?ys" for x y
  proof -
    have "Suc n \<le> map_bucket (map_hash (fst y))" using IH y by blast
    then show ?thesis using here [OF x] by auto
  qed
  then have "fst ` set ?xs \<inter> fst ` set ?ys = {}" by blast
  then have "distinct (map fst (?xs @ ?ys))" using IH bucket_distinct [OF ok(1)] unfolding map_append distinct_append set_map [of fst] by blast
  moreover have "n \<le> map_bucket (map_hash (fst e))" if e: "e \<in> set (?xs @ ?ys)" for e
  proof (cases "e \<in> set ?xs")
    case False
    then have "Suc n \<le> map_bucket (map_hash (fst e))" using IH e unfolding set_append by blast
    then show ?thesis by simp
  qed (use here in simp)
  ultimately show ?case by simp
qed simp

lemma concat_lookup:
  assumes "\<forall>b < length bs. bucket_ok (n + b) (bs ! b)"
  shows "map_of (concat (map (map entry_of) bs)) k =
      (if n \<le> map_bucket (map_hash k) \<and> map_bucket (map_hash k) - n < length bs
       then map_of (map entry_of (bs ! (map_bucket (map_hash k) - n))) k else None)"
  using assms
proof (induction bs arbitrary: n)
  case (Cons ns bs)
  have ok: "bucket_ok n ns" "\<forall>b < length bs. bucket_ok (Suc n + b) (bs ! b)" using Cons.prems by force+
  note IH = Cons.IH [OF ok(2)] and miss = bucket_miss [OF ok(1), of k]
  consider "map_bucket (map_hash k) < n" | "map_bucket (map_hash k) = n" | d where "map_bucket (map_hash k) = Suc n + d"
    by (metis add_Suc less_iff_Suc_add linorder_less_linear)
  then show ?case using IH miss by cases (auto simp: map_add_def split: option.splits)
qed simp

lemma foreach_get:
  assumes inv: "map_inv m"
  shows "distinct (map fst (map_foreach m)) \<and> map_of (map_foreach m) = map_get_impl m"
proof -
  have e: "map_foreach m = concat (map (map entry_of) (map_buckets m))" by (simp add: map_foreach_def entry_of_def [abs_def])
  show ?thesis
    using concat_distinct [of "map_buckets m" 0] concat_lookup [of "map_buckets m" 0] inv map_bucket_less map_get_bucket [OF inv]
    by (simp add: e map_inv_def fun_eq_iff)
qed

section \<open>Theorems\<close>

text \<open>
  C23. The hash map refines a finite map. After any sequence of insertions \<open>map_get\<close> finds a key
  exactly when it was inserted, and returns the value of its last insertion; every insertion
  succeeds; and \<open>map_foreach\<close> visits each key exactly once, with that value. Collisions of the hash
  or of the bucket have no effect.
\<close>

theorem map_refines:
  "let m = fold (\<lambda>(k, v) m. snd (map_put_impl m k v)) kvs map_init_impl in
   map_get_impl m = map_of (rev kvs) \<and> fst (map_put_impl m k v) \<and>
   distinct (map fst (map_foreach m)) \<and> map_of (map_foreach m) = map_of (rev kvs)"
proof -
  define m where "m = fold (\<lambda>(k, v) m. snd (map_put_impl m k v)) kvs map_init_impl"
  have inv: "map_inv m" using hm.puts [OF map_inv_init, of kvs] by (simp add: m_def)
  have get: "map_get_impl m = map_of (rev kvs)" using hm.puts_empty [of kvs] by (simp add: m_def)
  have "distinct (map fst (map_foreach m)) \<and> map_of (map_foreach m) = map_get_impl m" by (rule foreach_get [OF inv])
  moreover have "fst (map_put_impl m k v)" by (simp add: map_put_impl_def Let_def split: option.splits)
  ultimately show ?thesis using get unfolding m_def [symmetric] Let_def by simp
qed

end
