(* ===== verification/Streams.thy ===== *)
theory Streams
  imports Hashes
begin

text \<open>
  The input and output layer of \<open>brutal-io\<close> that the codecs use: readers and writers as callbacks
  (\<open>traits.h\<close>), streams over memory (\<open>mem.c\<close>), copying (\<open>funcs.c\<close>), bit readers and writers (\<open>rbits.h\<close>,
  \<open>wbits.h\<close>) and the sliding window (\<open>window.c\<close>).

  A routine works on a state and ends in a fault, in an error that its caller sees (\<open>TRY\<close> passes it
  on), or in a value. A reader takes the number of bytes wanted and returns the bytes it read, a
  writer takes bytes and returns how many it wrote; both keep their own state.
\<close>

section \<open>Results\<close>

datatype io_error =
    ERR_INVALID_DATA | ERR_NOT_IMPLEMENTED | ERR_CHECKSUM_MISMATCH | ERR_UNKNOWN_BLOCK | ERR_TOO_MANY_SYMBOLS
  | ERR_NOT_ENOUGH_TABLE_SPACE | ERR_INVALID_CODE | ERR_BAD_DATA

type_synonym ('s, 'a) io = "'s \<Rightarrow> fault + ((io_error + 'a) \<times> 's)"

definition io_ok :: "'a \<Rightarrow> ('s, 'a) io" where
  "io_ok x s = Inr (Inr x, s)"

definition io_err :: "io_error \<Rightarrow> ('s, 'a) io" where
  "io_err e s = Inr (Inl e, s)"

definition io_fault :: "fault \<Rightarrow> ('s, 'a) io" where
  "io_fault f s = Inl f"

definition io_bind :: "('s, 'a) io \<Rightarrow> ('a \<Rightarrow> ('s, 'b) io) \<Rightarrow> ('s, 'b) io" where
  "io_bind m f s = sbind (m s) (\<lambda>(r, s). case r of Inl e \<Rightarrow> Inr (Inl e, s) | Inr x \<Rightarrow> f x s)"

definition io_assert :: "bool \<Rightarrow> string \<Rightarrow> ('s, unit) io" where
  "io_assert b msg s = sbind (assert_truth b msg) (\<lambda>_. Inr (Inr (), s))"

definition io_get :: "('s \<Rightarrow> 'a) \<Rightarrow> ('s, 'a) io" where
  "io_get f s = Inr (Inr (f s), s)"

definition io_put :: "('s \<Rightarrow> 's) \<Rightarrow> ('s, unit) io" where
  "io_put f s = Inr (Inr (), f s)"

lemma io_simps [simp]:
  "io_bind (io_ok x) f s = f x s" "io_bind (io_err e) f s = Inr (Inl e, s)" "io_bind (io_fault fl) f s = Inl fl"
  "io_bind (io_get g) f s = f (g s) s" "io_bind (io_put h) k s = k () (h s)" "io_bind (io_assert b msg) k s = (if b then k () s else Inl (Panic msg))"
  by (simp_all add: io_bind_def io_ok_def io_err_def io_fault_def io_get_def io_put_def io_assert_def assert_truth_def)

lemma io_bind_assoc: "io_bind (io_bind m f) g = io_bind m (\<lambda>x. io_bind (f x) g)"
  by (auto simp: fun_eq_iff io_bind_def sbind_def split: sum.splits)

lemma io_bind_run: "m s = Inr (Inr x, t) \<Longrightarrow> io_bind m f s = f x t"
  by (simp add: io_bind_def)

lemma io_bind_Inr: "io_bind m f s = Inr (Inr x, t) \<longleftrightarrow> (\<exists>y u. m s = Inr (Inr y, u) \<and> f y u = Inr (Inr x, t))"
proof (cases "m s")
  case (Inr r)
  then show ?thesis by (cases r; cases "fst r") (auto simp: io_bind_def)
qed (simp add: io_bind_def)

lemma io_bind_cong [fundef_cong]:
  "m s = m' s' \<Longrightarrow> s = s' \<Longrightarrow> (\<And>x t. m' s' = Inr (Inr x, t) \<Longrightarrow> f x t = f' x t) \<Longrightarrow> io_bind m f s = io_bind m' f' s'"
  by (auto simp: io_bind_def sbind_def split: sum.splits)

section \<open>Readers and writers\<close>

type_synonym 'r reader = "nat \<Rightarrow> ('r, u8 list) io"
type_synonym 'w writer = "u8 list \<Rightarrow> ('w, nat) io"

text \<open>\<open>mem.c\<close>: a stream over a buffer.\<close>

record io_mem =
  mem_data :: "u8 list"
  mem_used :: nat
  mem_capacity :: nat

definition io_mem_init :: "u8 list \<Rightarrow> io_mem" where
  "io_mem_init data = \<lparr>mem_data = data, mem_used = 0, mem_capacity = length data\<rparr>"

definition io_mem_read :: "io_mem reader" where
  "io_mem_read n self =
     (let read = min n (mem_capacity self - mem_used self) in
      Inr (Inr (map (\<lambda>i. mem_data self ! (mem_used self + i)) [0..<read]), self\<lparr>mem_used := mem_used self + read\<rparr>))"

definition io_mem_write_impl :: "io_mem writer" where
  "io_mem_write_impl data self =
     (let to_write = min (mem_capacity self - mem_used self) (length data) in
      Inr (Inr to_write, self\<lparr>mem_data := take (mem_used self) (mem_data self) @ take to_write data @ drop (mem_used self + to_write) (mem_data self),
        mem_used := mem_used self + to_write\<rparr>))"

text \<open>Running a reader or writer that is a part of a larger state.\<close>

definition io_on :: "('s \<Rightarrow> 'p) \<Rightarrow> ('p \<Rightarrow> 's \<Rightarrow> 's) \<Rightarrow> ('p, 'a) io \<Rightarrow> ('s, 'a) io" where
  "io_on get put m s = sbind (m (get s)) (\<lambda>(r, p). Inr (r, put p s))"

definition io_fst :: "('r, 'a) io \<Rightarrow> ('r \<times> 'w, 'a) io" where
  "io_fst = io_on fst (\<lambda>r s. (r, snd s))"

definition io_snd :: "('w, 'a) io \<Rightarrow> ('r \<times> 'w, 'a) io" where
  "io_snd = io_on snd (\<lambda>w s. (fst s, w))"

text \<open>A call whose result, error or not, is dropped.\<close>

definition io_ignore :: "('s, 'a) io \<Rightarrow> ('s, unit) io" where
  "io_ignore m s = sbind (m s) (\<lambda>(_, s). Inr (Inr (), s))"

section \<open>funcs.c\<close>

definition io_repeat_read :: "u8 \<Rightarrow> 's reader" where
  "io_repeat_read byte n s = Inr (Inr (replicate n byte), s)"

definition io_empty_read :: "'s reader" where
  "io_empty_read n s = Inr (Inr [], s)"

definition io_zero_read :: "'s reader" where
  "io_zero_read n s = Inr (Inr (replicate n 0), s)"

definition io_write_byte :: "'w writer \<Rightarrow> u8 \<Rightarrow> ('w, nat) io" where
  "io_write_byte write c = write [c]"

text \<open>
  \<open>io_copy_n\<close> on a pair of a reader and a writer. Every turn but the last copies at least one byte, so
  the number of bytes bounds the turns.
\<close>

fun io_copy_n_loop :: "nat \<Rightarrow> 'r reader \<Rightarrow> 'w writer \<Rightarrow> nat \<Rightarrow> nat \<Rightarrow> ('r \<times> 'w, nat) io" where
  "io_copy_n_loop 0 read write sz count = io_fault OutOfFuel"
| "io_copy_n_loop (Suc turns) read write sz count =
     io_bind (io_fst (read (min 512 (sz - count)))) (\<lambda>buf.
     if length buf = 0 then io_ok count
     else io_bind (io_snd (write buf)) (\<lambda>written.
          if written = 0 then io_ok count
          else if count + written < sz then io_copy_n_loop turns read write sz (count + written)
          else io_ok (count + written)))"

definition io_copy_n :: "'r reader \<Rightarrow> 'w writer \<Rightarrow> nat \<Rightarrow> ('r \<times> 'w, nat) io" where
  "io_copy_n read write sz = io_copy_n_loop (sz + 1) read write sz 0"

text \<open>\<open>io_copy\<close> goes on until the reader has no more bytes or the writer no more room; \<open>fuel\<close> bounds its turns.\<close>

fun io_copy_loop :: "nat \<Rightarrow> 'r reader \<Rightarrow> 'w writer \<Rightarrow> nat \<Rightarrow> ('r \<times> 'w, nat) io" where
  "io_copy_loop 0 read write count = io_fault OutOfFuel"
| "io_copy_loop (Suc fuel) read write count =
     io_bind (io_fst (read 512)) (\<lambda>buf.
     if length buf = 0 then io_ok count
     else io_bind (io_snd (write buf)) (\<lambda>written.
          if written = 0 then io_ok count
          else io_copy_loop fuel read write (count + written)))"

definition io_copy :: "nat \<Rightarrow> 'r reader \<Rightarrow> 'w writer \<Rightarrow> ('r \<times> 'w, nat) io" where
  "io_copy fuel read write = io_copy_loop fuel read write 0"

definition io_sink_write :: "unit writer" where
  "io_sink_write data s = Inr (Inr (length data), s)"

definition io_skip :: "'r reader \<Rightarrow> nat \<Rightarrow> ('r, nat) io" where
  "io_skip read sz r = sbind (io_copy_n read io_sink_write sz (r, ())) (\<lambda>(x, (r, _)). Inr (x, r))"

text \<open>
  Reading one byte into a variable: when the reader has nothing left it succeeds with no byte and the
  variable keeps its undefined value, which the callers then use. The model stops there with \<open>Uninitialised\<close>,
  where the code goes on with whatever the variable holds: what it does then is outside of the model, and no
  theorem speaks of it.
\<close>

definition io_read_byte :: "'r reader \<Rightarrow> ('r, u8) io" where
  "io_read_byte read = io_bind (read 1) (\<lambda>bs. if bs = [] then io_fault Uninitialised else io_ok (bs ! 0))"

text \<open>Reading a value of several bytes has the same gap.\<close>

definition io_read_bytes :: "'r reader \<Rightarrow> nat \<Rightarrow> ('r, u8 list) io" where
  "io_read_bytes read n = io_bind (read n) (\<lambda>bs. if length bs < n then io_fault Uninitialised else io_ok bs)"

section \<open>rbits.h\<close>

record 'r rbits =
  rb_reader :: 'r
  rb_bitbuf :: u64
  rb_bitcount :: nat

definition io_rbits_init :: "'r \<Rightarrow> 'r rbits" where
  "io_rbits_init reader = \<lparr>rb_reader = reader, rb_bitbuf = 0, rb_bitcount = 0\<rparr>"

definition MAX_ENSURE :: nat where
  "MAX_ENSURE = 64 - 7"

definition io_rbits_can_ensure :: "nat \<Rightarrow> bool" where
  "io_rbits_can_ensure num_bits = (num_bits \<le> MAX_ENSURE)"

definition on_reader :: "('r, 'a) io \<Rightarrow> ('r rbits, 'a) io" where
  "on_reader = io_on rb_reader (\<lambda>r s. s\<lparr>rb_reader := r\<rparr>)"

text \<open>
  The byte is shifted as an \<open>int\<close>: by 32 bits or more this is undefined, by 24 or more the sign
  spreads into the upper half of the buffer.
\<close>

definition shift_in :: "u8 \<Rightarrow> ('r rbits, unit) io" where
  "shift_in b s =
     (if rb_bitcount s \<ge> 32 then Inl OutOfBounds
      else Inr (Inr (), s\<lparr>rb_bitbuf := rb_bitbuf s OR scast (push_bit (rb_bitcount s) (ucast b) :: u32),
                           rb_bitcount := rb_bitcount s + 8\<rparr>))"

definition io_rbits_get_byte :: "'r reader \<Rightarrow> ('r rbits, nat) io" where
  "io_rbits_get_byte read =
     io_bind (io_get rb_bitcount) (\<lambda>n.
     io_bind (io_assert (n \<le> 64 - 8) ''self->bitcount <= BITBUF_NBITS - 8'') (\<lambda>_.
     io_bind (on_reader (io_read_byte read)) (\<lambda>b.
     io_bind (shift_in b) (\<lambda>_. io_ok 8))))"

function io_rbits_fill :: "'r reader \<Rightarrow> nat \<Rightarrow> ('r rbits, nat) io" where
  "io_rbits_fill read num_bits s =
     (if rb_bitcount s < num_bits
      then case io_bind (on_reader (io_read_byte read)) shift_in s of
             Inl f \<Rightarrow> Inl f
           | Inr (Inl e, t) \<Rightarrow> Inr (Inl e, t)
           | Inr (Inr _, t) \<Rightarrow> if rb_bitcount s < rb_bitcount t then io_rbits_fill read num_bits t else Inl OutOfFuel
      else Inr (Inr num_bits, s))"
  by pat_completeness auto
termination by (relation "measure (\<lambda>(read, n, s). n - rb_bitcount s)") auto

declare io_rbits_fill.simps [simp del]

definition io_rbits_ensure_bits :: "'r reader \<Rightarrow> nat \<Rightarrow> ('r rbits, nat) io" where
  "io_rbits_ensure_bits read num_bits =
     io_bind (io_assert (io_rbits_can_ensure num_bits) ''io_rbits_can_ensure(num_bits)'') (\<lambda>_. io_rbits_fill read num_bits)"

text \<open>The mask is \<open>(1 << num_bits) - 1\<close> on an \<open>int\<close>, which is defined below 31 bits.\<close>

definition io_rbits_get_bits :: "nat \<Rightarrow> ('r rbits, u32) io" where
  "io_rbits_get_bits num_bits =
     io_bind (io_get id) (\<lambda>s.
     io_bind (io_assert (num_bits \<le> rb_bitcount s) ''num_bits <= self->bitcount'') (\<lambda>_.
     if num_bits \<ge> 31 then io_fault OutOfBounds
     else io_ok (ucast (rb_bitbuf s AND mask num_bits))))"

definition io_rbits_remove_bits :: "nat \<Rightarrow> ('r rbits, unit) io" where
  "io_rbits_remove_bits num_bits =
     io_bind (io_get id) (\<lambda>s.
     io_bind (io_assert (num_bits \<le> rb_bitcount s) ''num_bits <= self->bitcount'') (\<lambda>_.
     io_put (\<lambda>s. s\<lparr>rb_bitbuf := drop_bit num_bits (rb_bitbuf s), rb_bitcount := rb_bitcount s - num_bits\<rparr>)))"

definition io_rbits_pop_bits :: "nat \<Rightarrow> ('r rbits, u32) io" where
  "io_rbits_pop_bits num_bits =
     io_bind (io_get id) (\<lambda>s.
     io_bind (io_assert (num_bits \<le> rb_bitcount s) ''num_bits <= self->bitcount'') (\<lambda>_.
     io_bind (io_rbits_get_bits num_bits) (\<lambda>result.
     io_bind (io_rbits_remove_bits num_bits) (\<lambda>_.
     io_ok result))))"

text \<open>What the decoders do: \<open>io_rbits_ensure_bits\<close> with its result dropped, then \<open>io_rbits_pop_bits\<close>.\<close>

definition ensure_pop :: "'r reader \<Rightarrow> nat \<Rightarrow> ('r rbits, u32) io" where
  "ensure_pop read n = io_bind (io_ignore (io_rbits_ensure_bits read n)) (\<lambda>_. io_rbits_pop_bits n)"

definition io_rbits_align :: "('r rbits, unit) io" where
  "io_rbits_align = io_bind (io_get (\<lambda>s. rb_bitcount s mod 8)) io_rbits_remove_bits"

lemma io_rbits_remove_bits_eq:
  "io_rbits_remove_bits n s =
     (if n \<le> rb_bitcount s
      then Inr (Inr (), s\<lparr>rb_bitbuf := drop_bit n (rb_bitbuf s), rb_bitcount := rb_bitcount s - n\<rparr>)
      else Inl (Panic ''num_bits <= self->bitcount''))"
  by (simp add: io_rbits_remove_bits_def io_put_def)

lemma io_rbits_pop_bits_eq:
  "io_rbits_pop_bits n s =
     (if n \<le> rb_bitcount s
      then if n \<ge> 31 then Inl OutOfBounds
           else Inr (Inr (ucast (rb_bitbuf s AND mask n)), s\<lparr>rb_bitbuf := drop_bit n (rb_bitbuf s), rb_bitcount := rb_bitcount s - n\<rparr>)
      else Inl (Panic ''num_bits <= self->bitcount''))"
  by (simp add: io_rbits_pop_bits_def io_rbits_get_bits_def io_bind_assoc) (simp add: io_bind_def io_rbits_remove_bits_eq io_ok_def)

section \<open>wbits.h\<close>

record 'w wbits =
  wb_writer :: 'w
  wb_bitbuf :: u64
  wb_bitcount :: nat

definition io_wbits_init :: "'w \<Rightarrow> 'w wbits" where
  "io_wbits_init writer = \<lparr>wb_writer = writer, wb_bitbuf = 0, wb_bitcount = 0\<rparr>"

definition on_writer :: "('w, 'a) io \<Rightarrow> ('w wbits, 'a) io" where
  "on_writer = io_on wb_writer (\<lambda>w s. s\<lparr>wb_writer := w\<rparr>)"

definition io_wbits_add_bits :: "u64 \<Rightarrow> nat \<Rightarrow> 'w wbits \<Rightarrow> 'w wbits" where
  "io_wbits_add_bits bits num_bits self =
     self\<lparr>wb_bitbuf := wb_bitbuf self OR push_bit (wb_bitcount self) bits, wb_bitcount := wb_bitcount self + num_bits\<rparr>"

text \<open>The result of the write is not looked at.\<close>

function io_wbits_flush_bits :: "'w writer \<Rightarrow> 'w wbits \<Rightarrow> fault + 'w wbits" where
  "io_wbits_flush_bits write self =
     (if wb_bitcount self \<ge> 8
      then sbind (write [ucast (wb_bitbuf self)] (wb_writer self)) (\<lambda>(_, w).
           io_wbits_flush_bits write (self\<lparr>wb_writer := w, wb_bitcount := wb_bitcount self - 8, wb_bitbuf := drop_bit 8 (wb_bitbuf self)\<rparr>))
      else Inr self)"
  by pat_completeness auto
termination by (relation "measure (\<lambda>(write, s). wb_bitcount s)") auto

declare io_wbits_flush_bits.simps [simp del]

definition io_wbits_flush_bits_remaining :: "'w writer \<Rightarrow> 'w wbits \<Rightarrow> fault + 'w wbits" where
  "io_wbits_flush_bits_remaining write self =
     sbind (io_wbits_flush_bits write self) (\<lambda>self.
     sbind (write [ucast (wb_bitbuf self)] (wb_writer self)) (\<lambda>(_, w).
     Inr (self\<lparr>wb_writer := w, wb_bitcount := 0, wb_bitbuf := 0\<rparr>)))"

definition io_wbits_align_bitstream :: "'w writer \<Rightarrow> 'w wbits \<Rightarrow> fault + 'w wbits" where
  "io_wbits_align_bitstream write self =
     io_wbits_flush_bits write (self\<lparr>wb_bitcount := wb_bitcount self + (8 - wb_bitcount self mod 8) mod 8\<rparr>)"

section \<open>window.c\<close>

text \<open>The bytes from the start of the buffer to \<open>used\<close>; \<open>win_capacity\<close> is the size of the window.\<close>

record 'w window =
  win_data :: "u8 list"
  win_capacity :: nat
  win_writer :: 'w

definition WINDOW_MAX_CAPACITY_FACTOR :: nat where "WINDOW_MAX_CAPACITY_FACTOR = 3"
definition WINDOW_FLUSH_THRESHOLD_FACTOR :: nat where "WINDOW_FLUSH_THRESHOLD_FACTOR = 2"

definition io_window_init :: "'w \<Rightarrow> nat \<Rightarrow> 'w window" where
  "io_window_init underlying capacity = \<lparr>win_data = [], win_capacity = capacity, win_writer = underlying\<rparr>"

definition io_window_flush_chunk :: "'w writer \<Rightarrow> 'w window \<Rightarrow> fault + 'w window" where
  "io_window_flush_chunk write self =
     (let src_size = min (length (win_data self)) (win_capacity self);
          src_start = (if src_size > win_capacity self then src_size - win_capacity self else 0)
      in sbind (write (take src_size (drop src_start (win_data self))) (win_writer self)) (\<lambda>(_, w).
         Inr (self\<lparr>win_data := take (length (win_data self) - src_size) (drop (src_start + src_size) (win_data self)), win_writer := w\<rparr>)))"

definition io_window_flush_all :: "'w writer \<Rightarrow> 'w window \<Rightarrow> fault + 'w window" where
  "io_window_flush_all write self =
     sbind (write (win_data self) (win_writer self)) (\<lambda>(_, w). Inr (self\<lparr>win_data := [], win_writer := w\<rparr>))"

definition io_window_write_impl :: "'w writer \<Rightarrow> 'w window writer" where
  "io_window_write_impl write data self =
     (let to_write = min (win_capacity self * WINDOW_MAX_CAPACITY_FACTOR - length (win_data self)) (length data);
          self = self\<lparr>win_data := win_data self @ take to_write data\<rparr>
      in sbind (if length (win_data self) > win_capacity self * WINDOW_FLUSH_THRESHOLD_FACTOR
                then io_window_flush_chunk write self else Inr self) (\<lambda>self.
         Inr (Inr to_write, self)))"

definition io_window_peek_from_back :: "nat \<Rightarrow> 'w window \<Rightarrow> fault + u8" where
  "io_window_peek_from_back offset self =
     sbind (assert_truth (length (win_data self) \<ge> offset) ''self->used >= offset'') (\<lambda>_.
     if offset = 0 then Inl Uninitialised
     else Inr (win_data self ! (length (win_data self) - offset)))"

section \<open>Checksums on the way\<close>

text \<open>\<open>crc32_writer\<close>, \<open>crc32_reader\<close> and \<open>adler32_writer\<close>: a stream and the checksum of what went through it.\<close>

definition crc32_writer :: "'w writer \<Rightarrow> (crc32_state \<times> 'w) writer" where
  "crc32_writer write data self =
     (case crc32_write_impl (\<lambda>d. write d (snd self)) data (fst self) of
        (result, c) \<Rightarrow> sbind result (\<lambda>(n, w). Inr (n, (c, w))))"

definition crc32_reader :: "'r reader \<Rightarrow> (crc32_state \<times> 'r) reader" where
  "crc32_reader read n self =
     sbind (read n (snd self)) (\<lambda>(result, r).
     case crc32_read_impl (\<lambda>_. result) n (fst self) of (result, c) \<Rightarrow> Inr (result, (c, r)))"

definition crc32_count :: "crc32_state \<Rightarrow> u64" where
  "crc32_count self = crc_count self"

definition adler32_writer :: "'w writer \<Rightarrow> (adler32_state \<times> 'w) writer" where
  "adler32_writer write data self =
     (case adler32_write_impl (\<lambda>d. write d (snd self)) data (fst self) of
        (result, c) \<Rightarrow> sbind result (\<lambda>(n, w). Inr (n, (c, w))))"

end
