(* ===== verification/Huff.thy ===== *)
theory Huff
  imports Streams
begin

text \<open>
  Huffman codes of \<open>codec-deflate\<close> (\<open>huff.h\<close>): a code is given by the lengths of its words,
  \<open>build_huff_tree\<close> checks it and sorts its symbols, \<open>huff_decoder_next\<close> reads one symbol. Cells of
  arrays that C leaves undefined are \<open>None\<close>.
\<close>

section \<open>Arrays with undefined cells\<close>

definition arr_get :: "'a option list \<Rightarrow> nat \<Rightarrow> fault + 'a" where
  "arr_get xs i = (if i < length xs then case xs ! i of None \<Rightarrow> Inl Uninitialised | Some x \<Rightarrow> Inr x else Inl OutOfBounds)"

definition arr_set :: "'a option list \<Rightarrow> nat \<Rightarrow> 'a \<Rightarrow> fault + 'a option list" where
  "arr_set xs i x = (if i < length xs then Inr (xs[i := Some x]) else Inl OutOfBounds)"

lemma arr_get_Inr [sbind_iff]: "arr_get xs i = Inr x \<longleftrightarrow> i < length xs \<and> xs ! i = Some x"
  by (auto simp: arr_get_def split: option.splits)

lemma arr_set_Inr [sbind_iff]: "arr_set xs i x = Inr ys \<longleftrightarrow> i < length xs \<and> ys = xs[i := Some x]"
  by (auto simp: arr_set_def)

lemma arr_simps [simp]:
  "i < length xs \<Longrightarrow> xs ! i = Some x \<Longrightarrow> arr_get xs i = Inr x"
  "i < length xs \<Longrightarrow> arr_set xs i x = Inr (xs[i := Some x])"
  by (simp_all add: arr_get_def arr_set_def)

section \<open>Trees\<close>

record huff_tree =
  counts :: "u16 list"
  symbols :: "u16 option list"
  max_sym :: int

definition huff_tree_undefined :: huff_tree where
  "huff_tree_undefined = \<lparr>counts = replicate 16 0, symbols = replicate 288 None, max_sym = -1\<rparr>"

text \<open>The loops of \<open>build_huff_tree\<close>: count the codes of each length, lay out the table, sort the symbols into it.\<close>

definition huff_count :: "u8 option list \<Rightarrow> nat \<Rightarrow> huff_tree \<Rightarrow> fault + huff_tree" where
  "huff_count lengths i t =
     sbind (arr_get lengths i) (\<lambda>l.
     sbind (assert_truth (l < 16) ''lengths[i] < 16u'') (\<lambda>_.
     Inr (if l \<noteq> 0 then t\<lparr>max_sym := int i, counts := (counts t)[unat l := counts t ! unat l + 1]\<rparr> else t)))"

fun huff_offsets :: "u16 list \<Rightarrow> nat \<Rightarrow> nat \<Rightarrow> io_error + (u16 list \<times> nat \<times> nat)" where
  "huff_offsets [] available num_codes = Inr ([], num_codes, available)"
| "huff_offsets (c # cs) available num_codes =
     (let used = unat c in
      if used > available then Inl ERR_NOT_ENOUGH_TABLE_SPACE
      else sbind (huff_offsets cs (2 * (available - used)) (num_codes + used)) (\<lambda>(offs, n, a).
           Inr (of_nat num_codes # offs, n, a)))"

definition huff_sort :: "u8 option list \<Rightarrow> nat \<Rightarrow> u16 list \<times> u16 option list \<Rightarrow> fault + (u16 list \<times> u16 option list)" where
  "huff_sort lengths i = (\<lambda>(offs, syms).
     sbind (arr_get lengths i) (\<lambda>l.
     if l \<noteq> 0
     then sbind (arr_set syms (unat (offs ! unat l)) (of_nat i)) (\<lambda>syms.
          Inr (offs[unat l := offs ! unat l + 1], syms))
     else Inr (offs, syms)))"

text \<open>A code of one word gets a second one, whose symbol is too large.\<close>

definition huff_finish :: "nat \<Rightarrow> huff_tree \<Rightarrow> fault + (io_error + huff_tree)" where
  "huff_finish num_codes t =
     (if num_codes = 1
      then sbind (arr_set (symbols t) 1 (of_int (max_sym t + 1))) (\<lambda>syms.
           Inr (Inr (t\<lparr>counts := (counts t)[1 := 2], symbols := syms\<rparr>)))
      else Inr (Inr t))"

definition build_huff_tree :: "huff_tree \<Rightarrow> u8 option list \<Rightarrow> nat \<Rightarrow> fault + (io_error + huff_tree)" where
  "build_huff_tree t lengths num =
     sbind (assert_truth (num \<le> 288) ''num <= 288u'') (\<lambda>_.
     let t = t\<lparr>counts := replicate 16 0, max_sym := -1\<rparr> in
     sbind (for_each (huff_count lengths) [0..<num] t) (\<lambda>t.
     case huff_offsets (counts t) 1 0 of
       Inl e \<Rightarrow> Inr (Inl e)
     | Inr (offs, num_codes, available) \<Rightarrow>
         if (num_codes > 1 \<and> available > 0) \<or> (num_codes = 1 \<and> counts t ! 1 \<noteq> 1)
         then Inr (Inl ERR_INVALID_CODE)
         else sbind (for_each (huff_sort lengths) [0..<num] (offs, symbols t)) (\<lambda>(offs, syms).
              huff_finish num_codes (t\<lparr>symbols := syms\<rparr>))))"

section \<open>The decoder\<close>

text \<open>An error of the reader is dropped by \<open>huff_decoder_next\<close>; the assertion of \<open>io_rbits_pop_bits\<close> then stops the machine.\<close>

definition io_lift :: "fault + 'a \<Rightarrow> ('s, 'a) io" where
  "io_lift m s = sbind m (\<lambda>x. Inr (Inr x, s))"

function huff_decoder_loop :: "'r reader \<Rightarrow> huff_tree \<Rightarrow> nat \<Rightarrow> int \<Rightarrow> int \<Rightarrow> ('r rbits, int) io" where
  "huff_decoder_loop read tree len base offs s =
     io_bind (ensure_pop read 1) (\<lambda>b.
     let offs = 2 * offs + uint b in
     if len \<le> 15
     then if offs < uint (counts tree ! len) then io_ok (base + offs)
          else huff_decoder_loop read tree (len + 1) (base + uint (counts tree ! len)) (offs - uint (counts tree ! len))
     else io_fault (Panic ''len <= 15'')) s"
  by pat_completeness auto
termination by (relation "measure (\<lambda>(read, tree, len, base, offs, s). 16 - len)") auto

declare huff_decoder_loop.simps [simp del]

definition huff_decoder_next :: "'r reader \<Rightarrow> huff_tree \<Rightarrow> ('r rbits, u16) io" where
  "huff_decoder_next read tree =
     io_bind (huff_decoder_loop read tree 1 0 0) (\<lambda>index.
     io_bind (io_assert (index \<ge> 0) ''base + offs >= 0'') (\<lambda>_.
     io_bind (io_assert (index < 288) ''base + offs < 288'') (\<lambda>_.
     io_lift (arr_get (symbols tree) (nat index)))))"

end
