(* ===== verification/Sources.thy ===== *)
theory Sources
  imports Streams
begin

text \<open>
  The contracts of readers and writers, and the streams of theory Streams as their instances.
\<close>

section \<open>Sources and sinks\<close>

text \<open>
  What the codecs rely on. A source yields the bytes it still holds, as many as asked for or all that
  are left. A sink takes a chunk of at most \<open>lim\<close> bytes whole while it has room.
\<close>

locale byte_source =
  fixes read :: "'r reader" and rest :: "'r \<Rightarrow> u8 list" and ok :: "'r \<Rightarrow> bool"
  assumes read_rest: "ok r \<Longrightarrow> \<exists>r'. read n r = Inr (Inr (take n (rest r)), r') \<and> rest r' = drop n (rest r) \<and> ok r'"
begin

lemma io_read_byte_rest:
  assumes "ok r" "rest r = b # bs"
  obtains r' where "io_read_byte read r = Inr (Inr b, r')" "rest r' = bs" "ok r'"
  using read_rest [OF assms(1), of 1] assms(2) by (auto simp: io_read_byte_def io_bind_def io_ok_def)

lemma io_read_byte_empty: "ok r \<Longrightarrow> rest r = [] \<Longrightarrow> io_read_byte read r = Inl Uninitialised"
  using read_rest [of r 1] by (auto simp: io_read_byte_def io_bind_def io_fault_def)

lemma io_read_bytes_rest:
  assumes "ok r" "rest r = bs @ cs" "length bs = n"
  obtains r' where "io_read_bytes read n r = Inr (Inr bs, r')" "rest r' = cs" "ok r'"
  using read_rest [OF assms(1), of n] assms(2,3) by (auto simp: io_read_bytes_def io_bind_def io_ok_def)

end

locale byte_sink =
  fixes wr :: "'w writer" and written :: "'w \<Rightarrow> u8 list" and room :: "'w \<Rightarrow> nat" and okw :: "'w \<Rightarrow> bool" and lim :: nat
  assumes wr_written: "okw w \<Longrightarrow> length d \<le> room w \<Longrightarrow> length d \<le> lim \<Longrightarrow>
    \<exists>w'. wr d w = Inr (Inr (length d), w') \<and> written w' = written w @ d \<and> room w' = room w - length d \<and> okw w'"
begin

lemma write_cases:
  assumes "okw w" "length d \<le> room w" "length d \<le> lim"
  obtains w' where "wr d w = Inr (Inr (length d), w')" "written w' = written w @ d" "room w' = room w - length d" "okw w'"
  using wr_written [OF assms] by auto

end

locale byte_copy = byte_source read rest ok + byte_sink wr written room okw lim
  for read :: "'r reader" and rest ok and wr :: "'w writer" and written room okw lim +
  assumes lim_block: "512 \<le> lim"
begin

lemma io_copy_n_loop_all:
  assumes "ok r" "okw w" "sz - count \<le> length (rest r)" "sz - count \<le> room w" "count \<le> sz" "sz - count < turns"
  shows "\<exists>r' w'. io_copy_n_loop turns read wr sz count (r, w) = Inr (Inr sz, (r', w'))
    \<and> rest r' = drop (sz - count) (rest r) \<and> written w' = written w @ take (sz - count) (rest r)
    \<and> room w' = room w - (sz - count) \<and> ok r' \<and> okw w'"
  using assms
proof (induction turns arbitrary: r w count)
  case (Suc turns)
  define k where "k = min 512 (sz - count)"
  from read_rest [OF Suc.prems(1), of k] obtain r1 where
    r1: "read k r = Inr (Inr (take k (rest r)), r1)" "rest r1 = drop k (rest r)" "ok r1" by auto
  have len: "length (take k (rest r)) = k" using Suc.prems(3) by (simp add: k_def)
  have "k \<le> room w" "k \<le> lim" using Suc.prems(4) lim_block by (auto simp: k_def)
  with wr_written [OF Suc.prems(2), of "take k (rest r)"] len obtain w1 where
    w1: "wr (take k (rest r)) w = Inr (Inr k, w1)" "written w1 = written w @ take k (rest r)" "room w1 = room w - k" "okw w1"
    by auto
  have ne: "(take k (rest r) = []) = (k = 0)" using len by (metis length_0_conv)
  have step: "io_copy_n_loop (Suc turns) read wr sz count (r, w) =
      (if k = 0 then Inr (Inr count, (r1, w))
       else if count + k < sz then io_copy_n_loop turns read wr sz (count + k) (r1, w1) else Inr (Inr (count + k), (r1, w1)))"
    by (simp add: k_def [symmetric] io_bind_def io_fst_def io_snd_def io_on_def io_ok_def r1(1) w1(1) len ne del: length_take take_eq_Nil)
  have kle: "count + k \<le> sz" using Suc.prems(5) by (simp add: k_def)
  consider "sz = count" "k = 0" | "k \<noteq> 0" "count + k = sz" | "k \<noteq> 0" "count + k < sz"
    using kle Suc.prems(5) by (fastforce simp: k_def)
  then show ?case
  proof cases
    case 1
    then show ?thesis using step r1 Suc.prems by simp
  next
    case 2
    then have "sz - count = k" by linarith
    with 2 show ?thesis using step r1 w1 by simp
  next
    case 3
    define m where "m = sz - (count + k)"
    have split: "sz - count = k + m" using kle by (simp add: m_def)
    have "m \<le> length (rest r1)" "m \<le> room w1" "m < turns"
      using r1(2) w1(3) Suc.prems split 3 by auto
    then obtain r' w' where i: "io_copy_n_loop turns read wr sz (count + k) (r1, w1) = Inr (Inr sz, (r', w'))"
      "rest r' = drop m (rest r1)" "written w' = written w1 @ take m (rest r1)" "room w' = room w1 - m" "ok r'" "okw w'"
      using Suc.IH [OF r1(3) w1(4), of "count + k"] kle by (auto simp: m_def)
    show ?thesis using 3 step i r1(2) w1(2,3) by (simp add: split take_add add.commute)
  qed
qed simp

lemma io_copy_n_all:
  assumes "ok r" "okw w" "sz \<le> length (rest r)" "sz \<le> room w"
  obtains r' w' where "io_copy_n read wr sz (r, w) = Inr (Inr sz, (r', w'))" "rest r' = drop sz (rest r)"
    "written w' = written w @ take sz (rest r)" "room w' = room w - sz" "ok r'" "okw w'"
  using io_copy_n_loop_all [of r w sz 0 "sz + 1"] assms by (auto simp: io_copy_n_def)

end

text \<open>Streams over memory are a source and a sink.\<close>

definition mem_ok :: "io_mem \<Rightarrow> bool" where
  "mem_ok m \<longleftrightarrow> mem_capacity m = length (mem_data m) \<and> mem_used m \<le> mem_capacity m"

definition mem_rest :: "io_mem \<Rightarrow> u8 list" where
  "mem_rest m = drop (mem_used m) (mem_data m)"

definition mem_written :: "io_mem \<Rightarrow> u8 list" where
  "mem_written m = take (mem_used m) (mem_data m)"

definition mem_room :: "io_mem \<Rightarrow> nat" where
  "mem_room m = mem_capacity m - mem_used m"

lemma io_mem_init_view [simp]:
  "mem_ok (io_mem_init d)" "mem_rest (io_mem_init d) = d" "mem_written (io_mem_init d) = []" "mem_room (io_mem_init d) = length d"
  by (simp_all add: mem_ok_def mem_rest_def mem_written_def mem_room_def io_mem_init_def)

lemma mem_data_view: "mem_data m = mem_written m @ mem_rest m"
  by (simp add: mem_written_def mem_rest_def)

interpretation mem: byte_source io_mem_read mem_rest mem_ok
proof
  fix r n assume ok: "mem_ok r"
  let ?k = "min n (mem_capacity r - mem_used r)"
  have "map (\<lambda>i. mem_data r ! (mem_used r + i)) [0..<?k] = take n (mem_rest r)"
    using ok by (auto simp: mem_ok_def mem_rest_def intro!: nth_equalityI)
  moreover have "drop (mem_used r + ?k) (mem_data r) = drop n (mem_rest r)"
    using ok by (auto simp: mem_ok_def mem_rest_def min_def add.commute)
  ultimately show "\<exists>r'. io_mem_read n r = Inr (Inr (take n (mem_rest r)), r') \<and> mem_rest r' = drop n (mem_rest r) \<and> mem_ok r'"
    using ok by (auto simp: io_mem_read_def Let_def mem_ok_def mem_rest_def)
qed

interpretation mem: byte_sink io_mem_write_impl mem_written mem_room mem_ok lim for lim
proof
  fix w and d :: "u8 list" assume "mem_ok w" "length d \<le> mem_room w"
  then show "\<exists>w'. io_mem_write_impl d w = Inr (Inr (length d), w') \<and> mem_written w' = mem_written w @ d \<and>
      mem_room w' = mem_room w - length d \<and> mem_ok w'"
    by (auto simp: io_mem_write_impl_def Let_def mem_ok_def mem_room_def mem_written_def min_absorb2)
qed

text \<open>A checksum on the way keeps a source a source and a sink a sink, and it is the checksum of what went through.\<close>

context byte_source
begin

definition crc_source_ok :: "u8 list \<Rightarrow> crc32_state \<times> 'r \<Rightarrow> bool" where
  "crc_source_ok content s \<longleftrightarrow> ok (snd s) \<and> (\<exists>d. content = d @ rest (snd s) \<and> crc (fst s) = crc32_impl 0xFFFFFFFF d \<and> crc_count (fst s) = of_nat (length d))"

lemma crc32_reader_source: "byte_source (crc32_reader read) (rest \<circ> snd) (crc_source_ok content)"
proof
  fix s n assume s: "crc_source_ok content s"
  then obtain d where d: "ok (snd s)" "content = d @ rest (snd s)" "crc (fst s) = crc32_impl 0xFFFFFFFF d" "crc_count (fst s) = of_nat (length d)"
    by (auto simp: crc_source_ok_def)
  from read_rest [OF d(1), of n] obtain r' where
    r': "read n (snd s) = Inr (Inr (take n (rest (snd s))), r')" "rest r' = drop n (rest (snd s))" "ok r'" by auto
  let ?c = "\<lparr>crc = crc32_impl (crc (fst s)) (take n (rest (snd s))), crc_count = crc_count (fst s) + of_nat (length (take n (rest (snd s))))\<rparr>"
  have "crc32_reader read n s = Inr (Inr (take n (rest (snd s))), (?c, r'))"
    by (simp add: crc32_reader_def r'(1) crc32_read_impl_def Let_def)
  moreover have "crc_source_ok content (?c, r')"
    unfolding crc_source_ok_def
    by (rule conjI, simp add: r', rule exI [of _ "d @ take n (rest (snd s))"])
       (simp add: d r' crc32_impl_append)
  ultimately show "\<exists>r'. crc32_reader read n s = Inr (Inr (take n ((rest \<circ> snd) s)), r') \<and>
      (rest \<circ> snd) r' = drop n ((rest \<circ> snd) s) \<and> crc_source_ok content r'"
    using r' by auto
qed

end

context byte_sink
begin

definition crc_sink_ok :: "u8 list \<Rightarrow> crc32_state \<times> 'w \<Rightarrow> bool" where
  "crc_sink_ok base s \<longleftrightarrow> okw (snd s) \<and> (\<exists>d. written (snd s) = base @ d \<and> crc (fst s) = crc32_impl 0xFFFFFFFF d)"

lemma crc32_writer_sink: "byte_sink (crc32_writer wr) (written \<circ> snd) (room \<circ> snd) (crc_sink_ok base) lim"
proof
  fix s and d :: "u8 list" assume s: "crc_sink_ok base s" and d: "length d \<le> (room \<circ> snd) s" "length d \<le> lim"
  then obtain e where e: "okw (snd s)" "written (snd s) = base @ e" "crc (fst s) = crc32_impl 0xFFFFFFFF e"
    by (auto simp: crc_sink_ok_def)
  obtain w' where w': "wr d (snd s) = Inr (Inr (length d), w')" "written w' = written (snd s) @ d" "room w' = room (snd s) - length d" "okw w'"
    using write_cases [OF e(1)] d by auto
  then show "\<exists>w'. crc32_writer wr d s = Inr (Inr (length d), w') \<and> (written \<circ> snd) w' = (written \<circ> snd) s @ d \<and>
      (room \<circ> snd) w' = (room \<circ> snd) s - length d \<and> crc_sink_ok base w'"
    using e by (auto simp: crc32_writer_def crc32_write_impl_def Let_def crc_sink_ok_def crc32_impl_append)
qed

definition adler_sink_ok :: "u8 list \<Rightarrow> adler32_state \<times> 'w \<Rightarrow> bool" where
  "adler_sink_ok base s \<longleftrightarrow> okw (snd s) \<and> (\<exists>d. written (snd s) = base @ d \<and> fst s = fold adler32_step d adler32_init)"

lemma adler32_writer_sink: "byte_sink (adler32_writer wr) (written \<circ> snd) (room \<circ> snd) (adler_sink_ok base) lim"
proof
  fix s and d :: "u8 list" assume s: "adler_sink_ok base s" and d: "length d \<le> (room \<circ> snd) s" "length d \<le> lim"
  then obtain e where e: "okw (snd s)" "written (snd s) = base @ e" "fst s = fold adler32_step e adler32_init"
    by (auto simp: adler_sink_ok_def)
  obtain w' where w': "wr d (snd s) = Inr (Inr (length d), w')" "written w' = written (snd s) @ d" "room w' = room (snd s) - length d" "okw w'"
    using write_cases [OF e(1)] d by auto
  then show "\<exists>w'. adler32_writer wr d s = Inr (Inr (length d), w') \<and> (written \<circ> snd) w' = (written \<circ> snd) s @ d \<and>
      (room \<circ> snd) w' = (room \<circ> snd) s - length d \<and> adler_sink_ok base w'"
    using e by (auto simp: adler32_writer_def adler32_write_impl_def adler_sink_ok_def)
qed

text \<open>A window in front of a sink: what it holds counts as written.\<close>

definition win_written :: "'w window \<Rightarrow> u8 list" where
  "win_written s = written (win_writer s) @ win_data s"

definition win_room :: "'w window \<Rightarrow> nat" where
  "win_room s = room (win_writer s) - length (win_data s)"

definition win_ok :: "nat \<Rightarrow> 'w window \<Rightarrow> bool" where
  "win_ok n s \<longleftrightarrow> okw (win_writer s) \<and> win_capacity s = n \<and> length (win_data s) \<le> 2 * n \<and> length (win_data s) \<le> room (win_writer s)"

lemma window_sink:
  assumes n: "n \<le> lim"
  shows "byte_sink (io_window_write_impl wr) win_written win_room (win_ok n) n"
proof
  fix s and d :: "u8 list" assume s: "win_ok n s" and d: "length d \<le> win_room s" "length d \<le> n"
  let ?s = "s\<lparr>win_data := win_data s @ d\<rparr>"
  have take: "min (win_capacity s * WINDOW_MAX_CAPACITY_FACTOR - length (win_data s)) (length d) = length d"
    using s d by (auto simp: win_ok_def WINDOW_MAX_CAPACITY_FACTOR_def)
  have impl: "io_window_write_impl wr d s =
      (if length (win_data s) + length d > 2 * n
       then sbind (io_window_flush_chunk wr ?s) (\<lambda>t. Inr (Inr (length d), t)) else Inr (Inr (length d), ?s))"
    using s unfolding io_window_write_impl_def Let_def take
    by (simp add: WINDOW_FLUSH_THRESHOLD_FACTOR_def win_ok_def mult.commute)
  show "\<exists>w'. io_window_write_impl wr d s = Inr (Inr (length d), w') \<and> win_written w' = win_written s @ d \<and>
      win_room w' = win_room s - length d \<and> win_ok n w'"
  proof (cases "length (win_data s) + length d > 2 * n")
    case False
    then have "io_window_write_impl wr d s = Inr (Inr (length d), ?s)"
      by (simp add: impl)
    then show ?thesis using s d False by (auto simp: win_written_def win_room_def win_ok_def)
  next
    case True
    define e where "e = win_data s @ d"
    let ?c = "take n e"
    have len: "length ?c = n" using True by (simp add: e_def)
    have "n \<le> room (win_writer s)" "okw (win_writer s)" using s d True by (auto simp: win_ok_def win_room_def)
    then obtain w' where w': "wr ?c (win_writer s) = Inr (Inr n, w')" "written w' = written (win_writer s) @ ?c"
      "room w' = room (win_writer s) - n" "okw w'"
      using wr_written [of "win_writer s" ?c, unfolded len] n by auto
    let ?t = "\<lparr>win_data = drop n e, win_capacity = n, win_writer = w'\<rparr>"
    have "io_window_flush_chunk wr ?s = Inr ?t"
      using True s w'(1) by (simp add: io_window_flush_chunk_def Let_def win_ok_def min_absorb2 e_def [symmetric])
        (simp add: e_def)
    then have "io_window_write_impl wr d s = Inr (Inr (length d), ?t)"
      using True by (simp add: impl)
    moreover have "win_written ?t = win_written s @ d"
      by (simp add: win_written_def w'(2)) (simp add: e_def)
    moreover have "win_room ?t = win_room s - length d" "win_ok n ?t"
      using s d True w' by (auto simp: win_room_def win_ok_def e_def)
    ultimately show ?thesis by blast
  qed
qed

lemma io_window_flush_all_written:
  assumes "win_ok n s" "2 * n \<le> lim"
  obtains t where "io_window_flush_all wr s = Inr t" "written (win_writer t) = win_written s" "room (win_writer t) = win_room s" "okw (win_writer t)"
  using write_cases [of "win_writer s" "win_data s"] assms
  by (force simp: win_ok_def win_written_def win_room_def io_window_flush_all_def)

end

end
