(* ===== verification/Deflate.thy ===== *)
theory Deflate
  imports Huff Sources
begin

text \<open>
  The deflate codec (\<open>codec-deflate\<close>): decompression (\<open>inflate.c\<close>) and compression at level 0
  (\<open>deflate.c\<close>). The loops over blocks and symbols end when the input says so; \<open>fuel\<close> bounds their turns,
  and \<open>deflate_decompress_terminates\<close> gives the fuel that is enough for every input.
\<close>

section \<open>constants.h and the tables of inflate.c\<close>

definition DEFLATE_BLOCKTYPE_UNCOMPRESSED :: u32 where "DEFLATE_BLOCKTYPE_UNCOMPRESSED = 0"
definition DEFLATE_BLOCKTYPE_STATIC_HUFFMAN :: u32 where "DEFLATE_BLOCKTYPE_STATIC_HUFFMAN = 1"
definition DEFLATE_BLOCKTYPE_DYNAMIC_HUFFMAN :: u32 where "DEFLATE_BLOCKTYPE_DYNAMIC_HUFFMAN = 2"
definition DEFLATE_MAX_NUM_LITLEN_SYMS :: u32 where "DEFLATE_MAX_NUM_LITLEN_SYMS = 286"
definition DEFLATE_MAX_NUM_OFFSET_SYMS :: u32 where "DEFLATE_MAX_NUM_OFFSET_SYMS = 30"
definition DEFLATE_NUM_PRECODE_SYMS :: nat where "DEFLATE_NUM_PRECODE_SYMS = 19"

definition LENS_BASE :: "nat list" where
  "LENS_BASE =
     [3, 4, 5, 6, 7, 8, 9, 10, 11, 13, 15, 17, 19, 23, 27, 31,
      35, 43, 51, 59, 67, 83, 99, 115, 131, 163, 195, 227, 258, 0]"

definition LENS_BITS :: "nat list" where
  "LENS_BITS =
     [0, 0, 0, 0, 0, 0, 0, 0, 1, 1,
      1, 1, 2, 2, 2, 2, 3, 3, 3, 3,
      4, 4, 4, 4, 5, 5, 5, 5, 0, 127]"

definition DIST_BASE :: "nat list" where
  "DIST_BASE =
     [1, 2, 3, 4, 5, 7, 9, 13, 17, 25, 33, 49, 65, 97, 129, 193,
      257, 385, 513, 769, 1025, 1537, 2049, 3073, 4097, 6145,
      8193, 12289, 16385, 24577]"

definition DIST_BITS :: "nat list" where
  "DIST_BITS =
     [0, 0, 0, 0, 1, 1, 2, 2, 3, 3,
      4, 4, 5, 5, 6, 6, 7, 7, 8, 8,
      9, 9, 10, 10, 11, 11, 12, 12, 13, 13, 0, 0]"

definition precode_order :: "nat list" where
  "precode_order = [16, 17, 18, 0, 8, 7, 9, 6, 10, 5, 11, 4, 12, 3, 13, 2, 14, 1, 15]"

definition tab_get :: "'a list \<Rightarrow> nat \<Rightarrow> fault + 'a" where
  "tab_get xs i = (if i < length xs then Inr (xs ! i) else Inl OutOfBounds)"

section \<open>The decompressor\<close>

record ('r, 'w) inflate =
  length_tree :: huff_tree
  dist_tree :: huff_tree
  window :: "'w window"
  bit_reader :: "'r rbits"

definition on_bits :: "('r rbits, 'a) io \<Rightarrow> (('r, 'w) inflate, 'a) io" where
  "on_bits = io_on bit_reader (\<lambda>b s. s\<lparr>bit_reader := b\<rparr>)"

definition on_window :: "('w window, 'a) io \<Rightarrow> (('r, 'w) inflate, 'a) io" where
  "on_window = io_on window (\<lambda>w s. s\<lparr>window := w\<rparr>)"

subsection \<open>build_dynamic_huff_trees\<close>

fun read_precode :: "'r reader \<Rightarrow> nat list \<Rightarrow> u8 option list \<Rightarrow> ('r rbits, u8 option list) io" where
  "read_precode read [] lengths = io_ok lengths"
| "read_precode read (o1 # os) lengths =
     io_bind (ensure_pop read 3) (\<lambda>v.
     io_bind (io_lift (arr_set lengths o1 (ucast v))) (\<lambda>lengths.
     read_precode read os lengths))"

fun fill_lengths :: "nat \<Rightarrow> u16 \<Rightarrow> nat \<Rightarrow> u8 option list \<Rightarrow> fault + u8 option list" where
  "fill_lengths 0 symbol num lengths = Inr lengths"
| "fill_lengths (Suc n) symbol num lengths =
     sbind (arr_set lengths num (ucast symbol)) (fill_lengths n symbol (num + 1))"

text \<open>
  One code length symbol: the value and how often it is repeated. The symbol 16 repeats the length
  before; at the start of the array this reads in front of it.
\<close>

definition length_symbol :: "'r reader \<Rightarrow> u16 \<Rightarrow> u8 option list \<Rightarrow> nat \<Rightarrow> ('r rbits, u16 \<times> nat) io" where
  "length_symbol read symbol lengths num =
     (if symbol = 16 then
        io_bind (ensure_pop read 2) (\<lambda>n.
        if num = 0 then io_fault OutOfBounds
        else io_bind (io_lift (arr_get lengths (num - 1))) (\<lambda>l. io_ok (ucast l, unat n + 3)))
      else if symbol = 17 then io_bind (ensure_pop read 3) (\<lambda>n. io_ok (0, unat n + 3))
      else if symbol = 18 then io_bind (ensure_pop read 7) (\<lambda>n. io_ok (0, unat n + 11))
      else io_ok (symbol, 1))"

text \<open>Every turn writes at least one length, so their number bounds the turns.\<close>

fun read_lengths :: "nat \<Rightarrow> 'r reader \<Rightarrow> huff_tree \<Rightarrow> nat \<Rightarrow> nat \<Rightarrow> u8 option list \<Rightarrow> ('r rbits, u8 option list) io" where
  "read_lengths turns read tree n num lengths =
     (if num < n
      then case turns of
             0 \<Rightarrow> io_fault OutOfFuel
           | Suc turns \<Rightarrow>
               io_bind (huff_decoder_next read tree) (\<lambda>symbol.
               io_bind (length_symbol read symbol lengths num) (\<lambda>(symbol, repeat_count).
               if repeat_count > n - num then io_err ERR_BAD_DATA
               else io_bind (io_lift (fill_lengths repeat_count symbol num lengths)) (\<lambda>lengths.
                    read_lengths turns read tree n (num + repeat_count) lengths)))
      else io_ok lengths)"

declare read_lengths.simps [simp del]

definition io_try :: "fault + (io_error + 'a) \<Rightarrow> ('s, 'a) io" where
  "io_try m s = sbind m (\<lambda>r. Inr (r, s))"

definition build_dynamic_huff_trees :: "'r reader \<Rightarrow> (('r, 'w) inflate, unit) io" where
  "build_dynamic_huff_trees read =
     io_bind (io_ignore (on_bits (io_rbits_ensure_bits read 14))) (\<lambda>_.
     io_bind (on_bits (io_rbits_pop_bits 5)) (\<lambda>v. let hlit = v + 257 in
     io_bind (on_bits (io_rbits_pop_bits 5)) (\<lambda>v. let hdist = v + 1 in
     io_bind (on_bits (io_rbits_pop_bits 4)) (\<lambda>v. let hclen = v + 4 in
     if hlit > DEFLATE_MAX_NUM_LITLEN_SYMS \<or> hdist > DEFLATE_MAX_NUM_OFFSET_SYMS
     then io_err ERR_TOO_MANY_SYMBOLS
     else
       let lengths = replicate DEFLATE_NUM_PRECODE_SYMS (Some 0) @ replicate (288 + 32 - DEFLATE_NUM_PRECODE_SYMS) None in
       io_bind (on_bits (read_precode read (take (unat hclen) precode_order) lengths)) (\<lambda>lengths.
       io_bind (io_get length_tree) (\<lambda>t.
       io_bind (io_try (build_huff_tree t lengths DEFLATE_NUM_PRECODE_SYMS)) (\<lambda>t.
       io_bind (io_put (\<lambda>s. s\<lparr>length_tree := t\<rparr>)) (\<lambda>_.
       io_bind (on_bits (read_lengths (unat (hdist + hlit)) read t (unat (hdist + hlit)) 0 lengths)) (\<lambda>lengths.
       io_bind (io_lift (arr_get lengths 256)) (\<lambda>l.
       if l = 0 then io_err ERR_INVALID_CODE
       else
         io_bind (io_try (build_huff_tree t lengths (unat hlit))) (\<lambda>t.
         io_bind (io_put (\<lambda>s. s\<lparr>length_tree := t\<rparr>)) (\<lambda>_.
         io_bind (io_get dist_tree) (\<lambda>d.
         io_bind (io_try (build_huff_tree d (drop (unat hlit) lengths) (unat hdist))) (\<lambda>d.
         io_put (\<lambda>s. s\<lparr>dist_tree := d\<rparr>)))))))))))))))"

subsection \<open>build_static_huff_trees\<close>

definition set_symbols :: "nat \<Rightarrow> nat \<Rightarrow> nat \<Rightarrow> u16 option list \<Rightarrow> u16 option list" where
  "set_symbols n at first = fold (\<lambda>i syms. syms[at + i := Some (of_nat (first + i))]) [0..<n]"

definition static_length_tree :: "huff_tree \<Rightarrow> huff_tree" where
  "static_length_tree lt =
     (let counts = (replicate 16 0)[7 := 24, 8 := 152, 9 := 112];
          syms = set_symbols 24 0 256 (symbols lt);
          syms = set_symbols 144 24 0 syms;
          syms = set_symbols 8 (24 + 144) 280 syms;
          syms = set_symbols 112 (24 + 144 + 8) 144 syms
      in \<lparr>counts = counts, symbols = syms, max_sym = 285\<rparr>)"

definition static_dist_tree :: "huff_tree \<Rightarrow> huff_tree" where
  "static_dist_tree dt =
     \<lparr>counts = (replicate 16 0)[5 := 32], symbols = set_symbols 32 0 0 (symbols dt), max_sym = 29\<rparr>"

definition build_static_huff_trees :: "('r, 'w) inflate \<Rightarrow> ('r, 'w) inflate" where
  "build_static_huff_trees ctx =
     ctx\<lparr>length_tree := static_length_tree (length_tree ctx), dist_tree := static_dist_tree (dist_tree ctx)\<rparr>"

subsection \<open>deflate_decompress_block\<close>

definition window_write :: "'w writer \<Rightarrow> u8 list \<Rightarrow> (('r, 'w) inflate, nat) io" where
  "window_write write data = on_window (io_window_write_impl write data)"

fun copy_match :: "'w writer \<Rightarrow> nat \<Rightarrow> nat \<Rightarrow> (('r, 'w) inflate, unit) io" where
  "copy_match write 0 offset = io_ok ()"
| "copy_match write (Suc n) offset =
     io_bind (io_get window) (\<lambda>w.
     io_bind (io_lift (io_window_peek_from_back offset w)) (\<lambda>val.
     io_bind (window_write write [val]) (\<lambda>_.
     copy_match write n offset)))"

text \<open>The length and the offset of a match; the distance symbol is not checked before the tables are read with it.\<close>

definition read_match :: "'r reader \<Rightarrow> u16 \<Rightarrow> (('r, 'w) inflate, nat \<times> nat) io" where
  "read_match read symbol =
     io_bind (io_lift (tab_get LENS_BITS (unat symbol))) (\<lambda>lb.
     io_bind (on_bits (ensure_pop read lb)) (\<lambda>extra.
     io_bind (io_lift (tab_get LENS_BASE (unat symbol))) (\<lambda>base.
     let len = base + unat extra in
     io_bind (io_get dist_tree) (\<lambda>dt.
     io_bind (on_bits (huff_decoder_next read dt)) (\<lambda>dist.
     io_bind (io_lift (tab_get DIST_BITS (unat dist))) (\<lambda>db.
     io_bind (on_bits (ensure_pop read db)) (\<lambda>extra.
     io_bind (io_lift (tab_get DIST_BASE (unat dist))) (\<lambda>base.
     io_ok (len, base + unat extra)))))))))"

fun decode_symbols :: "nat \<Rightarrow> 'r reader \<Rightarrow> 'w writer \<Rightarrow> nat \<Rightarrow> (('r, 'w) inflate, nat) io" where
  "decode_symbols 0 read write decompressed_size = io_fault OutOfFuel"
| "decode_symbols (Suc fuel) read write decompressed_size =
     io_bind (io_get id) (\<lambda>ctx.
     io_bind (on_bits (huff_decoder_next read (length_tree ctx))) (\<lambda>symbol.
     if symbol < 256 then
       io_bind (window_write write [ucast symbol]) (\<lambda>_.
       decode_symbols fuel read write (decompressed_size + 1))
     else if symbol = 256 then io_ok decompressed_size
     else if uint symbol > max_sym (length_tree ctx) \<or> uint symbol - 257 > 28 \<or> max_sym (dist_tree ctx) = -1
     then io_err ERR_BAD_DATA
     else
       io_bind (read_match read (symbol - 257)) (\<lambda>(len, offset).
       io_bind (copy_match write len offset) (\<lambda>_.
       decode_symbols fuel read write (decompressed_size + len)))))"

definition le16 :: "u8 list \<Rightarrow> u16" where
  "le16 bs = ucast (bs ! 0) OR push_bit 8 (ucast (bs ! 1))"

text \<open>\<open>io_copy_n\<close> from the reader of the bits into the window.\<close>

definition on_stream :: "('r \<times> 'w window, 'a) io \<Rightarrow> (('r, 'w) inflate, 'a) io" where
  "on_stream = io_on (\<lambda>s. (rb_reader (bit_reader s), window s))
     (\<lambda>p s. s\<lparr>bit_reader := (bit_reader s)\<lparr>rb_reader := fst p\<rparr>, window := snd p\<rparr>)"

definition stored_block :: "'r reader \<Rightarrow> 'w writer \<Rightarrow> (('r, 'w) inflate, nat) io" where
  "stored_block read write =
     io_bind (on_bits io_rbits_align) (\<lambda>_.
     io_bind (on_bits (on_reader (io_read_bytes read 2))) (\<lambda>len.
     io_bind (on_bits (on_reader (io_read_bytes read 2))) (\<lambda>nlen.
     io_bind (io_assert (le16 len = NOT (le16 nlen)) ''len == (uint16_t)~nlen'') (\<lambda>_.
     on_stream (io_copy_n read (io_window_write_impl write) (unat (le16 len)))))))"

definition deflate_decompress_block :: "nat \<Rightarrow> 'r reader \<Rightarrow> 'w writer \<Rightarrow> (('r, 'w) inflate, bool \<times> nat) io" where
  "deflate_decompress_block fuel read write =
     io_bind (io_ignore (on_bits (io_rbits_ensure_bits read (1 + 2)))) (\<lambda>_.
     io_bind (on_bits (io_rbits_pop_bits 1)) (\<lambda>final_block.
     io_bind (on_bits (io_rbits_pop_bits 2)) (\<lambda>block_type.
     if block_type = DEFLATE_BLOCKTYPE_UNCOMPRESSED then
       io_bind (stored_block read write) (\<lambda>n. io_ok (final_block \<noteq> 0, n))
     else if block_type = DEFLATE_BLOCKTYPE_STATIC_HUFFMAN \<or> block_type = DEFLATE_BLOCKTYPE_DYNAMIC_HUFFMAN then
       io_bind (if block_type = DEFLATE_BLOCKTYPE_DYNAMIC_HUFFMAN then build_dynamic_huff_trees read
                else io_put build_static_huff_trees) (\<lambda>_.
       io_bind (decode_symbols fuel read write 0) (\<lambda>n. io_ok (final_block \<noteq> 0, n)))
     else io_err ERR_UNKNOWN_BLOCK)))"

fun decompress_blocks :: "nat \<Rightarrow> 'r reader \<Rightarrow> 'w writer \<Rightarrow> nat \<Rightarrow> (('r, 'w) inflate, nat) io" where
  "decompress_blocks 0 read write count = io_fault OutOfFuel"
| "decompress_blocks (Suc fuel) read write count =
     io_bind (deflate_decompress_block fuel read write) (\<lambda>(final_block, n).
     if final_block then io_ok (count + n) else decompress_blocks fuel read write (count + n))"

definition inflate_init :: "'r \<Rightarrow> 'w \<Rightarrow> ('r, 'w) inflate" where
  "inflate_init r w = \<lparr>length_tree = huff_tree_undefined, dist_tree = huff_tree_undefined,
     window = io_window_init w 0x8000, bit_reader = io_rbits_init r\<rparr>"

text \<open>On an error the window is neither flushed nor freed.\<close>

definition deflate_decompress_stream :: "nat \<Rightarrow> 'r reader \<Rightarrow> 'w writer \<Rightarrow> ('r \<times> 'w, nat) io" where
  "deflate_decompress_stream fuel read write = (\<lambda>(r, w).
     sbind (decompress_blocks fuel read write 0 (inflate_init r w)) (\<lambda>(result, ctx).
     case result of
       Inl e \<Rightarrow> Inr (Inl e, (rb_reader (bit_reader ctx), win_writer (window ctx)))
     | Inr count \<Rightarrow>
         sbind (io_window_flush_all write (window ctx)) (\<lambda>wd.
         Inr (Inr count, (rb_reader (bit_reader ctx), win_writer wd)))))"

text \<open>The result of a call on two buffers: the value or error, and the contents of the output.\<close>

definition deflate_decompress_data :: "nat \<Rightarrow> u8 list \<Rightarrow> u8 list \<Rightarrow> fault + ((io_error + nat) \<times> u8 list)" where
  "deflate_decompress_data fuel input output =
     sbind (deflate_decompress_stream fuel io_mem_read io_mem_write_impl (io_mem_init input, io_mem_init output))
       (\<lambda>(result, (_, w)). Inr (result, mem_data w))"

section \<open>The compressor\<close>

datatype compress_block_impl = Block_Uncompressed

record compressor =
  compression_level :: int
  min_size_to_compress :: int
  block_impl :: "compress_block_impl option"

definition deflate_init :: "int \<Rightarrow> compressor" where
  "deflate_init level =
     \<lparr>compression_level = level, min_size_to_compress = 56 - level * 4,
      block_impl = (if level = 0 then Some Block_Uncompressed else None)\<rparr>"

definition deflate_write_block_header :: "'w writer \<Rightarrow> bool \<Rightarrow> u64 \<Rightarrow> 'w wbits \<Rightarrow> fault + 'w wbits" where
  "deflate_write_block_header write is_final_block block_type bw =
     (let bw = io_wbits_add_bits (if is_final_block then 1 else 0) 1 bw;
          bw = io_wbits_add_bits block_type 2 bw
      in io_wbits_flush_bits write bw)"

definition le16_bytes :: "u16 \<Rightarrow> u8 list" where
  "le16_bytes v = [ucast v, ucast (drop_bit 8 v)]"

definition wbits_write :: "'w writer \<Rightarrow> u8 list \<Rightarrow> 'w wbits \<Rightarrow> fault + 'w wbits" where
  "wbits_write write data bw = sbind (write data (wb_writer bw)) (\<lambda>(_, w). Inr (bw\<lparr>wb_writer := w\<rparr>))"

definition deflate_compress_block_uncompressed :: "'w writer \<Rightarrow> u8 list \<Rightarrow> bool \<Rightarrow> 'w wbits \<Rightarrow> fault + ((io_error + nat) \<times> 'w wbits)" where
  "deflate_compress_block_uncompressed write data is_last bw =
     sbind (deflate_write_block_header write is_last (ucast DEFLATE_BLOCKTYPE_UNCOMPRESSED) bw) (\<lambda>bw.
     sbind (io_wbits_align_bitstream write bw) (\<lambda>bw.
     let block_len = of_nat (length data) :: u16; block_len_inv = ucast (NOT (of_nat (length data) :: u64)) :: u16 in
     sbind (wbits_write write (le16_bytes block_len) bw) (\<lambda>bw.
     sbind (wbits_write write (le16_bytes block_len_inv) bw) (\<lambda>bw.
     sbind (wbits_write write data bw) (\<lambda>bw.
     Inr (Inr (length data + 5), bw))))))"

definition UINT16_MAX :: nat where "UINT16_MAX = 65535"

fun compress_blocks :: "nat \<Rightarrow> 'r reader \<Rightarrow> 'w writer \<Rightarrow> compressor \<Rightarrow> nat \<Rightarrow> ('r \<times> 'w wbits, nat) io" where
  "compress_blocks 0 read write ctx count = io_fault OutOfFuel"
| "compress_blocks (Suc fuel) read write ctx count =
     io_bind (io_fst (read UINT16_MAX)) (\<lambda>buf.
     let last = length buf < UINT16_MAX in
     io_bind (case block_impl ctx of
                None \<Rightarrow> io_fault Uninitialised
              | Some Block_Uncompressed \<Rightarrow> io_snd (deflate_compress_block_uncompressed write buf last)) (\<lambda>n.
     if last then io_ok (count + n) else compress_blocks fuel read write ctx (count + n)))"

definition deflate_compress_stream :: "nat \<Rightarrow> 'r reader \<Rightarrow> 'w writer \<Rightarrow> compressor \<Rightarrow> ('r \<times> 'w, nat) io" where
  "deflate_compress_stream fuel read write ctx = (\<lambda>(r, w).
     sbind (compress_blocks fuel read write ctx 0 (r, io_wbits_init w)) (\<lambda>(result, (r, bw)). Inr (result, (r, wb_writer bw))))"

definition deflate_compress_data :: "nat \<Rightarrow> compressor \<Rightarrow> u8 list \<Rightarrow> u8 list \<Rightarrow> fault + ((io_error + nat) \<times> u8 list)" where
  "deflate_compress_data fuel ctx input output =
     sbind (deflate_compress_stream fuel io_mem_read io_mem_write_impl ctx (io_mem_init input, io_mem_init output))
       (\<lambda>(result, (_, w)). Inr (result, mem_data w))"

end
