(* ===== verification/Gzip.thy ===== *)
theory Gzip
  imports Deflate
begin

text \<open>
  The containers around deflate streams: \<open>codec-gzip\<close> (\<open>gzip.c\<close>) and \<open>codec-zlib\<close> (\<open>zlib.c\<close>). A stream
  function works on a pair of a reader and a writer.
\<close>

section \<open>gzip.c\<close>

definition FLAG_TEXT :: u8 where "FLAG_TEXT = 1"
definition FLAG_HCRC :: u8 where "FLAG_HCRC = 2"
definition FLAG_EXTRA :: u8 where "FLAG_EXTRA = 4"
definition FLAG_NAME :: u8 where "FLAG_NAME = 8"
definition FLAG_COMMENT :: u8 where "FLAG_COMMENT = 16"

definition le32 :: "u8 list \<Rightarrow> u32" where
  "le32 bs = ucast (bs ! 0) OR push_bit 8 (ucast (bs ! 1)) OR push_bit 16 (ucast (bs ! 2)) OR push_bit 24 (ucast (bs ! 3))"

definition le32_bytes :: "u32 \<Rightarrow> u8 list" where
  "le32_bytes v = [ucast v, ucast (drop_bit 8 v), ucast (drop_bit 16 v), ucast (drop_bit 24 v)]"

definition be32 :: "u8 list \<Rightarrow> u32" where
  "be32 bs = le32 (rev bs)"

text \<open>Reading into a variable that has a value: with no byte left the variable keeps it.\<close>

definition io_read_over :: "'r reader \<Rightarrow> u8 \<Rightarrow> ('r, u8) io" where
  "io_read_over read old = io_bind (read 1) (\<lambda>bs. io_ok (if bs = [] then old else bs ! 0))"

definition gzip_probe :: "'r reader \<Rightarrow> ('r, nat) io \<Rightarrow> ('r, bool) io" where
  "gzip_probe read seek_start r =
     sbind (read 1 r) (\<lambda>(b1, r).
     sbind (read 1 r) (\<lambda>(b2, r).
     sbind (seek_start r) (\<lambda>(_, r).
     let id1 = (case b1 of Inr (b # _) \<Rightarrow> b | _ \<Rightarrow> 0);
         id2 = (case b2 of Inr (b # _) \<Rightarrow> b | _ \<Rightarrow> 0)
     in Inr (Inr (id1 = 0x1f \<and> id2 = 0x8b), r))))"

text \<open>The loop over a name or a comment: it ends at a zero byte only, not at the end of the input.\<close>

fun skip_string :: "nat \<Rightarrow> 'r reader \<Rightarrow> u8 \<Rightarrow> ('r, unit) io" where
  "skip_string 0 read val = io_fault OutOfFuel"
| "skip_string (Suc fuel) read val =
     io_bind (io_read_over read val) (\<lambda>val. if val \<noteq> 0 then skip_string fuel read val else io_ok ())"

definition when_io :: "bool \<Rightarrow> ('s, unit) io \<Rightarrow> ('s, unit) io" where
  "when_io b m = (if b then m else io_ok ())"

definition has_flag :: "u8 \<Rightarrow> u8 \<Rightarrow> bool" where
  "has_flag flags f = (flags AND f \<noteq> 0)"

definition gzip_header :: "nat \<Rightarrow> 'r reader \<Rightarrow> ('r, unit) io" where
  "gzip_header fuel read =
     io_bind (io_read_byte read) (\<lambda>id1.
     io_bind (io_read_byte read) (\<lambda>id2.
     if id1 \<noteq> 0x1f \<or> id2 \<noteq> 0x8b then io_err ERR_INVALID_DATA else
     io_bind (io_read_byte read) (\<lambda>cm.
     if cm \<noteq> 8 then io_err ERR_NOT_IMPLEMENTED else
     io_bind (io_read_byte read) (\<lambda>flags.
     if flags AND 0xE0 \<noteq> 0 then io_err ERR_INVALID_DATA else
     io_bind (io_skip read 6) (\<lambda>_.
     io_bind (when_io (has_flag flags FLAG_EXTRA)
       (io_bind (io_read_bytes read 2) (\<lambda>v. io_bind (io_skip read (unat (le16 v))) (\<lambda>_. io_ok ())))) (\<lambda>_.
     io_bind (when_io (has_flag flags FLAG_NAME) (skip_string fuel read 0)) (\<lambda>_.
     io_bind (when_io (has_flag flags FLAG_COMMENT) (skip_string fuel read 0)) (\<lambda>_.
     when_io (has_flag flags FLAG_HCRC) (io_bind (io_read_bytes read 2) (\<lambda>_. io_ok ()))))))))))"

text \<open>The part after the header: the data, then its checksum and its length.\<close>

definition gzip_body :: "nat \<Rightarrow> 'r reader \<Rightarrow> 'w writer \<Rightarrow> ('r \<times> (crc32_state \<times> 'w), nat) io" where
  "gzip_body fuel read write =
     io_bind (deflate_decompress_stream fuel read (crc32_writer write)) (\<lambda>decompressed.
     io_bind (io_fst (io_read_bytes read 4)) (\<lambda>v.
     io_bind (io_get (\<lambda>s. crc32_get (fst (snd s)))) (\<lambda>computed_crc32.
     if le32 v \<noteq> computed_crc32 then io_err ERR_CHECKSUM_MISMATCH else
     io_bind (io_fst (io_read_bytes read 4)) (\<lambda>v.
     if unat (le32 v) \<noteq> decompressed then io_err ERR_INVALID_DATA else
     io_ok decompressed))))"

definition gzip_decompress_stream :: "nat \<Rightarrow> 'r reader \<Rightarrow> 'w writer \<Rightarrow> ('r \<times> 'w, nat) io" where
  "gzip_decompress_stream fuel read write =
     io_bind (io_fst (gzip_header fuel read)) (\<lambda>_.
     \<lambda>(r, w). sbind (gzip_body fuel read write (r, (crc32_init_writer, w))) (\<lambda>(result, (r, (_, w))). Inr (result, (r, w))))"

definition gzip_decompress_data :: "nat \<Rightarrow> u8 list \<Rightarrow> u8 list \<Rightarrow> fault + ((io_error + nat) \<times> u8 list)" where
  "gzip_decompress_data fuel input output =
     sbind (gzip_decompress_stream fuel io_mem_read io_mem_write_impl (io_mem_init input, io_mem_init output))
       (\<lambda>(result, (_, w)). Inr (result, mem_data w))"

fun write_bytes :: "'w writer \<Rightarrow> u8 list \<Rightarrow> ('w, unit) io" where
  "write_bytes write [] = io_ok ()"
| "write_bytes write (b # bs) = io_bind (io_write_byte write b) (\<lambda>_. write_bytes write bs)"

definition gzip_compress_stream :: "nat \<Rightarrow> 'r reader \<Rightarrow> 'w writer \<Rightarrow> ('r \<times> 'w, nat) io" where
  "gzip_compress_stream fuel read write =
     io_bind (io_snd (write_bytes write ([0x1f, 0x8b, 8, 0] @ replicate 6 0))) (\<lambda>_.
     \<lambda>(r, w).
       sbind (deflate_compress_stream fuel (crc32_reader read) write (deflate_init 0) ((crc32_init_reader, r), w)) (\<lambda>(result, ((c, r), w)).
       case result of
         Inl e \<Rightarrow> Inr (Inl e, (r, w))
       | Inr compressed \<Rightarrow>
           io_bind (io_snd (write (le32_bytes (crc32_get c)))) (\<lambda>_.
           io_bind (io_snd (write (le32_bytes (ucast (crc32_count c))))) (\<lambda>_.
           io_ok compressed)) (r, w)))"

definition gzip_compress_data :: "nat \<Rightarrow> u8 list \<Rightarrow> u8 list \<Rightarrow> fault + ((io_error + nat) \<times> u8 list)" where
  "gzip_compress_data fuel input output =
     sbind (gzip_compress_stream fuel io_mem_read io_mem_write_impl (io_mem_init input, io_mem_init output))
       (\<lambda>(result, (_, w)). Inr (result, mem_data w))"

section \<open>zlib.c\<close>

definition zlib_header :: "'r reader \<Rightarrow> ('r, unit) io" where
  "zlib_header read =
     io_bind (io_read_byte read) (\<lambda>cmf.
     io_bind (io_read_byte read) (\<lambda>flg.
     if (256 * unat cmf + unat flg) mod 31 \<noteq> 0 then io_err ERR_INVALID_DATA
     else if cmf AND 0x0F \<noteq> 8 then io_err ERR_NOT_IMPLEMENTED
     else if drop_bit 4 cmf > 7 then io_err ERR_INVALID_DATA
     else if flg AND 0x20 \<noteq> 0 then io_err ERR_NOT_IMPLEMENTED
     else io_ok ()))"

definition zlib_body :: "nat \<Rightarrow> 'r reader \<Rightarrow> 'w writer \<Rightarrow> ('r \<times> (adler32_state \<times> 'w), nat) io" where
  "zlib_body fuel read write =
     io_bind (deflate_decompress_stream fuel read (adler32_writer write)) (\<lambda>decompressed.
     io_bind (io_fst (io_read_bytes read 4)) (\<lambda>v.
     io_bind (io_get (\<lambda>s. adler32_get (fst (snd s)))) (\<lambda>computed.
     if be32 v \<noteq> computed then io_err ERR_CHECKSUM_MISMATCH else
     io_ok decompressed)))"

definition zlib_decompress_stream :: "nat \<Rightarrow> 'r reader \<Rightarrow> 'w writer \<Rightarrow> ('r \<times> 'w, nat) io" where
  "zlib_decompress_stream fuel read write =
     io_bind (io_fst (zlib_header read)) (\<lambda>_.
     \<lambda>(r, w). sbind (zlib_body fuel read write (r, (adler32_init, w))) (\<lambda>(result, (r, (_, w))). Inr (result, (r, w))))"

definition zlib_decompress_data :: "nat \<Rightarrow> u8 list \<Rightarrow> u8 list \<Rightarrow> fault + ((io_error + nat) \<times> u8 list)" where
  "zlib_decompress_data fuel input output =
     sbind (zlib_decompress_stream fuel io_mem_read io_mem_write_impl (io_mem_init input, io_mem_init output))
       (\<lambda>(result, (_, w)). Inr (result, mem_data w))"

end
