(* ===== verification/Gzip_Props.thy ===== *)
theory Gzip_Props
  imports Gzip
begin

text \<open>
  The gzip codec on stored data: what the compressor writes is the gzip format, and the decompressor
  reads it back. The lemmas hold for every source and sink (locale \<open>codec_streams\<close>) and are
  instantiated with streams over memory.
\<close>

section \<open>Stored blocks\<close>

definition stored_block_bytes :: "bool \<Rightarrow> u8 list \<Rightarrow> u8 list" where
  "stored_block_bytes final d =
     [if final then 1 else 0] @ le16_bytes (of_nat (length d)) @ le16_bytes (NOT (of_nat (length d))) @ d"

lemma length_le16_bytes [simp]: "length (le16_bytes v) = 2"
  by (simp add: le16_bytes_def)

lemma le16_le16_bytes [simp]: "le16 (le16_bytes v) = v"
proof (rule bit_word_eqI)
  fix k assume "k < LENGTH(16)"
  then show "bit (le16 (le16_bytes v)) k = bit v k"
    by (auto simp: le16_def le16_bytes_def bit_simps)
qed

lemma block_header_bits:
  assumes "rb_bitcount s = 0" "rb_bitbuf s = 0" "on_reader (io_read_byte read) s = Inr (Inr (if final then 1 else 0), t)"
    "rb_bitcount t = 0" "rb_bitbuf t = 0"
  shows "io_ignore (io_rbits_ensure_bits read (1 + 2)) s = Inr (Inr (), t\<lparr>rb_bitbuf := (if final then 1 else 0), rb_bitcount := 8\<rparr>)"
  using assms
  by (simp add: io_ignore_def io_rbits_ensure_bits_def io_rbits_can_ensure_def MAX_ENSURE_def io_rbits_fill.simps [of _ _ s]
      io_bind_def shift_in_def io_rbits_fill.simps [of _ _ "_\<lparr>rb_bitbuf := _, rb_bitcount := _\<rparr>"] io_assert_def)

lemma pop_header:
  "io_rbits_pop_bits 1 (t\<lparr>rb_bitbuf := (if final then 1 else 0), rb_bitcount := 8\<rparr>) =
     Inr (Inr (if final then 1 else 0), t\<lparr>rb_bitbuf := 0, rb_bitcount := 7\<rparr>)"
  "io_rbits_pop_bits 2 (t\<lparr>rb_bitbuf := 0, rb_bitcount := 7\<rparr>) = Inr (Inr 0, t\<lparr>rb_bitbuf := 0, rb_bitcount := 5\<rparr>)"
  "io_rbits_align (t\<lparr>rb_bitbuf := 0, rb_bitcount := 5\<rparr>) = Inr (Inr (), t\<lparr>rb_bitbuf := 0, rb_bitcount := 0\<rparr>)"
  by (simp_all add: io_rbits_pop_bits_eq io_rbits_align_def io_rbits_remove_bits_eq)


lemma on_bits_run: "m (bit_reader s) = Inr (x, b) \<Longrightarrow> on_bits m s = Inr (x, s\<lparr>bit_reader := b\<rparr>)"
  by (simp add: on_bits_def io_on_def)

lemma io_ignore_on_bits: "io_ignore (on_bits m) = on_bits (io_ignore m)"
  by (auto simp: fun_eq_iff io_ignore_def on_bits_def io_on_def sbind_def split: sum.splits)

text \<open>The format of stored data: full blocks of 65535 bytes and a last one that is shorter.\<close>

function stored_bytes :: "u8 list \<Rightarrow> u8 list" where
  "stored_bytes d =
     (if length d < UINT16_MAX then stored_block_bytes True d
      else stored_block_bytes False (take UINT16_MAX d) @ stored_bytes (drop UINT16_MAX d))"
  by pat_completeness auto
termination by (relation "measure length") (auto simp: UINT16_MAX_def)

declare stored_bytes.simps [simp del]

text \<open>A source and a sink that takes chunks as large as a window flushes.\<close>

locale codec_streams = byte_source read rest ok + byte_sink wr written room okw lim
  for read :: "'r reader" and rest ok and wr :: "'w writer" and written room okw lim +
  assumes lim_window: "0x10000 \<le> lim"
begin

abbreviation "wok \<equiv> win_ok 0x8000"

lemma window_copy: "byte_copy read rest ok (io_window_write_impl wr) win_written win_room wok 0x8000"
  by (intro byte_copy.intro byte_copy_axioms.intro byte_source_axioms window_sink) (use lim_window in auto)

lemma stored_block_run:
  assumes r: "ok r" "rest r = le16_bytes (of_nat (length d)) @ le16_bytes (NOT (of_nat (length d))) @ d @ tail"
    and s: "bit_reader s = \<lparr>rb_reader = r, rb_bitbuf = 0, rb_bitcount = 5\<rparr>"
    and w: "wok (window s)" "length d \<le> win_room (window s)" and d: "length d < 65536"
  shows "\<exists>r' w'. stored_block read wr s = Inr (Inr (length d), s\<lparr>bit_reader := io_rbits_init r', window := w'\<rparr>)
    \<and> ok r' \<and> rest r' = tail \<and> wok w' \<and> win_written w' = win_written (window s) @ d \<and> win_room w' = win_room (window s) - length d"
proof -
  obtain r1 where r1: "io_read_bytes read 2 r = Inr (Inr (le16_bytes (of_nat (length d))), r1)" "ok r1"
    "rest r1 = le16_bytes (NOT (of_nat (length d))) @ d @ tail"
    using io_read_bytes_rest [OF r(1), of "le16_bytes (of_nat (length d))" _ 2] r(2) by auto
  obtain r2 where r2: "io_read_bytes read 2 r1 = Inr (Inr (le16_bytes (NOT (of_nat (length d)))), r2)" "ok r2" "rest r2 = d @ tail"
    using io_read_bytes_rest [OF r1(2), of "le16_bytes (NOT (of_nat (length d)))" _ 2] r1(3) by auto
  have u: "unat (of_nat (length d) :: u16) = length d" using d by (simp add: unat_of_nat)
  obtain r3 w3 where c: "io_copy_n read (io_window_write_impl wr) (length d) (r2, window s) = Inr (Inr (length d), (r3, w3))"
    "rest r3 = tail" "win_written w3 = win_written (window s) @ d" "win_room w3 = win_room (window s) - length d" "ok r3" "wok w3"
    using byte_copy.io_copy_n_all [OF window_copy r2(2) w(1), of "length d"] w(2) r2(3) by auto
  have align: "io_rbits_align (bit_reader s) = Inr (Inr (), \<lparr>rb_reader = r, rb_bitbuf = 0, rb_bitcount = 0\<rparr>)"
    using pop_header(3) [of "bit_reader s"] s by simp
  have "stored_block read wr s = Inr (Inr (length d), s\<lparr>bit_reader := io_rbits_init r3, window := w3\<rparr>)"
    by (simp add: stored_block_def io_bind_def on_bits_def on_reader_def on_stream_def io_on_def io_assert_def io_rbits_init_def
        align r1 r2 u c)
  with c show ?thesis by blast
qed

lemma decompress_stored:
  assumes r: "ok r" "rest r = stored_block_bytes final d @ tail"
    and s: "bit_reader s = io_rbits_init r"
    and w: "wok (window s)" "length d \<le> win_room (window s)" and d: "length d < 65536"
  shows "\<exists>r' w'. deflate_decompress_block fuel read wr s = Inr (Inr (final, length d), s\<lparr>bit_reader := io_rbits_init r', window := w'\<rparr>)
    \<and> ok r' \<and> rest r' = tail \<and> wok w' \<and> win_written w' = win_written (window s) @ d \<and> win_room w' = win_room (window s) - length d"
proof -
  obtain r1 where r1: "io_read_byte read r = Inr (Inr (if final then 1 else 0), r1)"
    "rest r1 = le16_bytes (of_nat (length d)) @ le16_bytes (NOT (of_nat (length d))) @ d @ tail" "ok r1"
    using io_read_byte_rest [OF r(1)] r(2) by (auto simp: stored_block_bytes_def)
  let ?b = "\<lparr>rb_reader = r1, rb_bitbuf = 0, rb_bitcount = 0\<rparr>"
  have "on_reader (io_read_byte read) (bit_reader s) = Inr (Inr (if final then 1 else 0), ?b)"
    by (simp add: s io_rbits_init_def on_reader_def io_on_def r1(1))
  then have "io_ignore (io_rbits_ensure_bits read (1 + 2)) (bit_reader s) = Inr (Inr (), ?b\<lparr>rb_bitbuf := (if final then 1 else 0), rb_bitcount := 8\<rparr>)"
    by (rule block_header_bits [rotated 2]) (simp_all add: s io_rbits_init_def)
  then have e1: "io_ignore (on_bits (io_rbits_ensure_bits read (1 + 2))) s =
      Inr (Inr (), s\<lparr>bit_reader := ?b\<lparr>rb_bitbuf := (if final then 1 else 0), rb_bitcount := 8\<rparr>\<rparr>)"
    unfolding io_ignore_on_bits by (rule on_bits_run)
  have e2: "on_bits (io_rbits_pop_bits 1) (s\<lparr>bit_reader := ?b\<lparr>rb_bitbuf := (if final then 1 else 0), rb_bitcount := 8\<rparr>\<rparr>) =
      Inr (Inr (if final then 1 else 0), s\<lparr>bit_reader := ?b\<lparr>rb_bitbuf := 0, rb_bitcount := 7\<rparr>\<rparr>)"
    using on_bits_run [of "io_rbits_pop_bits 1" "s\<lparr>bit_reader := ?b\<lparr>rb_bitbuf := (if final then 1 else 0), rb_bitcount := 8\<rparr>\<rparr>"]
      pop_header(1) [where t = ?b] by simp
  have e3: "on_bits (io_rbits_pop_bits 2) (s\<lparr>bit_reader := ?b\<lparr>rb_bitbuf := 0, rb_bitcount := 7\<rparr>\<rparr>) =
      Inr (Inr 0, s\<lparr>bit_reader := ?b\<lparr>rb_bitbuf := 0, rb_bitcount := 5\<rparr>\<rparr>)"
    using on_bits_run [of "io_rbits_pop_bits 2" "s\<lparr>bit_reader := ?b\<lparr>rb_bitbuf := 0, rb_bitcount := 7\<rparr>\<rparr>"]
      pop_header(2) [where t = ?b] by simp
  let ?s = "s\<lparr>bit_reader := \<lparr>rb_reader = r1, rb_bitbuf = 0, rb_bitcount = 5\<rparr>\<rparr>"
  obtain r' w' where b: "stored_block read wr ?s = Inr (Inr (length d), ?s\<lparr>bit_reader := io_rbits_init r', window := w'\<rparr>)"
    "ok r'" "rest r' = tail" "wok w'" "win_written w' = win_written (window s) @ d" "win_room w' = win_room (window s) - length d"
    using stored_block_run [OF r1(3) r1(2), of ?s] w d by auto
  have "deflate_decompress_block fuel read wr s = io_bind (stored_block read wr) (\<lambda>n. io_ok (final, n)) ?s"
    unfolding deflate_decompress_block_def
      io_bind_run [where m = "io_ignore (on_bits (io_rbits_ensure_bits read (1 + 2)))", OF e1]
      io_bind_run [where m = "on_bits (io_rbits_pop_bits 1)", OF e2] io_bind_run [where m = "on_bits (io_rbits_pop_bits 2)", OF e3]
    by (simp add: DEFLATE_BLOCKTYPE_UNCOMPRESSED_def)
  also have "\<dots> = Inr (Inr (final, length d), s\<lparr>bit_reader := io_rbits_init r', window := w'\<rparr>)"
    by (simp add: io_bind_run [where m = "stored_block read wr", OF b(1)] io_ok_def)
  finally show ?thesis using b by blast
qed


lemma decompress_stored_blocks:
  assumes "ok r" "rest r = stored_bytes d @ tail" "bit_reader s = io_rbits_init r" "wok (window s)" "length d \<le> win_room (window s)"
    "length d div UINT16_MAX < fuel"
  shows "\<exists>r' w'. decompress_blocks fuel read wr n s = Inr (Inr (n + length d), s\<lparr>bit_reader := io_rbits_init r', window := w'\<rparr>)
    \<and> ok r' \<and> rest r' = tail \<and> wok w' \<and> win_written w' = win_written (window s) @ d \<and> win_room w' = win_room (window s) - length d"
  using assms
proof (induction d arbitrary: fuel n r s rule: stored_bytes.induct)
  case (1 d)
  then obtain f where f: "fuel = Suc f" by (cases fuel) auto
  show ?case
  proof (cases "length d < UINT16_MAX")
    case True
    then have "rest r = stored_block_bytes True d @ tail" using "1.prems"(2) by (simp add: stored_bytes.simps)
    from decompress_stored [OF "1.prems"(1) this "1.prems"(3-5), of f] True
    obtain r' w' where b: "deflate_decompress_block f read wr s = Inr (Inr (True, length d), s\<lparr>bit_reader := io_rbits_init r', window := w'\<rparr>)"
      "ok r'" "rest r' = tail" "wok w'" "win_written w' = win_written (window s) @ d" "win_room w' = win_room (window s) - length d"
      by (auto simp: UINT16_MAX_def)
    have "decompress_blocks fuel read wr n s = Inr (Inr (n + length d), s\<lparr>bit_reader := io_rbits_init r', window := w'\<rparr>)"
      by (simp add: f io_bind_run [where m = "deflate_decompress_block f read wr", OF b(1)] io_ok_def)
    then show ?thesis using b by blast
  next
    case False
    let ?d = "take UINT16_MAX d"
    have len: "length ?d = UINT16_MAX" using False by simp
    have "rest r = stored_block_bytes False ?d @ stored_bytes (drop UINT16_MAX d) @ tail"
      using False "1.prems"(2) by (simp add: stored_bytes.simps [of d])
    from decompress_stored [OF "1.prems"(1) this "1.prems"(3,4), of f] len False "1.prems"(5)
    obtain r1 w1 where b: "deflate_decompress_block f read wr s = Inr (Inr (False, UINT16_MAX), s\<lparr>bit_reader := io_rbits_init r1, window := w1\<rparr>)"
      "ok r1" "rest r1 = stored_bytes (drop UINT16_MAX d) @ tail" "wok w1" "win_written w1 = win_written (window s) @ ?d"
      "win_room w1 = win_room (window s) - UINT16_MAX"
      by (auto simp: UINT16_MAX_def)
    let ?s = "s\<lparr>bit_reader := io_rbits_init r1, window := w1\<rparr>"
    have fuel: "length (drop UINT16_MAX d) div UINT16_MAX < f"
      using "1.prems"(6) False f le_div_geq [of UINT16_MAX "length d"] by (simp add: UINT16_MAX_def)
    have room: "length (drop UINT16_MAX d) \<le> win_room w1" using b(6) "1.prems"(5) by simp
    from "1.IH" [OF False b(2,3), of ?s f "n + UINT16_MAX"] b(4) fuel room
    obtain r' w' where i: "decompress_blocks f read wr (n + UINT16_MAX) ?s = Inr (Inr (n + UINT16_MAX + length (drop UINT16_MAX d)), ?s\<lparr>bit_reader := io_rbits_init r', window := w'\<rparr>)"
      "ok r'" "rest r' = tail" "wok w'" "win_written w' = win_written w1 @ drop UINT16_MAX d" "win_room w' = win_room w1 - length (drop UINT16_MAX d)"
      by auto
    have "decompress_blocks fuel read wr n s = decompress_blocks f read wr (n + UINT16_MAX) ?s"
      by (simp add: f io_bind_run [where m = "deflate_decompress_block f read wr", OF b(1)])
    then have "decompress_blocks fuel read wr n s = Inr (Inr (n + length d), s\<lparr>bit_reader := io_rbits_init r', window := w'\<rparr>)"
      using i(1) False by simp
    moreover have "win_written w' = win_written (window s) @ d" "win_room w' = win_room (window s) - length d"
      using i(5,6) b(5,6) False by simp_all
    ultimately show ?thesis using i by blast
  qed
qed

lemma deflate_decompress_stored:
  assumes "ok r" "rest r = stored_bytes d @ tail" "okw w" "length d \<le> room w" "length d div UINT16_MAX < fuel"
  shows "\<exists>r' w'. deflate_decompress_stream fuel read wr (r, w) = Inr (Inr (length d), (r', w')) \<and> ok r' \<and> rest r' = tail
    \<and> okw w' \<and> written w' = written w @ d \<and> room w' = room w - length d"
proof -
  let ?s = "inflate_init r w"
  have init: "bit_reader ?s = io_rbits_init r" "wok (window ?s)" "win_written (window ?s) = written w" "win_room (window ?s) = room w"
    using assms(3) by (simp_all add: inflate_init_def io_window_init_def win_ok_def win_written_def win_room_def)
  from decompress_stored_blocks [OF assms(1,2) init(1,2) _ assms(5), of 0] assms(4) init(3,4)
  obtain r' w' where b: "decompress_blocks fuel read wr 0 ?s = Inr (Inr (length d), ?s\<lparr>bit_reader := io_rbits_init r', window := w'\<rparr>)"
    "ok r'" "rest r' = tail" "wok w'" "win_written w' = written w @ d" "win_room w' = room w - length d" by auto
  obtain t where t: "io_window_flush_all wr w' = Inr t" "written (win_writer t) = written w @ d" "room (win_writer t) = room w - length d" "okw (win_writer t)"
    using io_window_flush_all_written [OF b(4)] b(5,6) lim_window by auto
  then show ?thesis using b by (simp add: deflate_decompress_stream_def io_rbits_init_def)
qed


lemma io_write_run:
  assumes "okw w" "length d \<le> room w" "length d \<le> lim"
  shows "\<exists>w'. wr d w = Inr (Inr (length d), w') \<and> okw w' \<and> written w' = written w @ d \<and> room w' = room w - length d"
  using wr_written [OF assms] by blast

lemma compress_stored_block:
  assumes w: "okw w" "length d + 5 \<le> room w" and d: "length d \<le> UINT16_MAX"
  shows "\<exists>w'. deflate_compress_block_uncompressed wr d final (io_wbits_init w) = Inr (Inr (length d + 5), io_wbits_init w')
    \<and> okw w' \<and> written w' = written w @ stored_block_bytes final d \<and> room w' = room w - (length d + 5)"
proof -
  let ?h = "[if final then 1 else 0] :: u8 list" and ?n = "of_nat (length d) :: u16"
  have le: "2 \<le> room w - 1" "2 \<le> room w - 1 - 2" "length d \<le> room w - 1 - 2 - 2" using w(2) by linarith+
  obtain w1 where w1: "wr ?h w = Inr (Inr 1, w1)" "okw w1" "written w1 = written w @ ?h" "room w1 = room w - 1"
    using io_write_run [OF w(1), of ?h] w(2) lim_window by auto
  obtain w2 where w2: "wr (le16_bytes ?n) w1 = Inr (Inr 2, w2)" "okw w2" "written w2 = written w1 @ le16_bytes ?n" "room w2 = room w1 - 2"
    using io_write_run [OF w1(2), of "le16_bytes ?n"] le(1) w1(4) lim_window by auto
  obtain w3 where w3: "wr (le16_bytes (NOT ?n)) w2 = Inr (Inr 2, w3)" "okw w3" "written w3 = written w2 @ le16_bytes (NOT ?n)" "room w3 = room w2 - 2"
    using io_write_run [OF w2(2), of "le16_bytes (NOT ?n)"] le(2) w1(4) w2(4) lim_window by auto
  obtain w4 where w4: "wr d w3 = Inr (Inr (length d), w4)" "okw w4" "written w4 = written w3 @ d" "room w4 = room w3 - length d"
    using io_write_run [OF w3(2), of d] le(3) w1(4) w2(4) w3(4) lim_window d by (auto simp: UINT16_MAX_def)
  have inv: "ucast (NOT (of_nat (length d) :: u64)) = NOT ?n"
    by (rule bit_word_eqI) (auto simp: bit_simps)
  let ?b = "if final then 1 else 0 :: u64"
  have hdr: "deflate_write_block_header wr final (ucast DEFLATE_BLOCKTYPE_UNCOMPRESSED) (io_wbits_init w) =
      Inr \<lparr>wb_writer = w, wb_bitbuf = ?b, wb_bitcount = 3\<rparr>"
    by (simp add: deflate_write_block_header_def io_wbits_init_def io_wbits_add_bits_def Let_def io_wbits_flush_bits.simps
        DEFLATE_BLOCKTYPE_UNCOMPRESSED_def)
  have align: "io_wbits_align_bitstream wr \<lparr>wb_writer = w, wb_bitbuf = ?b, wb_bitcount = 3\<rparr> = Inr (io_wbits_init w1)"
    using w1(1) by (auto simp: io_wbits_align_bitstream_def io_wbits_flush_bits.simps [of _ "_\<lparr>wb_bitcount := _\<rparr>"]
        io_wbits_flush_bits.simps [of _ "\<lparr>wb_writer = _, wb_bitbuf = _, wb_bitcount = _\<rparr>"] io_wbits_init_def)
  have "deflate_compress_block_uncompressed wr d final (io_wbits_init w) = Inr (Inr (length d + 5), io_wbits_init w4)"
    unfolding deflate_compress_block_uncompressed_def hdr align
    by (simp add: align Let_def wbits_write_def inv w2(1) w3(1) w4(1) io_wbits_init_def)
  then show ?thesis using w1 w2 w3 w4 by (auto simp: stored_block_bytes_def)
qed

lemma compress_blocks_stored:
  assumes "ok r" "okw w" "length (stored_bytes (rest r)) \<le> room w" "length (rest r) div UINT16_MAX < fuel" "block_impl ctx = Some Block_Uncompressed"
  shows "\<exists>r' w' k. compress_blocks fuel read wr ctx n (r, io_wbits_init w) = Inr (Inr k, (r', io_wbits_init w')) \<and> ok r' \<and> rest r' = []
    \<and> okw w' \<and> written w' = written w @ stored_bytes (rest r) \<and> room w' = room w - length (stored_bytes (rest r))
    \<and> k = n + length (stored_bytes (rest r))"
  using assms
proof (induction "rest r" arbitrary: r w n fuel rule: stored_bytes.induct)
  case 1
  then obtain f where f: "fuel = Suc f" by (cases fuel) auto
  let ?d = "take UINT16_MAX (rest r)" and ?last = "length (rest r) < UINT16_MAX"
  have len: "length (stored_block_bytes b d) = length d + 5" for b d by (simp add: stored_block_bytes_def)
  have last: "length ?d < UINT16_MAX \<longleftrightarrow> ?last" by (auto simp: min_def)
  obtain r1 where r1: "read UINT16_MAX r = Inr (Inr ?d, r1)" "rest r1 = drop UINT16_MAX (rest r)" "ok r1"
    using read_rest [OF "1.prems"(1), of UINT16_MAX] by auto
  have "length ?d + 5 \<le> room w" using "1.prems"(3) by (simp add: stored_bytes.simps [of "rest r"] len split: if_splits)
  then obtain w1 where w1: "deflate_compress_block_uncompressed wr ?d ?last (io_wbits_init w) = Inr (Inr (length ?d + 5), io_wbits_init w1)"
    "okw w1" "written w1 = written w @ stored_block_bytes ?last ?d" "room w1 = room w - (length ?d + 5)"
    using compress_stored_block [OF "1.prems"(2), of ?d ?last] by auto
  have step: "compress_blocks fuel read wr ctx n (r, io_wbits_init w) =
      (if ?last then Inr (Inr (n + (length ?d + 5)), (r1, io_wbits_init w1))
       else compress_blocks f read wr ctx (n + (length ?d + 5)) (r1, io_wbits_init w1))"
    unfolding f compress_blocks.simps
    by (simp only: io_bind_def io_fst_def io_snd_def io_on_def r1(1) sbind_simps prod.case sum.case fst_conv snd_conv Let_def last
        "1.prems"(5) option.case compress_block_impl.case w1(1) io_ok_def if_distrib [of "\<lambda>f. f _"] cong: if_cong)
  show ?case
  proof (cases ?last)
    case True
    then show ?thesis using step r1 w1 by (auto simp: stored_bytes.simps [of "rest r"] len)
  next
    case False
    have sb: "stored_bytes (rest r) = stored_block_bytes False ?d @ stored_bytes (rest r1)"
      using False by (simp add: stored_bytes.simps [of "rest r"] r1(2))
    have "length (stored_bytes (rest r1)) \<le> room w1" "length (rest r1) div UINT16_MAX < f"
      using "1.prems"(3,4) w1(4) f False le_div_geq [of UINT16_MAX "length (rest r)"]
      by (auto simp: sb len r1(2) UINT16_MAX_def)
    from "1.hyps" [OF False _ r1(3) w1(2) this "1.prems"(5), of "n + (length ?d + 5)"] r1(2)
    obtain r' w' k where "compress_blocks f read wr ctx (n + (length ?d + 5)) (r1, io_wbits_init w1) = Inr (Inr k, (r', io_wbits_init w'))"
      "ok r'" "rest r' = []" "okw w'" "written w' = written w1 @ stored_bytes (rest r1)" "room w' = room w1 - length (stored_bytes (rest r1))"
      "k = n + (length ?d + 5) + length (stored_bytes (rest r1))"
      by auto
    then show ?thesis using step False w1 by (auto simp: sb len)
  qed
qed


lemma deflate_compress_stored:
  assumes "ok r" "okw w" "length (stored_bytes (rest r)) \<le> room w" "length (rest r) div UINT16_MAX < fuel"
  shows "\<exists>r' w'. deflate_compress_stream fuel read wr (deflate_init 0) (r, w) = Inr (Inr (length (stored_bytes (rest r))), (r', w')) \<and> ok r'
    \<and> rest r' = [] \<and> okw w' \<and> written w' = written w @ stored_bytes (rest r) \<and> room w' = room w - length (stored_bytes (rest r))"
proof -
  from compress_blocks_stored [OF assms, of "deflate_init 0" 0]
  obtain r' w' where "compress_blocks fuel read wr (deflate_init 0) 0 (r, io_wbits_init w) = Inr (Inr (length (stored_bytes (rest r))), (r', io_wbits_init w'))"
    "ok r'" "rest r' = []" "okw w'" "written w' = written w @ stored_bytes (rest r)" "room w' = room w - length (stored_bytes (rest r))"
    by (auto simp: deflate_init_def)
  then show ?thesis by (auto simp: deflate_compress_stream_def io_wbits_init_def)
qed

lemma write_bytes_run:
  assumes "okw w" "length bs \<le> room w"
  shows "\<exists>w'. write_bytes wr bs w = Inr (Inr (), w') \<and> okw w' \<and> written w' = written w @ bs \<and> room w' = room w - length bs"
  using assms
proof (induction bs arbitrary: w)
  case (Cons b bs)
  then obtain w1 where w1: "wr [b] w = Inr (Inr 1, w1)" "okw w1" "written w1 = written w @ [b]" "room w1 = room w - 1"
    using io_write_run [of w "[b]"] lim_window by auto
  moreover have "length bs \<le> room w1" using Cons.prems(2) w1(4) by simp
  ultimately obtain w' where "write_bytes wr bs w1 = Inr (Inr (), w')" "okw w'" "written w' = written w1 @ bs" "room w' = room w1 - length bs"
    using Cons.IH [of w1] by auto
  then show ?case using w1 by (simp add: io_bind_def io_write_byte_def)
qed (simp add: io_ok_def)

end

section \<open>The gzip format\<close>

definition gzip_bytes :: "u8 list \<Rightarrow> u8 list" where
  "gzip_bytes d = [0x1f, 0x8b, 8, 0, 0, 0, 0, 0, 0, 0] @ stored_bytes d @ le32_bytes (crc32 d) @ le32_bytes (of_nat (length d))"

lemma length_le32_bytes [simp]: "length (le32_bytes v) = 4"
  by (simp add: le32_bytes_def)

lemma le32_le32_bytes [simp]: "le32 (le32_bytes v) = v"
proof (rule bit_word_eqI)
  fix k assume "k < LENGTH(32)"
  then show "bit (le32 (le32_bytes v)) k = bit v k"
    by (cases "k < 24"; cases "k < 16") (auto simp: le32_def le32_bytes_def bit_simps)
qed

context byte_source
begin

lemma io_skip_run:
  assumes r: "ok r" "rest r = bs @ cs" and n: "length bs = n" "0 < n" "n \<le> 512"
  shows "\<exists>r'. io_skip read n r = Inr (Inr n, r') \<and> ok r' \<and> rest r' = cs"
proof -
  obtain r' where r': "read n r = Inr (Inr bs, r')" "rest r' = cs" "ok r'" using read_rest [OF r(1), of n] r(2) n(1) by auto
  then have "io_copy_n_loop (n + 1) read io_sink_write n 0 (r, ()) = Inr (Inr n, (r', ()))"
    using n by (auto simp: io_bind_def io_fst_def io_snd_def io_on_def io_sink_write_def io_ok_def min_absorb2)
  then show ?thesis using r' by (simp add: io_skip_def io_copy_n_def)
qed

lemma gzip_header_run:
  assumes r: "ok r" "rest r = [0x1f, 0x8b, 8, 0, 0, 0, 0, 0, 0, 0] @ tail"
  shows "\<exists>r'. gzip_header fuel read r = Inr (Inr (), r') \<and> ok r' \<and> rest r' = tail"
proof -
  obtain r1 where r1: "io_read_byte read r = Inr (Inr 0x1f, r1)" "ok r1" "rest r1 = [0x8b, 8, 0, 0, 0, 0, 0, 0, 0] @ tail"
    using io_read_byte_rest [OF r(1)] r(2) by auto
  obtain r2 where r2: "io_read_byte read r1 = Inr (Inr 0x8b, r2)" "ok r2" "rest r2 = [8, 0, 0, 0, 0, 0, 0, 0] @ tail"
    using io_read_byte_rest [OF r1(2)] r1(3) by auto
  obtain r3 where r3: "io_read_byte read r2 = Inr (Inr 8, r3)" "ok r3" "rest r3 = [0, 0, 0, 0, 0, 0, 0] @ tail"
    using io_read_byte_rest [OF r2(2)] r2(3) by auto
  obtain r4 where r4: "io_read_byte read r3 = Inr (Inr 0, r4)" "ok r4" "rest r4 = [0, 0, 0, 0, 0, 0] @ tail"
    using io_read_byte_rest [OF r3(2)] r3(3) by auto
  obtain r5 where r5: "io_skip read 6 r4 = Inr (Inr 6, r5)" "ok r5" "rest r5 = tail"
    using io_skip_run [OF r4(2), of "[0, 0, 0, 0, 0, 0]" tail 6] r4(3) by auto
  show ?thesis using r5
    by (simp add: gzip_header_def io_bind_def r1(1) r2(1) r3(1) r4(1) when_io_def has_flag_def io_ok_def)
qed

end

context codec_streams
begin

lemma gzip_compress_run:
  assumes r: "ok r" and w: "okw w" "length (gzip_bytes (rest r)) \<le> room w" and fuel: "length (rest r) div UINT16_MAX < fuel"
  shows "\<exists>r' w'. gzip_compress_stream fuel read wr (r, w) = Inr (Inr (length (stored_bytes (rest r))), (r', w')) \<and> ok r' \<and> rest r' = []
    \<and> okw w' \<and> written w' = written w @ gzip_bytes (rest r)"
proof -
  let ?d = "rest r" and ?h = "[0x1f, 0x8b, 8, 0] @ replicate 6 0 :: u8 list"
  have room: "length ?h \<le> room w" "length (stored_bytes ?d) \<le> room w - length ?h"
    "4 \<le> room w - length ?h - length (stored_bytes ?d)" "4 \<le> room w - length ?h - length (stored_bytes ?d) - 4"
    using w(2) by (auto simp: gzip_bytes_def)
  obtain w1 where w1: "write_bytes wr ?h w = Inr (Inr (), w1)" "okw w1" "written w1 = written w @ ?h" "room w1 = room w - length ?h"
    using write_bytes_run [OF w(1) room(1)] by blast
  have "codec_streams (crc32_reader read) (rest \<circ> snd) (crc_source_ok ?d) wr written room okw lim"
    by (intro codec_streams.intro crc32_reader_source byte_sink_axioms codec_streams_axioms.intro lim_window)
  note c = codec_streams.deflate_compress_stored [OF this, of "(crc32_init_reader, r)" w1 fuel]
  have "crc_source_ok ?d (crc32_init_reader, r)" using r by (simp add: crc_source_ok_def crc32_init_reader_def)
  with c w1 fuel room(2) obtain s' w2 where
    w2: "deflate_compress_stream fuel (crc32_reader read) wr (deflate_init 0) ((crc32_init_reader, r), w1) = Inr (Inr (length (stored_bytes ?d)), (s', w2))"
    "crc_source_ok ?d s'" "rest (snd s') = []" "okw w2" "written w2 = written w1 @ stored_bytes ?d" "room w2 = room w1 - length (stored_bytes ?d)"
    by auto
  obtain cs r2 where s': "s' = (cs, r2)" by (cases s')
  have cr: "crc32_get cs = crc32 ?d" "crc32_count cs = of_nat (length ?d)" "ok r2" "rest r2 = []"
    using w2(2,3) by (auto simp: crc_source_ok_def s' crc32_get_def crc32_def crc32_count_def)
  obtain w3 where w3: "wr (le32_bytes (crc32 ?d)) w2 = Inr (Inr 4, w3)" "okw w3" "written w3 = written w2 @ le32_bytes (crc32 ?d)" "room w3 = room w2 - 4"
    using io_write_run [OF w2(4), of "le32_bytes (crc32 ?d)"] room(3) w1(4) w2(6) lim_window by auto
  obtain w4 where w4: "wr (le32_bytes (of_nat (length ?d))) w3 = Inr (Inr 4, w4)" "okw w4" "written w4 = written w3 @ le32_bytes (of_nat (length ?d))"
    using io_write_run [OF w3(2), of "le32_bytes (of_nat (length ?d))"] room(4) w1(4) w2(6) w3(4) lim_window by auto
  have len32: "ucast (of_nat (length ?d) :: u64) = (of_nat (length ?d) :: u32)"
    by (rule bit_word_eqI) (auto simp: bit_simps)
  have "gzip_compress_stream fuel read wr (r, w) = Inr (Inr (length (stored_bytes ?d)), (r2, w4))"
    unfolding gzip_compress_stream_def
    by (simp only: io_bind_def io_snd_def io_on_def fst_conv snd_conv w1(1) w2(1) s' cr(1,2) len32 w3(1) w4(1) sbind_simps prod.case sum.case io_ok_def)
  moreover have "written w4 = written w @ gzip_bytes ?d"
    by (simp add: w1 w2 w3 w4 gzip_bytes_def numeral_eq_Suc)
  ultimately show ?thesis using cr w4 by blast
qed

lemma gzip_decompress_run:
  assumes r: "ok r" "rest r = gzip_bytes d @ tail" and w: "okw w" "length d \<le> room w"
    and fuel: "length d div UINT16_MAX < fuel"
  shows "\<exists>r' w'. gzip_decompress_stream fuel read wr (r, w) =
      Inr (if length d < 2 ^ 32 then Inr (length d) else Inl ERR_INVALID_DATA, (r', w')) \<and> ok r' \<and> rest r' = tail
    \<and> okw w' \<and> written w' = written w @ d \<and> room w' = room w - length d"
proof -
  obtain r1 where r1: "gzip_header fuel read r = Inr (Inr (), r1)" "ok r1"
    "rest r1 = stored_bytes d @ le32_bytes (crc32 d) @ le32_bytes (of_nat (length d)) @ tail"
    using gzip_header_run [OF r(1), of _ fuel] r(2) by (auto simp: gzip_bytes_def)
  have "codec_streams read rest ok (crc32_writer wr) (written \<circ> snd) (room \<circ> snd) (crc_sink_ok (written w)) lim"
    by (intro codec_streams.intro crc32_writer_sink byte_source_axioms codec_streams_axioms.intro lim_window)
  note c = codec_streams.deflate_decompress_stored [OF this r1(2,3), of "(crc32_init_writer, w)" fuel]
  have "crc_sink_ok (written w) (crc32_init_writer, w)" using w by (simp add: crc_sink_ok_def crc32_init_writer_def)
  with c w fuel obtain r2 s' where
    s: "deflate_decompress_stream fuel read (crc32_writer wr) (r1, (crc32_init_writer, w)) = Inr (Inr (length d), (r2, s'))"
    "ok r2" "rest r2 = le32_bytes (crc32 d) @ le32_bytes (of_nat (length d)) @ tail" "crc_sink_ok (written w) s'"
    "written (snd s') = written w @ d" "room (snd s') = room w - length d"
    by auto
  obtain cs w2 where s': "s' = (cs, w2)" by (cases s')
  have cr: "crc32_get cs = crc32 d" "okw w2" "written w2 = written w @ d" "room w2 = room w - length d"
    using s(4,5,6) by (auto simp: crc_sink_ok_def s' crc32_get_def crc32_def)
  obtain r3 where r3: "io_read_bytes read 4 r2 = Inr (Inr (le32_bytes (crc32 d)), r3)" "ok r3" "rest r3 = le32_bytes (of_nat (length d)) @ tail"
    using io_read_bytes_rest [OF s(2), of "le32_bytes (crc32 d)" _ 4] s(3) by auto
  obtain r4 where r4: "io_read_bytes read 4 r3 = Inr (Inr (le32_bytes (of_nat (length d))), r4)" "ok r4" "rest r4 = tail"
    using io_read_bytes_rest [OF r3(2), of "le32_bytes (of_nat (length d))" _ 4] r3(3) by auto
  have u: "unat (of_nat (length d) :: u32) = length d \<longleftrightarrow> length d < 2 ^ 32"
    using mod_less_divisor [of "2 ^ 32" "length d"] by (auto simp: unat_of_nat)
  have "gzip_decompress_stream fuel read wr (r, w) = Inr (if length d < 2 ^ 32 then Inr (length d) else Inl ERR_INVALID_DATA, (r4, w2))"
    unfolding gzip_decompress_stream_def gzip_body_def
    by (simp add: io_bind_def io_fst_def io_on_def r1(1) s(1) s' r3(1) r4(1) io_get_def cr(1) u io_ok_def io_err_def del: of_nat_numeral)
  then show ?thesis using r4 cr by blast
qed

end


interpretation memory: codec_streams io_mem_read mem_rest mem_ok io_mem_write_impl mem_written mem_room mem_ok "0x10000"
  by unfold_locales simp

lemma length_stored_bytes: "length (stored_bytes d) = length d + 5 * (length d div UINT16_MAX + 1)"
proof (induction d rule: stored_bytes.induct)
  case (1 d)
  have len: "length (stored_block_bytes b e) = length e + 5" for b e by (simp add: stored_block_bytes_def)
  show ?case
  proof (cases "length d < UINT16_MAX")
    case False
    then show ?thesis using 1 le_div_geq [of UINT16_MAX "length d"]
      by (simp add: stored_bytes.simps [of d] len) (simp add: UINT16_MAX_def)
  qed (simp add: stored_bytes.simps len)
qed

lemma length_gzip_bytes: "length (gzip_bytes d) = length d + 5 * (length d div UINT16_MAX + 1) + 18"
  by (simp add: gzip_bytes_def length_stored_bytes)

lemma gzip_compress_data_run:
  assumes "length d + 5 * (length d div UINT16_MAX + 1) + 18 \<le> length output" "length d div UINT16_MAX < fuel"
  shows "\<exists>tail. gzip_compress_data fuel d output = Inr (Inr (length d + 5 * (length d div UINT16_MAX + 1)), gzip_bytes d @ tail)"
proof -
  from memory.gzip_compress_run [of "io_mem_init d" "io_mem_init output" fuel] assms
  obtain r' w' where "gzip_compress_stream fuel io_mem_read io_mem_write_impl (io_mem_init d, io_mem_init output) =
      Inr (Inr (length (stored_bytes d)), (r', w'))" "mem_written w' = gzip_bytes d"
    by (auto simp: length_gzip_bytes)
  then show ?thesis by (simp add: gzip_compress_data_def mem_data_view length_stored_bytes)
qed

lemma gzip_decompress_data_run:
  assumes "length d \<le> length output" "length d div UINT16_MAX < fuel"
  shows "\<exists>tail. gzip_decompress_data fuel (gzip_bytes d @ rest) output =
    Inr (if length d < 2 ^ 32 then Inr (length d) else Inl ERR_INVALID_DATA, d @ tail)"
proof -
  from memory.gzip_decompress_run [of "io_mem_init (gzip_bytes d @ rest)" d rest "io_mem_init output" fuel] assms
  obtain r' w' where "gzip_decompress_stream fuel io_mem_read io_mem_write_impl (io_mem_init (gzip_bytes d @ rest), io_mem_init output) =
      Inr (if length d < 2 ^ 32 then Inr (length d) else Inl ERR_INVALID_DATA, (r', w'))" "mem_written w' = d"
    by auto
  then show ?thesis by (simp add: gzip_decompress_data_def mem_data_view)
qed

text \<open>
  C27. Compressing data of less than $2^{32}$ bytes to the gzip format and decompressing the result gives
  the data back, with its length as the result, whatever follows in the buffers: the output buffers
  have to hold 5 bytes per started block of 65535 bytes and 18 bytes besides the data.
\<close>

theorem gzip_roundtrip:
  assumes "length d < 2 ^ 32" and "length d div UINT16_MAX < fuel"
    and "length d + 5 * (length d div UINT16_MAX + 1) + 18 \<le> length zbuf" and "length d \<le> length output"
  shows "\<exists>n z out. gzip_compress_data fuel d zbuf = Inr (Inr n, z) \<and>
    gzip_decompress_data fuel z output = Inr (Inr (length d), out) \<and> take (length d) out = d"
proof -
  obtain rest where z: "gzip_compress_data fuel d zbuf = Inr (Inr (length d + 5 * (length d div UINT16_MAX + 1)), gzip_bytes d @ rest)"
    using gzip_compress_data_run assms(2,3) by blast
  obtain tail where "gzip_decompress_data fuel (gzip_bytes d @ rest) output = Inr (Inr (length d), d @ tail)"
    using gzip_decompress_data_run [OF assms(4,2)] assms(1) by auto
  with z show ?thesis by auto
qed

theorem gzip_roundtrip_witness:
  "\<exists>n z out. gzip_compress_data 1 [104, 105, 33] (replicate 26 0) = Inr (Inr n, z) \<and>
    gzip_decompress_data 1 z (replicate 3 0) = Inr (Inr 3, out) \<and> take 3 out = [104, 105, 33]"
proof -
  have len: "length [104, 105, 33 :: u8] = 3" by simp
  show ?thesis
    by (rule gzip_roundtrip [of "[104, 105, 33]" 1 "replicate 26 0" "replicate 3 0", unfolded len]) (simp_all add: UINT16_MAX_def)
qed

text \<open>
  The length field has 32 bits and is compared with the whole count: larger data is compressed
  without an error and refused when it is decompressed.
\<close>

lemma gzip_large_refused:
  assumes "2 ^ 32 \<le> length d" and "length d div UINT16_MAX < fuel"
    and "length d + 5 * (length d div UINT16_MAX + 1) + 18 \<le> length zbuf" and "length d \<le> length output"
  shows "\<exists>n z out. gzip_compress_data fuel d zbuf = Inr (Inr n, z) \<and> gzip_decompress_data fuel z output = Inr (Inl ERR_INVALID_DATA, out)"
  using gzip_compress_data_run [OF assms(3,2)] gzip_decompress_data_run [OF assms(4,2)] assms(1) by fastforce

section \<open>Truncated names\<close>

context byte_source
begin

lemma skip_string_loops:
  assumes "ok r" "0 \<notin> set (rest r)" "val \<noteq> 0 \<or> rest r \<noteq> []"
  shows "skip_string fuel read val r = Inl OutOfFuel"
  using assms
proof (induction fuel arbitrary: r val)
  case (Suc fuel)
  let ?val = "if rest r = [] then val else rest r ! 0"
  obtain r' where r': "read 1 r = Inr (Inr (take 1 (rest r)), r')" "rest r' = drop 1 (rest r)" "ok r'" using read_rest [OF Suc.prems(1)] by blast
  have "io_read_over read val r = Inr (Inr ?val, r')" using r'(1) by (cases "rest r") (simp_all add: io_read_over_def io_bind_def io_ok_def)
  moreover have "?val \<noteq> 0" using Suc.prems(2,3) by (cases "rest r") auto
  moreover have "skip_string fuel read ?val r' = Inl OutOfFuel"
    by (rule Suc.IH) (use r' Suc.prems \<open>?val \<noteq> 0\<close> in \<open>auto dest: in_set_dropD\<close>)
  ultimately show ?case by (simp add: io_bind_def del: if_split)
qed (simp add: io_fault_def)

lemma gzip_header_name_loops:
  assumes r: "ok r" "rest r = [0x1f, 0x8b, 8, FLAG_NAME, 0, 0, 0, 0, 0, 0] @ name" and name: "name \<noteq> []" "0 \<notin> set name"
  shows "gzip_header fuel read r = Inl OutOfFuel"
proof -
  obtain r1 where r1: "io_read_byte read r = Inr (Inr 0x1f, r1)" "ok r1" "rest r1 = [0x8b, 8, FLAG_NAME, 0, 0, 0, 0, 0, 0] @ name"
    using io_read_byte_rest [OF r(1)] r(2) by auto
  obtain r2 where r2: "io_read_byte read r1 = Inr (Inr 0x8b, r2)" "ok r2" "rest r2 = [8, FLAG_NAME, 0, 0, 0, 0, 0, 0] @ name"
    using io_read_byte_rest [OF r1(2)] r1(3) by auto
  obtain r3 where r3: "io_read_byte read r2 = Inr (Inr 8, r3)" "ok r3" "rest r3 = [FLAG_NAME, 0, 0, 0, 0, 0, 0] @ name"
    using io_read_byte_rest [OF r2(2)] r2(3) by auto
  obtain r4 where r4: "io_read_byte read r3 = Inr (Inr FLAG_NAME, r4)" "ok r4" "rest r4 = [0, 0, 0, 0, 0, 0] @ name"
    using io_read_byte_rest [OF r3(2)] r3(3) by auto
  obtain r5 where r5: "io_skip read 6 r4 = Inr (Inr 6, r5)" "ok r5" "rest r5 = name"
    using io_skip_run [OF r4(2), of "[0, 0, 0, 0, 0, 0]" name 6] r4(3) by auto
  have "skip_string fuel read 0 r5 = Inl OutOfFuel" by (rule skip_string_loops) (use r5 name in auto)
  then show ?thesis
    by (simp add: gzip_header_def io_bind_def r1(1) r2(1) r3(1) r4(1) r5(1) when_io_def has_flag_def io_ok_def FLAG_NAME_def FLAG_EXTRA_def)
qed

end

text \<open>
  The loop that skips the file name of a gzip header has no test for the end of the input: when the
  input ends inside the name, decompression never returns, however many turns it is given.
\<close>

theorem gzip_truncated_name_hangs:
  assumes "name \<noteq> []" and "0 \<notin> set name"
  shows "gzip_decompress_data fuel ([0x1f, 0x8b, 8, FLAG_NAME, 0, 0, 0, 0, 0, 0] @ name) output = Inl OutOfFuel"
  using mem.gzip_header_name_loops [OF io_mem_init_view(1,2) assms, of fuel]
  by (simp add: gzip_decompress_data_def gzip_decompress_stream_def io_bind_def io_fst_def io_on_def)

theorem gzip_truncated_name_hangs_witness:
  "gzip_decompress_data 1000 ([0x1f, 0x8b, 8, FLAG_NAME, 0, 0, 0, 0, 0, 0] @ [65, 66]) [0] = Inl OutOfFuel"
  using gzip_truncated_name_hangs [of "[65, 66]" 1000 "[0]"] by simp

end
