(* ===== verification/Huff_Props.thy ===== *)
theory Huff_Props
  imports Huff Sources
begin

text \<open>
  The Huffman trees of \<open>build_huff_tree\<close> and the decoder against the codes of RFC 1951, and the safety
  of the decoder on any input.
\<close>

section \<open>The codes of RFC 1951\<close>

text \<open>
  Section 3.2.2: the words of one length are consecutive numbers in the order of their symbols, and
  they start after the words of the length before, shifted by one bit. A word is sent with its
  highest bit first.
\<close>

fun first_code :: "(nat \<Rightarrow> nat) \<Rightarrow> nat \<Rightarrow> nat" where
  "first_code c 0 = 0"
| "first_code c (Suc l) = 2 * (first_code c l + c l)"

definition len_count :: "nat list \<Rightarrow> nat \<Rightarrow> nat" where
  "len_count ls l = (if l = 0 then 0 else count_list ls l)"

definition rfc_code :: "nat list \<Rightarrow> nat \<Rightarrow> nat" where
  "rfc_code ls s = first_code (len_count ls) (ls ! s) + count_list (take s ls) (ls ! s)"

definition rfc_word :: "nat list \<Rightarrow> nat \<Rightarrow> bool list" where
  "rfc_word ls s = map (\<lambda>k. bit (rfc_code ls s) (ls ! s - 1 - k)) [0..<ls ! s]"

text \<open>The room left at each length, which \<open>build_huff_tree\<close> computes as \<open>available\<close>.\<close>

fun avail :: "(nat \<Rightarrow> nat) \<Rightarrow> nat \<Rightarrow> nat" where
  "avail c 0 = 1"
| "avail c (Suc l) = 2 * (avail c l - c l)"

lemma first_code_avail: "(\<And>k. k < l \<Longrightarrow> c k \<le> avail c k) \<Longrightarrow> first_code c l + avail c l = 2 ^ l"
proof (induction l)
  case (Suc l)
  then have "first_code c l + avail c l = 2 ^ l" "c l \<le> avail c l" by auto
  then show ?case by simp
qed simp

lemma prefix_ge_first_code:
  assumes "k < l" "first_code c l \<le> v"
  shows "first_code c k + c k \<le> v div 2 ^ (l - k)"
  using assms
proof (induction "l - k" arbitrary: k)
  case (Suc n)
  show ?case
  proof (cases "Suc k = l")
    case True
    then show ?thesis using Suc.prems by auto
  next
    case False
    then have "first_code c (Suc k) + c (Suc k) \<le> v div 2 ^ (l - Suc k)" using Suc.hyps(1) [of "Suc k"] Suc.hyps(2) Suc.prems by linarith
    then have "2 * (first_code c k + c k) \<le> v div 2 ^ (l - Suc k)" by simp
    then have "first_code c k + c k \<le> v div 2 ^ (l - Suc k) div 2" by (simp add: less_eq_div_iff_mult_less_eq mult.commute)
    also have "\<dots> = v div 2 ^ (l - k)" using Suc.prems by (simp add: div_mult2_eq [symmetric] Suc_diff_Suc [symmetric] mult.commute del: Suc_diff_Suc)
    finally show ?thesis .
  qed
qed simp

lemma word_offset:
  assumes "0 < len" "len \<le> l" "first_code c l \<le> v" "offs = v div 2 ^ (l - (len - 1)) - (first_code c (len - 1) + c (len - 1))"
  shows "2 * offs + of_bool (bit v (l - len)) = v div 2 ^ (l - len) - first_code c len"
proof -
  obtain k where k: "len = Suc k" using assms(1) by (cases len) auto
  have ge: "first_code c k + c k \<le> v div 2 ^ (l - k)" using prefix_ge_first_code [of k l c v] assms(2,3) k by simp
  have e: "l - k = Suc (l - len)" using k assms(2) by simp
  have "v div 2 ^ (l - k) = v div 2 ^ (l - len) div 2" unfolding e power_Suc2 by (rule div_mult2_eq)
  moreover have "of_bool (bit v (l - len)) = v div 2 ^ (l - len) mod 2" by (simp add: bit_iff_odd mod_2_eq_odd)
  ultimately have "v div 2 ^ (l - len) = 2 * (v div 2 ^ (l - k)) + of_bool (bit v (l - len))" by simp
  moreover obtain d where "v div 2 ^ (l - k) = first_code c k + c k + d" using le_Suc_ex [OF ge] by blast
  ultimately show ?thesis using assms(4) k by simp
qed

definition tree_count :: "huff_tree \<Rightarrow> nat \<Rightarrow> nat" where
  "tree_count tree l = (if l = 0 then 0 else unat (counts tree ! l))"

text \<open>A code that uses up all words of its lengths.\<close>

definition complete_code :: "(nat \<Rightarrow> nat) \<Rightarrow> bool" where
  "complete_code c \<longleftrightarrow> (\<forall>l<16. c l \<le> avail c l) \<and> avail c 16 = 0"

section \<open>The bits of a source\<close>

context byte_source
begin

definition rb_ok :: "'r rbits \<Rightarrow> bool" where
  "rb_ok s \<longleftrightarrow> ok (rb_reader s) \<and> (\<forall>k\<ge>rb_bitcount s. \<not> bit (rb_bitbuf s) k)"

definition rb_view :: "'r rbits \<Rightarrow> bool list" where
  "rb_view s = map (bit (rb_bitbuf s)) [0..<rb_bitcount s] @ concat (map (\<lambda>b. map (bit b) [0..<8]) (rest (rb_reader s)))"

lemma ensure_1_nonempty: "0 < rb_bitcount s \<Longrightarrow> io_ignore (io_rbits_ensure_bits read 1) s = Inr (Inr (), s)"
  by (simp add: io_ignore_def io_rbits_ensure_bits_def io_rbits_can_ensure_def MAX_ENSURE_def io_rbits_fill.simps)

lemma ensure_1_fill:
  assumes s: "rb_ok s" "rb_bitcount s = 0" "rb_view s \<noteq> []"
  obtains t where "io_ignore (io_rbits_ensure_bits read 1) s = Inr (Inr (), t)" "rb_ok t" "rb_view t = rb_view s" "0 < rb_bitcount t"
proof -
  have buf: "rb_bitbuf s = 0" using s(1,2) by (intro bit_word_eqI) (simp add: rb_ok_def)
  from s obtain b bs where "rest (rb_reader s) = b # bs" by (cases "rest (rb_reader s)") (auto simp: rb_view_def)
  then obtain r' where r': "io_read_byte read (rb_reader s) = Inr (Inr b, r')" "rest r' = bs" "ok r'" "rest (rb_reader s) = b # bs"
    using io_read_byte_rest [of "rb_reader s"] s(1) by (auto simp: rb_ok_def)
  let ?t = "s\<lparr>rb_reader := r', rb_bitbuf := ucast b, rb_bitcount := 8\<rparr>"
  have sc: "scast (ucast b :: u32) = (ucast b :: u64)" by (rule bit_word_eqI) (auto simp: bit_simps min_def dest: bit_imp_le_length split: if_splits)
  have "rb_view ?t = rb_view s"
    using r' s(2) by (auto simp: rb_view_def bit_simps intro!: map_cong)
  moreover have "rb_ok ?t" using r' by (auto simp: rb_ok_def bit_simps dest: bit_imp_le_length)
  moreover have "io_ignore (io_rbits_ensure_bits read 1) s = Inr (Inr (), ?t)"
    using s(2) buf sc r'(1)
    by (simp add: io_ignore_def io_rbits_ensure_bits_def io_rbits_can_ensure_def MAX_ENSURE_def io_rbits_fill.simps [of _ _ s]
        io_rbits_fill.simps [of _ _ "_\<lparr>rb_reader := _, rb_bitbuf := _, rb_bitcount := _\<rparr>"]
        io_bind_def on_reader_def io_on_def shift_in_def io_assert_def)
  ultimately show ?thesis using that by simp
qed

lemma pop_1_view:
  assumes s: "rb_ok s" "0 < rb_bitcount s" "rb_view s = b # bs"
  obtains t where "io_rbits_pop_bits 1 s = Inr (Inr (of_bool b), t)" "rb_ok t" "rb_view t = bs"
proof -
  let ?t = "s\<lparr>rb_bitbuf := drop_bit 1 (rb_bitbuf s), rb_bitcount := rb_bitcount s - 1\<rparr>"
  have upt: "[0..<rb_bitcount s] = 0 # map Suc [0..<rb_bitcount s - 1]"
    using s(2) by (metis Suc_diff_1 map_Suc_upt upt_conv_Cons)
  have b: "b = bit (rb_bitbuf s) 0" and bs: "bs = rb_view ?t"
    using s(3) by (auto simp: rb_view_def upt bit_simps comp_def)
  have "ucast (rb_bitbuf s AND mask 1) = (of_bool b :: u32)"
    unfolding b by (rule bit_word_eqI) (auto simp: bit_simps)
  then have "io_rbits_pop_bits 1 s = Inr (Inr (of_bool b), ?t)"
    using s(2) by (simp add: io_rbits_pop_bits_eq)
  moreover have "rb_ok ?t" using s(1) by (auto simp: rb_ok_def bit_simps)
  ultimately show ?thesis using that bs by blast
qed

lemma ensure_pop_1:
  assumes s: "rb_ok s" "rb_view s = b # bs"
  shows "\<exists>t. ensure_pop read 1 s = Inr (Inr (of_bool b), t) \<and> rb_ok t \<and> rb_view t = bs"
proof -
  obtain u where u: "io_ignore (io_rbits_ensure_bits read 1) s = Inr (Inr (), u)" "rb_ok u" "rb_view u = b # bs" "0 < rb_bitcount u"
    using ensure_1_nonempty [of s] ensure_1_fill [OF s(1)] s by (cases "rb_bitcount s = 0") auto
  obtain t where "io_rbits_pop_bits 1 u = Inr (Inr (of_bool b), t)" "rb_ok t" "rb_view t = bs"
    using pop_1_view [OF u(2,4,3)] by blast
  then show ?thesis using u(1) by (auto simp: ensure_pop_def io_bind_def)
qed

lemma ensure_pop_1_end:
  assumes "rb_ok s" "rb_view s = []"
  shows "ensure_pop read 1 s = Inl Uninitialised"
proof -
  have "rb_bitcount s = 0" "rest (rb_reader s) = []" using assms(2) by (auto simp: rb_view_def)
  then show ?thesis
    using io_read_byte_empty [of "rb_reader s"] assms(1)
    by (simp add: ensure_pop_def io_ignore_def io_rbits_ensure_bits_def io_rbits_can_ensure_def MAX_ENSURE_def io_rbits_fill.simps [of _ _ s]
        io_bind_def on_reader_def io_on_def rb_ok_def io_assert_def)
qed

text \<open>The loop of the decoder, one bit at a time.\<close>

lemma huff_step:
  assumes s: "rb_ok s" "rb_view s = b # bs" and len: "0 < len" "len \<le> 15"
  shows "\<exists>t. rb_ok t \<and> rb_view t = bs \<and> huff_decoder_loop read tree len (int base) (int offs) s =
    (if 2 * offs + of_bool b < tree_count tree len then Inr (Inr (int (base + (2 * offs + of_bool b))), t)
     else huff_decoder_loop read tree (len + 1) (int (base + tree_count tree len)) (int (2 * offs + of_bool b - tree_count tree len)) t)"
proof -
  obtain t where t: "ensure_pop read 1 s = Inr (Inr (of_bool b), t)" "rb_ok t" "rb_view t = bs" using ensure_pop_1 [OF s] by blast
  have u: "uint (counts tree ! len) = int (tree_count tree len)" using len by (simp add: tree_count_def)
  have o: "2 * int offs + uint (of_bool b :: u32) = int (2 * offs + of_bool b)" by simp
  show ?thesis
    using t(2,3) len(2) unfolding huff_decoder_loop.simps [of _ _ len _ _ s] io_bind_def t(1)
    by (auto simp only: sbind_simps prod.case sum.case Let_def o u of_nat_less_iff io_ok_def of_nat_add of_nat_diff not_less split: if_split)
qed

lemma huff_loop_word:
  assumes "rb_ok s" "rb_view s = map (\<lambda>k. bit v (l - 1 - k)) [len - 1..<l] @ tail"
    and "0 < len" "len \<le> l" "l \<le> 15" and "first_code (tree_count tree) l \<le> v" "v < first_code (tree_count tree) l + tree_count tree l"
    and "offs = v div 2 ^ (l - (len - 1)) - (first_code (tree_count tree) (len - 1) + tree_count tree (len - 1))"
    and "base = (\<Sum>k<len. tree_count tree k)"
  shows "\<exists>t. huff_decoder_loop read tree len (int base) (int offs) s =
      Inr (Inr (int ((\<Sum>k<l. tree_count tree k) + (v - first_code (tree_count tree) l))), t) \<and> rb_ok t \<and> rb_view t = tail"
  using assms
proof (induction "l - len" arbitrary: len s base offs)
  case (0 len)
  then have l: "len = l" by simp
  have st: "rb_view s = bit v (l - len) # tail" using "0.prems"(2-4) l by (simp add: upt_conv_Cons)
  have o: "2 * offs + of_bool (bit v (l - len)) = v - first_code (tree_count tree) l"
    using word_offset [of "len" l "tree_count tree" v offs] "0.prems" l by simp
  have lt: "v - first_code (tree_count tree) l < tree_count tree l" using "0.prems"(6,7) by linarith
  obtain t where "rb_ok t" "rb_view t = tail" "huff_decoder_loop read tree len (int base) (int offs) s =
      Inr (Inr (int (base + (v - first_code (tree_count tree) l))), t)"
    using huff_step [OF "0.prems"(1) st "0.prems"(3), of tree base offs] "0.prems"(5) l lt unfolding o by (auto simp del: of_nat_add)
  then show ?case using "0.prems"(9) l by blast
next
  case (Suc n len)
  have l: "len < l" using Suc.hyps(2) by simp
  have st: "rb_view s = bit v (l - len) # map (\<lambda>k. bit v (l - 1 - k)) [len..<l] @ tail"
    using Suc.prems(2-4) l by (simp add: upt_conv_Cons)
  have o: "2 * offs + of_bool (bit v (l - len)) = v div 2 ^ (l - len) - first_code (tree_count tree) len"
    using word_offset [of "len" l "tree_count tree" v offs] Suc.prems by simp
  have ge: "first_code (tree_count tree) len + tree_count tree len \<le> v div 2 ^ (l - len)"
    using prefix_ge_first_code [OF l Suc.prems(6)] .
  then have nlt: "\<not> v div 2 ^ (l - len) - first_code (tree_count tree) len < tree_count tree len" by linarith
  obtain t where t: "rb_ok t" "rb_view t = map (\<lambda>k. bit v (l - 1 - k)) [len..<l] @ tail"
    "huff_decoder_loop read tree len (int base) (int offs) s = huff_decoder_loop read tree (len + 1) (int (base + tree_count tree len))
      (int (v div 2 ^ (l - len) - first_code (tree_count tree) len - tree_count tree len)) t"
    using huff_step [OF Suc.prems(1) st Suc.prems(3), of tree base offs] Suc.prems(5) l nlt unfolding o by auto
  show ?case unfolding t(3)
    by (rule Suc.hyps(1)) (use Suc.hyps(2) Suc.prems l t in simp_all)
qed


lemma huff_loop_safe:
  assumes "rb_ok s" "complete_code (tree_count tree)" "0 < len" "len \<le> 16"
    and "offs < avail (tree_count tree) (len - 1) - tree_count tree (len - 1)" "base = (\<Sum>k<len. tree_count tree k)"
  shows "huff_decoder_loop read tree len (int base) (int offs) s = Inl Uninitialised \<and> length (rb_view s) < 16 - len \<or>
    (\<exists>i t. huff_decoder_loop read tree len (int base) (int offs) s = Inr (Inr (int i), t) \<and> i < (\<Sum>k<16. tree_count tree k) \<and> rb_ok t
      \<and> length (rb_view t) < length (rb_view s))"
  using assms
proof (induction "16 - len" arbitrary: len s base offs)
  case (0 len)
  then have "len = 16" by simp
  moreover have "avail (tree_count tree) 16 = 2 * (avail (tree_count tree) 15 - tree_count tree 15)"
    by (subst avail.simps(2) [symmetric]) simp
  ultimately show ?case using "0.prems"(2,5) by (simp add: complete_code_def)
next
  case (Suc n len)
  let ?c = "tree_count tree"
  have len: "len \<le> 15" using Suc.hyps(2) by simp
  show ?case
  proof (cases "rb_view s")
    case Nil
    then show ?thesis using ensure_pop_1_end [OF Suc.prems(1)] len by (simp add: huff_decoder_loop.simps [of _ _ len] io_bind_def)
  next
    case (Cons b bs)
    let ?o = "2 * offs + of_bool b"
    have "avail ?c len = 2 * (avail ?c (len - 1) - ?c (len - 1))" using Suc.prems(3) by (cases len) auto
    then have o: "?o < avail ?c len" using Suc.prems(5) by auto
    obtain t where t: "rb_ok t" "rb_view t = bs" "huff_decoder_loop read tree len (int base) (int offs) s =
        (if ?o < ?c len then Inr (Inr (int (base + ?o)), t) else huff_decoder_loop read tree (len + 1) (int (base + ?c len)) (int (?o - ?c len)) t)"
      using huff_step [OF Suc.prems(1) Cons Suc.prems(3) len, of tree base offs] by blast
    show ?thesis
    proof (cases "?o < ?c len")
      case True
      have "base + ?o < (\<Sum>k<Suc len. ?c k)" using True Suc.prems(6) by simp
      also have "\<dots> \<le> (\<Sum>k<16. ?c k)" by (rule sum_mono2) (use len in auto)
      finally have "base + ?o < (\<Sum>k<16. ?c k)" .
      moreover have "huff_decoder_loop read tree len (int base) (int offs) s = Inr (Inr (int (base + ?o)), t)" using t(3) True by simp
      ultimately show ?thesis using t Cons by (intro disjI2 exI [of _ "base + ?o"]) auto
    next
      case False
      have e: "huff_decoder_loop read tree len (int base) (int offs) s = huff_decoder_loop read tree (len + 1) (int (base + ?c len)) (int (?o - ?c len)) t"
        using t(3) False by simp
      have "huff_decoder_loop read tree (len + 1) (int (base + ?c len)) (int (?o - ?c len)) t = Inl Uninitialised \<and> length (rb_view t) < 16 - (len + 1) \<or>
        (\<exists>i u. huff_decoder_loop read tree (len + 1) (int (base + ?c len)) (int (?o - ?c len)) t = Inr (Inr (int i), u) \<and> i < (\<Sum>k<16. ?c k) \<and> rb_ok u
          \<and> length (rb_view u) < length (rb_view t))"
        by (rule Suc.hyps(1)) (use Suc.hyps(2) Suc.prems len o False t(1) in auto)
      then show ?thesis unfolding e using t(2) Cons by auto
    qed
  qed
qed

end

section \<open>Building a tree\<close>

definition len_at :: "u8 option list \<Rightarrow> nat \<Rightarrow> nat" where
  "len_at lengths i = unat (the (lengths ! i))"

definition lens :: "u8 option list \<Rightarrow> nat \<Rightarrow> nat list" where
  "lens lengths n = map (len_at lengths) [0..<n]"

lemma lens_Suc: "lens lengths (Suc n) = lens lengths n @ [len_at lengths n]"
  by (simp add: lens_def)

lemma huff_count_loop:
  assumes "for_each (huff_count lengths) [0..<n] t = Inr t'" "counts t = replicate 16 0" "max_sym t = -1" "n < 65536"
  shows "(\<forall>i<n. i < length lengths \<and> lengths ! i \<noteq> None \<and> len_at lengths i < 16) \<and> length (counts t') = 16 \<and>
    (\<forall>l<16. unat (counts t' ! l) = len_count (lens lengths n) l) \<and> symbols t' = symbols t \<and>
    max_sym t' < int n \<and> (max_sym t' = -1 \<longleftrightarrow> (\<forall>i<n. len_at lengths i = 0)) \<and> - 1 \<le> max_sym t'"
  using assms
proof (induction n arbitrary: t')
  case 0
  then show ?case by (auto simp: lens_def len_count_def)
next
  case (Suc n)
  then obtain u where u: "for_each (huff_count lengths) [0..<n] t = Inr u" "huff_count lengths n u = Inr t'"
    by (auto simp: for_each_append sbind_Inr_iff)
  note IH = Suc.IH [OF u(1) Suc.prems(2,3)]
  from u(2) obtain l where l: "n < length lengths" "lengths ! n = Some l" "l < 16"
    "t' = (if l \<noteq> 0 then u\<lparr>max_sym := int n, counts := (counts u)[unat l := counts u ! unat l + 1]\<rparr> else u)"
    by (auto simp: huff_count_def sbind_iff)
  have la: "len_at lengths n = unat l" "unat l < 16" using l(2,3) by (auto simp: len_at_def word_less_nat_alt)
  have cnt: "len_count (lens lengths (Suc n)) k = len_count (lens lengths n) k + (if unat l = k \<and> k \<noteq> 0 then 1 else 0)" for k
    by (simp add: len_count_def lens_Suc la)
  have small: "len_count (lens lengths n) k \<le> n" for k
    using count_le_length [of "lens lengths n" k] by (simp add: len_count_def lens_def)
  have "unat (counts u ! unat l + 1) = unat (counts u ! unat l) + 1"
    using IH la(2) small [of "unat l"] Suc.prems(4) by (simp add: unat_word_ariths)
  then show ?case using IH l la cnt Suc.prems(4) by (auto simp: nth_list_update less_Suc_eq unat_eq_zero)
qed


lemma huff_offsets_spec:
  assumes "huff_offsets (drop l cs) (avail c l) (\<Sum>k<l. c k) = Inr (offs, n, a)" "l \<le> length cs" "\<forall>k<length cs. unat (cs ! k) = c k"
  shows "length offs = length cs - l \<and> (\<forall>k<length offs. offs ! k = of_nat (\<Sum>j<l + k. c j)) \<and> n = (\<Sum>k<length cs. c k) \<and>
    a = avail c (length cs) \<and> (\<forall>k. l \<le> k \<and> k < length cs \<longrightarrow> c k \<le> avail c k)"
  using assms
proof (induction "length cs - l" arbitrary: l offs)
  case (Suc m)
  have l: "l < length cs" using Suc.hyps(2) by simp
  have d: "drop l cs = cs ! l # drop (Suc l) cs" using l by (rule Cons_nth_drop_Suc [symmetric])
  from Suc.prems(1,3) l obtain offs' where
    o: "huff_offsets (drop (Suc l) cs) (avail c (Suc l)) (\<Sum>k<Suc l. c k) = Inr (offs', n, a)"
      "offs = of_nat (\<Sum>k<l. c k) # offs'" "c l \<le> avail c l"
    unfolding d huff_offsets.simps Let_def avail.simps sum.lessThan_Suc
    by (auto simp: sbind_Inr_iff simp del: Cons_nth_drop_Suc split: if_split_asm)
  have "m = length cs - Suc l" using Suc.hyps(2) by simp
  note IH = Suc.hyps(1) [OF this o(1) Suc_leI [OF l] Suc.prems(3)]
  have IH': "length offs' = length cs - Suc l" "\<forall>k<length offs'. offs' ! k = of_nat (\<Sum>j<Suc l + k. c j)" "n = (\<Sum>k<length cs. c k)"
    "a = avail c (length cs)" "\<forall>k. Suc l \<le> k \<and> k < length cs \<longrightarrow> c k \<le> avail c k"
    using IH by blast+
  have "\<forall>k<length offs. offs ! k = of_nat (\<Sum>j<l + k. c j)"
  proof (intro allI impI)
    fix k assume "k < length offs"
    then show "offs ! k = of_nat (\<Sum>j<l + k. c j)" using IH'(2) unfolding o(2) by (cases k) simp_all
  qed
  moreover have "c k \<le> avail c k" if h: "l \<le> k \<and> k < length cs" for k
    using IH'(5) o(3) h by (cases "k = l") auto
  ultimately show ?case using IH'(1,3,4) l o(2) by auto
qed auto

definition code_pos :: "u8 option list \<Rightarrow> nat \<Rightarrow> nat \<Rightarrow> nat" where
  "code_pos lengths num i = (\<Sum>j<len_at lengths i. len_count (lens lengths num) j) + count_list (lens lengths i) (len_at lengths i)"

lemma lens_count_mono: "i \<le> j \<Longrightarrow> count_list (lens lengths i) l \<le> count_list (lens lengths j) l"
  by (induction j) (auto simp: le_Suc_eq lens_Suc)

lemma lens_count_less: "i < j \<Longrightarrow> count_list (lens lengths i) (len_at lengths i) < count_list (lens lengths j) (len_at lengths i)"
  using lens_count_mono [of "Suc i" j lengths "len_at lengths i"] by (simp add: lens_Suc)

lemma code_pos_less:
  assumes "i < num" "len_at lengths i \<noteq> 0"
  shows "code_pos lengths num i < (\<Sum>j<Suc (len_at lengths i). len_count (lens lengths num) j)"
  using lens_count_less [OF assms(1), of lengths] assms(2) by (simp add: code_pos_def len_count_def)

lemma code_pos_neq:
  assumes "i < j" "j < num" "len_at lengths i \<noteq> 0" "len_at lengths j \<noteq> 0"
  shows "code_pos lengths num i \<noteq> code_pos lengths num j"
proof -
  have mono: "a < b \<Longrightarrow> (\<Sum>k<Suc a. len_count (lens lengths num) k) \<le> (\<Sum>k<b. len_count (lens lengths num) k)" for a b
    by (rule sum_mono2) auto
  consider "len_at lengths i = len_at lengths j" | "len_at lengths i < len_at lengths j" | "len_at lengths j < len_at lengths i" by linarith
  then show ?thesis
  proof cases
    case 1
    then show ?thesis using lens_count_less [OF assms(1), of lengths] by (simp add: code_pos_def)
  next
    case 2
    then show ?thesis using code_pos_less [of i num lengths] mono [OF 2] assms by (simp add: code_pos_def)
  next
    case 3
    then show ?thesis using code_pos_less [of j num lengths] mono [OF 3] assms by (simp add: code_pos_def)
  qed
qed

lemma code_count_card:
  assumes "\<forall>i<n. len_at lengths i < 16"
  shows "card {i. i < n \<and> len_at lengths i \<noteq> 0} = (\<Sum>j<16. len_count (lens lengths n) j)"
  using assms
proof (induction n)
  case 0
  then show ?case by (simp add: lens_def len_count_def)
next
  case (Suc n)
  have set: "{i. i < Suc n \<and> len_at lengths i \<noteq> 0} = {i. i < n \<and> len_at lengths i \<noteq> 0} \<union> (if len_at lengths n \<noteq> 0 then {n} else {})"
    by (auto simp: less_Suc_eq)
  have "(\<Sum>j<16. len_count (lens lengths (Suc n)) j) = (\<Sum>j<16. len_count (lens lengths n) j + (if j = len_at lengths n \<and> j \<noteq> 0 then 1 else 0))"
    by (rule sum.cong) (auto simp: len_count_def lens_Suc)
  also have "\<dots> = (\<Sum>j<16. len_count (lens lengths n) j) + (if len_at lengths n \<noteq> 0 then 1 else 0)"
  proof -
    have "(\<Sum>j<16. if j = len_at lengths n \<and> j \<noteq> 0 then 1 else 0 :: nat) = (\<Sum>j<16. if j = len_at lengths n then if len_at lengths n \<noteq> 0 then 1 else 0 else 0)"
      by (rule sum.cong) auto
    then show ?thesis using Suc.prems by (simp only: sum.distrib sum.delta finite_lessThan lessThan_iff lessI if_True)
  qed
  finally show ?case using Suc unfolding set by simp
qed

lemma code_pos_bound:
  assumes "i < num" "len_at lengths i \<noteq> 0" "\<forall>i<num. len_at lengths i < 16"
  shows "code_pos lengths num i < (\<Sum>j<16. len_count (lens lengths num) j)"
proof -
  have "code_pos lengths num i < (\<Sum>j<Suc (len_at lengths i). len_count (lens lengths num) j)" using code_pos_less [OF assms(1,2)] .
  also have "\<dots> \<le> (\<Sum>j<16. len_count (lens lengths num) j)" by (rule sum_mono2) (use assms in auto)
  finally show ?thesis .
qed

lemma code_count_le:
  assumes "\<forall>i<num. len_at lengths i < 16"
  shows "(\<Sum>j<16. len_count (lens lengths num) j) \<le> num"
proof -
  have "card {i. i < num \<and> len_at lengths i \<noteq> 0} \<le> card {..<num}" by (rule card_mono) auto
  then show ?thesis by (simp only: code_count_card [OF assms] card_lessThan)
qed

lemma code_pos_onto:
  assumes "\<forall>i<num. len_at lengths i < 16" "k < (\<Sum>j<16. len_count (lens lengths num) j)"
  shows "\<exists>i<num. len_at lengths i \<noteq> 0 \<and> code_pos lengths num i = k"
proof -
  let ?S = "{i. i < num \<and> len_at lengths i \<noteq> 0}" and ?N = "\<Sum>j<16. len_count (lens lengths num) j"
  have inj: "inj_on (code_pos lengths num) ?S"
  proof (rule inj_onI, rule ccontr)
    fix i j assume h: "i \<in> ?S" "j \<in> ?S" "code_pos lengths num i = code_pos lengths num j" "i \<noteq> j"
    consider "i < j" | "j < i" using h(4) by linarith
    then show False using code_pos_neq [of i j num lengths] code_pos_neq [of j i num lengths] h by cases auto
  qed
  have sub: "code_pos lengths num ` ?S \<subseteq> {..<?N}"
  proof
    fix x assume "x \<in> code_pos lengths num ` ?S"
    then obtain i where i: "i < num" "len_at lengths i \<noteq> 0" "x = code_pos lengths num i" by auto
    then show "x \<in> {..<?N}" using code_pos_bound [OF i(1,2) assms(1)] by simp
  qed
  have "code_pos lengths num ` ?S = {..<?N}"
    by (rule card_subset_eq [OF _ sub]) (simp_all only: finite_lessThan card_lessThan card_image [OF inj] code_count_card [OF assms(1)])
  then have "k \<in> code_pos lengths num ` ?S" using assms(2) by simp
  then show ?thesis by auto
qed


lemma huff_sort_loop:
  assumes "for_each (huff_sort lengths) [0..<n] (offs0, syms0) = Inr (offs, syms)" "n \<le> num" "num \<le> 288"
    and "\<forall>i<num. lengths ! i \<noteq> None \<and> len_at lengths i < 16"
    and "length offs0 = 16" "\<forall>l<16. offs0 ! l = of_nat (\<Sum>j<l. len_count (lens lengths num) j)"
  shows "length offs = 16 \<and> (\<forall>l<16. l \<noteq> 0 \<longrightarrow> offs ! l = of_nat ((\<Sum>j<l. len_count (lens lengths num) j) + count_list (lens lengths n) l)) \<and>
    length syms = length syms0 \<and>
    (\<forall>i<n. len_at lengths i \<noteq> 0 \<longrightarrow> code_pos lengths num i < length syms \<and> syms ! code_pos lengths num i = Some (of_nat i))"
  using assms(1,2)
proof (induction n arbitrary: offs syms)
  case 0
  then show ?case using assms(5,6) by (auto simp: lens_def)
next
  case (Suc n)
  then obtain o1 s1 where u: "for_each (huff_sort lengths) [0..<n] (offs0, syms0) = Inr (o1, s1)" "huff_sort lengths n (o1, s1) = Inr (offs, syms)"
    by (auto simp: for_each_append sbind_Inr_iff)
  have "n \<le> num" "n < num" using Suc.prems(2) by auto
  note IH = Suc.IH [OF u(1) this(1)]
  let ?l = "len_at lengths n" and ?p = "code_pos lengths num n"
  have ln: "lengths ! n \<noteq> None" "?l < 16" using assms(4) \<open>n < num\<close> by auto
  show ?case
  proof (cases "?l = 0")
    case True
    then have "offs = o1" "syms = s1" using u(2) ln by (auto simp: huff_sort_def sbind_iff len_at_def unat_eq_0)
    then show ?thesis using IH True by (auto simp: lens_Suc less_Suc_eq)
  next
    case False
    have p: "?p < 288" using code_pos_bound [OF \<open>n < num\<close> False] code_count_le [of num lengths] assms(3,4) by fastforce
    have o1: "o1 ! ?l = of_nat ?p" using IH ln(2) False by (simp add: code_pos_def)
    have up: "unat (o1 ! ?l) = ?p" using p by (simp add: o1 unat_of_nat)
    from ln(1) obtain v where v: "lengths ! n = Some v" by auto
    then have vl: "unat v = ?l" "v \<noteq> 0" using False by (auto simp: len_at_def)
    have st: "?p < length s1" "syms = s1[?p := Some (of_nat n)]" "offs = o1[?l := of_nat ?p + 1]"
      using u(2) v vl up by (auto simp: huff_sort_def sbind_iff o1 [symmetric])
    have "offs ! k = of_nat ((\<Sum>j<k. len_count (lens lengths num) j) + count_list (lens lengths (Suc n)) k)" if h: "k < 16" "k \<noteq> 0" for k
      using IH h by (auto simp: st(3) nth_list_update lens_Suc code_pos_def add.commute add.left_commute)
    moreover have "code_pos lengths num i < length syms \<and> syms ! code_pos lengths num i = Some (of_nat i)"
      if h: "i < Suc n" "len_at lengths i \<noteq> 0" for i
    proof (cases "i = n")
      case True
      then show ?thesis using st(1,2) by simp
    next
      case False
      then have "i < n" using h by simp
      then show ?thesis using IH h code_pos_neq [of i n num lengths] \<open>n < num\<close> \<open>?l \<noteq> 0\<close> st(2) by auto
    qed
    ultimately show ?thesis using IH st by auto
  qed
qed

lemma build_huff_tree_spec:
  assumes "build_huff_tree t lengths num = Inr (Inr tree)"
  defines "ls \<equiv> lens lengths num"
  shows "num \<le> 288 \<and> (\<forall>i<num. ls ! i < 16) \<and> (\<forall>l<16. len_count ls l \<le> avail (len_count ls) l) \<and>
    - 1 \<le> max_sym tree \<and> max_sym tree < int num \<and> (max_sym tree = -1 \<longleftrightarrow> (\<forall>i<num. ls ! i = 0)) \<and>
    (\<forall>i<num. ls ! i \<noteq> 0 \<longrightarrow> code_pos lengths num i < length (symbols tree) \<and> symbols tree ! code_pos lengths num i = Some (of_nat i)) \<and>
    (if (\<Sum>j<16. len_count ls j) = 1
     then len_count ls 1 = 1 \<and> tree_count tree 1 = 2 \<and> (\<forall>l<16. l \<noteq> 1 \<longrightarrow> tree_count tree l = 0) \<and> 1 < length (symbols tree) \<and> symbols tree ! 1 = Some (of_int (max_sym tree + 1))
     else (\<forall>l<16. tree_count tree l = len_count ls l) \<and> ((\<Sum>j<16. len_count ls j) > 1 \<longrightarrow> avail (len_count ls) 16 = 0))"
proof -
  let ?c = "len_count ls"
  have num: "num \<le> 288" using assms(1) by (simp add: build_huff_tree_def sbind_iff)
  from assms(1) num obtain t1 where
    t1: "for_each (huff_count lengths) [0..<num] (t\<lparr>counts := replicate 16 0, max_sym := -1\<rparr>) = Inr t1"
    and r1: "(case huff_offsets (counts t1) 1 0 of Inl e \<Rightarrow> Inr (Inl e) | Inr (offs, num_codes, available) \<Rightarrow>
         if (num_codes > 1 \<and> available > 0) \<or> (num_codes = 1 \<and> counts t1 ! 1 \<noteq> 1) then Inr (Inl ERR_INVALID_CODE)
         else sbind (for_each (huff_sort lengths) [0..<num] (offs, symbols t1)) (\<lambda>(offs, syms). huff_finish num_codes (t1\<lparr>symbols := syms\<rparr>))) = Inr (Inr tree)"
    by (auto simp only: build_huff_tree_def sbind_Inr_iff Let_def assert_truth_Inr)
  then obtain offs num_codes available where off: "huff_offsets (counts t1) 1 0 = Inr (offs, num_codes, available)"
    by (cases "huff_offsets (counts t1) 1 0") auto
  from r1 have chk: "\<not> (num_codes > 1 \<and> available > 0)" "\<not> (num_codes = 1 \<and> counts t1 ! 1 \<noteq> 1)" unfolding off by (auto split: if_split_asm)
  with r1 obtain offs' syms where sort: "for_each (huff_sort lengths) [0..<num] (offs, symbols t1) = Inr (offs', syms)"
    and r2: "huff_finish num_codes (t1\<lparr>symbols := syms\<rparr>) = Inr (Inr tree)"
    unfolding off by (auto simp: sbind_Inr_iff)
  have fin: "if num_codes = 1 then 1 < length syms \<and> tree = t1\<lparr>counts := (counts t1)[1 := 2], symbols := syms[1 := Some (of_int (max_sym t1 + 1))]\<rparr>
      else tree = t1\<lparr>symbols := syms\<rparr>"
    using r2 by (auto simp: huff_finish_def sbind_iff split: if_split_asm)
  have c: "\<forall>i<num. i < length lengths \<and> lengths ! i \<noteq> None \<and> len_at lengths i < 16" "length (counts t1) = 16" "\<forall>l<16. unat (counts t1 ! l) = ?c l"
    "max_sym t1 < int num" "max_sym t1 = -1 \<longleftrightarrow> (\<forall>i<num. len_at lengths i = 0)" "- 1 \<le> max_sym t1"
    using huff_count_loop [OF t1] num by (simp_all add: ls_def)
  have o: "length offs = 16" "\<forall>k<16. offs ! k = of_nat (\<Sum>j<k. ?c j)" "num_codes = (\<Sum>j<16. ?c j)" "available = avail ?c 16" "\<forall>k<16. ?c k \<le> avail ?c k"
    using huff_offsets_spec [of 0 "counts t1" ?c offs num_codes available] off c by auto
  have s: "length syms = length (symbols t1)"
    "\<forall>i<num. len_at lengths i \<noteq> 0 \<longrightarrow> code_pos lengths num i < length syms \<and> syms ! code_pos lengths num i = Some (of_nat i)"
    using huff_sort_loop [OF sort order_refl num _ o(1)] c(1) o(2) by (auto simp: ls_def)
  have ls: "ls ! i = len_at lengths i" if h: "i < num" for i using h by (simp add: ls_def lens_def)
  show ?thesis
  proof (cases "num_codes = 1")
    case True
    then have tree: "1 < length syms" "tree = t1\<lparr>counts := (counts t1)[1 := 2], symbols := syms[1 := Some (of_int (max_sym t1 + 1))]\<rparr>"
      using fin by simp_all
    have c1: "?c 1 = 1" using chk(2) True c(3) by (metis one_less_numeral_iff semiring_norm(76) unat_1)
    have c0: "?c l = 0" if h: "l < 16" "l \<noteq> 1" for l
    proof -
      have "?c 1 + ?c l = (\<Sum>j\<in>{1, l}. ?c j)" using h by simp
      also have "\<dots> \<le> (\<Sum>j<16. ?c j)" by (rule sum_mono2) (use h in auto)
      finally show ?thesis using c1 o(3) True by simp
    qed
    have p0: "code_pos lengths num i = 0" if h: "i < num" "len_at lengths i \<noteq> 0" for i
      using code_pos_bound [OF h] c(1) o(3) True by (simp add: ls_def)
    have "tree_count tree 1 = 2" using c(2) by (simp add: tree_count_def tree)
    moreover have "tree_count tree l = 0" if h: "l < 16" "l \<noteq> 1" for l
      using c(3) c0 [OF h] h by (simp add: tree_count_def tree)
    moreover have "code_pos lengths num i < length (symbols tree) \<and> symbols tree ! code_pos lengths num i = Some (of_nat i)"
      if h: "i < num" "len_at lengths i \<noteq> 0" for i
      using s(2) p0 [OF h] h by (auto simp: tree)
    moreover have "max_sym tree = max_sym t1" "(\<Sum>j<16. ?c j) = 1" "1 < length (symbols tree)" "symbols tree ! 1 = Some (of_int (max_sym tree + 1))"
      using tree o(3) True by simp_all
    ultimately show ?thesis using num c(1,4,5,6) o(5) c1 ls by auto
  next
    case False
    then have tree: "tree = t1\<lparr>symbols := syms\<rparr>" using fin by simp
    have "tree_count tree l = ?c l" if h: "l < 16" for l using c(3) h by (simp add: tree_count_def tree len_count_def)
    then show ?thesis using num c o s chk False ls by (auto simp: tree)
  qed
qed


lemma single_code_complete:
  assumes "c 1 = 2" "\<forall>l<16. l \<noteq> 1 \<longrightarrow> c l = 0" "c 0 = 0"
  shows "complete_code c"
proof -
  have "avail c (Suc (Suc l)) = 0" for l using assms(1,3) by (induction l) simp_all
  then have a: "avail c l = 0" if h: "2 \<le> l" for l using h by (metis Suc_diff_Suc add_2_eq_Suc le_Suc_ex)
  have "c l \<le> avail c l" if h: "l < 16" for l
    using assms h by (cases "l = 1") auto
  then show ?thesis using a [of 16] by (simp add: complete_code_def)
qed

lemma first_code_cong: "(\<And>k. k < l \<Longrightarrow> c k = d k) \<Longrightarrow> first_code c l = first_code d l"
  by (induction l) auto

lemma avail_cong: "(\<And>k. k < l \<Longrightarrow> c k = d k) \<Longrightarrow> avail c l = avail d l"
  by (induction l) auto

context byte_source
begin

lemma huff_next_index:
  assumes "huff_decoder_loop read tree 1 0 0 s = Inr (Inr (int i), t)" "i < 288" "i < length (symbols tree)" "symbols tree ! i = Some v"
  shows "huff_decoder_next read tree s = Inr (Inr v, t)"
  unfolding huff_decoder_next_def io_bind_run [where m = "huff_decoder_loop read tree 1 0 0", OF assms(1)]
  using assms(2-4) by (simp add: io_lift_def)

lemma huff_next_word:
  assumes tree: "build_huff_tree t lengths num = Inr (Inr tree)"
    and sym: "i < num" "len_at lengths i \<noteq> 0"
    and s: "rb_ok s" "rb_view s = rfc_word (lens lengths num) i @ tail"
  shows "\<exists>s'. huff_decoder_next read tree s = Inr (Inr (of_nat i), s') \<and> rb_ok s' \<and> rb_view s' = tail"
proof -
  let ?ls = "lens lengths num" and ?tc = "tree_count tree"
  let ?c = "len_count ?ls" and ?l = "len_at lengths i" and ?v = "rfc_code (lens lengths num) i"
  note B = build_huff_tree_spec [OF tree]
  have ls: "?ls ! k = len_at lengths k" if h: "k < num" for k using h by (simp add: lens_def)
  have l: "0 < ?l" "?l \<le> 15" "\<forall>k<num. len_at lengths k < 16" using B sym ls by (auto simp: less_Suc_eq_le)
  let ?r = "count_list (lens lengths i) ?l"
  have take: "take i ?ls = lens lengths i" using sym(1) by (simp add: lens_def take_map)
  have v: "?v = first_code ?c ?l + ?r" by (simp add: rfc_code_def ls [OF sym(1)] take)
  have r: "?r < ?c ?l" using lens_count_less [OF sym(1), of lengths] l(1) by (simp add: len_count_def)
  have pos: "code_pos lengths num i = (\<Sum>j<?l. ?c j) + ?r" by (simp add: code_pos_def)
  have key: "first_code ?tc ?l \<le> ?v" "?v < first_code ?tc ?l + ?tc ?l" "(\<Sum>k<?l. ?tc k) + (?v - first_code ?tc ?l) = code_pos lengths num i"
  proof -
    consider "(\<Sum>j<16. ?c j) = 1" | "\<forall>k<16. ?tc k = ?c k" using B by meson
    then have "first_code ?tc ?l \<le> ?v \<and> ?v < first_code ?tc ?l + ?tc ?l \<and> (\<Sum>k<?l. ?tc k) + (?v - first_code ?tc ?l) = code_pos lengths num i"
    proof cases
      case 1
      then have o: "?c 1 = 1" "?tc 1 = 2" using B by auto
      have "?l = 1"
      proof (rule ccontr)
        assume "?l \<noteq> 1"
        then have "?c 1 + ?c ?l = (\<Sum>j\<in>{1, ?l}. ?c j)" by simp
        also have "\<dots> \<le> (\<Sum>j<16. ?c j)" by (rule sum_mono2) (use l in auto)
        finally show False using o(1) r 1 by simp
      qed
      moreover have "?c 0 = 0" "?tc 0 = 0" by (simp_all add: len_count_def tree_count_def)
      ultimately show ?thesis using r o by (simp add: v pos)
    next
      case 2
      have "first_code ?tc ?l = first_code ?c ?l" by (rule first_code_cong) (use 2 l in auto)
      moreover have "(\<Sum>k<?l. ?tc k) = (\<Sum>k<?l. ?c k)" by (rule sum.cong) (use 2 l in auto)
      ultimately show ?thesis using 2 l r by (simp add: v pos)
    qed
    then show "first_code ?tc ?l \<le> ?v" "?v < first_code ?tc ?l + ?tc ?l" "(\<Sum>k<?l. ?tc k) + (?v - first_code ?tc ?l) = code_pos lengths num i" by blast+
  qed
  have view: "rb_view s = map (\<lambda>k. bit ?v (?l - 1 - k)) [1 - 1..<?l] @ tail" using s(2) by (simp add: rfc_word_def ls [OF sym(1)])
  have "?v div 2 ^ (?l - (1 - 1)) = 0"
  proof -
    have "first_code ?c ?l + avail ?c ?l = 2 ^ ?l" by (rule first_code_avail) (use B l in auto)
    moreover have "?c ?l \<le> avail ?c ?l" using B l by auto
    ultimately show ?thesis using r by (simp add: v)
  qed
  then obtain t' where t': "huff_decoder_loop read tree 1 0 0 s = Inr (Inr (int (code_pos lengths num i)), t')" "rb_ok t'" "rb_view t' = tail"
    using huff_loop_word [OF s(1) view _ _ l(2) key(1,2), of 0 0] l(1) unfolding key(3) by (auto simp: tree_count_def)
  have "code_pos lengths num i < 288" using code_pos_bound [OF sym l(3)] code_count_le [OF l(3)] B by linarith
  moreover have "code_pos lengths num i < length (symbols tree)" "symbols tree ! code_pos lengths num i = Some (of_nat i)" using B sym ls by auto
  ultimately show ?thesis using huff_next_index [OF t'(1)] t'(2,3) by blast
qed


lemma huff_next_safe:
  assumes tree: "build_huff_tree t lengths num = Inr (Inr tree)" "max_sym tree \<noteq> -1" and s: "rb_ok s"
  shows "huff_decoder_next read tree s = Inl Uninitialised \<and> length (rb_view s) < 15 \<or>
    (\<exists>v s'. huff_decoder_next read tree s = Inr (Inr v, s') \<and> unat v \<le> num \<and> rb_ok s' \<and> length (rb_view s') < length (rb_view s))"
proof -
  let ?c = "len_count (lens lengths num)" and ?tc = "tree_count tree"
  note B = build_huff_tree_spec [OF tree(1)]
  have ls: "lens lengths num ! k = len_at lengths k" if h: "k < num" for k using h by (simp add: lens_def)
  have l: "\<forall>k<num. len_at lengths k < 16" using B ls by auto
  from B tree(2) ls obtain i0 where i0: "i0 < num" "len_at lengths i0 \<noteq> 0" by auto
  have cell: "complete_code ?tc \<and> (\<forall>k<(\<Sum>j<16. ?tc j). k < 288 \<and> k < length (symbols tree) \<and> (\<exists>v. symbols tree ! k = Some v \<and> unat v \<le> num))"
  proof (cases "(\<Sum>j<16. ?c j) = 1")
    case True
    then have one: "?tc 1 = 2" "\<forall>l<16. l \<noteq> 1 \<longrightarrow> ?tc l = 0" "1 < length (symbols tree)" "symbols tree ! 1 = Some (of_int (max_sym tree + 1))"
      using B by auto
    have "(\<Sum>j<16. ?tc j) = (\<Sum>j<(16 :: nat). if j = 1 then 2 else 0)" by (rule sum.cong) (use one in auto)
    then have sum: "(\<Sum>j<16. ?tc j) = 2" by simp
    have pos0: "code_pos lengths num i0 = 0" using code_pos_bound [OF i0 l] True by simp
    have s0: "0 < length (symbols tree)" "symbols tree ! 0 = Some (of_nat i0)" using B i0 ls pos0 by force+
    have m: "- 1 < max_sym tree" "max_sym tree < int num" "num \<le> 288" using B tree(2) by auto
    obtain k where k: "max_sym tree + 1 = int k" using m(1) zero_le_imp_eq_int [of "max_sym tree + 1"] by auto
    then have "k \<le> num" using m(2) by linarith
    then have "unat (of_int (max_sym tree + 1) :: u16) \<le> num" "unat (of_nat i0 :: u16) \<le> num"
      using m(3) i0(1) unfolding k of_int_of_nat_eq by (simp_all add: unat_of_nat)
    then have "\<forall>k<2. k < 288 \<and> k < length (symbols tree) \<and> (\<exists>v. symbols tree ! k = Some v \<and> unat v \<le> num)"
      using one(3,4) s0 by (auto simp: less_2_cases_iff)
    moreover have "complete_code ?tc" using one(1,2) by (rule single_code_complete) (simp add: tree_count_def)
    ultimately show ?thesis using sum by simp
  next
    case False
    then have tc: "\<forall>l<16. ?tc l = ?c l" "(\<Sum>j<16. ?c j) > 1 \<longrightarrow> avail ?c 16 = 0" using B by auto
    have sum: "(\<Sum>j<16. ?tc j) = (\<Sum>j<16. ?c j)" by (rule sum.cong) (use tc in auto)
    have "(\<Sum>j<16. ?c j) > 1" using code_pos_bound [OF i0 l] False by linarith
    moreover have "avail ?tc k = avail ?c k" if h: "k \<le> 16" for k by (rule avail_cong) (use tc h in auto)
    ultimately have "complete_code ?tc" using tc B by (auto simp: complete_code_def)
    moreover have "k < 288 \<and> k < length (symbols tree) \<and> (\<exists>v. symbols tree ! k = Some v \<and> unat v \<le> num)" if h: "k < (\<Sum>j<16. ?c j)" for k
    proof -
      obtain i where i: "i < num" "len_at lengths i \<noteq> 0" "code_pos lengths num i = k" using code_pos_onto [OF l h] by blast
      have "unat (of_nat i :: u16) \<le> num" using i(1) B by (simp add: unat_of_nat)
      then show ?thesis using B i ls h code_count_le [OF l] by auto
    qed
    ultimately show ?thesis unfolding sum by blast
  qed
  have "huff_decoder_loop read tree 1 0 0 s = Inl Uninitialised \<and> length (rb_view s) < 15 \<or>
    (\<exists>i t. huff_decoder_loop read tree 1 0 0 s = Inr (Inr (int i), t) \<and> i < (\<Sum>k<16. ?tc k) \<and> rb_ok t \<and> length (rb_view t) < length (rb_view s))"
    using huff_loop_safe [OF s, of tree 1 0 0] cell by (simp add: tree_count_def)
  then show ?thesis
  proof (elim disjE exE conjE)
    assume "huff_decoder_loop read tree 1 0 0 s = Inl Uninitialised" "length (rb_view s) < 15"
    then show ?thesis by (simp add: huff_decoder_next_def io_bind_def)
  next
    fix i t assume i: "huff_decoder_loop read tree 1 0 0 s = Inr (Inr (int i), t)" "i < (\<Sum>k<16. ?tc k)" "rb_ok t" "length (rb_view t) < length (rb_view s)"
    then obtain v where "i < 288" "i < length (symbols tree)" "symbols tree ! i = Some v" "unat v \<le> num" using cell by blast
    then show ?thesis using huff_next_index [OF i(1)] i(3,4) by blast
  qed
qed

end


section \<open>The decoder on memory\<close>

text \<open>
  C36. The tree that \<open>build_huff_tree\<close> accepts decodes the code that RFC 1951 assigns to the lengths:
  when the input goes on with the word of a symbol, \<open>huff_decoder_next\<close> returns this symbol and
  takes exactly the bits of the word.
\<close>

theorem huff_decodes_rfc1951:
  assumes "build_huff_tree t lengths num = Inr (Inr tree)" and "i < num" and "len_at lengths i \<noteq> 0"
    and "mem.rb_ok s" and "mem.rb_view s = rfc_word (lens lengths num) i @ tail"
  shows "\<exists>s'. huff_decoder_next io_mem_read tree s = Inr (Inr (of_nat i), s') \<and> mem.rb_ok s' \<and> mem.rb_view s' = tail"
  using mem.huff_next_word [OF assms] .

definition small_tree :: huff_tree where
  "small_tree = \<lparr>counts = (replicate 16 0)[1 := 1, 2 := 2], symbols = [Some 1, Some 0, Some 2], max_sym = 2\<rparr>"

lemma small_tree_built:
  "build_huff_tree \<lparr>counts = [], symbols = replicate 3 None, max_sym = 0\<rparr> (map Some [2, 1, 2]) 3 = Inr (Inr small_tree)"
  by code_simp

lemma mem_rb_init:
  "mem.rb_ok (io_rbits_init (io_mem_init bs))" "mem.rb_view (io_rbits_init (io_mem_init bs)) = concat (map (\<lambda>b. map (bit b) [0..<8]) bs)"
  by (simp_all add: mem.rb_ok_def mem.rb_view_def io_rbits_init_def)

theorem huff_decodes_rfc1951_witness:
  "\<exists>s'. huff_decoder_next io_mem_read small_tree (io_rbits_init (io_mem_init [3])) = Inr (Inr 2, s') \<and>
    mem.rb_ok s' \<and> mem.rb_view s' = replicate 6 False"
proof -
  have "concat (map (\<lambda>b. map (bit b) [0..<8]) [3 :: u8]) = rfc_word (lens (map Some [2, 1, 2]) 3) 2 @ replicate 6 False" by code_simp
  then show ?thesis
    using huff_decodes_rfc1951 [OF small_tree_built, of 2 "io_rbits_init (io_mem_init [3])" "replicate 6 False"]
    by (simp add: mem_rb_init len_at_def)
qed

text \<open>
  C37. With a tree that \<open>build_huff_tree\<close> accepts and that has a symbol, the decoder is safe on every
  input: it takes at least one bit, stays inside the table, reads no undefined cell and
  fails no assertion. With 15 bits of input left it always returns a symbol, and with fewer it either does or
  reaches the end of the input (where the code goes on with an undefined byte, and the model stops). The tree of a
  code without symbols is accepted too; the decoder then fails its assertion, so it is left out here.
\<close>

theorem huff_decoder_safe:
  assumes "build_huff_tree t lengths num = Inr (Inr tree)" and "max_sym tree \<noteq> -1" and "mem.rb_ok s"
  shows "huff_decoder_next io_mem_read tree s = Inl Uninitialised \<and> length (mem.rb_view s) < 15 \<or>
    (\<exists>v s'. huff_decoder_next io_mem_read tree s = Inr (Inr v, s') \<and> unat v \<le> num \<and> mem.rb_ok s' \<and>
      length (mem.rb_view s') < length (mem.rb_view s))"
  using mem.huff_next_safe [OF assms] .

theorem huff_decoder_safe_witness:
  "\<exists>v s'. huff_decoder_next io_mem_read small_tree (io_rbits_init (io_mem_init [3, 0])) = Inr (Inr v, s') \<and> unat v \<le> 3 \<and> mem.rb_ok s' \<and>
      length (mem.rb_view s') < 16"
  using huff_decoder_safe [OF small_tree_built, of "io_rbits_init (io_mem_init [3, 0])"]
  by (simp add: mem_rb_init small_tree_def)

end
