(* ===== verification/Deflate_Props.thy ===== *)
theory Deflate_Props
  imports Deflate Huff_Props
begin

text \<open>
  Decompression always ends: every turn of its loops takes a bit of the input. And what it does on
  malformed input.
\<close>

section \<open>What a routine spends\<close>

text \<open>
  \<open>spends m k p s\<close>: run on \<open>s\<close>, the routine \<open>p\<close> does not run out of fuel, it does not raise the measure
  \<open>m\<close>, and when it returns normally it has lowered \<open>m\<close> by \<open>k\<close> at least.
\<close>

definition spends :: "('s \<Rightarrow> nat) \<Rightarrow> nat \<Rightarrow> ('s, 'a) io \<Rightarrow> 's \<Rightarrow> bool" where
  "spends m k p s = (case p s of Inl f \<Rightarrow> f \<noteq> OutOfFuel | Inr (Inl e, t) \<Rightarrow> m t \<le> m s | Inr (Inr x, t) \<Rightarrow> m t + k \<le> m s)"

named_theorems spends_rules \<open>what the routines of the codec spend\<close>

lemma spends_weaken: "spends m k p s \<Longrightarrow> j \<le> k \<Longrightarrow> spends m j p s"
  by (auto simp: spends_def split: sum.splits prod.splits)

lemma spends_bind:
  assumes "spends m a p s" "\<And>x t. p s = Inr (Inr x, t) \<Longrightarrow> m t + a \<le> m s \<Longrightarrow> spends m b (f x) t" "k \<le> a + b"
  shows "spends m k (io_bind p f) s"
proof (cases "p s")
  case (Inr r)
  then show ?thesis
  proof (cases r)
    case (Pair v t)
    then show ?thesis
    proof (cases v)
      case (Inr x)
      then have "p s = Inr (Inr x, t)" "m t + a \<le> m s" using \<open>p s = Inr r\<close> Pair assms(1) by (auto simp: spends_def)
      then show ?thesis using assms(2) [of x t] assms(3) by (auto simp: spends_def io_bind_def split: sum.splits prod.splits)
    qed (use assms(1) Pair \<open>p s = Inr r\<close> in \<open>auto simp: spends_def io_bind_def\<close>)
  qed
qed (use assms(1) in \<open>auto simp: spends_def io_bind_def\<close>)

lemma spends_simple [spends_rules]:
  "spends m 0 (io_ok x) s" "spends m k (io_err e) s" "f \<noteq> OutOfFuel \<Longrightarrow> spends m k (io_fault f) s"
  "spends m 0 (io_get g) s" "spends m 0 (io_assert b msg) s" "m (h s) \<le> m s \<Longrightarrow> spends m 0 (io_put h) s"
  "q \<noteq> Inl OutOfFuel \<Longrightarrow> spends m 0 (io_lift q) s" "q' \<noteq> Inl OutOfFuel \<Longrightarrow> spends m 0 (io_try q') s"
  by (auto simp: spends_def io_ok_def io_err_def io_fault_def io_get_def io_assert_def assert_truth_def io_put_def io_lift_def io_try_def sbind_def
      split: sum.splits)

lemma spends_ignore [spends_rules]: "spends m 0 p s \<Longrightarrow> spends m 0 (io_ignore p) s"
proof (cases "p s")
  case (Inr r)
  then show "spends m 0 p s \<Longrightarrow> spends m 0 (io_ignore p) s"
    by (cases r; cases "fst r") (auto simp: spends_def io_ignore_def)
qed (auto simp: spends_def io_ignore_def)

lemma spends_if: "spends m k p s \<Longrightarrow> spends m k q s \<Longrightarrow> spends m k (if b then p else q) s"
  by simp

lemma spends_on:
  assumes "spends m' k p (get s)" "\<And>p. m (put p s) + m' (get s) = m s + m' p"
  shows "spends m k (io_on get put p) s"
proof (cases "p (get s)")
  case (Inr r)
  then show ?thesis using assms(1) assms(2) [of "snd r"] by (cases r; cases "fst r") (auto simp: spends_def io_on_def)
qed (use assms(1) in \<open>auto simp: spends_def io_on_def\<close>)

section \<open>Sources that end\<close>

locale finite_reader =
  fixes read :: "'r reader" and left :: "'r \<Rightarrow> nat"
  assumes read_spends: "spends left 0 (read n) r" and read_length: "read n r = Inr (Inr bs, r') \<Longrightarrow> left r' + length bs \<le> left r"
begin

definition bits_left :: "'r rbits \<Rightarrow> nat" where
  "bits_left s = 8 * left (rb_reader s) + rb_bitcount s"

lemma io_read_byte_spends: "spends left 1 (io_read_byte read) r"
proof (cases "read 1 r")
  case (Inr v)
  then show ?thesis using read_spends [of 1 r] read_length [of 1 r]
    by (cases v; cases "fst v") (fastforce simp: spends_def io_read_byte_def io_bind_def io_ok_def io_fault_def Suc_le_eq neq_Nil_conv)+
qed (use read_spends [of 1 r] in \<open>auto simp: spends_def io_read_byte_def io_bind_def\<close>)

lemma io_read_bytes_spends: "spends left 0 (io_read_bytes read n) r"
  unfolding io_read_bytes_def
  by (rule spends_bind [OF read_spends, where b = 0]) (auto intro: spends_rules)

lemma on_reader_spends: "spends left k p (rb_reader s) \<Longrightarrow> spends bits_left (8 * k) (on_reader p) s"
proof (cases "p (rb_reader s)")
  case (Inr r)
  then show "spends left k p (rb_reader s) \<Longrightarrow> spends bits_left (8 * k) (on_reader p) s"
    by (cases r; cases "fst r") (auto simp: spends_def on_reader_def io_on_def bits_left_def)
qed (auto simp: spends_def on_reader_def io_on_def)

lemma byte_in_spends:
  "spends bits_left 0 (io_bind (on_reader (io_read_byte read)) shift_in) s"
  "io_bind (on_reader (io_read_byte read)) shift_in s = Inr (Inr u, t) \<Longrightarrow> rb_bitcount s < rb_bitcount t"
proof -
  have sp: "spends bits_left 8 (on_reader (io_read_byte read)) s" using on_reader_spends [OF io_read_byte_spends] by simp
  show "spends bits_left 0 (io_bind (on_reader (io_read_byte read)) shift_in) s"
  proof (cases "on_reader (io_read_byte read) s")
    case (Inr r)
    then show ?thesis using sp
      by (cases r; cases "fst r") (auto simp: spends_def io_bind_def shift_in_def bits_left_def)
  qed (use sp in \<open>auto simp: spends_def io_bind_def\<close>)
  show "io_bind (on_reader (io_read_byte read)) shift_in s = Inr (Inr u, t) \<Longrightarrow> rb_bitcount s < rb_bitcount t"
  proof (cases "io_read_byte read (rb_reader s)")
    case (Inr r)
    then show "io_bind (on_reader (io_read_byte read)) shift_in s = Inr (Inr u, t) \<Longrightarrow> rb_bitcount s < rb_bitcount t"
      by (cases r; cases "fst r") (auto simp: io_bind_def on_reader_def io_on_def shift_in_def split: if_splits)
  qed (simp add: io_bind_def on_reader_def io_on_def)
qed

lemma io_rbits_fill_spends: "spends bits_left 0 (io_rbits_fill read n) s"
proof (induction "n - rb_bitcount s" arbitrary: s rule: less_induct)
  case less
  let ?q = "io_bind (on_reader (io_read_byte read)) shift_in"
  show ?case
  proof (cases "rb_bitcount s < n")
    case True
    show ?thesis
    proof (cases "?q s")
      case (Inl f)
      then show ?thesis using byte_in_spends(1) [of s] True by (auto simp: spends_def io_rbits_fill.simps [of _ _ s])
    next
      case (Inr r)
      obtain v t where r: "r = (v, t)" by (cases r)
      show ?thesis
      proof (cases v)
        case (Inl e)
        then show ?thesis using byte_in_spends(1) [of s] True Inr r by (auto simp: spends_def io_rbits_fill.simps [of _ _ s])
      next
        case v: (Inr u)
        have lt: "rb_bitcount s < rb_bitcount t" using byte_in_spends(2) Inr r v by blast
        have "bits_left t \<le> bits_left s" using byte_in_spends(1) [of s] Inr r v by (simp add: spends_def)
        moreover have "io_rbits_fill read n s = io_rbits_fill read n t" using True Inr r v lt by (simp add: io_rbits_fill.simps [of _ _ s])
        moreover have "spends bits_left 0 (io_rbits_fill read n) t" by (rule less) (use lt True in simp)
        ultimately show ?thesis by (auto simp: spends_def split: sum.splits prod.splits)
      qed
    qed
  qed (simp add: spends_def io_rbits_fill.simps)
qed

lemma ensure_bits_spends: "spends bits_left 0 (io_rbits_ensure_bits read n) s"
  unfolding io_rbits_ensure_bits_def
  by (rule spends_bind [where a = 0 and b = 0]) (auto intro: spends_rules io_rbits_fill_spends)

lemma pop_bits_spends: "spends bits_left n (io_rbits_pop_bits n) s"
  by (simp add: spends_def io_rbits_pop_bits_eq bits_left_def)

lemma ensure_pop_spends: "spends bits_left n (ensure_pop read n) s"
  unfolding ensure_pop_def
  by (rule spends_bind [where a = 0 and b = n]) (auto intro: spends_rules ensure_bits_spends pop_bits_spends)

lemma align_spends: "spends bits_left 0 io_rbits_align s"
  by (auto simp: spends_def io_rbits_align_def io_rbits_remove_bits_eq bits_left_def)

lemma huff_loop_spends: "spends bits_left 1 (huff_decoder_loop read tree len base offs) s"
proof (induction "16 - len" arbitrary: len base offs s rule: less_induct)
  case less
  have e: "huff_decoder_loop read tree len base offs = io_bind (ensure_pop read 1) (\<lambda>b. let offs = 2 * offs + uint b in
      if len \<le> 15 then if offs < uint (counts tree ! len) then io_ok (base + offs)
        else huff_decoder_loop read tree (len + 1) (base + uint (counts tree ! len)) (offs - uint (counts tree ! len))
      else io_fault (Panic ''len <= 15''))"
    by (rule ext) (subst huff_decoder_loop.simps, rule refl)
  show ?case unfolding e
    by (rule spends_bind [OF ensure_pop_spends, where b = 0])
       (auto simp: Let_def intro: spends_rules intro!: spends_weaken [OF less])
qed

lemma huff_next_spends: "spends bits_left 1 (huff_decoder_next read tree) s"
  unfolding huff_decoder_next_def
  by (rule spends_bind [OF huff_loop_spends, where b = 0])
     (auto simp: arr_get_def io_assert_def intro!: spends_bind [where a = 0 and b = 0] spends_rules split: option.splits)

end


locale finite_codec = finite_reader read left
  for read :: "'r reader" and left +
  fixes wr :: "'w writer"
  assumes wr_spends: "wr d w \<noteq> Inl OutOfFuel"
begin

definition input_left :: "('r, 'w) inflate \<Rightarrow> nat" where
  "input_left s = bits_left (bit_reader s)"

lemma on_bits_spends: "spends bits_left k p (bit_reader s) \<Longrightarrow> spends input_left k (on_bits p) s"
  unfolding on_bits_def by (rule spends_on) (simp_all add: input_left_def add.commute)

lemma window_impl_spends: "spends (\<lambda>_. 0) 0 (io_window_write_impl wr d) w"
proof -
  have "io_window_flush_chunk wr w \<noteq> Inl OutOfFuel" for w
    by (auto simp: io_window_flush_chunk_def Let_def sbind_Inl_iff wr_spends)
  then show ?thesis by (auto simp: spends_def io_window_write_impl_def Let_def sbind_def split: sum.splits)
qed

lemma window_write_spends: "spends input_left 0 (window_write wr d) s"
proof -
  show ?thesis unfolding window_write_def on_window_def by (rule spends_on [OF window_impl_spends]) (simp add: input_left_def)
qed

lemma copy_match_spends: "spends input_left 0 (copy_match wr n offset) s"
proof (induction n arbitrary: s)
  case (Suc n)
  have "io_window_peek_from_back offset w \<noteq> Inl OutOfFuel" for w :: "'w window"
    by (auto simp: io_window_peek_from_back_def sbind_Inl_iff assert_truth_def)
  then show ?case unfolding copy_match.simps
    by (intro spends_bind [where a = 0 and b = 0] spends_rules window_write_spends Suc) simp_all
qed (auto intro: spends_rules)

lemma tab_get_fuel [simp]: "tab_get xs i \<noteq> Inl OutOfFuel"
  by (simp add: tab_get_def)

lemma read_match_spends: "spends input_left 0 (read_match read symbol) s"
  unfolding read_match_def Let_def
  by (auto intro!: spends_bind [where a = 0 and b = 0] spends_rules on_bits_spends spends_weaken [OF ensure_pop_spends] spends_weaken [OF huff_next_spends])

lemma decode_symbols_spends: "input_left s < fuel \<Longrightarrow> spends input_left 0 (decode_symbols fuel read wr n) s"
proof (induction fuel arbitrary: n s)
  case (Suc fuel)
  have rec: "spends input_left 0 (decode_symbols fuel read wr m) t" if h: "input_left t + 1 \<le> input_left s" for m t
    using Suc h by simp
  have match: "spends input_left 0 (io_bind (read_match read sym) (\<lambda>(len, offset). io_bind (copy_match wr len offset) (\<lambda>_. decode_symbols fuel read wr (n + len)))) t"
    if h: "input_left t + 1 \<le> input_left s" for sym t
  proof (rule spends_bind [OF read_match_spends, where b = 0])
    fix x u assume "input_left u + 0 \<le> input_left t"
    then show "spends input_left 0 (case x of (len, offset) \<Rightarrow> io_bind (copy_match wr len offset) (\<lambda>_. decode_symbols fuel read wr (n + len))) u"
      using h by (cases x) (auto intro!: spends_bind [OF copy_match_spends, where b = 0] rec)
  qed simp
  have lit: "spends input_left 0 (io_bind (window_write wr d) (\<lambda>_. decode_symbols fuel read wr m)) t" if h: "input_left t + 1 \<le> input_left s" for d m t
    using h by (auto intro!: spends_bind [OF window_write_spends, where b = 0] rec)
  show ?case unfolding decode_symbols.simps
  proof (rule spends_bind [OF spends_simple(4), where b = 0])
    fix ctx t assume "io_get id s = Inr (Inr ctx, t)"
    then have t: "t = s" "ctx = s" by (auto simp: io_get_def)
    show "spends input_left 0 (io_bind (on_bits (huff_decoder_next read (length_tree ctx))) (\<lambda>symbol.
       if symbol < 256 then io_bind (window_write wr [ucast symbol]) (\<lambda>_. decode_symbols fuel read wr (n + 1))
       else if symbol = 256 then io_ok n
       else if uint symbol > max_sym (length_tree ctx) \<or> uint symbol - 257 > 28 \<or> max_sym (dist_tree ctx) = -1 then io_err ERR_BAD_DATA
       else io_bind (read_match read (symbol - 257)) (\<lambda>(len, offset). io_bind (copy_match wr len offset) (\<lambda>_. decode_symbols fuel read wr (n + len))))) t"
      unfolding t
      by (rule spends_bind [OF on_bits_spends [OF huff_next_spends], where b = 0]) (auto intro: spends_rules lit match)
  qed simp
qed simp


lemma io_copy_n_loop_spends:
  "sz - count < turns \<Longrightarrow> spends (\<lambda>p. 8 * left (fst p)) 0 (io_copy_n_loop turns read (io_window_write_impl wr) sz count) s"
proof (induction turns arbitrary: count s)
  case (Suc turns)
  let ?m = "\<lambda>p. 8 * left (fst p)"
  have w: "spends ?m 0 (io_snd (io_window_write_impl wr d)) u" for d u
    unfolding io_snd_def by (rule spends_on [OF window_impl_spends]) simp
  have r: "spends ?m 0 (io_fst (read k)) u" for k u
    unfolding io_fst_def by (rule spends_on [where m' = "\<lambda>r. 8 * left r"]) (use read_spends [of k "fst u"] in \<open>auto simp: spends_def split: sum.splits prod.splits\<close>)
  have tail: "spends ?m 0 (if written = 0 then io_ok count else if count + written < sz
      then io_copy_n_loop turns read (io_window_write_impl wr) sz (count + written) else io_ok (count + written)) u" for written u
    using Suc.IH [of "count + written" u] Suc.prems by (auto intro: spends_rules)
  show ?case unfolding io_copy_n_loop.simps
  proof (rule spends_bind [OF r, where b = 0])
    fix xa t
    show "spends ?m 0 (if length xa = 0 then io_ok count else io_bind (io_snd (io_window_write_impl wr xa)) (\<lambda>written.
        if written = 0 then io_ok count else if count + written < sz
        then io_copy_n_loop turns read (io_window_write_impl wr) sz (count + written) else io_ok (count + written))) t"
      using spends_bind [OF w tail, where k = 0] by (simp add: spends_simple)
  qed simp
qed simp

lemma stored_block_spends: "spends input_left 0 (stored_block read wr) s"
proof -
  have c: "spends input_left 0 (on_stream (io_copy_n read (io_window_write_impl wr) n)) t" for n t
    unfolding on_stream_def
    by (rule spends_on [where m' = "\<lambda>p. 8 * left (fst p)"])
       (use io_copy_n_loop_spends [of n 0 "n + 1"] in \<open>auto simp: io_copy_n_def input_left_def bits_left_def\<close>)
  have r: "spends input_left 0 (on_bits (on_reader (io_read_bytes read 2))) t" for t
    using on_bits_spends [OF on_reader_spends [OF io_read_bytes_spends]] by simp
  show ?thesis unfolding stored_block_def
    by (intro spends_bind [where a = 0 and b = 0] spends_rules on_bits_spends align_spends c r) simp_all
qed

section \<open>Trees\<close>

lemma for_each_fuel:
  assumes "\<And>i s. f i s \<noteq> Inl OutOfFuel"
  shows "for_each f xs s \<noteq> Inl OutOfFuel"
  using assms by (induction xs arbitrary: s) (auto simp: sbind_Inl_iff)

lemma build_huff_tree_fuel: "build_huff_tree t lengths num \<noteq> Inl OutOfFuel"
proof -
  have "huff_count lengths i u \<noteq> Inl OutOfFuel" for i u
    by (auto simp: huff_count_def sbind_Inl_iff arr_get_def assert_truth_def split: option.splits)
  moreover have "huff_sort lengths i u \<noteq> Inl OutOfFuel" for i u
    by (cases u) (auto simp: huff_sort_def sbind_Inl_iff arr_get_def arr_set_def split: option.splits)
  moreover have "huff_finish n u \<noteq> Inl OutOfFuel" for n u
    by (auto simp: huff_finish_def sbind_Inl_iff arr_set_def)
  ultimately show ?thesis
    using for_each_fuel [of "huff_count lengths"] for_each_fuel [of "huff_sort lengths"]
    by (auto simp: build_huff_tree_def Let_def sbind_Inl_iff assert_truth_def split: sum.splits prod.splits)
qed

lemma fill_lengths_fuel: "fill_lengths n symbol num lengths \<noteq> Inl OutOfFuel"
  by (induction n arbitrary: num lengths) (auto simp: sbind_Inl_iff arr_set_def)

lemma arr_fuel [simp]: "arr_get xs i \<noteq> Inl OutOfFuel" "arr_set xs i x \<noteq> Inl OutOfFuel"
  by (auto simp: arr_get_def arr_set_def split: option.splits)

lemma read_precode_spends: "spends bits_left 0 (read_precode read os lengths) s"
proof (induction os arbitrary: lengths s)
  case (Cons i os)
  show ?case unfolding read_precode.simps
    by (intro spends_bind [where a = 0 and b = 0] spends_rules spends_weaken [OF ensure_pop_spends] Cons) simp_all
qed (auto intro: spends_rules)

lemma length_symbol_spends: "spends bits_left 0 (length_symbol read symbol lengths num) s"
  unfolding length_symbol_def
  by (auto intro!: spends_bind [where a = 0 and b = 0] spends_rules spends_weaken [OF ensure_pop_spends])

lemma length_symbol_repeat:
  assumes "length_symbol read symbol lengths num s = Inr (Inr (v, n), t)"
  shows "0 < n"
  using assms by (auto simp: length_symbol_def io_ok_def io_fault_def io_lift_def sbind_Inr_iff io_bind_Inr split: if_splits)

lemma read_lengths_spends: "n - num \<le> turns \<Longrightarrow> spends bits_left 0 (read_lengths turns read tree n num lengths) s"
proof (induction turns arbitrary: num lengths s)
  case 0
  then show ?case by (subst read_lengths.simps) (auto intro: spends_rules)
next
  case (Suc turns num lengths s)
  let ?rest = "\<lambda>(symbol, repeat_count). if repeat_count > n - num then io_err ERR_BAD_DATA
    else io_bind (io_lift (fill_lengths repeat_count symbol num lengths)) (\<lambda>lengths. read_lengths turns read tree n (num + repeat_count) lengths)"
  have rest: "spends bits_left 0 (?rest x) t" if h: "0 < snd x" for x t
  proof (cases x)
    case (Pair v k)
    then have "n - (num + k) \<le> turns" using Suc.prems h by simp
    then show ?thesis unfolding Pair prod.case
      by (cases "k > n - num") (simp_all only: if_True if_False spends_simple spends_bind [OF spends_simple(7) [OF fill_lengths_fuel] Suc.IH] le_refl add_0_right)
  qed
  have "spends bits_left 0 (io_bind (huff_decoder_next read tree) (\<lambda>symbol. io_bind (length_symbol read symbol lengths num) ?rest)) s"
  proof (rule spends_bind [OF spends_weaken [OF huff_next_spends], where a = 0 and b = 0])
    fix sym t
    show "spends bits_left 0 (io_bind (length_symbol read sym lengths num) ?rest) t"
      by (rule spends_bind [OF length_symbol_spends rest]) (metis length_symbol_repeat prod.collapse, simp)
  qed simp_all
  then show ?case by (subst read_lengths.simps) (auto simp: spends_simple)
qed

lemma build_dynamic_spends: "spends input_left 0 (build_dynamic_huff_trees read) s"
  unfolding build_dynamic_huff_trees_def Let_def
  by (intro spends_bind [where a = 0 and b = 0] spends_if spends_rules on_bits_spends ensure_bits_spends spends_weaken [OF pop_bits_spends]
      read_precode_spends read_lengths_spends build_huff_tree_fuel arr_fuel) (simp_all add: input_left_def)

lemma block_spends:
  assumes "input_left s < Suc fuel"
  shows "spends input_left 1 (deflate_decompress_block fuel read wr) s"
  unfolding deflate_decompress_block_def
proof (rule spends_bind [OF spends_ignore [OF on_bits_spends [OF ensure_bits_spends]], where b = 1])
  fix x t assume t: "input_left t + 0 \<le> input_left s"
  show "spends input_left 1 (io_bind (on_bits (io_rbits_pop_bits 1)) (\<lambda>final_block. io_bind (on_bits (io_rbits_pop_bits 2)) (\<lambda>block_type.
     if block_type = DEFLATE_BLOCKTYPE_UNCOMPRESSED then io_bind (stored_block read wr) (\<lambda>n. io_ok (final_block \<noteq> 0, n))
     else if block_type = DEFLATE_BLOCKTYPE_STATIC_HUFFMAN \<or> block_type = DEFLATE_BLOCKTYPE_DYNAMIC_HUFFMAN then
       io_bind (if block_type = DEFLATE_BLOCKTYPE_DYNAMIC_HUFFMAN then build_dynamic_huff_trees read else io_put build_static_huff_trees) (\<lambda>_.
       io_bind (decode_symbols fuel read wr 0) (\<lambda>n. io_ok (final_block \<noteq> 0, n)))
     else io_err ERR_UNKNOWN_BLOCK))) t"
  proof (rule spends_bind [OF on_bits_spends [OF pop_bits_spends], where b = 0])
    fix final_block u assume u: "input_left u + 1 \<le> input_left t"
    have trees: "spends input_left 0 (if b then build_dynamic_huff_trees read else io_put build_static_huff_trees) v" for b v
      by (auto intro: build_dynamic_spends spends_simple(6) simp: input_left_def build_static_huff_trees_def)
    have body: "spends input_left 0 (io_bind (if b then build_dynamic_huff_trees read else io_put build_static_huff_trees) (\<lambda>_.
       io_bind (decode_symbols fuel read wr 0) (\<lambda>n. io_ok (final_block \<noteq> 0, n)))) v" if h: "input_left v \<le> input_left u" for b v
      by (rule spends_bind [OF trees, where b = 0], rule spends_bind [OF decode_symbols_spends, where b = 0]) (use assms t u h in \<open>auto intro: spends_rules\<close>)
    have stored: "spends input_left 0 (io_bind (stored_block read wr) (\<lambda>n. io_ok (final_block \<noteq> 0, n))) v" for v
      by (rule spends_bind [OF stored_block_spends, where b = 0]) (auto intro: spends_rules)
    show "spends input_left 0 (io_bind (on_bits (io_rbits_pop_bits 2)) (\<lambda>block_type.
     if block_type = DEFLATE_BLOCKTYPE_UNCOMPRESSED then io_bind (stored_block read wr) (\<lambda>n. io_ok (final_block \<noteq> 0, n))
     else if block_type = DEFLATE_BLOCKTYPE_STATIC_HUFFMAN \<or> block_type = DEFLATE_BLOCKTYPE_DYNAMIC_HUFFMAN then
       io_bind (if block_type = DEFLATE_BLOCKTYPE_DYNAMIC_HUFFMAN then build_dynamic_huff_trees read else io_put build_static_huff_trees) (\<lambda>_.
       io_bind (decode_symbols fuel read wr 0) (\<lambda>n. io_ok (final_block \<noteq> 0, n)))
     else io_err ERR_UNKNOWN_BLOCK)) u"
      by (rule spends_bind [OF on_bits_spends [OF pop_bits_spends], where b = 0]) (simp_all add: stored body spends_simple)
  qed simp
qed simp

lemma decompress_blocks_spends: "input_left s < fuel \<Longrightarrow> spends input_left 0 (decompress_blocks fuel read wr n) s"
proof (induction fuel arbitrary: n s)
  case (Suc fuel)
  show ?case unfolding decompress_blocks.simps
  proof (rule spends_bind [OF block_spends [OF Suc.prems], where b = 0])
    fix x t assume "input_left t + 1 \<le> input_left s"
    then have "input_left t < fuel" using Suc.prems by simp
    then show "spends input_left 0 (case x of (final_block, k) \<Rightarrow> if final_block then io_ok (n + k) else decompress_blocks fuel read wr (n + k)) t"
      by (cases x) (simp add: spends_simple Suc.IH)
  qed simp
qed simp

lemma decompress_stream_fuel: "8 * left r < fuel \<Longrightarrow> deflate_decompress_stream fuel read wr (r, w) \<noteq> Inl OutOfFuel"
proof -
  assume "8 * left r < fuel"
  then have "spends input_left 0 (decompress_blocks fuel read wr 0) (inflate_init r w)"
    by (intro decompress_blocks_spends) (simp add: input_left_def bits_left_def inflate_init_def io_rbits_init_def)
  moreover have "io_window_flush_all wr v \<noteq> Inl OutOfFuel" for v
    by (auto simp: io_window_flush_all_def sbind_Inl_iff wr_spends)
  ultimately show ?thesis
    by (auto simp: deflate_decompress_stream_def spends_def sbind_Inl_iff split: sum.splits prod.splits)
qed

end


section \<open>Decompression of memory\<close>

interpretation finite_mem: finite_codec io_mem_read "\<lambda>m. mem_capacity m - mem_used m" io_mem_write_impl
  by unfold_locales (auto simp: spends_def io_mem_read_def io_mem_write_impl_def Let_def)

text \<open>
  As long as a run of the decompressor finds bytes, each turn of its loops takes a bit: it needs no more turns
  than the input has bits, whether the input is well formed or not and whatever the size of the output. At
  the end of the input the model stops. The code goes on with an undefined byte, of which nothing is said here.
\<close>

theorem deflate_decompress_terminates:
  assumes "8 * length input < fuel"
  shows "deflate_decompress_data fuel input output \<noteq> Inl OutOfFuel"
proof -
  have "deflate_decompress_stream fuel io_mem_read io_mem_write_impl (io_mem_init input, io_mem_init output) \<noteq> Inl OutOfFuel"
    by (rule finite_mem.decompress_stream_fuel) (use assms in \<open>simp add: io_mem_init_def\<close>)
  then show ?thesis by (auto simp: deflate_decompress_data_def sbind_Inl_iff)
qed

theorem deflate_decompress_terminates_witness:
  "deflate_decompress_data 25 [3, 62, 0] [0, 0] \<noteq> Inl OutOfFuel"
  using deflate_decompress_terminates [of "[3, 62, 0]" 25 "[0, 0]"] by simp

section \<open>Malformed input\<close>

lemma set_symbols_nth:
  assumes "at + n \<le> length syms" "k < length syms"
  shows "length (set_symbols n at first syms) = length syms \<and> set_symbols n at first syms ! k =
    (if at \<le> k \<and> k < at + n then Some (of_nat (first + (k - at))) else syms ! k)"
  using assms(1)
proof (induction n)
  case 0
  then show ?case by (auto simp: set_symbols_def)
next
  case (Suc n)
  have e: "set_symbols (Suc n) at first syms = (set_symbols n at first syms)[at + n := Some (of_nat (first + n))]"
    by (simp add: set_symbols_def)
  show ?case using Suc assms(2) unfolding e by (auto simp: nth_list_update)
qed

lemma static_length_symbol:
  assumes "length (symbols t) = 288"
  shows "symbols (static_length_tree t) ! 1 = Some 257" "length (symbols (static_length_tree t)) = 288"
proof -
  have len: "length (set_symbols n at first syms) = length syms" for n at first and syms :: "u16 option list"
    by (induction n) (simp_all add: set_symbols_def)
  show "length (symbols (static_length_tree t)) = 288" using assms by (simp add: static_length_tree_def Let_def len)
  show "symbols (static_length_tree t) ! 1 = Some 257" using assms by (simp add: static_length_tree_def Let_def len set_symbols_nth)
qed

lemma static_dist_symbol:
  assumes "length (symbols t) = 288" "k < 32"
  shows "symbols (static_dist_tree t) ! k = Some (of_nat k)" "k < length (symbols (static_dist_tree t))"
  using assms set_symbols_nth [of 0 32 "symbols t" k 0] by (simp_all add: static_dist_tree_def)

lemma static_counts:
  "tree_count (static_length_tree t) 7 = 24" "l < 7 \<Longrightarrow> tree_count (static_length_tree t) l = 0"
  "tree_count (static_dist_tree t) 5 = 32" "l < 5 \<Longrightarrow> tree_count (static_dist_tree t) l = 0"
  by (simp_all add: tree_count_def static_length_tree_def static_dist_tree_def Let_def)

lemma first_code_zero: "(\<And>k. k < l \<Longrightarrow> c k = 0) \<Longrightarrow> first_code c l = 0"
  by (induction l) auto

text \<open>A word of the only length in front of which a tree has no words.\<close>

lemma huff_next_first_length:
  assumes "mem.rb_ok s" "mem.rb_view s = map (\<lambda>k. bit v (l - 1 - k)) [0..<l] @ tail" "0 < l" "l \<le> 15"
    and "\<And>k. k < l \<Longrightarrow> tree_count tree k = 0" "v < tree_count tree l" "v < 2 ^ l" "v < 288" "v < length (symbols tree)" "symbols tree ! v = Some x"
  shows "\<exists>s'. huff_decoder_next io_mem_read tree s = Inr (Inr x, s') \<and> mem.rb_ok s' \<and> mem.rb_view s' = tail"
proof -
  have f: "first_code (tree_count tree) l = 0" using assms(5) by (rule first_code_zero)
  have z: "tree_count tree 0 = 0" using assms(3,5) by simp
  have sum: "(\<Sum>k<l. tree_count tree k) = 0" using assms(5) by simp
  obtain t where t: "huff_decoder_loop io_mem_read tree 1 0 0 s = Inr (Inr (int v), t)" "mem.rb_ok t" "mem.rb_view t = tail"
    using mem.huff_loop_word [OF assms(1), of v l 1 tail tree 0 0] assms(2-4,6,7) f z sum by auto
  show ?thesis using mem.huff_next_index [OF t(1) assms(8-10)] t(2,3) by blast
qed

lemma ensure_pop_0: "ensure_pop io_mem_read 0 s = Inr (Inr 0, s)"
  by (simp add: ensure_pop_def io_ignore_def io_rbits_ensure_bits_def io_rbits_can_ensure_def io_rbits_fill.simps io_rbits_pop_bits_eq io_bind_def io_assert_def)

text \<open>
  A distance symbol is used as an index without a check, and the fixed distance code has the words
  30 and 31 that no distance has: in a block with the fixed codes, a match of length 3 (symbol 257)
  with the distance symbol 30 reads past the end of the table \<open>DIST_BASE\<close>, whatever was decoded before.
\<close>

theorem static_distance_overrun:
  assumes "length (symbols (length_tree s)) = 288" and "length (symbols (dist_tree s)) = 288" and "mem.rb_ok (bit_reader s)"
    and "mem.rb_view (bit_reader s) = [False, False, False, False, False, False, True] @ [True, True, True, True, False] @ tail"
  shows "decode_symbols (Suc fuel) io_mem_read write n (build_static_huff_trees s) = Inl OutOfBounds"
proof -
  let ?s = "build_static_huff_trees s" and ?t = "[True, True, True, True, False] @ tail"
  have w1: "map (\<lambda>k. bit (1 :: nat) (7 - 1 - k)) [0..<7] = [False, False, False, False, False, False, True]" by code_simp
  have w2: "map (\<lambda>k. bit (30 :: nat) (5 - 1 - k)) [0..<5] = [True, True, True, True, False]" by code_simp
  obtain b where b: "huff_decoder_next io_mem_read (length_tree ?s) (bit_reader s) = Inr (Inr 257, b)" "mem.rb_ok b" "mem.rb_view b = ?t"
    using huff_next_first_length [OF assms(3), of 1 7 ?t "static_length_tree (length_tree s)" 257] assms(4) static_counts(1,2) static_length_symbol [OF assms(1)]
    unfolding w1 by (auto simp: build_static_huff_trees_def)
  obtain d where d: "huff_decoder_next io_mem_read (dist_tree ?s) b = Inr (Inr 30, d)"
    using huff_next_first_length [OF b(2), of 30 5 tail "static_dist_tree (dist_tree s)" 30] b(3) static_counts(3,4) static_dist_symbol [OF assms(2), of 30]
    unfolding w2 by (auto simp: build_static_huff_trees_def)
  have tabs: "tab_get LENS_BITS 0 = Inr 0" "tab_get LENS_BASE 0 = Inr 3" "tab_get DIST_BITS 30 = Inr 0" "tab_get DIST_BASE 30 = Inl OutOfBounds"
    by (simp_all add: tab_get_def LENS_BITS_def LENS_BASE_def DIST_BITS_def DIST_BASE_def)
  have m: "read_match io_mem_read 0 (?s\<lparr>bit_reader := b\<rparr>) = Inl OutOfBounds"
    by (simp add: read_match_def io_bind_def io_lift_def tabs on_bits_def io_on_def ensure_pop_0 io_get_def d)
  have "bit_reader ?s = bit_reader s" "max_sym (length_tree ?s) = 285" "max_sym (dist_tree ?s) = 29"
    by (simp_all add: build_static_huff_trees_def static_length_tree_def static_dist_tree_def Let_def)
  with b(1) m show ?thesis
    by (simp add: io_bind_def io_get_def on_bits_def io_on_def)
qed

theorem static_distance_overrun_witness:
  "decode_symbols (Suc 0) io_mem_read io_mem_write_impl 0 (build_static_huff_trees (inflate_init (io_mem_init [0xC0, 7]) (io_mem_init []))) = Inl OutOfBounds"
proof (rule static_distance_overrun)
  let ?s = "inflate_init (io_mem_init [0xC0, 7]) (io_mem_init [])"
  show "length (symbols (length_tree ?s)) = 288" "length (symbols (dist_tree ?s)) = 288"
    by (simp_all add: inflate_init_def huff_tree_undefined_def)
  show "mem.rb_ok (bit_reader ?s)" by (simp add: inflate_init_def mem_rb_init)
  have "concat (map (\<lambda>b. map (bit b) [0..<8]) [0xC0, 7 :: u8]) =
      [False, False, False, False, False, False, True] @ [True, True, True, True, False] @ [False, False, False, False]" by code_simp
  then show "mem.rb_view (bit_reader ?s) = [False, False, False, False, False, False, True] @ [True, True, True, True, False] @ [False, False, False, False]"
    by (simp only: inflate_init_def inflate.simps mem_rb_init)
qed

end
