(* ===== verification/Heap.thy ===== *)
theory Heap
  imports Pmm
begin

text \<open>
  The allocator of \<open>brutal-alloc\<close> (\<open>heap.c\<close>, \<open>base.c\<close>): it takes whole pages from \<open>embed_mem_acquire\<close> as
  major blocks and cuts them into minor blocks. The blocks that the code links through their headers
  are lists here, a major block with its minor blocks in the order of the links; an address is a
  \<open>nat\<close> below $2^{64}$ and the sums and differences of the C code wrap. The provider of pages is an
  argument, and in the kernel it is the identity heap of theory Pmm (\<open>embed/kernel/mem.c\<close>).
\<close>

section \<open>Sizes\<close>

definition u64_add :: "nat \<Rightarrow> nat \<Rightarrow> nat" where
  "u64_add a b = (a + b) mod 2 ^ 64"

definition u64_sub :: "nat \<Rightarrow> nat \<Rightarrow> nat" where
  "u64_sub a b = (a + (2 ^ 64 - b mod 2 ^ 64)) mod 2 ^ 64"

lemma u64_add_small: "a + b < 2 ^ 64 \<Longrightarrow> u64_add a b = a + b"
  by (simp add: u64_add_def)

lemma u64_sub_small:
  assumes "b \<le> a" "a < 2 ^ 64"
  shows "u64_sub a b = a - b"
proof -
  have "a + (2 ^ 64 - b mod 2 ^ 64) = (a - b) + 2 ^ 64" using assms by simp
  then show ?thesis using assms unfolding u64_sub_def by (simp only: mod_add_self2) (simp add: less_imp_diff_less)
qed

definition ALLOC_HEAP_ALIGN :: nat where "ALLOC_HEAP_ALIGN = 64"
definition MAJOR_BLOCK_HEADER_SIZE :: nat where "MAJOR_BLOCK_HEADER_SIZE = 64"
definition MINOR_BLOCK_HEADER_SIZE :: nat where "MINOR_BLOCK_HEADER_SIZE = 64"
definition PAGE :: nat where "PAGE = 4096"

lemmas heap_consts = ALLOC_HEAP_ALIGN_def MAJOR_BLOCK_HEADER_SIZE_def MINOR_BLOCK_HEADER_SIZE_def PAGE_def

text \<open>\<open>align_up$(size, ALLOC_HEAP_ALIGN)\<close>, which is 0 for the sizes next to $2^{64}$.\<close>

definition heap_align :: "nat \<Rightarrow> nat" where
  "heap_align n = u64_add n (ALLOC_HEAP_ALIGN - 1) div ALLOC_HEAP_ALIGN * ALLOC_HEAP_ALIGN"

datatype node_size = NODE_SMALL | NODE_DEFAULT | NODE_LARGE

fun node_bytes :: "node_size \<Rightarrow> nat" where
  "node_bytes NODE_SMALL = 4 * 1024"
| "node_bytes NODE_DEFAULT = 16 * 1024"
| "node_bytes NODE_LARGE = 128 * 1024"

section \<open>Blocks\<close>

record heap_minor =
  min_addr :: nat
  min_size :: nat
  min_req_size :: nat

record heap_major =
  maj_addr :: nat
  maj_pages :: nat
  maj_size :: nat
  maj_usage :: nat
  maj_minors :: "heap_minor list"

record heap_alloc_state =
  heap_size :: node_size
  heap_majors :: "heap_major list"
  heap_best :: "nat option"

type_synonym 'o page_acquire = "nat \<Rightarrow> 'o \<Rightarrow> fault + (nat option \<times> 'o)"
type_synonym 'o page_release = "nat \<Rightarrow> nat \<Rightarrow> 'o \<Rightarrow> fault + 'o"

definition heap_alloc_init :: "node_size \<Rightarrow> heap_alloc_state" where
  "heap_alloc_init n = \<lparr>heap_size = n, heap_majors = [], heap_best = None\<rparr>"

definition major_pages :: "nat \<Rightarrow> node_size \<Rightarrow> nat" where
  "major_pages size1 node =
     (let st = u64_add (u64_add size1 MAJOR_BLOCK_HEADER_SIZE) MINOR_BLOCK_HEADER_SIZE;
          st = (if st mod PAGE = 0 then st div PAGE else st div PAGE + 1)
      in max st (node_bytes node div PAGE))"

definition major_block_create :: "'o page_acquire \<Rightarrow> nat \<Rightarrow> node_size \<Rightarrow> 'o \<Rightarrow> fault + (heap_major \<times> 'o)" where
  "major_block_create acquire size1 node os =
     (let st = major_pages size1 node; bytes = st * PAGE mod 2 ^ 64 in
      sbind (acquire bytes os) (\<lambda>(a, os).
      case a of
        None \<Rightarrow> Inl (Panic ''Failed to allocate memory!'')
      | Some maj \<Rightarrow> Inr (\<lparr>maj_addr = maj, maj_pages = st, maj_size = bytes, maj_usage = MAJOR_BLOCK_HEADER_SIZE, maj_minors = []\<rparr>, os)))"

definition mk_minor :: "nat \<Rightarrow> nat \<Rightarrow> heap_minor" where
  "mk_minor a n = \<lparr>min_addr = a, min_size = n, min_req_size = n\<rparr>"

text \<open>Case 4: the first gap after a minor block, up to the next one or to the end of the major block.\<close>

definition minor_end :: "heap_minor \<Rightarrow> nat" where
  "minor_end m = u64_add (u64_add (min_addr m) MINOR_BLOCK_HEADER_SIZE) (min_size m)"

definition gap_fits :: "nat \<Rightarrow> heap_minor \<Rightarrow> nat \<Rightarrow> bool" where
  "gap_fits size1 m limit =
     (u64_sub (u64_sub (u64_sub limit (min_addr m)) MINOR_BLOCK_HEADER_SIZE) (min_size m) \<ge> u64_add size1 MINOR_BLOCK_HEADER_SIZE)"

fun insert_gap :: "nat \<Rightarrow> nat \<Rightarrow> heap_minor list \<Rightarrow> (heap_minor \<times> heap_minor list) option" where
  "insert_gap size1 limit [] = None"
| "insert_gap size1 limit [m] =
     (if gap_fits size1 m limit then let new = mk_minor (minor_end m) size1 in Some (new, [m, new]) else None)"
| "insert_gap size1 limit (m # m2 # ms) =
     (if gap_fits size1 m (min_addr m2) then let new = mk_minor (minor_end m) size1 in Some (new, m # new # m2 # ms)
      else map_option (\<lambda>(new, rest). (new, m # rest)) (insert_gap size1 limit (m2 # ms)))"

text \<open>Case 2: the first block of a major block.\<close>

definition place_first :: "nat \<Rightarrow> heap_major \<Rightarrow> heap_minor \<times> heap_major" where
  "place_first size1 maj =
     (let new = mk_minor (u64_add (maj_addr maj) MAJOR_BLOCK_HEADER_SIZE) size1 in
      (new, maj\<lparr>maj_minors := [new], maj_usage := u64_add (maj_usage maj) (u64_add size1 MINOR_BLOCK_HEADER_SIZE)\<rparr>))"

text \<open>Cases 2 to 4: a place for the block inside a major block.\<close>

definition place_minor :: "nat \<Rightarrow> heap_major \<Rightarrow> (heap_minor \<times> heap_major) option" where
  "place_minor size1 maj =
     (case maj_minors maj of
        [] \<Rightarrow> Some (place_first size1 maj)
      | m # ms \<Rightarrow>
          let used = u64_add (maj_usage maj) (u64_add size1 MINOR_BLOCK_HEADER_SIZE) in
          if u64_sub (u64_sub (min_addr m) (maj_addr maj)) MAJOR_BLOCK_HEADER_SIZE \<ge> u64_add size1 MINOR_BLOCK_HEADER_SIZE
          then let new = mk_minor (u64_add (maj_addr maj) MAJOR_BLOCK_HEADER_SIZE) size1
               in Some (new, maj\<lparr>maj_minors := new # m # ms, maj_usage := used\<rparr>)
          else map_option (\<lambda>(new, rest). (new, maj\<lparr>maj_minors := rest, maj_usage := used\<rparr>))
                 (insert_gap size1 (u64_add (maj_addr maj) (maj_size maj)) (m # ms)))"

section \<open>Acquire\<close>

definition maj_diff :: "heap_major \<Rightarrow> nat" where
  "maj_diff maj = u64_sub (maj_size maj) (maj_usage maj)"

definition minor_ptr :: "heap_minor \<Rightarrow> nat" where
  "minor_ptr m = u64_add (min_addr m) MINOR_BLOCK_HEADER_SIZE"

text \<open>
  The loop over the major blocks, at the block of index \<open>i\<close>. It goes through the list at most twice and
  makes at most one new block, which bounds its turns.
\<close>

definition append_major :: "'o page_acquire \<Rightarrow> nat \<Rightarrow> heap_alloc_state \<times> 'o \<Rightarrow> fault + (heap_alloc_state \<times> 'o)" where
  "append_major acquire size1 = (\<lambda>(h, os).
     sbind (major_block_create acquire size1 (heap_size h) os) (\<lambda>(maj, os).
     Inr (h\<lparr>heap_majors := heap_majors h @ [maj]\<rparr>, os)))"

fun heap_search :: "nat \<Rightarrow> 'o page_acquire \<Rightarrow> nat \<Rightarrow> nat \<Rightarrow> nat \<Rightarrow> bool \<Rightarrow> heap_alloc_state \<times> 'o \<Rightarrow> fault + (nat \<times> heap_alloc_state \<times> 'o)" where
  "heap_search 0 acquire size1 i best_size started st = Inl OutOfFuel"
| "heap_search (Suc turns) acquire size1 i best_size started (h, os) =
     (let maj = heap_majors h ! i;
          diff = maj_diff maj;
          h = (if best_size < diff then h\<lparr>heap_best := Some (maj_addr maj)\<rparr> else h);
          best_size = (if best_size < diff then diff else best_size);
          last = (i + 1 = length (heap_majors h))
      in if diff < u64_add size1 MINOR_BLOCK_HEADER_SIZE
         then if \<not> last then heap_search turns acquire size1 (i + 1) best_size started (h, os)
              else if started then heap_search turns acquire size1 0 best_size False (h, os)
              else sbind (append_major acquire size1 (h, os)) (\<lambda>(h, os).
                   case place_first size1 (heap_majors h ! (i + 1)) of
                     (new, maj) \<Rightarrow> Inr (minor_ptr new, h\<lparr>heap_majors := (heap_majors h)[i + 1 := maj]\<rparr>, os))
         else case place_minor size1 maj of
                Some (new, maj) \<Rightarrow> Inr (minor_ptr new, h\<lparr>heap_majors := (heap_majors h)[i := maj]\<rparr>, os)
              | None \<Rightarrow>
                  if \<not> last then heap_search turns acquire size1 (i + 1) best_size started (h, os)
                  else if started then heap_search turns acquire size1 0 best_size False (h, os)
                  else sbind (append_major acquire size1 (h, os)) (\<lambda>(h, os).
                       heap_search turns acquire size1 (i + 1) best_size started (h, os)))"

definition major_index :: "heap_major list \<Rightarrow> nat \<Rightarrow> nat option" where
  "major_index majs a = (case filter (\<lambda>i. maj_addr (majs ! i) = a) [0..<length majs] of [] \<Rightarrow> None | i # _ \<Rightarrow> Some i)"

definition heap_acquire_sized :: "'o page_acquire \<Rightarrow> nat \<Rightarrow> heap_alloc_state \<times> 'o \<Rightarrow> fault + (nat \<times> heap_alloc_state \<times> 'o)" where
  "heap_acquire_sized acquire size1 st =
     sbind (if heap_majors (fst st) = [] then append_major acquire size1 st else Inr st) (\<lambda>(h, os).
     let turns = 2 * length (heap_majors h) + 2 in
     case heap_best h of
       None \<Rightarrow> heap_search turns acquire size1 0 0 False (h, os)
     | Some b \<Rightarrow>
         case major_index (heap_majors h) b of
           None \<Rightarrow> Inl UseAfterFree
         | Some j \<Rightarrow>
             let best_size = maj_diff (heap_majors h ! j) in
             if best_size > u64_add size1 MINOR_BLOCK_HEADER_SIZE
             then heap_search turns acquire size1 j best_size True (h, os)
             else heap_search turns acquire size1 0 best_size False (h, os))"

definition heap_alloc_acquire :: "'o page_acquire \<Rightarrow> nat \<Rightarrow> heap_alloc_state \<times> 'o \<Rightarrow> fault + (nat \<times> heap_alloc_state \<times> 'o)" where
  "heap_alloc_acquire acquire req_size st =
     (let size1 = heap_align req_size in
      heap_acquire_sized acquire (if size1 = 0 then heap_align 1 else size1) st)"

section \<open>Release\<close>

text \<open>
  The minor block whose header is at an address. A pointer that no minor block has is a misuse by the
  caller: the code then reads memory that is no header, and most often stops the machine.
\<close>

definition minor_index :: "heap_minor list \<Rightarrow> nat \<Rightarrow> nat option" where
  "minor_index ms a = (case filter (\<lambda>i. min_addr (ms ! i) = a) [0..<length ms] of [] \<Rightarrow> None | i # _ \<Rightarrow> Some i)"

definition find_minor :: "heap_major list \<Rightarrow> nat \<Rightarrow> (nat \<times> nat) option" where
  "find_minor majs a =
     (case filter (\<lambda>i. minor_index (maj_minors (majs ! i)) a \<noteq> None) [0..<length majs] of
        [] \<Rightarrow> None
      | i # _ \<Rightarrow> map_option (Pair i) (minor_index (maj_minors (majs ! i)) a))"

definition without_nth :: "nat \<Rightarrow> 'a list \<Rightarrow> 'a list" where
  "without_nth i xs = take i xs @ drop (Suc i) xs"

text \<open>The free space compared as an \<open>int\<close>.\<close>

definition diff_int :: "heap_major \<Rightarrow> int" where
  "diff_int maj = sint (of_nat (maj_diff maj) :: u32)"

definition heap_alloc_release :: "'o page_release \<Rightarrow> nat \<Rightarrow> heap_alloc_state \<times> 'o \<Rightarrow> fault + (heap_alloc_state \<times> 'o)" where
  "heap_alloc_release release ptr = (\<lambda>(h, os).
     if ptr = 0 then Inr (h, os)
     else case find_minor (heap_majors h) (u64_sub ptr MINOR_BLOCK_HEADER_SIZE) of
            None \<Rightarrow> Inl UseAfterFree
          | Some (i, j) \<Rightarrow>
              let maj = heap_majors h ! i;
                  m = maj_minors maj ! j;
                  maj = maj\<lparr>maj_usage := u64_sub (maj_usage maj) (u64_add (min_size m) MINOR_BLOCK_HEADER_SIZE),
                             maj_minors := without_nth j (maj_minors maj)\<rparr>
              in if maj_minors maj = []
                 then sbind (release (maj_addr maj) (maj_pages maj * PAGE mod 2 ^ 64) os) (\<lambda>os.
                      Inr (h\<lparr>heap_majors := without_nth i (heap_majors h),
                             heap_best := (if heap_best h = Some (maj_addr maj) then None else heap_best h)\<rparr>, os))
                 else
                   let h = h\<lparr>heap_majors := (heap_majors h)[i := maj]\<rparr> in
                   case heap_best h of
                     None \<Rightarrow> Inr (h, os)
                   | Some b \<Rightarrow>
                       case major_index (heap_majors h) b of
                         None \<Rightarrow> Inl UseAfterFree
                       | Some k \<Rightarrow>
                           Inr (if diff_int maj > diff_int (heap_majors h ! k) then h\<lparr>heap_best := Some (maj_addr maj)\<rparr> else h, os))"

fun heap_release_all :: "'o page_release \<Rightarrow> heap_major list \<Rightarrow> 'o \<Rightarrow> fault + 'o" where
  "heap_release_all release [] os = Inr os"
| "heap_release_all release (maj # majs) os =
     sbind (release (maj_addr maj) (maj_pages maj * PAGE mod 2 ^ 64) os) (heap_release_all release majs)"

text \<open>The allocator is a record of zeroes afterwards, with no operations.\<close>

definition heap_alloc_deinit :: "'o page_release \<Rightarrow> heap_alloc_state \<times> 'o \<Rightarrow> fault + 'o" where
  "heap_alloc_deinit release = (\<lambda>(h, os). heap_release_all release (heap_majors h) os)"

section \<open>Resize\<close>

text \<open>With the contents of the memory, which \<open>mem_cpy\<close> changes.\<close>

definition mem_cpy_at :: "nat \<Rightarrow> nat \<Rightarrow> nat \<Rightarrow> (nat \<Rightarrow> u8) \<Rightarrow> nat \<Rightarrow> u8" where
  "mem_cpy_at dst src n mem a = (if dst \<le> a \<and> a < dst + n then mem (src + (a - dst)) else mem a)"

definition heap_alloc_resize ::
  "'o page_acquire \<Rightarrow> 'o page_release \<Rightarrow> nat \<Rightarrow> nat \<Rightarrow> (nat \<Rightarrow> u8) \<Rightarrow> heap_alloc_state \<times> 'o \<Rightarrow> fault + (nat \<times> (nat \<Rightarrow> u8) \<times> heap_alloc_state \<times> 'o)"
where
  "heap_alloc_resize acquire release ptr req mem st =
     (let size1 = heap_align req in
      if size1 = 0 then sbind (heap_alloc_release release ptr st) (\<lambda>st. Inr (0, mem, st))
      else if ptr = 0 then sbind (heap_alloc_acquire acquire size1 st) (\<lambda>(p, st). Inr (p, mem, st))
      else case find_minor (heap_majors (fst st)) (u64_sub ptr MINOR_BLOCK_HEADER_SIZE) of
             None \<Rightarrow> Inl UseAfterFree
           | Some (i, j) \<Rightarrow>
               let maj = heap_majors (fst st) ! i; m = maj_minors maj ! j in
               if min_size m \<ge> size1
               then let maj = maj\<lparr>maj_minors := (maj_minors maj)[j := m\<lparr>min_req_size := size1\<rparr>]\<rparr>
                    in Inr (ptr, mem, (fst st)\<lparr>heap_majors := (heap_majors (fst st))[i := maj]\<rparr>, snd st)
               else sbind (heap_alloc_acquire acquire size1 st) (\<lambda>(new_ptr, st).
                    let mem = mem_cpy_at new_ptr ptr (min_req_size m) mem in
                    sbind (heap_alloc_release release ptr st) (\<lambda>st. Inr (new_ptr, mem, st))))"

section \<open>base.c\<close>

definition alloc_malloc :: "'o page_acquire \<Rightarrow> nat \<Rightarrow> heap_alloc_state \<times> 'o \<Rightarrow> fault + (nat \<times> heap_alloc_state \<times> 'o)" where
  "alloc_malloc acquire n st = heap_alloc_acquire acquire n st"

definition alloc_free :: "'o page_release \<Rightarrow> nat \<Rightarrow> heap_alloc_state \<times> 'o \<Rightarrow> fault + (heap_alloc_state \<times> 'o)" where
  "alloc_free release ptr st = heap_alloc_release release ptr st"

definition alloc_calloc ::
  "'o page_acquire \<Rightarrow> nat \<Rightarrow> nat \<Rightarrow> (nat \<Rightarrow> u8) \<Rightarrow> heap_alloc_state \<times> 'o \<Rightarrow> fault + (nat \<times> (nat \<Rightarrow> u8) \<times> heap_alloc_state \<times> 'o)"
where
  "alloc_calloc acquire n count mem st =
     (let bytes = n * count mod 2 ^ 64 in
      sbind (heap_alloc_acquire acquire bytes st) (\<lambda>(p, st).
      Inr (p, (\<lambda>a. if p \<le> a \<and> a < p + bytes then 0 else mem a), st)))"

section \<open>embed/kernel/mem.c\<close>

definition embed_mem_acquire :: "pmm page_acquire" where
  "embed_mem_acquire n p =
     sbind (heap_alloc p (of_nat n)) (\<lambda>(result, p).
     Inr (case result of Inl e \<Rightarrow> None | Inr r \<Rightarrow> Some (unat (rbase r)), p))"

definition embed_mem_release :: "pmm page_release" where
  "embed_mem_release a n p = sbind (heap_free p (mk_range (of_nat a) (of_nat n))) (\<lambda>(_, p). Inr p)"

end
