(* ===== verification/Heap_Props.thy ===== *)
theory Heap_Props
  imports Heap
begin

text \<open>
  The allocator of theory Heap over any provider of pages: the provider is a locale of two laws (pages
  that are acquired were not in use, pages that are released are no longer), and what the three operations
  of the allocator promise is proved from them. The invariant says that the minor blocks of a major
  block lie in order inside it, that the major blocks are apart from each other and inside pages that
  the provider gave out, and that the count of used bytes is right.
\<close>

section \<open>Well-formed blocks\<close>

definition minor_span :: "heap_minor \<Rightarrow> nat set" where
  "minor_span m = {min_addr m..<min_addr m + 64 + min_size m}"

definition major_span :: "heap_major \<Rightarrow> nat set" where
  "major_span maj = {maj_addr maj..<maj_addr maj + maj_size maj}"

fun minors_ok :: "nat \<Rightarrow> heap_minor list \<Rightarrow> nat \<Rightarrow> bool" where
  "minors_ok lo [] hi = (lo \<le> hi)"
| "minors_ok lo (m # ms) hi =
     (lo \<le> min_addr m \<and> 64 dvd min_addr m \<and> 64 dvd min_size m \<and> 0 < min_size m \<and> min_req_size m \<le> min_size m \<and>
      minors_ok (min_addr m + 64 + min_size m) ms hi)"

definition minors_usage :: "heap_minor list \<Rightarrow> nat" where
  "minors_usage ms = (\<Sum>m\<leftarrow>ms. 64 + min_size m)"

definition major_ok :: "heap_major \<Rightarrow> bool" where
  "major_ok maj \<longleftrightarrow> 4096 dvd maj_addr maj \<and> 0 < maj_addr maj \<and> maj_size maj = maj_pages maj * 4096 \<and> 0 < maj_size maj \<and>
     maj_addr maj + maj_size maj < 2 ^ 64 \<and> minors_ok (maj_addr maj + 64) (maj_minors maj) (maj_addr maj + maj_size maj) \<and>
     maj_usage maj = 64 + minors_usage (maj_minors maj)"

lemma minors_ok_le: "minors_ok lo ms hi \<Longrightarrow> lo + minors_usage ms \<le> hi"
  by (induction ms arbitrary: lo) (fastforce simp: minors_usage_def)+

lemma minors_ok_bounds: "minors_ok lo ms hi \<Longrightarrow> m \<in> set ms \<Longrightarrow> lo \<le> min_addr m \<and> min_addr m + 64 + min_size m \<le> hi \<and> 0 < min_size m \<and> 64 dvd min_addr m"
proof (induction ms arbitrary: lo)
  case (Cons a ms)
  then show ?case
  proof (cases "m = a")
    case True
    then show ?thesis using Cons.prems minors_ok_le [of _ ms hi] by fastforce
  next
    case False
    then show ?thesis using Cons.prems Cons.IH [of "min_addr a + 64 + min_size a"] by fastforce
  qed
qed simp

lemma minors_ok_weaken: "minors_ok lo ms hi \<Longrightarrow> lo' \<le> lo \<Longrightarrow> minors_ok lo' ms hi"
  by (cases ms) auto

lemma gap_fits_iff:
  assumes "min_addr m + 64 + min_size m \<le> limit" "limit < 2 ^ 64" "n + 64 < 2 ^ 64"
  shows "gap_fits n m limit \<longleftrightarrow> min_addr m + 64 + min_size m + (64 + n) \<le> limit"
  using assms by (auto simp: gap_fits_def heap_consts u64_sub_small u64_add_small)

lemma minor_end_eq: "min_addr m + 64 + min_size m < 2 ^ 64 \<Longrightarrow> minor_end m = min_addr m + 64 + min_size m"
  by (simp add: minor_end_def heap_consts u64_add_small)

text \<open>A block put into a gap keeps the order and meets no other block.\<close>

definition gap_limit :: "heap_minor list \<Rightarrow> nat \<Rightarrow> nat" where
  "gap_limit ms hi = (case ms of [] \<Rightarrow> hi | m # _ \<Rightarrow> min_addr m)"

lemma insert_gap_Cons:
  "insert_gap n hi (m # ms) =
     (if gap_fits n m (gap_limit ms hi) then Some (mk_minor (minor_end m) n, m # mk_minor (minor_end m) n # ms)
      else map_option (\<lambda>(new, rest). (new, m # rest)) (insert_gap n hi ms))"
  by (cases ms) (simp_all add: gap_limit_def Let_def)

lemma minors_ok_limit: "minors_ok lo ms hi \<Longrightarrow> lo \<le> gap_limit ms hi \<and> gap_limit ms hi \<le> hi"
  using minors_ok_bounds [of lo ms hi "hd ms"] by (cases ms) (auto simp: gap_limit_def)

lemma minors_ok_from_limit: "minors_ok lo ms hi \<Longrightarrow> lo' \<le> gap_limit ms hi \<Longrightarrow> minors_ok lo' ms hi"
  by (cases ms) (auto simp: gap_limit_def)

definition separate :: "heap_minor \<Rightarrow> heap_minor \<Rightarrow> bool" where
  "separate a b \<longleftrightarrow> min_addr a + 64 + min_size a \<le> min_addr b \<or> min_addr b + 64 + min_size b \<le> min_addr a"

lemma insert_gap_spec:
  assumes "hi < 2 ^ 64" "n + 64 < 2 ^ 64" "64 dvd n" "0 < n" "minors_ok lo ms hi" "insert_gap n hi ms = Some (new, ms')"
  shows "minors_ok lo ms' hi \<and> set ms' = insert new (set ms) \<and> minors_usage ms' = minors_usage ms + (64 + n) \<and>
    min_size new = n \<and> (\<forall>m\<in>set ms. separate new m)"
  using assms(5,6)
proof (induction ms arbitrary: lo new ms')
  case (Cons m ms)
  let ?e = "min_addr m + 64 + min_size m"
  have ms: "minors_ok ?e ms hi" "lo \<le> min_addr m" "64 dvd min_addr m" "64 dvd min_size m" "0 < min_size m" "min_req_size m \<le> min_size m"
    using Cons.prems(1) by auto
  have lim: "?e \<le> gap_limit ms hi" "gap_limit ms hi < 2 ^ 64" using minors_ok_limit [OF ms(1)] assms(1) by auto
  have e: "minor_end m = ?e" using lim by (intro minor_end_eq) linarith
  show ?case
  proof (cases "gap_fits n m (gap_limit ms hi)")
    case True
    then have fit: "?e + (64 + n) \<le> gap_limit ms hi" using gap_fits_iff [OF lim assms(2)] by simp
    have new: "new = mk_minor ?e n" "ms' = m # new # ms" using Cons.prems(2) True e by (auto simp: insert_gap_Cons)
    have "minors_ok (?e + 64 + n) ms hi" using minors_ok_from_limit [OF ms(1)] fit by simp
    then have ok: "minors_ok lo ms' hi" using ms assms(3,4) by (simp add: new mk_minor_def)
    have "separate new x" if h: "x \<in> set ms" for x
      using minors_ok_bounds [OF \<open>minors_ok (?e + 64 + n) ms hi\<close> h] by (simp add: separate_def new mk_minor_def)
    then show ?thesis using ok by (auto simp: new mk_minor_def separate_def minors_usage_def)
  next
    case False
    then obtain rest where r: "insert_gap n hi ms = Some (new, rest)" "ms' = m # rest" using Cons.prems(2) by (auto simp: insert_gap_Cons)
    note IH = Cons.IH [OF ms(1) r(1)]
    have "new \<in> set rest" using IH by simp
    then have "?e \<le> min_addr new" using IH minors_ok_bounds [of ?e rest hi new] by blast
    then have "separate new m" by (simp add: separate_def)
    then show ?thesis using IH ms by (auto simp: r(2) minors_usage_def)
  qed
qed simp

lemma insert_gap_none: "insert_gap n hi [] = None" by simp

text \<open>What placing a block in a major block does.\<close>

definition placed :: "nat \<Rightarrow> heap_major \<Rightarrow> heap_minor \<Rightarrow> heap_major \<Rightarrow> bool" where
  "placed n maj new maj' \<longleftrightarrow> major_ok maj' \<and> maj_addr maj' = maj_addr maj \<and> maj_size maj' = maj_size maj \<and> maj_pages maj' = maj_pages maj \<and>
     set (maj_minors maj') = insert new (set (maj_minors maj)) \<and> min_size new = n \<and> (\<forall>m\<in>set (maj_minors maj). separate new m)"

lemma major_usage_le: "major_ok maj \<Longrightarrow> maj_usage maj \<le> maj_size maj"
  using minors_ok_le [of "maj_addr maj + 64" "maj_minors maj" "maj_addr maj + maj_size maj"] by (auto simp: major_ok_def)

lemma place_first_ok:
  assumes maj: "major_ok maj" "maj_minors maj = []" and n: "64 dvd n" "0 < n" "64 + (64 + n) \<le> maj_size maj" and p: "place_first n maj = (new, maj')"
  shows "placed n maj new maj'"
proof -
  have a: "maj_addr maj + maj_size maj < 2 ^ 64" "4096 dvd maj_addr maj" "maj_usage maj = 64" using maj by (auto simp: major_ok_def minors_usage_def)
  then have "64 dvd maj_addr maj" using dvd_trans [of 64 4096 "maj_addr maj"] by simp
  then have "64 dvd maj_addr maj + 64" by simp
  moreover have "u64_add (maj_addr maj) 64 = maj_addr maj + 64" "u64_add n 64 = n + 64" "u64_add 64 (n + 64) = 64 + (64 + n)"
    using a(1) n(3) by (auto simp: u64_add_small)
  ultimately have "new = mk_minor (maj_addr maj + 64) n" "maj' = maj\<lparr>maj_minors := [new], maj_usage := 64 + (64 + n)\<rparr>" "64 dvd maj_addr maj + 64"
    using p a(3) by (auto simp: place_first_def Let_def heap_consts)
  then show ?thesis using maj n by (auto simp: placed_def major_ok_def mk_minor_def minors_usage_def)
qed

lemma place_minor_ok:
  assumes maj: "major_ok maj" and n: "64 dvd n" "0 < n" "n + 128 < 2 ^ 64" "64 + n \<le> maj_size maj - maj_usage maj" and p: "place_minor n maj = Some (new, maj')"
  shows "placed n maj new maj'"
proof (cases "maj_minors maj")
  case Nil
  have "64 + (64 + n) \<le> maj_size maj" using n(4) maj Nil n(2) by (simp add: major_ok_def minors_usage_def)
  then show ?thesis using place_first_ok [OF maj Nil n(1,2)] p Nil by (simp add: place_minor_def)
next
  case (Cons m ms)
  let ?b = "maj_addr maj" and ?hi = "maj_addr maj + maj_size maj"
  have a: "?hi < 2 ^ 64" "4096 dvd ?b" "minors_ok (?b + 64) (m # ms) ?hi" "maj_usage maj = 64 + minors_usage (m # ms)"
    using maj Cons by (auto simp: major_ok_def)
  have al: "64 dvd ?b + 64" using a(2) dvd_trans [of 64 4096 ?b] by simp
  have use: "u64_add (maj_usage maj) (u64_add n 64) = maj_usage maj + (64 + n)" using n a(1) major_usage_le [OF maj] by (auto simp: u64_add_small)
  have st: "u64_add ?b 64 = ?b + 64" "u64_add n 64 = n + 64" using a n(3) minors_ok_le [OF a(3)] by (auto simp: u64_add_small)
  have m: "?b + 64 \<le> min_addr m" "min_addr m \<le> ?hi" using a(3) minors_ok_bounds [OF a(3), of m] by auto
  then have d: "u64_sub (u64_sub (min_addr m) ?b) 64 = min_addr m - ?b - 64" using a(1) by (auto simp: u64_sub_small)
  show ?thesis
  proof (cases "n + 64 \<le> min_addr m - ?b - 64")
    case True
    let ?new = "mk_minor (?b + 64) n"
    have new: "new = ?new" "maj' = maj\<lparr>maj_minors := ?new # m # ms, maj_usage := maj_usage maj + (64 + n)\<rparr>"
      using p True use st d by (auto simp: place_minor_def Cons Let_def heap_consts)
    have ok: "minors_ok (?b + 64) (?new # m # ms) ?hi" using a(3) True al n m by (auto simp: mk_minor_def)
    have "separate ?new x" if h: "x \<in> set (m # ms)" for x
      using minors_ok_bounds [of "?b + 64 + 64 + n" "m # ms" ?hi x] ok h by (auto simp: separate_def mk_minor_def)
    then show ?thesis using ok maj a(4) Cons by (auto simp: placed_def new major_ok_def mk_minor_def minors_usage_def)
  next
    case False
    then obtain rest where r: "insert_gap n ?hi (m # ms) = Some (new, rest)" "maj' = maj\<lparr>maj_minors := rest, maj_usage := maj_usage maj + (64 + n)\<rparr>"
      using p use st d a(1) by (auto simp: place_minor_def Cons Let_def heap_consts u64_add_small)
    note g = insert_gap_spec [OF a(1) _ n(1,2) a(3) r(1)]
    have "n + 64 < 2 ^ 64" using n(3) by simp
    note g = g [OF this]
    then show ?thesis using maj Cons r(2) a(4) by (auto simp: placed_def major_ok_def)
  qed
qed


section \<open>Providers of pages\<close>

locale page_provider =
  fixes acquire :: "'o page_acquire" and release :: "'o page_release" and used :: "'o \<Rightarrow> nat set" and okp :: "'o \<Rightarrow> bool"
  assumes acquire_fresh: "okp s \<Longrightarrow> 0 < n \<Longrightarrow> 4096 dvd n \<Longrightarrow> n < 2 ^ 64 \<Longrightarrow> acquire n s = Inr (Some a, t) \<Longrightarrow>
      okp t \<and> 4096 dvd a \<and> 0 < a \<and> a + n < 2 ^ 64 \<and> {a..<a + n} \<inter> used s = {} \<and> used t = used s \<union> {a..<a + n}"
    and release_used: "okp s \<Longrightarrow> 0 < n \<Longrightarrow> 4096 dvd n \<Longrightarrow> 4096 dvd a \<Longrightarrow> a + n < 2 ^ 64 \<Longrightarrow> {a..<a + n} \<subseteq> used s \<Longrightarrow>
      \<exists>t. release a n s = Inr t \<and> okp t \<and> used t = used s - {a..<a + n}"

definition all_minors :: "heap_alloc_state \<Rightarrow> heap_minor set" where
  "all_minors h = (\<Union>maj\<in>set (heap_majors h). set (maj_minors maj))"

definition apart :: "heap_major \<Rightarrow> heap_major \<Rightarrow> bool" where
  "apart a b \<longleftrightarrow> major_span a \<inter> major_span b = {}"

definition best_ok :: "heap_alloc_state \<Rightarrow> bool" where
  "best_ok h \<longleftrightarrow> (\<forall>b. heap_best h = Some b \<longrightarrow> b \<in> maj_addr ` set (heap_majors h))"

text \<open>What an allocation promises: a block of the size asked for, next to all the blocks there were.\<close>

definition acquired :: "nat \<Rightarrow> heap_alloc_state \<Rightarrow> nat \<Rightarrow> heap_alloc_state \<Rightarrow> bool" where
  "acquired n h p h' \<longleftrightarrow> (\<exists>new. p = min_addr new + 64 \<and> min_size new = n \<and> all_minors h' = insert new (all_minors h) \<and>
     (\<forall>m\<in>all_minors h. separate new m))"

lemma minor_in_major:
  assumes "major_ok maj" "m \<in> set (maj_minors maj)"
  shows "maj_addr maj + 64 \<le> min_addr m" "min_addr m + 64 + min_size m \<le> maj_addr maj + maj_size maj" "0 < min_size m" "64 dvd min_addr m"
  using minors_ok_bounds [of "maj_addr maj + 64" "maj_minors maj" "maj_addr maj + maj_size maj" m] assms by (auto simp: major_ok_def)

lemma apart_separate:
  assumes "apart a b" "major_ok a" "major_ok b" "m \<in> set (maj_minors a)" "k \<in> set (maj_minors b)"
  shows "separate m k"
proof -
  have "maj_addr a + maj_size a \<le> maj_addr b \<or> maj_addr b + maj_size b \<le> maj_addr a"
  proof (rule ccontr)
    assume "\<not> ?thesis"
    then have "max (maj_addr a) (maj_addr b) \<in> major_span a \<inter> major_span b" using assms(2,3) by (auto simp: major_span_def major_ok_def)
    then show False using assms(1) by (auto simp: apart_def)
  qed
  then show ?thesis using minor_in_major [OF assms(2,4)] minor_in_major [OF assms(3,5)] by (auto simp: separate_def)
qed

lemma sorted_wrt_apart:
  assumes "sorted_wrt apart majs" "i < length majs" "j < length majs" "i \<noteq> j"
  shows "apart (majs ! i) (majs ! j)"
  using assms sorted_wrt_nth_less [of apart majs i j] sorted_wrt_nth_less [of apart majs j i]
  by (cases "i < j") (auto simp: apart_def)

lemma sorted_wrt_update:
  assumes "sorted_wrt apart majs" "i < length majs" "major_span maj' = major_span (majs ! i)"
  shows "sorted_wrt apart (majs[i := maj'])"
  unfolding sorted_wrt_iff_nth_less
proof (intro allI impI)
  fix j k assume jk: "j < k" "k < length (majs[i := maj'])"
  then have "apart (majs ! j) (majs ! k)" using assms(1) by (simp add: sorted_wrt_nth_less)
  then show "apart (majs[i := maj'] ! j) (majs[i := maj'] ! k)" using jk assms(2,3) by (auto simp: nth_list_update apart_def)
qed

text \<open>A new major block, which has room for the block it is made for.\<close>

definition size_ok :: "nat \<Rightarrow> bool" where
  "size_ok n \<longleftrightarrow> 0 < n \<and> 64 dvd n \<and> n + 8192 \<le> 2 ^ 64"

lemma major_pages_ok:
  assumes "size_ok n"
  shows "n + 128 \<le> major_pages n node * 4096" "major_pages n node * 4096 < 2 ^ 64" "0 < major_pages n node"
proof -
  have st: "u64_add (u64_add n 64) 64 = n + 128" using assms by (simp add: size_ok_def u64_add_small)
  let ?p = "if (n + 128) mod 4096 = 0 then (n + 128) div 4096 else (n + 128) div 4096 + 1"
  define q r where "q = (n + 128) div 4096" and "r = (n + 128) mod 4096"
  have "q * 4096 + r = n + 128" "r < 4096" unfolding q_def r_def by (rule div_mult_mod_eq) simp
  then have p: "n + 128 \<le> ?p * 4096" "?p * 4096 < n + 128 + 4096" unfolding q_def [symmetric] r_def [symmetric] by (auto split: if_splits)
  have mp: "major_pages n node = max ?p (node_bytes node div 4096)" by (simp add: major_pages_def Let_def heap_consts st)
  have "?p \<le> major_pages n node" using mp by simp
  then show 1: "n + 128 \<le> major_pages n node * 4096" using p(1) mult_le_mono1 [of ?p "major_pages n node" 4096] by linarith
  have "node_bytes node div 4096 * 4096 \<le> 131072" by (cases node) simp_all
  then show "major_pages n node * 4096 < 2 ^ 64" using mp p(2) assms by (auto simp: max_def size_ok_def)
  show "0 < major_pages n node" using 1 by (cases "major_pages n node") auto
qed

lemma major_index_ok:
  assumes "a \<in> maj_addr ` set majs"
  obtains j where "major_index majs a = Some j" "j < length majs" "maj_addr (majs ! j) = a"
proof -
  let ?is = "filter (\<lambda>i. maj_addr (majs ! i) = a) [0..<length majs]"
  from assms obtain k where "k < length majs" "maj_addr (majs ! k) = a" by (auto simp: in_set_conv_nth)
  then have "k \<in> set ?is" by simp
  then obtain j js where j: "?is = j # js" by (cases ?is) auto
  then have "j \<in> set ?is" by simp
  then have "j < length majs" "maj_addr (majs ! j) = a" by auto
  then show ?thesis using that [of j] j by (simp add: major_index_def)
qed

lemma heap_align_ok:
  assumes "n + 8192 + 64 \<le> 2 ^ 64"
  shows "size_ok (if heap_align n = 0 then heap_align 1 else heap_align n)" "n \<le> (if heap_align n = 0 then heap_align 1 else heap_align n)"
proof -
  have a: "heap_align n = (n + 63) div 64 * 64" using assms by (simp add: heap_align_def heap_consts u64_add_small)
  have b: "heap_align 1 = 64" by (simp add: heap_align_def heap_consts u64_add_small)
  have "n \<le> (n + 63) div 64 * 64" "(n + 63) div 64 * 64 \<le> n + 63" by linarith+
  then show "size_ok (if heap_align n = 0 then heap_align 1 else heap_align n)" "n \<le> (if heap_align n = 0 then heap_align 1 else heap_align n)"
    using assms unfolding a b by (auto simp: size_ok_def)
qed

lemma minors_ok_sorted: "minors_ok lo ms hi \<Longrightarrow> j < k \<Longrightarrow> k < length ms \<Longrightarrow> min_addr (ms ! j) + 64 + min_size (ms ! j) \<le> min_addr (ms ! k)"
proof (induction ms arbitrary: lo j k)
  case (Cons m ms)
  obtain k' where k: "k = Suc k'" using Cons.prems(2) by (cases k) auto
  show ?case
  proof (cases j)
    case 0
    then show ?thesis using Cons.prems(1,3) k minors_ok_bounds [of "min_addr m + 64 + min_size m" ms hi "ms ! k'"] by simp
  next
    case (Suc j')
    then show ?thesis using Cons.IH [of "min_addr m + 64 + min_size m" j' k'] Cons.prems k by simp
  qed
qed simp

lemma minors_ok_inj:
  assumes "minors_ok lo ms hi" "j < length ms" "k < length ms" "min_addr (ms ! j) = min_addr (ms ! k)"
  shows "j = k"
  using minors_ok_sorted [OF assms(1), of j k] minors_ok_sorted [OF assms(1), of k j] assms(2-4) by (cases "j < k"; cases "k < j") auto

lemma minors_ok_without:
  "minors_ok lo ms hi \<Longrightarrow> j < length ms \<Longrightarrow>
    minors_ok lo (without_nth j ms) hi \<and> minors_usage ms = minors_usage (without_nth j ms) + (min_size (ms ! j) + 64)"
proof (induction ms arbitrary: lo j)
  case (Cons m ms)
  show ?case
  proof (cases j)
    case 0
    then show ?thesis using Cons.prems(1) minors_ok_weaken [of "min_addr m + 64 + min_size m" ms hi lo] by (simp add: without_nth_def minors_usage_def)
  next
    case (Suc k)
    then show ?thesis using Cons.IH [of "min_addr m + 64 + min_size m" k] Cons.prems by (simp add: without_nth_def minors_usage_def)
  qed
qed simp

lemma set_without_minors:
  assumes "minors_ok lo ms hi" "j < length ms"
  shows "set (without_nth j ms) = set ms - {ms ! j}"
proof -
  have "distinct ms" unfolding distinct_conv_nth using minors_ok_inj [OF assms(1)] by metis
  then have "distinct (take j ms @ ms ! j # drop (Suc j) ms)" by (simp add: id_take_nth_drop [OF assms(2), symmetric])
  moreover have "set ms = set (take j ms) \<union> {ms ! j} \<union> set (drop (Suc j) ms)"
    by (subst id_take_nth_drop [OF assms(2)]) auto
  ultimately show ?thesis by (auto simp: without_nth_def)
qed

lemma first_index_eq:
  assumes "\<And>i. P i \<Longrightarrow> i < n \<Longrightarrow> i = j" "P j" "j < n"
  shows "filter P [0..<n] = [j]"
proof -
  have *: "P i \<longleftrightarrow> i = j" if "i < n" for i using assms(1) [OF _ that] assms(2) by blast
  have "[0..<n] = [0..<j] @ j # [Suc j..<n]" using assms(3) by (metis less_imp_add_positive upt_add_eq_append upt_conv_Cons zero_le order_less_imp_le assms(3))
  moreover have "filter P [0..<j] = []" "filter P [Suc j..<n] = []" using * assms(3) by (auto simp: filter_empty_conv)
  ultimately show ?thesis using assms(2) by simp
qed

lemma minor_index_some:
  assumes "minors_ok lo ms hi" "j < length ms" "min_addr (ms ! j) = a"
  shows "minor_index ms a = Some j"
proof -
  have "filter (\<lambda>i. min_addr (ms ! i) = a) [0..<length ms] = [j]"
    using minors_ok_inj [OF assms(1)] assms(2,3) by (intro first_index_eq) auto
  then show ?thesis by (simp add: minor_index_def)
qed

lemma minor_index_found:
  assumes "minor_index ms a \<noteq> None"
  shows "\<exists>j<length ms. min_addr (ms ! j) = a"
proof -
  have "filter (\<lambda>i. min_addr (ms ! i) = a) [0..<length ms] \<noteq> []" using assms by (auto simp: minor_index_def)
  then show ?thesis by (auto simp: filter_empty_conv)
qed

lemma major_ok_minors: "major_ok maj \<Longrightarrow> minors_ok (maj_addr maj + 64) (maj_minors maj) (maj_addr maj + maj_size maj)"
  unfolding major_ok_def by blast

lemma all_minors_at: "m \<in> all_minors h \<Longrightarrow> \<exists>i<length (heap_majors h). m \<in> set (maj_minors (heap_majors h ! i))"
  unfolding all_minors_def by (auto simp: in_set_conv_nth) (metis nth_mem)

lemma sorted_wrt_without:
  assumes "sorted_wrt P xs" "i < length xs"
  shows "sorted_wrt P (without_nth i xs)"
  using assms(1) unfolding without_nth_def
  by (subst (asm) id_take_nth_drop [OF assms(2)]) (auto simp: sorted_wrt_append)

lemma set_without: "i < length xs \<Longrightarrow> set xs = insert (xs ! i) (set (without_nth i xs))"
  unfolding without_nth_def by (subst id_take_nth_drop, assumption) auto

lemma without_apart:
  assumes "sorted_wrt apart xs" "i < length xs" "x \<in> set (without_nth i xs)"
  shows "apart (xs ! i) x"
proof -
  have "sorted_wrt apart (take i xs @ xs ! i # drop (Suc i) xs)" using assms(1,2) by (simp add: id_take_nth_drop [OF assms(2), symmetric])
  then show ?thesis using assms(3) by (auto simp: without_nth_def sorted_wrt_append apart_def)
qed

lemma minors_ok_distinct: "minors_ok lo ms hi \<Longrightarrow> distinct ms"
  unfolding distinct_conv_nth using minors_ok_inj by metis

lemma minors_ok_req:
  "minors_ok lo ms hi \<Longrightarrow> j < length ms \<Longrightarrow> n \<le> min_size (ms ! j) \<Longrightarrow>
    minors_ok lo (ms[j := (ms ! j)\<lparr>min_req_size := n\<rparr>]) hi \<and> minors_usage (ms[j := (ms ! j)\<lparr>min_req_size := n\<rparr>]) = minors_usage ms"
  by (induction ms arbitrary: lo j) (auto simp: minors_usage_def split: nat.split)

lemma minors_ok_req_le: "minors_ok lo ms hi \<Longrightarrow> m \<in> set ms \<Longrightarrow> min_req_size m \<le> min_size m"
  by (induction ms arbitrary: lo) auto

lemma heap_align_req:
  assumes "0 < req" "req + 8192 + 128 \<le> 2 ^ 64"
  shows "0 < heap_align req" "req \<le> heap_align req" "heap_align req + 8192 + 64 \<le> 2 ^ 64"
proof -
  have a: "heap_align req = (req + 63) div 64 * 64" using assms by (simp add: heap_align_def heap_consts u64_add_small)
  have "req \<le> (req + 63) div 64 * 64" "(req + 63) div 64 * 64 \<le> req + 63" by linarith+
  then show "0 < heap_align req" "req \<le> heap_align req" "heap_align req + 8192 + 64 \<le> 2 ^ 64" unfolding a using assms by auto
qed

text \<open>The blocks are where they say they are, apart from each other, in pages that the provider gave out.\<close>

definition heap_inv :: "('o \<Rightarrow> nat set) \<Rightarrow> ('o \<Rightarrow> bool) \<Rightarrow> heap_alloc_state \<times> 'o \<Rightarrow> bool" where
  "heap_inv used okp st \<longleftrightarrow> okp (snd st) \<and> (\<forall>maj\<in>set (heap_majors (fst st)). major_ok maj \<and> major_span maj \<subseteq> used (snd st)) \<and>
     sorted_wrt apart (heap_majors (fst st)) \<and> best_ok (fst st)"

context page_provider
begin

abbreviation heap_ok :: "heap_alloc_state \<times> 'o \<Rightarrow> bool" where
  "heap_ok \<equiv> heap_inv used okp"

lemma place_in:
  assumes ok: "heap_ok (h, os)" and i: "i < length (heap_majors h)" and pl: "placed n (heap_majors h ! i) new maj'"
  shows "acquired n h (min_addr new + 64) (h\<lparr>heap_majors := (heap_majors h)[i := maj']\<rparr>)" "heap_ok (h\<lparr>heap_majors := (heap_majors h)[i := maj']\<rparr>, os)"
    "minor_ptr new = min_addr new + 64"
proof -
  let ?majs = "heap_majors h" and ?h = "h\<lparr>heap_majors := (heap_majors h)[i := maj']\<rparr>"
  have new: "major_ok maj'" "new \<in> set (maj_minors maj')" "major_span maj' = major_span (?majs ! i)" "maj_addr maj' = maj_addr (?majs ! i)"
    using pl by (auto simp: placed_def major_span_def)
  have mi: "?majs ! i \<in> set ?majs" using i by simp
  have set: "all_minors ?h = insert new (all_minors h)"
  proof -
    have "all_minors ?h = (\<Union>j<length ?majs. set (maj_minors (?majs[i := maj'] ! j)))" by (auto simp: all_minors_def set_conv_nth Bex_def)
    also have "\<dots> = (\<Union>j<length ?majs. if j = i then insert new (set (maj_minors (?majs ! i))) else set (maj_minors (?majs ! j)))"
      by (rule SUP_cong) (use pl i in \<open>auto simp: placed_def nth_list_update\<close>)
    also have "\<dots> = insert new (\<Union>j<length ?majs. set (maj_minors (?majs ! j)))" using i by auto
    also have "\<dots> = insert new (all_minors h)" by (auto simp: all_minors_def set_conv_nth Bex_def)
    finally show ?thesis .
  qed
  have "separate new m" if h: "m \<in> all_minors h" for m
  proof -
    from h obtain maj where "maj \<in> set ?majs" "m \<in> set (maj_minors maj)" by (auto simp: all_minors_def)
    then obtain j where j: "j < length ?majs" "m \<in> set (maj_minors (?majs ! j))" by (metis in_set_conv_nth)
    show ?thesis
    proof (cases "j = i")
      case True
      then show ?thesis using pl j by (simp add: placed_def)
    next
      case False
      then have "apart maj' (?majs ! j)" using sorted_wrt_apart [of ?majs i j] ok i j new(3) by (auto simp: heap_inv_def apart_def)
      moreover have "major_ok (?majs ! j)" using ok j by (auto simp: heap_inv_def)
      ultimately show ?thesis using apart_separate new j by blast
    qed
  qed
  then show "acquired n h (min_addr new + 64) ?h" using set pl by (auto simp: acquired_def placed_def)
  show "heap_ok (?h, os)"
  proof -
    have s: "set (?majs[i := maj']) \<subseteq> insert maj' (set ?majs)" by (rule set_update_subset_insert)
    have m: "major_ok maj \<and> major_span maj \<subseteq> used os" if h: "maj \<in> set (?majs[i := maj'])" for maj
      using h s ok new mi by (auto simp: heap_inv_def)
    have "maj_addr ` set (?majs[i := maj']) = maj_addr ` set ?majs"
    proof -
      have "map maj_addr (?majs[i := maj']) = map maj_addr ?majs" using new(4) i by (intro nth_equalityI) (auto simp: nth_list_update)
      then show ?thesis by (metis list.set_map)
    qed
    then have "best_ok ?h" using ok by (simp add: heap_inv_def best_ok_def)
    then show ?thesis using ok m sorted_wrt_update [OF _ i new(3)] by (simp add: heap_inv_def)
  qed
  show "minor_ptr new = min_addr new + 64"
    using minor_in_major [OF new(1,2)] new(1) by (simp add: minor_ptr_def heap_consts u64_add_small major_ok_def)
qed


definition provider_failed :: "'o \<Rightarrow> fault + 'x \<Rightarrow> bool" where
  "provider_failed os res \<longleftrightarrow> (\<exists>b. (\<exists>f. acquire b os = Inl f \<and> res = Inl f) \<or>
     (\<exists>os'. acquire b os = Inr (None, os') \<and> res = Inl (Panic ''Failed to allocate memory!'')))"

lemma append_major_ok:
  assumes ok: "heap_ok (h, os)" and n: "size_ok n"
  shows "provider_failed os (append_major acquire n (h, os)) \<or>
    (\<exists>maj os'. append_major acquire n (h, os) = Inr (h\<lparr>heap_majors := heap_majors h @ [maj]\<rparr>, os') \<and>
      heap_ok (h\<lparr>heap_majors := heap_majors h @ [maj]\<rparr>, os') \<and> maj_minors maj = [] \<and> 64 + (64 + n) \<le> maj_size maj)"
proof -
  let ?pg = "major_pages n (heap_size h)"
  let ?b = "?pg * PAGE mod 2 ^ 64"
  note pg = major_pages_ok [OF n, of "heap_size h"]
  have b: "?b = ?pg * 4096" using pg(2) by (simp add: PAGE_def)
  show ?thesis
  proof (cases "acquire ?b os")
    case (Inl f)
    then show ?thesis by (auto simp: provider_failed_def append_major_def major_block_create_def Let_def)
  next
    case (Inr r)
    obtain a os' where r: "r = (a, os')" by (cases r)
    show ?thesis
    proof (cases a)
      case None
      then show ?thesis using Inr r by (auto simp: provider_failed_def append_major_def major_block_create_def Let_def)
    next
      case (Some ad)
      let ?maj = "\<lparr>maj_addr = ad, maj_pages = ?pg, maj_size = ?b, maj_usage = 64, maj_minors = []\<rparr>"
      have e: "append_major acquire n (h, os) = Inr (h\<lparr>heap_majors := heap_majors h @ [?maj]\<rparr>, os')"
        using Inr r Some by (simp add: append_major_def major_block_create_def Let_def MAJOR_BLOCK_HEADER_SIZE_def)
      have f: "okp os'" "4096 dvd ad" "0 < ad" "ad + ?b < 2 ^ 64" "{ad..<ad + ?b} \<inter> used os = {}" "used os' = used os \<union> {ad..<ad + ?b}"
        using acquire_fresh [of os ?b ad os'] ok pg(2,3) Inr r Some b by (auto simp: heap_inv_def)
      have "major_ok ?maj" using f b pg by (auto simp: major_ok_def minors_usage_def)
      moreover have "apart maj ?maj" if h: "maj \<in> set (heap_majors h)" for maj
      proof -
        have "major_span maj \<subseteq> used os" using ok h by (auto simp: heap_inv_def)
        moreover have "major_span ?maj = {ad..<ad + ?b}" by (simp add: major_span_def)
        ultimately show ?thesis using f(5) unfolding apart_def by blast
      qed
      ultimately have "heap_ok (h\<lparr>heap_majors := heap_majors h @ [?maj]\<rparr>, os')"
        using ok f by (auto simp: heap_inv_def sorted_wrt_append best_ok_def major_span_def)
      then show ?thesis using e b pg(1) by auto
    qed
  qed
qed

definition acquire_result :: "nat \<Rightarrow> heap_alloc_state \<times> 'o \<Rightarrow> fault + (nat \<times> heap_alloc_state \<times> 'o) \<Rightarrow> bool" where
  "acquire_result n st res \<longleftrightarrow> provider_failed (snd st) res \<or>
     (\<exists>p h' os'. res = Inr (p, h', os') \<and> acquired n (fst st) p h' \<and> heap_ok (h', os'))"

lemma maj_diff_eq: "major_ok maj \<Longrightarrow> maj_diff maj = maj_size maj - maj_usage maj"
  unfolding maj_diff_def by (rule u64_sub_small [OF major_usage_le]) (auto simp: major_ok_def)

declare heap_search.simps [simp del]

lemma best_update_ok:
  assumes "heap_ok (h, os)" "i < length (heap_majors h)"
  shows "heap_ok (if b then h\<lparr>heap_best := Some (maj_addr (heap_majors h ! i))\<rparr> else h, os)"
  using assms by (auto simp: heap_inv_def best_ok_def)

lemma acquired_best [simp]: "acquired n (h\<lparr>heap_best := b\<rparr>) p h' = acquired n h p h'"
  by (simp add: acquired_def all_minors_def)

lemma acquired_append: "maj_minors maj = [] \<Longrightarrow> acquired n (h\<lparr>heap_majors := heap_majors h @ [maj]\<rparr>) p h' = acquired n h p h'"
  by (simp add: acquired_def all_minors_def)

lemma search_place:
  assumes ok: "heap_ok (h, os)" and n: "size_ok n" and i: "i < length (heap_majors h)"
    and room: "\<not> maj_diff (heap_majors h ! i) < u64_add n MINOR_BLOCK_HEADER_SIZE"
    and pl: "place_minor n (heap_majors h ! i) = Some (new, maj')"
  shows "acquired n h (minor_ptr new) (h\<lparr>heap_majors := (heap_majors h)[i := maj']\<rparr>)" "heap_ok (h\<lparr>heap_majors := (heap_majors h)[i := maj']\<rparr>, os)"
proof -
  have maj: "major_ok (heap_majors h ! i)" using ok i by (auto simp: heap_inv_def)
  have "64 + n \<le> maj_size (heap_majors h ! i) - maj_usage (heap_majors h ! i)"
    using room n by (simp add: maj_diff_eq [OF maj] heap_consts u64_add_small size_ok_def)
  then have "placed n (heap_majors h ! i) new maj'" using place_minor_ok [OF maj _ _ _ _ pl] n by (auto simp: size_ok_def)
  then show "acquired n h (minor_ptr new) (h\<lparr>heap_majors := (heap_majors h)[i := maj']\<rparr>)" "heap_ok (h\<lparr>heap_majors := (heap_majors h)[i := maj']\<rparr>, os)"
    using place_in [OF ok i] by auto
qed

lemma search_fresh:
  assumes ok: "heap_ok (h, os)" and n: "size_ok n" and i: "i < length (heap_majors h)"
    and maj: "maj_minors (heap_majors h ! i) = []" "64 + (64 + n) \<le> maj_size (heap_majors h ! i)"
  shows "\<exists>p h'. heap_search (Suc turns) acquire n i bs started (h, os) = Inr (p, h', os) \<and> acquired n h p h' \<and> heap_ok (h', os)"
proof -
  let ?maj = "heap_majors h ! i"
  have mok: "major_ok ?maj" using ok i by (auto simp: heap_inv_def)
  then have mok: "major_ok ?maj" "maj_usage ?maj = 64" using maj(1) by (simp_all add: major_ok_def minors_usage_def)
  have room: "\<not> maj_diff ?maj < u64_add n MINOR_BLOCK_HEADER_SIZE"
    using maj(2) n by (simp add: maj_diff_eq [OF mok(1)] mok(2) heap_consts u64_add_small size_ok_def)
  obtain new maj' where pl: "place_minor n ?maj = Some (new, maj')" using maj(1) by (cases "place_first n ?maj") (simp add: place_minor_def)
  define h1 where "h1 = (if bs < maj_diff ?maj then h\<lparr>heap_best := Some (maj_addr ?maj)\<rparr> else h)"
  have h1: "heap_ok (h1, os)" "heap_majors h1 = heap_majors h" using best_update_ok [OF ok i] by (auto simp: h1_def)
  have "heap_search (Suc turns) acquire n i bs started (h, os) = Inr (minor_ptr new, h1\<lparr>heap_majors := (heap_majors h1)[i := maj']\<rparr>, os)"
    using room pl by (simp add: heap_search.simps Let_def h1_def)
  moreover have "acquired n h (minor_ptr new) (h1\<lparr>heap_majors := (heap_majors h1)[i := maj']\<rparr>)" "heap_ok (h1\<lparr>heap_majors := (heap_majors h1)[i := maj']\<rparr>, os)"
    using search_place [OF h1(1) n, of i new maj'] i room pl h1(2) by (auto simp: h1_def split: if_splits)
  ultimately show ?thesis by blast
qed

lemma append_then:
  assumes ok: "heap_ok (h, os)" and n: "size_ok n" and i: "i + 1 = length (heap_majors h)"
    and next1: "\<And>h2 os2. heap_ok (h2, os2) \<Longrightarrow> i + 1 < length (heap_majors h2) \<Longrightarrow> maj_minors (heap_majors h2 ! (i + 1)) = [] \<Longrightarrow>
      64 + (64 + n) \<le> maj_size (heap_majors h2 ! (i + 1)) \<Longrightarrow>
      \<exists>p h' os'. k (h2, os2) = Inr (p, h', os') \<and> acquired n h2 p h' \<and> heap_ok (h', os')"
  shows "acquire_result n (h, os) (sbind (append_major acquire n (h, os)) k)"
  using append_major_ok [OF ok n]
proof (elim disjE exE conjE)
  assume "provider_failed os (append_major acquire n (h, os))"
  then show ?thesis by (auto simp: provider_failed_def acquire_result_def)
next
  fix maj os' assume a: "append_major acquire n (h, os) = Inr (h\<lparr>heap_majors := heap_majors h @ [maj]\<rparr>, os')"
    "heap_ok (h\<lparr>heap_majors := heap_majors h @ [maj]\<rparr>, os')" "maj_minors maj = []" "64 + (64 + n) \<le> maj_size maj"
  then show ?thesis using next1 [OF a(2)] i by (auto simp: acquire_result_def nth_append acquired_append)
qed

lemma heap_search_ok:
  assumes n: "size_ok n"
  shows "heap_ok (h, os) \<Longrightarrow> i < length (heap_majors h) \<Longrightarrow>
    (if started then length (heap_majors h) else 0) + (length (heap_majors h) - i) + 1 \<le> turns \<Longrightarrow>
    acquire_result n (h, os) (heap_search turns acquire n i bs started (h, os))"
proof (induction turns arbitrary: h i bs started)
  case (Suc turns)
  let ?maj = "heap_majors h ! i" and ?need = "u64_add n MINOR_BLOCK_HEADER_SIZE"
  define h1 where "h1 = (if bs < maj_diff ?maj then h\<lparr>heap_best := Some (maj_addr ?maj)\<rparr> else h)"
  define bs1 where "bs1 = (if bs < maj_diff ?maj then maj_diff ?maj else bs)"
  have h1: "heap_ok (h1, os)" "heap_majors h1 = heap_majors h" using best_update_ok [OF Suc.prems(1,2)] by (auto simp: h1_def)
  have same: "acquire_result n (h, os) = acquire_result n (h1, os)" by (auto simp: acquire_result_def h1_def fun_eq_iff)
  define cont where "cont = (if i + 1 \<noteq> length (heap_majors h) then heap_search turns acquire n (i + 1) bs1 started (h1, os)
      else if started then heap_search turns acquire n 0 bs1 False (h1, os)
      else sbind (append_major acquire n (h1, os)) (\<lambda>(h, os). heap_search turns acquire n (i + 1) bs1 started (h, os)))"
  have next1: "acquire_result n (h1, os) cont"
  proof -
    consider "i + 1 < length (heap_majors h)" | "i + 1 = length (heap_majors h)" "started" | "i + 1 = length (heap_majors h)" "\<not> started"
      using Suc.prems(2) by linarith
    then show ?thesis
    proof cases
      case 1
      moreover have "(if started then length (heap_majors h1) else 0) + (length (heap_majors h1) - (i + 1)) + 1 \<le> turns"
        using Suc.prems(3) 1 h1(2) by (cases started) auto
      ultimately show ?thesis using Suc.IH [of h1 "i + 1" started bs1] h1 by (simp add: cont_def)
    next
      case 2
      have "0 < length (heap_majors h1)" "(if False then length (heap_majors h1) else 0) + (length (heap_majors h1) - 0) + 1 \<le> turns"
        using Suc.prems(2,3) 2 h1(2) by auto
      then show ?thesis using Suc.IH [OF h1(1), of 0 False bs1] 2 by (simp add: cont_def)
    next
      case 3
      obtain t where t: "turns = Suc t" using Suc.prems(2,3) by (cases turns) auto
      have "acquire_result n (h1, os) (sbind (append_major acquire n (h1, os)) (\<lambda>(h, os). heap_search turns acquire n (i + 1) bs1 started (h, os)))"
      proof (rule append_then [OF h1(1) n])
        show "i + 1 = length (heap_majors h1)" using 3 h1(2) by simp
      next
        fix h2 os2 assume "heap_ok (h2, os2)" "i + 1 < length (heap_majors h2)" "maj_minors (heap_majors h2 ! (i + 1)) = []" "64 + (64 + n) \<le> maj_size (heap_majors h2 ! (i + 1))"
        from search_fresh [OF this(1) n this(2-4), of t bs1 started]
        show "\<exists>p h' os'. (case (h2, os2) of (h, os) \<Rightarrow> heap_search turns acquire n (i + 1) bs1 started (h, os)) = Inr (p, h', os') \<and> acquired n h2 p h' \<and> heap_ok (h', os')"
          unfolding t prod.case by blast
      qed
      then show ?thesis using 3 by (simp add: cont_def)
    qed
  qed
  show ?case
  proof (cases "maj_diff ?maj < ?need")
    case True
    show ?thesis
    proof (cases "i + 1 = length (heap_majors h) \<and> \<not> started")
      case False
      then have "heap_search (Suc turns) acquire n i bs started (h, os) = cont" using True by (auto simp: heap_search.simps Let_def h1_def bs1_def cont_def)
      then show ?thesis using next1 same by simp
    next
      case last: True
      let ?k = "\<lambda>(h, os). case place_first n (heap_majors h ! (i + 1)) of (new, maj) \<Rightarrow> Inr (minor_ptr new, h\<lparr>heap_majors := (heap_majors h)[i + 1 := maj]\<rparr>, os)"
      have "heap_search (Suc turns) acquire n i bs started (h, os) = sbind (append_major acquire n (h1, os)) ?k"
        using True last by (auto simp: heap_search.simps Let_def h1_def)
      moreover have "acquire_result n (h1, os) (sbind (append_major acquire n (h1, os)) ?k)"
      proof (rule append_then [OF h1(1) n])
        show "i + 1 = length (heap_majors h1)" using last h1(2) by simp
      next
        fix h2 os2 assume f: "heap_ok (h2, os2)" "i + 1 < length (heap_majors h2)" "maj_minors (heap_majors h2 ! (i + 1)) = []" "64 + (64 + n) \<le> maj_size (heap_majors h2 ! (i + 1))"
        obtain new maj' where pf: "place_first n (heap_majors h2 ! (i + 1)) = (new, maj')" by (cases "place_first n (heap_majors h2 ! (i + 1))")
        have "major_ok (heap_majors h2 ! (i + 1))" using f(1,2) by (auto simp: heap_inv_def)
        then have "placed n (heap_majors h2 ! (i + 1)) new maj'" using place_first_ok f(3,4) pf n by (auto simp: size_ok_def)
        from place_in [OF f(1,2) this] pf
        show "\<exists>p h' os'. ?k (h2, os2) = Inr (p, h', os') \<and> acquired n h2 p h' \<and> heap_ok (h', os')" by auto
      qed
      ultimately show ?thesis using same by simp
    qed
  next
    case False
    show ?thesis
    proof (cases "place_minor n ?maj")
      case None
      then have "heap_search (Suc turns) acquire n i bs started (h, os) = cont" using False by (simp add: heap_search.simps Let_def h1_def bs1_def cont_def)
      then show ?thesis using next1 same by simp
    next
      case (Some r)
      obtain new maj' where r: "r = (new, maj')" by (cases r)
      have "heap_search (Suc turns) acquire n i bs started (h, os) = Inr (minor_ptr new, h1\<lparr>heap_majors := (heap_majors h1)[i := maj']\<rparr>, os)"
        using False Some r by (simp add: heap_search.simps Let_def h1_def)
      then show ?thesis using search_place [OF h1(1) n, of i new maj'] Suc.prems(2) False Some r h1(2) same by (simp add: acquire_result_def)
    qed
  qed
qed (simp add: heap_search.simps)

lemma heap_acquire_sized_ok:
  assumes ok: "heap_ok (h, os)" and n: "size_ok n"
  shows "acquire_result n (h, os) (heap_acquire_sized acquire n (h, os))"
proof -
  let ?run = "\<lambda>(h, os). let turns = 2 * length (heap_majors h) + 2 in
     case heap_best h of
       None \<Rightarrow> heap_search turns acquire n 0 0 False (h, os)
     | Some b \<Rightarrow>
         case major_index (heap_majors h) b of
           None \<Rightarrow> Inl UseAfterFree
         | Some j \<Rightarrow>
             let best_size = maj_diff (heap_majors h ! j) in
             if best_size > u64_add n MINOR_BLOCK_HEADER_SIZE
             then heap_search turns acquire n j best_size True (h, os)
             else heap_search turns acquire n 0 best_size False (h, os)"
  have run: "acquire_result n (h, os) (?run (h, os))" if h: "heap_ok (h, os)" "heap_majors h \<noteq> []" for h os
  proof (cases "heap_best h")
    case None
    then show ?thesis using heap_search_ok [OF n h(1), of 0 False] h(2) by (simp add: Let_def)
  next
    case (Some b)
    then have "b \<in> maj_addr ` set (heap_majors h)" using h(1) by (simp add: heap_inv_def best_ok_def)
    then obtain j where j: "major_index (heap_majors h) b = Some j" "j < length (heap_majors h)" by (rule major_index_ok)
    then show ?thesis using Some heap_search_ok [OF n h(1), of 0 False] heap_search_ok [OF n h(1), of j True] h(2) by (simp add: Let_def)
  qed
  show ?thesis
  proof (cases "heap_majors h = []")
    case False
    then show ?thesis using run [OF ok False] by (simp add: heap_acquire_sized_def)
  next
    case True
    have e: "heap_acquire_sized acquire n (h, os) = sbind (append_major acquire n (h, os)) ?run"
      using True by (simp add: heap_acquire_sized_def)
    show ?thesis unfolding e using append_major_ok [OF ok n]
    proof (elim disjE exE conjE)
      assume "provider_failed os (append_major acquire n (h, os))"
      then show "acquire_result n (h, os) (sbind (append_major acquire n (h, os)) ?run)" by (auto simp: provider_failed_def acquire_result_def)
    next
      fix maj os' assume a: "append_major acquire n (h, os) = Inr (h\<lparr>heap_majors := heap_majors h @ [maj]\<rparr>, os')"
        "heap_ok (h\<lparr>heap_majors := heap_majors h @ [maj]\<rparr>, os')" "maj_minors maj = []" "64 + (64 + n) \<le> maj_size maj"
      have none: "heap_best h = None" using ok True by (cases "heap_best h") (auto simp: heap_inv_def best_ok_def)
      from search_fresh [OF a(2) n, of 0 3 0 False] a True
      obtain p h' where "heap_search (Suc 3) acquire n 0 0 False (h\<lparr>heap_majors := heap_majors h @ [maj]\<rparr>, os') = Inr (p, h', os')"
        "acquired n (h\<lparr>heap_majors := heap_majors h @ [maj]\<rparr>) p h'" "heap_ok (h', os')"
        by auto
      then show "acquire_result n (h, os) (sbind (append_major acquire n (h, os)) ?run)"
        using a(1,3) none True acquired_append [of maj n h] by (auto simp: acquire_result_def Let_def)
    qed
  qed
qed

lemma heap_alloc_acquire_ok:
  assumes "heap_ok st" "n + 8192 + 64 \<le> 2 ^ 64"
  shows "\<exists>k\<ge>n. 0 < k \<and> acquire_result k st (heap_alloc_acquire acquire n st)"
  using heap_acquire_sized_ok [OF _ heap_align_ok(1) [OF assms(2)], of "fst st" "snd st"] heap_align_ok [OF assms(2)] assms(1)
  by (auto simp: heap_alloc_acquire_def Let_def size_ok_def)


text \<open>Release.\<close>

lemma heap_ok_major: "heap_ok (h, os) \<Longrightarrow> i < length (heap_majors h) \<Longrightarrow> major_ok (heap_majors h ! i)"
  by (auto simp: heap_inv_def)

lemma find_minor_ok:
  assumes ok: "heap_ok (h, os)" and m: "m \<in> all_minors h"
  obtains i j where "find_minor (heap_majors h) (min_addr m) = Some (i, j)" "i < length (heap_majors h)"
    "j < length (maj_minors (heap_majors h ! i))" "maj_minors (heap_majors h ! i) ! j = m"
proof -
  let ?majs = "heap_majors h" and ?P = "\<lambda>i. minor_index (maj_minors (heap_majors h ! i)) (min_addr m) \<noteq> None"
  note mo = major_ok_minors [OF heap_ok_major [OF ok]] heap_ok_major [OF ok]
  obtain i j where i: "i < length ?majs" "j < length (maj_minors (?majs ! i))" "maj_minors (?majs ! i) ! j = m"
    using all_minors_at [OF m] by (metis in_set_conv_nth)
  then have mi: "minor_index (maj_minors (?majs ! i)) (min_addr m) = Some j" using minor_index_some [OF mo(1)] by blast
  have uniq: "k = i" if h: "k < length ?majs" "?P k" for k
  proof (rule ccontr)
    assume "k \<noteq> i"
    from h obtain l where l: "l < length (maj_minors (?majs ! k))" "min_addr (maj_minors (?majs ! k) ! l) = min_addr m" using minor_index_found by blast
    have "apart (?majs ! k) (?majs ! i)" using sorted_wrt_apart ok h(1) i(1) \<open>k \<noteq> i\<close> by (auto simp: heap_inv_def)
    then have "separate (maj_minors (?majs ! k) ! l) m" using apart_separate mo(2) h(1) i l(1) by (metis nth_mem)
    then show False using l(2) by (simp add: separate_def)
  qed
  have "?P i" using mi by simp
  then have k: "filter ?P [0..<length ?majs] = [i]" by (intro first_index_eq [OF uniq _ i(1)])
  then have "find_minor ?majs (min_addr m) = Some (i, j)" using k mi by (simp add: find_minor_def)
  then show ?thesis using that i by blast
qed

lemma release_keep:
  assumes ok: "heap_ok (h, os)" and i: "i < length (heap_majors h)" and j: "j < length (maj_minors (heap_majors h ! i))"
    and maj': "maj' = (heap_majors h ! i)\<lparr>maj_usage := u64_sub (maj_usage (heap_majors h ! i)) (u64_add (min_size (maj_minors (heap_majors h ! i) ! j)) MINOR_BLOCK_HEADER_SIZE),
      maj_minors := without_nth j (maj_minors (heap_majors h ! i))\<rparr>"
  shows "major_ok maj'" "major_span maj' = major_span (heap_majors h ! i)" "maj_addr maj' = maj_addr (heap_majors h ! i)"
    "set (maj_minors maj') = set (maj_minors (heap_majors h ! i)) - {maj_minors (heap_majors h ! i) ! j}"
proof -
  let ?maj = "heap_majors h ! i" and ?m = "maj_minors (heap_majors h ! i) ! j"
  have maj: "major_ok ?maj" using heap_ok_major [OF ok i] .
  note mo = major_ok_minors [OF maj]
  note w = minors_ok_without [OF mo j]
  have "?m \<in> set (maj_minors ?maj)" using j by simp
  note b = minor_in_major [OF maj this]
  have lt: "maj_addr ?maj + maj_size ?maj < 2 ^ 64" and us: "maj_usage ?maj = 64 + minors_usage (maj_minors ?maj)" using maj by (auto simp: major_ok_def)
  have "u64_add (min_size ?m) 64 = min_size ?m + 64" using b lt by (simp add: u64_add_small)
  moreover have "u64_sub (maj_usage ?maj) (min_size ?m + 64) = maj_usage ?maj - (min_size ?m + 64)"
    using w us major_usage_le [OF maj] lt by (intro u64_sub_small) auto
  ultimately have "maj_usage maj' = 64 + minors_usage (maj_minors maj')" using w us by (simp add: maj' heap_consts)
  then show "major_ok maj'" using maj w by (simp add: major_ok_def maj')
  show "major_span maj' = major_span ?maj" "maj_addr maj' = maj_addr ?maj" by (simp_all add: maj' major_span_def)
  show "set (maj_minors maj') = set (maj_minors ?maj) - {?m}" using set_without_minors [OF mo j] by (simp add: maj')
qed

lemma all_minors_remove:
  assumes ok: "heap_ok (h, os)" and i: "i < length (heap_majors h)" and m: "m \<in> set (maj_minors (heap_majors h ! i))"
  shows "m \<notin> (\<Union>maj\<in>set (without_nth i (heap_majors h)). set (maj_minors maj))"
proof
  assume "m \<in> (\<Union>maj\<in>set (without_nth i (heap_majors h)). set (maj_minors maj))"
  then obtain maj where maj: "maj \<in> set (without_nth i (heap_majors h))" "m \<in> set (maj_minors maj)" by auto
  have "apart (heap_majors h ! i) maj" using without_apart [OF _ i maj(1)] ok by (simp add: heap_inv_def)
  moreover have "major_ok maj" using ok maj(1) set_without [OF i] by (auto simp: heap_inv_def)
  ultimately have "separate m m" using apart_separate heap_ok_major [OF ok i] m maj(2) by blast
  then show False by (simp add: separate_def)
qed

lemma update_major:
  assumes ok: "heap_ok (h, os)" and i: "i < length (heap_majors h)"
    and maj': "major_ok maj'" "major_span maj' = major_span (heap_majors h ! i)" "maj_addr maj' = maj_addr (heap_majors h ! i)"
  shows "heap_ok (h\<lparr>heap_majors := (heap_majors h)[i := maj']\<rparr>, os)"
    "all_minors (h\<lparr>heap_majors := (heap_majors h)[i := maj']\<rparr>) =
      set (maj_minors maj') \<union> (\<Union>maj\<in>set (without_nth i (heap_majors h)). set (maj_minors maj))"
proof -
  let ?h = "h\<lparr>heap_majors := (heap_majors h)[i := maj']\<rparr>" and ?rest = "without_nth i (heap_majors h)"
  have split: "set (heap_majors h) = insert (heap_majors h ! i) (set ?rest)" using set_without [OF i] .
  have set': "set ((heap_majors h)[i := maj']) = insert maj' (set ?rest)"
    using i set_without [of i "(heap_majors h)[i := maj']"] by (simp add: without_nth_def)
  have best: "best_ok ?h" using ok maj'(3) split by (auto simp: heap_inv_def best_ok_def set')
  show "heap_ok (?h, os)" using ok maj' sorted_wrt_update [OF _ i maj'(2)] best split i by (auto simp: heap_inv_def set')
  show "all_minors ?h = set (maj_minors maj') \<union> (\<Union>maj\<in>set ?rest. set (maj_minors maj))" by (simp add: all_minors_def set')
qed

lemma heap_alloc_release_ok:
  assumes ok: "heap_ok (h, os)" and m: "m \<in> all_minors h"
  shows "\<exists>h' os'. heap_alloc_release release (min_addr m + 64) (h, os) = Inr (h', os') \<and> heap_ok (h', os') \<and> all_minors h' = all_minors h - {m}"
proof -
  obtain i j where f: "find_minor (heap_majors h) (min_addr m) = Some (i, j)" "i < length (heap_majors h)"
    "j < length (maj_minors (heap_majors h ! i))" "maj_minors (heap_majors h ! i) ! j = m" using find_minor_ok [OF ok m] by blast
  let ?maj = "heap_majors h ! i" and ?rest = "without_nth i (heap_majors h)"
  have maj: "major_ok ?maj" using heap_ok_major [OF ok f(2)] .
  have mm: "m \<in> set (maj_minors ?maj)" using f(3,4) by auto
  have ptr: "u64_sub (min_addr m + 64) 64 = min_addr m" using minor_in_major [OF maj mm] maj by (subst u64_sub_small) (auto simp: major_ok_def)
  define maj' where "maj' = ?maj\<lparr>maj_usage := u64_sub (maj_usage ?maj) (u64_add (min_size m) MINOR_BLOCK_HEADER_SIZE), maj_minors := without_nth j (maj_minors ?maj)\<rparr>"
  note k = release_keep [OF ok f(2,3), of maj', unfolded f(4), OF maj'_def]
  have split: "set (heap_majors h) = insert ?maj (set ?rest)" using set_without [OF f(2)] .
  have am: "all_minors h = set (maj_minors ?maj) \<union> (\<Union>maj\<in>set ?rest. set (maj_minors maj))" by (simp add: all_minors_def split)
  have new: "set (maj_minors maj') \<union> (\<Union>maj\<in>set ?rest. set (maj_minors maj)) = all_minors h - {m}"
    using k(4) all_minors_remove [OF ok f(2) mm] by (auto simp: am)
  show ?thesis
  proof (cases "maj_minors maj' = []")
    case True
    have pages: "maj_pages ?maj * 4096 mod 2 ^ 64 = maj_size ?maj" "0 < maj_size ?maj" "4096 dvd maj_size ?maj" "4096 dvd maj_addr ?maj"
      "maj_addr ?maj + maj_size ?maj < 2 ^ 64" using maj by (auto simp: major_ok_def)
    have oks: "okp os" "{maj_addr ?maj..<maj_addr ?maj + maj_size ?maj} \<subseteq> used os" using ok f(2) by (auto simp: heap_inv_def major_span_def)
    obtain os' where r: "release (maj_addr ?maj) (maj_size ?maj) os = Inr os'" "okp os'" "used os' = used os - major_span ?maj"
      using release_used [OF oks(1) pages(2,3,4,5) oks(2)] by (auto simp: major_span_def)
    let ?h = "h\<lparr>heap_majors := ?rest, heap_best := (if heap_best h = Some (maj_addr ?maj) then None else heap_best h)\<rparr>"
    have run: "heap_alloc_release release (min_addr m + 64) (h, os) = Inr (?h, os')"
      using True r(1) f ptr by (simp add: heap_alloc_release_def Let_def heap_consts maj'_def pages(1) [simplified])
    have "major_ok x \<and> major_span x \<subseteq> used os'" if h: "x \<in> set ?rest" for x
      using ok h without_apart [OF _ f(2) h] split by (auto simp: heap_inv_def r(3) apart_def)
    moreover have "best_ok ?h" using ok split by (auto simp: heap_inv_def best_ok_def)
    ultimately have "heap_ok (?h, os')" using ok r(2) sorted_wrt_without [OF _ f(2)] by (simp add: heap_inv_def)
    then show ?thesis using run new True by (auto simp: all_minors_def)
  next
    case False
    let ?h = "h\<lparr>heap_majors := (heap_majors h)[i := maj']\<rparr>"
    note up = update_major [OF ok f(2) k(1,2,3)]
    have hok: "heap_ok (?h, os)" and best: "best_ok ?h" using up(1) by (simp_all add: heap_inv_def)
    have set': "maj' \<in> set (heap_majors ?h)" using f(2) by (simp add: set_update_memI)
    have am': "all_minors ?h = all_minors h - {m}" using new up(2) by simp
    show ?thesis
    proof (cases "heap_best h")
      case None
      then show ?thesis using False f ptr hok am' by (simp add: heap_alloc_release_def Let_def heap_consts maj'_def)
    next
      case (Some b)
      then have "b \<in> maj_addr ` set (heap_majors ?h)" using best by (simp add: best_ok_def)
      then obtain l where l: "major_index ((heap_majors h)[i := maj']) b = Some l" using major_index_ok [of b "heap_majors ?h"] by auto
      have "heap_ok (?h\<lparr>heap_best := Some (maj_addr maj')\<rparr>, os)" using hok set' by (auto simp: heap_inv_def best_ok_def)
      moreover have "all_minors (?h\<lparr>heap_best := Some (maj_addr maj')\<rparr>) = all_minors ?h" by (simp add: all_minors_def)
      moreover have "heap_alloc_release release (min_addr m + 64) (h, os) =
        Inr (if diff_int maj' > diff_int (heap_majors ?h ! l) then ?h\<lparr>heap_best := Some (maj_addr maj')\<rparr> else ?h, os)"
        using False f ptr Some l by (simp add: heap_alloc_release_def Let_def heap_consts maj'_def)
      ultimately show ?thesis using hok am' by auto
    qed
  qed
qed

text \<open>Resize.\<close>

lemma all_minors_separate:
  assumes ok: "heap_ok (h, os)" and x: "x \<in> all_minors h" and y: "y \<in> all_minors h" and ne: "x \<noteq> y"
  shows "separate x y"
proof -
  obtain i where i: "i < length (heap_majors h)" "x \<in> set (maj_minors (heap_majors h ! i))" using all_minors_at [OF x] by blast
  obtain j where j: "j < length (heap_majors h)" "y \<in> set (maj_minors (heap_majors h ! j))" using all_minors_at [OF y] by blast
  show ?thesis
  proof (cases "i = j")
    case True
    then obtain k l where "k < length (maj_minors (heap_majors h ! i))" "l < length (maj_minors (heap_majors h ! i))"
      "maj_minors (heap_majors h ! i) ! k = x" "maj_minors (heap_majors h ! i) ! l = y" using i j by (metis in_set_conv_nth)
    then show ?thesis
      using minors_ok_sorted [OF major_ok_minors [OF heap_ok_major [OF ok i(1)]], of k l] minors_ok_sorted [OF major_ok_minors [OF heap_ok_major [OF ok i(1)]], of l k] ne
      by (cases k l rule: linorder_cases) (auto simp: separate_def)
  next
    case False
    then have "apart (heap_majors h ! i) (heap_majors h ! j)" using sorted_wrt_apart ok i(1) j(1) by (auto simp: heap_inv_def)
    then show ?thesis using apart_separate heap_ok_major [OF ok] i j by blast
  qed
qed

lemma shrink_in_place:
  assumes ok: "heap_ok (h, os)" and i: "i < length (heap_majors h)" and j: "j < length (maj_minors (heap_majors h ! i))"
    and m: "maj_minors (heap_majors h ! i) ! j = m" and n: "n \<le> min_size m"
    and h': "h' = h\<lparr>heap_majors := (heap_majors h)[i := (heap_majors h ! i)\<lparr>maj_minors := (maj_minors (heap_majors h ! i))[j := m\<lparr>min_req_size := n\<rparr>]\<rparr>]\<rparr>"
  shows "heap_ok (h', os)" "all_minors h' = insert (m\<lparr>min_req_size := n\<rparr>) (all_minors h - {m})"
proof -
  let ?maj = "heap_majors h ! i" and ?m = "m\<lparr>min_req_size := n\<rparr>"
  let ?maj' = "?maj\<lparr>maj_minors := (maj_minors ?maj)[j := ?m]\<rparr>"
  have maj: "major_ok ?maj" using heap_ok_major [OF ok i] .
  note mo = minors_ok_req [OF major_ok_minors [OF maj] j, of n, unfolded m, OF n]
  have maj': "major_ok ?maj'" using maj mo by (simp add: major_ok_def)
  note up = update_major [OF ok i maj']
  show "heap_ok (h', os)" unfolding h' using up(1) by (simp add: major_span_def)
  have "distinct (maj_minors ?maj)" by (rule minors_ok_distinct [OF major_ok_minors [OF maj]])
  then have s: "set ((maj_minors ?maj)[j := ?m]) = insert ?m (set (maj_minors ?maj) - {m})" using set_update_distinct j m by metis
  have mm: "m \<in> set (maj_minors ?maj)" using j m by auto
  have am: "all_minors h = set (maj_minors ?maj) \<union> (\<Union>maj\<in>set (without_nth i (heap_majors h)). set (maj_minors maj))"
    by (simp add: all_minors_def set_without [OF i])
  show "all_minors h' = insert ?m (all_minors h - {m})"
    unfolding h' using up(2) s all_minors_remove [OF ok i mm] by (auto simp: am major_span_def)
qed

definition resized :: "nat \<Rightarrow> heap_minor \<Rightarrow> (nat \<Rightarrow> u8) \<Rightarrow> heap_alloc_state \<Rightarrow> nat \<Rightarrow> (nat \<Rightarrow> u8) \<Rightarrow> heap_alloc_state \<Rightarrow> bool" where
  "resized req m mem h p mem' h' \<longleftrightarrow> (\<exists>new. p = min_addr new + 64 \<and> req \<le> min_size new \<and> all_minors h' = insert new (all_minors h - {m}) \<and>
     (\<forall>k<min_req_size m. mem' (p + k) = mem (min_addr m + 64 + k)) \<and>
     (\<forall>x\<in>all_minors h - {m}. separate new x \<and> (\<forall>a\<in>minor_span x. mem' a = mem a)))"

lemma heap_alloc_resize_ok:
  assumes ok: "heap_ok (h, os)" and m: "m \<in> all_minors h" and req: "0 < req" "req + 8192 + 128 \<le> 2 ^ 64"
  shows "provider_failed os (heap_alloc_resize acquire release (min_addr m + 64) req mem (h, os)) \<or>
    (\<exists>p mem' h' os'. heap_alloc_resize acquire release (min_addr m + 64) req mem (h, os) = Inr (p, mem', h', os') \<and>
      heap_ok (h', os') \<and> resized req m mem h p mem' h')"
proof -
  obtain i j where f: "find_minor (heap_majors h) (min_addr m) = Some (i, j)" "i < length (heap_majors h)"
    "j < length (maj_minors (heap_majors h ! i))" "maj_minors (heap_majors h ! i) ! j = m" using find_minor_ok [OF ok m] by blast
  let ?n = "heap_align req" and ?maj = "heap_majors h ! i"
  have maj: "major_ok ?maj" using heap_ok_major [OF ok f(2)] .
  have mm: "m \<in> set (maj_minors ?maj)" using f(3,4) by auto
  have ptr: "u64_sub (min_addr m + 64) 64 = min_addr m" using minor_in_major [OF maj mm] maj by (subst u64_sub_small) (auto simp: major_ok_def)
  have rs: "min_req_size m \<le> min_size m" by (rule minors_ok_req_le [OF major_ok_minors [OF maj] mm])
  have n: "0 < ?n" "req \<le> ?n" "?n + 8192 + 64 \<le> 2 ^ 64" using heap_align_req [of req] req by auto
  have sep: "separate m x" if x: "x \<in> all_minors h - {m}" for x using all_minors_separate [OF ok m] x by blast
  show ?thesis
  proof (cases "?n \<le> min_size m")
    case True
    let ?m = "m\<lparr>min_req_size := ?n\<rparr>"
    define h' where "h' = h\<lparr>heap_majors := (heap_majors h)[i := ?maj\<lparr>maj_minors := (maj_minors ?maj)[j := ?m]\<rparr>]\<rparr>"
    note s = shrink_in_place [OF ok f(2,3,4) True h'_def]
    have "heap_alloc_resize acquire release (min_addr m + 64) req mem (h, os) = Inr (min_addr m + 64, mem, h', os)"
      using True n(1) f ptr by (simp add: heap_alloc_resize_def Let_def heap_consts h'_def)
    moreover have "resized req m mem h (min_addr m + 64) mem h'"
      unfolding resized_def by (rule exI [of _ ?m]) (use s(2) sep n(2) True in \<open>simp add: separate_def\<close>)
    ultimately show ?thesis using s(1) by blast
  next
    case False
    obtain k where k: "k \<ge> ?n" "acquire_result k (h, os) (heap_alloc_acquire acquire ?n (h, os))"
      using heap_alloc_acquire_ok [OF ok n(3)] by blast
    let ?rest = "\<lambda>(new_ptr, st). let mem = mem_cpy_at new_ptr (min_addr m + 64) (min_req_size m) mem in
      sbind (heap_alloc_release release (min_addr m + 64) st) (\<lambda>st. Inr (new_ptr, mem, st))"
    have run: "heap_alloc_resize acquire release (min_addr m + 64) req mem (h, os) = sbind (heap_alloc_acquire acquire ?n (h, os)) ?rest"
      using False n(1) f ptr by (simp add: heap_alloc_resize_def Let_def heap_consts)
    show ?thesis using k(2) unfolding acquire_result_def
    proof (elim disjE exE conjE)
      assume "provider_failed (snd (h, os)) (heap_alloc_acquire acquire ?n (h, os))"
      then show ?thesis unfolding run by (auto simp: provider_failed_def)
    next
      fix p h1 os1 assume a: "heap_alloc_acquire acquire ?n (h, os) = Inr (p, h1, os1)" "acquired k (fst (h, os)) p h1" "heap_ok (h1, os1)"
      obtain new where new: "p = min_addr new + 64" "min_size new = k" "all_minors h1 = insert new (all_minors h)" "\<forall>x\<in>all_minors h. separate new x"
        using a(2) by (auto simp: acquired_def)
      have "m \<in> all_minors h1" using m new(3) by simp
      from heap_alloc_release_ok [OF a(3) this] obtain h2 os2 where r: "heap_alloc_release release (min_addr m + 64) (h1, os1) = Inr (h2, os2)"
        "heap_ok (h2, os2)" "all_minors h2 = all_minors h1 - {m}" by blast
      let ?mem = "mem_cpy_at p (min_addr m + 64) (min_req_size m) mem"
      have "new \<noteq> m" using new(4) m by (auto simp: separate_def)
      then have am: "all_minors h2 = insert new (all_minors h - {m})" using r(3) new(3) by auto
      have fit: "min_req_size m < min_size new" using rs False k(1) new(2) by linarith
      have keep: "?mem a = mem a" if x: "x \<in> all_minors h" "a \<in> minor_span x" for x a
        using new(4) x fit by (force simp: mem_cpy_at_def new(1) separate_def minor_span_def)
      have copy: "\<forall>k<min_req_size m. ?mem (p + k) = mem (min_addr m + 64 + k)" by (simp add: mem_cpy_at_def)
      have "resized req m mem h p ?mem h2"
        unfolding resized_def by (rule exI [of _ new]) (use am new n(2) k(1) keep copy in auto)
      moreover have "heap_alloc_resize acquire release (min_addr m + 64) req mem (h, os) = Inr (p, ?mem, h2, os2)"
        unfolding run by (simp add: a(1) r(1) Let_def)
      ultimately show ?thesis using r(2) by blast
    qed
  qed
qed

end

end
