(* ===== verification/Heap_Kernel.thy ===== *)
theory Heap_Kernel
  imports Heap_Props
begin

text \<open>
  The kernel's provider of pages, \<open>embed/kernel/mem.c\<close> over the identity heap and the physical memory
  manager, satisfies the laws of theory Heap\_Props, and the properties of the kernel's allocator follow.
\<close>

section \<open>The pages of the identity heap\<close>

lemma align_up_aligned:
  assumes "4096 dvd unat a"
  shows "align_up a MEM_PAGE_SIZE = a"
proof -
  have m: "(4095 :: u64) = mask 12" by (simp add: mask_eq_exp_minus_1)
  have "unat (take_bit 12 a) = 0" using assms by (simp add: take_bit_eq_mod unat_mod dvd_eq_mod_eq_0)
  then have "take_bit 12 a = 0" by (simp add: unat_eq_0)
  then have z: "a AND mask 12 = 0" by (simp add: take_bit_eq_mask)
  then have "a + mask 12 = a OR mask 12" by (rule disjunctive_add_eq_or)
  then have "mask 12 + a = a OR mask 12" by (simp only: add.commute)
  then have "align_up a MEM_PAGE_SIZE = (a OR mask 12) AND NOT (mask 12)"
    by (simp add: align_up_def MEM_PAGE_SIZE_def m)
  also have "\<dots> = a AND NOT (mask 12)" by (simp add: bit.conj_disj_distrib2)
  also have "\<dots> = a" using z by (auto simp: bit_eq_iff bit_simps)
  finally show ?thesis .
qed

definition IO_BASE :: nat where "IO_BASE = 0xffff800000000000"

definition kernel_ok :: "pmm \<Rightarrow> bool" where
  "kernel_ok p \<longleftrightarrow> pmm_inv p \<and> (rbase (usable_range p) = 0 \<longrightarrow> page_used p 0) \<and>
     unat (rbase (usable_range p)) + page_count p * 4096 < 2 ^ 47"

text \<open>The used bytes in the I/O window; the first page of memory is never given out.\<close>

definition kernel_used :: "pmm \<Rightarrow> nat set" where
  "kernel_used p = {a. IO_BASE + 4096 \<le> a \<and> IO_BASE + unat (rbase (usable_range p)) \<le> a \<and>
     a < IO_BASE + unat (rbase (usable_range p)) + page_count p * 4096 \<and>
     page_used p ((a - IO_BASE - unat (rbase (usable_range p))) div 4096)}"

lemma div_page_range:
  assumes "4096 dvd s" "4096 dvd (n :: nat)"
  shows "x div 4096 \<in> {s div 4096..<s div 4096 + n div 4096} \<longleftrightarrow> s \<le> x \<and> x < s + n"
  using assms by (auto elim!: dvdE)

lemma pages_of_mem:
  assumes inv: "pmm_inv p" and ok: "pmm_range_ok p r" and x: "unat (rbase (usable_range p)) \<le> x"
  shows "(x - unat (rbase (usable_range p))) div 4096 \<in> pages_of p r \<longleftrightarrow> unat (rbase r) \<le> x \<and> x < unat (rbase r) + unat (rsize r)"
proof -
  let ?u = "unat (rbase (usable_range p))"
  have le: "?u \<le> unat (rbase r)" using ok by (simp add: pmm_range_ok_def word_le_nat_alt)
  have d: "4096 dvd unat (rbase r) - ?u" "4096 dvd unat (rsize r)"
    using ok inv by (auto simp: pmm_range_ok_def mem_is_range_page_aligned_def page_aligned_nat size_aligned_nat pmm_inv_def intro: dvd_diff_nat)
  show ?thesis unfolding pages_of_def range_set_def addr2pages_ok(3,4) [OF inv ok]
    unfolding div_page_range [OF d] using le x by linarith
qed

lemma kernel_acquire:
  assumes ok: "kernel_ok s" and n: "0 < n" "4096 dvd n" "n < 2 ^ 64" and run: "embed_mem_acquire n s = Inr (Some a, t)"
  shows "kernel_ok t \<and> 4096 dvd a \<and> 0 < a \<and> a + n < 2 ^ 64 \<and> {a..<a + n} \<inter> kernel_used s = {} \<and> kernel_used t = kernel_used s \<union> {a..<a + n}"
proof -
  let ?u = "unat (rbase (usable_range s))"
  have inv: "pmm_inv s" and bd: "?u + page_count s * 4096 < 2 ^ 47" and z: "?u = 0 \<longrightarrow> page_used s 0" using ok by (auto simp: kernel_ok_def unat_eq_0)
  have un: "unat (of_nat n :: u64) = n" using n(3) by (simp add: unat_of_nat)
  have al: "align_up (of_nat n) MEM_PAGE_SIZE = of_nat n" using align_up_aligned [of "of_nat n"] n(2) un by simp
  from run obtain x where x: "pmm_alloc s (of_nat n) True = Inr (x, t)"
    by (cases "pmm_alloc s (of_nat n) True") (auto simp: embed_mem_acquire_def heap_alloc_def heap_alloc_impl_def al)
  have pos: "0 < (of_nat n :: u64)" using n(1) un by (simp add: word_less_nat_alt)
  obtain r where r: "x = Inr r" and A: "pmm_allocated s (of_nat n) r t" using pmm_alloc_result [OF inv pos x] by blast
  have same: "usable_range t = usable_range s" "page_count t = page_count s" "pmm_inv t" "rsize r = of_nat n" "mem_is_range_page_aligned r"
    "page_used t = (\<lambda>i. i \<in> pages_of s r \<or> page_used s i)" "\<forall>i\<in>pages_of s r. \<not> page_used s i"
    using A by (auto simp: pmm_allocated_def)
  have okt: "pmm_range_ok t r" by (rule pmm_allocated_range_ok [OF inv pos A])
  then have oks: "pmm_range_ok s r" by (simp add: pmm_range_ok_def same)
  let ?b = "unat (rbase r)"
  have b: "?u \<le> ?b" "?b + n \<le> ?u + page_count s * 4096" "4096 dvd ?b" using oks same un
    by (auto simp: pmm_range_ok_def word_le_nat_alt mem_is_range_page_aligned_def page_aligned_nat)
  have mem: "(y - ?u) div 4096 \<in> pages_of s r \<longleftrightarrow> ?b \<le> y \<and> y < ?b + n" if "?u \<le> y" for y
    using pages_of_mem [OF inv oks that] same un by simp
  have "?b \<noteq> 0"
  proof
    assume "?b = 0"
    then have "0 \<in> pages_of s r" "page_used s 0" using mem [of 0] b(1) n(1) z by auto
    then show False using same(7) by blast
  qed
  then have b1: "4096 \<le> ?b" using b(3) by (auto elim!: dvdE)
  have a: "a = IO_BASE + ?b"
    using run x r b(2) bd by (simp add: embed_mem_acquire_def heap_alloc_def heap_alloc_impl_def al mmap_phys_to_io_def MMAP_IO_BASE_def IO_BASE_def unat_plus_u64)
  have memc: "(c - IO_BASE - ?u) div 4096 \<in> pages_of s r \<longleftrightarrow> a \<le> c \<and> c < a + n" if "IO_BASE + ?u \<le> c" for c
    using mem [of "c - IO_BASE"] that by (simp add: a) arith
  have "4096 dvd a" using b(3) unfolding a IO_BASE_def by (intro dvd_add) simp_all
  moreover have "a + n < 2 ^ 64" using b(2) bd by (simp add: a IO_BASE_def)
  moreover have "kernel_ok t" using ok same by (simp add: kernel_ok_def)
  moreover have "{a..<a + n} \<inter> kernel_used s = {}"
  proof -
    have "c \<notin> kernel_used s" if c: "a \<le> c" "c < a + n" for c
      using memc [of c] c b(1) same(7) unfolding kernel_used_def by (auto simp: a)
    then show ?thesis by auto
  qed
  moreover have "c \<in> kernel_used t \<longleftrightarrow> c \<in> kernel_used s \<or> (a \<le> c \<and> c < a + n)" for c
    using memc [of c] b b1 unfolding kernel_used_def same by (auto simp: a)
  ultimately show ?thesis by (auto simp: a IO_BASE_def)
qed

lemma kernel_release:
  assumes ok: "kernel_ok s" and n: "0 < n" "4096 dvd n" "4096 dvd a" "a + n < 2 ^ 64" and sub: "{a..<a + n} \<subseteq> kernel_used s"
  shows "\<exists>t. embed_mem_release a n s = Inr t \<and> kernel_ok t \<and> kernel_used t = kernel_used s - {a..<a + n}"
proof -
  let ?u = "unat (rbase (usable_range s))"
  have inv: "pmm_inv s" and bd: "?u + page_count s * 4096 < 2 ^ 47" and z: "?u = 0 \<longrightarrow> page_used s 0" using ok by (auto simp: kernel_ok_def unat_eq_0)
  have ends: "a \<in> kernel_used s" "a + n - 1 \<in> kernel_used s" using sub n(1) by auto
  then have lo: "IO_BASE + 4096 \<le> a" "IO_BASE + ?u \<le> a" and hi: "a + n \<le> IO_BASE + ?u + page_count s * 4096" using n(1) by (auto simp: kernel_used_def)
  let ?r = "heap_to_pmm (mk_range (of_nat a) (of_nat n))"
  have un: "unat (of_nat n :: u64) = n" "unat (of_nat a :: u64) = a" using n(4) by (auto simp: unat_of_nat)
  have "MMAP_IO_BASE \<le> of_nat a" using lo(1) un(2) by (simp add: word_le_nat_alt MMAP_IO_BASE_def IO_BASE_def)
  then have rb: "unat (rbase ?r) = a - IO_BASE" using un(2) by (simp add: heap_to_pmm_def mmap_io_to_phys_def unat_minus_u64 MMAP_IO_BASE_def IO_BASE_def)
  have rs: "unat (rsize ?r) = n" by (simp add: heap_to_pmm_def un)
  have "4096 dvd a - IO_BASE" using n(3) by (intro dvd_diff_nat) (simp_all add: IO_BASE_def)
  then have rok: "pmm_range_ok s ?r" using rb rs n(2) lo hi
    by (auto simp: pmm_range_ok_def mem_is_range_page_aligned_def page_aligned_nat size_aligned_nat word_le_nat_alt)
  have "rbase ?r \<noteq> 0" using rb lo(1) by (auto simp: unat_eq_0 [symmetric])
  from pmm_unused_spec [OF inv rok this] obtain t where t: "pmm_unused s ?r = Inr (Inr ?r, t)" "pmm_inv t"
    "page_used t = (\<lambda>i. i \<notin> pages_of s ?r \<and> page_used s i)" "usable_range t = usable_range s" "page_count t = page_count s" by blast
  have mem: "(y - ?u) div 4096 \<in> pages_of s ?r \<longleftrightarrow> a - IO_BASE \<le> y \<and> y < a - IO_BASE + n" if "?u \<le> y" for y
    using pages_of_mem [OF inv rok that] rb rs by simp
  have memc: "(c - IO_BASE - ?u) div 4096 \<in> pages_of s ?r \<longleftrightarrow> a \<le> c \<and> c < a + n" if "IO_BASE + ?u \<le> c" for c
    using mem [of "c - IO_BASE"] that lo by auto
  have run: "embed_mem_release a n s = Inr t" using t(1) by (simp add: embed_mem_release_def heap_free_def)
  have "0 \<notin> pages_of s ?r" if "?u = 0" using mem [of 0] that lo(1) by simp
  then have okt: "kernel_ok t" using ok t by (simp add: kernel_ok_def unat_eq_0)
  have "c \<in> kernel_used t \<longleftrightarrow> c \<in> kernel_used s \<and> \<not> (a \<le> c \<and> c < a + n)" for c
    using memc [of c] unfolding kernel_used_def t mem_Collect_eq by blast
  then have "kernel_used t = kernel_used s - {a..<a + n}" by (simp add: set_eq_iff)
  then show ?thesis using run okt by blast
qed

interpretation kheap: page_provider embed_mem_acquire embed_mem_release kernel_used kernel_ok
  by unfold_locales (use kernel_acquire kernel_release in blast)+

lemma kernel_start: "kernel_ok p \<Longrightarrow> heap_inv kernel_used kernel_ok (heap_alloc_init node, p)"
  by (simp add: heap_inv_def heap_alloc_init_def best_ok_def)

lemma minor_in_used:
  assumes "heap_inv used okp (h, os)" "m \<in> all_minors h"
  shows "minor_span m \<subseteq> used os" "64 dvd min_addr m + 64"
proof -
  obtain maj where maj: "maj \<in> set (heap_majors h)" "m \<in> set (maj_minors maj)" using assms(2) by (auto simp: all_minors_def)
  then have "major_ok maj" "major_span maj \<subseteq> used os" using assms(1) by (auto simp: heap_inv_def)
  then show "minor_span m \<subseteq> used os" "64 dvd min_addr m + 64"
    using minor_in_major [of maj m] maj(2) by (auto simp: minor_span_def major_span_def subset_eq)
qed

lemma separate_disjoint: "separate a b \<Longrightarrow> minor_span a \<inter> minor_span b = {}"
  by (auto simp: separate_def minor_span_def)

section \<open>An example\<close>

lemma kernel_example_ok: "kernel_ok pmm_example"
  using pmm_example_inv by (simp add: kernel_ok_def pmm_example_def page_count_def bits_init_def bits_len_def)

lemma kernel_example_page: "\<exists>q. embed_mem_acquire 4096 pmm_example = Inr (Some 0xffff80000010b000, q)"
proof -
  have "map_sum id fst (pmm_alloc pmm_example 0x1000 True) = Inr (Inr (mk_range 0x10b000 0x1000))" by code_simp
  then obtain q where q: "pmm_alloc pmm_example 0x1000 True = Inr (Inr (mk_range 0x10b000 0x1000), q)"
    by (cases "pmm_alloc pmm_example 0x1000 True") auto
  moreover have "align_up 0x1000 MEM_PAGE_SIZE = 0x1000" by (simp add: align_up_aligned)
  ultimately show ?thesis
    by (simp add: embed_mem_acquire_def heap_alloc_def heap_alloc_impl_def mmap_phys_to_io_def MMAP_IO_BASE_def)
qed

lemma heap_example_run:
  "\<exists>a h q. alloc_malloc embed_mem_acquire 100 (heap_alloc_init NODE_SMALL, pmm_example) = Inr (a, h, q)"
proof -
  obtain q where q: "embed_mem_acquire 4096 pmm_example = Inr (Some 0xffff80000010b000, q)" using kernel_example_page by blast
  have pg: "major_pages 128 NODE_SMALL = 1" by (simp add: major_pages_def Let_def heap_consts u64_add_def)
  have al: "heap_align 100 = 128" by (simp add: heap_align_def heap_consts u64_add_def)
  define maj where "maj = \<lparr>maj_addr = 0xffff80000010b000, maj_pages = 1, maj_size = 4096, maj_usage = 64, maj_minors = []\<rparr>"
  let ?h = "(heap_alloc_init NODE_SMALL)\<lparr>heap_majors := [maj]\<rparr>"
  have app: "append_major embed_mem_acquire 128 (heap_alloc_init NODE_SMALL, pmm_example) = Inr (?h, q)"
    using q pg by (simp add: append_major_def major_block_create_def Let_def heap_alloc_init_def heap_consts maj_def)
  have diff: "maj_diff maj = 4032" by (simp add: maj_diff_def maj_def u64_sub_def)
  have "\<exists>a h'. heap_search (Suc t) embed_mem_acquire 128 0 0 False (?h, q) = Inr (a, h', q)" for t
    using diff by (simp add: heap_search.simps(2) Let_def heap_consts u64_add_def place_minor_def place_first_def maj_def)
  from this [of 3] have "\<exists>a h'. heap_search 4 embed_mem_acquire 128 0 0 False (?h, q) = Inr (a, h', q)" by simp
  then show ?thesis
    using app al by (simp add: alloc_malloc_def heap_alloc_acquire_def heap_acquire_sized_def Let_def heap_alloc_init_def) blast
qed

lemma heap_example_block:
  obtains h p new where "alloc_malloc embed_mem_acquire 100 (heap_alloc_init NODE_SMALL, pmm_example) = Inr (min_addr new + 64, h, p)"
    "heap_inv kernel_used kernel_ok (h, p)" "all_minors h = {new}"
proof -
  obtain a h q where r: "alloc_malloc embed_mem_acquire 100 (heap_alloc_init NODE_SMALL, pmm_example) = Inr (a, h, q)" using heap_example_run by blast
  have "all_minors (heap_alloc_init NODE_SMALL) = {}" by (simp add: all_minors_def heap_alloc_init_def)
  with r kheap.heap_alloc_acquire_ok [OF kernel_start [OF kernel_example_ok, of NODE_SMALL], of 100] that show thesis
    by (auto simp: alloc_malloc_def kheap.acquire_result_def kheap.provider_failed_def acquired_def)
qed

section \<open>Properties\<close>

text \<open>
  C15. An allocation from the kernel's heap either stops because the page allocator did, or gives a block
  of at least the size asked for, aligned to 64 bytes, whose header and contents meet no block that is
  in use and lie in pages that the page allocator gave out; all other blocks are as they were and the
  invariant of the heap is kept. The loop over the blocks always ends, and \<open>best\<close> never dangles.
\<close>

theorem heap_acquire_exclusive:
  assumes "heap_inv kernel_used kernel_ok (h, p)" and "n + 8256 \<le> 2 ^ 64"
  shows "case alloc_malloc embed_mem_acquire n (h, p) of
     Inl f \<Rightarrow> (\<exists>b. embed_mem_acquire b p = Inl f) \<or> f = Panic ''Failed to allocate memory!''
   | Inr (a, h', p') \<Rightarrow> heap_inv kernel_used kernel_ok (h', p') \<and> 64 dvd a \<and>
       (\<exists>new. a = min_addr new + 64 \<and> n \<le> min_size new \<and> all_minors h' = insert new (all_minors h) \<and>
          minor_span new \<subseteq> kernel_used p' \<and> (\<forall>m\<in>all_minors h. minor_span new \<inter> minor_span m = {}))"
proof -
  obtain k where k: "k \<ge> n" "kheap.acquire_result k (h, p) (heap_alloc_acquire embed_mem_acquire n (h, p))"
    using kheap.heap_alloc_acquire_ok [OF assms(1)] assms(2) by auto
  from k(2) show ?thesis unfolding kheap.acquire_result_def
  proof (elim disjE exE conjE)
    assume "kheap.provider_failed (snd (h, p)) (heap_alloc_acquire embed_mem_acquire n (h, p))"
    then show ?thesis by (auto simp: kheap.provider_failed_def alloc_malloc_def)
  next
    fix a h' p' assume r: "heap_alloc_acquire embed_mem_acquire n (h, p) = Inr (a, h', p')" "acquired k (fst (h, p)) a h'"
      "heap_inv kernel_used kernel_ok (h', p')"
    from r(2) obtain new where new: "a = min_addr new + 64" "min_size new = k" "all_minors h' = insert new (all_minors h)"
      "\<forall>m\<in>all_minors h. separate new m" by (auto simp: acquired_def)
    have "new \<in> all_minors h'" using new(3) by simp
    note u = minor_in_used [OF r(3) this]
    have "\<forall>m\<in>all_minors h. minor_span new \<inter> minor_span m = {}" using new(4) separate_disjoint by blast
    then have "\<exists>new. a = min_addr new + 64 \<and> n \<le> min_size new \<and> all_minors h' = insert new (all_minors h) \<and>
      minor_span new \<subseteq> kernel_used p' \<and> (\<forall>m\<in>all_minors h. minor_span new \<inter> minor_span m = {})"
      using new k(1) u by blast
    moreover have "64 dvd a" using u(2) new(1) by simp
    ultimately show ?thesis using r(1,3) by (simp add: alloc_malloc_def)
  qed
qed

theorem heap_acquire_exclusive_witness:
  "\<exists>a h' p' new. alloc_malloc embed_mem_acquire 100 (heap_alloc_init NODE_SMALL, pmm_example) = Inr (a, h', p') \<and>
     a = min_addr new + 64 \<and> 100 \<le> min_size new \<and> all_minors h' = {new} \<and> minor_span new \<subseteq> kernel_used p'"
proof -
  obtain a h q where r: "alloc_malloc embed_mem_acquire 100 (heap_alloc_init NODE_SMALL, pmm_example) = Inr (a, h, q)" using heap_example_run by blast
  have "all_minors (heap_alloc_init NODE_SMALL) = {}" by (simp add: all_minors_def heap_alloc_init_def)
  with heap_acquire_exclusive [OF kernel_start [OF kernel_example_ok], of 100 NODE_SMALL] r show ?thesis by auto
qed

text \<open>
  C17. Releasing a block of the kernel's heap always succeeds, takes exactly that block out of use and
  keeps the invariant, also when it was the last block of its pages and these go back to the page
  allocator.
\<close>

theorem heap_release_exact:
  assumes "heap_inv kernel_used kernel_ok (h, p)" and "m \<in> all_minors h"
  shows "\<exists>h' p'. alloc_free embed_mem_release (min_addr m + 64) (h, p) = Inr (h', p') \<and>
     heap_inv kernel_used kernel_ok (h', p') \<and> all_minors h' = all_minors h - {m}"
  using kheap.heap_alloc_release_ok [OF assms] by (simp add: alloc_free_def)

theorem heap_release_exact_witness:
  "\<exists>a h p h' p'. alloc_malloc embed_mem_acquire 100 (heap_alloc_init NODE_SMALL, pmm_example) = Inr (a, h, p) \<and> all_minors h \<noteq> {} \<and>
     alloc_free embed_mem_release a (h, p) = Inr (h', p') \<and> all_minors h' = {}"
proof -
  obtain h p new where b: "alloc_malloc embed_mem_acquire 100 (heap_alloc_init NODE_SMALL, pmm_example) = Inr (min_addr new + 64, h, p)"
    "heap_inv kernel_used kernel_ok (h, p)" "all_minors h = {new}" by (rule heap_example_block)
  from heap_release_exact [OF b(2), of new] b(1,3) show ?thesis by auto
qed

text \<open>
  C16. Resizing a block of the kernel's heap keeps what is in it: unless the page allocator stops the
  machine, the new block has the size asked for and holds, up to the size that was asked for before, the
  bytes of the old one; the old one is given up, and neither a block nor a byte of any other block changes.
\<close>

theorem heap_resize_keeps_contents:
  assumes "heap_inv kernel_used kernel_ok (h, p)" and "m \<in> all_minors h" and "0 < req" and "req + 8320 \<le> 2 ^ 64"
  shows "case heap_alloc_resize embed_mem_acquire embed_mem_release (min_addr m + 64) req mem (h, p) of
     Inl f \<Rightarrow> (\<exists>b. embed_mem_acquire b p = Inl f) \<or> f = Panic ''Failed to allocate memory!''
   | Inr (a, mem', h', p') \<Rightarrow> heap_inv kernel_used kernel_ok (h', p') \<and>
       (\<exists>new. a = min_addr new + 64 \<and> req \<le> min_size new \<and> all_minors h' = insert new (all_minors h - {m}) \<and>
          (\<forall>k<min_req_size m. mem' (a + k) = mem (min_addr m + 64 + k)) \<and>
          (\<forall>x\<in>all_minors h - {m}. minor_span new \<inter> minor_span x = {} \<and> (\<forall>c\<in>minor_span x. mem' c = mem c)))"
proof -
  have "req + 8192 + 128 \<le> 2 ^ 64" using assms(4) by simp
  from kheap.heap_alloc_resize_ok [OF assms(1-3) this, of mem] show ?thesis
  proof (elim disjE exE conjE)
    assume "kheap.provider_failed p (heap_alloc_resize embed_mem_acquire embed_mem_release (min_addr m + 64) req mem (h, p))"
    then show ?thesis by (auto simp: kheap.provider_failed_def)
  next
    fix a mem' h' p' assume r: "heap_alloc_resize embed_mem_acquire embed_mem_release (min_addr m + 64) req mem (h, p) = Inr (a, mem', h', p')"
      "heap_inv kernel_used kernel_ok (h', p')" "kheap.resized req m mem h a mem' h'"
    then show ?thesis using separate_disjoint unfolding kheap.resized_def by fastforce
  qed
qed

theorem heap_resize_keeps_contents_witness:
  "\<exists>a h p new. alloc_malloc embed_mem_acquire 100 (heap_alloc_init NODE_SMALL, pmm_example) = Inr (a, h, p) \<and> all_minors h = {new} \<and>
     (case heap_alloc_resize embed_mem_acquire embed_mem_release a 500 (\<lambda>_. 7) (h, p) of
        Inl f \<Rightarrow> (\<exists>b. embed_mem_acquire b p = Inl f) \<or> f = Panic ''Failed to allocate memory!''
      | Inr (a, mem', h', p') \<Rightarrow> \<exists>new. all_minors h' = {new} \<and> 500 \<le> min_size new)"
proof -
  obtain h p new where b: "alloc_malloc embed_mem_acquire 100 (heap_alloc_init NODE_SMALL, pmm_example) = Inr (min_addr new + 64, h, p)"
    "heap_inv kernel_used kernel_ok (h, p)" "all_minors h = {new}" by (rule heap_example_block)
  from heap_resize_keeps_contents [OF b(2), of new 500 "\<lambda>_. 7"] b(3)
  have "case heap_alloc_resize embed_mem_acquire embed_mem_release (min_addr new + 64) 500 (\<lambda>_. 7) (h, p) of
        Inl f \<Rightarrow> (\<exists>b. embed_mem_acquire b p = Inl f) \<or> f = Panic ''Failed to allocate memory!''
      | Inr (a, mem', h', p') \<Rightarrow> \<exists>new. all_minors h' = {new} \<and> 500 \<le> min_size new"
    by (auto split: sum.splits)
  then show ?thesis using b(1,3) by blast
qed

text \<open>
  A request whose size rounds up past the end of the address space is not refused: for the last 63
  sizes of 64 bits, \<open>heap_alloc_acquire\<close> does what it does for one byte, and gives a block of 64 bytes.
\<close>

theorem heap_huge_request:
  assumes "2 ^ 64 - 63 \<le> n" and "n < 2 ^ 64"
  shows "heap_alloc_acquire acquire n st = heap_alloc_acquire acquire 1 st"
proof -
  have "(n + 63) mod 2 ^ 64 = n + 63 - 2 ^ 64" using assms by (subst mod_if) (simp add: mod_less)
  then have "heap_align n = 0" using assms by (simp add: heap_align_def heap_consts u64_add_def)
  then show ?thesis by (simp add: heap_alloc_acquire_def heap_align_def heap_consts u64_add_def)
qed

theorem heap_huge_request_witness:
  "heap_alloc_acquire embed_mem_acquire 0xffffffffffffffff (heap_alloc_init NODE_SMALL, pmm_example) =
   heap_alloc_acquire embed_mem_acquire 1 (heap_alloc_init NODE_SMALL, pmm_example)"
  by (rule heap_huge_request) simp_all

end
