(* ===== verification/Bvm.thy ===== *)
theory Bvm
  imports Prelude
begin

text \<open>
  The bytecode machine of \<open>bvm\<close>: values, objects, functions, the global variables, the stack and the
  frames of a thread, and the interpreter \<open>bvm_eval\<close> with one branch for each opcode. A union is its 64
  bits, so that an instruction can read a value as something it was not written as, the way the C code
  does. The stack and the frames are arrays of the sizes that \<open>bvm_local_init\<close> gives them, and an access
  outside is a fault. What the sources do not contain is an argument: the floating point unit, the
  native functions, and the address that an allocation returns.
\<close>

section \<open>Values\<close>

datatype bvm_type = BVM_UNDEF | BVM_NIL | BVM_INT | BVM_UINT | BVM_NUM | BVM_OBJ | BVM_FUNC

record bvm_val =
  val_type :: bvm_type
  val_bits :: u64

definition mk_val :: "bvm_type \<Rightarrow> u64 \<Rightarrow> bvm_val" where
  "mk_val t b = \<lparr>val_type = t, val_bits = b\<rparr>"

lemma mk_val_simps [simp]: "val_type (mk_val t b) = t" "val_bits (mk_val t b) = b"
  by (simp_all add: mk_val_def)

definition bvm_val_nil :: bvm_val where "bvm_val_nil = mk_val BVM_NIL 0"
definition bvm_val_undef :: bvm_val where "bvm_val_undef = mk_val BVM_UNDEF 0"
definition bvm_val_int :: "u64 \<Rightarrow> bvm_val" where "bvm_val_int v = mk_val BVM_INT v"
definition bvm_val_uint :: "u64 \<Rightarrow> bvm_val" where "bvm_val_uint v = mk_val BVM_INT v"
definition bvm_val_num :: "u64 \<Rightarrow> bvm_val" where "bvm_val_num v = mk_val BVM_INT v"

definition bvm_val_obj :: "u64 \<Rightarrow> bvm_val" where
  "bvm_val_obj obj = (if obj = 0 then bvm_val_nil else mk_val BVM_OBJ obj)"

definition bvm_val_func :: "u64 \<Rightarrow> bvm_val" where
  "bvm_val_func func = (if func = 0 then bvm_val_nil else mk_val BVM_FUNC func)"

definition bvm_val_bool :: "bool \<Rightarrow> bvm_val" where
  "bvm_val_bool b = bvm_val_int (of_bool b)"

lemmas bvm_val_defs = bvm_val_nil_def bvm_val_undef_def bvm_val_int_def bvm_val_uint_def bvm_val_num_def bvm_val_obj_def bvm_val_func_def bvm_val_bool_def

text \<open>The floating point unit, on the bits of a \<open>double\<close>; a conversion that C leaves undefined is \<open>None\<close>.\<close>

record bvm_fpu =
  fp_add :: "u64 \<Rightarrow> u64 \<Rightarrow> u64"
  fp_sub :: "u64 \<Rightarrow> u64 \<Rightarrow> u64"
  fp_div :: "u64 \<Rightarrow> u64 \<Rightarrow> u64"
  fp_mul :: "u64 \<Rightarrow> u64 \<Rightarrow> u64"
  fp_mod :: "u64 \<Rightarrow> u64 \<Rightarrow> u64"
  fp_neg :: "u64 \<Rightarrow> u64"
  fp_gt :: "u64 \<Rightarrow> u64 \<Rightarrow> bool"
  fp_gteq :: "u64 \<Rightarrow> u64 \<Rightarrow> bool"
  fp_nonzero :: "u64 \<Rightarrow> bool"
  fp_of_int :: "u64 \<Rightarrow> u64"
  fp_of_uint :: "u64 \<Rightarrow> u64"
  fp_to_int :: "u64 \<Rightarrow> u64 option"
  fp_to_uint :: "u64 \<Rightarrow> u64 option"

definition bvm_val_truthy :: "bvm_fpu \<Rightarrow> bvm_val \<Rightarrow> bool" where
  "bvm_val_truthy fpu v =
     (case val_type v of
        BVM_NIL \<Rightarrow> False
      | BVM_UNDEF \<Rightarrow> False
      | BVM_INT \<Rightarrow> val_bits v \<noteq> 0
      | BVM_UINT \<Rightarrow> val_bits v \<noteq> 0
      | BVM_NUM \<Rightarrow> fp_nonzero fpu (val_bits v)
      | BVM_OBJ \<Rightarrow> True
      | BVM_FUNC \<Rightarrow> True)"

section \<open>Instructions and functions\<close>

datatype (plugins only:) bvm_op =
    BVM_OP_NOP
  | BVM_OP_LOADG | BVM_OP_LOADL | BVM_OP_LOADA | BVM_OP_LOADO | BVM_OP_LOADV
  | BVM_OP_STOREG | BVM_OP_STOREL | BVM_OP_STOREA | BVM_OP_STOREO | BVM_OP_STOREV
  | BVM_OP_PUSHI | BVM_OP_PUSHU | BVM_OP_PUSHF | BVM_OP_PUSHN | BVM_OP_DUP | BVM_OP_POP
  | BVM_OP_CALL | BVM_OP_RET | BVM_OP_ARGC | BVM_OP_NEW | BVM_OP_HALT
  | BVM_OP_JMP | BVM_OP_JMPF
  | BVM_OP_EQ
  | BVM_OP_ADDI | BVM_OP_SUBI | BVM_OP_DIVI | BVM_OP_MULI | BVM_OP_MODI | BVM_OP_NEGI
  | BVM_OP_GTI | BVM_OP_GTEQI
  | BVM_OP_ADDU | BVM_OP_SUBU | BVM_OP_DIVU | BVM_OP_MULU | BVM_OP_MODU | BVM_OP_NEGU
  | BVM_OP_GTU | BVM_OP_GTEQU
  | BVM_OP_ADDN | BVM_OP_SUBN | BVM_OP_DIVN | BVM_OP_MULN | BVM_OP_MODN | BVM_OP_NEGN
  | BVM_OP_GTN | BVM_OP_GTEQN
  | BVM_OP_I2U | BVM_OP_I2N | BVM_OP_U2I | BVM_OP_U2N | BVM_OP_N2I | BVM_OP_N2U
  | BVM_OP_SUPER
  | BVM_OP_ISNIL | BVM_OP_ISUNDEF | BVM_OP_ISINT | BVM_OP_ISUINT | BVM_OP_ISNUM | BVM_OP_ISOBJ | BVM_OP_ISFUNC
  | BVM_OP_ISTYPE | BVM_OP_ISA
  | BVM_OP_AND | BVM_OP_OR | BVM_OP_NOT | BVM_OP_LSHIFT | BVM_OP_RSHIFT
  | BVM_OP_BAND | BVM_OP_BOR | BVM_OP_BXOR | BVM_OP_BNOT

record bvm_instr =
  i_opcode :: bvm_op
  i_arg :: u64

datatype bvm_func = BvmNative | BvmManaged (fn_locals: u64) (fn_code: "bvm_instr list")

text \<open>\<open>func.c\<close>: making a managed function.\<close>

definition bvm_func_create :: bvm_func where
  "bvm_func_create = BvmManaged 0 []"

definition bvm_func_local :: "bvm_func \<Rightarrow> u64 \<times> bvm_func" where
  "bvm_func_local f = (fn_locals f, BvmManaged (fn_locals f + 1) (fn_code f))"

definition bvm_func_emitu :: "bvm_op \<Rightarrow> u64 \<Rightarrow> bvm_func \<Rightarrow> u64 \<times> bvm_func" where
  "bvm_func_emitu op u f = (of_nat (length (fn_code f)), BvmManaged (fn_locals f) (fn_code f @ [\<lparr>i_opcode = op, i_arg = u\<rparr>]))"

definition bvm_func_emiti :: "bvm_op \<Rightarrow> u64 \<Rightarrow> bvm_func \<Rightarrow> u64 \<times> bvm_func" where
  "bvm_func_emiti op i f = (of_nat (length (fn_code f)), BvmManaged (fn_locals f) (fn_code f @ [\<lparr>i_opcode = op, i_arg = i\<rparr>]))"

definition bvm_func_emitn :: "bvm_op \<Rightarrow> u64 \<Rightarrow> bvm_func \<Rightarrow> u64 \<times> bvm_func" where
  "bvm_func_emitn op n f = (of_nat (length (fn_code f)), BvmManaged (fn_locals f) (fn_code f @ [\<lparr>i_opcode = op, i_arg = n\<rparr>]))"

definition bvm_func_emit :: "bvm_op \<Rightarrow> bvm_func \<Rightarrow> u64 \<times> bvm_func" where
  "bvm_func_emit op f = (of_nat (length (fn_code f)), BvmManaged (fn_locals f) (fn_code f @ [\<lparr>i_opcode = op, i_arg = 0\<rparr>]))"

definition bvm_func_jump :: "u64 \<Rightarrow> u64 \<Rightarrow> bvm_func \<Rightarrow> fault + bvm_func" where
  "bvm_func_jump addr dest f =
     (if unat addr < length (fn_code f)
      then Inr (BvmManaged (fn_locals f) ((fn_code f)[unat addr := (fn_code f ! unat addr)\<lparr>i_arg := dest\<rparr>]))
      else Inl OutOfBounds)"

section \<open>Objects\<close>

text \<open>
  The values of an object are what follows its header in memory: \<open>None\<close> is memory that was never
  written. An object is found by its address; 0 is the null pointer.
\<close>

record bvm_obj =
  obj_proto :: u64
  obj_len :: u64
  obj_vals :: "bvm_val option list"

type_synonym bvm_objs = "(u64 \<times> bvm_obj) list"

definition obj_at :: "bvm_objs \<Rightarrow> u64 \<Rightarrow> fault + bvm_obj" where
  "obj_at objs a =
     (if a = 0 then Inl NullDeref
      else case map_of objs a of None \<Rightarrow> Inl UseAfterFree | Some ob \<Rightarrow> Inr ob)"

definition obj_val :: "bvm_obj \<Rightarrow> u64 \<Rightarrow> fault + bvm_val" where
  "obj_val ob i =
     (if unat i < length (obj_vals ob)
      then (case obj_vals ob ! unat i of None \<Rightarrow> Inl Uninitialised | Some v \<Rightarrow> Inr v)
      else Inl OutOfBounds)"

definition obj_set :: "bvm_obj \<Rightarrow> u64 \<Rightarrow> bvm_val \<Rightarrow> fault + bvm_obj" where
  "obj_set ob i v =
     (if unat i < length (obj_vals ob) then Inr (ob\<lparr>obj_vals := (obj_vals ob)[unat i := Some v]\<rparr>) else Inl OutOfBounds)"

definition BVM_OBJ_SIZE :: u64 where "BVM_OBJ_SIZE = 16"
definition BVM_VAL_SIZE :: u64 where "BVM_VAL_SIZE = 16"

definition bvm_obj_create :: "(u64 \<Rightarrow> bvm_objs \<Rightarrow> u64) \<Rightarrow> u64 \<Rightarrow> u64 \<Rightarrow> bvm_objs \<Rightarrow> fault + (u64 \<times> bvm_objs)" where
  "bvm_obj_create malloc n proto objs =
     (let alloc_size = BVM_OBJ_SIZE + n * BVM_VAL_SIZE;
          self = malloc alloc_size objs
      in sbind (obj_at objs proto) (\<lambda>p.
         Inr (self, (self, \<lparr>obj_proto = proto, obj_len = obj_len p,
           obj_vals = replicate ((unat alloc_size - 16) div 16) None\<rparr>) # objs)))"

definition bvm_obj_load :: "bvm_objs \<Rightarrow> u64 \<Rightarrow> u64 \<Rightarrow> fault + bvm_val" where
  "bvm_obj_load objs self i =
     sbind (obj_at objs self) (\<lambda>ob. if i \<ge> obj_len ob then Inr bvm_val_undef else obj_val ob i)"

text \<open>
  A chain of prototypes that is longer than the number of objects comes back to an object, and the
  recursion has no end.
\<close>

fun obj_loadv :: "nat \<Rightarrow> bvm_objs \<Rightarrow> u64 \<Rightarrow> u64 \<Rightarrow> fault + bvm_val" where
  "obj_loadv 0 objs self i = Inl OutOfFuel"
| "obj_loadv (Suc depth) objs self i =
     (if self = 0 then Inr bvm_val_undef
      else sbind (obj_at objs self) (\<lambda>ob.
           if i \<ge> obj_len ob then Inr bvm_val_undef
           else sbind (obj_val ob i) (\<lambda>v.
                if val_type v \<noteq> BVM_UNDEF then Inr v else obj_loadv depth objs (obj_proto ob) i)))"

definition bvm_obj_loadv :: "bvm_objs \<Rightarrow> u64 \<Rightarrow> u64 \<Rightarrow> fault + bvm_val" where
  "bvm_obj_loadv objs self i = obj_loadv (length objs + 1) objs self i"

definition bvm_obj_store :: "u64 \<Rightarrow> u64 \<Rightarrow> bvm_val \<Rightarrow> bvm_objs \<Rightarrow> fault + bvm_objs" where
  "bvm_obj_store self i v objs =
     sbind (obj_at objs self) (\<lambda>ob.
     if i \<ge> obj_len ob then Inr objs
     else sbind (obj_set ob i v) (\<lambda>ob. Inr ((self, ob) # objs)))"

fun obj_storev :: "nat \<Rightarrow> u64 \<Rightarrow> u64 \<Rightarrow> bvm_val \<Rightarrow> bvm_objs \<Rightarrow> fault + bvm_objs" where
  "obj_storev 0 self i v objs = Inl OutOfFuel"
| "obj_storev (Suc depth) self i v objs =
     (if self = 0 then Inr objs
      else sbind (obj_at objs self) (\<lambda>ob.
           if i \<ge> obj_len ob then Inr objs
           else sbind (obj_val ob i) (\<lambda>old.
                sbind (if val_type old \<noteq> BVM_UNDEF then sbind (obj_set ob i v) (\<lambda>ob. Inr ((self, ob) # objs)) else Inr objs) (\<lambda>objs.
                obj_storev depth (obj_proto ob) i v objs))))"

definition bvm_obj_storev :: "u64 \<Rightarrow> u64 \<Rightarrow> bvm_val \<Rightarrow> bvm_objs \<Rightarrow> fault + bvm_objs" where
  "bvm_obj_storev self i v objs = obj_storev (length objs + 1) self i v objs"

fun obj_isa :: "nat \<Rightarrow> bvm_objs \<Rightarrow> u64 \<Rightarrow> u64 \<Rightarrow> fault + bool" where
  "obj_isa 0 objs self proto = Inl OutOfFuel"
| "obj_isa (Suc depth) objs self proto =
     (if self = 0 then Inr False
      else sbind (obj_at objs self) (\<lambda>ob.
           if obj_proto ob = proto then Inr True else obj_isa depth objs (obj_proto ob) proto))"

definition bvm_obj_isa :: "bvm_objs \<Rightarrow> u64 \<Rightarrow> u64 \<Rightarrow> fault + bool" where
  "bvm_obj_isa objs self proto = obj_isa (length objs + 1) objs self proto"

section \<open>Contexts\<close>

type_synonym bvm_global = "(string \<times> bvm_val) list"

definition c_int :: "u64 \<Rightarrow> int" where
  "c_int u = sint (ucast u :: u32)"

definition bvm_global_init :: bvm_global where
  "bvm_global_init = []"

definition bvm_global_load :: "bvm_global \<Rightarrow> int \<Rightarrow> fault + bvm_val" where
  "bvm_global_load g i = (if 0 \<le> i \<and> nat i < length g then Inr (snd (g ! nat i)) else Inl OutOfBounds)"

definition bvm_global_store :: "int \<Rightarrow> bvm_val \<Rightarrow> bvm_global \<Rightarrow> fault + bvm_global" where
  "bvm_global_store i v g =
     (if 0 \<le> i \<and> nat i < length g then Inr (g[nat i := (fst (g ! nat i), v)]) else Inl OutOfBounds)"

record bvm_frame =
  fr_ip :: u64
  fr_args :: int
  fr_argc :: u64
  fr_vars :: int
  fr_varc :: u64
  fr_func :: u64

definition BVM_MAX_STACK :: int where "BVM_MAX_STACK = 4096"
definition BVM_MAX_FRAME :: nat where "BVM_MAX_FRAME = 128"

text \<open>A pointer into the stack is its distance from the start of the array.\<close>

record bvm_local =
  lo_stack :: "int \<Rightarrow> bvm_val"
  lo_top :: int
  lo_frame :: "nat \<Rightarrow> bvm_frame"
  lo_curr :: "nat option"

record bvm =
  vm_local :: bvm_local
  vm_global :: bvm_global
  vm_objs :: bvm_objs
  vm_funcs :: "u64 \<Rightarrow> bvm_func option"

record bvm_env =
  env_fpu :: bvm_fpu
  env_malloc :: "u64 \<Rightarrow> bvm_objs \<Rightarrow> u64"
  env_native :: "u64 \<Rightarrow> bvm \<Rightarrow> fault + (bvm_val \<times> bvm)"

definition bvm_local_init :: bvm_local where
  "bvm_local_init = \<lparr>lo_stack = (\<lambda>_. bvm_val_undef), lo_top = 0,
     lo_frame = (\<lambda>_. \<lparr>fr_ip = 0, fr_args = 0, fr_argc = 0, fr_vars = 0, fr_varc = 0, fr_func = 0\<rparr>), lo_curr = None\<rparr>"

definition stack_get :: "bvm_local \<Rightarrow> int \<Rightarrow> fault + bvm_val" where
  "stack_get l i = (if 0 \<le> i \<and> i < BVM_MAX_STACK then Inr (lo_stack l i) else Inl OutOfBounds)"

definition stack_set :: "int \<Rightarrow> bvm_val \<Rightarrow> bvm_local \<Rightarrow> fault + bvm_local" where
  "stack_set i v l =
     (if 0 \<le> i \<and> i < BVM_MAX_STACK then Inr (l\<lparr>lo_stack := (lo_stack l)(i := v)\<rparr>) else Inl OutOfBounds)"

definition bvm_local_push :: "bvm_val \<Rightarrow> bvm_local \<Rightarrow> fault + bvm_local" where
  "bvm_local_push v l = sbind (stack_set (lo_top l) v l) (\<lambda>l. Inr (l\<lparr>lo_top := lo_top l + 1\<rparr>))"

definition bvm_local_pop :: "bvm_local \<Rightarrow> fault + (bvm_val \<times> bvm_local)" where
  "bvm_local_pop l =
     (let l = l\<lparr>lo_top := lo_top l - 1\<rparr> in sbind (stack_get l (lo_top l)) (\<lambda>v. Inr (v, l)))"

definition frame_curr :: "bvm_local \<Rightarrow> fault + bvm_frame" where
  "frame_curr l = (case lo_curr l of None \<Rightarrow> Inl NullDeref | Some i \<Rightarrow> Inr (lo_frame l i))"

definition set_frame_curr :: "bvm_frame \<Rightarrow> bvm_local \<Rightarrow> fault + bvm_local" where
  "set_frame_curr fr l =
     (case lo_curr l of
        None \<Rightarrow> Inl NullDeref
      | Some i \<Rightarrow> if i < BVM_MAX_FRAME then Inr (l\<lparr>lo_frame := (lo_frame l)(i := fr)\<rparr>) else Inl OutOfBounds)"

definition bvm_local_call :: "u64 \<Rightarrow> bvm_func \<Rightarrow> int \<Rightarrow> bvm_local \<Rightarrow> fault + bvm_local" where
  "bvm_local_call addr func argc l =
     (let l = l\<lparr>lo_curr := (case lo_curr l of None \<Rightarrow> Some 0 | Some i \<Rightarrow> Some (i + 1))\<rparr>;
          args = lo_top l - argc
      in case func of
           BvmNative \<Rightarrow>
             set_frame_curr \<lparr>fr_ip = 0, fr_args = args, fr_argc = of_int argc, fr_vars = lo_top l, fr_varc = 0, fr_func = addr\<rparr> l
         | BvmManaged locals code \<Rightarrow>
             let vars = lo_top l + int (unat locals) in
             sbind (set_frame_curr \<lparr>fr_ip = 0, fr_args = args, fr_argc = of_int argc, fr_vars = vars, fr_varc = locals, fr_func = addr\<rparr> l)
               (for_each (\<lambda>i. stack_set (vars + int i) bvm_val_nil) [0..<unat locals]))"

datatype bvm_res = BVM_RES_RUN | BVM_RES_HALT | BVM_RES_RET | BVM_RES_ERROR

definition bvm_local_ret :: "bvm_val \<Rightarrow> bvm_local \<Rightarrow> fault + (bvm_res \<times> bvm_local)" where
  "bvm_local_ret v l =
     sbind (bvm_local_push v (l\<lparr>lo_top := fr_args (lo_frame l 0)\<rparr>)) (\<lambda>l.
     Inr (if lo_curr l = Some 0 then (BVM_RES_RET, l\<lparr>lo_curr := None\<rparr>)
          else (BVM_RES_RUN, l\<lparr>lo_curr := map_option (\<lambda>i. i - 1) (lo_curr l)\<rparr>)))"

definition bvm_local_load_var :: "bvm_local \<Rightarrow> int \<Rightarrow> fault + bvm_val" where
  "bvm_local_load_var l i = sbind (frame_curr l) (\<lambda>fr. stack_get l (fr_vars fr + i))"

definition bvm_local_store_var :: "int \<Rightarrow> bvm_val \<Rightarrow> bvm_local \<Rightarrow> fault + bvm_local" where
  "bvm_local_store_var i v l = sbind (frame_curr l) (\<lambda>fr. stack_set (fr_vars fr + i) v l)"

definition bvm_local_load_arg :: "bvm_local \<Rightarrow> int \<Rightarrow> fault + bvm_val" where
  "bvm_local_load_arg l i = sbind (frame_curr l) (\<lambda>fr. stack_get l (fr_args fr + i))"

definition bvm_local_store_arg :: "int \<Rightarrow> bvm_val \<Rightarrow> bvm_local \<Rightarrow> fault + bvm_local" where
  "bvm_local_store_arg i v l = sbind (frame_curr l) (\<lambda>fr. stack_set (fr_args fr + i) v l)"

definition bvm_local_jump :: "u64 \<Rightarrow> bvm_local \<Rightarrow> fault + bvm_local" where
  "bvm_local_jump addr l = sbind (frame_curr l) (\<lambda>fr. set_frame_curr (fr\<lparr>fr_ip := addr\<rparr>) l)"

definition func_at :: "bvm \<Rightarrow> u64 \<Rightarrow> fault + bvm_func" where
  "func_at s a =
     (if a = 0 then Inl NullDeref else case vm_funcs s a of None \<Rightarrow> Inl UseAfterFree | Some f \<Rightarrow> Inr f)"

definition bvm_local_ifetch :: "bvm \<Rightarrow> fault + (bvm_instr \<times> bvm)" where
  "bvm_local_ifetch s =
     sbind (frame_curr (vm_local s)) (\<lambda>fr.
     sbind (func_at s (fr_func fr)) (\<lambda>f.
     case f of
       BvmNative \<Rightarrow> Inl TypeConfusion
     | BvmManaged locals code \<Rightarrow>
         if unat (fr_ip fr) < length code
         then sbind (set_frame_curr (fr\<lparr>fr_ip := fr_ip fr + 1\<rparr>) (vm_local s)) (\<lambda>l.
              Inr (code ! unat (fr_ip fr), s\<lparr>vm_local := l\<rparr>))
         else Inl OutOfBounds))"

section \<open>The interpreter\<close>

type_synonym bvm_step = "fault + (bvm_res \<times> bvm)"

definition vm_run :: "bvm \<Rightarrow> bvm_step" where
  "vm_run s = Inr (BVM_RES_RUN, s)"

definition vm_push :: "bvm_val \<Rightarrow> bvm \<Rightarrow> bvm_step" where
  "vm_push v s = sbind (bvm_local_push v (vm_local s)) (\<lambda>l. Inr (BVM_RES_RUN, s\<lparr>vm_local := l\<rparr>))"

definition vm_pop :: "bvm \<Rightarrow> (bvm_val \<Rightarrow> bvm \<Rightarrow> bvm_step) \<Rightarrow> bvm_step" where
  "vm_pop s k = sbind (bvm_local_pop (vm_local s)) (\<lambda>(v, l). k v (s\<lparr>vm_local := l\<rparr>))"

text \<open>The right operand is on top.\<close>

definition vm_unary :: "(bvm_val \<Rightarrow> fault + bvm_val) \<Rightarrow> bvm \<Rightarrow> bvm_step" where
  "vm_unary f s = vm_pop s (\<lambda>v s. sbind (f v) (\<lambda>r. vm_push r s))"

definition vm_binary :: "(bvm_val \<Rightarrow> bvm_val \<Rightarrow> fault + bvm_val) \<Rightarrow> bvm \<Rightarrow> bvm_step" where
  "vm_binary f s = vm_pop s (\<lambda>rhs s. vm_pop s (\<lambda>lhs s. sbind (f lhs rhs) (\<lambda>r. vm_push r s)))"

text \<open>Signed arithmetic, whose overflow C leaves undefined.\<close>

definition int64_fits :: "int \<Rightarrow> bool" where
  "int64_fits i \<longleftrightarrow> - (2 ^ 63) \<le> i \<and> i < 2 ^ 63"

definition int64_val :: "int \<Rightarrow> fault + bvm_val" where
  "int64_val i = (if int64_fits i then Inr (bvm_val_int (word_of_int i)) else Inl ArithUB)"

definition val_int :: "bvm_val \<Rightarrow> int" where
  "val_int v = sint (val_bits v)"

definition c_quot :: "int \<Rightarrow> int \<Rightarrow> int" where
  "c_quot a b = sgn a * sgn b * (\<bar>a\<bar> div \<bar>b\<bar>)"

definition bvm_divi :: "bvm_val \<Rightarrow> bvm_val \<Rightarrow> fault + bvm_val" where
  "bvm_divi lhs rhs = (if val_int rhs = 0 then Inl ArithUB else int64_val (c_quot (val_int lhs) (val_int rhs)))"

definition bvm_modi :: "bvm_val \<Rightarrow> bvm_val \<Rightarrow> fault + bvm_val" where
  "bvm_modi lhs rhs =
     (if val_int rhs = 0 \<or> \<not> int64_fits (c_quot (val_int lhs) (val_int rhs)) then Inl ArithUB
      else int64_val (val_int lhs - val_int rhs * c_quot (val_int lhs) (val_int rhs)))"

definition bvm_eval_bits :: "bvm_env \<Rightarrow> bvm_instr \<Rightarrow> bvm \<Rightarrow> bvm_step" where
  "bvm_eval_bits env instr s =
     (let truthy = bvm_val_truthy (env_fpu env) in
      case i_opcode instr of
        BVM_OP_AND \<Rightarrow> vm_binary (\<lambda>lhs rhs. Inr (bvm_val_bool (truthy lhs \<and> truthy rhs))) s
      | BVM_OP_OR \<Rightarrow> vm_binary (\<lambda>lhs rhs. Inr (bvm_val_bool (truthy lhs \<or> truthy rhs))) s
      | BVM_OP_NOT \<Rightarrow> vm_unary (\<lambda>v. Inr (bvm_val_bool (\<not> truthy v))) s
      | BVM_OP_LSHIFT \<Rightarrow> vm_binary (\<lambda>lhs rhs. if val_bits rhs < 64 then Inr (bvm_val_uint (push_bit (unat (val_bits rhs)) (val_bits lhs))) else Inl ArithUB) s
      | BVM_OP_RSHIFT \<Rightarrow> vm_binary (\<lambda>lhs rhs. if val_bits rhs < 64 then Inr (bvm_val_uint (drop_bit (unat (val_bits rhs)) (val_bits lhs))) else Inl ArithUB) s
      | BVM_OP_BAND \<Rightarrow> vm_binary (\<lambda>lhs rhs. Inr (bvm_val_uint (val_bits lhs AND val_bits rhs))) s
      | BVM_OP_BOR \<Rightarrow> vm_binary (\<lambda>lhs rhs. Inr (bvm_val_uint (val_bits lhs OR val_bits rhs))) s
      | BVM_OP_BXOR \<Rightarrow> vm_binary (\<lambda>lhs rhs. Inr (bvm_val_uint (val_bits lhs XOR val_bits rhs))) s
      | BVM_OP_BNOT \<Rightarrow> vm_unary (\<lambda>v. Inr (bvm_val_uint (NOT (val_bits v)))) s
      | _ \<Rightarrow> Inr (BVM_RES_ERROR, s))"

definition bvm_eval_test :: "bvm_env \<Rightarrow> bvm_instr \<Rightarrow> bvm \<Rightarrow> bvm_step" where
  "bvm_eval_test env instr s =
     (let is_type = (\<lambda>t. vm_unary (\<lambda>v. Inr (bvm_val_bool (val_type v = t))) s) in
      case i_opcode instr of
        BVM_OP_SUPER \<Rightarrow>
          vm_pop s (\<lambda>v s.
          if val_type v = BVM_OBJ \<and> val_bits v \<noteq> 0
          then sbind (obj_at (vm_objs s) (val_bits v)) (\<lambda>ob. vm_push (bvm_val_obj (obj_proto ob)) s)
          else vm_push bvm_val_undef s)
      | BVM_OP_ISNIL \<Rightarrow> is_type BVM_NIL
      | BVM_OP_ISUNDEF \<Rightarrow> is_type BVM_UNDEF
      | BVM_OP_ISINT \<Rightarrow> is_type BVM_INT
      | BVM_OP_ISUINT \<Rightarrow> is_type BVM_UINT
      | BVM_OP_ISNUM \<Rightarrow> is_type BVM_NUM
      | BVM_OP_ISOBJ \<Rightarrow> is_type BVM_OBJ
      | BVM_OP_ISFUNC \<Rightarrow> is_type BVM_FUNC
      | _ \<Rightarrow> bvm_eval_bits env instr s)"

definition fp_result :: "(u64 \<Rightarrow> bvm_val) \<Rightarrow> u64 option \<Rightarrow> fault + bvm_val" where
  "fp_result f r = (case r of None \<Rightarrow> Inl ArithUB | Some x \<Rightarrow> Inr (f x))"

definition bvm_eval_conv :: "bvm_env \<Rightarrow> bvm_instr \<Rightarrow> bvm \<Rightarrow> bvm_step" where
  "bvm_eval_conv env instr s =
     (let fpu = env_fpu env in
      case i_opcode instr of
        BVM_OP_I2U \<Rightarrow> vm_unary (\<lambda>v. Inr (bvm_val_uint (val_bits v))) s
      | BVM_OP_I2N \<Rightarrow> vm_unary (\<lambda>v. Inr (bvm_val_num (fp_of_int fpu (val_bits v)))) s
      | BVM_OP_U2I \<Rightarrow> vm_unary (\<lambda>v. Inr (bvm_val_int (val_bits v))) s
      | BVM_OP_U2N \<Rightarrow> vm_unary (\<lambda>v. Inr (bvm_val_num (fp_of_uint fpu (val_bits v)))) s
      | BVM_OP_N2I \<Rightarrow> vm_unary (\<lambda>v. fp_result bvm_val_int (fp_to_int fpu (val_bits v))) s
      | BVM_OP_N2U \<Rightarrow> vm_unary (\<lambda>v. fp_result bvm_val_uint (fp_to_uint fpu (val_bits v))) s
      | _ \<Rightarrow> bvm_eval_test env instr s)"

definition bvm_eval_num :: "bvm_env \<Rightarrow> bvm_instr \<Rightarrow> bvm \<Rightarrow> bvm_step" where
  "bvm_eval_num env instr s =
     (let fpu = env_fpu env; arith = (\<lambda>f. vm_binary (\<lambda>lhs rhs. Inr (bvm_val_num (f (val_bits lhs) (val_bits rhs)))) s) in
      case i_opcode instr of
        BVM_OP_ADDN \<Rightarrow> arith (fp_add fpu)
      | BVM_OP_SUBN \<Rightarrow> arith (fp_sub fpu)
      | BVM_OP_DIVN \<Rightarrow> arith (fp_div fpu)
      | BVM_OP_MULN \<Rightarrow> arith (fp_mul fpu)
      | BVM_OP_MODN \<Rightarrow> arith (fp_mod fpu)
      | BVM_OP_NEGN \<Rightarrow> vm_unary (\<lambda>v. Inr (bvm_val_num (fp_neg fpu (val_bits v)))) s
      | BVM_OP_GTN \<Rightarrow> vm_binary (\<lambda>lhs rhs. Inr (bvm_val_bool (fp_gt fpu (val_bits lhs) (val_bits rhs)))) s
      | BVM_OP_GTEQN \<Rightarrow> vm_binary (\<lambda>lhs rhs. Inr (bvm_val_bool (fp_gteq fpu (val_bits lhs) (val_bits rhs)))) s
      | _ \<Rightarrow> bvm_eval_conv env instr s)"

definition bvm_eval_uint :: "bvm_env \<Rightarrow> bvm_instr \<Rightarrow> bvm \<Rightarrow> bvm_step" where
  "bvm_eval_uint env instr s =
     (let arith = (\<lambda>f. vm_binary (\<lambda>lhs rhs. Inr (bvm_val_uint (f (val_bits lhs) (val_bits rhs)))) s) in
      case i_opcode instr of
        BVM_OP_ADDU \<Rightarrow> arith (+)
      | BVM_OP_SUBU \<Rightarrow> arith (-)
      | BVM_OP_DIVU \<Rightarrow> vm_binary (\<lambda>lhs rhs. if val_bits rhs = 0 then Inl ArithUB else Inr (bvm_val_uint (val_bits lhs div val_bits rhs))) s
      | BVM_OP_MULU \<Rightarrow> arith (*)
      | BVM_OP_MODU \<Rightarrow> vm_binary (\<lambda>lhs rhs. if val_bits rhs = 0 then Inl ArithUB else Inr (bvm_val_uint (val_bits lhs mod val_bits rhs))) s
      | BVM_OP_NEGU \<Rightarrow> vm_unary (\<lambda>v. Inr (bvm_val_uint (- val_bits v))) s
      | BVM_OP_GTU \<Rightarrow> vm_binary (\<lambda>lhs rhs. Inr (bvm_val_bool (val_bits lhs > val_bits rhs))) s
      | BVM_OP_GTEQU \<Rightarrow> vm_binary (\<lambda>lhs rhs. Inr (bvm_val_bool (val_bits lhs \<ge> val_bits rhs))) s
      | _ \<Rightarrow> bvm_eval_num env instr s)"

definition bvm_eval_int :: "bvm_env \<Rightarrow> bvm_instr \<Rightarrow> bvm \<Rightarrow> bvm_step" where
  "bvm_eval_int env instr s =
     (case i_opcode instr of
        BVM_OP_EQ \<Rightarrow> vm_binary (\<lambda>lhs rhs. Inr (bvm_val_bool (val_bits lhs = val_bits rhs))) s
      | BVM_OP_ADDI \<Rightarrow> vm_binary (\<lambda>lhs rhs. int64_val (val_int lhs + val_int rhs)) s
      | BVM_OP_SUBI \<Rightarrow> vm_binary (\<lambda>lhs rhs. int64_val (val_int lhs - val_int rhs)) s
      | BVM_OP_DIVI \<Rightarrow> vm_binary bvm_divi s
      | BVM_OP_MULI \<Rightarrow> vm_binary (\<lambda>lhs rhs. int64_val (val_int lhs * val_int rhs)) s
      | BVM_OP_MODI \<Rightarrow> vm_binary bvm_modi s
      | BVM_OP_NEGI \<Rightarrow> vm_unary (\<lambda>v. int64_val (- val_int v)) s
      | BVM_OP_GTI \<Rightarrow> vm_binary (\<lambda>lhs rhs. Inr (bvm_val_bool (val_int lhs > val_int rhs))) s
      | BVM_OP_GTEQI \<Rightarrow> vm_binary (\<lambda>lhs rhs. Inr (bvm_val_bool (val_int lhs \<ge> val_int rhs))) s
      | _ \<Rightarrow> bvm_eval_uint env instr s)"

definition with_local :: "(bvm_local \<Rightarrow> fault + bvm_local) \<Rightarrow> bvm \<Rightarrow> bvm_step" where
  "with_local f s = sbind (f (vm_local s)) (\<lambda>l. Inr (BVM_RES_RUN, s\<lparr>vm_local := l\<rparr>))"

definition bvm_ret :: "bvm_val \<Rightarrow> bvm \<Rightarrow> bvm_step" where
  "bvm_ret v s = sbind (bvm_local_ret v (vm_local s)) (\<lambda>(res, l). Inr (res, s\<lparr>vm_local := l\<rparr>))"

definition bvm_op_call :: "bvm_env \<Rightarrow> bvm_instr \<Rightarrow> bvm \<Rightarrow> bvm_step" where
  "bvm_op_call env instr s =
     vm_pop s (\<lambda>v s.
     sbind (func_at s (val_bits v)) (\<lambda>f.
     sbind (bvm_local_call (val_bits v) f (c_int (i_arg instr)) (vm_local s)) (\<lambda>l.
     let s = s\<lparr>vm_local := l\<rparr> in
     case f of
       BvmNative \<Rightarrow>
         sbind (env_native env (val_bits v) s) (\<lambda>(result, s).
         sbind (bvm_ret result s) (\<lambda>(_, s). Inr (BVM_RES_RUN, s)))
     | BvmManaged locals code \<Rightarrow> Inr (BVM_RES_RUN, s))))"

definition bvm_eval_flow :: "bvm_env \<Rightarrow> bvm_instr \<Rightarrow> bvm \<Rightarrow> bvm_step" where
  "bvm_eval_flow env instr s =
     (case i_opcode instr of
        BVM_OP_CALL \<Rightarrow> bvm_op_call env instr s
      | BVM_OP_NEW \<Rightarrow>
          vm_pop s (\<lambda>v s.
          if val_type v \<noteq> BVM_OBJ then vm_push bvm_val_nil s
          else sbind (bvm_obj_create (env_malloc env) (i_arg instr) (val_bits v) (vm_objs s)) (\<lambda>(ob, objs).
               vm_push (bvm_val_obj ob) (s\<lparr>vm_objs := objs\<rparr>)))
      | BVM_OP_RET \<Rightarrow> vm_pop s bvm_ret
      | BVM_OP_ARGC \<Rightarrow> sbind (frame_curr (vm_local s)) (\<lambda>fr. vm_push (bvm_val_int (fr_argc fr)) s)
      | BVM_OP_HALT \<Rightarrow> Inr (BVM_RES_HALT, s)
      | BVM_OP_JMP \<Rightarrow> with_local (bvm_local_jump (i_arg instr)) s
      | BVM_OP_JMPF \<Rightarrow>
          vm_pop s (\<lambda>v s.
          if \<not> bvm_val_truthy (env_fpu env) v then with_local (bvm_local_jump (i_arg instr)) s else vm_run s)
      | _ \<Rightarrow> bvm_eval_int env instr s)"

definition bvm_eval_stack :: "bvm_env \<Rightarrow> bvm_instr \<Rightarrow> bvm \<Rightarrow> bvm_step" where
  "bvm_eval_stack env instr s =
     (case i_opcode instr of
        BVM_OP_PUSHI \<Rightarrow> vm_push (bvm_val_int (i_arg instr)) s
      | BVM_OP_PUSHU \<Rightarrow> vm_push (bvm_val_uint (i_arg instr)) s
      | BVM_OP_PUSHF \<Rightarrow> sbind (fp_result bvm_val_uint (fp_to_uint (env_fpu env) (i_arg instr))) (\<lambda>v. vm_push v s)
      | BVM_OP_PUSHN \<Rightarrow> vm_push bvm_val_nil s
      | BVM_OP_DUP \<Rightarrow> vm_pop s (\<lambda>v s. sbind (vm_push v s) (\<lambda>(_, s). vm_push v s))
      | BVM_OP_POP \<Rightarrow> vm_pop s (\<lambda>_ s. vm_run s)
      | _ \<Rightarrow> bvm_eval_flow env instr s)"

definition bvm_eval_mem :: "bvm_env \<Rightarrow> bvm_instr \<Rightarrow> bvm \<Rightarrow> bvm_step" where
  "bvm_eval_mem env instr s =
     (let arg = c_int (i_arg instr) in
      case i_opcode instr of
        BVM_OP_NOP \<Rightarrow> vm_run s
      | BVM_OP_LOADG \<Rightarrow> sbind (bvm_global_load (vm_global s) arg) (\<lambda>v. vm_push v s)
      | BVM_OP_LOADL \<Rightarrow> sbind (bvm_local_load_var (vm_local s) arg) (\<lambda>v. vm_push v s)
      | BVM_OP_LOADA \<Rightarrow> sbind (bvm_local_load_arg (vm_local s) arg) (\<lambda>v. vm_push v s)
      | BVM_OP_LOADO \<Rightarrow>
          vm_pop s (\<lambda>v s.
          if val_type v \<noteq> BVM_OBJ then vm_push bvm_val_undef s
          else sbind (bvm_obj_load (vm_objs s) (val_bits v) (i_arg instr)) (\<lambda>v. vm_push v s))
      | BVM_OP_LOADV \<Rightarrow>
          vm_pop s (\<lambda>v s.
          if val_type v \<noteq> BVM_OBJ then vm_push bvm_val_undef s
          else sbind (bvm_obj_loadv (vm_objs s) (val_bits v) (i_arg instr)) (\<lambda>v. vm_push v s))
      | BVM_OP_STOREG \<Rightarrow> vm_pop s (\<lambda>v s. sbind (bvm_global_store arg v (vm_global s)) (\<lambda>g. vm_run (s\<lparr>vm_global := g\<rparr>)))
      | BVM_OP_STOREL \<Rightarrow> vm_pop s (\<lambda>v s. with_local (bvm_local_store_var arg v) s)
      | BVM_OP_STOREA \<Rightarrow> vm_pop s (\<lambda>v s. with_local (bvm_local_store_arg arg v) s)
      | BVM_OP_STOREO \<Rightarrow>
          vm_pop s (\<lambda>obj_val s. vm_pop s (\<lambda>v s.
          if val_type obj_val \<noteq> BVM_OBJ then vm_run s
          else sbind (bvm_obj_store (val_bits obj_val) (i_arg instr) v (vm_objs s)) (\<lambda>objs. vm_run (s\<lparr>vm_objs := objs\<rparr>))))
      | BVM_OP_STOREV \<Rightarrow>
          vm_pop s (\<lambda>obj_val s. vm_pop s (\<lambda>v s.
          if val_type obj_val \<noteq> BVM_OBJ then vm_run s
          else sbind (bvm_obj_storev (val_bits obj_val) (i_arg instr) v (vm_objs s)) (\<lambda>objs. vm_run (s\<lparr>vm_objs := objs\<rparr>))))
      | _ \<Rightarrow> bvm_eval_stack env instr s)"

definition bvm_eval :: "bvm_env \<Rightarrow> bvm \<Rightarrow> bvm_step" where
  "bvm_eval env s = sbind (bvm_local_ifetch s) (\<lambda>(instr, s). bvm_eval_mem env instr s)"

text \<open>The loop of \<open>bvm_call\<close>, for at most a number of instructions.\<close>

fun bvm_loop :: "nat \<Rightarrow> bvm_env \<Rightarrow> bvm \<Rightarrow> fault + (bvm_res \<times> bvm)" where
  "bvm_loop 0 env s = Inl OutOfFuel"
| "bvm_loop (Suc n) env s =
     sbind (bvm_eval env s) (\<lambda>(res, s). if res = BVM_RES_RUN then bvm_loop n env s else Inr (res, s))"

definition bvm_call :: "nat \<Rightarrow> bvm_env \<Rightarrow> u64 \<Rightarrow> int \<Rightarrow> bvm \<Rightarrow> fault + (bvm_val \<times> bvm)" where
  "bvm_call n env func argc s =
     sbind (func_at s func) (\<lambda>f.
     sbind (bvm_local_call func f argc (vm_local s)) (\<lambda>l.
     sbind (bvm_loop n env (s\<lparr>vm_local := l\<rparr>)) (\<lambda>(_, s).
     sbind (bvm_local_pop (vm_local s)) (\<lambda>(v, l). Inr (v, s\<lparr>vm_local := l\<rparr>)))))"

section \<open>The program of utils/bvm\<close>

definition bvm_main_func :: "fault + bvm_func" where
  "bvm_main_func =
     (let func = bvm_func_create;
          (v_fnow, func) = bvm_func_local func;
          (v_fnext, func) = bvm_func_local func;
          (v_tempf, func) = bvm_func_local func;
          (_, func) = bvm_func_emitu BVM_OP_PUSHU 0 func;
          (_, func) = bvm_func_emitu BVM_OP_STOREL v_fnow func;
          (_, func) = bvm_func_emitu BVM_OP_PUSHU 1 func;
          (_, func) = bvm_func_emitu BVM_OP_STOREL v_fnext func;
          (jmp_cond, func) = bvm_func_emit BVM_OP_JMP func;
          (loop_start, func) = bvm_func_emitu BVM_OP_LOADL v_fnow func;
          (_, func) = bvm_func_emitu BVM_OP_LOADL v_fnext func;
          (_, func) = bvm_func_emit BVM_OP_ADDI func;
          (_, func) = bvm_func_emitu BVM_OP_STOREL v_tempf func;
          (_, func) = bvm_func_emitu BVM_OP_LOADL v_fnext func;
          (_, func) = bvm_func_emitu BVM_OP_STOREL v_fnow func;
          (_, func) = bvm_func_emitu BVM_OP_LOADL v_tempf func;
          (_, func) = bvm_func_emitu BVM_OP_STOREL v_fnext func;
          (cond_start, func) = bvm_func_emitu BVM_OP_LOADA 0 func
      in sbind (bvm_func_jump jmp_cond cond_start func) (\<lambda>func.
      let (_, func) = bvm_func_emiti BVM_OP_PUSHI 1 func;
          (_, func) = bvm_func_emit BVM_OP_SUBI func;
          (_, func) = bvm_func_emit BVM_OP_DUP func;
          (_, func) = bvm_func_emitu BVM_OP_STOREA 0 func;
          (_, func) = bvm_func_emiti BVM_OP_PUSHI 0 func;
          (_, func) = bvm_func_emit BVM_OP_GTI func;
          (_, func) = bvm_func_emit BVM_OP_NOT func;
          (_, func) = bvm_func_emitu BVM_OP_JMPF loop_start func;
          (_, func) = bvm_func_emitu BVM_OP_LOADL v_fnext func;
          (_, func) = bvm_func_emit BVM_OP_RET func
      in Inr func))"

text \<open>\<open>main\<close>, for any argument in the place of 10 and with the function at any address.\<close>

definition bvm_main :: "nat \<Rightarrow> bvm_env \<Rightarrow> u64 \<Rightarrow> u64 \<Rightarrow> fault + (bvm_val \<times> bvm)" where
  "bvm_main turns env func_addr n =
     sbind bvm_main_func (\<lambda>func.
     sbind (bvm_local_push (bvm_val_int n) bvm_local_init) (\<lambda>local.
     bvm_call turns env func_addr 1
       \<lparr>vm_local = local, vm_global = bvm_global_init, vm_objs = [], vm_funcs = [func_addr \<mapsto> func]\<rparr>))"

end
