(* ===== verification/Bvm_Props.thy ===== *)
theory Bvm_Props
  imports Bvm
begin

text \<open>
  What the bytecode machine of theory Bvm does: the program that its utility runs computes Fibonacci
  numbers, no instruction makes a value of the two types that no constructor of values has, and two
  consequences of where \<open>bvm_local_call\<close> and \<open>bvm_local_ret\<close> put the variables and the top of the stack.
\<close>

text \<open>Surroundings for examples.\<close>

definition plain_env :: bvm_env where
  "plain_env = \<lparr>env_fpu = \<lparr>fp_add = (\<lambda>_ _. 0), fp_sub = (\<lambda>_ _. 0), fp_div = (\<lambda>_ _. 0), fp_mul = (\<lambda>_ _. 0), fp_mod = (\<lambda>_ _. 0),
     fp_neg = (\<lambda>_. 0), fp_gt = (\<lambda>_ _. False), fp_gteq = (\<lambda>_ _. False), fp_nonzero = (\<lambda>_. False), fp_of_int = (\<lambda>_. 0), fp_of_uint = (\<lambda>_. 0),
     fp_to_int = (\<lambda>_. None), fp_to_uint = (\<lambda>_. None)\<rparr>, env_malloc = (\<lambda>_ _. 1), env_native = (\<lambda>_ s. Inr (bvm_val_nil, s))\<rparr>"

section \<open>The Fibonacci program\<close>

fun fib :: "nat \<Rightarrow> nat" where
  "fib 0 = 0"
| "fib (Suc 0) = 1"
| "fib (Suc (Suc n)) = fib n + fib (Suc n)"

definition fib_code :: "bvm_instr list" where
  "fib_code =
    [\<lparr>i_opcode = BVM_OP_PUSHU, i_arg = 0\<rparr>, \<lparr>i_opcode = BVM_OP_STOREL, i_arg = 0\<rparr>,
     \<lparr>i_opcode = BVM_OP_PUSHU, i_arg = 1\<rparr>, \<lparr>i_opcode = BVM_OP_STOREL, i_arg = 1\<rparr>,
     \<lparr>i_opcode = BVM_OP_JMP, i_arg = 13\<rparr>, \<lparr>i_opcode = BVM_OP_LOADL, i_arg = 0\<rparr>,
     \<lparr>i_opcode = BVM_OP_LOADL, i_arg = 1\<rparr>, \<lparr>i_opcode = BVM_OP_ADDI, i_arg = 0\<rparr>,
     \<lparr>i_opcode = BVM_OP_STOREL, i_arg = 2\<rparr>, \<lparr>i_opcode = BVM_OP_LOADL, i_arg = 1\<rparr>,
     \<lparr>i_opcode = BVM_OP_STOREL, i_arg = 0\<rparr>, \<lparr>i_opcode = BVM_OP_LOADL, i_arg = 2\<rparr>,
     \<lparr>i_opcode = BVM_OP_STOREL, i_arg = 1\<rparr>, \<lparr>i_opcode = BVM_OP_LOADA, i_arg = 0\<rparr>,
     \<lparr>i_opcode = BVM_OP_PUSHI, i_arg = 1\<rparr>, \<lparr>i_opcode = BVM_OP_SUBI, i_arg = 0\<rparr>,
     \<lparr>i_opcode = BVM_OP_DUP, i_arg = 0\<rparr>, \<lparr>i_opcode = BVM_OP_STOREA, i_arg = 0\<rparr>,
     \<lparr>i_opcode = BVM_OP_PUSHI, i_arg = 0\<rparr>, \<lparr>i_opcode = BVM_OP_GTI, i_arg = 0\<rparr>,
     \<lparr>i_opcode = BVM_OP_NOT, i_arg = 0\<rparr>, \<lparr>i_opcode = BVM_OP_JMPF, i_arg = 5\<rparr>,
     \<lparr>i_opcode = BVM_OP_LOADL, i_arg = 1\<rparr>, \<lparr>i_opcode = BVM_OP_RET, i_arg = 0\<rparr>]"

lemma bvm_main_code: "bvm_main_func = Inr (BvmManaged 3 fib_code)"
  by (simp add: bvm_main_func_def bvm_func_create_def bvm_func_local_def bvm_func_emitu_def bvm_func_emiti_def bvm_func_emit_def
    bvm_func_jump_def Let_def fib_code_def)

text \<open>A state of the program: one frame, one argument, three variables from the fourth slot of the stack on.\<close>

definition fib_at :: "u64 \<Rightarrow> bvm \<Rightarrow> (int \<Rightarrow> bvm_val) \<Rightarrow> int \<Rightarrow> u64 \<Rightarrow> bvm" where
  "fib_at F s stk sp ip = s\<lparr>vm_local := \<lparr>lo_stack = stk, lo_top = sp,
     lo_frame = (lo_frame (vm_local s))(0 := \<lparr>fr_ip = ip, fr_args = 0, fr_argc = 1, fr_vars = 4, fr_varc = 3, fr_func = F\<rparr>), lo_curr = Some 0\<rparr>\<rparr>"

lemma fib_at_push: "0 \<le> sp \<Longrightarrow> sp < 4096 \<Longrightarrow> vm_push v (fib_at F s stk sp ip) = Inr (BVM_RES_RUN, fib_at F s (stk(sp := v)) (sp + 1) ip)"
  by (simp add: fib_at_def vm_push_def bvm_local_push_def stack_set_def BVM_MAX_STACK_def)

lemma fib_at_pop: "0 < sp \<Longrightarrow> sp \<le> 4096 \<Longrightarrow> vm_pop (fib_at F s stk sp ip) k = k (stk (sp - 1)) (fib_at F s stk (sp - 1) ip)"
  by (simp add: fib_at_def vm_pop_def bvm_local_pop_def stack_get_def BVM_MAX_STACK_def)

lemma fib_at_load:
  "0 \<le> 4 + i \<Longrightarrow> 4 + i < 4096 \<Longrightarrow> bvm_local_load_var (vm_local (fib_at F s stk sp ip)) i = Inr (stk (4 + i))"
  "0 \<le> j \<Longrightarrow> j < 4096 \<Longrightarrow> bvm_local_load_arg (vm_local (fib_at F s stk sp ip)) j = Inr (stk j)"
  by (simp_all add: fib_at_def bvm_local_load_var_def bvm_local_load_arg_def frame_curr_def stack_get_def BVM_MAX_STACK_def)

lemma fib_at_store:
  "0 \<le> 4 + i \<Longrightarrow> 4 + i < 4096 \<Longrightarrow> with_local (bvm_local_store_var i v) (fib_at F s stk sp ip) = Inr (BVM_RES_RUN, fib_at F s (stk(4 + i := v)) sp ip)"
  "0 \<le> j \<Longrightarrow> j < 4096 \<Longrightarrow> with_local (bvm_local_store_arg j v) (fib_at F s stk sp ip) = Inr (BVM_RES_RUN, fib_at F s (stk(j := v)) sp ip)"
  by (simp_all add: fib_at_def with_local_def bvm_local_store_var_def bvm_local_store_arg_def frame_curr_def stack_set_def BVM_MAX_STACK_def)

lemma fib_at_jump: "with_local (bvm_local_jump a) (fib_at F s stk sp ip) = Inr (BVM_RES_RUN, fib_at F s stk sp a)"
  by (simp add: fib_at_def with_local_def bvm_local_jump_def frame_curr_def set_frame_curr_def BVM_MAX_FRAME_def)

definition fib_loaded :: "u64 \<Rightarrow> bvm \<Rightarrow> bool" where
  "fib_loaded F s \<longleftrightarrow> F \<noteq> 0 \<and> vm_funcs s F = Some (BvmManaged 3 fib_code)"

lemma fib_at_fetch:
  assumes "fib_loaded F s" "unat ip < 24"
  shows "bvm_local_ifetch (fib_at F s stk sp ip) = Inr (fib_code ! unat ip, fib_at F s stk sp (ip + 1))"
proof -
  have "length fib_code = 24" by (simp add: fib_code_def)
  then show ?thesis using assms
    by (simp add: fib_at_def fib_loaded_def bvm_local_ifetch_def frame_curr_def func_at_def set_frame_curr_def BVM_MAX_FRAME_def)
qed

lemmas fib_at_step = fib_at_push fib_at_pop fib_at_load fib_at_store fib_at_jump

lemmas eval_defs = bvm_eval_mem_def bvm_eval_stack_def bvm_eval_flow_def bvm_eval_int_def bvm_eval_uint_def bvm_eval_num_def
  bvm_eval_conv_def bvm_eval_test_def bvm_eval_bits_def

lemma fib_eval:
  assumes "fib_loaded F s" "unat ip < 24"
  shows "bvm_eval env (fib_at F s stk sp ip) = bvm_eval_mem env (fib_code ! unat ip) (fib_at F s stk sp (ip + 1))"
  using fib_at_fetch [OF assms] by (simp add: bvm_eval_def)

lemma c_int_small: "c_int 0 = 0" "c_int 1 = 1" "c_int 2 = 2"
  by (simp_all add: c_int_def)

lemma fib_body:
  assumes F: "fib_loaded F s" and v: "stk 4 = bvm_val_int x" "stk 5 = bvm_val_int y" and fit: "int64_fits (sint x + sint y)"
  shows "\<exists>stk'. bvm_loop (8 + n) env (fib_at F s stk 1 5) = bvm_loop n env (fib_at F s stk' 1 13) \<and>
    stk' 0 = stk 0 \<and> stk' 4 = bvm_val_int y \<and> stk' 5 = bvm_val_int (x + y)"
proof -
  have e: "8 + n = Suc (Suc (Suc (Suc (Suc (Suc (Suc (Suc n)))))))" by simp
  show ?thesis unfolding e using v fit
    by (simp add: fib_eval [OF F] fib_code_def eval_defs c_int_small fib_at_step vm_binary_def int64_val_def val_int_def bvm_val_defs)
      (rule exI, rule conjI, rule refl, simp)
qed

lemma sint_word_of_int_small: "- (2 ^ 63) \<le> i \<Longrightarrow> i < 2 ^ 63 \<Longrightarrow> sint (word_of_int i :: u64) = i"
  by (subst signed_of_int) (simp add: signed_take_bit_int_eq_self)

lemma fib_cond:
  assumes F: "fib_loaded F s" and v: "stk 0 = bvm_val_int a" and fit: "int64_fits (sint a - 1)"
  shows "\<exists>stk'. bvm_loop (9 + n) env (fib_at F s stk 1 13) =
      (if 0 < sint a - 1 then bvm_loop n env (fib_at F s stk' 1 5) else bvm_loop n env (fib_at F s stk' 1 22)) \<and>
    stk' 0 = bvm_val_int (a - 1) \<and> stk' 4 = stk 4 \<and> stk' 5 = stk 5"
proof -
  have e: "9 + n = Suc (Suc (Suc (Suc (Suc (Suc (Suc (Suc (Suc n))))))))" by simp
  have si: "sint (a - 1) = sint a - 1"
  proof -
    have "sint (word_of_int (sint a - 1) :: u64) = sint a - 1" using fit by (intro sint_word_of_int_small) (auto simp: int64_fits_def)
    then show ?thesis by simp
  qed
  show ?thesis unfolding e using v fit
    by (simp add: fib_eval [OF F] fib_code_def eval_defs c_int_small fib_at_step vm_binary_def vm_unary_def vm_run_def int64_val_def val_int_def bvm_val_defs
        bvm_val_truthy_def si Let_def)
      (intro conjI impI; rule exI, rule conjI, rule refl, simp)
qed

lemma fib_return:
  assumes F: "fib_loaded F s" and v: "stk 5 = bvm_val_int y"
  shows "\<exists>t. bvm_loop (2 + n) env (fib_at F s stk 1 22) = Inr (BVM_RES_RET, t) \<and> lo_top (vm_local t) = 1 \<and> lo_stack (vm_local t) 0 = bvm_val_int y"
proof -
  have e: "2 + n = Suc (Suc n)" by simp
  show ?thesis unfolding e using v
    by (simp add: fib_eval [OF F] fib_code_def eval_defs c_int_small fib_at_step bvm_val_defs bvm_ret_def)
      (simp add: fib_at_def bvm_local_ret_def bvm_local_push_def stack_set_def BVM_MAX_STACK_def)
qed

text \<open>The loop, from its condition on, with \<open>k\<close> turns to go.\<close>

lemma fib_mono: "m \<le> n \<Longrightarrow> fib m \<le> fib n"
proof (induction n rule: nat_induct)
  case (Suc n)
  have "fib n \<le> fib (Suc n)" by (cases n) auto
  then show ?case using Suc by (cases "m = Suc n") auto
qed simp

lemma fib_loop:
  assumes F: "fib_loaded F s"
  shows "stk 0 = bvm_val_int (word_of_int (int k + 1)) \<Longrightarrow> stk 4 = bvm_val_int (of_nat (fib i)) \<Longrightarrow> stk 5 = bvm_val_int (of_nat (fib (Suc i))) \<Longrightarrow>
    int k + 1 < 2 ^ 63 \<Longrightarrow> fib (Suc i + k) < 2 ^ 63 \<Longrightarrow>
    \<exists>t. bvm_loop (17 * k + 11 + n) env (fib_at F s stk 1 13) = Inr (BVM_RES_RET, t) \<and> lo_top (vm_local t) = 1 \<and>
      lo_stack (vm_local t) 0 = bvm_val_int (of_nat (fib (Suc i + k)))"
proof (induction k arbitrary: stk i)
  case 0
  have fit: "int64_fits (sint (1 :: u64) - 1)" by (simp add: int64_fits_def)
  obtain stk' where c: "bvm_loop (9 + (2 + n)) env (fib_at F s stk 1 13) = bvm_loop (2 + n) env (fib_at F s stk' 1 22)" "stk' 5 = stk 5"
    using fib_cond [OF F, of stk 1 "2 + n" env] 0(1) fit by auto
  from fib_return [OF F, of stk' "of_nat (fib (Suc i))" n env] c 0(3) show ?case by simp
next
  case (Suc k)
  let ?a = "word_of_int (int (Suc k) + 1) :: u64"
  have sa: "sint ?a = int (Suc k) + 1" using Suc.prems(4) by (intro sint_word_of_int_small) auto
  have fit: "int64_fits (sint ?a - 1)" using Suc.prems(4) sa by (simp add: int64_fits_def)
  have le: "fib (Suc (Suc i)) \<le> fib (Suc i + Suc k)" by (rule fib_mono) simp
  have small: "fib (Suc (Suc i)) < 2 ^ 63" using le Suc.prems(5) by simp
  have si: "sint (of_nat (fib j) :: u64) = int (fib j)" if "fib j \<le> fib (Suc (Suc i))" for j
    using sint_word_of_int_small [of "int (fib j)"] that small by simp
  obtain stk1 where c: "bvm_loop (9 + (8 + (17 * k + 11 + n))) env (fib_at F s stk 1 13) = bvm_loop (8 + (17 * k + 11 + n)) env (fib_at F s stk1 1 5)"
    "stk1 0 = bvm_val_int (?a - 1)" "stk1 4 = stk 4" "stk1 5 = stk 5"
    using fib_cond [OF F, of stk ?a "8 + (17 * k + 11 + n)" env] Suc.prems(1) fit sa by auto
  have fits: "int64_fits (sint (of_nat (fib i) :: u64) + sint (of_nat (fib (Suc i)) :: u64))"
    using small si [of i] si [of "Suc i"] by (simp add: int64_fits_def)
  obtain stk2 where b: "bvm_loop (8 + (17 * k + 11 + n)) env (fib_at F s stk1 1 5) = bvm_loop (17 * k + 11 + n) env (fib_at F s stk2 1 13)"
    "stk2 0 = stk1 0" "stk2 4 = bvm_val_int (of_nat (fib (Suc i)))" "stk2 5 = bvm_val_int (of_nat (fib i) + of_nat (fib (Suc i)))"
    using fib_body [OF F _ _ fits, of stk1 "17 * k + 11 + n" env] c(3,4) Suc.prems(2,3) by auto
  have "stk2 0 = bvm_val_int (word_of_int (int k + 1))" using b(2) c(2) by (simp add: add.commute)
  moreover have "stk2 5 = bvm_val_int (of_nat (fib (Suc (Suc i))))" using b(4) by simp
  moreover have "fib (Suc (Suc i) + k) < 2 ^ 63" using Suc.prems(5) by simp
  ultimately obtain t where "bvm_loop (17 * k + 11 + n) env (fib_at F s stk2 1 13) = Inr (BVM_RES_RET, t)" "lo_top (vm_local t) = 1"
      "lo_stack (vm_local t) 0 = bvm_val_int (of_nat (fib (Suc (Suc i) + k)))"
    using Suc.IH [of stk2 "Suc i"] b(3) Suc.prems(4) by auto
  then show ?case using c(1) b(1) by (intro exI [of _ t]) (simp add: algebra_simps)
qed

lemma fib_start:
  assumes F: "fib_loaded F s"
  shows "\<exists>stk'. bvm_loop (5 + n) env (fib_at F s stk 1 0) = bvm_loop n env (fib_at F s stk' 1 13) \<and>
    stk' 0 = stk 0 \<and> stk' 4 = bvm_val_int 0 \<and> stk' 5 = bvm_val_int 1"
proof -
  have e: "5 + n = Suc (Suc (Suc (Suc (Suc n))))" by simp
  show ?thesis unfolding e
    by (simp add: fib_eval [OF F] fib_code_def eval_defs c_int_small fib_at_step bvm_val_defs)
      (rule exI, rule conjI, rule refl, simp)
qed

lemma bvm_main_start:
  assumes "F \<noteq> 0"
  obtains s stk where "fib_loaded F s" "stk 0 = bvm_val_int n"
    "bvm_main turns env F n = sbind (bvm_loop turns env (fib_at F s stk 1 0)) (\<lambda>(_, s). sbind (bvm_local_pop (vm_local s)) (\<lambda>(v, l). Inr (v, s\<lparr>vm_local := l\<rparr>)))"
proof -
  let ?v = "bvm_val_int n"
  let ?s = "\<lparr>vm_local = bvm_local_init, vm_global = bvm_global_init, vm_objs = [], vm_funcs = [F \<mapsto> BvmManaged 3 fib_code]\<rparr>"
  let ?stk = "((\<lambda>_. bvm_val_undef)(0 := ?v))(4 := bvm_val_nil, 5 := bvm_val_nil, 6 := bvm_val_nil)"
  have u: "[0..<3 :: nat] = [0, 1, 2]" by (simp add: upt_rec)
  have "bvm_main turns env F n = sbind (bvm_loop turns env (fib_at F ?s ?stk 1 0)) (\<lambda>(_, s). sbind (bvm_local_pop (vm_local s)) (\<lambda>(v, l). Inr (v, s\<lparr>vm_local := l\<rparr>)))"
    using assms
    by (simp add: bvm_main_def bvm_main_code bvm_call_def func_at_def bvm_local_push_def stack_set_def bvm_local_init_def BVM_MAX_STACK_def
      bvm_local_call_def set_frame_curr_def BVM_MAX_FRAME_def u fib_at_def Let_def)
  moreover have "fib_loaded F ?s" using assms by (simp add: fib_loaded_def)
  ultimately show thesis using that [of ?s ?stk] by simp
qed



section \<open>The types of values\<close>

definition plain_tag :: "bvm_val \<Rightarrow> bool" where
  "plain_tag v \<longleftrightarrow> val_type v \<noteq> BVM_UINT \<and> val_type v \<noteq> BVM_NUM"

definition plain_objs :: "bvm_objs \<Rightarrow> bool" where
  "plain_objs objs \<longleftrightarrow> (\<forall>a ob v. (a, ob) \<in> set objs \<longrightarrow> Some v \<in> set (obj_vals ob) \<longrightarrow> plain_tag v)"

definition plain :: "bvm \<Rightarrow> bool" where
  "plain s \<longleftrightarrow> (\<forall>i. plain_tag (lo_stack (vm_local s) i)) \<and> (\<forall>v\<in>snd ` set (vm_global s). plain_tag v) \<and> plain_objs (vm_objs s) \<and>
     (\<forall>a. vm_funcs s a \<noteq> Some BvmNative)"

definition steps_plain :: "fault + ('r \<times> bvm) \<Rightarrow> bool" where
  "steps_plain r = (case r of Inl f \<Rightarrow> True | Inr (_, s) \<Rightarrow> plain s)"

lemma steps_plain_simps [simp]: "steps_plain (Inl f)" "steps_plain (Inr (r, s)) = plain s"
  by (simp_all add: steps_plain_def)

lemma steps_plain_bind: "(\<And>x. m = Inr x \<Longrightarrow> steps_plain (k x)) \<Longrightarrow> steps_plain (sbind m k)"
  by (cases m) auto

lemma plain_vals [simp]:
  "plain_tag bvm_val_nil" "plain_tag bvm_val_undef" "plain_tag (bvm_val_int v)" "plain_tag (bvm_val_uint v)" "plain_tag (bvm_val_num v)"
  "plain_tag (bvm_val_obj a)" "plain_tag (bvm_val_func a)" "plain_tag (bvm_val_bool b)"
  by (simp_all add: plain_tag_def bvm_val_defs)

lemma plain_push: "plain s \<Longrightarrow> plain_tag v \<Longrightarrow> steps_plain (vm_push v s)"
  by (auto simp: vm_push_def bvm_local_push_def stack_set_def plain_def)

lemma plain_pop:
  assumes "plain s" "\<And>v t. plain t \<Longrightarrow> plain_tag v \<Longrightarrow> steps_plain (k v t)"
  shows "steps_plain (vm_pop s k)"
  using assms by (auto simp: vm_pop_def bvm_local_pop_def stack_get_def Let_def plain_def)

lemma plain_run [simp]: "steps_plain (vm_run s) = plain s"
  by (simp add: vm_run_def)

lemma plain_unary: "plain s \<Longrightarrow> (\<And>v r. f v = Inr r \<Longrightarrow> plain_tag r) \<Longrightarrow> steps_plain (vm_unary f s)"
  unfolding vm_unary_def by (intro plain_pop steps_plain_bind plain_push)

lemma plain_binary: "plain s \<Longrightarrow> (\<And>v w r. f v w = Inr r \<Longrightarrow> plain_tag r) \<Longrightarrow> steps_plain (vm_binary f s)"
  unfolding vm_binary_def by (intro plain_pop steps_plain_bind plain_push)

lemma plain_with_local:
  assumes "plain s" "\<And>l. f (vm_local s) = Inr l \<Longrightarrow> (\<forall>i. plain_tag (lo_stack l i))"
  shows "steps_plain (with_local f s)"
  using assms by (cases "f (vm_local s)") (auto simp: with_local_def plain_def)

lemma plain_results:
  "int64_val i = Inr r \<Longrightarrow> plain_tag r" "fp_result bvm_val_int x = Inr r \<Longrightarrow> plain_tag r" "fp_result bvm_val_uint x = Inr r \<Longrightarrow> plain_tag r"
  "bvm_divi v w = Inr r \<Longrightarrow> plain_tag r" "bvm_modi v w = Inr r \<Longrightarrow> plain_tag r"
  by (auto simp: int64_val_def fp_result_def bvm_divi_def bvm_modi_def split: if_splits option.splits)

lemma plain_eval_bits: "plain s \<Longrightarrow> steps_plain (bvm_eval_bits env i s)"
  unfolding bvm_eval_bits_def Let_def
  by (cases "i_opcode i"; simp; (intro plain_unary plain_binary; auto split: if_splits)?)

lemma plain_eval_test: "plain s \<Longrightarrow> steps_plain (bvm_eval_test env i s)"
  unfolding bvm_eval_test_def Let_def
  by (cases "i_opcode i"; simp add: plain_eval_bits; (intro plain_unary plain_pop; auto intro!: steps_plain_bind plain_push)?)

lemma plain_eval_conv: "plain s \<Longrightarrow> steps_plain (bvm_eval_conv env i s)"
  unfolding bvm_eval_conv_def Let_def
  by (cases "i_opcode i"; simp add: plain_eval_test; (intro plain_unary; auto dest: plain_results)?)

lemma plain_eval_num: "plain s \<Longrightarrow> steps_plain (bvm_eval_num env i s)"
  unfolding bvm_eval_num_def Let_def
  by (cases "i_opcode i"; simp add: plain_eval_conv; (intro plain_unary plain_binary; auto)?)

lemma plain_eval_uint: "plain s \<Longrightarrow> steps_plain (bvm_eval_uint env i s)"
  unfolding bvm_eval_uint_def Let_def
  by (cases "i_opcode i"; simp add: plain_eval_num; (intro plain_unary plain_binary; auto split: if_splits)?)

lemma plain_eval_int: "plain s \<Longrightarrow> steps_plain (bvm_eval_int env i s)"
  unfolding bvm_eval_int_def Let_def
  by (cases "i_opcode i"; simp add: plain_eval_uint; (intro plain_unary plain_binary; auto dest: plain_results)?)

lemma for_each_stack:
  assumes "for_each (\<lambda>i. stack_set (g i) bvm_val_nil) xs l = Inr l'" "\<forall>i. plain_tag (lo_stack l i)"
  shows "\<forall>i. plain_tag (lo_stack l' i)"
  using assms by (rule for_each_invariant) (auto simp: stack_set_def split: if_splits)

lemma plain_local_call:
  assumes "bvm_local_call a f argc l = Inr l'" "\<forall>i. plain_tag (lo_stack l i)"
  shows "\<forall>i. plain_tag (lo_stack l' i)"
  using assms
  by (cases f) (auto simp: bvm_local_call_def Let_def sbind_Inr_iff set_frame_curr_def split: option.splits if_splits dest!: for_each_stack)

lemma plain_ret: "plain s \<Longrightarrow> plain_tag v \<Longrightarrow> steps_plain (bvm_ret v s)"
  by (auto simp: bvm_ret_def bvm_local_ret_def bvm_local_push_def stack_set_def plain_def)

lemma plain_local: "plain s \<Longrightarrow> \<forall>i. plain_tag (lo_stack l i) \<Longrightarrow> plain (s\<lparr>vm_local := l\<rparr>)"
  by (simp add: plain_def)

lemma plain_stack: "plain s \<Longrightarrow> \<forall>i. plain_tag (lo_stack (vm_local s) i)"
  by (simp add: plain_def)

lemma plain_op_call:
  assumes "plain s"
  shows "steps_plain (bvm_op_call env i s)"
  unfolding bvm_op_call_def
proof (rule plain_pop [OF assms(1)], intro steps_plain_bind, unfold Let_def)
  fix v t f l assume t: "plain t" and f: "func_at t (val_bits v) = Inr f"
    and l: "bvm_local_call (val_bits v) f (c_int (i_arg i)) (vm_local t) = Inr l"
  have p: "plain (t\<lparr>vm_local := l\<rparr>)" using plain_local [OF t] plain_local_call [OF l plain_stack [OF t]] by blast
  have "f \<noteq> BvmNative" using f t by (auto simp: func_at_def plain_def split: if_splits option.splits)
  then show "steps_plain (case f of
       BvmNative \<Rightarrow> sbind (env_native env (val_bits v) (t\<lparr>vm_local := l\<rparr>)) (\<lambda>(result, s). sbind (bvm_ret result s) (\<lambda>(_, s). Inr (BVM_RES_RUN, s)))
     | BvmManaged locals code \<Rightarrow> Inr (BVM_RES_RUN, t\<lparr>vm_local := l\<rparr>))"
    using p by (cases f) simp_all
qed

lemma plain_obj_create:
  assumes "bvm_obj_create m n p objs = Inr (a, objs')" "plain_objs objs"
  shows "plain_objs objs'"
  using assms by (auto simp: bvm_obj_create_def Let_def sbind_Inr_iff plain_objs_def)

lemma plain_eval_flow:
  assumes "plain s"
  shows "steps_plain (bvm_eval_flow env i s)"
proof (cases "i_opcode i = BVM_OP_CALL \<or> i_opcode i = BVM_OP_NEW \<or> i_opcode i = BVM_OP_RET \<or> i_opcode i = BVM_OP_ARGC \<or>
    i_opcode i = BVM_OP_HALT \<or> i_opcode i = BVM_OP_JMP \<or> i_opcode i = BVM_OP_JMPF")
  case False
  then show ?thesis unfolding bvm_eval_flow_def using plain_eval_int [OF assms(1), of env i] by (cases "i_opcode i") simp_all
next
  case True
  have jump: "steps_plain (with_local (bvm_local_jump a) t)" if "plain t" for a t
    using plain_stack [OF that] by (intro plain_with_local that) (auto simp: bvm_local_jump_def sbind_Inr_iff set_frame_curr_def split: option.splits if_splits)
  have new: "plain (t\<lparr>vm_objs := objs\<rparr>)" if "plain t" "bvm_obj_create m n p (vm_objs t) = Inr (a, objs)" for m n p a t objs
    using plain_obj_create [OF that(2)] that(1) by (simp add: plain_def)
  from True show ?thesis unfolding bvm_eval_flow_def
    by (elim disjE) (auto simp: assms plain_op_call jump intro!: plain_pop plain_ret plain_push steps_plain_bind new)
qed

lemma plain_push_twice: "plain s \<Longrightarrow> plain_tag v \<Longrightarrow> steps_plain (sbind (vm_push v s) (\<lambda>(_, s). vm_push v s))"
  using plain_push [of s v] plain_push [of _ v] by (cases "vm_push v s") auto

lemma plain_push_result: "plain s \<Longrightarrow> (\<And>v. m = Inr v \<Longrightarrow> plain_tag v) \<Longrightarrow> steps_plain (sbind m (\<lambda>v. vm_push v s))"
  by (intro steps_plain_bind plain_push)

lemma plain_eval_stack: "plain s \<Longrightarrow> steps_plain (bvm_eval_stack env i s)"
  unfolding bvm_eval_stack_def
  by (cases "i_opcode i"; simp add: plain_eval_flow plain_push plain_push_result plain_results; (rule plain_pop; simp add: plain_push_twice)?)

lemma obj_at_in: "obj_at objs a = Inr ob \<Longrightarrow> (a, ob) \<in> set objs"
  by (auto simp: obj_at_def split: if_splits option.splits dest: map_of_SomeD)

lemma plain_obj_val: "plain_objs objs \<Longrightarrow> obj_at objs a = Inr ob \<Longrightarrow> obj_val ob i = Inr v \<Longrightarrow> plain_tag v"
  unfolding plain_objs_def obj_val_def by (auto split: if_splits option.splits dest!: obj_at_in) (metis nth_mem)

lemma plain_obj_load: "plain_objs objs \<Longrightarrow> bvm_obj_load objs a i = Inr v \<Longrightarrow> plain_tag v"
  by (auto simp: bvm_obj_load_def sbind_Inr_iff split: if_splits dest: plain_obj_val)

lemma plain_obj_loadv: "plain_objs objs \<Longrightarrow> obj_loadv d objs a i = Inr v \<Longrightarrow> plain_tag v"
  by (induction d arbitrary: a) (auto simp: sbind_Inr_iff split: if_splits dest: plain_obj_val)

lemma plain_obj_set:
  assumes "plain_objs objs" "plain_tag v" "obj_at objs a = Inr ob" "obj_set ob i v = Inr ob'"
  shows "plain_objs ((a, ob') # objs)"
  using assms set_update_subset_insert [of "obj_vals ob" "unat i" "Some v"] obj_at_in [OF assms(3)]
  unfolding plain_objs_def obj_set_def by (auto split: if_splits)

lemma plain_obj_store: "plain_objs objs \<Longrightarrow> plain_tag v \<Longrightarrow> bvm_obj_store a i v objs = Inr objs' \<Longrightarrow> plain_objs objs'"
  by (auto simp: bvm_obj_store_def sbind_Inr_iff split: if_splits dest: plain_obj_set)

lemma plain_obj_storev: "plain_objs objs \<Longrightarrow> plain_tag v \<Longrightarrow> obj_storev d a i v objs = Inr objs' \<Longrightarrow> plain_objs objs'"
proof (induction d arbitrary: a objs)
  case (Suc d)
  show ?case
    using Suc.prems(3) Suc.IH [OF _ Suc.prems(2)] Suc.prems(1) plain_obj_set [OF Suc.prems(1,2)]
    by (auto simp: sbind_Inr_iff split: if_splits) blast
qed simp

lemma plain_global_load: "plain s \<Longrightarrow> bvm_global_load (vm_global s) i = Inr v \<Longrightarrow> plain_tag v"
  by (auto simp: plain_def bvm_global_load_def split: if_splits)

lemma plain_global_store:
  assumes "plain s" "plain_tag v" "bvm_global_store i v (vm_global s) = Inr g"
  shows "plain (s\<lparr>vm_global := g\<rparr>)"
  using assms set_update_subset_insert [of "vm_global s" "nat i" "(fst (vm_global s ! nat i), v)"]
  by (auto simp: plain_def bvm_global_store_def split: if_splits)

lemma plain_loads:
  "plain s \<Longrightarrow> bvm_local_load_var (vm_local s) i = Inr v \<Longrightarrow> plain_tag v"
  "plain s \<Longrightarrow> bvm_local_load_arg (vm_local s) i = Inr v \<Longrightarrow> plain_tag v"
  by (auto simp: plain_def bvm_local_load_var_def bvm_local_load_arg_def stack_get_def sbind_Inr_iff split: if_splits)

lemma plain_stores:
  "plain s \<Longrightarrow> plain_tag v \<Longrightarrow> steps_plain (with_local (bvm_local_store_var i v) s)"
  "plain s \<Longrightarrow> plain_tag v \<Longrightarrow> steps_plain (with_local (bvm_local_store_arg i v) s)"
  by (auto intro!: plain_with_local simp: plain_stack bvm_local_store_var_def bvm_local_store_arg_def stack_set_def sbind_Inr_iff split: if_splits)

lemma plain_set_objs: "plain s \<Longrightarrow> plain_objs objs \<Longrightarrow> plain (s\<lparr>vm_objs := objs\<rparr>)" "plain s \<Longrightarrow> plain_objs (vm_objs s)"
  by (simp_all add: plain_def)

lemma plain_run_objs:
  "plain s \<Longrightarrow> (\<And>x. m = Inr x \<Longrightarrow> plain_objs x) \<Longrightarrow> steps_plain (sbind m (\<lambda>objs. vm_run (s\<lparr>vm_objs := objs\<rparr>)))"
  by (rule steps_plain_bind) (simp add: plain_set_objs)

lemma plain_store_objs:
  assumes "plain s" "plain_tag v"
  shows "steps_plain (sbind (bvm_obj_store a i v (vm_objs s)) (\<lambda>objs. vm_run (s\<lparr>vm_objs := objs\<rparr>)))"
    "steps_plain (sbind (bvm_obj_storev a i v (vm_objs s)) (\<lambda>objs. vm_run (s\<lparr>vm_objs := objs\<rparr>)))"
    "steps_plain (sbind (bvm_global_store j v (vm_global s)) (\<lambda>g. vm_run (s\<lparr>vm_global := g\<rparr>)))"
  subgoal using plain_obj_store [OF plain_set_objs(2) [OF assms(1)] assms(2)] by (intro plain_run_objs assms(1)) blast
  subgoal using plain_obj_storev [OF plain_set_objs(2) [OF assms(1)] assms(2)] unfolding bvm_obj_storev_def by (intro plain_run_objs assms(1)) blast
  subgoal by (rule steps_plain_bind) (simp add: plain_global_store [OF assms])
  done

lemma plain_load_objs:
  assumes "plain s"
  shows "steps_plain (sbind (bvm_obj_load (vm_objs s) a i) (\<lambda>v. vm_push v s))"
    "steps_plain (sbind (bvm_obj_loadv (vm_objs s) a i) (\<lambda>v. vm_push v s))"
  subgoal using plain_obj_load [OF plain_set_objs(2) [OF assms]] by (intro plain_push_result assms) blast
  subgoal using plain_obj_loadv [OF plain_set_objs(2) [OF assms]] unfolding bvm_obj_loadv_def by (intro plain_push_result assms) blast
  done

lemma plain_eval_mem:
  assumes "plain s"
  shows "steps_plain (bvm_eval_mem env i s)"
  unfolding bvm_eval_mem_def Let_def using assms plain_global_load [OF assms(1)] plain_loads [OF assms(1)]
  by (cases "i_opcode i"; simp add: plain_eval_stack plain_push_result;
      (auto intro!: plain_pop plain_push plain_load_objs plain_stores plain_store_objs)?)

lemma plain_fetch:
  assumes "plain s" "bvm_local_ifetch s = Inr (i, t)"
  shows "plain t"
proof -
  from assms(2) obtain fr f where f: "func_at s (fr_func fr) = Inr f" "frame_curr (vm_local s) = Inr fr"
    by (auto simp: bvm_local_ifetch_def sbind_Inr_iff)
  obtain fr where "set_frame_curr fr (vm_local s) = Inr (vm_local t)" "t = s\<lparr>vm_local := vm_local t\<rparr>"
    using assms(2) f by (cases f) (auto simp: bvm_local_ifetch_def sbind_Inr_iff split: if_split_asm)
  moreover from this(1) have "lo_stack (vm_local t) = lo_stack (vm_local s)"
    by (auto simp: set_frame_curr_def split: option.split_asm if_split_asm dest: arg_cong [where f = lo_stack])
  ultimately show ?thesis using plain_local [OF assms(1), of "vm_local t"] plain_stack [OF assms(1)] by simp
qed

lemma plain_eval: "plain s \<Longrightarrow> steps_plain (bvm_eval env s)"
  unfolding bvm_eval_def by (auto intro!: steps_plain_bind plain_eval_mem dest: plain_fetch)

lemma plain_loop: "plain s \<Longrightarrow> steps_plain (bvm_loop n env s)"
proof (induction n arbitrary: s)
  case (Suc n)
  show ?case using plain_eval [OF Suc.prems, of env] Suc.IH by (cases "bvm_eval env s") auto
qed simp

text \<open>
  C22. Whatever program of bytecode functions it runs, the machine never makes a value of type \<open>BVM_UINT\<close> or
  \<open>BVM_NUM\<close>: when at the start there is no native function and no value of the stack, of the global variables
  or of an object has one of these types, then none has after any number of instructions, and neither has
  the result of a call, although there are instructions to push, compute and test for such values.
\<close>

theorem bvm_values_never_uint_or_num:
  assumes "plain s" and "bvm_call n env func argc s = Inr (v, t)"
  shows "val_type v \<in> {BVM_UNDEF, BVM_NIL, BVM_INT, BVM_OBJ, BVM_FUNC} \<and> plain t"
proof -
  from assms(2) obtain f l r u l' where r: "bvm_local_call func f argc (vm_local s) = Inr l" "bvm_loop n env (s\<lparr>vm_local := l\<rparr>) = Inr (r, u)"
    "bvm_local_pop (vm_local u) = Inr (v, l')" "t = u\<lparr>vm_local := l'\<rparr>"
    by (auto simp: bvm_call_def sbind_Inr_iff)
  have "plain (s\<lparr>vm_local := l\<rparr>)" using plain_local [OF assms(1)] plain_local_call [OF r(1) plain_stack [OF assms(1)]] by blast
  from plain_loop [OF this, of n env] r(2) have u: "plain u" by simp
  then have "plain_tag v" "plain t" using r(3,4) by (auto simp: bvm_local_pop_def stack_get_def plain_def Let_def split: if_splits)
  then show ?thesis by (cases "val_type v") (auto simp: plain_tag_def)
qed

theorem bvm_values_never_uint_or_num_witness:
  "\<exists>v t. bvm_call 2 plain_env 1 0 \<lparr>vm_local = bvm_local_init, vm_global = [], vm_objs = [],
      vm_funcs = [1 \<mapsto> BvmManaged 0 [\<lparr>i_opcode = BVM_OP_PUSHU, i_arg = 9\<rparr>, \<lparr>i_opcode = BVM_OP_RET, i_arg = 0\<rparr>]]\<rparr> = Inr (v, t) \<and>
    val_type v \<in> {BVM_UNDEF, BVM_NIL, BVM_INT, BVM_OBJ, BVM_FUNC} \<and> plain t"
proof -
  let ?s = "\<lparr>vm_local = bvm_local_init, vm_global = [], vm_objs = [],
      vm_funcs = [1 \<mapsto> BvmManaged 0 [\<lparr>i_opcode = BVM_OP_PUSHU, i_arg = 9\<rparr>, \<lparr>i_opcode = BVM_OP_RET, i_arg = 0\<rparr>]]\<rparr>"
  have "plain ?s" by (simp add: plain_def bvm_local_init_def plain_objs_def)
  moreover have e: "2 = Suc (Suc 0)" by simp
  have "\<exists>v t. bvm_call 2 plain_env 1 0 ?s = Inr (v, t)" unfolding e
    by (simp add: bvm_call_def func_at_def bvm_local_call_def bvm_local_init_def set_frame_curr_def BVM_MAX_FRAME_def bvm_eval_def bvm_local_ifetch_def
      frame_curr_def eval_defs vm_push_def vm_pop_def bvm_ret_def bvm_local_ret_def bvm_local_push_def bvm_local_pop_def stack_set_def stack_get_def BVM_MAX_STACK_def Let_def)
  ultimately show ?thesis using bvm_values_never_uint_or_num by blast
qed

section \<open>Frames\<close>

lemma bvm_push_many:
  assumes "for_each bvm_local_push vs l = Inr l'"
  shows "lo_curr l' = lo_curr l \<and> lo_frame l' = lo_frame l \<and> lo_top l' = lo_top l + int (length vs) \<and> (\<forall>i<lo_top l. lo_stack l' i = lo_stack l i) \<and>
    (\<forall>k<length vs. lo_stack l' (lo_top l + int k) = vs ! k) \<and> (0 \<le> lo_top l \<or> vs = []) \<and> (vs = [] \<or> lo_top l' \<le> 4096)"
  using assms
proof (induction vs arbitrary: l)
  case (Cons v vs)
  from Cons.prems obtain m where m: "bvm_local_push v l = Inr m" "for_each bvm_local_push vs m = Inr l'" by (auto simp: sbind_Inr_iff)
  note IH = Cons.IH [OF m(2)]
  have p: "lo_curr m = lo_curr l" "lo_frame m = lo_frame l" "lo_top m = lo_top l + 1" "lo_stack m = (lo_stack l)(lo_top l := v)" "0 \<le> lo_top l" "lo_top l < 4096"
    using m(1) by (auto simp: bvm_local_push_def stack_set_def BVM_MAX_STACK_def split: if_splits)
  have "lo_stack l' (lo_top l + int k) = (v # vs) ! k" if "k < length (v # vs)" for k
  proof (cases k)
    case 0
    then show ?thesis using IH p by simp
  next
    case (Suc j)
    then have "lo_stack l' (lo_top m + int j) = vs ! j" using IH that by simp
    then show ?thesis using p(3) Suc by (simp add: algebra_simps)
  qed
  then show ?case using IH p by auto
qed simp

text \<open>
  The variables of a function are not reserved on the stack: they start as many slots above the top of
  the stack as there are variables, and the operands grow up to them. After a call of a function with
  variables, one operand more than it has variables overwrites its first variable, whatever was stored
  there.
\<close>

theorem bvm_operands_overwrite_variables:
  assumes "bvm_local_call addr (BvmManaged locals code) argc l = Inr l0" and "0 < locals"
    and "for_each bvm_local_push vs l0 = Inr l1" and "length vs = unat locals + 1"
  shows "bvm_local_load_var l1 0 = Inr (last vs)"
proof -
  have loop: "lo_curr l2 = lo_curr l3 \<and> lo_frame l2 = lo_frame l3 \<and> lo_top l2 = lo_top l3"
    if "for_each (\<lambda>i. stack_set (g i) bvm_val_nil) xs l3 = Inr l2" for g xs l2 l3
    using that by (rule for_each_invariant) (auto simp: stack_set_def split: if_splits)
  obtain i where i: "lo_curr l0 = Some i" "fr_vars (lo_frame l0 i) = lo_top l0 + int (unat locals)"
    using assms(1) by (auto simp: bvm_local_call_def Let_def sbind_Inr_iff set_frame_curr_def split: option.splits if_splits dest!: loop)
  note p = bvm_push_many [OF assms(3)]
  have "lo_stack l1 (lo_top l0 + int (unat locals)) = vs ! unat locals" using p assms(4) less_add_one [of "unat locals"] by metis
  also have "vs ! unat locals = last vs" using assms(4) by (subst last_conv_nth) auto
  finally show ?thesis using p i assms(4) by (auto simp: bvm_local_load_var_def frame_curr_def stack_get_def BVM_MAX_STACK_def)
qed

theorem bvm_operands_overwrite_variables_witness:
  "\<exists>l0 l1. bvm_local_call 1 (BvmManaged 1 []) 0 bvm_local_init = Inr l0 \<and> for_each bvm_local_push [bvm_val_int 5, bvm_val_int 6] l0 = Inr l1 \<and>
     bvm_local_load_var l1 0 = Inr (bvm_val_int 6)"
proof -
  obtain l0 where l0: "bvm_local_call 1 (BvmManaged 1 []) 0 bvm_local_init = Inr l0" "lo_top l0 = 0"
    by (simp add: bvm_local_call_def bvm_local_init_def set_frame_curr_def stack_set_def BVM_MAX_STACK_def BVM_MAX_FRAME_def)
  then obtain l1 where l1: "for_each bvm_local_push [bvm_val_int 5, bvm_val_int 6] l0 = Inr l1"
    by (simp add: bvm_local_push_def stack_set_def BVM_MAX_STACK_def)
  from bvm_operands_overwrite_variables [OF l0(1) _ l1] l0 l1 show ?thesis by auto
qed

text \<open>
  C0. A return from a call inside a call loses the operands of the caller: \<open>bvm_local_ret\<close> takes the top of the
  stack from the outermost frame and not from the current one, so that the returned value is put where
  the arguments of the outermost call are, and everything between there and the arguments of the call
  that returns is gone.
\<close>

theorem bvm_nested_return_drops_operands:
  assumes "lo_curr l = Some (Suc i)" and "0 \<le> fr_args (lo_frame l 0)" and "fr_args (lo_frame l 0) < fr_args (lo_frame l (Suc i))"
    and "fr_args (lo_frame l (Suc i)) \<le> 4096"
  shows "\<exists>l'. bvm_local_ret v l = Inr (BVM_RES_RUN, l') \<and> lo_curr l' = Some i \<and> lo_stack l' (fr_args (lo_frame l 0)) = v \<and>
     lo_top l' = fr_args (lo_frame l 0) + 1 \<and> lo_top l' < fr_args (lo_frame l (Suc i)) + 1"
  using assms by (simp add: bvm_local_ret_def bvm_local_push_def stack_set_def BVM_MAX_STACK_def)

theorem bvm_nested_return_drops_operands_witness:
  "\<exists>l l'. lo_curr l = Some 1 \<and> fr_args (lo_frame l 1) = 3 \<and> lo_top l = 4 \<and> bvm_local_ret (bvm_val_int 5) l = Inr (BVM_RES_RUN, l') \<and>
     lo_top l' = 1 \<and> lo_stack l' 0 = bvm_val_int 5"
proof -
  define l where "l = bvm_local_init\<lparr>lo_curr := Some 1, lo_top := 4, lo_frame := (lo_frame bvm_local_init)(1 := (lo_frame bvm_local_init 1)\<lparr>fr_args := 3\<rparr>)\<rparr>"
  have l: "lo_curr l = Some (Suc 0)" "fr_args (lo_frame l 0) = 0" "fr_args (lo_frame l (Suc 0)) = 3" "lo_top l = 4" by (simp_all add: l_def bvm_local_init_def)
  from bvm_nested_return_drops_operands [OF l(1), of "bvm_val_int 5"] l obtain l' where
    "bvm_local_ret (bvm_val_int 5) l = Inr (BVM_RES_RUN, l')" "lo_stack l' 0 = bvm_val_int 5" "lo_top l' = 1" by auto
  then show ?thesis using l by (intro exI [of _ l] exI [of _ l']) simp
qed

end
