(* ===== verification/Scan.thy ===== *)
theory Scan
  imports Text
begin

text \<open>
  The scanner of \<open>brutal-parse\<close> (\<open>scan.c\<close>) and the numbers it reads (\<open>nums.c\<close>). The head is an \<open>int\<close> and may be
  moved anywhere by \<open>scan_seek\<close>; a read outside the buffer is a fault, and so is an error token that does
  not fit in the 128 bytes it is copied to. A \<open>char\<close> is signed, as on the machines the system runs on.
  Messages that only the report of an error prints are texts of the logic.
\<close>

section \<open>The scanner\<close>

definition lit :: "string \<Rightarrow> str" where
  "lit s = map of_char s"

abbreviation chr_int :: "char \<Rightarrow> int" where
  "chr_int c \<equiv> of_char c"

record scan_error =
  err_position :: int
  err_message :: string
  err_token :: str

record scan =
  sc_buf :: str
  sc_size :: int
  sc_head :: int
  sc_token :: int
  sc_error :: "scan_error option"

definition scan_init :: "str \<Rightarrow> scan" where
  "scan_init s = \<lparr>sc_buf = s, sc_size = sint (of_nat (length s) :: u32), sc_head = 0, sc_token = 0, sc_error = None\<rparr>"

definition has_error :: "scan \<Rightarrow> bool" where
  "has_error s \<longleftrightarrow> sc_error s \<noteq> None"

definition scan_ended :: "scan \<Rightarrow> bool" where
  "scan_ended s \<longleftrightarrow> sc_head s \<ge> sc_size s \<or> has_error s"

definition scan_tell :: "scan \<Rightarrow> int" where "scan_tell s = sc_head s"

definition scan_seek :: "int \<Rightarrow> scan \<Rightarrow> scan" where "scan_seek offset s = s\<lparr>sc_head := offset\<rparr>"

definition scan_peek :: "scan \<Rightarrow> int \<Rightarrow> fault + int" where
  "scan_peek s offset =
     (if has_error s then Inr 0
      else if offset < 0 \<and> - offset > sc_head s then Inr 0
      else if sc_head s + offset \<ge> sc_size s then Inr 0
      else if 0 \<le> sc_head s + offset \<and> nat (sc_head s + offset) < length (sc_buf s)
      then Inr (sint (sc_buf s ! nat (sc_head s + offset)))
      else Inl OutOfBounds)"

definition scan_curr :: "scan \<Rightarrow> fault + int" where
  "scan_curr s = scan_peek s 0"

fun peek_is_any :: "scan \<Rightarrow> int \<Rightarrow> str \<Rightarrow> fault + bool" where
  "peek_is_any s offset [] = Inr False"
| "peek_is_any s offset (c # cs) = sbind (scan_peek s offset) (\<lambda>p. if p = uint c then Inr True else peek_is_any s offset cs)"

definition scan_peek_is_any :: "scan \<Rightarrow> int \<Rightarrow> str \<Rightarrow> fault + bool" where
  "scan_peek_is_any s offset chars = peek_is_any s offset chars"

definition scan_curr_is_any :: "scan \<Rightarrow> str \<Rightarrow> fault + bool" where
  "scan_curr_is_any s chars = scan_peek_is_any s 0 chars"

definition scan_throw :: "string \<Rightarrow> str \<Rightarrow> scan \<Rightarrow> fault + scan" where
  "scan_throw message token s =
     (if has_error s then Inr s
      else if length token > 128 then Inl OutOfBounds
      else Inr (s\<lparr>sc_error := Some \<lparr>err_position = sc_head s, err_message = message, err_token = token\<rparr>\<rparr>))"

definition scan_breakpoint :: "scan \<Rightarrow> fault + scan" where
  "scan_breakpoint s = scan_throw ''debug'' (lit ''breakpoint'') s"

definition scan_next :: "scan \<Rightarrow> fault + (int \<times> scan)" where
  "scan_next s =
     (if has_error s then Inr (0, s)
      else sbind (if scan_ended s then scan_throw ''unexpected end of file'' (lit ''EOF'') s else Inr s) (\<lambda>s.
           sbind (scan_peek s 0) (\<lambda>c.
           Inr (c, if \<not> scan_ended s then s\<lparr>sc_head := sc_head s + 1\<rparr> else s))))"

definition scan_next_n :: "nat \<Rightarrow> scan \<Rightarrow> fault + scan" where
  "scan_next_n n s = for_each (\<lambda>_ s. sbind (scan_next s) (\<lambda>(_, s). Inr s)) [0..<n] s"

definition scan_skip :: "int \<Rightarrow> scan \<Rightarrow> fault + (bool \<times> scan)" where
  "scan_skip c s =
     sbind (scan_curr s) (\<lambda>p.
     if p \<noteq> c then Inr (False, s) else sbind (scan_next s) (\<lambda>(_, s). Inr (True, s)))"

fun word_here :: "scan \<Rightarrow> int \<Rightarrow> str \<Rightarrow> fault + bool" where
  "word_here s i [] = Inr True"
| "word_here s i (w # ws) = sbind (scan_peek s i) (\<lambda>p. if p \<noteq> uint w then Inr False else word_here s (i + 1) ws)"

definition scan_skip_word :: "str \<Rightarrow> scan \<Rightarrow> fault + (bool \<times> scan)" where
  "scan_skip_word word s =
     sbind (word_here s 0 word) (\<lambda>found.
     if \<not> found then Inr (False, s) else sbind (scan_next_n (length word) s) (\<lambda>s. Inr (True, s)))"

fun scan_skip_any :: "str \<Rightarrow> scan \<Rightarrow> fault + (bool \<times> scan)" where
  "scan_skip_any [] s = Inr (False, s)"
| "scan_skip_any (c # cs) s =
     sbind (scan_curr s) (\<lambda>p. if p = uint c then sbind (scan_next s) (\<lambda>(_, s). Inr (True, s)) else scan_skip_any cs s)"

definition scan_skip_match :: "(int \<Rightarrow> bool) \<Rightarrow> scan \<Rightarrow> fault + (bool \<times> scan)" where
  "scan_skip_match match s =
     sbind (scan_curr s) (\<lambda>p. if \<not> match p then Inr (False, s) else sbind (scan_next s) (\<lambda>(_, s). Inr (True, s)))"

text \<open>What is left of the input bounds the turns of the loops: each of them moves the head.\<close>

definition scan_left :: "scan \<Rightarrow> nat" where
  "scan_left s = (if has_error s then 0 else nat (sc_size s - sc_head s))"

fun eat_loop :: "nat \<Rightarrow> (int \<Rightarrow> bool) \<Rightarrow> bool \<Rightarrow> scan \<Rightarrow> fault + (bool \<times> scan)" where
  "eat_loop 0 match result s = Inl OutOfFuel"
| "eat_loop (Suc n) match result s =
     sbind (scan_curr s) (\<lambda>p.
     if match p \<and> \<not> scan_ended s then sbind (scan_next s) (\<lambda>(_, s). eat_loop n match True s)
     else Inr (result, s))"

definition scan_eat :: "(int \<Rightarrow> bool) \<Rightarrow> scan \<Rightarrow> fault + (bool \<times> scan)" where
  "scan_eat match s = eat_loop (Suc (scan_left s)) match False s"

definition scan_skip_space :: "scan \<Rightarrow> fault + (bool \<times> scan)" where
  "scan_skip_space s = scan_eat isspace s"

text \<open>
  \<open>scan_eat_any\<close> goes on for as long as \<open>scan_skip_any\<close> finds a character, also when the input is at an end
  and the characters have a zero among them: then it never ends.
\<close>

fun scan_eat_any :: "nat \<Rightarrow> str \<Rightarrow> bool \<Rightarrow> scan \<Rightarrow> fault + (bool \<times> scan)" where
  "scan_eat_any 0 chars result s = Inl OutOfFuel"
| "scan_eat_any (Suc n) chars result s =
     sbind (scan_skip_any chars s) (\<lambda>(found, s). if found then scan_eat_any n chars True s else Inr (result, s))"

definition scan_str :: "scan \<Rightarrow> int \<Rightarrow> int \<Rightarrow> str" where
  "scan_str s start len = take (nat len) (drop (nat start) (sc_buf s))"

fun eat_match_loop :: "nat \<Rightarrow> (int \<Rightarrow> bool) \<Rightarrow> int \<Rightarrow> scan \<Rightarrow> fault + (int \<times> scan)" where
  "eat_match_loop 0 match len s = Inl OutOfFuel"
| "eat_match_loop (Suc n) match len s =
     sbind (scan_curr s) (\<lambda>p.
     if match p \<and> \<not> scan_ended s then sbind (scan_next s) (\<lambda>(_, s). eat_match_loop n match (len + 1) s)
     else Inr (len, s))"

definition scan_eat_match :: "(int \<Rightarrow> bool) \<Rightarrow> scan \<Rightarrow> fault + (str \<times> scan)" where
  "scan_eat_match match s =
     sbind (eat_match_loop (Suc (scan_left s)) match 0 s) (\<lambda>(len, t). Inr (scan_str t (sc_head s) len, t))"

definition scan_begin :: "scan \<Rightarrow> scan" where "scan_begin s = s\<lparr>sc_token := sc_head s\<rparr>"

definition scan_end :: "scan \<Rightarrow> str" where "scan_end s = scan_str s (sc_token s) (sc_head s - sc_token s)"

definition scan_expect :: "int \<Rightarrow> scan \<Rightarrow> fault + (bool \<times> scan)" where
  "scan_expect c s =
     sbind (scan_skip c s) (\<lambda>(found, s).
     if \<not> found then sbind (scan_throw ''expected character'' [of_int c] s) (\<lambda>s. Inr (False, s)) else Inr (True, s))"

definition scan_expect_word :: "str \<Rightarrow> scan \<Rightarrow> fault + (bool \<times> scan)" where
  "scan_expect_word word s =
     sbind (scan_skip_word word s) (\<lambda>(found, s).
     if \<not> found then sbind (scan_throw ''expected token'' word s) (\<lambda>s. Inr (False, s)) else Inr (True, s))"

definition scan_expect_any :: "str \<Rightarrow> scan \<Rightarrow> fault + (bool \<times> scan)" where
  "scan_expect_any chars s =
     sbind (scan_skip_any chars s) (\<lambda>(found, s).
     if \<not> found then sbind (scan_throw ''expected any token'' chars s) (\<lambda>s. Inr (False, s)) else Inr (True, s))"

section \<open>Numbers\<close>

definition scan_next_digit :: "scan \<Rightarrow> fault + (int \<times> scan)" where
  "scan_next_digit s =
     sbind (scan_next s) (\<lambda>(c, s).
     let c = tolower c in Inr (if isalpha c then c - chr_int CHR ''a'' + 10 else c - chr_int CHR ''0'', s))"

fun uint_loop :: "nat \<Rightarrow> u64 \<Rightarrow> scan \<Rightarrow> fault + (u64 \<times> scan)" where
  "uint_loop 0 value s = Inl OutOfFuel"
| "uint_loop (Suc n) value s =
     (if scan_ended s then Inr (value, s)
      else sbind (scan_peek s 0) (\<lambda>v.
           if v \<ge> chr_int CHR ''0'' \<and> v \<le> chr_int CHR ''9''
           then sbind (scan_next s) (\<lambda>(_, s). uint_loop n (value * 10 + of_int (v - chr_int CHR ''0'')) s)
           else Inr (value, s)))"

definition scan_next_uint :: "u64 \<Rightarrow> scan \<Rightarrow> fault + (u64 \<times> scan)" where
  "scan_next_uint value s = uint_loop (Suc (scan_left s)) value s"

definition long_fits :: "int \<Rightarrow> bool" where
  "long_fits i \<longleftrightarrow> - (2 ^ 63) \<le> i \<and> i < 2 ^ 63"

definition long_result :: "int \<Rightarrow> fault + int" where
  "long_result i = (if long_fits i then Inr i else Inl ArithUB)"

fun int_loop :: "nat \<Rightarrow> bool \<Rightarrow> int \<Rightarrow> scan \<Rightarrow> fault + (bool \<times> int \<times> scan)" where
  "int_loop 0 is_number value s = Inl OutOfFuel"
| "int_loop (Suc n) is_number value s =
     (if scan_ended s then Inr (is_number, value, s)
      else sbind (scan_peek s 0) (\<lambda>v.
           if v \<ge> chr_int CHR ''0'' \<and> v \<le> chr_int CHR ''9''
           then sbind (long_result (value * 10)) (\<lambda>value.
                sbind (long_result (value + (v - chr_int CHR ''0''))) (\<lambda>value.
                sbind (scan_next s) (\<lambda>(_, s). int_loop n True value s)))
           else Inr (is_number, value, s)))"

text \<open>The number, if there is one.\<close>

definition scan_next_int :: "scan \<Rightarrow> fault + (int option \<times> scan)" where
  "scan_next_int s =
     sbind (scan_peek s 0) (\<lambda>c.
     sbind (if c = chr_int CHR ''-'' then sbind (scan_peek s 1) (\<lambda>d. Inr (isdigit d)) else Inr False) (\<lambda>is_negative.
     sbind (if is_negative then sbind (scan_next s) (\<lambda>(_, s). Inr s) else Inr s) (\<lambda>s.
     sbind (int_loop (Suc (scan_left s)) is_negative 0 s) (\<lambda>(is_number, value, s).
     sbind (if is_negative then long_result (- value) else Inr value) (\<lambda>value.
     Inr (if is_number then Some value else None, s))))))"

definition str_to_uint :: "str \<Rightarrow> u64 \<Rightarrow> fault + u64" where
  "str_to_uint string value = sbind (scan_next_uint value (scan_init string)) (\<lambda>(value, _). Inr value)"

definition str_to_int :: "str \<Rightarrow> fault + int option" where
  "str_to_int string = sbind (scan_next_int (scan_init string)) (\<lambda>(value, _). Inr value)"

section \<open>Scanning a text\<close>

text \<open>A scanner that has read \<open>pre\<close> and has \<open>post\<close> in front of it.\<close>

definition sc_at :: "str \<Rightarrow> str \<Rightarrow> scan" where
  "sc_at pre post = \<lparr>sc_buf = pre @ post, sc_size = int (length pre + length post), sc_head = int (length pre), sc_token = 0, sc_error = None\<rparr>"

lemma sint_of_nat_u32: "n < 2 ^ 31 \<Longrightarrow> sint (of_nat n :: u32) = int n"
proof -
  assume "n < 2 ^ 31"
  then have "signed_take_bit 31 (int n) = int n" by (intro signed_take_bit_int_eq_self) auto
  then show ?thesis using signed_of_int [of "int n", where 'b = 32, where 'a = int] by simp
qed

lemma scan_init_at: "length s < 2 ^ 31 \<Longrightarrow> scan_init s = sc_at [] s"
  by (simp add: scan_init_def sc_at_def sint_of_nat_u32)

lemma sc_at_no_error [simp]: "\<not> has_error (sc_at pre post)" "sc_error (sc_at pre post) = None"
  by (simp_all add: sc_at_def has_error_def)

lemma sc_at_ended [simp]: "scan_ended (sc_at pre post) \<longleftrightarrow> post = []"
  by (auto simp: sc_at_def scan_ended_def has_error_def)

lemma sc_at_left [simp]: "scan_left (sc_at pre post) = length post"
  by (simp add: sc_at_def scan_left_def has_error_def)

lemma sc_at_peek: "scan_peek (sc_at pre post) (int k) = Inr (if k < length post then sint (post ! k) else 0)"
  by (auto simp: sc_at_def scan_peek_def has_error_def nth_append nat_add_distrib)

lemma sc_at_curr [simp]: "scan_curr (sc_at pre post) = Inr (case post of [] \<Rightarrow> 0 | c # _ \<Rightarrow> sint c)"
  "scan_peek (sc_at pre post) 0 = Inr (case post of [] \<Rightarrow> 0 | c # _ \<Rightarrow> sint c)"
  using sc_at_peek [of pre post 0] by (auto simp: scan_curr_def split: list.splits)

lemma sc_at_peek1 [simp]: "scan_peek (sc_at pre post) 1 = Inr (case post of _ # d # _ \<Rightarrow> sint d | _ \<Rightarrow> 0)"
  using sc_at_peek [of pre post 1] by (auto split: list.splits)

lemma sc_at_next [simp]: "scan_next (sc_at pre (c # cs)) = Inr (sint c, sc_at (pre @ [c]) cs)"
  by (simp add: scan_next_def) (simp add: sc_at_def scan_ended_def has_error_def)

lemma sc_at_skip: "c \<noteq> 0 \<Longrightarrow> scan_skip c (sc_at pre post) =
    Inr (case post of [] \<Rightarrow> (False, sc_at pre []) | d # ds \<Rightarrow> if sint d = c then (True, sc_at (pre @ [d]) ds) else (False, sc_at pre (d # ds)))"
  by (auto simp: scan_skip_def split: list.splits)

lemma eat_loop_at: "length post < n \<Longrightarrow> eat_loop n m r (sc_at pre post) =
    Inr (r \<or> takeWhile (m \<circ> sint) post \<noteq> [], sc_at (pre @ takeWhile (m \<circ> sint) post) (dropWhile (m \<circ> sint) post))"
proof (induction post arbitrary: n pre r)
  case Nil
  then show ?case by (cases n) auto
next
  case (Cons c cs)
  then obtain k where k: "n = Suc k" "length cs < k" by (cases n) auto
  show ?case using Cons.IH [OF k(2)] by (simp add: k(1))
qed

lemma scan_eat_at: "scan_eat m (sc_at pre post) =
    Inr (takeWhile (m \<circ> sint) post \<noteq> [], sc_at (pre @ takeWhile (m \<circ> sint) post) (dropWhile (m \<circ> sint) post))"
  by (simp add: scan_eat_def eat_loop_at del: eat_loop.simps)

lemma eat_match_loop_at: "length post < n \<Longrightarrow> eat_match_loop n m len (sc_at pre post) =
    Inr (len + int (length (takeWhile (m \<circ> sint) post)), sc_at (pre @ takeWhile (m \<circ> sint) post) (dropWhile (m \<circ> sint) post))"
proof (induction post arbitrary: n pre len)
  case Nil
  then show ?case by (cases n) auto
next
  case (Cons c cs)
  then obtain k where k: "n = Suc k" "length cs < k" by (cases n) auto
  show ?case using Cons.IH [OF k(2)] by (simp add: k(1))
qed

lemma scan_eat_match_at: "scan_eat_match m (sc_at pre post) =
    Inr (takeWhile (m \<circ> sint) post, sc_at (pre @ takeWhile (m \<circ> sint) post) (dropWhile (m \<circ> sint) post))"
proof -
  let ?w = "takeWhile (m \<circ> sint) post"
  have "take (length ?w) post = ?w" by (metis append_eq_conv_conj takeWhile_dropWhile_id)
  then show ?thesis
    by (simp add: scan_eat_match_def eat_match_loop_at scan_str_def del: eat_match_loop.simps) (simp add: sc_at_def)
qed

lemma sc_at_expect: "c \<noteq> 0 \<Longrightarrow> sint d = c \<Longrightarrow> scan_expect c (sc_at pre (d # ds)) = Inr (True, sc_at (pre @ [d]) ds)"
  by (simp add: scan_expect_def sc_at_skip)

lemma sint_ascii: "uint w < 128 \<Longrightarrow> sint (w :: u8) = uint w"
proof -
  assume "uint w < 128"
  then have "signed_take_bit 7 (uint w) = uint w" using order_trans [OF _ uint_ge_0 [of w], of "- 128"] by (intro signed_take_bit_int_eq_self) simp_all
  then show ?thesis by (simp add: sint_uint)
qed

lemma sint_eq_ascii: "uint w < 128 \<Longrightarrow> sint c = uint w \<longleftrightarrow> c = (w :: u8)"
  using signed_word_eqI [of c w, where ?'a = int] sint_ascii [of w] by auto

lemma word_here_at:
  "(\<forall>w\<in>set ws. w \<noteq> 0 \<and> uint w < 128) \<Longrightarrow> word_here (sc_at pre post) (int i) ws = Inr (take (length ws) (drop i post) = ws)"
proof (induction ws arbitrary: i)
  case (Cons w ws)
  have w: "w \<noteq> 0" "uint w < 128" using Cons.prems by auto
  have "0 < uint w" using w(1) uint_ge_0 [of w] by (simp add: order_less_le uint_0_iff)
  note eq = sint_eq_ascii [OF w(2)]
  show ?case
  proof (cases "i < length post")
    case True
    then have d: "drop i post = post ! i # drop (Suc i) post" by (simp add: Cons_nth_drop_Suc)
    show ?thesis using Cons.IH [of "Suc i"] Cons.prems True by (simp add: sc_at_peek d eq add.commute)
  next
    case False
    then show ?thesis using \<open>0 < uint w\<close> by (simp add: sc_at_peek)
  qed
qed simp

lemma scan_next_n_at: "length ws \<le> length post \<Longrightarrow> scan_next_n (length ws) (sc_at pre post) = Inr (sc_at (pre @ take (length ws) post) (drop (length ws) post))"
proof -
  have "for_each (\<lambda>_ s. sbind (scan_next s) (\<lambda>(_, s). Inr s)) xs (sc_at pre post) = Inr (sc_at (pre @ take (length xs) post) (drop (length xs) post))"
    if "length xs \<le> length post" for xs :: "nat list"
    using that by (induction xs arbitrary: pre post) (auto simp: Suc_le_length_iff)
  from this [of "[0..<length ws]"] show "length ws \<le> length post \<Longrightarrow> ?thesis" by (simp add: scan_next_n_def)
qed

lemma scan_skip_word_at:
  assumes "\<forall>w\<in>set ws. w \<noteq> 0 \<and> uint w < 128"
  shows "scan_skip_word ws (sc_at pre post) =
    Inr (if take (length ws) post = ws then (True, sc_at (pre @ ws) (drop (length ws) post)) else (False, sc_at pre post))"
proof -
  have "length ws \<le> length post" if "take (length ws) post = ws" using that by (metis length_take min.cobounded1 min.commute)
  then show ?thesis using word_here_at [OF assms, of pre post 0] scan_next_n_at [of ws post pre] by (auto simp: scan_skip_word_def)
qed

end
