(* ===== verification/Fmt.thy ===== *)
theory Fmt
  imports Scan
begin

text \<open>
  Formatted output, \<open>brutal-fmt\<close>: the letter cases of \<open>case.c\<close>, the format specifications and the
  printing of numbers, characters and strings of \<open>fmt.c\<close>, and the format strings of \<open>funcs.c\<close>, in the
  freestanding build, where there are no floating point numbers. The bytes that a routine writes are its
  result: the writer takes all of them. A \<open>Buf\<close>, which grows as needed, is the bytes in it.
\<close>

section \<open>Letter cases\<close>

datatype (plugins only: code) case_style = CASE_DEFAULT | CASE_CAMEL | CASE_CAPITAL | CASE_CONSTANT | CASE_DOT | CASE_HEADER | CASE_NO | CASE_PARAM
  | CASE_PASCAL | CASE_PATH | CASE_SENTENCE | CASE_SNAKE | CASE_TITLE | CASE_SWAP | CASE_LOWER | CASE_LOWER_FIRST
  | CASE_UPPER | CASE_UPPER_FIRST | CASE_SPONGE

definition up8 :: "u8 \<Rightarrow> u8" where "up8 c = of_int (toupper (uint c))"
definition low8 :: "u8 \<Rightarrow> u8" where "low8 c = of_int (tolower (uint c))"

definition is_sep :: "int \<Rightarrow> bool" where
  "is_sep c \<longleftrightarrow> isblank c \<or> c = chr_int CHR ''.'' \<or> c = chr_int CHR ''_'' \<or> c = chr_int CHR ''/'' \<or> c = chr_int CHR ''-''"

fun no_loop :: "nat \<Rightarrow> str \<Rightarrow> scan \<Rightarrow> fault + str" where
  "no_loop 0 buf s = Inl OutOfFuel"
| "no_loop (Suc n) buf s =
     (if scan_ended s then Inr buf
      else sbind (scan_curr s) (\<lambda>c.
           if is_sep c
           then sbind (scan_eat is_sep s) (\<lambda>(_, s). no_loop n (if \<not> scan_ended s then buf @ [0x20] else buf) s)
           else sbind (scan_peek s (- 1)) (\<lambda>p.
                sbind (scan_next s) (\<lambda>(_, s).
                no_loop n ((if islower p \<and> isupper c then buf @ [0x20] else buf) @ [of_int (tolower c)]) s))))"

definition case_to_no :: "str \<Rightarrow> fault + str" where
  "case_to_no str =
     sbind (scan_eat isblank (scan_init str)) (\<lambda>(_, s). no_loop (Suc (scan_left s)) [] s)"

definition case_to_default :: "str \<Rightarrow> str" where
  "case_to_default str = str"

text \<open>A loop over a buffer that changes one byte after the other and looks at the byte before.\<close>

fun change_from :: "(nat \<Rightarrow> u8 \<Rightarrow> u8 \<Rightarrow> u8) \<Rightarrow> nat \<Rightarrow> u8 \<Rightarrow> str \<Rightarrow> str" where
  "change_from f i prev [] = []"
| "change_from f i prev (c # cs) = f i prev c # change_from f (i + 1) (f i prev c) cs"

definition change_all :: "(nat \<Rightarrow> u8 \<Rightarrow> u8 \<Rightarrow> u8) \<Rightarrow> str \<Rightarrow> str" where
  "change_all f buf = change_from f 0 0 buf"

definition case_to_capital :: "str \<Rightarrow> fault + str" where
  "case_to_capital str =
     sbind (case_to_no str) (\<lambda>buf. Inr (change_all (\<lambda>i prev c. if i = 0 \<or> prev = 0x20 then up8 c else c) buf))"

definition case_to_constant :: "str \<Rightarrow> fault + str" where
  "case_to_constant str =
     sbind (case_to_no str) (\<lambda>buf. Inr (change_all (\<lambda>_ _ c. if c = 0x20 then of_char CHR ''_'' else up8 c) buf))"

definition case_to_dot :: "str \<Rightarrow> fault + str" where
  "case_to_dot str =
     sbind (case_to_no str) (\<lambda>buf. Inr (change_all (\<lambda>_ _ c. if c = 0x20 then of_char CHR ''.'' else c) buf))"

definition case_to_header :: "str \<Rightarrow> fault + str" where
  "case_to_header str =
     sbind (case_to_no str) (\<lambda>buf.
     Inr (change_all (\<lambda>i prev c. if c = 0x20 then of_char CHR ''-'' else if i = 0 \<or> prev = of_char CHR ''-'' then up8 c else c) buf))"

definition case_to_param :: "str \<Rightarrow> fault + str" where
  "case_to_param str =
     sbind (case_to_no str) (\<lambda>buf. Inr (change_all (\<lambda>_ _ c. if c = 0x20 then of_char CHR ''-'' else c) buf))"

fun pascal_loop :: "nat \<Rightarrow> u8 \<Rightarrow> str \<Rightarrow> str" where
  "pascal_loop i prev [] = []"
| "pascal_loop i prev (c # cs) =
     (if i = 0 \<or> prev = 0x20 then [up8 c] else if c \<noteq> 0x20 then [c] else []) @ pascal_loop (i + 1) c cs"

definition case_to_pascal :: "str \<Rightarrow> fault + str" where
  "case_to_pascal str = sbind (case_to_no str) (\<lambda>nocase. Inr (pascal_loop 0 0 nocase))"

fun change_first :: "(u8 \<Rightarrow> u8) \<Rightarrow> str \<Rightarrow> str" where
  "change_first f [] = []"
| "change_first f (c # cs) = f c # cs"

definition case_to_camel :: "str \<Rightarrow> fault + str" where
  "case_to_camel str = sbind (case_to_pascal str) (\<lambda>buf. Inr (change_first low8 buf))"

definition case_to_path :: "str \<Rightarrow> fault + str" where
  "case_to_path str =
     sbind (case_to_no str) (\<lambda>buf. Inr (change_all (\<lambda>_ _ c. if c = 0x20 then of_char CHR ''/'' else c) buf))"

definition case_to_sentence :: "str \<Rightarrow> fault + str" where
  "case_to_sentence str = sbind (case_to_no str) (\<lambda>buf. Inr (change_first up8 buf))"

definition case_to_snake :: "str \<Rightarrow> fault + str" where
  "case_to_snake str =
     sbind (case_to_no str) (\<lambda>buf. Inr (change_all (\<lambda>_ _ c. if c = 0x20 then of_char CHR ''_'' else c) buf))"

definition case_to_title :: "str \<Rightarrow> fault + str" where
  "case_to_title str = case_to_capital str"

text \<open>Here the bytes go through a \<open>char\<close>, which is signed.\<close>

definition case_to_swap :: "str \<Rightarrow> str" where
  "case_to_swap str = map (\<lambda>b. let c = sint b in of_int (if isupper c then tolower c else toupper c)) str"

definition case_to_lower :: "str \<Rightarrow> str" where
  "case_to_lower str = map (\<lambda>b. of_int (tolower (sint b))) str"

definition case_to_lower_first :: "str \<Rightarrow> str" where
  "case_to_lower_first str = (if str_empty str then [] else change_first low8 str)"

definition case_to_upper :: "str \<Rightarrow> str" where
  "case_to_upper str = map (\<lambda>b. of_int (toupper (sint b))) str"

definition case_to_upper_first :: "str \<Rightarrow> str" where
  "case_to_upper_first str = (if str_empty str then [] else change_first up8 str)"

definition case_to_sponge :: "str \<Rightarrow> str" where
  "case_to_sponge str = map (\<lambda>i. of_int (if i mod 2 \<noteq> 0 then tolower (sint (str ! i)) else toupper (sint (str ! i)))) [0..<length str]"

definition case_change :: "case_style \<Rightarrow> str \<Rightarrow> fault + str" where
  "case_change c str =
     (case c of
        CASE_DEFAULT \<Rightarrow> Inr (case_to_default str)
      | CASE_CAMEL \<Rightarrow> case_to_camel str
      | CASE_CAPITAL \<Rightarrow> case_to_capital str
      | CASE_CONSTANT \<Rightarrow> case_to_constant str
      | CASE_DOT \<Rightarrow> case_to_dot str
      | CASE_HEADER \<Rightarrow> case_to_header str
      | CASE_NO \<Rightarrow> case_to_no str
      | CASE_PARAM \<Rightarrow> case_to_param str
      | CASE_PASCAL \<Rightarrow> case_to_pascal str
      | CASE_PATH \<Rightarrow> case_to_path str
      | CASE_SENTENCE \<Rightarrow> case_to_sentence str
      | CASE_SNAKE \<Rightarrow> case_to_snake str
      | CASE_TITLE \<Rightarrow> case_to_title str
      | CASE_SWAP \<Rightarrow> Inr (case_to_swap str)
      | CASE_LOWER \<Rightarrow> Inr (case_to_lower str)
      | CASE_LOWER_FIRST \<Rightarrow> Inr (case_to_lower_first str)
      | CASE_UPPER \<Rightarrow> Inr (case_to_upper str)
      | CASE_UPPER_FIRST \<Rightarrow> Inr (case_to_upper_first str)
      | CASE_SPONGE \<Rightarrow> Inr (case_to_sponge str))"

definition case_names :: "(string \<times> case_style) list" where
  "case_names = [(''default'', CASE_DEFAULT), (''camel'', CASE_CAMEL), (''capital'', CASE_CAPITAL), (''constant'', CASE_CONSTANT), (''dot'', CASE_DOT),
     (''header'', CASE_HEADER), (''no'', CASE_NO), (''param'', CASE_PARAM), (''pascal'', CASE_PASCAL), (''path'', CASE_PATH), (''sentence'', CASE_SENTENCE),
     (''snake'', CASE_SNAKE), (''title'', CASE_TITLE), (''swap'', CASE_SWAP), (''lower'', CASE_LOWER), (''lower-first'', CASE_LOWER_FIRST),
     (''upper'', CASE_UPPER), (''upper-first'', CASE_UPPER_FIRST), (''sponge'', CASE_SPONGE)]"

fun case_parse_from :: "(string \<times> case_style) list \<Rightarrow> scan \<Rightarrow> fault + (case_style \<times> scan)" where
  "case_parse_from [] s = Inr (CASE_DEFAULT, s)"
| "case_parse_from ((name, c) # cs) s =
     sbind (scan_skip_word (lit name) s) (\<lambda>(found, s). if found then Inr (c, s) else case_parse_from cs s)"

definition case_parse :: "scan \<Rightarrow> fault + (case_style \<times> scan)" where
  "case_parse s = case_parse_from case_names s"

section \<open>Format specifications\<close>

datatype fmt_type = FMT_NONE | FMT_CHAR | FMT_STRING | FMT_BINARY | FMT_OCTAL | FMT_DECIMAL | FMT_HEXADECIMAL | FMT_POINTER

record fmt =
  fmt_kind :: fmt_type
  fmt_casing :: case_style
  fmt_width :: int
  fmt_precision :: int
  fmt_fill :: u8
  fmt_with_prefix :: bool
  fmt_prefix_plus :: bool

definition FMT_PRECISION_DEFAULT :: int where "FMT_PRECISION_DEFAULT = - 1"

definition fmt_base :: "fmt \<Rightarrow> nat" where
  "fmt_base self =
     (case fmt_kind self of FMT_BINARY \<Rightarrow> 2 | FMT_OCTAL \<Rightarrow> 8 | FMT_POINTER \<Rightarrow> 16 | FMT_HEXADECIMAL \<Rightarrow> 16 | _ \<Rightarrow> 10)"

definition fmt_digit :: "fmt \<Rightarrow> nat \<Rightarrow> u8" where
  "fmt_digit self d = lit ''0123456789abcdef'' ! (d mod fmt_base self)"

definition fmt_prefix :: "fmt \<Rightarrow> u8" where
  "fmt_prefix self =
     (case fmt_kind self of FMT_BINARY \<Rightarrow> of_char CHR ''b'' | FMT_OCTAL \<Rightarrow> of_char CHR ''o'' | FMT_POINTER \<Rightarrow> of_char CHR ''x''
      | FMT_HEXADECIMAL \<Rightarrow> of_char CHR ''x'' | _ \<Rightarrow> of_char CHR ''0'')"

definition fmt_parse_type :: "int \<Rightarrow> fmt_type" where
  "fmt_parse_type c =
     (if c = chr_int CHR ''s'' then FMT_STRING
      else if c = chr_int CHR ''c'' then FMT_CHAR
      else if c = chr_int CHR ''b'' then FMT_BINARY
      else if c = chr_int CHR ''o'' then FMT_OCTAL
      else if c = chr_int CHR ''d'' \<or> c = chr_int CHR ''i'' \<or> c = chr_int CHR ''u'' then FMT_DECIMAL
      else if c = chr_int CHR ''p'' then FMT_POINTER
      else if c = chr_int CHR ''X'' \<or> c = chr_int CHR ''x'' then FMT_HEXADECIMAL
      else FMT_NONE)"

definition fmt_parse_precision :: "fmt \<Rightarrow> scan \<Rightarrow> fault + (bool \<times> fmt \<times> scan)" where
  "fmt_parse_precision f s =
     sbind (scan_skip (chr_int CHR ''0'') s) (\<lambda>(zero, s).
     let f = (if zero then f\<lparr>fmt_fill := of_char CHR ''0''\<rparr> else f) in
     sbind (scan_next_int s) (\<lambda>(w, s).
     let f = (case w of None \<Rightarrow> f | Some w \<Rightarrow> f\<lparr>fmt_width := w\<rparr>) in
     sbind (scan_skip (chr_int CHR ''.'') s) (\<lambda>(dot, s).
     if \<not> dot then Inr (w \<noteq> None, f, s)
     else sbind (scan_next_int s) (\<lambda>(p, s). Inr (True, f\<lparr>fmt_precision := (case p of None \<Rightarrow> 0 | Some p \<Rightarrow> p)\<rparr>, s)))))"

fun fmt_parse_loop :: "nat \<Rightarrow> fmt \<Rightarrow> scan \<Rightarrow> fault + (fmt \<times> scan)" where
  "fmt_parse_loop 0 f s = Inl OutOfFuel"
| "fmt_parse_loop (Suc n) f s =
     sbind (scan_curr s) (\<lambda>c.
     if c \<noteq> chr_int CHR ''}'' \<and> \<not> scan_ended s
     then sbind (scan_skip_space s) (\<lambda>(_, s).
          sbind (scan_skip (chr_int CHR ''#'') s) (\<lambda>(hash, s).
          if hash then fmt_parse_loop n (f\<lparr>fmt_with_prefix := True\<rparr>) s
          else sbind (scan_skip (chr_int CHR ''+'') s) (\<lambda>(plus, s).
          if plus then fmt_parse_loop n (f\<lparr>fmt_prefix_plus := True\<rparr>) s
          else sbind (scan_skip_word (lit ''case-'') s) (\<lambda>(cas, s).
          if cas then sbind (case_parse s) (\<lambda>(c, s). fmt_parse_loop n (f\<lparr>fmt_casing := c\<rparr>) s)
          else sbind (fmt_parse_precision f s) (\<lambda>(any, f, s).
          if any then fmt_parse_loop n f s
          else sbind (scan_next s) (\<lambda>(c, s). fmt_parse_loop n (f\<lparr>fmt_kind := fmt_parse_type c\<rparr>) s))))))
     else Inr (f, s))"

definition fmt_init :: fmt where
  "fmt_init = \<lparr>fmt_kind = FMT_NONE, fmt_casing = CASE_DEFAULT, fmt_width = 0, fmt_precision = FMT_PRECISION_DEFAULT, fmt_fill = of_char CHR '' '',
     fmt_with_prefix = False, fmt_prefix_plus = False\<rparr>"

definition fmt_parse :: "scan \<Rightarrow> fault + (fmt \<times> scan)" where
  "fmt_parse s =
     sbind (scan_skip (chr_int CHR ''{'') s) (\<lambda>(_, s).
     sbind (fmt_parse_loop (Suc (scan_left s)) fmt_init s) (\<lambda>(f, s).
     sbind (scan_skip (chr_int CHR ''}'') s) (\<lambda>(_, s). Inr (f, s))))"

section \<open>Values\<close>

text \<open>The digits are put into an array of 1024 bytes, the last one first.\<close>

definition fmt_put :: "u8 \<Rightarrow> str \<Rightarrow> fault + str" where
  "fmt_put c buf = (if length buf < 128 * 8 then Inr (buf @ [c]) else Inl OutOfBounds)"

lemma fmt_base_gt: "1 < fmt_base f"
  by (simp add: fmt_base_def split: fmt_type.splits)

function fmt_digits :: "fmt \<Rightarrow> nat \<Rightarrow> str \<Rightarrow> fault + str" where
  "fmt_digits self value buf =
     (if value \<noteq> 0 then sbind (fmt_put (fmt_digit self (value mod fmt_base self)) buf) (fmt_digits self (value div fmt_base self))
      else Inr buf)"
  by pat_completeness auto
termination by (relation "measure (\<lambda>(_, value, _). value)") (use fmt_base_gt in auto)

definition fmt_fill_to :: "u8 \<Rightarrow> int \<Rightarrow> str \<Rightarrow> fault + str" where
  "fmt_fill_to c n buf = for_each (\<lambda>_. fmt_put c) [0..<nat n - length buf] buf"

definition fmt_with :: "bool \<Rightarrow> u8 \<Rightarrow> str \<Rightarrow> fault + str" where
  "fmt_with b c buf = (if b then fmt_put c buf else Inr buf)"

definition fmt_signed :: "fmt \<Rightarrow> int \<Rightarrow> fault + str" where
  "fmt_signed self value =
     (let negative = value < 0 in
      sbind (if negative then long_result (- value) else Inr value) (\<lambda>value.
      let self = (if fmt_precision self = FMT_PRECISION_DEFAULT then self\<lparr>fmt_precision := 1\<rparr> else self\<lparr>fmt_fill := of_char CHR '' ''\<rparr>) in
      sbind (fmt_digits self (nat value) []) (\<lambda>buf.
      sbind (fmt_fill_to (of_char CHR ''0'') (fmt_precision self) buf) (\<lambda>buf.
      sbind (fmt_with (fmt_with_prefix self) (fmt_prefix self) buf) (\<lambda>buf.
      sbind (fmt_with (fmt_with_prefix self) (of_char CHR ''0'') buf) (\<lambda>buf.
      sbind (fmt_with negative (of_char CHR ''-'') buf) (\<lambda>buf.
      sbind (fmt_with (\<not> negative \<and> fmt_prefix_plus self) (of_char CHR ''+'') buf) (\<lambda>buf.
      sbind (fmt_fill_to (fmt_fill self) (fmt_width self) buf) (\<lambda>buf.
      Inr (rev buf))))))))))"

definition fmt_unsigned :: "fmt \<Rightarrow> u64 \<Rightarrow> fault + str" where
  "fmt_unsigned self value =
     (let self = (if fmt_precision self = FMT_PRECISION_DEFAULT then self\<lparr>fmt_precision := 1\<rparr> else self\<lparr>fmt_fill := of_char CHR '' ''\<rparr>) in
      sbind (fmt_digits self (unat value) []) (\<lambda>buf.
      sbind (fmt_fill_to (of_char CHR ''0'') (fmt_precision self) buf) (\<lambda>buf.
      sbind (fmt_with (fmt_with_prefix self) (fmt_prefix self) buf) (\<lambda>buf.
      sbind (fmt_with (fmt_with_prefix self) (of_char CHR ''0'') buf) (\<lambda>buf.
      sbind (fmt_with (fmt_prefix_plus self) (of_char CHR ''+'') buf) (\<lambda>buf.
      sbind (fmt_fill_to (fmt_fill self) (fmt_width self) buf) (\<lambda>buf.
      Inr (rev buf))))))))"

definition fmt_char :: "fmt \<Rightarrow> u32 \<Rightarrow> str" where
  "fmt_char self character =
     (let c = sint character;
          c = (if fmt_casing self \<in> {CASE_CAPITAL, CASE_CONSTANT, CASE_UPPER_FIRST, CASE_UPPER} then toupper c
               else if fmt_casing self \<in> {CASE_NO, CASE_CAMEL, CASE_LOWER_FIRST, CASE_LOWER} then tolower c
               else if fmt_casing self = CASE_SWAP then (if isupper c then tolower c else toupper c)
               else c)
      in utf8_from_rune (of_int c))"

definition fmt_string :: "fmt \<Rightarrow> str \<Rightarrow> fault + str" where
  "fmt_string self value = (if fmt_casing self = CASE_DEFAULT then Inr value else case_change (fmt_casing self) value)"

datatype any = ANY_BOOL bool | ANY_INT int | ANY_UINT u64 | ANY_FLOAT | ANY_STR str | ANY_PTR u64

definition fmt_any :: "fmt \<Rightarrow> any \<Rightarrow> fault + str" where
  "fmt_any self value =
     (case value of
        ANY_INT i \<Rightarrow> if fmt_kind self = FMT_CHAR then Inr (fmt_char self (of_int i)) else fmt_signed self i
      | ANY_UINT u \<Rightarrow> if fmt_kind self = FMT_CHAR then Inr (fmt_char self (ucast u)) else fmt_unsigned self u
      | ANY_STR s \<Rightarrow> fmt_string self s
      | ANY_PTR p \<Rightarrow> fmt_unsigned self p
      | _ \<Rightarrow> Inr (lit ''<unknown>''))"

section \<open>Format strings\<close>

fun format_loop :: "nat \<Rightarrow> any list \<Rightarrow> bool \<Rightarrow> str \<Rightarrow> scan \<Rightarrow> fault + str" where
  "format_loop 0 args skip_fmt out s = Inl OutOfFuel"
| "format_loop (Suc n) args skip_fmt out s =
     (if scan_ended s then Inr out
      else sbind (scan_skip_word (lit ''{{'') s) (\<lambda>(open2, s).
      if open2 then format_loop n args False (out @ [of_char CHR ''{'']) s
      else sbind (scan_skip_word (lit ''}}'') s) (\<lambda>(close2, s).
      if close2 then format_loop n args False (out @ [of_char CHR ''}'']) s
      else sbind (scan_curr s) (\<lambda>c.
      if c = chr_int CHR ''{'' \<and> \<not> skip_fmt
      then sbind (fmt_parse s) (\<lambda>(f, s).
           case args of
             a # args \<Rightarrow> sbind (fmt_any f a) (\<lambda>bytes. format_loop n args skip_fmt (out @ bytes) s)
           | [] \<Rightarrow> format_loop n args skip_fmt (out @ lit ''{}'') s)
      else if c = 0x5c \<and> \<not> skip_fmt
      then sbind (scan_next s) (\<lambda>(_, s). format_loop n args True out s)
      else sbind (scan_next s) (\<lambda>(c, s). format_loop n args False (out @ [of_int c]) s)))))"

definition fmt_format :: "str \<Rightarrow> any list \<Rightarrow> fault + str" where
  "fmt_format format args = (let s = scan_init format in format_loop (Suc (scan_left s)) args False [] s)"

end
