(* ===== verification/Json.thy ===== *)
theory Json
  imports Fmt Hash_Map
begin

text \<open>
  The JSON library (\<open>json/objects.c\<close>, \<open>json/parser.c\<close>, \<open>json/emit.c\<close>) on the scanner and on the indenting
  writer of \<open>brutal-io/emit.c\<close>. An object is the list of its entries, no key twice, in the order in which
  \<open>map_foreach\<close> visits the map: bucket by bucket. Theory Json\_Props shows that \<open>entry_put\<close> is what
  \<open>map_put\<close> of theory Hash\_Map does to that list.
\<close>

section \<open>Values\<close>

datatype json =
    JSON_NULL
  | JSON_TRUE
  | JSON_FALSE
  | JSON_ARRAY "json list"
  | JSON_OBJECT "(str \<times> json) list"
  | JSON_STRING str
  | JSON_NUMBER int
  | JSON_ERROR

fun entry_put :: "str \<Rightarrow> json \<Rightarrow> (str \<times> json) list \<Rightarrow> (str \<times> json) list" where
  "entry_put key value [] = [(key, value)]"
| "entry_put key value ((k, v) # es) =
     (if k = key then (key, value) # es
      else if map_bucket (map_hash key) < map_bucket (map_hash k) then (key, value) # (k, v) # es
      else (k, v) # entry_put key value es)"

definition json_object :: json where "json_object = JSON_OBJECT []"

definition json_put :: "str \<Rightarrow> json \<Rightarrow> json \<Rightarrow> fault + json" where
  "json_put key value j =
     (case j of JSON_OBJECT es \<Rightarrow> Inr (JSON_OBJECT (entry_put key value es)) | _ \<Rightarrow> Inl (Panic ''json_is(*json, JSON_OBJECT)''))"

definition json_object_with_type :: "str \<Rightarrow> fault + json" where
  "json_object_with_type type = json_put (lit ''$type'') (JSON_STRING type) json_object"

definition json_try_get :: "json \<Rightarrow> str \<Rightarrow> fault + json option" where
  "json_try_get j key =
     (case j of JSON_OBJECT es \<Rightarrow> Inr (map_of es key) | _ \<Rightarrow> Inl (Panic ''json_is(json, JSON_OBJECT)''))"

definition json_get :: "json \<Rightarrow> str \<Rightarrow> fault + json" where
  "json_get j key = sbind (json_try_get j key) (\<lambda>r. Inr (case r of None \<Rightarrow> JSON_NULL | Some v \<Rightarrow> v))"

definition json_array :: json where "json_array = JSON_ARRAY []"

definition json_append :: "json \<Rightarrow> json \<Rightarrow> fault + json" where
  "json_append value j =
     (case j of JSON_ARRAY vs \<Rightarrow> Inr (JSON_ARRAY (vs @ [value])) | _ \<Rightarrow> Inl (Panic ''json_is(*json, JSON_ARRAY)''))"

definition json_at :: "json \<Rightarrow> int \<Rightarrow> fault + json" where
  "json_at j index =
     (case j of
        JSON_ARRAY vs \<Rightarrow> if 0 \<le> index \<and> nat index < length vs then Inr (vs ! nat index) else Inl OutOfBounds
      | _ \<Rightarrow> Inl (Panic ''json_is(json, JSON_ARRAY)''))"

definition json_len :: "json \<Rightarrow> fault + nat" where
  "json_len j = (case j of JSON_ARRAY vs \<Rightarrow> Inr (length vs) | _ \<Rightarrow> Inl (Panic ''json_is(json, JSON_ARRAY)''))"

section \<open>Parsing\<close>

definition SLASH :: int where "SLASH = chr_int CHR ''/''"
definition STAR :: int where "STAR = chr_int CHR ''*''"

fun comment_loop :: "nat \<Rightarrow> scan \<Rightarrow> fault + (bool \<times> scan)" where
  "comment_loop 0 s = Inl OutOfFuel"
| "comment_loop (Suc n) s =
     (if \<not> scan_ended s
      then sbind (scan_curr s) (\<lambda>c.
           sbind (if c = STAR then sbind (scan_peek s 1) (\<lambda>d. Inr (d = SLASH)) else Inr False) (\<lambda>close.
           if close then sbind (scan_next_n 2 s) (\<lambda>s. Inr (True, s))
           else sbind (scan_next s) (\<lambda>(_, s). comment_loop n s)))
      else sbind (scan_throw ''not closed comment'' (lit ''/*'') s) (\<lambda>s. Inr (False, s)))"

definition json_skip_comment :: "scan \<Rightarrow> fault + (bool \<times> scan)" where
  "json_skip_comment s =
     sbind (scan_curr s) (\<lambda>c.
     sbind (if c = SLASH then sbind (scan_peek s 1) (\<lambda>d. Inr (d = STAR)) else Inr False) (\<lambda>open1.
     if open1 then comment_loop (Suc (scan_left s)) s else Inr (False, s)))"

fun skip_loop :: "nat \<Rightarrow> scan \<Rightarrow> fault + scan" where
  "skip_loop 0 s = Inl OutOfFuel"
| "skip_loop (Suc n) s =
     sbind (scan_skip_space s) (\<lambda>(space, s).
     if space then skip_loop n s
     else sbind (json_skip_comment s) (\<lambda>(comment, s). if comment then skip_loop n s else Inr s))"

definition json_skip_space_and_comment :: "scan \<Rightarrow> fault + scan" where
  "json_skip_space_and_comment s = skip_loop (Suc (scan_left s)) s"

definition QUOTE :: int where "QUOTE = 0x22"

definition is_closing_string :: "int \<Rightarrow> bool" where
  "is_closing_string c \<longleftrightarrow> c \<noteq> QUOTE"

definition parse_str :: "scan \<Rightarrow> fault + (str \<times> scan)" where
  "parse_str s =
     sbind (json_skip_space_and_comment s) (\<lambda>s.
     sbind (scan_expect QUOTE s) (\<lambda>(_, s).
     sbind (scan_eat_match is_closing_string s) (\<lambda>(name, s).
     sbind (scan_expect QUOTE s) (\<lambda>(_, s).
     sbind (json_skip_space_and_comment s) (\<lambda>s. Inr (name, s))))))"

text \<open>The three routines call each other; the number bounds the calls and the turns of their loops.\<close>

fun json_parse_n :: "nat \<Rightarrow> scan \<Rightarrow> fault + (json \<times> scan)"
  and json_parse_array_n :: "nat \<Rightarrow> json list \<Rightarrow> scan \<Rightarrow> fault + (json \<times> scan)"
  and json_parse_object_n :: "nat \<Rightarrow> (str \<times> json) list \<Rightarrow> scan \<Rightarrow> fault + (json \<times> scan)" where
  "json_parse_n 0 s = Inl OutOfFuel"
| "json_parse_n (Suc n) s =
     sbind (json_skip_space_and_comment s) (\<lambda>s.
     sbind (scan_curr s) (\<lambda>c.
     if c = QUOTE then sbind (parse_str s) (\<lambda>(name, s). Inr (JSON_STRING name, s))
     else if isdigit c \<or> c = chr_int CHR ''-''
     then sbind (scan_next_int s) (\<lambda>(value, s). Inr (JSON_NUMBER (case value of None \<Rightarrow> 0 | Some v \<Rightarrow> v), s))
     else sbind (scan_skip_word (lit ''true'') s) (\<lambda>(found, s).
     if found then Inr (JSON_TRUE, s)
     else sbind (scan_skip_word (lit ''false'') s) (\<lambda>(found, s).
     if found then Inr (JSON_FALSE, s)
     else sbind (scan_skip_word (lit ''null'') s) (\<lambda>(found, s).
     if found then Inr (JSON_NULL, s)
     else sbind (scan_skip (chr_int CHR ''{'') s) (\<lambda>(found, s).
     if found then json_parse_object_n n [] s
     else sbind (scan_skip (chr_int CHR ''['') s) (\<lambda>(found, s).
     if found then json_parse_array_n n [] s
     else sbind (scan_throw ''expected a value'' [] s) (\<lambda>s. Inr (JSON_ERROR, s)))))))))"
| "json_parse_array_n 0 vs s = Inl OutOfFuel"
| "json_parse_array_n (Suc n) vs s =
     (let finish = (\<lambda>vs s. sbind (scan_expect (chr_int CHR '']'') s) (\<lambda>(_, s). Inr (JSON_ARRAY vs, s))) in
      sbind (scan_curr s) (\<lambda>c.
      if c \<noteq> chr_int CHR '']'' \<and> \<not> scan_ended s
      then sbind (json_parse_n n s) (\<lambda>(res, s).
           sbind (json_skip_space_and_comment s) (\<lambda>s.
           sbind (scan_skip (chr_int CHR '','') s) (\<lambda>(comma, s).
           if \<not> comma then finish (vs @ [res]) s
           else sbind (json_skip_space_and_comment s) (\<lambda>s. json_parse_array_n n (vs @ [res]) s))))
      else finish vs s))"
| "json_parse_object_n 0 es s = Inl OutOfFuel"
| "json_parse_object_n (Suc n) es s =
     (let finish = (\<lambda>es s. sbind (scan_expect (chr_int CHR ''}'') s) (\<lambda>(_, s). Inr (JSON_OBJECT es, s))) in
      sbind (scan_curr s) (\<lambda>c.
      if c \<noteq> chr_int CHR ''}'' \<and> \<not> scan_ended s
      then sbind (parse_str s) (\<lambda>(name, s).
           sbind (scan_expect (chr_int CHR '':'') s) (\<lambda>(_, s).
           sbind (json_parse_n n s) (\<lambda>(value, s).
           sbind (json_skip_space_and_comment s) (\<lambda>s.
           sbind (scan_skip (chr_int CHR '','') s) (\<lambda>(comma, s).
           if \<not> comma then finish (entry_put name value es) s
           else sbind (json_skip_space_and_comment s) (\<lambda>s. json_parse_object_n n (entry_put name value es) s))))))
      else finish es s))"

definition json_parse_str :: "str \<Rightarrow> fault + (json \<times> scan)" where
  "json_parse_str str = (let s = scan_init str in json_parse_n (2 * scan_left s + 2) s)"

section \<open>Emitting\<close>

record emit =
  em_indent :: int
  em_indent_size :: int
  em_line_begin :: bool
  em_out :: str

definition emit_init :: emit where
  "emit_init = \<lparr>em_indent = 0, em_indent_size = 4, em_line_begin = True, em_out = []\<rparr>"

definition emit_ident_size :: "int \<Rightarrow> emit \<Rightarrow> emit" where
  "emit_ident_size n e = e\<lparr>em_indent_size := n\<rparr>"

definition emit_ident :: "emit \<Rightarrow> emit" where
  "emit_ident e = e\<lparr>em_indent := em_indent e + 1\<rparr>"

definition emit_deident :: "emit \<Rightarrow> fault + emit" where
  "emit_deident e =
     sbind (assert_truth (em_indent e \<ge> 0) ''self->indent >= 0'') (\<lambda>_. Inr (e\<lparr>em_indent := em_indent e - 1\<rparr>))"

definition emit_byte :: "emit \<Rightarrow> u8 \<Rightarrow> emit" where
  "emit_byte e c =
     (let e = (if em_line_begin e
               then e\<lparr>em_out := em_out e @ replicate (nat (em_indent_size e * em_indent e)) 0x20, em_line_begin := False\<rparr>
               else e);
          e = (if c = 0x0a then e\<lparr>em_line_begin := True\<rparr> else e)
      in e\<lparr>em_out := em_out e @ [c]\<rparr>)"

definition emit_write_impl :: "str \<Rightarrow> emit \<Rightarrow> emit" where
  "emit_write_impl data e = foldl emit_byte e data"

definition emit_format :: "str \<Rightarrow> any list \<Rightarrow> emit \<Rightarrow> fault + emit" where
  "emit_format format args e = sbind (fmt_format format args) (\<lambda>bytes. Inr (emit_write_impl bytes e))"

definition json_emit_string :: "str \<Rightarrow> emit \<Rightarrow> fault + emit" where
  "json_emit_string str e =
     sbind (emit_format [0x22] [] e) (\<lambda>e.
     sbind (for_each (\<lambda>c e.
       sbind (if c = 0x22 then emit_format [0x5c] [] e else Inr e) (\<lambda>e. emit_format (lit ''{c}'') [ANY_UINT (ucast c)] e)) str e) (\<lambda>e.
     emit_format [0x22] [] e))"

fun json_emit :: "json \<Rightarrow> emit \<Rightarrow> fault + emit"
  and json_emit_items :: "bool \<Rightarrow> json list \<Rightarrow> emit \<Rightarrow> fault + emit"
  and json_emit_entries :: "bool \<Rightarrow> (str \<times> json) list \<Rightarrow> emit \<Rightarrow> fault + emit" where
  "json_emit JSON_NULL e = emit_format (lit ''null'') [] e"
| "json_emit JSON_TRUE e = emit_format (lit ''true'') [] e"
| "json_emit JSON_FALSE e = emit_format (lit ''false'') [] e"
| "json_emit (JSON_ARRAY vs) e =
     sbind (emit_format (lit ''['') [] e) (\<lambda>e.
     sbind (json_emit_items True vs (emit_ident e)) (\<lambda>e.
     sbind (if vs \<noteq> [] then emit_format [0x0a] [] e else Inr e) (\<lambda>e.
     sbind (emit_deident e) (\<lambda>e. emit_format (lit '']'') [] e))))"
| "json_emit (JSON_OBJECT es) e =
     sbind (emit_format (lit ''{{'') [] e) (\<lambda>e.
     sbind (json_emit_entries True es (emit_ident e)) (\<lambda>e.
     sbind (if es \<noteq> [] then emit_format [0x0a] [] e else Inr e) (\<lambda>e.
     sbind (emit_deident e) (\<lambda>e. emit_format (lit ''}}'') [] e))))"
| "json_emit (JSON_STRING s) e = json_emit_string s e"
| "json_emit (JSON_NUMBER i) e = emit_format (lit ''{}'') [ANY_INT i] e"
| "json_emit JSON_ERROR e = Inl (Panic ''Unknow json type {}'')"
| "json_emit_items first [] e = Inr e"
| "json_emit_items first (v # vs) e =
     sbind (if \<not> first then emit_format (lit '','') [] e else Inr e) (\<lambda>e.
     sbind (emit_format [0x0a] [] e) (\<lambda>e.
     sbind (json_emit v e) (\<lambda>e. json_emit_items False vs e)))"
| "json_emit_entries first [] e = Inr e"
| "json_emit_entries first ((k, v) # es) e =
     sbind (if \<not> first then emit_format (lit '','') [] e else Inr e) (\<lambda>e.
     sbind (emit_format [0x0a] [] e) (\<lambda>e.
     sbind (json_emit_string k e) (\<lambda>e.
     sbind (emit_format (lit '': '') [] e) (\<lambda>e.
     sbind (json_emit v e) (\<lambda>e. json_emit_entries False es e)))))"

end
