(* ===== verification/Fmt_Props.thy ===== *)
theory Fmt_Props
  imports Fmt
begin

text \<open>
  What the format strings print and how the scanner reads it back: the decimal text of a number, and the
  round trip from a number to its text and back.
\<close>

section \<open>Numbers\<close>

text \<open>The decimal digits of a number, the last one first.\<close>

fun dec :: "nat \<Rightarrow> str" where
  "dec n = (if n = 0 then [] else of_nat (48 + n mod 10) # dec (n div 10))"

declare dec.simps [simp del]

lemma dec_0 [simp]: "dec 0 = []" by (simp add: dec.simps)

lemma dec_step: "0 < n \<Longrightarrow> dec n = of_nat (48 + n mod 10) # dec (n div 10)"
  by (subst dec.simps) simp

definition decimal :: "fmt \<Rightarrow> bool" where
  "decimal f \<longleftrightarrow> fmt_kind f \<in> {FMT_NONE, FMT_DECIMAL, FMT_STRING, FMT_CHAR}"

lemma decimal_base: "decimal f \<Longrightarrow> fmt_base f = 10"
  by (auto simp: decimal_def fmt_base_def)

lemma decimal_digit:
  assumes "decimal f" "d < 10"
  shows "fmt_digit f d = of_nat (48 + d)"
proof -
  have "d \<in> {0, 1, 2, 3, 4, 5, 6, 7, 8, 9}" using assms(2) by auto
  then show ?thesis using decimal_base [OF assms(1)] by (auto simp: fmt_digit_def lit_def)
qed

lemma fmt_digits_dec:
  "decimal f \<Longrightarrow> length buf + length (dec n) \<le> 1024 \<Longrightarrow> fmt_digits f n buf = Inr (buf @ dec n)"
proof (induction n arbitrary: buf rule: less_induct)
  case (less n)
  show ?case
  proof (cases "n = 0")
    case False
    then have d: "dec n = of_nat (48 + n mod 10) # dec (n div 10)" by (simp add: dec_step)
    have "fmt_digits f (n div 10) (buf @ [of_nat (48 + n mod 10)]) = Inr ((buf @ [of_nat (48 + n mod 10)]) @ dec (n div 10))"
      using less.prems d False by (intro less.IH) auto
    then show ?thesis using less.prems d False
      by (subst fmt_digits.simps) (simp add: decimal_base decimal_digit fmt_put_def)
  qed (simp add: fmt_digits.simps)
qed

declare fmt_digits.simps [simp del]

lemma length_dec: "n < 10 ^ k \<Longrightarrow> length (dec n) \<le> k"
proof (induction k arbitrary: n)
  case (Suc k)
  show ?case
  proof (cases "n = 0")
    case False
    have "n div 10 < 10 ^ k" using Suc.prems by (simp add: less_mult_imp_div_less mult.commute)
    then show ?thesis using Suc.IH [of "n div 10"] False by (simp add: dec_step)
  qed simp
qed simp

definition number_text :: "int \<Rightarrow> str" where
  "number_text v = (if v < 0 then [0x2d] else []) @ (if v = 0 then [0x30] else rev (dec (nat \<bar>v\<bar>)))"

definition plain_number :: "fmt \<Rightarrow> bool" where
  "plain_number f \<longleftrightarrow> decimal f \<and> fmt_precision f = FMT_PRECISION_DEFAULT \<and> fmt_width f \<le> 0 \<and> \<not> fmt_with_prefix f \<and> \<not> fmt_prefix_plus f"

lemma fmt_signed_text:
  assumes "plain_number f" "long_fits v" "long_fits (- v)"
  shows "fmt_signed f v = Inr (number_text v)"
proof -
  let ?f = "f\<lparr>fmt_precision := 1\<rparr>" and ?n = "nat \<bar>v\<bar>"
  have f: "decimal ?f" "fmt_precision f = FMT_PRECISION_DEFAULT" "nat (fmt_width f) = 0" "\<not> fmt_with_prefix f" "\<not> fmt_prefix_plus f"
    using assms(1) by (auto simp: plain_number_def decimal_def)
  have "?n < 10 ^ 20" using assms(2) by (auto simp: long_fits_def)
  then have len: "length (dec ?n) \<le> 20" by (rule length_dec)
  then have d: "fmt_digits ?f ?n [] = Inr (dec ?n)" using fmt_digits_dec [OF f(1), of "[]" ?n] by simp
  have ne: "dec ?n \<noteq> []" if "v \<noteq> 0" using that by (simp add: dec_step)
  have fill: "fmt_fill_to 0x30 1 (dec ?n) = Inr (if v = 0 then [0x30] else dec ?n)"
    using ne by (cases "dec ?n") (auto simp: fmt_fill_to_def fmt_put_def)
  show ?thesis
    using d fill f len assms(3)
    by (auto simp: fmt_signed_def Let_def long_result_def fmt_with_def fmt_put_def fmt_fill_to_def number_text_def)
qed

text \<open>Reading the digits back.\<close>

lemma digit_sint:
  assumes "d < 10"
  shows "sint (of_nat (48 + d) :: u8) = 48 + int d"
proof -
  have "d \<in> {0, 1, 2, 3, 4, 5, 6, 7, 8, 9}" using assms by auto
  then show ?thesis by auto
qed

lemma int_loop_dec:
  "int n < 2 ^ 63 \<Longrightarrow> int_loop (length (dec n) + k) b 0 (sc_at pre (rev (dec n) @ post)) = int_loop k (b \<or> n \<noteq> 0) (int n) (sc_at (pre @ rev (dec n)) post)"
proof (induction n arbitrary: k post rule: less_induct)
  case (less n)
  show ?case
  proof (cases "n = 0")
    case False
    let ?m = "n div 10" and ?d = "n mod 10"
    have d: "dec n = of_nat (48 + ?d) # dec ?m" using False by (simp add: dec_step)
    have "int ?m < 2 ^ 63" using less.prems by (simp add: zdiv_int)
    moreover have "?m < n" using False by simp
    ultimately have "int_loop (length (dec ?m) + Suc k) b 0 (sc_at pre (rev (dec ?m) @ of_nat (48 + ?d) # post)) =
        int_loop (Suc k) (b \<or> ?m \<noteq> 0) (int ?m) (sc_at (pre @ rev (dec ?m)) (of_nat (48 + ?d) # post))"
      by (intro less.IH)
    also have "\<dots> = int_loop k True (int n) (sc_at (pre @ rev (dec n)) post)"
    proof -
      have n: "int n = int ?m * 10 + int ?d" by (simp add: zdiv_int zmod_int)
      have s: "sint (of_nat (48 + ?d) :: u8) = 48 + int ?d" by (rule digit_sint) simp
      have "long_fits (int ?m * 10)" "long_fits (int ?m * 10 + int ?d)" using less.prems n by (auto simp: long_fits_def)
      moreover have "?d \<le> 9" using mod_less_divisor [of 10 n] by simp
      ultimately show ?thesis using s n False by (simp add: d long_result_def del: of_nat_add)
    qed
    finally show ?thesis using d False by simp
  qed simp
qed

definition no_digit :: "str \<Rightarrow> bool" where
  "no_digit post \<longleftrightarrow> (case post of [] \<Rightarrow> True | c # _ \<Rightarrow> \<not> isdigit (sint c))"

lemma int_loop_stop: "no_digit post \<Longrightarrow> int_loop (Suc k) b v (sc_at pre post) = Inr (b, v, sc_at pre post)"
  by (auto simp: no_digit_def isdigit_def split: list.splits)

lemma int_loop_number:
  assumes "int n < 2 ^ 63" "no_digit post" "length (dec n) < k"
  shows "int_loop k b 0 (sc_at pre (rev (dec n) @ post)) = Inr (b \<or> n \<noteq> 0, int n, sc_at (pre @ rev (dec n)) post)"
proof -
  obtain j where "k = length (dec n) + Suc j" using assms(3) by (metis less_iff_Suc_add add_Suc_right)
  then show ?thesis using int_loop_dec [OF assms(1), of "Suc j" b pre post] int_loop_stop [OF assms(2)] by simp
qed

lemma hd_rev_dec:
  "0 < n \<Longrightarrow> \<exists>d ds. rev (dec n) = d # ds \<and> isdigit (sint d)"
proof (induction n rule: less_induct)
  case (less n)
  have d: "dec n = of_nat (48 + n mod 10) # dec (n div 10)" using less.prems by (simp add: dec_step)
  show ?case
  proof (cases "n div 10 = 0")
    case True
    have "sint (of_nat (48 + n mod 10) :: u8) = 48 + int (n mod 10)" by (rule digit_sint) simp
    moreover have "n mod 10 \<le> 9" using mod_less_divisor [of 10 n] by simp
    ultimately show ?thesis using True d by (simp add: isdigit_def del: of_nat_add)
  next
    case False
    then obtain e es where "rev (dec (n div 10)) = e # es" "isdigit (sint e)" using less.IH [of "n div 10"] less.prems by auto
    then show ?thesis using d by simp
  qed
qed

lemma scan_number:
  assumes "long_fits v" "long_fits (- v)" "no_digit post"
  shows "scan_next_int (sc_at pre (number_text v @ post)) = Inr (Some v, sc_at (pre @ number_text v) post)"
proof (cases "v = 0")
  case True
  have "no_digit post \<Longrightarrow> int_loop (Suc (Suc (length post))) False 0 (sc_at pre (0x30 # post)) = Inr (True, 0, sc_at (pre @ [0x30]) post)"
    using int_loop_stop [of post "length post" True 0 "pre @ [0x30]"] by (simp add: long_result_def long_fits_def del: int_loop.simps(2) add: int_loop.simps(2) [of "Suc _"])
  then show ?thesis using True assms(3) by (simp add: scan_next_int_def number_text_def del: int_loop.simps)
next
  case False
  let ?n = "nat \<bar>v\<bar>"
  have n: "int ?n < 2 ^ 63" "0 < ?n" using assms False by (auto simp: long_fits_def)
  obtain d ds where hd: "rev (dec ?n) = d # ds" "isdigit (sint d)" using hd_rev_dec [OF n(2)] by blast
  have loop: "int_loop (Suc (length (rev (dec ?n) @ post))) b 0 (sc_at p (rev (dec ?n) @ post)) = Inr (True, int ?n, sc_at (p @ rev (dec ?n)) post)" for b p
    using int_loop_number [OF n(1) assms(3)] n(2) by (simp del: int_loop.simps)
  show ?thesis
  proof (cases "v < 0")
    case True
    have "isdigit (sint d) \<Longrightarrow> sint d \<noteq> 45" by (auto simp: isdigit_def)
    then show ?thesis using True hd loop [of True "pre @ [0x2d]"] assms(1)
      by (simp add: scan_next_int_def number_text_def long_result_def del: int_loop.simps)
  next
    case nonneg: False
    have "sint d \<noteq> 45" using hd(2) by (auto simp: isdigit_def)
    then show ?thesis using nonneg False hd loop [of False pre]
      by (simp add: scan_next_int_def number_text_def del: int_loop.simps)
  qed
qed

section \<open>Format strings\<close>

lemma lit_simps [simp]: "lit [] = []" "lit (c # cs) = of_char c # lit cs"
  by (simp_all add: lit_def)

definition plain_byte :: "u8 \<Rightarrow> bool" where
  "plain_byte c \<longleftrightarrow> c \<noteq> 0x7b \<and> c \<noteq> 0x7d \<and> c \<noteq> 0x5c"

lemma sint_brace: "sint (c :: u8) = 123 \<longleftrightarrow> c = 0x7b" "sint c = 92 \<longleftrightarrow> c = 0x5c"
  using sint_eq_ascii [of "0x7b" c] sint_eq_ascii [of "0x5c" c] by simp_all

lemma format_loop_plain:
  "plain_byte c \<Longrightarrow> format_loop (Suc n) args skip out (sc_at pre (c # post)) = format_loop n args False (out @ [c]) (sc_at (pre @ [c]) post)"
  by (auto simp: plain_byte_def scan_skip_word_at sint_brace)

lemma format_loop_text:
  "list_all plain_byte t \<Longrightarrow> format_loop (length t + Suc n) args False out (sc_at pre t) = Inr (out @ t)"
proof (induction t arbitrary: pre out)
  case (Cons c t)
  then show ?case using format_loop_plain [of c "length t + Suc n" args False out pre t] by (simp del: format_loop.simps)
qed simp

lemma fmt_format_text:
  assumes "list_all plain_byte t" "length t < 2 ^ 31"
  shows "fmt_format t args = Inr t"
  using format_loop_text [OF assms(1), of 0 args "[]" "[]"] assms(2) by (simp add: fmt_format_def scan_init_at del: format_loop.simps)

lemma fmt_parse_default: "fmt_parse (sc_at [] (lit ''{}'')) = Inr (fmt_init, sc_at (lit ''{}'') [])"
  by (simp add: fmt_parse_def sc_at_skip)

lemma fmt_parse_char: "fmt_parse (sc_at [] (lit ''{c}'')) = Inr (fmt_init\<lparr>fmt_kind := FMT_CHAR\<rparr>, sc_at (lit ''{c}'') [])"
  by code_simp

lemma sbind_Inr: "sbind r Inr = r"
  by (cases r) simp_all

lemma fmt_format_default: "fmt_format (lit ''{}'') [a] = fmt_any fmt_init a"
  using fmt_parse_default by (simp add: fmt_format_def scan_init_at scan_skip_word_at sbind_Inr)

lemma fmt_char_ascii: "uint c < 128 \<Longrightarrow> fmt_casing f = CASE_DEFAULT \<Longrightarrow> fmt_char f (ucast (ucast (c :: u8) :: u64)) = [c]"
proof -
  assume a: "uint c < 128" "fmt_casing f = CASE_DEFAULT"
  let ?r = "ucast (ucast c :: u64) :: u32"
  have u: "uint ?r = uint c" proof -
    have "?r = ucast c" by (rule bit_word_eqI) (auto simp: bit_simps)
    then show ?thesis by (simp add: uint_up_ucast is_up)
  qed
  have "unat ?r \<le> 127" using u a(1) unfolding unat_eq_nat_uint by linarith
  then have "?r \<le> 0x7F" by (simp add: word_le_nat_alt)
  moreover have "ucast ?r = c" by (rule bit_word_eqI) (auto simp: bit_simps)
  ultimately show ?thesis using a(2) by (simp add: fmt_char_def utf8_from_rune_def)
qed

lemma fmt_format_char: "uint c < 128 \<Longrightarrow> fmt_format (lit ''{c}'') [ANY_UINT (ucast c)] = Inr [c]"
  using fmt_parse_char fmt_char_ascii [of c "fmt_init\<lparr>fmt_kind := FMT_CHAR\<rparr>"] 
  by (simp add: fmt_format_def scan_init_at scan_skip_word_at fmt_any_def) (simp add: fmt_init_def)

lemma fmt_format_braces: "fmt_format (lit ''{{'') args = Inr [0x7b]" "fmt_format (lit ''}}'') args = Inr [0x7d]"
  by (simp_all add: fmt_format_def scan_init_at scan_skip_word_at)

lemma plain_number_init: "plain_number fmt_init"
  by (simp add: plain_number_def decimal_def fmt_init_def)

lemma fmt_format_number:
  assumes "long_fits v" "long_fits (- v)"
  shows "fmt_format (lit ''{}'') [ANY_INT v] = Inr (number_text v)"
  using fmt_format_default [of "ANY_INT v"] fmt_signed_text [OF plain_number_init assms]
  by (simp add: fmt_any_def fmt_init_def)

lemma length_number_text: "long_fits v \<Longrightarrow> length (number_text v) \<le> 21"
proof -
  assume "long_fits v"
  then have "nat \<bar>v\<bar> < 10 ^ 20" by (auto simp: long_fits_def)
  from length_dec [OF this] show ?thesis by (auto simp: number_text_def)
qed

text \<open>
  C38. Printing a number and reading it back gives the number: for every \<open>long\<close> but the least, the format
  string \<open>{}\<close> prints the sign and the decimal digits of the number, and \<open>str_to_int\<close> of that text is the
  number again. (The least one cannot be negated: \<open>fmt_signed\<close> does so before it prints the digits.)
\<close>

theorem fmt_int_roundtrip:
  assumes "- (2 ^ 63) < v" "v < 2 ^ 63"
  shows "\<exists>t. fmt_format (lit ''{}'') [ANY_INT v] = Inr t \<and> str_to_int t = Inr (Some v)"
proof -
  have v: "long_fits v" "long_fits (- v)" using assms by (auto simp: long_fits_def)
  have "str_to_int (number_text v) = Inr (Some v)"
    using scan_number [OF v, of "[]" "[]"] length_number_text [OF v(1)] by (simp add: str_to_int_def scan_init_at no_digit_def)
  then show ?thesis using fmt_format_number [OF v] by blast
qed

lemma fmt_int_roundtrip_witness:
  "\<exists>t. fmt_format (lit ''{}'') [ANY_INT (- 9223372036854775807)] = Inr t \<and> str_to_int t = Inr (Some (- 9223372036854775807))"
  by (rule fmt_int_roundtrip) simp_all

end
