(* ===== verification/Json_Props.thy ===== *)
theory Json_Props
  imports Json Fmt_Props
begin

text \<open>
  The JSON library: objects are the hash maps of \<open>map.c\<close>, what \<open>json_emit\<close> writes, and that \<open>json_parse\<close> reads
  it back.
\<close>

section \<open>Texts\<close>

text \<open>
  The text of a value, \<open>d\<close> levels deep, with \<open>w\<close> spaces for each: every element and every entry on a line of
  its own.
\<close>

definition line :: "int \<Rightarrow> str" where
  "line n = 0x0a # replicate (nat n) 0x20"

fun json_text :: "int \<Rightarrow> int \<Rightarrow> json \<Rightarrow> str"
  and items_text :: "int \<Rightarrow> int \<Rightarrow> json list \<Rightarrow> str"
  and entries_text :: "int \<Rightarrow> int \<Rightarrow> (str \<times> json) list \<Rightarrow> str" where
  "json_text w d JSON_NULL = lit ''null''"
| "json_text w d JSON_TRUE = lit ''true''"
| "json_text w d JSON_FALSE = lit ''false''"
| "json_text w d (JSON_ARRAY []) = lit ''[]''"
| "json_text w d (JSON_ARRAY (v # vs)) =
     lit ''['' @ line (w * (d + 1)) @ json_text w (d + 1) v @ items_text w (d + 1) vs @ line (w * d) @ lit '']''"
| "json_text w d (JSON_OBJECT []) = lit ''{}''"
| "json_text w d (JSON_OBJECT ((k, v) # es)) =
     lit ''{'' @ line (w * (d + 1)) @ [0x22] @ k @ [0x22] @ lit '': '' @ json_text w (d + 1) v @ entries_text w (d + 1) es @ line (w * d) @ lit ''}''"
| "json_text w d (JSON_STRING s) = [0x22] @ s @ [0x22]"
| "json_text w d (JSON_NUMBER i) = number_text i"
| "json_text w d JSON_ERROR = []"
| "items_text w d [] = []"
| "items_text w d (v # vs) = lit '','' @ line (w * d) @ json_text w d v @ items_text w d vs"
| "entries_text w d [] = []"
| "entries_text w d ((k, v) # es) =
     lit '','' @ line (w * d) @ [0x22] @ k @ [0x22] @ lit '': '' @ json_text w d v @ entries_text w d es"

text \<open>
  The values that can be written: numbers other than the least, and texts of ASCII characters with no quote
  and no line feed.
\<close>

definition str_plain :: "str \<Rightarrow> bool" where
  "str_plain s \<longleftrightarrow> (\<forall>c\<in>set s. uint c < 128 \<and> c \<noteq> 0x22 \<and> c \<noteq> 0x0a)"

definition key_bucket :: "str \<Rightarrow> nat" where
  "key_bucket k = map_bucket (map_hash k)"

definition keys_ok :: "str list \<Rightarrow> bool" where
  "keys_ok ks \<longleftrightarrow> distinct ks \<and> sorted (map key_bucket ks)"

fun json_plain :: "json \<Rightarrow> bool" where
  "json_plain (JSON_ARRAY vs) \<longleftrightarrow> (\<forall>v\<in>set vs. json_plain v)"
| "json_plain (JSON_OBJECT es) \<longleftrightarrow> keys_ok (map fst es) \<and> (\<forall>e\<in>set es. str_plain (fst e) \<and> json_plain (snd e))"
| "json_plain (JSON_STRING s) \<longleftrightarrow> str_plain s"
| "json_plain (JSON_NUMBER i) \<longleftrightarrow> long_fits i \<and> long_fits (- i)"
| "json_plain JSON_ERROR \<longleftrightarrow> False"
| "json_plain _ \<longleftrightarrow> True"

section \<open>Emitting\<close>

definition lead :: "emit \<Rightarrow> str" where
  "lead e = (if em_line_begin e then replicate (nat (em_indent_size e * em_indent e)) 0x20 else [])"

text \<open>The writer after a text with no line feed in it.\<close>

definition emitted :: "str \<Rightarrow> emit \<Rightarrow> emit" where
  "emitted t e = e\<lparr>em_line_begin := False, em_out := em_out e @ lead e @ t\<rparr>"

lemma emitted_simps [simp]:
  "em_indent (emitted t e) = em_indent e" "em_indent_size (emitted t e) = em_indent_size e"
  "em_line_begin (emitted t e) = False" "em_out (emitted t e) = em_out e @ lead e @ t"
  "emitted u (emitted t e) = emitted (t @ u) e"
  by (simp_all add: emitted_def lead_def)

lemma emit_write_nonl:
  "0x0a \<notin> set t \<Longrightarrow> t \<noteq> [] \<Longrightarrow> emit_write_impl t e = emitted t e"
proof (induction t arbitrary: e)
  case (Cons c t)
  have b: "emit_byte e c = emitted [c] e" using Cons.prems by (auto simp: emit_byte_def emitted_def lead_def)
  show ?case
  proof (cases "t = []")
    case True
    then show ?thesis using b by (simp add: emit_write_impl_def)
  next
    case False
    then show ?thesis using Cons.IH [of "emitted [c] e"] Cons.prems b by (simp add: emit_write_impl_def)
  qed
qed simp

lemma emit_line: "em_line_begin e = False \<Longrightarrow> emit_format [0x0a] [] e = Inr (e\<lparr>em_line_begin := True, em_out := em_out e @ [0x0a]\<rparr>)"
  by (simp add: emit_format_def fmt_format_text plain_byte_def emit_write_impl_def emit_byte_def)

lemma emit_text:
  "list_all plain_byte t \<Longrightarrow> 0x0a \<notin> set t \<Longrightarrow> t \<noteq> [] \<Longrightarrow> length t < 2 ^ 31 \<Longrightarrow> emit_format t [] e = Inr (emitted t e)"
  by (simp add: emit_format_def fmt_format_text emit_write_nonl)

lemma emit_braces: "emit_format (lit ''{{'') [] e = Inr (emitted (lit ''{'') e)" "emit_format (lit ''}}'') [] e = Inr (emitted (lit ''}'') e)"
  using fmt_format_braces [of "[]"] by (simp_all add: emit_format_def emit_write_nonl)

lemma emit_bytes:
  "str_plain s \<Longrightarrow> for_each (\<lambda>c e. sbind (if c = 0x22 then emit_format [0x5c] [] e else Inr e) (\<lambda>e. emit_format (lit ''{c}'') [ANY_UINT (ucast c)] e)) s (emitted t e) = Inr (emitted (t @ s) e)"
proof (induction s arbitrary: t)
  case (Cons c s)
  have c: "uint c < 128" "c \<noteq> 0x22" "c \<noteq> 0x0a" and s: "str_plain s" using Cons.prems by (auto simp: str_plain_def)
  have "emit_format (lit ''{c}'') [ANY_UINT (ucast c)] (emitted t e) = Inr (emitted (t @ [c]) e)"
    using c unfolding emit_format_def fmt_format_char [OF c(1)] by (simp add: emit_write_nonl)
  then show ?case using c(2) Cons.IH [OF s, of "t @ [c]"] by (simp del: lit_simps)
qed simp

lemma emit_string: "str_plain s \<Longrightarrow> json_emit_string s e = Inr (emitted ([0x22] @ s @ [0x22]) e)"
  using emit_bytes [of s "[0x22]" e] by (simp add: json_emit_string_def emit_text plain_byte_def del: lit_simps)

lemma emitted_nil: "\<not> em_line_begin e \<Longrightarrow> emitted [] e = e"
  by (simp add: emitted_def lead_def)

lemma emitted_line:
  "\<not> em_line_begin e \<Longrightarrow> emitted t (e\<lparr>em_line_begin := True, em_out := em_out e @ [0x0a]\<rparr>) = emitted (line (em_indent_size e * em_indent e) @ t) e"
  by (simp add: emitted_def lead_def line_def)

lemma emitted_indent:
  "\<not> em_line_begin e \<Longrightarrow> emitted t (e\<lparr>em_indent := i\<rparr>) = (emitted t e)\<lparr>em_indent := i\<rparr>"
  by (simp add: emitted_def lead_def)

lemma dec_digits: "c \<in> set (dec n) \<Longrightarrow> isdigit (sint c)"
proof (induction n rule: less_induct)
  case (less n)
  then have n: "0 < n" by (cases n) auto
  have "sint (of_nat (48 + n mod 10) :: u8) = 48 + int (n mod 10)" by (rule digit_sint) simp
  moreover have "n mod 10 \<le> 9" using mod_less_divisor [of 10 n] by simp
  ultimately have "isdigit (sint (of_nat (48 + n mod 10) :: u8))" by (simp add: isdigit_def del: of_nat_add)
  moreover have "n div 10 < n" using n by simp
  ultimately show ?case using less.IH [of "n div 10"] less.prems n by (auto simp: dec_step [of n])
qed

lemma number_text_nonl: "0x0a \<notin> set (number_text v)" "number_text v \<noteq> []"
  using dec_digits [of "0x0a" "nat \<bar>v\<bar>"] by (auto simp: number_text_def isdigit_def dec_step)

lemma json_emit_text:
  "json_plain j \<Longrightarrow> em_indent_size e = w \<Longrightarrow> em_indent e = d \<Longrightarrow> 0 \<le> d \<Longrightarrow> json_emit j e = Inr (emitted (json_text w d j) e)"
  "(\<forall>v\<in>set vs. json_plain v) \<Longrightarrow> em_indent_size e = w \<Longrightarrow> em_indent e = d \<Longrightarrow> 0 \<le> d \<Longrightarrow> \<not> em_line_begin e \<Longrightarrow> json_emit_items False vs e = Inr (emitted (items_text w d vs) e)"
  "(\<forall>x\<in>set es. str_plain (fst x) \<and> json_plain (snd x)) \<Longrightarrow> em_indent_size e = w \<Longrightarrow> em_indent e = d \<Longrightarrow> 0 \<le> d \<Longrightarrow> \<not> em_line_begin e \<Longrightarrow> json_emit_entries False es e = Inr (emitted (entries_text w d es) e)"
proof (induction w d j and w d vs and w d es arbitrary: e and e and e rule: json_text_items_text_entries_text.induct)
  case (1 w d)
  then show ?case by (simp add: emit_text plain_byte_def)
next
  case (2 w d)
  then show ?case by (simp add: emit_text plain_byte_def)
next
  case (3 w d)
  then show ?case by (simp add: emit_text plain_byte_def)
next
  case (4 w d)
  then show ?case by (simp add: emit_text plain_byte_def emit_ident_def emit_deident_def emitted_indent)
next
  case (5 w d v vs)
  then show ?case by (simp add: emit_text plain_byte_def emit_ident_def emit_deident_def emitted_indent emit_line) (simp add: emitted_def lead_def line_def)
next
  case (6 w d)
  then show ?case by (simp add: emit_braces [simplified] emit_ident_def emit_deident_def emitted_indent)
next
  case (7 w d k v es)
  then show ?case by (simp add: emit_text emit_string [simplified] plain_byte_def emit_braces [simplified] emit_ident_def emit_deident_def emitted_indent emit_line) (simp add: emitted_def lead_def line_def)
next
  case (8 w d s)
  then show ?case using emit_string by simp
next
  case (9 w d i)
  then show ?case using fmt_format_number [of i] number_text_nonl by (simp add: emit_format_def emit_write_nonl del: lit_simps)
next
  case (10 w d)
  then show ?case by simp
next
  case (11 w d)
  then show ?case by (simp add: emitted_nil)
next
  case (12 w d v vs)
  then show ?case by (simp add: emit_text plain_byte_def emit_line) (simp add: emitted_def lead_def line_def)
next
  case (13 w d)
  then show ?case by (simp add: emitted_nil)
next
  case (14 w d k v es)
  then show ?case by (simp add: emit_text plain_byte_def emit_line emit_string [simplified]) (simp add: emitted_def lead_def line_def)
qed

section \<open>Parsing\<close>

abbreviation space :: "u8 \<Rightarrow> bool" where "space \<equiv> isspace \<circ> sint"

definition no_comment :: "str \<Rightarrow> bool" where
  "no_comment t \<longleftrightarrow> (case dropWhile space t of [] \<Rightarrow> True | c # _ \<Rightarrow> c \<noteq> 0x2f)"

lemma sint_slash: "sint (c :: u8) = 47 \<longleftrightarrow> c = 0x2f"
  using sint_eq_ascii [of "0x2f" c] by simp

lemma skip_comment_none:
  "(case t of [] \<Rightarrow> True | c # _ \<Rightarrow> c \<noteq> 0x2f) \<Longrightarrow> json_skip_comment (sc_at pre t) = Inr (False, sc_at pre t)"
  by (cases t) (simp_all add: json_skip_comment_def SLASH_def sint_slash)

lemma skip_at:
  assumes "no_comment t"
  shows "json_skip_space_and_comment (sc_at pre t) = Inr (sc_at (pre @ takeWhile space t) (dropWhile space t))"
proof -
  let ?t = "dropWhile space t"
  have "json_skip_comment (sc_at p ?t) = Inr (False, sc_at p ?t)" for p
    using assms by (intro skip_comment_none) (simp add: no_comment_def)
  moreover have "takeWhile space ?t = []" by (induction t) simp_all
  moreover have "takeWhile space t = [] \<Longrightarrow> ?t = t" by (cases t) auto
  ultimately show ?thesis
    by (cases t) (auto simp: json_skip_space_and_comment_def scan_skip_space_def scan_eat_at)
qed

lemma span_space:
  "\<forall>c\<in>set ws. space c \<Longrightarrow> \<not> space c \<Longrightarrow> takeWhile space (ws @ c # t) = ws"
  "\<forall>c\<in>set ws. space c \<Longrightarrow> \<not> space c \<Longrightarrow> dropWhile space (ws @ c # t) = c # t"
  by (induction ws) auto

lemma skip_to:
  "\<forall>c\<in>set ws. space c \<Longrightarrow> \<not> space c \<Longrightarrow> c \<noteq> 0x2f \<Longrightarrow> json_skip_space_and_comment (sc_at pre (ws @ c # t)) = Inr (sc_at (pre @ ws) (c # t))"
  using skip_at [of "ws @ c # t" pre] by (simp add: no_comment_def span_space del: comp_apply)

lemma sint_quote: "sint (c :: u8) = 34 \<longleftrightarrow> c = 0x22"
  using sint_eq_ascii [of "0x22" c] by simp

lemma str_plain_span:
  "str_plain s \<Longrightarrow> takeWhile (is_closing_string \<circ> sint) (s @ 0x22 # t) = s"
  "str_plain s \<Longrightarrow> dropWhile (is_closing_string \<circ> sint) (s @ 0x22 # t) = 0x22 # t"
  by (induction s) (auto simp: str_plain_def is_closing_string_def QUOTE_def sint_quote)

lemma space_quote: "\<not> space 0x22"
  by (simp add: isspace_def)

lemma str_at:
  assumes "str_plain s" "\<forall>c\<in>set ws. space c" "no_comment t"
  shows "parse_str (sc_at pre (ws @ [0x22] @ s @ [0x22] @ t)) = Inr (s, sc_at (pre @ ws @ [0x22] @ s @ [0x22] @ takeWhile space t) (dropWhile space t))"
  using assms skip_to [OF assms(2) space_quote, of pre "s @ [0x22] @ t"]
  by (simp add: parse_str_def sc_at_expect scan_eat_match_at str_plain_span QUOTE_def skip_at del: comp_apply)

text \<open>What the parser has read after a value: the spaces after a text are read with it.\<close>

definition parsed :: "json \<Rightarrow> str \<Rightarrow> str \<Rightarrow> scan" where
  "parsed j pre post =
     (case j of JSON_STRING _ \<Rightarrow> sc_at (pre @ takeWhile space post) (dropWhile space post) | _ \<Rightarrow> sc_at pre post)"

lemma parsed_skip:
  assumes "no_comment post"
  shows "json_skip_space_and_comment (parsed j pre post) = Inr (sc_at (pre @ takeWhile space post) (dropWhile space post))"
proof -
  have "dropWhile space (dropWhile space post) = dropWhile space post" "takeWhile space (dropWhile space post) = []"
    by (induction post) simp_all
  moreover from this have "no_comment (dropWhile space post)" using assms by (simp add: no_comment_def)
  ultimately show ?thesis using skip_at [OF assms] skip_at [of "dropWhile space post"]
    by (simp add: parsed_def split: json.splits)
qed

definition stop :: "str \<Rightarrow> bool" where
  "stop post \<longleftrightarrow> no_digit post \<and> no_comment post"

definition starts :: "str \<Rightarrow> bool" where
  "starts t \<longleftrightarrow> (case t of [] \<Rightarrow> False | c # _ \<Rightarrow> \<not> space c \<and> c \<noteq> 0x2f \<and> sint c \<noteq> 0x5d \<and> sint c \<noteq> 0x7d)"

lemma number_text_starts: "\<exists>c t. number_text v = c # t \<and> (isdigit (sint c) \<or> sint c = 45)"
proof (cases "v = 0")
  case False
  then obtain d ds where "rev (dec (nat \<bar>v\<bar>)) = d # ds" "isdigit (sint d)" using hd_rev_dec [of "nat \<bar>v\<bar>"] by auto
  then show ?thesis using False by (simp add: number_text_def)
qed (simp add: number_text_def isdigit_def)

lemma json_text_starts: "json_plain j \<Longrightarrow> starts (json_text w d j)"
proof (cases j)
  case (JSON_ARRAY vs)
  then show ?thesis by (cases vs) (simp_all add: starts_def isspace_def)
next
  case (JSON_OBJECT es)
  then show ?thesis by (cases "(w, d, JSON_OBJECT es)" rule: json_text.cases) (auto simp: starts_def isspace_def)
next
  case (JSON_NUMBER v)
  obtain c t where c: "number_text v = c # t" "isdigit (sint c) \<or> sint c = 45" using number_text_starts by blast
  then have "\<not> isspace (sint c)" "c \<noteq> 0x2f" "sint c \<noteq> 0x5d" "sint c \<noteq> 0x7d" by (auto simp: isspace_def isdigit_def)
  then show ?thesis using JSON_NUMBER c(1) by (simp add: starts_def)
qed (simp_all add: starts_def isspace_def)

text \<open>The loop of an array after an element and the spaces that follow it, and that of an object.\<close>

definition array_more :: "nat \<Rightarrow> json list \<Rightarrow> scan \<Rightarrow> fault + (json \<times> scan)" where
  "array_more n vs s =
     sbind (scan_skip (chr_int CHR '','') s) (\<lambda>(comma, s).
     if \<not> comma then sbind (scan_expect (chr_int CHR '']'') s) (\<lambda>(_, s). Inr (JSON_ARRAY vs, s))
     else sbind (json_skip_space_and_comment s) (json_parse_array_n n vs))"

definition object_more :: "nat \<Rightarrow> (str \<times> json) list \<Rightarrow> scan \<Rightarrow> fault + (json \<times> scan)" where
  "object_more n es s =
     sbind (scan_skip (chr_int CHR '','') s) (\<lambda>(comma, s).
     if \<not> comma then sbind (scan_expect (chr_int CHR ''}'') s) (\<lambda>(_, s). Inr (JSON_OBJECT es, s))
     else sbind (json_skip_space_and_comment s) (json_parse_object_n n es))"

lemma array_unfold:
  assumes "post \<noteq> []" "sint (hd post) \<noteq> 0x5d"
  shows "json_parse_array_n (Suc n) vs (sc_at pre post) =
    sbind (json_parse_n n (sc_at pre post)) (\<lambda>(res, s). sbind (json_skip_space_and_comment s) (array_more n (vs @ [res])))"
  using assms by (cases post) (simp_all add: array_more_def [abs_def] cong: if_cong del: json_parse_n.simps)

lemma object_unfold:
  assumes "post \<noteq> []" "sint (hd post) \<noteq> 0x7d"
  shows "json_parse_object_n (Suc n) es (sc_at pre post) =
    sbind (parse_str (sc_at pre post)) (\<lambda>(name, s).
    sbind (scan_expect (chr_int CHR '':'') s) (\<lambda>(_, s).
    sbind (json_parse_n n s) (\<lambda>(value, s). sbind (json_skip_space_and_comment s) (object_more n (entry_put name value es)))))"
  using assms by (cases post) (simp_all add: object_more_def [abs_def] cong: if_cong del: json_parse_n.simps)

lemma hd_space_ne: "\<forall>c\<in>set ws. space c \<Longrightarrow> starts t \<Longrightarrow> ws @ t @ rest \<noteq> [] \<and> sint (hd (ws @ t @ rest)) \<noteq> 0x5d \<and> sint (hd (ws @ t @ rest)) \<noteq> 0x7d"
  by (cases ws; cases t) (auto simp: starts_def isspace_def)

lemma array_step:
  assumes "json_parse_n n (sc_at pre (ws @ t @ rest)) = Inr (j, parsed j (pre @ ws @ t) rest)"
    and "\<forall>c\<in>set ws. space c" "starts t" "no_comment rest"
  shows "json_parse_array_n (Suc n) vs (sc_at pre (ws @ t @ rest)) = array_more n (vs @ [j]) (sc_at (pre @ ws @ t @ takeWhile space rest) (dropWhile space rest))"
  using array_unfold [of "ws @ t @ rest" n vs pre] hd_space_ne [OF assms(2,3), of rest] assms(1) parsed_skip [OF assms(4), of j "pre @ ws @ t"]
  by simp

lemma object_step:
  assumes "json_parse_n n (sc_at (pre @ ws @ [0x22] @ k @ [0x22] @ [0x3a]) ([0x20] @ t @ rest)) = Inr (j, parsed j (pre @ ws @ [0x22] @ k @ [0x22] @ [0x3a, 0x20] @ t) rest)"
    and "\<forall>c\<in>set ws. space c" "str_plain k" "no_comment rest"
  shows "json_parse_object_n (Suc n) es (sc_at pre (ws @ [0x22] @ k @ [0x22] @ [0x3a, 0x20] @ t @ rest)) =
    object_more n (entry_put k j es) (sc_at (pre @ ws @ [0x22] @ k @ [0x22] @ [0x3a, 0x20] @ t @ takeWhile space rest) (dropWhile space rest))"
proof -
  let ?p = "ws @ [0x22] @ k @ [0x22] @ [0x3a, 0x20] @ t @ rest"
  have ne: "?p \<noteq> []" "sint (hd ?p) \<noteq> 0x7d" using hd_space_ne [OF assms(2), of "[0x22]"] by (auto simp: starts_def isspace_def)
  have "\<not> space 0x3a" by (simp add: isspace_def)
  then have "parse_str (sc_at pre ?p) = Inr (k, sc_at (pre @ ws @ [0x22] @ k @ [0x22]) ([0x3a, 0x20] @ t @ rest))"
    using str_at [OF assms(3,2), of "[0x3a, 0x20] @ t @ rest" pre] by (simp add: no_comment_def del: comp_apply)
  then show ?thesis using object_unfold [OF ne] assms(1) parsed_skip [OF assms(4), of j "pre @ ws @ [0x22] @ k @ [0x22] @ [0x3a, 0x20] @ t"]
    by (simp add: sc_at_expect)
qed


text \<open>The cases of \<open>json_parse\<close> by the first character.\<close>

lemma parse_word:
  assumes "\<forall>c\<in>set ws. space c" "0 < n"
  shows "json_parse_n n (sc_at pre (ws @ lit ''true'' @ post)) = Inr (JSON_TRUE, sc_at (pre @ ws @ lit ''true'') post)"
    and "json_parse_n n (sc_at pre (ws @ lit ''false'' @ post)) = Inr (JSON_FALSE, sc_at (pre @ ws @ lit ''false'') post)"
    and "json_parse_n n (sc_at pre (ws @ lit ''null'' @ post)) = Inr (JSON_NULL, sc_at (pre @ ws @ lit ''null'') post)"
proof -
  obtain k where k: "n = Suc k" using assms(2) by (cases n) auto
  show "json_parse_n n (sc_at pre (ws @ lit ''true'' @ post)) = Inr (JSON_TRUE, sc_at (pre @ ws @ lit ''true'') post)"
    using skip_to [OF assms(1), of "0x74"] by (simp add: k QUOTE_def isdigit_def isspace_def scan_skip_word_at)
  show "json_parse_n n (sc_at pre (ws @ lit ''false'' @ post)) = Inr (JSON_FALSE, sc_at (pre @ ws @ lit ''false'') post)"
    using skip_to [OF assms(1), of "0x66"] by (simp add: k QUOTE_def isdigit_def isspace_def scan_skip_word_at)
  show "json_parse_n n (sc_at pre (ws @ lit ''null'' @ post)) = Inr (JSON_NULL, sc_at (pre @ ws @ lit ''null'') post)"
    using skip_to [OF assms(1), of "0x6e"] by (simp add: k QUOTE_def isdigit_def isspace_def scan_skip_word_at)
qed

lemma parse_bracket:
  assumes "\<forall>c\<in>set ws. space c"
  shows "json_parse_n (Suc n) (sc_at pre (ws @ 0x5b # post)) = json_parse_array_n n [] (sc_at (pre @ ws @ [0x5b]) post)"
    and "json_parse_n (Suc n) (sc_at pre (ws @ 0x7b # post)) = json_parse_object_n n [] (sc_at (pre @ ws @ [0x7b]) post)"
  using skip_to [OF assms, of "0x5b" pre post] skip_to [OF assms, of "0x7b" pre post]
  by (simp_all add: QUOTE_def isdigit_def isspace_def scan_skip_word_at sc_at_skip del: json_parse_array_n.simps json_parse_object_n.simps)

lemma parse_string:
  assumes "\<forall>c\<in>set ws. space c" "str_plain s" "no_comment post" "0 < n"
  shows "json_parse_n n (sc_at pre (ws @ [0x22] @ s @ [0x22] @ post)) = Inr (JSON_STRING s, parsed (JSON_STRING s) (pre @ ws @ [0x22] @ s @ [0x22]) post)"
proof -
  obtain k where k: "n = Suc k" using assms(4) by (cases n) auto
  show ?thesis using skip_to [OF assms(1) space_quote, of pre "s @ [0x22] @ post"] str_at [OF assms(2) _ assms(3), of "[]" "pre @ ws"]
    by (simp add: k QUOTE_def parsed_def)
qed

lemma parse_number:
  assumes "\<forall>c\<in>set ws. space c" "long_fits v" "long_fits (- v)" "no_digit post" "0 < n"
  shows "json_parse_n n (sc_at pre (ws @ number_text v @ post)) = Inr (JSON_NUMBER v, sc_at (pre @ ws @ number_text v) post)"
proof -
  obtain k where k: "n = Suc k" using assms(5) by (cases n) auto
  obtain c t where c: "number_text v = c # t" "isdigit (sint c) \<or> sint c = 45" using number_text_starts by blast
  have "\<not> space c" "c \<noteq> 0x2f" "sint c \<noteq> 34" using c(2) by (auto simp: isspace_def isdigit_def)
  then show ?thesis using skip_to [OF assms(1), of c pre "t @ post"] scan_number [OF assms(2-4), of "pre @ ws"] c
    by (auto simp: k QUOTE_def)
qed

lemma line_space: "\<forall>c\<in>set (line q). space c"
  by (auto simp: line_def isspace_def)

lemma closing_span:
  assumes "\<not> space c"
  shows "takeWhile space (line q @ c # post) = line q" "dropWhile space (line q @ c # post) = c # post"
  using span_space [OF line_space assms] by simp_all

lemma stop_closing: "\<not> space c \<Longrightarrow> c \<noteq> 0x2f \<Longrightarrow> stop (line q @ c # post)"
  using closing_span [of c q post] by (simp add: stop_def no_comment_def no_digit_def line_def isdigit_def del: comp_apply)

lemma stop_comma: "stop (0x2c # post)"
  by (simp add: stop_def no_comment_def no_digit_def isdigit_def isspace_def)

lemma stop_items: "stop (items_text w d vs @ line q @ 0x5d # post)" "stop (entries_text w d es @ line q @ 0x7d # post)"
  using stop_closing [of "0x5d"] stop_closing [of "0x7d"] stop_comma
  by (cases vs; cases es rule: list.exhaust; auto simp: isspace_def)+

lemma entry_put_last: "keys_ok (map fst es @ [k]) \<Longrightarrow> entry_put k v es = es @ [(k, v)]"
  by (induction es) (auto simp: keys_ok_def sorted_append key_bucket_def leD)


lemma array_comma:
  assumes "starts t"
  shows "array_more n acc (sc_at pre (0x2c # line q @ t @ post)) = json_parse_array_n n acc (sc_at (pre @ [0x2c] @ line q) (t @ post))"
proof -
  obtain c cs where "t = c # cs" "\<not> space c" "c \<noteq> 0x2f" using assms by (cases t) (auto simp: starts_def)
  then show ?thesis using skip_to [OF line_space [of q], of c "pre @ [0x2c]" "cs @ post"] by (simp add: array_more_def sc_at_skip del: json_parse_array_n.simps comp_apply)
qed

lemma object_comma:
  assumes "starts t"
  shows "object_more n acc (sc_at pre (0x2c # line q @ t @ post)) = json_parse_object_n n acc (sc_at (pre @ [0x2c] @ line q) (t @ post))"
proof -
  obtain c cs where "t = c # cs" "\<not> space c" "c \<noteq> 0x2f" using assms by (cases t) (auto simp: starts_def)
  then show ?thesis using skip_to [OF line_space [of q], of c "pre @ [0x2c]" "cs @ post"] by (simp add: object_more_def sc_at_skip del: json_parse_object_n.simps comp_apply)
qed

lemma space_comma: "\<not> space 0x2c"
  by (simp add: isspace_def)

lemma parse_text:
  "json_plain j \<Longrightarrow> length (json_text w d j) \<le> n \<Longrightarrow> \<forall>c\<in>set ws. space c \<Longrightarrow> stop post \<Longrightarrow>
     json_parse_n n (sc_at pre (ws @ json_text w d j @ post)) = Inr (j, parsed j (pre @ ws @ json_text w d j) post)"
  "(\<forall>v\<in>set vs. json_plain v) \<Longrightarrow> length (items_text w d vs) \<le> n \<Longrightarrow> R = items_text w d vs @ line q @ 0x5d # post \<Longrightarrow>
     array_more n acc (sc_at (pre @ takeWhile space R) (dropWhile space R)) = Inr (JSON_ARRAY (acc @ vs), sc_at (pre @ items_text w d vs @ line q @ [0x5d]) post)"
  "(\<forall>x\<in>set es. str_plain (fst x) \<and> json_plain (snd x)) \<Longrightarrow> keys_ok (map fst (kvs @ es)) \<Longrightarrow> length (entries_text w d es) \<le> n \<Longrightarrow>
     R = entries_text w d es @ line q @ 0x7d # post \<Longrightarrow>
     object_more n kvs (sc_at (pre @ takeWhile space R) (dropWhile space R)) = Inr (JSON_OBJECT (kvs @ es), sc_at (pre @ entries_text w d es @ line q @ [0x7d]) post)"
proof (induction w d j and w d vs and w d es arbitrary: n ws post pre and n q post pre acc R and n q post pre kvs R rule: json_text_items_text_entries_text.induct)
  case (1 w d)
  then show ?case using parse_word(3) [of ws n pre post] by (simp add: parsed_def)
next
  case (2 w d)
  then show ?case using parse_word(1) [of ws n pre post] by (simp add: parsed_def)
next
  case (3 w d)
  then show ?case using parse_word(2) [of ws n pre post] by (simp add: parsed_def)
next
  case (4 w d)
  then obtain k where "n = Suc (Suc k)" by (cases n; cases "n - 1") auto
  then show ?case using parse_bracket(1) [OF 4(3), of "Suc k" pre "0x5d # post"] by (simp add: parsed_def sc_at_expect)
next
  case (5 w d v vs)
  let ?d = "d + 1" and ?R = "items_text w (d + 1) vs @ line (w * d) @ 0x5d # post"
  let ?t = "json_text w (d + 1) v" and ?l = "line (w * (d + 1))"
  from 5 obtain k where k: "n = Suc (Suc k)" "length ?t \<le> k" "length (items_text w (d + 1) vs) \<le> k"
    by (cases n; cases "n - 1") (auto simp: line_def)
  have "json_parse_n k (sc_at (pre @ ws @ [0x5b]) (?l @ ?t @ ?R)) = Inr (v, parsed v ((pre @ ws @ [0x5b]) @ ?l @ ?t) ?R)"
    using 5 k line_space stop_items(1) by (intro "5.IH"(1)) auto
  from array_step [OF this line_space json_text_starts, of "[]"] stop_items(1) "5.prems"(1)
  have "json_parse_array_n (Suc k) [] (sc_at (pre @ ws @ [0x5b]) (?l @ ?t @ ?R)) =
      array_more k [v] (sc_at ((pre @ ws @ [0x5b] @ ?l @ ?t) @ takeWhile space ?R) (dropWhile space ?R))"
    by (simp add: stop_def del: json_parse_array_n.simps comp_apply)
  also have "\<dots> = Inr (JSON_ARRAY ([v] @ vs), sc_at ((pre @ ws @ [0x5b] @ ?l @ ?t) @ items_text w (d + 1) vs @ line (w * d) @ [0x5d]) post)"
    using 5 k by (intro "5.IH"(2)) auto
  finally show ?case using parse_bracket(1) [OF "5.prems"(3), of "Suc k" pre "?l @ ?t @ ?R"] k
    by (simp add: parsed_def del: json_parse_array_n.simps json_parse_n.simps)
next
  case (6 w d)
  then obtain k where "n = Suc (Suc k)" by (cases n; cases "n - 1") auto
  then show ?case using parse_bracket(2) [OF 6(3), of "Suc k" pre "0x7d # post"] by (simp add: parsed_def sc_at_expect)
next
  case (7 w d k v es)
  let ?R = "entries_text w (d + 1) es @ line (w * d) @ 0x7d # post"
  let ?t = "json_text w (d + 1) v" and ?l = "line (w * (d + 1))" and ?k = "[0x22] @ k @ [0x22] @ [0x3a, 0x20]"
  from 7 obtain m where m: "n = Suc (Suc m)" "length ?t \<le> m" "length (entries_text w (d + 1) es) \<le> m"
    by (cases n; cases "n - 1") (auto simp: line_def)
  have k: "str_plain k" "keys_ok (map fst ([(k, v)] @ es))" using "7.prems"(1) by simp_all
  have "json_parse_n m (sc_at ((pre @ ws @ [0x7b]) @ ?l @ [0x22] @ k @ [0x22] @ [0x3a]) ([0x20] @ ?t @ ?R)) =
      Inr (v, parsed v (((pre @ ws @ [0x7b]) @ ?l @ [0x22] @ k @ [0x22] @ [0x3a]) @ [0x20] @ ?t) ?R)"
    using 7 m stop_items(2) by (intro "7.IH"(1)) (auto simp: isspace_def)
  from object_step [of m "pre @ ws @ [0x7b]" ?l k ?t ?R v "[]"] this line_space k(1) stop_items(2)
  have "json_parse_object_n (Suc m) [] (sc_at (pre @ ws @ [0x7b]) (?l @ ?k @ ?t @ ?R)) =
      object_more m [(k, v)] (sc_at ((pre @ ws @ [0x7b] @ ?l @ ?k @ ?t) @ takeWhile space ?R) (dropWhile space ?R))"
    by (simp add: stop_def del: json_parse_object_n.simps comp_apply)
  also have "\<dots> = Inr (JSON_OBJECT ([(k, v)] @ es), sc_at ((pre @ ws @ [0x7b] @ ?l @ ?k @ ?t) @ entries_text w (d + 1) es @ line (w * d) @ [0x7d]) post)"
    using 7 m k(2) by (intro "7.IH"(2)) auto
  finally show ?case using parse_bracket(2) [OF "7.prems"(3), of "Suc m" pre "?l @ ?k @ ?t @ ?R"] m
    by (simp add: parsed_def del: json_parse_object_n.simps json_parse_n.simps)
next
  case (8 w d s)
  then show ?case using parse_string [of ws s post n pre] by (simp add: stop_def)
next
  case (9 w d i)
  then show ?case using parse_number [of ws i post n pre] number_text_nonl(2) [of i] by (cases n) (simp_all add: stop_def parsed_def)
next
  case (10 w d)
  then show ?case by simp
next
  case (11 w d)
  have "\<not> space 0x5d" by (simp add: isspace_def)
  then show ?case using 11 by (simp add: closing_span array_more_def sc_at_skip sc_at_expect del: comp_apply)
next
  case (12 w d v vs)
  let ?R = "items_text w d vs @ line q @ 0x5d # post" and ?t = "json_text w d v" and ?l = "line (w * d)"
  from 12 obtain k where k: "n = Suc k" "length ?t \<le> k" "length (items_text w d vs) \<le> k" by (cases n) auto
  have st: "starts ?t" using 12 by (intro json_text_starts) simp
  have "json_parse_n k (sc_at (pre @ [0x2c] @ ?l) ([] @ ?t @ ?R)) = Inr (v, parsed v ((pre @ [0x2c] @ ?l) @ [] @ ?t) ?R)"
    using 12 k stop_items(1) by (intro "12.IH"(1)) auto
  from array_step [OF this _ st, of acc] stop_items(1)
  have "json_parse_array_n (Suc k) acc (sc_at (pre @ [0x2c] @ ?l) (?t @ ?R)) =
      array_more k (acc @ [v]) (sc_at ((pre @ [0x2c] @ ?l @ ?t) @ takeWhile space ?R) (dropWhile space ?R))"
    by (simp add: stop_def del: json_parse_array_n.simps comp_apply)
  also have "\<dots> = Inr (JSON_ARRAY ((acc @ [v]) @ vs), sc_at ((pre @ [0x2c] @ ?l @ ?t) @ items_text w d vs @ line q @ [0x5d]) post)"
    using 12 k by (intro "12.IH"(2)) auto
  finally show ?case using 12(5) array_comma [OF st, of n acc pre "w * d" ?R] k(1)
    by (simp add: space_comma del: json_parse_array_n.simps json_parse_n.simps comp_apply)
next
  case (13 w d)
  have "\<not> space 0x7d" by (simp add: isspace_def)
  then show ?case using 13 by (simp add: closing_span object_more_def sc_at_skip sc_at_expect del: comp_apply)
next
  case (14 w d k v es)
  let ?R = "entries_text w d es @ line q @ 0x7d # post"
  let ?t = "json_text w d v" and ?l = "line (w * d)" and ?k = "[0x22] @ k @ [0x22] @ [0x3a, 0x20]"
  from 14 obtain m where m: "n = Suc m" "length ?t \<le> m" "length (entries_text w d es) \<le> m" by (cases n) auto
  have k: "str_plain k" "keys_ok (map fst ((kvs @ [(k, v)]) @ es))" "entry_put k v kvs = kvs @ [(k, v)]"
    using "14.prems"(1,2) by (auto intro: entry_put_last simp: keys_ok_def sorted_append)
  have st: "starts (?k @ ?t)" by (simp add: starts_def isspace_def)
  have "json_parse_n m (sc_at ((pre @ [0x2c] @ ?l) @ [] @ [0x22] @ k @ [0x22] @ [0x3a]) ([0x20] @ ?t @ ?R)) =
      Inr (v, parsed v (((pre @ [0x2c] @ ?l) @ [] @ [0x22] @ k @ [0x22] @ [0x3a]) @ [0x20] @ ?t) ?R)"
    using 14 m stop_items(2) by (intro "14.IH"(1)) (auto simp: isspace_def)
  from object_step [of m "pre @ [0x2c] @ ?l" "[]" k ?t ?R v kvs] this k stop_items(2)
  have "json_parse_object_n (Suc m) kvs (sc_at (pre @ [0x2c] @ ?l) (?k @ ?t @ ?R)) =
      object_more m (kvs @ [(k, v)]) (sc_at ((pre @ [0x2c] @ ?l @ ?k @ ?t) @ takeWhile space ?R) (dropWhile space ?R))"
    by (simp add: stop_def del: json_parse_object_n.simps comp_apply)
  also have "\<dots> = Inr (JSON_OBJECT ((kvs @ [(k, v)]) @ es), sc_at ((pre @ [0x2c] @ ?l @ ?k @ ?t) @ entries_text w d es @ line q @ [0x7d]) post)"
    using 14 m k(2) by (intro "14.IH"(2)) auto
  finally show ?case using "14.prems"(4) object_comma [OF st, of n kvs pre "w * d" ?R] m(1)
    by (simp add: space_comma del: json_parse_object_n.simps json_parse_n.simps comp_apply)
qed

section \<open>Objects are hash maps\<close>

lemma entry_put_before: "\<forall>x\<in>set xs. fst x \<noteq> k \<and> key_bucket (fst x) \<le> key_bucket k \<Longrightarrow> entry_put k v (xs @ ys) = xs @ entry_put k v ys"
  by (induction xs) (auto simp: key_bucket_def)

lemma entry_put_new: "\<forall>y\<in>set ys. key_bucket k < key_bucket (fst y) \<Longrightarrow> entry_put k v ys = (k, v) # ys"
  by (cases ys) (auto simp: key_bucket_def)

lemma entry_put_found:
  "i < length xs \<Longrightarrow> fst (xs ! i) = k \<Longrightarrow> distinct (map fst xs) \<Longrightarrow> \<forall>x\<in>set xs. key_bucket (fst x) = key_bucket k \<Longrightarrow>
   entry_put k v (xs @ ys) = xs[i := (k, v)] @ ys"
proof (induction xs arbitrary: i)
  case (Cons x xs)
  show ?case
  proof (cases i)
    case 0
    then show ?thesis using Cons.prems by (cases x) simp
  next
    case (Suc j)
    then have j: "j < length xs" "fst (xs ! j) = k" using Cons.prems(1,2) by simp_all
    then have "k \<in> fst ` set xs" using nth_mem by force
    then have x: "fst x \<noteq> k" using Cons.prems(3) by auto
    have "entry_put k v (xs @ ys) = xs[j := (k, v)] @ ys" using Cons.prems(3,4) j by (intro Cons.IH) simp_all
    moreover have "entry_put k v (x # xs @ ys) = x # entry_put k v (xs @ ys)"
      using entry_put_before [of "[x]" k v "xs @ ys"] Cons.prems(4) x by simp
    ultimately show ?thesis using Suc by simp
  qed
qed simp

text \<open>Every entry of a map is in the bucket of its key, so the entries of the other buckets come before or after.\<close>

lemma foreach_split:
  assumes "map_inv m" "b < MAP_BUCKET_COUNT"
  obtains xs ys where
    "\<And>ns. map_foreach (m\<lparr>map_buckets := (map_buckets m)[b := ns]\<rparr>) = xs @ map entry_of ns @ ys"
    "\<forall>x\<in>set xs. key_bucket (fst x) < b" "\<forall>y\<in>set ys. b < key_bucket (fst y)"
proof
  let ?c = "\<lambda>bs. concat (map (map entry_of) bs)"
  have l: "b < length (map_buckets m)" using assms by (simp add: map_inv_def)
  have f: "map_foreach m' = ?c (map_buckets m')" for m' :: "'a map_impl" by (simp add: map_foreach_def entry_of_def [abs_def])
  show "map_foreach (m\<lparr>map_buckets := (map_buckets m)[b := ns]\<rparr>) = ?c (take b (map_buckets m)) @ map entry_of ns @ ?c (drop (Suc b) (map_buckets m))" for ns
    using l by (simp add: f upd_conv_take_nth_drop)
  have k: "key_bucket (fst e) = c" if "c < MAP_BUCKET_COUNT" "e \<in> set (map entry_of (map_buckets m ! c))" for c e
    using assms(1) that bucket_keys [of c "map_buckets m ! c" e] by (simp add: map_inv_def key_bucket_def)
  show "\<forall>x\<in>set (?c (take b (map_buckets m))). key_bucket (fst x) < b"
  proof
    fix x assume "x \<in> set (?c (take b (map_buckets m)))"
    then obtain c where "c < b" "x \<in> set (map entry_of (map_buckets m ! c))" by (auto simp: in_set_conv_nth [of _ "take b _"])
    then show "key_bucket (fst x) < b" using k [of c x] assms(2) by simp
  qed
  show "\<forall>y\<in>set (?c (drop (Suc b) (map_buckets m))). b < key_bucket (fst y)"
  proof
    fix y assume "y \<in> set (?c (drop (Suc b) (map_buckets m)))"
    then obtain ns where ns: "ns \<in> set (drop (Suc b) (map_buckets m))" "y \<in> set (map entry_of ns)" by auto
    then obtain c where "c < length (drop (Suc b) (map_buckets m))" "ns = map_buckets m ! (Suc b + c)"
      unfolding in_set_conv_nth by auto
    then show "b < key_bucket (fst y)" using k [of "Suc b + c" y] ns(2) assms(1) by (simp add: map_inv_def)
  qed
qed

lemma foreach_put:
  assumes inv: "map_inv m"
  shows "map_foreach (snd (map_put_impl m key v)) = entry_put key v (map_foreach m)"
proof -
  let ?b = "map_bucket (map_hash key)" and ?ns = "map_buckets m ! map_bucket (map_hash key)"
  have b: "?b = key_bucket key" by (simp add: key_bucket_def)
  have ok: "bucket_ok ?b ?ns" using inv map_bucket_less by (auto simp: map_inv_def)
  obtain xs ys where s: "\<And>ns. map_foreach (m\<lparr>map_buckets := (map_buckets m)[?b := ns]\<rparr>) = xs @ map entry_of ns @ ys"
      "\<forall>x\<in>set xs. key_bucket (fst x) < ?b" "\<forall>y\<in>set ys. ?b < key_bucket (fst y)"
    using foreach_split [OF inv map_bucket_less] by metis
  have m: "map_foreach m = xs @ map entry_of ?ns @ ys" using s(1) [of ?ns] by simp
  have here: "\<forall>x\<in>set (map entry_of ?ns). key_bucket (fst x) = key_bucket key" using bucket_keys [OF ok] by (simp add: key_bucket_def)
  have xs: "\<forall>x\<in>set xs. fst x \<noteq> key \<and> key_bucket (fst x) \<le> key_bucket key" using s(2) b by fastforce
  from map_node_cases [OF inv refl, of key] show ?thesis
  proof (elim disjE exE conjE)
    assume none: "map_node m key (map_hash key) = None" "key \<notin> node_key ` set ?ns"
    then have "\<forall>x\<in>set (map entry_of ?ns). fst x \<noteq> key \<and> key_bucket (fst x) \<le> key_bucket key" using here by (auto simp: entry_of_def)
    then have "entry_put key v (map entry_of ?ns @ ys) = map entry_of ?ns @ (key, v) # ys"
      using entry_put_before entry_put_new s(3) b by simp
    then show ?thesis using none s(1) [of "?ns @ [map_node_create key v]"] entry_put_before [OF xs] m
      by (simp add: map_put_impl_def Let_def entry_of_def map_node_create_def)
  next
    fix i assume some: "map_node m key (map_hash key) = Some i" "i < length ?ns" "node_key (?ns ! i) = key"
    then have "entry_put key v (map entry_of ?ns @ ys) = (map entry_of ?ns)[i := (key, v)] @ ys"
      using here bucket_distinct [OF ok] by (intro entry_put_found) (simp_all add: entry_of_def)
    then show ?thesis using some s(1) [of "?ns[i := (?ns ! i)\<lparr>node_data := v\<rparr>]"] entry_put_before [OF xs] m
      by (simp add: map_put_impl_def Let_def map_update) (simp add: entry_of_def)
  qed
qed


section \<open>Theorems\<close>

text \<open>
  C28. What \<open>json_emit\<close> writes, \<open>json_parse\<close> reads back: for every value made of \<open>null\<close>, booleans, numbers (all
  but the least \<open>long\<close>), arrays, objects and texts of ASCII characters without quotes and line feeds, the
  emitted text, indentation included, is parsed as the same value, to its end and without an error.
\<close>

theorem json_roundtrip:
  assumes "json_plain j" "length (json_text 4 0 j) < 2 ^ 31"
  shows "\<exists>e s. json_emit j emit_init = Inr e \<and> em_out e = json_text 4 0 j \<and>
    json_parse_str (em_out e) = Inr (j, s) \<and> scan_ended s \<and> \<not> has_error s"
proof -
  let ?t = "json_text 4 0 j"
  have e: "json_emit j emit_init = Inr (emitted ?t emit_init)" using json_emit_text(1) [OF assms(1), of emit_init] by (simp add: emit_init_def)
  have o: "em_out (emitted ?t emit_init) = ?t" by (simp add: emit_init_def lead_def)
  have "stop []" by (simp add: stop_def no_digit_def no_comment_def)
  then have "json_parse_n n (sc_at [] ?t) = Inr (j, sc_at ?t [])" if "length ?t \<le> n" for n
    using parse_text(1) [OF assms(1) that, of "[]" "[]" "[]"] by (simp add: parsed_def split: json.splits)
  then have "json_parse_str ?t = Inr (j, sc_at ?t [])"
    using assms(2) by (simp add: json_parse_str_def scan_init_at Let_def del: json_parse_n.simps)
  then show ?thesis using e o by auto
qed

lemma json_roundtrip_witness:
  "\<exists>e s. json_emit (JSON_OBJECT [(lit ''id'', JSON_NUMBER (- 12)), (lit ''ok'', JSON_ARRAY [JSON_TRUE, JSON_STRING (lit ''a/b'')])]) emit_init = Inr e \<and>
   em_out e = json_text 4 0 (JSON_OBJECT [(lit ''id'', JSON_NUMBER (- 12)), (lit ''ok'', JSON_ARRAY [JSON_TRUE, JSON_STRING (lit ''a/b'')])]) \<and>
   json_parse_str (em_out e) = Inr (JSON_OBJECT [(lit ''id'', JSON_NUMBER (- 12)), (lit ''ok'', JSON_ARRAY [JSON_TRUE, JSON_STRING (lit ''a/b'')])], s) \<and>
   scan_ended s \<and> \<not> has_error s"
  by (rule json_roundtrip, code_simp, simp add: line_def number_text_def dec.simps)

text \<open>
  C30. Objects are hash maps: putting entries one after the other into the list of entries that \<open>json_put\<close>
  keeps gives, at every point, the entries of the hash map of \<open>map.c\<close> after the same insertions, in the order
  in which \<open>map_foreach\<close> goes through its buckets, and \<open>json_get\<close> finds what \<open>map_get\<close> finds, or null.
\<close>

theorem json_object_refines_map:
  "let m = fold (\<lambda>(k, v) m. snd (map_put_impl m k v)) kvs map_init_impl in
   fold (\<lambda>(k, v) r. sbind r (json_put k v)) kvs (Inr json_object) = Inr (JSON_OBJECT (map_foreach m)) \<and>
   json_get (JSON_OBJECT (map_foreach m)) key = Inr (case map_get_impl m key of None \<Rightarrow> JSON_NULL | Some v \<Rightarrow> v)"
proof -
  let ?m = "\<lambda>kvs. fold (\<lambda>(k, v) m. snd (map_put_impl m k v)) kvs map_init_impl"
  have inv: "map_inv (?m kvs)" for kvs :: "(str \<times> json) list" using hm.puts [OF map_inv_init, of kvs] by simp
  have "fold (\<lambda>(k, v) r. sbind r (json_put k v)) kvs (Inr json_object) = Inr (JSON_OBJECT (map_foreach (?m kvs)))"
  proof (induction kvs rule: rev_induct)
    case Nil
    then show ?case by (simp add: json_object_def map_init_impl_def push_empty map_foreach_def)
  next
    case (snoc kv kvs)
    then show ?case using foreach_put [OF inv [of kvs]] by (cases kv) (simp add: json_put_def)
  qed
  moreover have "map_of (map_foreach (?m kvs)) = map_get_impl (?m kvs)"
    using foreach_get [OF inv] by blast
  ultimately show ?thesis by (simp add: Let_def json_get_def json_try_get_def)
qed


end
