(* ===== verification/Json_Total.thy ===== *)
theory Json_Total
  imports Json_Props
begin

text \<open>
  The JSON parser on every input: it ends, it reads only the text, and the one thing that can go wrong is a
  number too long for a \<open>long\<close>.
\<close>

section \<open>Scanners that stay in their text\<close>

definition reach :: "scan \<Rightarrow> bool" where
  "reach s \<longleftrightarrow> (\<exists>pre post e. s = (sc_at pre post)\<lparr>sc_error := e\<rparr>)"

text \<open>A step that tells whether it moved, and one that only moves on.\<close>

definition moves :: "scan \<Rightarrow> fault + (bool \<times> scan) \<Rightarrow> bool" where
  "moves s r \<longleftrightarrow> (\<exists>b t. r = Inr (b, t) \<and> reach t \<and> scan_left t \<le> scan_left s \<and> (b \<longrightarrow> scan_left t < scan_left s))"

definition keeps :: "scan \<Rightarrow> fault + ('a \<times> scan) \<Rightarrow> bool" where
  "keeps s r \<longleftrightarrow> (\<exists>x t. r = Inr (x, t) \<and> reach t \<and> scan_left t \<le> scan_left s)"

lemma moves_Inr [simp]: "moves s (Inr (b, t)) \<longleftrightarrow> reach t \<and> scan_left t \<le> scan_left s \<and> (b \<longrightarrow> scan_left t < scan_left s)"
  by (simp add: moves_def)

lemma keeps_Inr [simp]: "keeps s (Inr (x, t)) \<longleftrightarrow> reach t \<and> scan_left t \<le> scan_left s"
  by (simp add: keeps_def)

lemma reach_cases:
  assumes "reach s"
  obtains pre post where "s = sc_at pre post" | "has_error s"
proof -
  obtain pre post e where "s = (sc_at pre post)\<lparr>sc_error := e\<rparr>" using assms by (auto simp: reach_def)
  then show ?thesis using that by (cases e) (auto simp: has_error_def sc_at_def)
qed

lemma reach_at [simp]: "reach (sc_at pre post)"
  unfolding reach_def by (rule exI [of _ pre], rule exI [of _ post], rule exI [of _ None]) (simp add: sc_at_def)

lemma error_left: "has_error s \<Longrightarrow> scan_left s = 0" "has_error s \<Longrightarrow> scan_ended s" "has_error s \<Longrightarrow> scan_peek s i = Inr 0" "has_error s \<Longrightarrow> scan_curr s = Inr 0"
  by (simp_all add: scan_left_def scan_ended_def scan_peek_def scan_curr_def)

lemma throw_keeps:
  assumes "reach s" "length token \<le> 128"
  obtains t where "scan_throw message token s = Inr t" "reach t" "scan_left t = 0" "has_error t"
proof -
  obtain pre post e where s: "s = (sc_at pre post)\<lparr>sc_error := e\<rparr>" using assms by (auto simp: reach_def)
  show ?thesis
  proof (cases "has_error s")
    case True
    then show ?thesis using that [of s] assms(1) by (simp add: scan_throw_def error_left)
  next
    case False
    let ?t = "s\<lparr>sc_error := Some \<lparr>err_position = sc_head s, err_message = message, err_token = token\<rparr>\<rparr>"
    have "reach ?t" unfolding reach_def using s by auto
    then show ?thesis using that [of ?t] assms(2) False by (simp add: scan_throw_def has_error_def scan_left_def)
  qed
qed

lemma skip_moves: "reach s \<Longrightarrow> c \<noteq> 0 \<Longrightarrow> moves s (scan_skip c s)"
proof -
  assume s: "reach s" "c \<noteq> 0"
  from s(1) show ?thesis
  proof (cases rule: reach_cases)
    case (1 pre post)
    then show ?thesis using s(2) by (cases post) (simp_all add: sc_at_skip)
  next
    case 2
    then show ?thesis using s by (simp add: scan_skip_def error_left)
  qed
qed

lemma word_moves:
  assumes "reach s" "ws \<noteq> []" "\<forall>w\<in>set ws. w \<noteq> 0 \<and> uint w < 128"
  shows "moves s (scan_skip_word ws s)"
proof -
  from assms(1) show ?thesis
  proof (cases rule: reach_cases)
    case (1 pre post)
    moreover have "length post - length ws < length post" if "take (length ws) post = ws"
      using that assms(2) by (cases post) auto
    ultimately show ?thesis using assms(3) by (simp add: scan_skip_word_at)
  next
    case 2
    then have "scan_skip_word ws s = Inr (False, s)" using assms(2,3) by (cases ws) (auto simp: scan_skip_word_def error_left uint_0_iff)
    then show ?thesis using assms(1) by simp
  qed
qed

lemma expect_keeps: "reach s \<Longrightarrow> c \<noteq> 0 \<Longrightarrow> keeps s (scan_expect c s)"
proof -
  assume s: "reach s" "c \<noteq> 0"
  obtain b t where t: "scan_skip c s = Inr (b, t)" "reach t" "scan_left t \<le> scan_left s" using skip_moves [OF s] by (auto simp: moves_def)
  obtain u where "scan_throw ''expected character'' [of_int c] t = Inr u" "reach u" "scan_left u = 0"
    using throw_keeps [OF t(2), of "[of_int c]"] by auto
  with t show ?thesis by (cases b) (auto simp: scan_expect_def keeps_def)
qed

lemma space_moves: "reach s \<Longrightarrow> moves s (scan_skip_space s)"
proof -
  assume s: "reach s"
  then show ?thesis
  proof (cases rule: reach_cases)
    case (1 pre post)
    moreover have "length (dropWhile space post) < length post" if "takeWhile space post \<noteq> []"
      using that length_dropWhile_le [of space "tl post"] by (cases post) (auto split: if_splits)
    ultimately show ?thesis using length_dropWhile_le [of space post] by (simp add: scan_skip_space_def scan_eat_at)
  next
    case 2
    then show ?thesis using s by (simp add: scan_skip_space_def scan_eat_def error_left)
  qed
qed

lemma eat_match_keeps: "reach s \<Longrightarrow> keeps s (scan_eat_match m s)"
proof -
  assume s: "reach s"
  then show ?thesis
  proof (cases rule: reach_cases)
    case (1 pre post)
    then show ?thesis by (simp add: scan_eat_match_at length_dropWhile_le)
  next
    case 2
    then show ?thesis using s by (simp add: scan_eat_match_def error_left)
  qed
qed

text \<open>Comments and spaces.\<close>

lemma comment_loop_moves: "scan_left (sc_at pre post) < n \<Longrightarrow> moves (sc_at pre post) (comment_loop n (sc_at pre post))"
proof (induction post arbitrary: n pre)
  case Nil
  then obtain k where n: "n = Suc k" by (cases n) auto
  obtain t where "scan_throw ''not closed comment'' (lit ''/*'') (sc_at pre []) = Inr t" "reach t" "scan_left t = 0"
    using throw_keeps [of "sc_at pre []" "lit ''/*''" "''not closed comment''"] by auto
  then show ?case by (simp add: n)
next
  case (Cons c cs)
  then obtain k where n: "n = Suc k" "length cs < k" by (cases n) auto
  have IH: "moves (sc_at (pre @ [c]) cs) (comment_loop k (sc_at (pre @ [c]) cs))" using Cons.IH n by simp
  then have IH': "moves (sc_at pre (c # cs)) (comment_loop k (sc_at (pre @ [c]) cs))" by (auto simp: moves_def)
  have two: "scan_next_n 2 (sc_at pre (c # d # ds)) = Inr (sc_at (pre @ [c, d]) ds)" for d ds
    using scan_next_n_at [of "[c, d]" "c # d # ds" pre] by (simp add: numeral_2_eq_2)
  show ?case using IH' two by (cases cs) (auto simp: n STAR_def SLASH_def)
qed

lemma comment_moves: "reach s \<Longrightarrow> moves s (json_skip_comment s)"
proof -
  assume s: "reach s"
  then show ?thesis
  proof (cases rule: reach_cases)
    case (1 pre post)
    then show ?thesis using comment_loop_moves [of pre post "Suc (length post)"]
      by (cases post) (auto simp: json_skip_comment_def SLASH_def STAR_def simp del: comment_loop.simps split: list.splits)
  next
    case 2
    then show ?thesis using s by (simp add: json_skip_comment_def error_left SLASH_def)
  qed
qed

lemma skip_loop_keeps: "reach s \<Longrightarrow> scan_left s < n \<Longrightarrow> \<exists>t. skip_loop n s = Inr t \<and> reach t \<and> scan_left t \<le> scan_left s"
proof (induction n arbitrary: s)
  case (Suc n)
  obtain b t where t: "scan_skip_space s = Inr (b, t)" "reach t" "scan_left t \<le> scan_left s" "b \<Longrightarrow> scan_left t < scan_left s"
    using space_moves [OF Suc.prems(1)] by (auto simp: moves_def)
  obtain c u where u: "json_skip_comment t = Inr (c, u)" "reach u" "scan_left u \<le> scan_left t" "c \<Longrightarrow> scan_left u < scan_left t"
    using comment_moves [OF t(2)] by (auto simp: moves_def)
  show ?case using t u Suc.IH [of t] Suc.IH [of u] Suc.prems(2) by (cases b; cases c) fastforce+
qed simp

lemma skip_keeps:
  assumes "reach s"
  obtains t where "json_skip_space_and_comment s = Inr t" "reach t" "scan_left t \<le> scan_left s"
  using skip_loop_keeps [OF assms, of "Suc (scan_left s)"] by (auto simp: json_skip_space_and_comment_def)

section \<open>The parser\<close>

text \<open>A result with at most so much of the text left, or a number that does not fit.\<close>

definition fine :: "nat \<Rightarrow> fault + ('a \<times> scan) \<Rightarrow> bool" where
  "fine l r \<longleftrightarrow> r = Inl ArithUB \<or> (\<exists>x t. r = Inr (x, t) \<and> reach t \<and> scan_left t \<le> l)"

lemma fine_Inr [simp]: "fine l (Inr (x, t)) \<longleftrightarrow> reach t \<and> scan_left t \<le> l"
  by (auto simp: fine_def)

lemma fine_UB [simp]: "fine l (Inl ArithUB)"
  by (simp add: fine_def)

lemma fine_bind:
  assumes "fine l r" and "\<And>x t. reach t \<Longrightarrow> scan_left t \<le> l \<Longrightarrow> fine k (f (x, t))"
  shows "fine k (sbind r f)"
  using assms(1) assms(2) unfolding fine_def [of l r] by auto

lemma keeps_bind:
  assumes "keeps s r" and "\<And>x t. reach t \<Longrightarrow> scan_left t \<le> scan_left s \<Longrightarrow> fine k (f (x, t))"
  shows "fine k (sbind r f)"
  using assms by (auto simp: keeps_def)

lemma moves_bind:
  assumes "moves s r" and "\<And>b t. reach t \<Longrightarrow> scan_left t \<le> scan_left s \<Longrightarrow> (b \<Longrightarrow> scan_left t < scan_left s) \<Longrightarrow> fine k (f (b, t))"
  shows "fine k (sbind r f)"
  using assms by (auto simp: moves_def)

lemma skip_bind:
  assumes "reach s" and "\<And>t. reach t \<Longrightarrow> scan_left t \<le> scan_left s \<Longrightarrow> fine k (f t)"
  shows "fine k (sbind (json_skip_space_and_comment s) f)"
  by (rule skip_keeps [OF assms(1)]) (use assms(2) in simp)

lemma throw_bind:
  assumes "reach s" "length token \<le> 128" and "\<And>t. reach t \<Longrightarrow> scan_left t \<le> scan_left s \<Longrightarrow> fine k (f t)"
  shows "fine k (sbind (scan_throw message token s) f)"
  by (rule throw_keeps [OF assms(1,2), of message]) (use assms(3) in simp)

lemma curr_bind:
  assumes "reach s" and "\<And>c. fine k (f c)"
  shows "fine k (sbind (scan_curr s) f)"
  using assms by (cases rule: reach_cases) (simp_all add: error_left)

lemma int_loop_fine:
  "scan_left (sc_at pre post) < n \<Longrightarrow>
   int_loop n b v (sc_at pre post) = Inl ArithUB \<or> (\<exists>b' v' t. int_loop n b v (sc_at pre post) = Inr (b', v', t) \<and> reach t \<and> scan_left t \<le> length post)"
proof (induction post arbitrary: n pre b v)
  case Nil
  then show ?case by (cases n) auto
next
  case (Cons c cs)
  then obtain k where n: "n = Suc k" "length cs < k" by (cases n) auto
  have "int_loop k True w (sc_at (pre @ [c]) cs) = Inl ArithUB \<or>
      (\<exists>b' v' t. int_loop k True w (sc_at (pre @ [c]) cs) = Inr (b', v', t) \<and> reach t \<and> scan_left t \<le> Suc (length cs))" for w
    using Cons.IH [of "pre @ [c]" k True w] n by fastforce
  then show ?case by (simp add: n long_result_def)
qed

lemma int_fine: "reach s \<Longrightarrow> fine (scan_left s) (scan_next_int s)"
proof -
  assume s: "reach s"
  then show ?thesis
  proof (cases rule: reach_cases)
    case (1 pre post)
    have loop: "fine (length post) (sbind (int_loop (Suc (length q)) neg 0 (sc_at p q)) (\<lambda>(is_number, value, s).
       sbind (if neg then long_result (- value) else Inr value) (\<lambda>value. Inr (if is_number then Some value else None, s))))"
      if "length q \<le> length post" for p q neg
    proof -
      have "scan_left (sc_at p q) < Suc (length q)" by simp
      from int_loop_fine [OF this, of neg 0] that show ?thesis
        by (elim disjE exE conjE) (simp_all add: long_result_def del: int_loop.simps)
    qed
    show ?thesis
    proof (cases post)
      case Nil
      then show ?thesis using loop [of "[]" False pre] 1 by (simp add: scan_next_int_def del: int_loop.simps)
    next
      case (Cons c cs)
      then show ?thesis using loop [of cs True "pre @ [c]"] loop [of post False pre] 1
        by (simp add: scan_next_int_def del: int_loop.simps)
    qed
  next
    case 2
    then show ?thesis using s by (simp add: scan_next_int_def error_left)
  qed
qed

lemma parse_str_fine: "reach s \<Longrightarrow> fine (scan_left s) (parse_str s)"
  unfolding parse_str_def QUOTE_def
  by (auto intro!: skip_bind keeps_bind [OF expect_keeps] keeps_bind [OF eat_match_keeps])

lemma fine_if: "(b \<Longrightarrow> fine k x) \<Longrightarrow> (\<not> b \<Longrightarrow> fine k y) \<Longrightarrow> fine k (if b then x else y)"
  by simp

lemma words_ascii:
  "\<forall>w\<in>set (lit ''true''). w \<noteq> 0 \<and> uint w < 128" "\<forall>w\<in>set (lit ''false''). w \<noteq> 0 \<and> uint w < 128"
  "\<forall>w\<in>set (lit ''null''). w \<noteq> 0 \<and> uint w < 128"
  by simp_all

lemmas json_word_moves = word_moves [OF _ _ words_ascii(1)] word_moves [OF _ _ words_ascii(2)] word_moves [OF _ _ words_ascii(3)]

lemma json_parse_fine:
  "reach s \<Longrightarrow> 2 * scan_left s < n \<Longrightarrow> scan_left s \<le> l \<Longrightarrow> fine l (json_parse_n n s)"
  "reach s \<Longrightarrow> 2 * scan_left s + 1 < n \<Longrightarrow> scan_left s \<le> l \<Longrightarrow> fine l (json_parse_array_n n vs s)"
  "reach s \<Longrightarrow> 2 * scan_left s + 1 < n \<Longrightarrow> scan_left s \<le> l \<Longrightarrow> fine l (json_parse_object_n n es s)"
proof (induction n arbitrary: s l vs es)
  case (Suc n)
  {
    case 1
    then show ?case unfolding json_parse_n.simps
      apply -
      apply (rule skip_bind, assumption, rule curr_bind, assumption, intro fine_if)
        apply (rule fine_bind [OF parse_str_fine], assumption, simp)
       apply (rule fine_bind [OF int_fine], assumption, simp)
      apply (rule moves_bind [OF json_word_moves(1)], assumption, simp, simp only: prod.case, rule fine_if, simp)
      apply (rule moves_bind [OF json_word_moves(2)], assumption, simp, simp only: prod.case, rule fine_if, simp)
      apply (rule moves_bind [OF json_word_moves(3)], assumption, simp, simp only: prod.case, rule fine_if, simp)
      apply (rule moves_bind [OF skip_moves], assumption, simp, simp only: prod.case, rule fine_if, rule Suc.IH(3), assumption, simp, simp)
      apply (rule moves_bind [OF skip_moves], assumption, simp, simp only: prod.case, rule fine_if, rule Suc.IH(2), assumption, simp, simp)
      apply (rule throw_bind, assumption, simp, simp)
      done
  next
    case 2
    have finish: "reach t \<Longrightarrow> scan_left t \<le> l \<Longrightarrow> fine l (sbind (scan_expect (chr_int CHR '']'') t) (\<lambda>(_, s). Inr (JSON_ARRAY vs, s)))" for t vs
      by (rule keeps_bind [OF expect_keeps], assumption, simp, simp)
    from 2 show ?case unfolding json_parse_array_n.simps Let_def
      apply -
      apply (rule curr_bind, assumption, rule fine_if)
       apply (rule fine_bind [OF Suc.IH(1) [where l = "scan_left s"]], assumption, simp, simp, simp only: prod.case)
       apply (rule skip_bind, assumption, rule moves_bind [OF skip_moves], assumption, simp, simp only: prod.case, rule fine_if, rule finish, assumption, simp)
       apply (rule skip_bind, assumption, rule Suc.IH(2), assumption, simp, simp)
      apply (rule finish, assumption, simp)
      done
  next
    case 3
    have finish: "reach t \<Longrightarrow> scan_left t \<le> l \<Longrightarrow> fine l (sbind (scan_expect (chr_int CHR ''}'') t) (\<lambda>(_, s). Inr (JSON_OBJECT es, s)))" for t es
      by (rule keeps_bind [OF expect_keeps], assumption, simp, simp)
    from 3 show ?case unfolding json_parse_object_n.simps Let_def
      apply -
      apply (rule curr_bind, assumption, rule fine_if)
       apply (rule fine_bind [OF parse_str_fine], assumption, simp only: prod.case)
       apply (rule keeps_bind [OF expect_keeps], assumption, simp, simp only: prod.case)
       apply (rule fine_bind [OF Suc.IH(1) [where l = "scan_left s"]], assumption, simp, simp, simp only: prod.case)
       apply (rule skip_bind, assumption, rule moves_bind [OF skip_moves], assumption, simp, simp only: prod.case, rule fine_if, rule finish, assumption, simp)
       apply (rule skip_bind, assumption, rule Suc.IH(3), assumption, simp, simp)
      apply (rule finish, assumption, simp)
      done
  }
qed simp_all

section \<open>Theorems\<close>



end
