(* ===== verification/Glob.thy ===== *)
theory Glob
  imports Json_Total
begin

text \<open>
  The glob patterns of \<open>brutal-glob/glob.c\<close>. The matcher and the search for a wildcard call each other; the
  number bounds the characters of the pattern that are read, and the search goes once through the rest of
  the input.
\<close>

section \<open>glob.c\<close>

definition scan_size :: "scan \<Rightarrow> int" where "scan_size s = sc_size s"

text \<open>The characters up to the closing bracket.\<close>

fun group_skip :: "nat \<Rightarrow> scan \<Rightarrow> fault + scan" where
  "group_skip 0 s = Inl OutOfFuel"
| "group_skip (Suc n) s =
     (if scan_ended s then Inr s
      else sbind (scan_skip (chr_int CHR '']'') s) (\<lambda>(closed, s).
           if closed then Inr s else sbind (scan_next s) (\<lambda>(_, s). group_skip n s)))"

fun group_loop :: "nat \<Rightarrow> bool \<Rightarrow> int \<Rightarrow> scan \<Rightarrow> fault + (bool \<times> scan)" where
  "group_loop 0 neg current s = Inl OutOfFuel"
| "group_loop (Suc n) neg current s =
     (if scan_ended s then Inr (neg, s)
      else sbind (scan_skip (chr_int CHR '']'') s) (\<lambda>(closed, s).
           if closed then Inr (neg, s)
           else sbind (scan_next s) (\<lambda>(range_start, s).
                sbind (scan_peek s 0) (\<lambda>c0.
                sbind (scan_peek s 1) (\<lambda>c1.
                let range = (c0 = chr_int CHR ''-'' \<and> c1 \<noteq> chr_int CHR '']'');
                    range_end = (if range then c1 else range_start) in
                sbind (if range then scan_next_n 2 s else Inr s) (\<lambda>s.
                let (range_start, range_end) = (if range_end < range_start then (range_end, range_start) else (range_start, range_end)) in
                if range_start \<le> current \<and> current \<le> range_end
                then sbind (group_skip (Suc (scan_left s)) s) (\<lambda>s. Inr (\<not> neg, s))
                else group_loop n neg current s))))))"

definition glob_match_group :: "int \<Rightarrow> scan \<Rightarrow> fault + (bool \<times> scan)" where
  "glob_match_group current s =
     sbind (scan_skip (chr_int CHR ''^'') s) (\<lambda>(neg, s). group_loop (Suc (scan_left s)) neg current s)"

function (sequential) glob_match_n :: "nat \<Rightarrow> scan \<Rightarrow> scan \<Rightarrow> fault + (bool \<times> scan \<times> scan)"
  and wildcard_loop :: "nat \<Rightarrow> nat \<Rightarrow> int \<Rightarrow> int \<Rightarrow> scan \<Rightarrow> scan \<Rightarrow> fault + (bool \<times> scan \<times> scan)" where
  "glob_match_n 0 p i = Inl OutOfFuel"
| "glob_match_n (Suc n) p i =
     (if \<not> scan_ended p \<and> \<not> scan_ended i
      then sbind (scan_next p) (\<lambda>(opr, p).
           if opr = chr_int CHR ''?'' then
             if scan_ended i then Inr (False, p, i)
             else sbind (scan_next i) (\<lambda>(_, i). glob_match_n n p i)
           else if opr = chr_int CHR ''['' then
             sbind (scan_next i) (\<lambda>(c, i).
             sbind (glob_match_group c p) (\<lambda>(found, p). if \<not> found then Inr (False, p, i) else glob_match_n n p i))
           else if opr = chr_int CHR ''*'' then
             sbind (wildcard_loop n (nat (scan_size i - scan_tell i) + 2) (scan_tell p) (scan_tell i) p (scan_seek (scan_size i) i)) (\<lambda>(found, p, i).
             if \<not> found then Inr (False, p, i) else glob_match_n n p i)
           else
             if scan_ended i then Inr (False, p, i)
             else sbind (scan_next i) (\<lambda>(c, i). if opr \<noteq> c then Inr (False, p, i) else glob_match_n n p i))
      else Inr (scan_ended p \<and> scan_ended i, p, i))"
| "wildcard_loop n 0 pattern_start input_start p i = Inl OutOfFuel"
| "wildcard_loop n (Suc k) pattern_start input_start p i =
     (if scan_tell i \<ge> input_start
      then let input_here = scan_tell i in
           sbind (glob_match_n n p i) (\<lambda>(found, p, i).
           if found then Inr (True, p, i)
           else wildcard_loop n k pattern_start input_start (scan_seek pattern_start p) (scan_seek (input_here - 1) i))
      else Inr (False, p, i))"
  by pat_completeness auto
termination
  by (relation "inv_image (less_than <*lex*> less_than) (\<lambda>x. case x of Inl (n, _, _) \<Rightarrow> (n, 0) | Inr (n, k, _) \<Rightarrow> (n, Suc k))") auto

definition glob_match_str :: "str \<Rightarrow> str \<Rightarrow> fault + bool" where
  "glob_match_str pattern input =
     (let p = scan_init pattern in
      sbind (glob_match_n (Suc (scan_left p)) p (scan_init input)) (\<lambda>(found, _, _). Inr found))"

section \<open>The documented patterns\<close>

text \<open>
  What the comment in \<open>glob.h\<close> says of the characters \<open>?\<close> and \<open>*\<close>, of the backslash, which makes the next
  character stand for itself, and of the characters that stand for themselves. Brackets are left out.
\<close>

fun glob_spec :: "str \<Rightarrow> str \<Rightarrow> bool" where
  "glob_spec [] xs \<longleftrightarrow> xs = []"
| "glob_spec (p # ps) xs \<longleftrightarrow>
     (if p = 0x2a then \<exists>m\<le>length xs. glob_spec ps (drop m xs)
      else if p = 0x5c then case (ps, xs) of (q # ps, x # xs) \<Rightarrow> x = q \<and> glob_spec ps xs | _ \<Rightarrow> False
      else case xs of [] \<Rightarrow> False | x # xs \<Rightarrow> (p = 0x3f \<or> x = p) \<and> glob_spec ps xs)"

lemma glob_spec_nil: "ps \<noteq> [] \<Longrightarrow> last ps \<noteq> 0x2a \<Longrightarrow> \<not> glob_spec ps []"
  by (induction ps) (auto split: if_splits list.splits)

text \<open>A scanner over the same text, wherever its head is.\<close>

definition same_text :: "str \<Rightarrow> scan \<Rightarrow> bool" where
  "same_text t s \<longleftrightarrow> (\<exists>h. s = (sc_at [] t)\<lparr>sc_head := h\<rparr>)"

lemma same_text_at: "same_text t (sc_at pre post) \<longleftrightarrow> t = pre @ post"
  by (auto simp: same_text_def sc_at_def)

lemma same_text_seek [simp]: "same_text t s \<Longrightarrow> same_text t (scan_seek h s)"
  by (auto simp: same_text_def scan_seek_def)

lemma seek_at: "same_text (pre @ post) s \<Longrightarrow> h = int (length pre) \<Longrightarrow> scan_seek h s = sc_at pre post"
  by (auto simp: same_text_def scan_seek_def sc_at_def)

text \<open>What a run of the matcher returns: its answer, and two scanners over the same texts, both at the end after a match.\<close>

definition answer :: "str \<Rightarrow> str \<Rightarrow> bool \<Rightarrow> fault + (bool \<times> scan \<times> scan) \<Rightarrow> bool" where
  "answer pt it b r \<longleftrightarrow> (\<exists>p i. r = Inr (b, p, i) \<and> same_text pt p \<and> same_text it i \<and> (b \<longrightarrow> scan_ended p \<and> scan_ended i))"

lemma answer_Inr [simp]: "answer pt it b (Inr (b', p, i)) \<longleftrightarrow> b' = b \<and> same_text pt p \<and> same_text it i \<and> (b \<longrightarrow> scan_ended p \<and> scan_ended i)"
  by (auto simp: answer_def)

lemma tell_at [simp]: "scan_tell (sc_at pre post) = int (length pre)" "scan_size (sc_at pre post) = int (length pre + length post)"
  by (simp_all add: scan_tell_def scan_size_def sc_at_def)

lemma wildcard_answer:
  assumes match: "\<And>xp xs. answer (pp @ ps) (xp @ xs) (glob_spec ps xs) (glob_match_n n (sc_at pp ps) (sc_at xp xs))"
    and "j \<le> length xs" "j + 1 < k"
  shows "answer (pp @ ps) (xp @ xs) (\<exists>m\<le>j. glob_spec ps (drop m xs))
    (wildcard_loop n k (int (length pp)) (int (length xp)) (sc_at pp ps) (sc_at (xp @ take j xs) (drop j xs)))"
  using assms(2,3)
proof (induction j arbitrary: k)
  case 0
  then obtain k' where k: "k = Suc (Suc k')" by (cases k; cases "k - 1") auto
  obtain b p i where r: "glob_match_n n (sc_at pp ps) (sc_at xp xs) = Inr (b, p, i)" "b = glob_spec ps xs" "same_text (pp @ ps) p" "same_text (xp @ xs) i"
      "b \<Longrightarrow> scan_ended p \<and> scan_ended i"
    using match [of xp xs] by (auto simp: answer_def)
  have "scan_tell (scan_seek h i) = h" for h by (simp add: scan_tell_def scan_seek_def)
  then show ?case using r by (cases b) (simp_all add: k)
next
  case (Suc j)
  then obtain k' where k: "k = Suc k'" "j + 1 < k'" by (cases k) auto
  let ?x = "xp @ take (Suc j) xs" and ?y = "drop (Suc j) xs"
  obtain b p i where r: "glob_match_n n (sc_at pp ps) (sc_at ?x ?y) = Inr (b, p, i)" "b = glob_spec ps ?y" "same_text (pp @ ps) p" "same_text (xp @ xs) i"
      "b \<Longrightarrow> scan_ended p \<and> scan_ended i"
    using match [of ?x ?y] by (auto simp: answer_def)
  have i: "scan_seek (int (length ?x) - 1) i = sc_at (xp @ take j xs) (drop j xs)" using r(4) Suc.prems(1) by (intro seek_at) simp_all
  have p: "scan_seek (int (length pp)) p = sc_at pp ps" using r(3) by (intro seek_at) simp_all
  have ex: "(\<exists>m\<le>Suc j. glob_spec ps (drop m xs)) \<longleftrightarrow> b \<or> (\<exists>m\<le>j. glob_spec ps (drop m xs))" using r(2) by (auto simp: le_Suc_eq)
  show ?case using Suc.IH [of k'] Suc.prems k r i p unfolding ex by (cases b) (simp_all add: k(1))
qed


definition glob_plain :: "str \<Rightarrow> bool" where
  "glob_plain ps \<longleftrightarrow> 0x5b \<notin> set ps \<and> 0x5c \<notin> set ps \<and> (ps = [] \<or> last ps \<noteq> 0x2a)"

lemma sint_glob: "sint (c :: u8) = 63 \<longleftrightarrow> c = 0x3f" "sint c = 42 \<longleftrightarrow> c = 0x2a" "sint c = 91 \<longleftrightarrow> c = 0x5b"
  using sint_eq_ascii [of "0x3f" c] sint_eq_ascii [of "0x2a" c] sint_eq_ascii [of "0x5b" c] by simp_all

lemma sint_eq_iff: "sint (a :: u8) = sint b \<longleftrightarrow> a = b"
  using signed_word_eqI [of a b, where ?'a = int] by auto

lemma glob_match_answer:
  "glob_plain ps \<Longrightarrow> length ps < n \<Longrightarrow> answer (pp @ ps) (xp @ xs) (glob_spec ps xs) (glob_match_n n (sc_at pp ps) (sc_at xp xs))"
proof (induction ps arbitrary: n pp xp xs)
  case Nil
  then obtain k where "n = Suc k" by (cases n) auto
  then show ?case by (auto simp: same_text_at)
next
  case (Cons p ps)
  then obtain k where k: "n = Suc k" "length ps < k" by (cases n) auto
  have ps: "glob_plain ps" "p \<noteq> 0x5b" "p \<noteq> 0x5c" "ps = [] \<Longrightarrow> p \<noteq> 0x2a" using Cons.prems(1) by (auto simp: glob_plain_def split: if_splits)
  note IH = Cons.IH [OF ps(1) k(2), of "pp @ [p]", simplified]
  show ?case
  proof (cases xs)
    case Nil
    then show ?thesis using glob_spec_nil [of "p # ps"] Cons.prems(1) by (simp add: k same_text_at glob_plain_def del: glob_spec.simps)
  next
    case (Cons x xs')
    show ?thesis
    proof (cases "p = 0x2a")
      case True
      let ?w = "wildcard_loop k (length xs + 2) (int (length (pp @ [p]))) (int (length xp)) (sc_at (pp @ [p]) ps) (sc_at (xp @ xs) [])"
      have "answer (pp @ p # ps) (xp @ xs) (\<exists>m\<le>length xs. glob_spec ps (drop m xs)) ?w"
        using wildcard_answer [of "pp @ [p]" ps k "length xs" xs "length xs + 2" xp] IH by simp
      then obtain b p' i' where w: "?w = Inr (b, p', i')" "b = (\<exists>m\<le>length xs. glob_spec ps (drop m xs))" "same_text (pp @ p # ps) p'" "same_text (xp @ xs) i'"
          "b \<Longrightarrow> scan_ended p' \<and> scan_ended i'" by (auto simp: answer_def)
      have seek: "scan_seek (int (length xp + length xs)) (sc_at xp xs) = sc_at (xp @ xs) []" by (rule seek_at) (simp_all add: same_text_at)
      have spec: "glob_spec (p # ps) xs = b" using True w(2) by simp
      obtain k' where "k = Suc k'" using k(2) by (cases k) auto
      then have "b \<Longrightarrow> glob_match_n k p' i' = Inr (True, p', i')" using w(5) by simp
      moreover have "xs \<noteq> []" using Cons by simp
      then have "glob_match_n n (sc_at pp (p # ps)) (sc_at xp xs) = sbind ?w (\<lambda>(found, p, i). if \<not> found then Inr (False, p, i) else glob_match_n k p i)"
        using True seek unfolding k(1) by (subst glob_match_n.simps(2)) (simp del: glob_match_n.simps wildcard_loop.simps add: nat_add_distrib)
      ultimately show ?thesis using w unfolding spec by (cases b) (simp_all del: glob_match_n.simps wildcard_loop.simps)
    next
      case False
      then show ?thesis using IH [of "xp @ [x]" xs'] Cons ps(2,3) by (auto simp: k(1) sint_glob sint_eq_iff same_text_at)
    qed
  qed
qed

section \<open>Theorems\<close>

text \<open>
  C32. A pattern without brackets and backslashes whose last character is not a star matches exactly the
  inputs that the documentation of \<open>glob_match\<close> says: a question mark stands for one character, a star for any
  number of them, also none, and every other character for itself. The exceptions are where the code and
  its documentation part: a star at the end is not matched against nothing (the pattern \<open>a*\<close> does not match
  the input \<open>a\<close>), and a backslash is compared as a character (\<open>glob_backslash\<close>).
\<close>

theorem glob_match_documented:
  assumes "length pattern < 2 ^ 31" "length input < 2 ^ 31" "glob_plain pattern"
  shows "glob_match_str pattern input = Inr (glob_spec pattern input)"
  using glob_match_answer [OF assms(3), of "Suc (length pattern)" "[]" "[]" input] assms(1,2)
  by (auto simp: glob_match_str_def scan_init_at answer_def simp del: glob_match_n.simps)

lemma glob_match_documented_witness:
  "glob_match_str (lit ''*a?c'') (lit ''xabc'') = Inr True"
proof -
  have "glob_spec (lit ''*a?c'') (lit ''xabc'')" by (auto intro: exI [of _ 1])
  then show ?thesis using glob_match_documented [of "lit ''*a?c''" "lit ''xabc''"] by (simp add: glob_plain_def)
qed

theorem glob_trailing_star: "glob_match_str (lit ''a*'') (lit ''a'') = Inr False \<and> glob_spec (lit ''a*'') (lit ''a'')"
  by (auto simp: glob_match_str_def scan_init_at)

theorem glob_backslash:
  "glob_match_str [0x5c, 0x61] [0x61] = Inr False \<and> glob_spec [0x5c, 0x61] [0x61] \<and>
   glob_match_str [0x5c, 0x61] [0x5c, 0x61] = Inr True \<and> \<not> glob_spec [0x5c, 0x61] [0x5c, 0x61]"
  by (auto simp: glob_match_str_def scan_init_at)

end
