(* ===== verification/Lex.thy ===== *)
theory Lex
  imports Json_Total
begin

text \<open>
  Lexers: the sequence of lexemes and the parser's view of it, \<open>brutal-parse/lex.c\<close>, and the lexer of the C
  compiler, \<open>cc/lex/lexer.c\<close>. The type of a lexeme is an \<open>int\<close>: one of two negative constants, or the place of
  a name in the list of the lexemes of the language. The initialiser in \<open>lex\<close> is evaluated from left to right.
\<close>

section \<open>lex.c\<close>

type_synonym lexeme_type = int

definition LEXEME_EOF :: lexeme_type where "LEXEME_EOF = - 1"
definition LEXEME_INVALID :: lexeme_type where "LEXEME_INVALID = - 2"

record lexeme =
  lexeme_kind :: lexeme_type
  lexeme_str :: str

record lex_error =
  lex_message :: string
  lex_lexeme :: lexeme

record lex =
  lexemes :: "lexeme list"
  lex_head :: int
  lex_has_error :: bool
  lex_error :: "lex_error option"

text \<open>The loop ends when every call of the function moves the head: then what is left bounds its turns.\<close>

fun lex_loop :: "nat \<Rightarrow> (scan \<Rightarrow> fault + (lexeme_type \<times> scan)) \<Rightarrow> lexeme list \<Rightarrow> scan \<Rightarrow> fault + (lexeme list \<times> scan)" where
  "lex_loop 0 fn ls s = Inl OutOfFuel"
| "lex_loop (Suc n) fn ls s =
     (if scan_ended s then Inr (ls, s)
      else sbind (fn (scan_begin s)) (\<lambda>(type, s).
           let l = \<lparr>lexeme_kind = type, lexeme_str = scan_end s\<rparr> in
           if type = LEXEME_INVALID then sbind (scan_throw ''invalid lexeme'' (lexeme_str l) s) (\<lambda>s. Inr (ls, s))
           else lex_loop n fn (ls @ [l]) s))"

definition lex_from_lexeme :: "lexeme list \<Rightarrow> lex" where
  "lex_from_lexeme from = \<lparr>lexemes = from, lex_head = 0, lex_has_error = False, lex_error = None\<rparr>"

definition lex :: "scan \<Rightarrow> (scan \<Rightarrow> fault + (lexeme_type \<times> scan)) \<Rightarrow> fault + (lex \<times> scan)" where
  "lex s fn = sbind (lex_loop (Suc (scan_left s)) fn [] s) (\<lambda>(ls, s). Inr (lex_from_lexeme ls, s))"

definition lex_ok :: "lex \<Rightarrow> bool" where "lex_ok self \<longleftrightarrow> \<not> lex_has_error self"

definition lex_ended :: "lex \<Rightarrow> bool" where
  "lex_ended self \<longleftrightarrow> \<not> lex_ok self \<or> lex_head self \<ge> int (length (lexemes self))"

definition lex_peek :: "lex \<Rightarrow> int \<Rightarrow> fault + lexeme" where
  "lex_peek self offset =
     (if lex_has_error self \<or> lex_head self + offset \<ge> int (length (lexemes self))
      then Inr \<lparr>lexeme_kind = LEXEME_EOF, lexeme_str = []\<rparr>
      else if lex_head self + offset < 0 then Inl OutOfBounds
      else Inr (lexemes self ! nat (lex_head self + offset)))"

definition lex_curr :: "lex \<Rightarrow> fault + lexeme" where "lex_curr self = lex_peek self 0"

definition lex_next :: "lex \<Rightarrow> fault + (lexeme \<times> lex)" where
  "lex_next self = sbind (lex_curr self) (\<lambda>l. Inr (l, self\<lparr>lex_head := lex_head self + 1\<rparr>))"

definition lex_peek_type :: "lex \<Rightarrow> int \<Rightarrow> fault + lexeme_type" where
  "lex_peek_type self offset = sbind (lex_peek self offset) (\<lambda>l. Inr (lexeme_kind l))"

definition lex_curr_type :: "lex \<Rightarrow> fault + lexeme_type" where
  "lex_curr_type self = sbind (lex_curr self) (\<lambda>l. Inr (lexeme_kind l))"

definition lex_next_type :: "lex \<Rightarrow> fault + (lexeme_type \<times> lex)" where
  "lex_next_type self = sbind (lex_next self) (\<lambda>(l, self). Inr (lexeme_kind l, self))"

definition lex_collect :: "lex \<Rightarrow> str" where
  "lex_collect self = fold (\<lambda>l buf. buf @ lexeme_str l) (lexemes self) []"

definition lex_skip_type :: "lexeme_type \<Rightarrow> lex \<Rightarrow> fault + (bool \<times> lex)" where
  "lex_skip_type type self =
     sbind (lex_curr_type self) (\<lambda>t. if t = type then sbind (lex_next self) (\<lambda>(_, self). Inr (True, self)) else Inr (False, self))"

definition lex_throw :: "string \<Rightarrow> lex \<Rightarrow> fault + lex" where
  "lex_throw message self =
     (if lex_has_error self then Inr self
      else let self = self\<lparr>lex_has_error := True\<rparr> in
           sbind (lex_curr self) (\<lambda>l. Inr (self\<lparr>lex_error := Some \<lparr>lex_message = message, lex_lexeme = l\<rparr>\<rparr>)))"

definition lex_expect :: "lexeme_type \<Rightarrow> lex \<Rightarrow> fault + (bool \<times> lex)" where
  "lex_expect type self =
     sbind (lex_skip_type type self) (\<lambda>(found, self).
     if found then Inr (True, self) else sbind (lex_throw ''unexpected-lexeme'' self) (\<lambda>self. Inr (False, self)))"

section \<open>The lexer of the C compiler\<close>

definition clex_names :: "string list" where
  "clex_names = [
     ''NONE'', ''WHITESPACE'', ''COMMENT'', ''NEWLINE'', ''IDENT'', ''INTEGER'', ''AUTO'', ''BREAK'', ''CASE'', ''CHAR'', ''CONST'',
     ''CONTINUE'', ''DEFAULT'', ''DO'', ''DOUBLE'', ''ELSE'', ''ENUM'', ''EXTERN'', ''FLOAT'', ''FOR'', ''GOTO'', ''IF'', ''INLINE'',
     ''INT'', ''LONG'', ''REGISTER'', ''RESTRICT'', ''RETURN'', ''SHORT'', ''SIGNED'', ''SIZEOF'', ''STATIC'', ''STRUCT'', ''SWITCH'',
     ''TYPEDEF'', ''UNION'', ''UNSIGNED'', ''VOID'', ''VOLATILE'', ''WHILE'', ''ALIGNAS'', ''ALIGNOF'', ''ATOMIC'', ''BOOL'', ''GENERIC'',
     ''NORETURN'', ''STATIC_ASSERT'', ''THREAD_LOCAL'', ''LPARENT'', ''RPARENT'', ''LBRACKET'', ''RBRACKET'', ''LBRACE'', ''RBRACE'',
     ''COMMA'', ''LCHEVRON'', ''RCHEVRON'', ''LCHEVRON_EQ'', ''RCHEVRON_EQ'', ''LSHIFT'', ''RSHIFT'', ''POUND'', ''DOUBLE_POUND'',
     ''PLUS'', ''PLUSPLUS'', ''MINUS'', ''MINUSMINUS'', ''EQUALEQUAL'', ''EQUAL'', ''PLUS_EQ'', ''MINUS_EQ'', ''STAR_EQ'', ''SLASH_EQ'',
     ''PERCENT_EQ'', ''AMPERSAND_EQ'', ''BAR_EQ'', ''CIRCUMFLEX_EQ'', ''LSHIFT_EQ'', ''RSHIFT_EQ'', ''STAR'', ''SLASH'', ''PERCENT'',
     ''AMPERSANDAMPERSAND'', ''AMPERSAND'', ''BARBAR'', ''BAR'', ''CIRCUMFLEX'', ''TILDE'', ''EXCLAMATION'', ''EXCLAMATIONEQUAL'',
     ''DOT'', ''ARROW'', ''SEMICOLON'', ''STRING'', ''CHARACTER'']"

text \<open>The value of an enumerator is its place.\<close>

definition CLEX :: "string \<Rightarrow> lexeme_type" where
  "CLEX name = int (length (takeWhile (\<lambda>n. n \<noteq> name) clex_names))"

definition clex_keywords :: "(string \<times> lexeme_type) list" where
  "clex_keywords = [
     ([CHR 0x0A], CLEX ''NEWLINE''), (''auto'', CLEX ''AUTO''), (''break'', CLEX ''BREAK''), (''case'', CLEX ''CASE''), (''char'', CLEX ''CHAR''),
     (''const'', CLEX ''CONST''), (''continue'', CLEX ''CONTINUE''), (''default'', CLEX ''DEFAULT''), (''do'', CLEX ''DO''), (''double'', CLEX ''DOUBLE''),
     (''else'', CLEX ''ELSE''), (''enum'', CLEX ''ENUM''), (''extern'', CLEX ''EXTERN''), (''float'', CLEX ''FLOAT''), (''for'', CLEX ''FOR''),
     (''goto'', CLEX ''GOTO''), (''if'', CLEX ''IF''), (''inline'', CLEX ''INLINE''), (''int'', CLEX ''INT''), (''long'', CLEX ''LONG''),
     (''register'', CLEX ''REGISTER''), (''restrict'', CLEX ''RESTRICT''), (''return'', CLEX ''RETURN''), (''short'', CLEX ''SHORT''),
     (''signed'', CLEX ''SIGNED''), (''sizeof'', CLEX ''SIZEOF''), (''static'', CLEX ''STATIC''), (''struct'', CLEX ''STRUCT''), (''switch'', CLEX ''SWITCH''),
     (''typedef'', CLEX ''TYPEDEF''), (''union'', CLEX ''UNION''), (''unsigned'', CLEX ''UNSIGNED''), (''void'', CLEX ''VOID''), (''volatile'', CLEX ''VOLATILE''),
     (''while'', CLEX ''WHILE''), (''_Alignas'', CLEX ''ALIGNAS''), (''_Alignof'', CLEX ''ALIGNOF''), (''_Atomic'', CLEX ''ATOMIC''),
     (''_Bool'', CLEX ''BOOL''), (''_Generic'', CLEX ''GENERIC''), (''_Noreturn'', CLEX ''NORETURN''), (''_Static_assert'', CLEX ''STATIC_ASSERT''),
     (''_Thread_local'', CLEX ''THREAD_LOCAL''), (''('', CLEX ''LPARENT''), ('')'', CLEX ''RPARENT''), (''['', CLEX ''LBRACKET''), ('']'', CLEX ''RBRACKET''),
     ('','', CLEX ''COMMA''), (''{'', CLEX ''LBRACE''), (''}'', CLEX ''RBRACE''), (''<<='', CLEX ''LSHIFT_EQ''), (''>>='', CLEX ''RSHIFT_EQ''),
     (''<<'', CLEX ''LSHIFT''), (''>>'', CLEX ''RSHIFT''), (''<'', CLEX ''LCHEVRON''), (''>'', CLEX ''RCHEVRON''), (''##'', CLEX ''DOUBLE_POUND''),
     (''#'', CLEX ''POUND''), (''+='', CLEX ''PLUS_EQ''), (''++'', CLEX ''PLUSPLUS''), (''+'', CLEX ''PLUS''), (''->'', CLEX ''ARROW''),
     (''-='', CLEX ''MINUS_EQ''), (''--'', CLEX ''MINUSMINUS''), (''-'', CLEX ''MINUS''), (''*='', CLEX ''STAR_EQ''), (''*'', CLEX ''STAR''),
     (''/='', CLEX ''SLASH_EQ''), (''/'', CLEX ''SLASH''), (''%='', CLEX ''PERCENT_EQ''), (''%'', CLEX ''PERCENT''), (''&&'', CLEX ''AMPERSANDAMPERSAND''),
     (''&='', CLEX ''AMPERSAND_EQ''), (''&'', CLEX ''AMPERSAND''), (''||'', CLEX ''BARBAR''), (''|='', CLEX ''BAR_EQ''), (''|'', CLEX ''BAR''),
     (''^='', CLEX ''CIRCUMFLEX_EQ''), (''^'', CLEX ''CIRCUMFLEX''), (''!='', CLEX ''EXCLAMATIONEQUAL''), (''!'', CLEX ''EXCLAMATION''),
     (''=='', CLEX ''EQUALEQUAL''), (''='', CLEX ''EQUAL''), (''~'', CLEX ''TILDE''), (''.'', CLEX ''DOT''), ('';'', CLEX ''SEMICOLON'')
     ]"

definition isidentchar :: "int \<Rightarrow> bool" where
  "isidentchar v \<longleftrightarrow> isalpha v \<or> v = chr_int CHR ''_'' \<or> v = chr_int CHR ''$'' \<or> isdigit v"

fun until_word :: "nat \<Rightarrow> str \<Rightarrow> scan \<Rightarrow> fault + (unit \<times> scan)" where
  "until_word 0 w s = Inl OutOfFuel"
| "until_word (Suc n) w s =
     sbind (scan_skip_word w s) (\<lambda>(found, s).
     if \<not> found \<and> \<not> scan_ended s then sbind (scan_next s) (\<lambda>(_, s). until_word n w s) else Inr ((), s))"

fun until_char :: "nat \<Rightarrow> int \<Rightarrow> scan \<Rightarrow> fault + (unit \<times> scan)" where
  "until_char 0 c s = Inl OutOfFuel"
| "until_char (Suc n) c s =
     sbind (scan_skip c s) (\<lambda>(found, s).
     if \<not> found \<and> \<not> scan_ended s then sbind (scan_next s) (\<lambda>(_, s). until_char n c s) else Inr ((), s))"

fun keyword_from :: "(string \<times> lexeme_type) list \<Rightarrow> scan \<Rightarrow> fault + (lexeme_type option \<times> scan)" where
  "keyword_from [] s = Inr (None, s)"
| "keyword_from ((name, type) # ks) s =
     sbind (scan_skip_word (lit name) s) (\<lambda>(found, s). if found then Inr (Some type, s) else keyword_from ks s)"

definition clex_impl :: "scan \<Rightarrow> fault + (lexeme_type \<times> scan)" where
  "clex_impl s =
     sbind (scan_curr s) (\<lambda>c.
     if isspace c \<and> c \<noteq> 0x0a
     then sbind (scan_eat (\<lambda>c. isspace c \<and> c \<noteq> 0x0a) s) (\<lambda>(_, s). Inr (CLEX ''WHITESPACE'', s))
     else sbind (scan_skip_word (lit ''/*'') s) (\<lambda>(found, s).
     if found then sbind (until_word (Suc (scan_left s)) (lit ''*/'') s) (\<lambda>(_, s). Inr (CLEX ''COMMENT'', s))
     else sbind (scan_skip_word (lit ''//'') s) (\<lambda>(found, s).
     if found then sbind (until_char (Suc (scan_left s)) 0x0a s) (\<lambda>(_, s). Inr (CLEX ''COMMENT'', s))
     else sbind (scan_skip_word [0x22] s) (\<lambda>(found, s).
     if found then sbind (until_char (Suc (scan_left s)) 0x22 s) (\<lambda>(_, s). Inr (CLEX ''STRING'', s))
     else sbind (scan_skip_word [0x27] s) (\<lambda>(found, s).
     if found
     then sbind (scan_curr s) (\<lambda>c.
          sbind (if c \<noteq> 0x27 then sbind (scan_next s) (\<lambda>(_, s). Inr (False, s)) else Inr (False, s)) (\<lambda>(_, s).
          sbind (scan_skip 0x27 s) (\<lambda>(_, s). Inr (CLEX ''CHARACTER'', s))))
     else sbind (keyword_from clex_keywords s) (\<lambda>(keyword, s).
     case keyword of
       Some type \<Rightarrow> Inr (type, s)
     | None \<Rightarrow>
         sbind (scan_curr s) (\<lambda>c.
         if isdigit c then sbind (scan_eat isdigit s) (\<lambda>(_, s). Inr (CLEX ''INTEGER'', s))
         else if isidentchar c then sbind (scan_eat isidentchar s) (\<lambda>(_, s). Inr (CLEX ''IDENT'', s))
         else Inr (LEXEME_INVALID, s))))))))"

definition clex :: "scan \<Rightarrow> fault + (lex \<times> scan)" where
  "clex s = lex s clex_impl"

section \<open>Lexers that move on\<close>

text \<open>A call that reads some of the text, and may have recorded an error.\<close>

definition reads :: "str \<Rightarrow> str \<Rightarrow> bool \<Rightarrow> fault + ('a \<times> scan) \<Rightarrow> bool" where
  "reads pre post some r \<longleftrightarrow>
     (\<exists>x w rest e. r = Inr (x, (sc_at (pre @ w) rest)\<lparr>sc_error := e\<rparr>) \<and> post = w @ rest \<and> (some \<longrightarrow> w \<noteq> []))"

text \<open>The operations of the scanner do not look at the beginning of the token.\<close>

definition retoken :: "int \<Rightarrow> fault + ('a \<times> scan) \<Rightarrow> fault + ('a \<times> scan)" where
  "retoken k r = sbind r (\<lambda>(x, s). Inr (x, s\<lparr>sc_token := k\<rparr>))"

lemma retoken_simps [simp]:
  "retoken k (Inl f) = Inl f" "retoken k (Inr (x, s)) = Inr (x, s\<lparr>sc_token := k\<rparr>)"
  by (simp_all add: retoken_def)

lemma retoken_bind: "sbind (retoken k r) f = sbind r (\<lambda>(x, s). f (x, s\<lparr>sc_token := k\<rparr>))"
  by (cases r) auto

lemma bind_retoken: "retoken k (sbind r f) = sbind r (\<lambda>x. retoken k (f x))"
  by (cases r) auto

lemma token_reads [simp]:
  "has_error (s\<lparr>sc_token := k\<rparr>) = has_error s" "scan_ended (s\<lparr>sc_token := k\<rparr>) = scan_ended s" "scan_peek (s\<lparr>sc_token := k\<rparr>) i = scan_peek s i"
  "scan_curr (s\<lparr>sc_token := k\<rparr>) = scan_curr s" "scan_left (s\<lparr>sc_token := k\<rparr>) = scan_left s"
  by (simp_all add: has_error_def scan_ended_def scan_peek_def scan_curr_def scan_left_def)

lemma token_next: "scan_next (s\<lparr>sc_token := k\<rparr>) = retoken k (scan_next s)"
  by (cases s) (auto simp: scan_next_def scan_throw_def bind_retoken has_error_def scan_ended_def scan_peek_def)

lemma token_skip: "scan_skip c (s\<lparr>sc_token := k\<rparr>) = retoken k (scan_skip c s)"
  by (cases "scan_curr s"; cases "scan_next s") (auto simp: scan_skip_def token_next)

lemma token_word_here [simp]: "word_here (s\<lparr>sc_token := k\<rparr>) i ws = word_here s i ws"
  by (induction ws arbitrary: i) (auto cong: if_cong)

lemma token_next_n: "scan_next_n n (s\<lparr>sc_token := k\<rparr>) = sbind (scan_next_n n s) (\<lambda>s. Inr (s\<lparr>sc_token := k\<rparr>))"
proof -
  have "for_each (\<lambda>_ s. sbind (scan_next s) (\<lambda>(_, s). Inr s)) xs (s\<lparr>sc_token := k\<rparr>) =
      sbind (for_each (\<lambda>_ s. sbind (scan_next s) (\<lambda>(_, s). Inr s)) xs s) (\<lambda>s. Inr (s\<lparr>sc_token := k\<rparr>))" for xs :: "nat list"
  proof (induction xs arbitrary: s)
    case (Cons x xs)
    then show ?case by (cases "scan_next s") (auto simp: token_next)
  qed simp
  then show ?thesis by (simp add: scan_next_n_def)
qed

lemma token_skip_word: "scan_skip_word ws (s\<lparr>sc_token := k\<rparr>) = retoken k (scan_skip_word ws s)"
  by (cases "word_here s 0 ws"; cases "scan_next_n (length ws) s") (auto simp: scan_skip_word_def token_next_n)

lemma token_eat: "scan_eat m (s\<lparr>sc_token := k\<rparr>) = retoken k (scan_eat m s)"
proof -
  have "eat_loop n m r (s\<lparr>sc_token := k\<rparr>) = retoken k (eat_loop n m r s)" for n r
  proof (induction n arbitrary: r s)
    case (Suc n)
    then show ?case by (cases "scan_curr s"; cases "scan_next s") (auto simp: token_next)
  qed simp
  then show ?thesis by (simp add: scan_eat_def del: eat_loop.simps)
qed

lemma token_until: "until_word n ws (s\<lparr>sc_token := k\<rparr>) = retoken k (until_word n ws s)" "until_char n c (s\<lparr>sc_token := k\<rparr>) = retoken k (until_char n c s)"
proof (induction n arbitrary: s)
  case (Suc n)
  {
    case 1
    show ?case
    proof (cases "scan_skip_word ws s")
      case (Inr p)
      then show ?thesis using Suc by (cases p; cases "scan_next (snd p)") (auto simp: token_skip_word token_next)
    qed (simp add: token_skip_word)
  next
    case 2
    show ?case
    proof (cases "scan_skip c s")
      case (Inr p)
      then show ?thesis using Suc by (cases p; cases "scan_next (snd p)") (auto simp: token_skip token_next)
    qed (simp add: token_skip)
  }
qed simp_all

lemma token_keyword: "keyword_from ks (s\<lparr>sc_token := k\<rparr>) = retoken k (keyword_from ks s)"
proof (induction ks arbitrary: s)
  case (Cons x ks)
  obtain name type where "x = (name, type)" by fastforce
  then show ?case using Cons by (cases "scan_skip_word (lit name) s") (auto simp: token_skip_word)
qed simp

lemma retoken_if: "retoken k (if b then x else y) = (if b then retoken k x else retoken k y)"
  by simp

lemma retoken_case: "retoken k (case z of None \<Rightarrow> x | Some v \<Rightarrow> f v) = (case z of None \<Rightarrow> retoken k x | Some v \<Rightarrow> retoken k (f v))"
  by (cases z) simp_all

lemma sbind_if: "sbind (if b then x else y) f = (if b then sbind x f else sbind y f)"
  by simp

lemmas retoken_push = sbind_if sbind_assoc retoken_bind bind_retoken retoken_if retoken_case case_prod_unfold

lemma token_clex: "clex_impl (s\<lparr>sc_token := k\<rparr>) = retoken k (clex_impl s)"
  by (simp add: clex_impl_def token_skip_word token_skip token_next token_eat token_until token_keyword retoken_push cong: if_cong option.case_cong del: until_word.simps until_char.simps lit_simps)

text \<open>Every branch reads some of the text, or nothing of it when the lexeme is invalid.\<close>

lemma reads_Inr: "post = w @ rest \<Longrightarrow> (some \<longrightarrow> w \<noteq> []) \<Longrightarrow> reads pre post some (Inr (x, (sc_at (pre @ w) rest)\<lparr>sc_error := e\<rparr>))"
  unfolding reads_def by blast

lemma reads_at: "post = w @ rest \<Longrightarrow> (some \<longrightarrow> w \<noteq> []) \<Longrightarrow> reads pre post some (Inr (x, sc_at (pre @ w) rest))"
  using reads_Inr [of post w rest some pre x None] by (simp add: sc_at_def)

lemma reads_more:
  assumes "reads (pre @ w) rest False r" "w \<noteq> []"
  shows "reads pre (w @ rest) True r"
  using assms unfolding reads_def by (metis append.assoc append_is_Nil_conv)

lemma reads_map: "reads pre post some r \<Longrightarrow> reads pre post some (sbind r (\<lambda>(_, s). Inr (x, s)))"
  unfolding reads_def by fastforce

lemma until_word_reads:
  "\<forall>w\<in>set ws. w \<noteq> 0 \<and> uint w < 128 \<Longrightarrow> length post < n \<Longrightarrow> reads pre post False (until_word n ws (sc_at pre post))"
proof (induction post arbitrary: n pre)
  case Nil
  then obtain k where "n = Suc k" by (cases n) auto
  then show ?case using Nil reads_at [of "[]" "[]" "[]" False] by (simp add: scan_skip_word_at)
next
  case (Cons c cs)
  then obtain k where k: "n = Suc k" "length cs < k" by (cases n) auto
  show ?case
  proof (cases "take (length ws) (c # cs) = ws")
    case True
    then have "c # cs = ws @ drop (length ws) (c # cs)" by (metis append_take_drop_id)
    then have "reads pre (c # cs) False (Inr ((), sc_at (pre @ ws) (drop (length ws) (c # cs))))" by (rule reads_at) simp
    then show ?thesis using True Cons.prems(1) by (simp add: k scan_skip_word_at)
  next
    case False
    have "reads (pre @ [c]) cs False (until_word k ws (sc_at (pre @ [c]) cs))" using Cons k by simp
    from reads_more [OF this] have "reads pre (c # cs) False (until_word k ws (sc_at (pre @ [c]) cs))" unfolding reads_def by auto
    then show ?thesis using False Cons.prems(1) by (simp add: k scan_skip_word_at)
  qed
qed

lemma until_char_reads: "c \<noteq> 0 \<Longrightarrow> length post < n \<Longrightarrow> reads pre post False (until_char n c (sc_at pre post))"
proof (induction post arbitrary: n pre)
  case Nil
  then obtain k where "n = Suc k" by (cases n) auto
  then show ?case using Nil reads_at [of "[]" "[]" "[]" False] by (simp add: sc_at_skip)
next
  case (Cons d cs)
  then obtain k where k: "n = Suc k" "length cs < k" by (cases n) auto
  have "reads (pre @ [d]) cs False (until_char k c (sc_at (pre @ [d]) cs))" using Cons k by simp
  from reads_more [OF this] have "reads pre (d # cs) False (until_char k c (sc_at (pre @ [d]) cs))" unfolding reads_def by auto
  then show ?case using Cons.prems(1) reads_at [of "d # cs" "[d]" cs False pre "()"] by (simp add: k sc_at_skip)
qed

lemma keyword_from_at:
  "\<forall>(name, type)\<in>set ks. name \<noteq> [] \<and> (\<forall>w\<in>set (lit name). w \<noteq> 0 \<and> uint w < 128) \<Longrightarrow> \<forall>(name, type)\<in>set ks. type \<noteq> LEXEME_INVALID \<Longrightarrow>
   keyword_from ks (sc_at pre post) = Inr (None, sc_at pre post) \<or>
   (\<exists>type w rest. keyword_from ks (sc_at pre post) = Inr (Some type, sc_at (pre @ w) rest) \<and> post = w @ rest \<and> w \<noteq> [] \<and> type \<noteq> LEXEME_INVALID)"
proof (induction ks)
  case (Cons x ks)
  obtain name type where x: "x = (name, type)" by fastforce
  have n: "lit name \<noteq> []" "\<forall>w\<in>set (lit name). w \<noteq> 0 \<and> uint w < 128" "type \<noteq> LEXEME_INVALID" using Cons.prems x by (auto simp: lit_def)
  show ?case
  proof (cases "take (length (lit name)) post = lit name")
    case True
    then have "post = lit name @ drop (length (lit name)) post" by (metis append_take_drop_id)
    then show ?thesis using True n x by (auto simp: scan_skip_word_at)
  next
    case False
    then show ?thesis using Cons n(2) x by (simp add: scan_skip_word_at)
  qed
qed simp

lemma CLEX_valid: "CLEX name \<noteq> LEXEME_INVALID"
  by (simp add: CLEX_def LEXEME_INVALID_def)

lemma keywords_ascii: "\<forall>(name, type)\<in>set clex_keywords. name \<noteq> [] \<and> (\<forall>w\<in>set (lit name). w \<noteq> 0 \<and> uint w < 128)"
  by (simp add: clex_keywords_def)

lemma keywords_valid: "\<forall>(name, type)\<in>set clex_keywords. type \<noteq> LEXEME_INVALID"
  by (simp add: clex_keywords_def CLEX_valid)

lemma eat_reads: "post \<noteq> [] \<Longrightarrow> m (sint (hd post)) \<Longrightarrow> reads pre post True (scan_eat m (sc_at pre post))"
  by (cases post) (auto simp: scan_eat_at intro!: reads_at)

text \<open>The same, when the call has told that the lexeme is invalid.\<close>

definition lexes :: "str \<Rightarrow> str \<Rightarrow> fault + (lexeme_type \<times> scan) \<Rightarrow> bool" where
  "lexes pre post r \<longleftrightarrow> r = Inr (LEXEME_INVALID, sc_at pre post) \<or> (\<exists>k. k \<noteq> LEXEME_INVALID \<and> reads pre post True r \<and> r = sbind r (\<lambda>(_, s). Inr (k, s)))"

lemma lexes_as: "reads pre post True r \<Longrightarrow> k \<noteq> LEXEME_INVALID \<Longrightarrow> lexes pre post (sbind r (\<lambda>(_, s). Inr (k, s)))"
  unfolding lexes_def using reads_map [of pre post True r k] by (cases r) (auto simp: case_prod_unfold)

lemma word_split: "take (length ws) post = ws \<Longrightarrow> post = ws @ drop (length ws) post"
  by (metis append_take_drop_id)

lemma char_reads:
  "reads pre post False (sbind (scan_curr (sc_at pre post)) (\<lambda>c.
     sbind (if c \<noteq> 0x27 then sbind (scan_next (sc_at pre post)) (\<lambda>(_, s). Inr (False, s)) else Inr (False, sc_at pre post)) (\<lambda>(_, s).
     scan_skip 0x27 s)))"
proof (cases post)
  case Nil
  let ?s = "(sc_at pre [])\<lparr>sc_error := Some \<lparr>err_position = int (length pre), err_message = ''unexpected end of file'', err_token = lit ''EOF''\<rparr>\<rparr>"
  have e: "has_error ?s" by (simp add: has_error_def)
  have "scan_next (sc_at pre []) = Inr (0, ?s)" using error_left [OF e] by (simp add: scan_next_def scan_throw_def) (simp add: sc_at_def)
  moreover have "scan_skip 0x27 ?s = Inr (False, ?s)" using error_left [OF e] by (simp add: scan_skip_def)
  moreover have "reads pre [] False (Inr (False, ?s))" using reads_Inr [of "[]" "[]" "[]" False pre False] by simp
  ultimately show ?thesis using Nil by simp
next
  case (Cons c cs)
  have r: "reads pre (c # w @ rest) False (Inr (b, sc_at (pre @ c # w) rest))" for w rest and b :: bool by (rule reads_at) simp_all
  show ?thesis using Cons r [of "[]" cs] r [of "[hd cs]" "tl cs"] by (cases cs) (simp_all add: sc_at_skip)
qed

lemma sbind_rename: "sbind (sbind r f) (\<lambda>(_, s). Inr (x, s)) = sbind r (\<lambda>y. sbind (f y) (\<lambda>(_, s). Inr (x, s)))"
  by (rule sbind_assoc)

lemma clex_lexes: "lexes pre (c # cs) (clex_impl (sc_at pre (c # cs)))"
proof -
  let ?p = "c # cs"
  have word: "lexes pre ?p (sbind (f (sc_at (pre @ ws) (drop (length ws) ?p))) (\<lambda>(_, s). Inr (k, s)))"
    if "take (length ws) ?p = ws" "ws \<noteq> []" "\<And>q r. reads q r False (f (sc_at q r))" "k \<noteq> LEXEME_INVALID" for ws k and f :: "scan \<Rightarrow> fault + ('x \<times> scan)"
    using reads_more [OF that(3) that(2), of pre "drop (length ws) ?p"] word_split [OF that(1)] that(4) by (metis lexes_as)
  have until: "reads q r False (until_word (Suc (scan_left (sc_at q r))) (lit ''*/'') (sc_at q r))"
      "reads q r False (until_char (Suc (scan_left (sc_at q r))) 0x0a (sc_at q r))" "reads q r False (until_char (Suc (scan_left (sc_at q r))) 0x22 (sc_at q r))" for q r
    by (intro until_word_reads until_char_reads; simp)+
  show ?thesis
  proof (cases "isspace (sint c) \<and> sint c \<noteq> 0x0a")
    case True
    then show ?thesis using lexes_as [OF eat_reads [of ?p "\<lambda>c. isspace c \<and> c \<noteq> 0x0a"] CLEX_valid] by (simp add: clex_impl_def)
  next
    case sp: False
    consider "take 2 ?p = lit ''/*''" | "take 2 ?p \<noteq> lit ''/*''" "take 2 ?p = lit ''//''" | "c = 0x22" | "c = 0x27" |
      "take 2 ?p \<noteq> lit ''/*''" "take 2 ?p \<noteq> lit ''//''" "c \<noteq> 0x22" "c \<noteq> 0x27" by blast
    then show ?thesis
    proof cases
      case 1
      then show ?thesis using sp word [of "lit ''/*''" "\<lambda>s. until_word (Suc (scan_left s)) (lit ''*/'') s" "CLEX ''COMMENT''", OF _ _ until(1) CLEX_valid]
        by (simp add: clex_impl_def scan_skip_word_at del: until_word.simps)
    next
      case 2
      then show ?thesis using sp word [of "lit ''//''" "\<lambda>s. until_char (Suc (scan_left s)) 0x0a s" "CLEX ''COMMENT''", OF _ _ until(2) CLEX_valid]
        by (simp add: clex_impl_def scan_skip_word_at del: until_char.simps)
    next
      case 3
      then show ?thesis using sp word [of "[0x22]" "\<lambda>s. until_char (Suc (scan_left s)) 0x22 s" "CLEX ''STRING''", OF _ _ until(3) CLEX_valid]
        by (simp add: clex_impl_def scan_skip_word_at del: until_char.simps)
    next
      case 4
      define f where "f = (\<lambda>s. sbind (scan_curr s) (\<lambda>c.
        sbind (if c \<noteq> 0x27 then sbind (scan_next s) (\<lambda>(_, s). Inr (False, s)) else Inr (False, s)) (\<lambda>(_, s). scan_skip 0x27 s)))"
      have "clex_impl (sc_at pre ?p) = sbind (f (sc_at (pre @ [0x27]) cs)) (\<lambda>(_, s). Inr (CLEX ''CHARACTER'', s))"
        using 4 sp by (simp add: clex_impl_def f_def scan_skip_word_at sbind_assoc case_prod_unfold)
      moreover have "reads q r False (f (sc_at q r))" for q r unfolding f_def by (rule char_reads)
      ultimately show ?thesis using 4 word [of "[0x27]" f "CLEX ''CHARACTER''"] by (simp add: CLEX_valid)
    next
      case 5
      define g where "g = (\<lambda>s. sbind (scan_curr s) (\<lambda>c.
         if isdigit c then sbind (scan_eat isdigit s) (\<lambda>(_, s). Inr (CLEX ''INTEGER'', s))
         else if isidentchar c then sbind (scan_eat isidentchar s) (\<lambda>(_, s). Inr (CLEX ''IDENT'', s))
         else Inr (LEXEME_INVALID, s)))"
      have step: "clex_impl (sc_at pre ?p) = sbind (keyword_from clex_keywords (sc_at pre ?p)) (\<lambda>(keyword, s).
          case keyword of Some type \<Rightarrow> Inr (type, s) | None \<Rightarrow> g s)"
      proof -
        have no: "scan_skip_word ws (sc_at pre ?p) = Inr (False, sc_at pre ?p)" if "ws \<in> {lit ''/*'', lit ''//'', [0x22], [0x27]}" for ws
          using that 5 by (auto simp: scan_skip_word_at)
        have "scan_curr (sc_at pre ?p) = Inr (sint c)" by simp
        then show ?thesis unfolding clex_impl_def using no by (simp add: g_def if_not_P [OF sp] del: lit_simps cong: option.case_cong)
      qed
      have "lexes pre ?p (sbind (scan_eat m (sc_at pre ?p)) (\<lambda>(_, s). Inr (CLEX name, s)))" if "m (sint c)" for m name
        using that by (intro lexes_as CLEX_valid eat_reads) simp_all
      moreover have "lexes pre ?p (Inr (LEXEME_INVALID, sc_at pre ?p))" by (simp add: lexes_def)
      ultimately have "lexes pre ?p (g (sc_at pre ?p))" by (simp add: g_def)
      moreover have "lexes pre ?p (Inr (type, sc_at (pre @ w) rest))" if "?p = w @ rest" "w \<noteq> []" "type \<noteq> LEXEME_INVALID" for type :: lexeme_type and w rest
        using lexes_as [OF reads_at [of ?p w rest True pre "()"], of type] that by simp
      ultimately show ?thesis using keyword_from_at [OF keywords_ascii keywords_valid, of pre ?p] unfolding step by (elim disjE exE conjE) simp_all
    qed
  qed
qed

section \<open>The contract of a lexer\<close>

locale lexer =
  fixes fn :: "scan \<Rightarrow> fault + (lexeme_type \<times> scan)"
  assumes fn_token: "fn (s\<lparr>sc_token := k\<rparr>) = retoken k (fn s)"
    and fn_lexes: "lexes pre (c # cs) (fn (sc_at pre (c # cs)))"
begin

lemma fn_cases:
  obtains (invalid) "fn (scan_begin (sc_at pre (c # cs))) = Inr (LEXEME_INVALID, scan_begin (sc_at pre (c # cs)))"
  | (lexeme) k w rest e where "fn (scan_begin (sc_at pre (c # cs))) = Inr (k, (sc_at (pre @ w) rest)\<lparr>sc_token := int (length pre), sc_error := e\<rparr>)"
      "c # cs = w @ rest" "w \<noteq> []" "k \<noteq> LEXEME_INVALID"
proof -
  let ?s = "sc_at pre (c # cs)"
  have b: "scan_begin ?s = ?s\<lparr>sc_token := int (length pre)\<rparr>" by (simp add: scan_begin_def sc_at_def)
  have f: "fn (scan_begin ?s) = retoken (int (length pre)) (fn ?s)" using fn_token b by simp
  from fn_lexes [of pre c cs] show thesis unfolding lexes_def
  proof (elim disjE exE conjE)
    fix k assume k: "k \<noteq> LEXEME_INVALID" and r: "reads pre (c # cs) True (fn ?s)" "fn ?s = sbind (fn ?s) (\<lambda>(_, s). Inr (k, s))"
    then obtain x w rest e where x: "fn ?s = Inr (x, (sc_at (pre @ w) rest)\<lparr>sc_error := e\<rparr>)" "c # cs = w @ rest" "w \<noteq> []" unfolding reads_def by auto
    moreover from x(1) r(2) have "x = k" by simp
    ultimately show thesis using f k lexeme [where k = k and w = w and rest = rest and e = e] by (simp add: sc_at_def)
  next
    assume "fn ?s = Inr (LEXEME_INVALID, ?s)"
    then show thesis using f b invalid by simp
  qed
qed

text \<open>Lexing ends, and the lexemes are the text, up to the point of an error.\<close>

lemma lex_loop_collects:
  "length post < n \<Longrightarrow> \<exists>ms s rest. lex_loop n fn ls ((sc_at pre post)\<lparr>sc_token := t\<rparr>) = Inr (ls @ ms, s) \<and>
     post = concat (map lexeme_str ms) @ rest \<and> (\<not> has_error s \<longrightarrow> rest = []) \<and> (\<forall>m\<in>set ms. lexeme_str m \<noteq> [])"
proof (induction n arbitrary: pre post ls t)
  case (Suc n)
  let ?s = "(sc_at pre post)\<lparr>sc_token := t\<rparr>"
  show ?case
  proof (cases post)
    case Nil
    then show ?thesis by (intro exI [of _ "[]"]) simp
  next
    case (Cons c cs)
    have b: "scan_begin ?s = scan_begin (sc_at pre post)" by (simp add: scan_begin_def sc_at_def)
    show ?thesis
    proof (cases rule: fn_cases [of pre c cs])
      case invalid
      let ?i = "scan_begin (sc_at pre post)"
      have e: "scan_end ?i = []" by (simp add: scan_end_def scan_begin_def scan_str_def)
      obtain u where "scan_throw ''invalid lexeme'' [] ?i = Inr u" "has_error u"
        using Cons by (auto simp: scan_throw_def scan_begin_def sc_at_def has_error_def)
      then show ?thesis using invalid Cons b e by (intro exI [of _ "[]"] exI [of _ u] exI [of _ post]) simp
    next
      case (lexeme k w rest e)
      let ?l = "\<lparr>lexeme_kind = k, lexeme_str = w\<rparr>" and ?t = "(sc_at (pre @ w) rest)\<lparr>sc_token := int (length pre), sc_error := e\<rparr>"
      have fin: "scan_end ?t = w" by (simp add: scan_end_def scan_str_def sc_at_def)
      have step: "lex_loop (Suc n) fn ls ?s = lex_loop n fn (ls @ [?l]) ?t" using lexeme(1,4) fin Cons b by (simp add: Let_def)
      show ?thesis
      proof (cases e)
        case None
        then have t: "?t = (sc_at (pre @ w) rest)\<lparr>sc_token := int (length pre)\<rparr>" by (simp add: sc_at_def)
        have "length rest < n" using Suc.prems lexeme(2,3) Cons by (cases w) auto
        from Suc.IH [OF this, where ls = "ls @ [?l]" and pre = "pre @ w" and t = "int (length pre)"] obtain ms s r where "lex_loop n fn (ls @ [?l]) ?t = Inr ((ls @ [?l]) @ ms, s)" "rest = concat (map lexeme_str ms) @ r"
            "\<not> has_error s \<longrightarrow> r = []" "\<forall>m\<in>set ms. lexeme_str m \<noteq> []"
          unfolding t by blast
        then show ?thesis using step lexeme(2,3) Cons by (intro exI [of _ "?l # ms"] exI [of _ s] exI [of _ r]) simp
      next
        case (Some x)
        then have "has_error ?t" by (simp add: has_error_def)
        moreover obtain m where "n = Suc m" using Suc.prems Cons by (cases n) auto
        ultimately have "lex_loop n fn (ls @ [?l]) ?t = Inr (ls @ [?l], ?t)" using error_left(2) [of ?t] by simp
        then show ?thesis using step lexeme(2,3) Cons \<open>has_error ?t\<close> by (intro exI [of _ "[?l]"] exI [of _ ?t] exI [of _ rest]) simp
      qed
    qed
  qed
qed simp

end

interpretation c: lexer clex_impl
  by unfold_locales (rule token_clex, rule clex_lexes)

lemma lex_collect_concat: "lex_collect self = concat (map lexeme_str (lexemes self))"
proof -
  have "fold (\<lambda>l buf. buf @ lexeme_str l) ls b = b @ concat (map lexeme_str ls)" for ls :: "lexeme list" and b by (induction ls arbitrary: b) simp_all
  then show ?thesis by (simp add: lex_collect_def)
qed

section \<open>Theorems\<close>

text \<open>
  C31. The lexer of the C compiler ends on every text and loses nothing of it: no lexeme is empty, and put
  together they are the text itself, or, when the scanner has recorded an error, a part of it from its
  start.
\<close>

theorem clex_collects:
  assumes "length t < 2 ^ 31"
  shows "\<exists>l s rest. clex (scan_init t) = Inr (l, s) \<and> t = lex_collect l @ rest \<and> (has_error s \<or> rest = []) \<and>
    list_all (\<lambda>m. lexeme_str m \<noteq> []) (lexemes l)"
proof -
  have "sc_at [] t = (sc_at [] t)\<lparr>sc_token := 0\<rparr>" by (simp add: sc_at_def)
  then show ?thesis
    using c.lex_loop_collects [where post = t and n = "Suc (length t)" and ls = "[]" and pre = "[]" and t = 0] assms
    by (auto simp: clex_def lex_def scan_init_at lex_collect_concat lex_from_lexeme_def list_all_iff simp del: lex_loop.simps)
qed

lemma clex_collects_witness:
  "\<exists>l s rest. clex (scan_init (lit ''int x = 42; // y'')) = Inr (l, s) \<and> lit ''int x = 42; // y'' = lex_collect l @ rest \<and> (has_error s \<or> rest = []) \<and>
    list_all (\<lambda>m. lexeme_str m \<noteq> []) (lexemes l)"
  by (rule clex_collects) simp

text \<open>Keywords are found by their first letters, and the shorter one is tried first: \<open>double\<close> is not a lexeme.\<close>

theorem clex_double: "map_sum id (\<lambda>(l, _). map (\<lambda>m. (lexeme_kind m, lexeme_str m)) (lexemes l)) (clex (scan_init (lit ''double''))) =
    Inr [(CLEX ''DO'', lit ''do''), (CLEX ''IDENT'', lit ''uble'')]"
  by code_simp

end
