(* ===== verification/Timestamps.thy ===== *)
theory Timestamps
  imports Prelude
begin

text \<open>
  Dates and times of \<open>brutal-time/convert.c\<close>. A timestamp is the number of seconds since 1970 as a 64-bit
  word, and so is every field of a date; the number of days goes through an \<open>int\<close>. A read behind the table of
  the months is a fault.
\<close>

section \<open>convert.c\<close>

record date =
  day :: u64
  month :: u64
  year :: u64

record time =
  second :: u64
  minute :: u64
  hour :: u64

record datetime =
  dt_date :: date
  dt_time :: time

definition EPOCH_YEAR :: u64 where "EPOCH_YEAR = 1970"
definition SECONDS_PER_MINUTE :: u64 where "SECONDS_PER_MINUTE = 60"
definition SECONDS_PER_HOURS :: u64 where "SECONDS_PER_HOURS = SECONDS_PER_MINUTE * 60"
definition SECONDS_PER_DAY :: u64 where "SECONDS_PER_DAY = SECONDS_PER_HOURS * 24"

definition is_leap_year :: "u64 \<Rightarrow> bool" where
  "is_leap_year y \<longleftrightarrow> (y mod 4 = 0 \<and> y mod 100 \<noteq> 0) \<or> y mod 400 = 0"

definition DAYS_PER_MONTH :: "bool \<Rightarrow> int list" where
  "DAYS_PER_MONTH leap = (if leap then [31, 29, 31, 30, 31, 30, 31, 31, 30, 31, 30, 31] else [31, 28, 31, 30, 31, 30, 31, 31, 30, 31, 30, 31])"

definition DAYS_PER_YEAR :: "bool \<Rightarrow> int" where
  "DAYS_PER_YEAR leap = (if leap then 366 else 365)"

lemma DAYS_PER_YEAR_pos: "0 < DAYS_PER_YEAR leap"
  by (simp add: DAYS_PER_YEAR_def)

function year_loop :: "int \<Rightarrow> u64 \<Rightarrow> int \<times> u64" where
  "year_loop days y =
     (if days - DAYS_PER_YEAR (is_leap_year y) > 0 then year_loop (days - DAYS_PER_YEAR (is_leap_year y)) (y + 1) else (days, y))"
  by pat_completeness auto
termination by (relation "measure (\<lambda>(days, _). nat days)") (auto simp: DAYS_PER_YEAR_def split: if_splits)

declare year_loop.simps [simp del]

function month_loop :: "bool \<Rightarrow> int \<Rightarrow> nat \<Rightarrow> fault + (int \<times> nat)" where
  "month_loop leap days m =
     (if \<not> m < length (DAYS_PER_MONTH leap) then Inl OutOfBounds
      else if days - DAYS_PER_MONTH leap ! m \<ge> 0 then month_loop leap (days - DAYS_PER_MONTH leap ! m) (m + 1)
      else Inr (days, m))"
  by pat_completeness auto
termination by (relation "measure (\<lambda>(leap, _, m). length (DAYS_PER_MONTH leap) - m)") auto

declare month_loop.simps [simp del]

definition timestamp_to_date :: "u64 \<Rightarrow> fault + date" where
  "timestamp_to_date timestamp =
     (let days = sint (ucast (timestamp div SECONDS_PER_DAY) :: u32);
          (days, y) = year_loop days EPOCH_YEAR in
      if days - DAYS_PER_YEAR (is_leap_year y) < - (2 ^ 31) then Inl ArithUB
      else sbind (month_loop (is_leap_year y) days 0) (\<lambda>(days, m).
      Inr \<lparr>day = of_int (days + 1), month = of_nat m + 1, year = y\<rparr>))"

definition timestamp_to_time :: "u64 \<Rightarrow> time" where
  "timestamp_to_time timestamp =
     \<lparr>second = timestamp mod 60, minute = (timestamp div SECONDS_PER_MINUTE) mod 60, hour = (timestamp div SECONDS_PER_HOURS) mod 24\<rparr>"

definition timestamp_to_datetime :: "u64 \<Rightarrow> fault + datetime" where
  "timestamp_to_datetime timestamp =
     sbind (timestamp_to_date timestamp) (\<lambda>d. Inr \<lparr>dt_date = d, dt_time = timestamp_to_time timestamp\<rparr>)"

definition datetime_to_timestamp :: "datetime \<Rightarrow> fault + u64" where
  "datetime_to_timestamp dt =
     (let d = dt_date dt; t = dt_time dt;
          timestamp = fold (\<lambda>y timestamp. timestamp + of_int (DAYS_PER_YEAR (is_leap_year (of_nat y))) * SECONDS_PER_DAY) [unat EPOCH_YEAR..<unat (year d)] 0 in
      sbind (for_each (\<lambda>m timestamp.
        if m < length (DAYS_PER_MONTH (is_leap_year (year d)))
        then Inr (timestamp + of_int (DAYS_PER_MONTH (is_leap_year (year d)) ! m) * SECONDS_PER_DAY)
        else Inl OutOfBounds) [0..<unat (month d - 1)] timestamp) (\<lambda>timestamp.
      Inr (timestamp + (day d - 1) * SECONDS_PER_DAY + hour t * SECONDS_PER_HOURS + minute t * SECONDS_PER_MINUTE + second t)))"

section \<open>Years and months\<close>

text \<open>The number of days before the year \<open>1970 + n\<close>, and before a month.\<close>

definition year_days :: "nat \<Rightarrow> int" where
  "year_days n = (\<Sum>k<n. DAYS_PER_YEAR (is_leap_year (of_nat (1970 + k))))"

definition month_days :: "bool \<Rightarrow> nat \<Rightarrow> int" where
  "month_days leap m = (\<Sum>k<m. DAYS_PER_MONTH leap ! k)"

lemma year_days_Suc: "year_days (Suc n) = year_days n + DAYS_PER_YEAR (is_leap_year (of_nat (1970 + n)))"
  by (simp add: year_days_def)

lemma year_loop_days:
  "0 \<le> days \<Longrightarrow> (n = 0 \<or> 0 < days) \<Longrightarrow> \<exists>k. year_loop days (of_nat (1970 + n)) = (days + year_days n - year_days k, of_nat (1970 + k)) \<and> n \<le> k \<and>
     (k = 0 \<or> year_days k < days + year_days n) \<and> days + year_days n \<le> year_days (Suc k)"
proof (induction "nat days" arbitrary: days n rule: less_induct)
  case less
  let ?d = "DAYS_PER_YEAR (is_leap_year (of_nat (1970 + n)))"
  show ?case
  proof (cases "days - ?d > 0")
    case True
    have "of_nat (1970 + n) + 1 = (of_nat (1970 + Suc n) :: u64)" by simp
    then have s: "year_loop days (of_nat (1970 + n)) = year_loop (days - ?d) (of_nat (1970 + Suc n))" using True by (subst year_loop.simps) (simp del: of_nat_add of_nat_Suc)
    have "nat (days - ?d) < nat days" using DAYS_PER_YEAR_pos [of "is_leap_year (of_nat (1970 + n))"] True by simp
    from less.hyps [OF this, of "Suc n"] True obtain k where
      "year_loop (days - ?d) (of_nat (1970 + Suc n)) = (days - ?d + year_days (Suc n) - year_days k, of_nat (1970 + k))" "Suc n \<le> k"
      "k = 0 \<or> year_days k < days - ?d + year_days (Suc n)" "days - ?d + year_days (Suc n) \<le> year_days (Suc k)" by auto
    then show ?thesis using s unfolding year_days_Suc [of n] by (intro exI [of _ k]) auto
  next
    case False
    then have "year_loop days (of_nat (1970 + n)) = (days, of_nat (1970 + n))" by (subst year_loop.simps) simp
    then show ?thesis using False less.prems by (intro exI [of _ n]) (auto simp: year_days_Suc)
  qed
qed

lemma length_months: "length (DAYS_PER_MONTH leap) = 12"
  by (simp add: DAYS_PER_MONTH_def)

lemma month_pos: "k < 12 \<Longrightarrow> 0 < DAYS_PER_MONTH leap ! k"
proof -
  assume "k < 12"
  then have "DAYS_PER_MONTH leap ! k \<in> set (DAYS_PER_MONTH leap)" by (simp add: length_months)
  then show ?thesis by (auto simp: DAYS_PER_MONTH_def split: if_splits)
qed

lemma month_loop_days:
  assumes "0 \<le> days" "m \<le> 12"
  shows "if days + month_days leap m \<ge> month_days leap 12 then month_loop leap days m = Inl OutOfBounds
    else \<exists>k. month_loop leap days m = Inr (days + month_days leap m - month_days leap k, k) \<and> k < 12 \<and> month_days leap k \<le> days + month_days leap m"
  using assms
proof (induction "12 - m" arbitrary: days m)
  case 0
  then have "m = 12" by simp
  then show ?case using 0 by (subst month_loop.simps) (simp add: length_months)
next
  case (Suc n)
  let ?d = "DAYS_PER_MONTH leap ! m"
  have m: "m < 12" using Suc by simp
  have S: "month_days leap (Suc m) = month_days leap m + ?d" by (simp add: month_days_def)
  show ?case
  proof (cases "days - ?d \<ge> 0")
    case True
    have "month_loop leap days m = month_loop leap (days - ?d) (Suc m)" using True m by (subst month_loop.simps) (simp add: length_months)
    moreover have "n = 12 - Suc m" using Suc.hyps(2) by simp
    moreover have e: "days - ?d + month_days leap (Suc m) = days + month_days leap m" using S by simp
    ultimately show ?thesis using Suc.hyps(1) [of "Suc m" "days - ?d", unfolded e] True m by simp
  next
    case False
    have "month_days leap (Suc m) \<le> month_days leap 12"
      unfolding month_days_def by (rule sum_mono2) (use m month_pos in \<open>auto simp: less_imp_le\<close>)
    moreover have "month_loop leap days m = Inr (days, m)" using False m by (subst month_loop.simps) (simp add: length_months)
    ultimately show ?thesis using False m S Suc.prems(1) by auto
  qed
qed

lemma month_days_year: "month_days leap 12 = DAYS_PER_YEAR leap"
  by (simp add: month_days_def DAYS_PER_MONTH_def DAYS_PER_YEAR_def lessThan_Suc numeral_eq_Suc)

lemma months_from_0:
  assumes "0 \<le> d"
  shows "if d \<ge> DAYS_PER_YEAR leap then month_loop leap d 0 = Inl OutOfBounds
    else \<exists>m. month_loop leap d 0 = Inr (d - month_days leap m, m) \<and> m < 12 \<and> month_days leap m \<le> d"
proof -
  have "month_days leap 0 = 0" by (simp add: month_days_def)
  then show ?thesis using month_loop_days [OF assms le0, of leap] by (simp only: month_days_year add_0_right)
qed

text \<open>What the conversion to a timestamp adds up.\<close>

lemma fold_years: "fold (\<lambda>y ts. ts + of_int (DAYS_PER_YEAR (is_leap_year (of_nat y))) * SECONDS_PER_DAY) [1970..<1970 + n] 0 = of_int (year_days n) * SECONDS_PER_DAY"
proof (induction n)
  case 0
  then show ?case by (simp add: year_days_def)
next
  case (Suc n)
  have "[1970..<1970 + Suc n] = [1970..<1970 + n] @ [1970 + n]" using upt_Suc_append [of 1970 "1970 + n"] by (simp del: upt_Suc)
  then show ?case using Suc by (simp add: year_days_Suc distrib_right del: upt_Suc)
qed

lemma for_each_months:
  "n \<le> 12 \<Longrightarrow> for_each (\<lambda>m ts. if m < length (DAYS_PER_MONTH leap) then Inr (ts + of_int (DAYS_PER_MONTH leap ! m) * SECONDS_PER_DAY) else Inl OutOfBounds) [0..<n] ts =
    Inr (ts + of_int (month_days leap n) * SECONDS_PER_DAY)"
  by (induction n) (simp_all add: for_each_append length_months month_days_def distrib_right)

lemma year_days_mono: "n < m \<Longrightarrow> year_days n < year_days m"
proof (induction m)
  case (Suc m)
  have "year_days m < year_days (Suc m)" using DAYS_PER_YEAR_pos by (simp add: year_days_Suc)
  then show ?case using Suc by (cases "n = m") auto
qed simp

lemma year_days_ge: "365 * int n \<le> year_days n"
proof (induction n)
  case (Suc n)
  have "365 \<le> DAYS_PER_YEAR l" for l by (simp add: DAYS_PER_YEAR_def)
  from this [of "is_leap_year (of_nat (1970 + n))"] Suc show ?case unfolding year_days_Suc of_nat_Suc distrib_left by linarith
qed (simp add: year_days_def)

text \<open>A date made from the year, the month and the day gives the days back.\<close>

lemma datetime_days:
  assumes "k < 2 ^ 31" "m < 12" "leap = is_leap_year (of_nat (1970 + k))"
  shows "datetime_to_timestamp \<lparr>dt_date = \<lparr>day = of_int (d - month_days leap m + 1), month = of_nat m + 1, year = of_nat (1970 + k)\<rparr>, dt_time = t\<rparr> =
    Inr (of_int (year_days k + d) * SECONDS_PER_DAY + hour t * SECONDS_PER_HOURS + minute t * SECONDS_PER_MINUTE + second t)"
proof -
  have y: "unat (of_nat (1970 + k) :: u64) = 1970 + k" using assms(1) by (simp add: unat_of_nat take_bit_nat_eq_self del: of_nat_add)
  have m: "unat (of_nat m :: u64) = m" using assms(2) by (simp add: unat_of_nat take_bit_nat_eq_self)
  have "fold (\<lambda>y ts. ts + of_int (DAYS_PER_YEAR (is_leap_year (of_nat y))) * SECONDS_PER_DAY) [unat EPOCH_YEAR..<unat (of_nat (1970 + k) :: u64)] 0 =
      of_int (year_days k) * SECONDS_PER_DAY" unfolding y using fold_years [of k] by (simp add: EPOCH_YEAR_def)
  then show ?thesis using for_each_months [of m leap "of_int (year_days k) * SECONDS_PER_DAY"] assms(2) m unfolding datetime_to_timestamp_def Let_def assms(3)
    by (simp del: of_nat_add cong: if_cong) (simp add: algebra_simps)
qed

section \<open>Theorems\<close>

lemma seconds_split:
  fixes t :: u64
  shows "of_nat (unat t div 86400) * SECONDS_PER_DAY + hour (timestamp_to_time t) * SECONDS_PER_HOURS + minute (timestamp_to_time t) * SECONDS_PER_MINUTE + second (timestamp_to_time t) = t"
proof -
  let ?n = "unat t"
  have h: "(t div 3600) mod 24 = of_nat ((?n div 3600) mod 24)" "(t div 60) mod 60 = of_nat ((?n div 60) mod 60)" "t mod 60 = of_nat (?n mod 60)"
  proof -
    have "unat ((t div 3600) mod 24) = ?n div 3600 mod 24" "unat ((t div 60) mod 60) = ?n div 60 mod 60" "unat (t mod 60) = ?n mod 60"
      by (simp_all add: unat_mod unat_div)
    then show "(t div 3600) mod 24 = of_nat ((?n div 3600) mod 24)" "(t div 60) mod 60 = of_nat ((?n div 60) mod 60)" "t mod 60 = of_nat (?n mod 60)"
      by (metis of_nat_unat ucast_id)+
  qed
  have n: "?n = ?n div 86400 * 86400 + (?n div 3600 mod 24) * 3600 + (?n div 60 mod 60) * 60 + ?n mod 60"
  proof -
    have "?n = ?n div 60 * 60 + ?n mod 60" "?n div 60 = ?n div 3600 * 60 + ?n div 60 mod 60" "?n div 3600 = ?n div 86400 * 24 + ?n div 3600 mod 24"
      using div_mult_mod_eq [of ?n 60] div_mult_mod_eq [of "?n div 60" 60] div_mult_mod_eq [of "?n div 3600" 24] by (simp_all add: div_mult2_eq [symmetric])
    then show ?thesis by linarith
  qed
  have "of_nat (?n div 86400) * 86400 + of_nat ((?n div 3600) mod 24) * 3600 + of_nat ((?n div 60) mod 60) * 60 + of_nat (?n mod 60) = (of_nat ?n :: u64)"
    using arg_cong [OF n, of "of_nat :: nat \<Rightarrow> u64"] by (simp only: of_nat_add of_nat_mult of_nat_numeral)
  then show ?thesis by (simp add: timestamp_to_time_def SECONDS_PER_DAY_def SECONDS_PER_HOURS_def SECONDS_PER_MINUTE_def h)
qed

text \<open>
  C34. A timestamp that is turned into a date and a time and back is the same timestamp, on every day but the
  first of January of the years after 1970: on those days \<open>timestamp_to_date\<close> does not go on to the new year,
  counts to a thirteenth month and reads behind the table of the months.
\<close>

theorem datetime_roundtrip:
  assumes "unat t div 86400 < 2 ^ 31"
  shows "if \<exists>n. 0 < n \<and> int (unat t div 86400) = year_days n then timestamp_to_datetime t = Inl OutOfBounds
    else \<exists>dt. timestamp_to_datetime t = Inr dt \<and> datetime_to_timestamp dt = Inr t"
proof -
  let ?n = "unat t div 86400"
  have "unat (t div SECONDS_PER_DAY) = ?n" by (simp add: SECONDS_PER_DAY_def SECONDS_PER_HOURS_def SECONDS_PER_MINUTE_def unat_div)
  then have "ucast (t div SECONDS_PER_DAY) = (of_nat ?n :: u32)" by (metis of_nat_unat)
  then have days: "sint (ucast (t div SECONDS_PER_DAY) :: u32) = int ?n"
    using signed_take_bit_int_eq_self [of 31 "int ?n"] assms signed_of_int [of "int ?n", where 'b = 32, where 'a = int] by simp
  obtain k where k: "year_loop (int ?n) (of_nat (1970 + 0)) = (int ?n + year_days 0 - year_days k, of_nat (1970 + k))"
      "k = 0 \<or> year_days k < int ?n + year_days 0" "int ?n + year_days 0 \<le> year_days (Suc k)"
    using year_loop_days [of "int ?n" 0] by auto
  let ?d = "int ?n - year_days k" and ?l = "is_leap_year (of_nat (1970 + k))"
  have y0: "year_days 0 = 0" by (simp add: year_days_def)
  have d: "0 \<le> ?d" "?d \<le> DAYS_PER_YEAR ?l" using k(2,3) by (auto simp: y0 year_days_Suc)
  have kb: "k < 2 ^ 31" using year_days_ge [of k] d(1) assms by linarith
  have ep: "year_loop (int ?n) EPOCH_YEAR = (?d, of_nat (1970 + k))" using k(1) by (simp add: EPOCH_YEAR_def y0)
  have date: "timestamp_to_date t = sbind (month_loop ?l ?d 0) (\<lambda>(days, m). Inr \<lparr>day = of_int (days + 1), month = of_nat m + 1, year = of_nat (1970 + k)\<rparr>)"
    using d by (auto simp: timestamp_to_date_def Let_def days ep DAYS_PER_YEAR_def simp del: of_nat_add)
  have months: "if ?d \<ge> DAYS_PER_YEAR ?l then month_loop ?l ?d 0 = Inl OutOfBounds
      else \<exists>m. month_loop ?l ?d 0 = Inr (?d - month_days ?l m, m) \<and> m < 12 \<and> month_days ?l m \<le> ?d"
    by (rule months_from_0 [OF d(1)])
  show ?thesis
  proof (cases "?d = DAYS_PER_YEAR ?l")
    case True
    then have "int ?n = year_days (Suc k)" by (simp add: year_days_Suc)
    then show ?thesis using True months date by (auto simp: timestamp_to_datetime_def)
  next
    case False
    then obtain m where m: "month_loop ?l ?d 0 = Inr (?d - month_days ?l m, m)" "m < 12" using months d(2) by auto
    have "int ?n < year_days (Suc k)" using False d(2) by (simp add: year_days_Suc)
    then have "int ?n \<noteq> year_days i" if "0 < i" for i
      using that k(2) year_days_mono [of i k] year_days_mono [of "Suc k" i] y0 by (cases "i < k"; cases "i = k"; cases "i = Suc k") auto
    moreover have "timestamp_to_datetime t = Inr \<lparr>dt_date = \<lparr>day = of_int (?d - month_days ?l m + 1), month = of_nat m + 1, year = of_nat (1970 + k)\<rparr>, dt_time = timestamp_to_time t\<rparr>"
      using date m(1) by (simp add: timestamp_to_datetime_def)
    ultimately show ?thesis using datetime_days [OF kb m(2) refl, of ?d "timestamp_to_time t"] seconds_split [of t] by auto
  qed
qed

lemma datetime_roundtrip_witness:
  "timestamp_to_datetime 31536000 = Inl OutOfBounds \<and> (\<exists>dt. timestamp_to_datetime 5270400 = Inr dt \<and> datetime_to_timestamp dt = Inr 5270400)"
proof
  have "int (unat (31536000 :: u64) div 86400) = year_days 1" by (simp add: year_days_def is_leap_year_def DAYS_PER_YEAR_def)
  then show "timestamp_to_datetime 31536000 = Inl OutOfBounds" using datetime_roundtrip [of 31536000] by (auto split: if_splits)
  have "int (unat (5270400 :: u64) div 86400) \<noteq> year_days n" if "0 < n" for n using year_days_ge [of n] that by simp
  then show "\<exists>dt. timestamp_to_datetime 5270400 = Inr dt \<and> datetime_to_timestamp dt = Inr 5270400"
    using datetime_roundtrip [of 5270400] by (auto split: if_splits)
qed

end
