(* ===== verification/Ext2.thy ===== *)
theory Ext2
  imports Ranges
begin

text \<open>
  Reading an ext2 file system, \<open>fs/ext2/ext2.c\<close>, \<open>block.c\<close> and \<open>cache.c\<close>. The block device is an argument: a
  function from a number of its blocks and the first of them to their bytes, and one that says whether a release
  succeeds. \<open>ext2_acquire_blocks\<close> does not look at the result of the device, and the pointer stays null when it
  fails: its first use is a fault. \<open>ext2_release_blocks\<close> hands the device the pointer to the data where it takes the
  address of this pointer, so what the device finds there is the data; when it refuses, the release panics. A
  \<open>size_t\<close> is a number below 2\<open>^\<close>64, with the wrap-around where the code multiplies or aligns. The structures
  on the disk are read from their bytes; the records have the fields that the code uses.
\<close>

section \<open>Structures\<close>

record ext2_super_block =
  sb_inode_count :: u32
  sb_block_size :: u32
  sb_group_inode_count :: u32
  sb_signature :: u16
  sb_inode_size :: u16
  sb_read_only_feature :: u32

record ext2_group_desc =
  gd_block_usage_bitmap_addr :: u32
  gd_inode_usage_bitmap_addr :: u32
  gd_inode_table_addr :: u32
  gd_unallocated_block_count :: u16
  gd_unallocated_inodes_count :: u16
  gd_dir_count :: u16

record ext2_inode_block =
  ib_mode :: u16
  ib_size_low :: u32
  ib_blocks_ptr :: "u32 list"
  ib_single_indirect_block_ptr :: u32
  ib_double_indirect_block_ptr :: u32
  ib_triple_indirect_block_ptr :: u32
  ib_size_upper :: u32

record ext2_inode_rec =
  in_id :: u32
  in_block :: ext2_inode_block

record ext2_cached_inode =
  ci_block :: "u32 list"
  ci_inode :: ext2_inode_rec

record ext2_fs =
  fs_device_block_size :: nat
  fs_super_block :: ext2_super_block
  fs_block_size :: nat
  fs_group_desc_table_block :: u32
  fs_group_count :: u32
  fs_inode_cache :: "ext2_cached_inode list"

record device =
  dev_acquire :: "nat \<Rightarrow> nat \<Rightarrow> u8 list option"
  dev_release :: "u8 list \<Rightarrow> bool"

datatype fs_error = FS_SUCCESS | FS_ERROR_FROM_BLOCK | FS_NOT_FOUND | FS_INVALID_INODE | FS_INVALID_PATH | FS_INVALID_FS | FS_NO_FREE_BLOCK

definition le_bytes :: "u8 list \<Rightarrow> nat \<Rightarrow> nat \<Rightarrow> fault + nat" where
  "le_bytes data off n =
     (if off + n \<le> length data then Inr (foldr (\<lambda>b v. unat b + 256 * v) (take n (drop off data)) 0) else Inl OutOfBounds)"

definition le16 :: "u8 list \<Rightarrow> nat \<Rightarrow> fault + u16" where
  "le16 data off = sbind (le_bytes data off 2) (\<lambda>v. Inr (of_nat v))"

definition le32 :: "u8 list \<Rightarrow> nat \<Rightarrow> fault + u32" where
  "le32 data off = sbind (le_bytes data off 4) (\<lambda>v. Inr (of_nat v))"

definition super_block_at :: "u8 list \<Rightarrow> fault + ext2_super_block" where
  "super_block_at data =
     sbind (le32 data 0) (\<lambda>inodes. sbind (le32 data 24) (\<lambda>bs. sbind (le32 data 40) (\<lambda>gi. sbind (le16 data 56) (\<lambda>sig.
     sbind (le16 data 88) (\<lambda>isz. sbind (le32 data 100) (\<lambda>ro.
     Inr \<lparr>sb_inode_count = inodes, sb_block_size = bs, sb_group_inode_count = gi, sb_signature = sig, sb_inode_size = isz, sb_read_only_feature = ro\<rparr>))))))"

definition group_desc_at :: "u8 list \<Rightarrow> nat \<Rightarrow> fault + ext2_group_desc" where
  "group_desc_at data off =
     (if length data < off + 32 then Inl OutOfBounds else
     sbind (le32 data off) (\<lambda>bb. sbind (le32 data (off + 4)) (\<lambda>ibm. sbind (le32 data (off + 8)) (\<lambda>it. sbind (le16 data (off + 12)) (\<lambda>ub.
     sbind (le16 data (off + 14)) (\<lambda>ui. sbind (le16 data (off + 16)) (\<lambda>dc.
     Inr \<lparr>gd_block_usage_bitmap_addr = bb, gd_inode_usage_bitmap_addr = ibm, gd_inode_table_addr = it, gd_unallocated_block_count = ub,
       gd_unallocated_inodes_count = ui, gd_dir_count = dc\<rparr>)))))))"

definition inode_block_at :: "u8 list \<Rightarrow> nat \<Rightarrow> fault + ext2_inode_block" where
  "inode_block_at data off =
     (if length data < off + 128 then Inl OutOfBounds else
     sbind (le16 data off) (\<lambda>mode. sbind (le32 data (off + 4)) (\<lambda>low.
     sbind (for_each (\<lambda>i ps. sbind (le32 data (off + 40 + 4 * i)) (\<lambda>p. Inr (ps @ [p]))) [0..<12] []) (\<lambda>ptrs.
     sbind (le32 data (off + 88)) (\<lambda>s. sbind (le32 data (off + 92)) (\<lambda>d. sbind (le32 data (off + 96)) (\<lambda>t. sbind (le32 data (off + 108)) (\<lambda>up.
     Inr \<lparr>ib_mode = mode, ib_size_low = low, ib_blocks_ptr = ptrs, ib_single_indirect_block_ptr = s, ib_double_indirect_block_ptr = d,
       ib_triple_indirect_block_ptr = t, ib_size_upper = up\<rparr>))))))))"

section \<open>Blocks, groups and inodes\<close>

definition ext2_acquire_blocks :: "device \<Rightarrow> ext2_fs \<Rightarrow> nat \<Rightarrow> nat \<Rightarrow> fault + u8 list" where
  "ext2_acquire_blocks dev self off count =
     (let block_diff = fs_block_size self div fs_device_block_size self in
      case dev_acquire dev (count * block_diff) (off * block_diff) of None \<Rightarrow> Inl NullDeref | Some data \<Rightarrow> Inr data)"

definition ext2_release_blocks :: "device \<Rightarrow> u8 list \<Rightarrow> fault + unit" where
  "ext2_release_blocks dev block = (if dev_release dev block then Inr () else Inl (Panic ''UNWRAP(fs_block_release(self->block_device, block)) failed''))"

definition ext2_group_read :: "device \<Rightarrow> ext2_fs \<Rightarrow> nat \<Rightarrow> fault + ext2_group_desc" where
  "ext2_group_read dev self group_id =
     (let block_off = group_id mod fs_block_size self;
          block_id = group_id div fs_block_size self + unat (fs_group_desc_table_block self) in
      sbind (ext2_acquire_blocks dev self block_id 1) (\<lambda>desc.
      sbind (group_desc_at desc (32 * block_off)) (\<lambda>group.
      sbind (ext2_release_blocks dev desc) (\<lambda>_. Inr group))))"

definition EXT2_FEAT_64BIT_FILE_SIZE :: u32 where "EXT2_FEAT_64BIT_FILE_SIZE = 2"

definition inode_size :: "ext2_fs \<Rightarrow> ext2_inode_block \<Rightarrow> u64" where
  "inode_size self ib =
     (if sb_read_only_feature (fs_super_block self) AND EXT2_FEAT_64BIT_FILE_SIZE \<noteq> 0
      then ucast (ib_size_low ib) OR push_bit 32 (ucast (ib_size_upper ib))
      else ucast (ib_size_low ib))"

fun get_cached_inode :: "ext2_cached_inode list \<Rightarrow> nat \<Rightarrow> nat \<Rightarrow> nat option" where
  "get_cached_inode [] i inode = None"
| "get_cached_inode (cached # cs) i inode = (if unat (in_id (ci_inode cached)) = inode then Some i else get_cached_inode cs (i + 1) inode)"

definition add_cached_inode :: "ext2_fs \<Rightarrow> ext2_inode_rec \<Rightarrow> ext2_fs" where
  "add_cached_inode self inode = self\<lparr>fs_inode_cache := fs_inode_cache self @ [\<lparr>ci_block = [], ci_inode = inode\<rparr>]\<rparr>"

text \<open>An inode by its number: \<open>ext2_inode_rw\<close> when it reads.\<close>

definition ext2_inode :: "device \<Rightarrow> ext2_fs \<Rightarrow> nat \<Rightarrow> fault + ((fs_error + ext2_inode_rec) \<times> ext2_fs)" where
  "ext2_inode dev self inode =
     (if inode \<le> 1 then Inr (Inl FS_INVALID_INODE, self)
      else case get_cached_inode (fs_inode_cache self) 0 inode of
        Some i \<Rightarrow> Inr (Inr (ci_inode (fs_inode_cache self ! i)), self)
      | None \<Rightarrow>
          if sb_group_inode_count (fs_super_block self) = 0 then Inl ArithUB
          else
          let gi = unat (sb_group_inode_count (fs_super_block self)); isz = unat (sb_inode_size (fs_super_block self));
              inode_id = (inode - 1) mod gi; group_id = (inode - 1) div gi;
              inode_off_in_block = (inode_id * isz) mod fs_block_size self; inode_block = (inode_id * isz) div fs_block_size self in
          sbind (ext2_group_read dev self group_id) (\<lambda>group_desc.
          sbind (ext2_acquire_blocks dev self (unat (gd_inode_table_addr group_desc) + inode_block) 1) (\<lambda>data.
          sbind (inode_block_at data inode_off_in_block) (\<lambda>ib.
          let r = \<lparr>in_id = of_nat inode, in_block = ib\<rparr>; self = add_cached_inode self r in
          sbind (ext2_release_blocks dev data) (\<lambda>_. Inr (Inr r, self))))))"

section \<open>The blocks of an inode\<close>

definition size_mul :: "nat \<Rightarrow> nat \<Rightarrow> nat" where "size_mul a b = (a * b) mod 2 ^ 64"

definition size_align_up :: "nat \<Rightarrow> nat \<Rightarrow> nat" where "size_align_up a b = unat (align_up (of_nat a) (of_nat b))"

definition get_entry_in_indirect_block :: "nat \<Rightarrow> nat \<Rightarrow> nat" where
  "get_entry_in_indirect_block entry_per_block depth = fold (\<lambda>_ res. size_mul res entry_per_block) [0..<depth] 1"

text \<open>
  The loop over the entries of a table goes in steps of the entries of a child, so its turns are the children.
  A call reports no error, since \<open>ext2_acquire_blocks\<close> never does: the branch that releases the table and passes an
  error on is never taken.
\<close>

primrec ext2_inode_read_indirect_block_recursive :: "device \<Rightarrow> ext2_fs \<Rightarrow> nat \<Rightarrow> nat \<Rightarrow> u32 \<Rightarrow> u32 list \<Rightarrow> fault + u32 list" where
  "ext2_inode_read_indirect_block_recursive dev self max_size 0 block_ptr result = Inr (result @ [block_ptr])"
| "ext2_inode_read_indirect_block_recursive dev self max_size (Suc depth) block_ptr result =
     (let entry_per_block = fs_block_size self div 4;
          total_entry_in_current_depth = get_entry_in_indirect_block entry_per_block (Suc depth);
          total_entry_in_child = total_entry_in_current_depth div entry_per_block in
      sbind (ext2_acquire_blocks dev self (unat block_ptr) 1) (\<lambda>table.
      let last = min (size_align_up max_size total_entry_in_child) total_entry_in_current_depth in
      sbind (for_each (\<lambda>i result.
        sbind (le32 table (4 * i)) (\<lambda>child. ext2_inode_read_indirect_block_recursive dev self max_size depth child result))
        [0..<(last + total_entry_in_child - 1) div total_entry_in_child] result) (\<lambda>result.
      sbind (ext2_release_blocks dev table) (\<lambda>_. Inr result))))"

definition ext2_inode_get_blocks :: "device \<Rightarrow> ext2_fs \<Rightarrow> ext2_cached_inode \<Rightarrow> nat \<Rightarrow> fault + u32 list" where
  "ext2_inode_get_blocks dev self inode block_count =
     (if ci_block inode \<noteq> [] then Inr (ci_block inode)
      else
      let block_per_entry = fs_block_size self div 4; ib = in_block (ci_inode inode);
          rec = ext2_inode_read_indirect_block_recursive dev self;
          result = map (\<lambda>i. ib_blocks_ptr ib ! i) [0..<min 12 block_count] in
      if block_count < 12 then Inr result
      else let block_count = block_count - 12 in
      sbind (rec block_count 1 (ib_single_indirect_block_ptr ib) result) (\<lambda>result.
      if block_count < block_per_entry then Inr result
      else let block_count = block_count - block_per_entry in
      sbind (rec block_count 2 (ib_double_indirect_block_ptr ib) result) (\<lambda>result.
      if block_count < (block_per_entry * block_per_entry) mod 2 ^ 32 then Inr result
      else let block_count = block_count - (block_per_entry * block_per_entry) mod 2 ^ 32 in
      rec block_count 3 (ib_triple_indirect_block_ptr ib) result)))"

text \<open>
  A pointer into the cache is its index. \<open>add_cached_inode\<close> returns \<open>vec_end\<close> after the push, which is one
  past the entry that it added: an access through it is out of bounds.
\<close>

definition get_cached_inode_or_create :: "ext2_fs \<Rightarrow> ext2_inode_rec \<Rightarrow> nat \<times> ext2_fs" where
  "get_cached_inode_or_create self inode =
     (case get_cached_inode (fs_inode_cache self) 0 (unat (in_id inode)) of
        Some i \<Rightarrow> (i, self)
      | None \<Rightarrow> let self = add_cached_inode self inode in (length (fs_inode_cache self), self))"

text \<open>The bytes of the blocks from \<open>base\<close> on, and the file system with the blocks in its cache.\<close>

definition ext2_inode_read :: "device \<Rightarrow> ext2_fs \<Rightarrow> ext2_inode_rec \<Rightarrow> nat \<Rightarrow> nat \<Rightarrow> fault + (u8 list \<times> ext2_fs)" where
  "ext2_inode_read dev self inode base count =
     (let (c, self) = get_cached_inode_or_create self inode;
          inode_block_count = size_align_up (unat (inode_size self (in_block inode))) (fs_block_size self) div fs_block_size self in
      if length (fs_inode_cache self) \<le> c then Inl OutOfBounds
      else
      sbind (ext2_inode_get_blocks dev self (fs_inode_cache self ! c) inode_block_count) (\<lambda>blocks.
      let self = self\<lparr>fs_inode_cache := (fs_inode_cache self)[c := (fs_inode_cache self ! c)\<lparr>ci_block := blocks\<rparr>]\<rparr> in
      sbind (for_each (\<lambda>i data.
        if i < length blocks
        then sbind (ext2_acquire_blocks dev self (unat (blocks ! i)) 1) (\<lambda>block.
             if fs_block_size self \<le> length block
             then sbind (ext2_release_blocks dev block) (\<lambda>_. Inr (data @ take (fs_block_size self) block)) else Inl OutOfBounds)
        else Inl OutOfBounds) [base..<base + count] []) (\<lambda>data. Inr (data, self))))"

section \<open>Opening a file system\<close>

definition EXT2_SIGNATURE :: u16 where "EXT2_SIGNATURE = 0xef53"
definition EXT2_SUPER_BLOCK_BASE :: nat where "EXT2_SUPER_BLOCK_BASE = 1024"
definition EXT2_SUPER_BLOCK_SIZE :: nat where "EXT2_SUPER_BLOCK_SIZE = 1024"

text \<open>The block size is a shift of the \<open>int\<close> 1, which is undefined when the shift reaches its sign.\<close>

definition ext2_init :: "device \<Rightarrow> nat \<Rightarrow> fault + (fs_error + ext2_fs)" where
  "ext2_init dev device_block_size =
     (if device_block_size mod 512 \<noteq> 0 then Inl (Panic ''assert'')
      else if device_block_size = 0 then Inl ArithUB
      else case dev_acquire dev (EXT2_SUPER_BLOCK_BASE div device_block_size) (EXT2_SUPER_BLOCK_SIZE div device_block_size) of
        None \<Rightarrow> Inl NullDeref
      | Some data \<Rightarrow> sbind (super_block_at data) (\<lambda>super.
          if sb_signature super \<noteq> EXT2_SIGNATURE then Inr (Inl FS_INVALID_FS)
          else if 31 \<le> unat (sb_block_size super + 10) then Inl ArithUB
          else let block_size = 2 ^ unat (sb_block_size super + 10) in
          if block_size < device_block_size then Inr (Inl FS_INVALID_FS)
          else if sb_group_inode_count super = 0 then Inl ArithUB
          else Inr (Inr \<lparr>fs_device_block_size = device_block_size, fs_super_block = super, fs_block_size = block_size,
            fs_group_desc_table_block = (if block_size = 1024 then 2 else 1),
            fs_group_count = of_nat (unat (sb_inode_count super) div unat (sb_group_inode_count super)), fs_inode_cache = []\<rparr>)))"

section \<open>The layout of a file\<close>

lemma size_align_up_exp:
  assumes "a + 2 ^ k < 2 ^ 63" "k < 63"
  shows "size_align_up a (2 ^ k) = (a + 2 ^ k - 1) div 2 ^ k * 2 ^ k"
proof -
  have "(2 :: nat) ^ k < 2 ^ 64" using assms(2) by (intro power_strict_increasing) auto
  then have p: "unat (2 ^ k :: u64) = 2 ^ k" using unat_of_nat_u64 [of "2 ^ k"] by simp
  have m: "(2 ^ k - 1 :: u64) = mask k" by (simp add: mask_eq_exp_minus_1)
  have u: "(of_nat (a + 2 ^ k - 1) :: u64) = of_nat a + 2 ^ k - 1"
  proof -
    have "Suc (a + 2 ^ k - 1) = a + 2 ^ k" by simp
    from arg_cong [OF this, of "of_nat :: nat \<Rightarrow> u64"] show ?thesis by (simp only: of_nat_Suc of_nat_add of_nat_power of_nat_numeral) (simp add: algebra_simps)
  qed
  have "align_up (of_nat a) (2 ^ k) = of_nat (a + 2 ^ k - 1) AND NOT (mask k)" unfolding align_up_def m u by (simp add: m)
  also have "\<dots> = push_bit k (drop_bit k (of_nat (a + 2 ^ k - 1)))" by (rule bit_word_eqI) (auto simp: bit_simps)
  finally have "size_align_up a (2 ^ k) = unat (push_bit k (drop_bit k (of_nat (a + 2 ^ k - 1) :: u64)))" by (simp add: size_align_up_def)
  moreover have "drop_bit k (of_nat (a + 2 ^ k - 1) :: u64) = of_nat ((a + 2 ^ k - 1) div 2 ^ k)"
  proof -
    have "unat (drop_bit k (of_nat (a + 2 ^ k - 1) :: u64)) = (a + 2 ^ k - 1) div 2 ^ k"
      using assms p by (simp add: drop_bit_eq_div unat_div unat_of_nat_u64 del: of_nat_add)
    then show ?thesis by (metis of_nat_unat_u64)
  qed
  ultimately have "size_align_up a (2 ^ k) = unat (of_nat ((a + 2 ^ k - 1) div 2 ^ k * 2 ^ k) :: u64)" by (simp add: push_bit_eq_mult)
  moreover have "(a + 2 ^ k - 1) div 2 ^ k * 2 ^ k < 2 ^ 64" 
  proof -
    have "a + 2 ^ k - 1 < 2 ^ 64" using assms(1) by (simp add: less_imp_diff_less)
    with div_times_less_eq_dividend [of "a + 2 ^ k - 1" "2 ^ k"] show ?thesis by (rule le_less_trans)
  qed
  ultimately show ?thesis by (simp only: unat_of_nat_u64)
qed

lemma nth_concat_equal:
  "\<forall>l\<in>set ls. length l = c \<Longrightarrow> i < length ls * c \<Longrightarrow> concat ls ! i = ls ! (i div c) ! (i mod c)"
proof (induction ls arbitrary: i)
  case (Cons l ls)
  have c: "0 < c" using Cons.prems by (cases c) auto
  show ?case
  proof (cases "i < c")
    case True
    then show ?thesis using Cons.prems by (simp add: nth_append)
  next
    case False
    have "concat ls ! (i - c) = ls ! ((i - c) div c) ! ((i - c) mod c)" using Cons False by (intro Cons.IH) auto
    then show ?thesis using False Cons.prems c by (simp add: nth_append le_div_geq le_mod_geq)
  qed
qed simp

text \<open>
  What the code follows: the entry \<open>i\<close> of a table block leads, one level after the other, to a block; the
  first twelve blocks are in the inode itself.
\<close>

fun walk :: "(u32 \<Rightarrow> nat \<Rightarrow> u32) \<Rightarrow> nat \<Rightarrow> nat \<Rightarrow> u32 \<Rightarrow> nat \<Rightarrow> u32" where
  "walk table n 0 p i = p"
| "walk table n (Suc d) p i = walk table n d (table p (i div n ^ d)) (i mod n ^ d)"

definition walk_block :: "(u32 \<Rightarrow> nat \<Rightarrow> u32) \<Rightarrow> nat \<Rightarrow> ext2_inode_block \<Rightarrow> nat \<Rightarrow> u32" where
  "walk_block table n ib i =
     (if i < 12 then ib_blocks_ptr ib ! i
      else if i < 12 + n then walk table n 1 (ib_single_indirect_block_ptr ib) (i - 12)
      else if i < 12 + n + n * n then walk table n 2 (ib_double_indirect_block_ptr ib) (i - 12 - n)
      else walk table n 3 (ib_triple_indirect_block_ptr ib) (i - 12 - n - n * n))"

text \<open>
  The layout that the file system prescribes: the same, except that a pointer 0, to a block or to a table, is
  a hole, which has no block and reads as zeroes.
\<close>

fun entry_at :: "(u32 \<Rightarrow> nat \<Rightarrow> u32) \<Rightarrow> nat \<Rightarrow> nat \<Rightarrow> u32 \<Rightarrow> nat \<Rightarrow> u32 option" where
  "entry_at table n 0 p i = (if p = 0 then None else Some p)"
| "entry_at table n (Suc d) p i = (if p = 0 then None else entry_at table n d (table p (i div n ^ d)) (i mod n ^ d))"

definition file_block :: "(u32 \<Rightarrow> nat \<Rightarrow> u32) \<Rightarrow> nat \<Rightarrow> ext2_inode_block \<Rightarrow> nat \<Rightarrow> u32 option" where
  "file_block table n ib i =
     (if i < 12 then entry_at table n 0 (ib_blocks_ptr ib ! i) 0
      else if i < 12 + n then entry_at table n 1 (ib_single_indirect_block_ptr ib) (i - 12)
      else if i < 12 + n + n * n then entry_at table n 2 (ib_double_indirect_block_ptr ib) (i - 12 - n)
      else entry_at table n 3 (ib_triple_indirect_block_ptr ib) (i - 12 - n - n * n))"

lemma entry_at_walk: "entry_at table n d p i = Some q \<Longrightarrow> walk table n d p i = q"
  by (induction d arbitrary: p i) (auto split: if_splits)

lemma file_block_walk: "file_block table n ib i = Some q \<Longrightarrow> walk_block table n ib i = q"
  unfolding file_block_def walk_block_def by (auto split: if_splits dest: entry_at_walk simp del: entry_at.simps(2) walk.simps(2))

text \<open>A device whose table blocks can be read: every block is there, is as long as a block, and can be released.\<close>

definition tables :: "device \<Rightarrow> ext2_fs \<Rightarrow> (u32 \<Rightarrow> nat \<Rightarrow> u32) \<Rightarrow> bool" where
  "tables dev self table \<longleftrightarrow>
     (\<forall>p. \<exists>data. ext2_acquire_blocks dev self (unat p) 1 = Inr data \<and> dev_release dev data \<and> (\<forall>e < fs_block_size self div 4. le32 data (4 * e) = Inr (table p e)))"

lemma get_entry_exp: "k * d < 64 \<Longrightarrow> get_entry_in_indirect_block (2 ^ k) d = 2 ^ (k * d)"
proof (induction d)
  case (Suc d)
  have "(2 :: nat) ^ (k * Suc d) < 2 ^ 64" using Suc.prems by (intro power_strict_increasing) auto
  then have "size_mul (2 ^ (k * d)) (2 ^ k) = 2 ^ (k * Suc d)" by (simp add: size_mul_def power_add mult.commute)
  moreover have "get_entry_in_indirect_block (2 ^ k) d = 2 ^ (k * d)" using Suc by (intro Suc.IH) simp
  ultimately show ?case by (simp add: get_entry_in_indirect_block_def)
qed (simp add: get_entry_in_indirect_block_def)

text \<open>What reading one table gives: a list of the blocks from its first entry on, and enough of them.\<close>

definition blocks_ok :: "(u32 \<Rightarrow> nat \<Rightarrow> u32) \<Rightarrow> nat \<Rightarrow> nat \<Rightarrow> nat \<Rightarrow> u32 \<Rightarrow> u32 list \<Rightarrow> bool" where
  "blocks_ok table n mx d p L \<longleftrightarrow> length L \<le> n ^ d \<and> min mx (n ^ d) \<le> length L \<and> (\<forall>i < min mx (n ^ d). L ! i = walk table n d p i)"

lemma ceil_exact: "0 < c \<Longrightarrow> (E * c + c - 1) div c = (E :: nat)"
proof (rule div_nat_eqI)
  assume c: "0 < c"
  then obtain m where m: "c = Suc m" by (cases c) auto
  show "c * E \<le> E * c + c - 1" using m by (simp add: mult.commute [of _ E])
  show "E * c + c - 1 < c * Suc E" using m by (simp add: mult.commute [of _ E])
qed

lemma children_ok:
  assumes "\<forall>e < E. blocks_ok table n mx d (table p e) (Ls ! e)" "length Ls = E" "0 < n" "E = min ((mx + n ^ d - 1) div n ^ d) n"
  shows "blocks_ok table n mx (Suc d) p (concat Ls)"
proof -
  let ?c = "n ^ d"
  have c: "0 < ?c" using assms(3) by simp
  consider "mx = 0" | "0 < mx" "mx < ?c" | "?c \<le> mx" by linarith
  then show ?thesis
  proof cases
    case 1
    then have "E = 0" using assms(4) c by simp
    then show ?thesis using 1 assms(2) by (simp add: blocks_ok_def)
  next
    case 2
    then have "(mx + ?c - 1) div ?c = 1" by (intro div_nat_eqI) auto
    then have "E = 1" using assms(3,4) by simp
    then obtain L where L: "Ls = [L]" using assms(2) by (auto simp: length_Suc_conv)
    have ok: "blocks_ok table n mx d (table p 0) L" using assms(1) L \<open>E = 1\<close> by auto
    have "?c \<le> n * ?c" using assms(3) by simp
    then have "mx \<le> n * ?c" using 2(2) by (rule_tac less_imp_le, rule_tac less_le_trans)
    then have "min mx (n * ?c) = mx" "min mx ?c = mx" using 2(2) by (simp_all add: min_absorb1 less_imp_le)
    moreover have "length L \<le> n * ?c" using ok \<open>?c \<le> n * ?c\<close> unfolding blocks_ok_def by (meson le_trans)
    ultimately show ?thesis using ok 2 L by (auto simp: blocks_ok_def)
  next
    case 3
    have len: "length l = ?c" if l: "l \<in> set Ls" for l
    proof -
      obtain e where "e < E" "l = Ls ! e" using l assms(2) by (auto simp: in_set_conv_nth)
      then show ?thesis using assms(1) 3 by (auto simp: blocks_ok_def)
    qed
    have "length (concat Ls) = E * ?c" using len assms(2) by (simp add: length_concat sum_list_triv cong: map_cong)
    moreover have "E * ?c \<le> n * ?c" using assms(4) by simp
    moreover have "mx \<le> (mx + ?c - 1) div ?c * ?c"
    proof -
      have "mx + ?c - 1 < Suc ((mx + ?c - 1) div ?c) * ?c" using div_less_iff_less_mult [OF c] by blast
      then show ?thesis using c by simp
    qed
    then have "min mx (n * ?c) \<le> E * ?c" unfolding assms(4) nat_mult_min_left by (intro min.mono) simp_all
    moreover have "concat Ls ! i = walk table n (Suc d) p i" if i: "i < min mx (n * ?c)" for i
    proof -
      have E: "i < E * ?c" using i \<open>min mx (n * ?c) \<le> E * ?c\<close> by (rule less_le_trans)
      then have e: "i div ?c < E" using c by (simp add: div_less_iff_less_mult mult.commute)
      have "concat Ls ! i = Ls ! (i div ?c) ! (i mod ?c)" using nth_concat_equal [of Ls ?c i] len E assms(2) by auto
      moreover have "i mod ?c < min mx ?c" using 3 c by simp
      ultimately show ?thesis using assms(1) e by (auto simp: blocks_ok_def)
    qed
    ultimately show ?thesis by (auto simp: blocks_ok_def)
  qed
qed


text \<open>The recursion, for blocks of up to 64 kB.\<close>

lemma recursive_ok:
  assumes "tables dev self table" "fs_block_size self = 4 * 2 ^ k" "k \<le> 14" "mx < 2 ^ 50"
  shows "d \<le> 3 \<Longrightarrow> \<exists>L. ext2_inode_read_indirect_block_recursive dev self mx d p result = Inr (result @ L) \<and> blocks_ok table (2 ^ k) mx d p L"
proof (induction d arbitrary: p result)
  case 0
  then show ?case by (auto simp: blocks_ok_def)
next
  case (Suc d)
  let ?n = "2 ^ k :: nat" and ?c = "(2 ^ k) ^ d :: nat"
  have outer: "\<exists>L. ext2_inode_read_indirect_block_recursive dev self mx d p result = Inr (result @ L) \<and> blocks_ok table ?n mx d p L" for p result
    using Suc.prems by (intro Suc.IH) simp
  have kd: "k * Suc d \<le> 42" using assms(3) Suc.prems mult_le_mono [of k 14 "Suc d" 3] by simp
  have c: "get_entry_in_indirect_block ?n (Suc d) = ?n * ?c" using get_entry_exp [of k "Suc d"] kd by (simp add: power_add power_mult)
  have "(2 :: nat) ^ (k * d) \<le> 2 ^ 42" using kd by (intro power_increasing) auto
  then have "mx + 2 ^ (k * d) < 2 ^ 63" using assms(4) by simp
  then have up: "size_align_up mx ?c = (mx + ?c - 1) div ?c * ?c" using size_align_up_exp [of mx "k * d"] kd by (simp add: power_mult)
  define E where "E = min ((mx + ?c - 1) div ?c) ?n"
  have turns: "(min (size_align_up mx ?c) (?n * ?c) + ?c - 1) div ?c = E"
  proof -
    have "min (size_align_up mx ?c) (?n * ?c) = E * ?c" unfolding up E_def by (simp add: nat_mult_min_left)
    moreover have "(E * ?c + ?c - 1) div ?c = E" by (rule ceil_exact) simp
    ultimately show ?thesis by simp
  qed
  obtain data where data: "ext2_acquire_blocks dev self (unat p) 1 = Inr data" "dev_release dev data" "\<And>e. e < ?n \<Longrightarrow> le32 data (4 * e) = Inr (table p e)"
    using assms(1,2) unfolding tables_def by (metis nonzero_mult_div_cancel_left zero_neq_numeral)
  let ?turn = "\<lambda>i result. sbind (le32 data (4 * i)) (\<lambda>child. ext2_inode_read_indirect_block_recursive dev self mx d child result)"
  have loop: "\<exists>Ls. for_each ?turn [0..<m] result = Inr (result @ concat Ls) \<and> length Ls = m \<and> (\<forall>e < m. blocks_ok table ?n mx d (table p e) (Ls ! e))"
    if "m \<le> ?n" for m
    using that
  proof (induction m)
    case (Suc m)
    then obtain Ls where Ls: "for_each ?turn [0..<m] result = Inr (result @ concat Ls)" "length Ls = m" "\<forall>e < m. blocks_ok table ?n mx d (table p e) (Ls ! e)" by auto
    obtain L where "ext2_inode_read_indirect_block_recursive dev self mx d (table p m) (result @ concat Ls) = Inr ((result @ concat Ls) @ L)"
        "blocks_ok table ?n mx d (table p m) L" using outer by blast
    then show ?case using Ls data(3) [of m] Suc.prems by (intro exI [of _ "Ls @ [L]"]) (auto simp: for_each_append nth_append less_Suc_eq)
  qed simp
  have "E \<le> ?n" by (simp add: E_def)
  from loop [OF this] obtain Ls where Ls: "for_each ?turn [0..<E] result = Inr (result @ concat Ls)" "length Ls = E"
    "\<forall>e < E. blocks_ok table ?n mx d (table p e) (Ls ! e)" by blast
  have "fs_block_size self div 4 = ?n" "?n * ?c div ?n = ?c" using assms(2) by simp_all
  then have "ext2_inode_read_indirect_block_recursive dev self mx (Suc d) p result = sbind (for_each ?turn [0..<E] result) Inr"
    using data(1,2) turns by (simp add: c Let_def ext2_release_blocks_def del: power_Suc)
  then show ?case using Ls children_ok [OF Ls(3,2) _ E_def] by auto
qed

declare ext2_inode_read_indirect_block_recursive.simps [simp del]

lemma blocks_nth:
  assumes "blocks_ok table n mx d p L" "length A \<le> i" "i - length A < mx" "i - length A < n ^ d"
  shows "(A @ L @ B) ! i = walk table n d p (i - length A)"
  using assms by (auto simp: blocks_ok_def nth_append)

lemma blocks_full: "blocks_ok table n mx d p L \<Longrightarrow> n ^ d \<le> mx \<Longrightarrow> length L = n ^ d"
  by (simp add: blocks_ok_def)

lemma blocks_length: "blocks_ok table n mx d p L \<Longrightarrow> mx \<le> n ^ d \<Longrightarrow> mx \<le> length L"
  by (simp add: blocks_ok_def)

text \<open>The lists of the four levels, and what they are together.\<close>

definition level :: "(u32 \<Rightarrow> nat \<Rightarrow> u32) \<Rightarrow> nat \<Rightarrow> nat \<Rightarrow> nat \<Rightarrow> nat \<Rightarrow> u32 \<Rightarrow> u32 list \<Rightarrow> bool" where
  "level table n count start d p L \<longleftrightarrow> (if count < start then L = [] else blocks_ok table n (count - start) d p L)"

lemma level_nth:
  assumes "level table n count start d p L" "length A = start" "start \<le> i" "i < count" "i < start + n ^ d"
  shows "(A @ L @ B) ! i = walk table n d p (i - start)"
  using blocks_nth [of table n "count - start" d p L A i B] assms by (simp add: level_def)

lemma level_full: "level table n count start d p L \<Longrightarrow> start + n ^ d \<le> count \<Longrightarrow> length L = n ^ d"
  using blocks_full [of table n "count - start" d p L] by (auto simp: level_def split: if_splits)

lemma level_length: "level table n count start d p L \<Longrightarrow> count \<le> start + n ^ d \<Longrightarrow> count \<le> start + length L"
  using blocks_length [of table n "count - start" d p L] by (cases "count < start") (simp_all add: level_def le_diff_conv add.commute)

lemma get_blocks_levels:
  fixes k :: nat
  defines "n \<equiv> 2 ^ k"
  assumes "tables dev self table" "fs_block_size self = 4 * n" "k \<le> 14" "ci_block inode = []" "in_block (ci_inode inode) = ib"
    and "count \<le> 12 + n + n * n + n * n * n"
  obtains L1 L2 L3 where
    "ext2_inode_get_blocks dev self inode count = Inr (map (\<lambda>i. ib_blocks_ptr ib ! i) [0..<min 12 count] @ L1 @ L2 @ L3)"
    "level table n count 12 1 (ib_single_indirect_block_ptr ib) L1" "level table n count (12 + n) 2 (ib_double_indirect_block_ptr ib) L2"
    "level table n count (12 + n + n * n) 3 (ib_triple_indirect_block_ptr ib) L3"
proof -
  let ?rec = "ext2_inode_read_indirect_block_recursive dev self"
  define A where "A = map (\<lambda>i. ib_blocks_ptr ib ! i) [0..<min 12 count]"
  have n: "n \<le> 2 ^ 14" using assms(4) unfolding n_def by (intro power_increasing) simp_all
  have n2: "n * n \<le> 2 ^ 28" using mult_le_mono [OF n n] by simp
  have n3: "n * n * n \<le> 2 ^ 42" using mult_le_mono [OF n2 n] by simp
  have big: "m < 2 ^ 50" if "m \<le> count" for m using that assms(7) n n2 n3 by simp
  have ok: "\<exists>L. ?rec (count - start) d p r = Inr (r @ L) \<and> blocks_ok table n (count - start) d p L" if "d \<le> 3" for start d p r
    using recursive_ok [OF assms(2) assms(3)[unfolded n_def] assms(4) big, of "count - start" d p r] that unfolding n_def by simp
  obtain L1 where L1: "?rec (count - 12) 1 (ib_single_indirect_block_ptr ib) A = Inr (A @ L1)" "blocks_ok table n (count - 12) 1 (ib_single_indirect_block_ptr ib) L1"
    using ok [of 1 12 "ib_single_indirect_block_ptr ib" A] by (auto simp del: One_nat_def)
  obtain L2 where L2: "?rec (count - (12 + n)) 2 (ib_double_indirect_block_ptr ib) (A @ L1) = Inr ((A @ L1) @ L2)"
      "blocks_ok table n (count - (12 + n)) 2 (ib_double_indirect_block_ptr ib) L2" using ok [of 2 "12 + n" "ib_double_indirect_block_ptr ib" "A @ L1"] by auto
  obtain L3 where L3: "?rec (count - (12 + n + n * n)) 3 (ib_triple_indirect_block_ptr ib) (A @ L1 @ L2) = Inr ((A @ L1 @ L2) @ L3)"
      "blocks_ok table n (count - (12 + n + n * n)) 3 (ib_triple_indirect_block_ptr ib) L3" using ok [of 3 "12 + n + n * n" "ib_triple_indirect_block_ptr ib" "A @ L1 @ L2"] by auto
  have d: "fs_block_size self div 4 = n" using assms(3) by simp
  have m: "n * n mod 2 ^ 32 = n * n" using n2 by simp
  have sub: "count - 12 - n = count - (12 + n)" "count - (12 + n) - n * n = count - (12 + n + n * n)" by simp_all
  have lt: "12 \<le> count \<Longrightarrow> count - 12 < n \<longleftrightarrow> count < 12 + n" "12 + n \<le> count \<Longrightarrow> count - (12 + n) < n * n \<longleftrightarrow> count < 12 + n + n * n" by linarith+
  have get: "ext2_inode_get_blocks dev self inode count = Inr (A @ (if count < 12 then [] else L1) @ (if count < 12 + n then [] else L2) @ (if count < 12 + n + n * n then [] else L3))"
    unfolding ext2_inode_get_blocks_def Let_def A_def [symmetric] d m assms(6) sub L1(1) using assms(5) L2(1) L3(1) lt
    by (cases "count < 12"; cases "count < 12 + n"; cases "count < 12 + n + n * n") (simp_all add: L1(1) del: One_nat_def)
  show ?thesis
    by (rule that [OF get [unfolded A_def]]) (use L1(2) L2(2) L3(2) in \<open>simp_all add: level_def\<close>)
qed

lemma ext2_blocks_follow_layout:
  assumes "tables dev self table" "fs_block_size self = 4 * 2 ^ k" "k \<le> 14" "ci_block inode = []"
    and "count \<le> 12 + 2 ^ k + 2 ^ k * 2 ^ k + 2 ^ k * 2 ^ k * 2 ^ k"
  shows "\<exists>bs. ext2_inode_get_blocks dev self inode count = Inr bs \<and> count \<le> length bs \<and>
    list_all (\<lambda>i. bs ! i = walk_block table (2 ^ k) (in_block (ci_inode inode)) i) [0..<count]"
proof -
  define n :: nat where "n = 2 ^ k"
  define ib where "ib = in_block (ci_inode inode)"
  define A where "A = map (\<lambda>i. ib_blocks_ptr ib ! i) [0..<min 12 count]"
  obtain L1 L2 L3 where get: "ext2_inode_get_blocks dev self inode count = Inr (A @ L1 @ L2 @ L3)"
    and l: "level table n count 12 1 (ib_single_indirect_block_ptr ib) L1" "level table n count (12 + n) 2 (ib_double_indirect_block_ptr ib) L2"
      "level table n count (12 + n + n * n) 3 (ib_triple_indirect_block_ptr ib) L3"
    using get_blocks_levels [OF assms(1-4) ib_def [symmetric] assms(5)] unfolding n_def A_def by metis
  have pow: "n ^ 1 = n" "n ^ 2 = n * n" "n ^ 3 = n * n * n" by (simp_all add: power2_eq_square power3_eq_cube)
  have len: "count \<ge> 12 \<Longrightarrow> length A = 12" "12 + n \<le> count \<Longrightarrow> length L1 = n" "12 + n + n * n \<le> count \<Longrightarrow> length L2 = n * n"
    using level_full [OF l(1)] level_full [OF l(2)] by (simp_all add: A_def pow add.assoc)
  have "(A @ L1 @ L2 @ L3) ! i = walk_block table n ib i" if i: "i < count" for i
    using i len level_nth [OF l(1), of A i "L2 @ L3"] level_nth [OF l(2), of "A @ L1" i L3] level_nth [OF l(3), of "A @ L1 @ L2" i "[]"] assms(5)
    unfolding walk_block_def n_def [symmetric] by (auto simp: pow A_def nth_append add.assoc)
  moreover have "count \<le> length (A @ L1 @ L2 @ L3)"
    using len level_length [OF l(1)] level_length [OF l(2)] level_length [OF l(3)] assms(5) unfolding n_def [symmetric]
    by (cases "count < 12"; cases "count < 12 + n"; cases "count < 12 + n + n * n") (auto simp: pow A_def)
  ultimately show ?thesis using get unfolding n_def ib_def by (auto simp: list_all_iff)
qed

text \<open>A device that can be read: the content of every block, which has the length of a block and can be released, and the entries in it.\<close>

definition device_holds :: "device \<Rightarrow> ext2_fs \<Rightarrow> (nat \<Rightarrow> u8 list) \<Rightarrow> bool" where
  "device_holds dev self content \<longleftrightarrow> (\<forall>b. b < 2 ^ 32 \<longrightarrow> ext2_acquire_blocks dev self b 1 = Inr (content b) \<and> length (content b) = fs_block_size self \<and>
     dev_release dev (content b))"

definition table_of :: "(nat \<Rightarrow> u8 list) \<Rightarrow> u32 \<Rightarrow> nat \<Rightarrow> u32" where
  "table_of content p e = (case le32 (content (unat p)) (4 * e) of Inr v \<Rightarrow> v | Inl _ \<Rightarrow> 0)"

lemma unat_u32_lt: "unat (p :: u32) < 2 ^ 32"
  using unsigned_less [of p, where 'a = nat] by simp

lemma device_tables:
  assumes "device_holds dev self content"
  shows "tables dev self (table_of content)"
proof -
  have "\<exists>data. ext2_acquire_blocks dev self (unat p) 1 = Inr data \<and> dev_release dev data \<and> (\<forall>e < fs_block_size self div 4. le32 data (4 * e) = Inr (table_of content p e))" for p
    using assms unat_u32_lt [of p] unfolding device_holds_def by (auto simp: table_of_def le32_def le_bytes_def)
  then show ?thesis by (simp add: tables_def)
qed

lemma acquire_cache [simp]: "ext2_acquire_blocks dev (self\<lparr>fs_inode_cache := x\<rparr>) = ext2_acquire_blocks dev self"
  by (intro ext) (simp add: ext2_acquire_blocks_def)

lemma get_cached_inode_bound: "get_cached_inode cs i inode = Some j \<Longrightarrow> i \<le> j \<and> j < i + length cs \<and> unat (in_id (ci_inode (cs ! (j - i)))) = inode"
  by (induction cs arbitrary: i) (fastforce simp: nth_Cons' split: if_splits)+

lemma read_blocks_loop:
  fixes blocks :: "u32 list"
  assumes "device_holds dev self content" "base + count \<le> length blocks"
  shows "for_each (\<lambda>i data.
        if i < length blocks
        then sbind (ext2_acquire_blocks dev self (unat (blocks ! i)) 1) (\<lambda>block.
             if fs_block_size self \<le> length block
             then sbind (ext2_release_blocks dev block) (\<lambda>_. Inr (data @ take (fs_block_size self) block)) else Inl OutOfBounds)
        else Inl OutOfBounds) [base..<base + count] data = Inr (data @ concat (map (\<lambda>i. content (unat (blocks ! i))) [base..<base + count]))"
  using assms(2)
proof (induction count)
  case (Suc count)
  have "ext2_acquire_blocks dev self (unat (blocks ! (base + count))) 1 = Inr (content (unat (blocks ! (base + count))))"
    "length (content (unat (blocks ! (base + count)))) = fs_block_size self" "dev_release dev (content (unat (blocks ! (base + count))))"
    using assms(1) [unfolded device_holds_def, rule_format, OF unat_u32_lt [of "blocks ! (base + count)"]] by simp_all
  moreover have "base + count < length blocks" "base + count \<le> length blocks" using Suc.prems by simp_all
  moreover note Suc.IH [OF this(2)]
  ultimately show ?case by (simp add: for_each_append ext2_release_blocks_def)
qed simp

text \<open>The number of blocks of a file, rounded up as the code does it.\<close>

definition file_blocks :: "ext2_fs \<Rightarrow> ext2_inode_rec \<Rightarrow> nat" where
  "file_blocks self inode = (unat (inode_size self (in_block inode)) + fs_block_size self - 1) div fs_block_size self"

lemma inode_block_count:
  assumes "fs_block_size self = 4 * 2 ^ k" "k \<le> 14" "file_blocks self inode < 2 ^ 44"
  shows "size_align_up (unat (inode_size self (in_block inode))) (fs_block_size self) div fs_block_size self = file_blocks self inode"
proof -
  let ?a = "unat (inode_size self (in_block inode))" and ?b = "fs_block_size self"
  have b: "?b = 2 ^ (k + 2)" using assms(1) by simp
  have le: "?b \<le> 2 ^ 16" unfolding b using assms(2) by (intro power_increasing) simp_all
  have pos: "0 < ?b" using assms(1) by simp
  have "?a + ?b - 1 < (file_blocks self inode + 1) * ?b"
    unfolding file_blocks_def using div_less_iff_less_mult [OF pos, of "?a + ?b - 1"] by (metis Suc_eq_plus1 lessI)
  also have "\<dots> \<le> 2 ^ 44 * 2 ^ 16" using assms(3) le by (intro mult_le_mono) simp_all
  finally have "?a + 2 ^ (k + 2) < 2 ^ 63" unfolding b by simp
  from size_align_up_exp [OF this] show ?thesis using assms(2) pos unfolding b file_blocks_def by simp
qed

section \<open>Theorems\<close>

text \<open>What is read, whatever the tables hold: the blocks that the pointers lead to.\<close>

lemma ext2_read_walks:
  assumes "device_holds dev self content" "fs_block_size self = 4 * 2 ^ k" "k \<le> 14"
    and "get_cached_inode (fs_inode_cache self) 0 (unat (in_id inode)) = Some c"
    and "fs_inode_cache self ! c = \<lparr>ci_block = [], ci_inode = inode\<rparr>"
    and "file_blocks self inode \<le> 12 + 2 ^ k + 2 ^ k * 2 ^ k + 2 ^ k * 2 ^ k * 2 ^ k"
    and "base + count \<le> file_blocks self inode"
  shows "\<exists>self'. ext2_inode_read dev self inode base count =
    Inr (concat (map (\<lambda>i. content (unat (walk_block (table_of content) (2 ^ k) (in_block inode) i))) [base..<base + count]), self')"
proof -
  let ?cached = "\<lparr>ci_block = [], ci_inode = inode\<rparr>"
  have n: "(2 :: nat) ^ k \<le> 2 ^ 14" using assms(3) by (intro power_increasing) simp_all
  have n2: "(2 :: nat) ^ k * 2 ^ k \<le> 2 ^ 28" using mult_le_mono [OF n n] by simp
  have "(2 :: nat) ^ k * 2 ^ k * 2 ^ k \<le> 2 ^ 42" using mult_le_mono [OF n2 n] by simp
  then have "file_blocks self inode < 2 ^ 44" using assms(6) n n2 by simp
  note blocks = inode_block_count [OF assms(2,3) this]
  have c: "c < length (fs_inode_cache self)" using get_cached_inode_bound [OF assms(4)] by simp
  obtain bs where bs: "ext2_inode_get_blocks dev self ?cached (file_blocks self inode) = Inr bs" "file_blocks self inode \<le> length bs"
    "list_all (\<lambda>i. bs ! i = walk_block (table_of content) (2 ^ k) (in_block inode) i) [0..<file_blocks self inode]"
    using ext2_blocks_follow_layout [OF device_tables [OF assms(1)] assms(2,3) _ assms(6), of ?cached] by auto
  define self' where "self' = self\<lparr>fs_inode_cache := (fs_inode_cache self)[c := \<lparr>ci_block = bs, ci_inode = inode\<rparr>]\<rparr>"
  have "device_holds dev self' content" using assms(1) by (simp add: device_holds_def self'_def)
  note loop = read_blocks_loop [OF this, of base count bs "[]", unfolded self'_def]
  have "ext2_inode_read dev self inode base count = Inr (concat (map (\<lambda>i. content (unat (bs ! i))) [base..<base + count]), self')"
    using assms(4) c blocks bs loop assms(7) unfolding ext2_inode_read_def get_cached_inode_or_create_def self'_def by (simp add: assms(5) Let_def)
  moreover have "map (\<lambda>i. content (unat (bs ! i))) [base..<base + count] =
      map (\<lambda>i. content (unat (walk_block (table_of content) (2 ^ k) (in_block inode) i))) [base..<base + count]"
    using bs(3) assms(7) by (intro map_cong) (auto simp: list_all_iff)
  ultimately show ?thesis by (intro exI [of _ self']) simp
qed

text \<open>
  A hole is not known to the code: it reads block 0 of the device for it, where a file has zeroes.
\<close>

lemma ext2_read_hole:
  assumes "device_holds dev self content" "fs_block_size self = 4 * 2 ^ k" "k \<le> 14"
    and "get_cached_inode (fs_inode_cache self) 0 (unat (in_id inode)) = Some c"
    and "fs_inode_cache self ! c = \<lparr>ci_block = [], ci_inode = inode\<rparr>"
    and "file_blocks self inode \<le> 12 + 2 ^ k + 2 ^ k * 2 ^ k + 2 ^ k * 2 ^ k * 2 ^ k"
    and "i < file_blocks self inode" "i < 12" "ib_blocks_ptr (in_block inode) ! i = 0"
  shows "file_block (table_of content) (2 ^ k) (in_block inode) i = None \<and>
    (\<exists>self'. ext2_inode_read dev self inode i 1 = Inr (content 0, self'))"
proof -
  have "walk_block (table_of content) (2 ^ k) (in_block inode) i = 0" using assms(8,9) by (simp add: walk_block_def)
  moreover have "i + 1 \<le> file_blocks self inode" using assms(7) by simp
  ultimately have "\<exists>self'. ext2_inode_read dev self inode i 1 = Inr (content 0, self')"
    using ext2_read_walks [OF assms(1-6), of i 1] by simp
  then show ?thesis using assms(8,9) by (simp add: file_block_def)
qed


text \<open>
  A file of thirteen blocks of 1024 bytes in the blocks 21 to 32 and 34, with its table in block 33. Every
  block but the table is filled with its number, so that reading a wrong one would show. The witness reads the
  last two blocks of the file, one from the inode and one through the table.
\<close>

definition example_inode :: ext2_inode_rec where
  "example_inode = \<lparr>in_id = 12, in_block = \<lparr>ib_mode = 0x8000, ib_size_low = 13312, ib_blocks_ptr = [21, 22, 23, 24, 25, 26, 27, 28, 29, 30, 31, 32],
     ib_single_indirect_block_ptr = 33, ib_double_indirect_block_ptr = 0, ib_triple_indirect_block_ptr = 0, ib_size_upper = 0\<rparr>\<rparr>"

definition example_fs :: ext2_fs where
  "example_fs = \<lparr>fs_device_block_size = 512,
     fs_super_block = \<lparr>sb_inode_count = 100, sb_block_size = 0, sb_group_inode_count = 100, sb_signature = EXT2_SIGNATURE, sb_inode_size = 128, sb_read_only_feature = 0\<rparr>,
     fs_block_size = 1024, fs_group_desc_table_block = 2, fs_group_count = 1, fs_inode_cache = [\<lparr>ci_block = [], ci_inode = example_inode\<rparr>]\<rparr>"

definition filled :: "nat \<Rightarrow> nat \<Rightarrow> u8 list" where
  "filled n b = replicate n (of_nat b)"

definition example_content :: "nat \<Rightarrow> u8 list" where
  "example_content b = (if b = 33 then [34, 0, 0, 0] @ filled 1020 0 else filled 1024 b)"

definition example_device :: device where
  "example_device = \<lparr>dev_acquire = (\<lambda>count lba. if count = 2 then Some (example_content (lba div 2)) else None), dev_release = (\<lambda>_. True)\<rparr>"

lemma length_filled [simp]: "length (filled n b) = n"
  by (simp only: filled_def length_replicate)


text \<open>
  An inode that is not in the cache cannot be read: the entry is added, but the pointer that comes back is one
  past it, and the first access through it is out of bounds. Callers are safe only because they get their
  inode with \<open>ext2_inode\<close>, which leaves it in the cache.
\<close>

lemma ext2_read_uncached:
  "get_cached_inode (fs_inode_cache self) 0 (unat (in_id inode)) = None \<Longrightarrow> ext2_inode_read dev self inode base count = Inl OutOfBounds"
  by (simp add: ext2_inode_read_def get_cached_inode_or_create_def add_cached_inode_def Let_def)

lemma get_cached_append: "get_cached_inode (cs @ ds) i inode = (case get_cached_inode cs i inode of Some j \<Rightarrow> Some j | None \<Rightarrow> get_cached_inode ds (i + length cs) inode)"
  by (induction cs arbitrary: i) (auto split: option.splits)

lemma ext2_inode_cached:
  assumes "ext2_inode dev self ino = Inr (Inr inode, self')" "ino < 2 ^ 32"
  shows "\<exists>c. get_cached_inode (fs_inode_cache self') 0 ino = Some c \<and> ci_inode (fs_inode_cache self' ! c) = inode \<and> unat (in_id inode) = ino"
proof (cases "get_cached_inode (fs_inode_cache self) 0 ino")
  case None
  have "unat (of_nat ino :: u32) = ino" using assms(2) by (simp add: unsigned_of_nat take_bit_nat_eq_self)
  then show ?thesis using assms None
    by (auto simp: ext2_inode_def Let_def add_cached_inode_def get_cached_append sbind_iff split: if_splits)
next
  case (Some c)
  then show ?thesis using assms get_cached_inode_bound [OF Some] by (auto simp: ext2_inode_def split: if_splits)
qed

text \<open>
  The descriptor of a group is looked for with the block size where the number of descriptors of a block is
  meant, so in a file system with more groups than that the read leaves the block.
\<close>

lemma ext2_group_out_of_bounds:
  assumes "device_holds dev self content" "fs_block_size self div 32 \<le> ino" "ino < fs_block_size self" "unat (fs_group_desc_table_block self) < 2 ^ 32"
  shows "ext2_group_read dev self ino = Inl OutOfBounds"
  using assms by (auto simp: ext2_group_read_def device_holds_def group_desc_at_def Let_def)

end
