(* ===== verification/Stdc.thy ===== *)
theory Stdc
  imports Mem Scan "HOL-Library.Multiset" "HOL-Library.Signed_Division"
begin

text \<open>
  The C library: the strings and blocks of memory of \<open>stdc-ansi/string.c\<close>, \<open>qsort.c\<close>, and the numbers of
  \<open>stdlib.c\<close>. A buffer is the list of its bytes and a pointer into it an index; two pointers that must not
  overlap are two buffers. A read or a write outside of a buffer is a fault.
\<close>

section \<open>string.c\<close>

definition char_at :: "str \<Rightarrow> nat \<Rightarrow> fault + u8" where
  "char_at s i = (if i < length s then Inr (s ! i) else Inl OutOfBounds)"

definition char_put :: "nat \<Rightarrow> u8 \<Rightarrow> str \<Rightarrow> fault + str" where
  "char_put i c s = (if i < length s then Inr (s[i := c]) else Inl OutOfBounds)"

definition memmove :: "nat \<Rightarrow> nat \<Rightarrow> nat \<Rightarrow> str \<Rightarrow> str" where
  "memmove udest usrc n mem =
     (if udest < usrc then fold (\<lambda>i m. m[udest + i := m ! (usrc + i)]) [0..<n] mem
      else if udest > usrc then fold (\<lambda>i m. m[udest + (i - 1) := m ! (usrc + (i - 1))]) (rev [1..<n + 1]) mem
      else mem)"

function copy_from :: "nat option \<Rightarrow> nat \<Rightarrow> str \<Rightarrow> str \<Rightarrow> fault + str" where
  "copy_from n i s2 s1 =
     (if i < length s2
      then if s2 ! i \<noteq> 0 \<and> (case n of None \<Rightarrow> True | Some n \<Rightarrow> i < n)
           then sbind (char_put i (s2 ! i) s1) (copy_from n (i + 1) s2)
           else Inr s1
      else Inl OutOfBounds)"
  by pat_completeness auto
termination by (relation "measure (\<lambda>(_, i, s2, _). length s2 - i)") auto

definition strcpy :: "str \<Rightarrow> str \<Rightarrow> fault + str" where
  "strcpy s1 s2 = copy_from None 0 s2 s1"

definition strncpy :: "str \<Rightarrow> str \<Rightarrow> nat \<Rightarrow> fault + str" where
  "strncpy s1 s2 n = copy_from (Some n) 0 s2 s1"

function strlen_from :: "str \<Rightarrow> nat \<Rightarrow> fault + nat" where
  "strlen_from s i = (if i < length s then if s ! i \<noteq> 0 then strlen_from s (i + 1) else Inr (i + 1) else Inl OutOfBounds)"
  by pat_completeness auto
termination by (relation "measure (\<lambda>(s, i). length s - i)") auto

declare copy_from.simps [simp del] strlen_from.simps [simp del]

definition strlen :: "str \<Rightarrow> fault + nat" where
  "strlen s = strlen_from s 0"

text \<open>The pointer that is returned and the buffer.\<close>

definition strcat :: "str \<Rightarrow> str \<Rightarrow> fault + (nat \<times> str)" where
  "strcat s1 s2 =
     sbind (strlen s2) (\<lambda>l2.
     sbind (strlen s1) (\<lambda>p.
     sbind (for_each (\<lambda>i s1. sbind (char_at s2 i) (\<lambda>c. char_put (p + i) c s1)) [0..<l2] s1) (\<lambda>s1.
     sbind (char_put (p + l2) 0 s1) (\<lambda>s1. Inr (p, s1)))))"

definition strncat :: "str \<Rightarrow> str \<Rightarrow> nat \<Rightarrow> fault + (nat \<times> str)" where
  "strncat s1 s2 n =
     sbind (strlen s2) (\<lambda>l2.
     sbind (strlen s1) (\<lambda>p.
     sbind (for_each (\<lambda>i s1. sbind (char_at s2 i) (\<lambda>c. char_put (p + i) c s1)) [0..<min l2 n] s1) (\<lambda>s1.
     sbind (char_put (p + min l2 n) 0 s1) (\<lambda>s1. Inr (p, s1)))))"

text \<open>The pointers are not moved.\<close>

fun memcmp :: "str \<Rightarrow> str \<Rightarrow> nat \<Rightarrow> fault + int" where
  "memcmp s1 s2 0 = Inr 0"
| "memcmp s1 s2 (Suc n) =
     sbind (char_at s1 0) (\<lambda>a. sbind (char_at s2 0) (\<lambda>b.
     let diff = sint a - sint b in if diff \<noteq> 0 then Inr diff else memcmp s1 s2 n))"

function strcmp_from :: "str \<Rightarrow> str \<Rightarrow> nat \<Rightarrow> fault + int" where
  "strcmp_from s1 s2 i =
     (if i < length s1 \<and> i < length s2
      then if s1 ! i = s2 ! i \<and> s1 ! i \<noteq> 0 then strcmp_from s1 s2 (i + 1) else Inr (sint (s1 ! i) - sint (s2 ! i))
      else Inl OutOfBounds)"
  by pat_completeness auto
termination by (relation "measure (\<lambda>(s1, _, i). length s1 - i)") auto

declare strcmp_from.simps [simp del]

definition strcmp :: "str \<Rightarrow> str \<Rightarrow> fault + int" where
  "strcmp s1 s2 = strcmp_from s1 s2 0"

fun strncmp_from :: "nat \<Rightarrow> str \<Rightarrow> str \<Rightarrow> nat \<Rightarrow> fault + int" where
  "strncmp_from n s1 s2 i =
     (if i < length s1 \<and> i < length s2
      then if s1 ! i = s2 ! i \<and> s1 ! i \<noteq> 0 \<and> n > 0
           then (case n of Suc m \<Rightarrow> strncmp_from m s1 s2 (i + 1))
           else if n = 0 then Inr 0 else Inr (sint (s1 ! i) - sint (s2 ! i))
      else Inl OutOfBounds)"

definition strncmp :: "str \<Rightarrow> str \<Rightarrow> nat \<Rightarrow> fault + int" where
  "strncmp s1 s2 n = strncmp_from n s1 s2 0"

fun chr_from :: "str \<Rightarrow> int \<Rightarrow> nat list \<Rightarrow> fault + nat option" where
  "chr_from s c [] = Inr None"
| "chr_from s c (i # is) = sbind (char_at s i) (\<lambda>d. if sint d = c then Inr (Some i) else chr_from s c is)"

definition strchr :: "str \<Rightarrow> int \<Rightarrow> fault + nat option" where
  "strchr s c = sbind (strlen s) (\<lambda>len. chr_from s c [0..<len])"

text \<open>The position goes below zero when the character is not found: the pointer returned is then the one before the string.\<close>

fun rchr_from :: "str \<Rightarrow> int \<Rightarrow> nat \<Rightarrow> fault + int" where
  "rchr_from s c pos =
     sbind (char_at s pos) (\<lambda>d.
     if sint d = c then Inr (int pos)
     else case pos of 0 \<Rightarrow> Inr (- 1) | Suc p \<Rightarrow> rchr_from s c p)"

definition strrchr :: "str \<Rightarrow> int \<Rightarrow> fault + int option" where
  "strrchr s c = sbind (strlen s) (\<lambda>len. sbind (rchr_from s c len) (\<lambda>pos. Inr (if pos = int len then None else Some pos)))"

section \<open>qsort.c\<close>

definition qsort_turn :: "('a \<Rightarrow> 'a \<Rightarrow> int) \<Rightarrow> nat \<Rightarrow> nat \<Rightarrow> 'a list \<Rightarrow> 'a list" where
  "qsort_turn compar i j xs = (if compar (xs ! i) (xs ! j) > 0 then xs[i := xs ! j, j := xs ! i] else xs)"

definition qsort :: "'a list \<Rightarrow> ('a \<Rightarrow> 'a \<Rightarrow> int) \<Rightarrow> 'a list" where
  "qsort base compar =
     fold (\<lambda>i. fold (\<lambda>j. qsort_turn compar i j) [i + 1..<length base]) [0..<length base - 1] base"

section \<open>stdlib.c\<close>

definition int_result :: "int \<Rightarrow> fault + int" where
  "int_result i = (if - (2 ^ 31) \<le> i \<and> i < 2 ^ 31 then Inr i else Inl ArithUB)"

definition abs32 :: "int \<Rightarrow> fault + int" where
  "abs32 j = (if j < 0 then int_result (- j) else Inr j)"

definition labs :: "int \<Rightarrow> fault + int" where
  "labs j = (if j < 0 then long_result (- j) else Inr j)"

definition div32 :: "int \<Rightarrow> int \<Rightarrow> fault + (int \<times> int)" where
  "div32 number denom =
     (if denom = 0 then Inl ArithUB
      else sbind (int_result (number sdiv denom)) (\<lambda>quot. Inr (quot, number smod denom)))"

definition ldiv :: "int \<Rightarrow> int \<Rightarrow> fault + (int \<times> int)" where
  "ldiv number denom =
     (if denom = 0 then Inl ArithUB
      else sbind (long_result (number sdiv denom)) (\<lambda>quot. Inr (quot, number smod denom)))"

definition atol :: "str \<Rightarrow> fault + int" where
  "atol nptr = sbind (str_to_int nptr) (\<lambda>v. Inr (case v of None \<Rightarrow> 0 | Some v \<Rightarrow> v))"

definition atoi :: "str \<Rightarrow> fault + int" where
  "atoi nptr = sbind (atol nptr) (\<lambda>v. Inr (sint (of_int v :: u32)))"

section \<open>Strings\<close>

text \<open>A string in a buffer: characters other than zero up to a zero.\<close>

definition cstr :: "str \<Rightarrow> str \<Rightarrow> bool" where
  "cstr w s \<longleftrightarrow> 0 \<notin> set w \<and> (\<exists>rest. s = w @ 0 # rest)"

lemma strlen_from_cstr: "0 \<notin> set w \<Longrightarrow> strlen_from (p @ w @ 0 # rest) (length p) = Inr (length p + length w + 1)"
proof (induction w arbitrary: p)
  case Nil
  then show ?case by (subst strlen_from.simps) simp
next
  case (Cons c w)
  have "strlen_from (p @ (c # w) @ 0 # rest) (length p) = strlen_from ((p @ [c]) @ w @ 0 # rest) (length (p @ [c]))"
    using Cons.prems by (subst strlen_from.simps) (auto simp: nth_append)
  also have "\<dots> = Inr (length p + length (c # w) + 1)" using Cons.IH [of "p @ [c]"] Cons.prems by simp
  finally show ?case .
qed

lemma strlen_cstr: "cstr w s \<Longrightarrow> strlen s = Inr (length w + 1)"
  using strlen_from_cstr [of w "[]"] by (auto simp: cstr_def strlen_def)

lemma strcmp_from_cstr:
  "0 \<notin> set a \<Longrightarrow> 0 \<notin> set b \<Longrightarrow> length p = length q \<Longrightarrow>
   \<exists>d. strcmp_from (p @ a @ 0 # r) (q @ b @ 0 # r') (length p) = Inr d \<and> (d = 0 \<longleftrightarrow> a = b)"
proof (induction a arbitrary: b p q)
  case Nil
  then show ?case
  proof (cases b)
    case (Cons y b')
    have "sint (0 :: u8) - sint y \<noteq> 0" using Nil Cons signed_word_eqI [of 0 y, where ?'a = int] by auto
    then show ?thesis using Nil Cons by (subst strcmp_from.simps) (auto simp: nth_append)
  qed (subst strcmp_from.simps, auto simp: nth_append)
next
  case (Cons x a)
  show ?case
  proof (cases b)
    case Nil
    have "sint x - sint (0 :: u8) \<noteq> 0" using Cons.prems signed_word_eqI [of x 0, where ?'a = int] by auto
    then show ?thesis using Cons.prems Nil by (subst strcmp_from.simps) (auto simp: nth_append)
  next
    case b: (Cons y b')
    show ?thesis
    proof (cases "x = y")
      case True
      have "strcmp_from (p @ (x # a) @ 0 # r) (q @ b @ 0 # r') (length p) = strcmp_from ((p @ [x]) @ a @ 0 # r) ((q @ [x]) @ b' @ 0 # r') (length (p @ [x]))"
        using Cons.prems b True by (subst strcmp_from.simps) (auto simp: nth_append)
      then show ?thesis using Cons.IH [of b' "p @ [x]" "q @ [x]"] Cons.prems b True by auto
    next
      case False
      have "sint x - sint y \<noteq> 0" using False signed_word_eqI [of x y, where ?'a = int] by auto
      then show ?thesis using Cons.prems b False by (subst strcmp_from.simps) (auto simp: nth_append)
    qed
  qed
qed

theorem strcmp_equal:
  assumes "cstr a s1" "cstr b s2"
  shows "\<exists>d. strcmp s1 s2 = Inr d \<and> (d = 0 \<longleftrightarrow> a = b)"
  using assms strcmp_from_cstr [of a b "[]" "[]"] by (auto simp: cstr_def strcmp_def)

theorem memcmp_first_byte:
  assumes "0 < n" "s1 \<noteq> []" "s2 \<noteq> []"
  shows "memcmp s1 s2 n = Inr (sint (hd s1) - sint (hd s2))"
  using assms(1)
proof (induction n)
  case (Suc n)
  then show ?case using assms(2,3) by (cases n) (auto simp: char_at_def hd_conv_nth Let_def)
qed simp

section \<open>Sorting\<close>

lemma turn_length [simp]: "length (qsort_turn c i j xs) = length xs"
  by (simp add: qsort_turn_def)

lemma turn_mset: "i < length xs \<Longrightarrow> j < length xs \<Longrightarrow> mset (qsort_turn c i j xs) = mset xs"
  by (simp add: qsort_turn_def mset_swap)

lemma turn_nth: "i < j \<Longrightarrow> j < length xs \<Longrightarrow> k < length xs \<Longrightarrow> k \<noteq> i \<Longrightarrow> k \<noteq> j \<Longrightarrow> qsort_turn c i j xs ! k = xs ! k"
  by (simp add: qsort_turn_def)

lemma inner_length [simp]: "length (fold (\<lambda>j. qsort_turn c i j) js xs) = length xs"
  by (induction js arbitrary: xs) simp_all


text \<open>What the comparison has to be: a total preorder.\<close>

definition compares :: "('a \<Rightarrow> 'a \<Rightarrow> int) \<Rightarrow> bool" where
  "compares c \<longleftrightarrow> (\<forall>x y. c x y > 0 \<longrightarrow> c y x \<le> 0) \<and> (\<forall>x y z. c x y \<le> 0 \<longrightarrow> c y z \<le> 0 \<longrightarrow> c x z \<le> 0)"

lemma compares_total: "compares c \<Longrightarrow> c x y > 0 \<Longrightarrow> c y x \<le> 0"
  unfolding compares_def by blast

lemma compares_trans: "compares c \<Longrightarrow> c x y \<le> 0 \<Longrightarrow> c y z \<le> 0 \<Longrightarrow> c x z \<le> 0"
  unfolding compares_def by blast

text \<open>One turn of the outer loop puts a least element of the rest in its place.\<close>

lemma inner_loop:
  assumes "compares c" "i < length xs" "m \<le> length xs"
  shows "let ys = fold (\<lambda>j. qsort_turn c i j) [i + 1..<m] xs in
    mset ys = mset xs \<and> (\<forall>k<i. ys ! k = xs ! k) \<and> (\<forall>k. i < k \<longrightarrow> k < m \<longrightarrow> c (ys ! i) (ys ! k) \<le> 0)"
  using assms(3)
proof (induction m)
  case (Suc m)
  let ?ys = "fold (\<lambda>j. qsort_turn c i j) [i + 1..<m] xs"
  show ?case
  proof (cases "i < m")
    case True
    have IH: "mset ?ys = mset xs" "\<And>k. k < i \<Longrightarrow> ?ys ! k = xs ! k" "\<And>k. i < k \<Longrightarrow> k < m \<Longrightarrow> c (?ys ! i) (?ys ! k) \<le> 0"
      using Suc by (auto simp: Let_def)
    have s: "fold (\<lambda>j. qsort_turn c i j) [i + 1..<Suc m] xs = qsort_turn c i m ?ys" using True by simp
    have m: "m < length ?ys" "i < length ?ys" using Suc.prems assms(2) by simp_all
    have "c (qsort_turn c i m ?ys ! i) (qsort_turn c i m ?ys ! k) \<le> 0" if k: "i < k" "k < Suc m" for k
    proof (cases "c (?ys ! i) (?ys ! m) > 0")
      case t: True
      then have "c (?ys ! m) (?ys ! i) \<le> 0" using compares_total [OF assms(1)] by blast
      then show ?thesis using t k True m IH(3) [of k] compares_trans [OF assms(1), of "?ys ! m" "?ys ! i" "?ys ! k"]
        by (cases "k = m") (auto simp: qsort_turn_def)
    next
      case False
      then show ?thesis using k IH(3) [of k] by (cases "k = m") (auto simp: qsort_turn_def)
    qed
    moreover have "qsort_turn c i m ?ys ! k = xs ! k" if "k < i" for k using turn_nth [of i m ?ys k c] that True m IH(2) by auto
    ultimately show ?thesis using turn_mset [OF m(2,1), of c] IH(1) s by (simp only: Let_def)  simp
  next
    case False
    then show ?thesis by (auto simp: Let_def)
  qed
qed simp

lemma outer_loop:
  assumes "compares c" "t \<le> length xs - 1"
  shows "let zs = fold (\<lambda>i. fold (\<lambda>j. qsort_turn c i j) [i + 1..<length xs]) [0..<t] xs in
    mset zs = mset xs \<and> (\<forall>a b. a < t \<longrightarrow> a < b \<longrightarrow> b < length xs \<longrightarrow> c (zs ! a) (zs ! b) \<le> 0)"
  using assms(2)
proof (induction t)
  case (Suc t)
  define zs where "zs = fold (\<lambda>i. fold (\<lambda>j. qsort_turn c i j) [i + 1..<length xs]) [0..<t] xs"
  define ys where "ys = fold (\<lambda>j. qsort_turn c t j) [t + 1..<length xs] zs"
  have IH: "mset zs = mset xs" "\<And>a b. a < t \<Longrightarrow> a < b \<Longrightarrow> b < length xs \<Longrightarrow> c (zs ! a) (zs ! b) \<le> 0" using Suc by (auto simp: Let_def zs_def)
  have len: "length zs = length xs" using IH(1) by (metis size_mset)
  have t: "t < length zs" using Suc.prems len by simp
  have Y: "mset ys = mset zs" "\<And>k. k < t \<Longrightarrow> ys ! k = zs ! k" "\<And>k. t < k \<Longrightarrow> k < length xs \<Longrightarrow> c (ys ! t) (ys ! k) \<le> 0"
    using inner_loop [OF assms(1) t, of "length xs"] len by (auto simp: Let_def ys_def)
  have leny: "length ys = length xs" using Y(1) len by (metis size_mset)
  have "take t ys = take t zs" using Y(2) t len leny by (intro nth_equalityI) auto
  then have "mset (drop t ys) = mset (drop t zs)" using Y(1) by (metis append_take_drop_id mset_append add_left_cancel)
  then have rest: "set (drop t ys) = set (drop t zs)" by (metis set_mset_mset)
  have "c (ys ! a) (ys ! b) \<le> 0" if ab: "a < Suc t" "a < b" "b < length xs" for a b
  proof (cases "a = t")
    case False
    then have a: "a < t" using ab by simp
    show ?thesis
    proof (cases "b < t")
      case True
      then show ?thesis using Y(2) IH(2) a ab by simp
    next
      case False
      then have "ys ! b \<in> set (drop t ys)" using ab(3) leny by (auto simp: in_set_conv_nth intro!: exI [of _ "b - t"])
      then obtain k where "t + k < length zs" "zs ! (t + k) = ys ! b" unfolding rest by (auto simp: in_set_conv_nth less_diff_conv add.commute)
      then show ?thesis using Y(2) [OF a] IH(2) [of a "t + k"] a len by auto
    qed
  qed (use Y(3) ab in simp)
  then show ?case using Y(1) IH(1) by (simp add: Let_def ys_def zs_def)
qed simp

text \<open>
  C35. \<open>qsort\<close> sorts: with a comparison that is a total preorder, the result has the same elements, as often,
  and each is at most the ones after it.
\<close>

theorem qsort_sorts:
  assumes "compares compar"
  shows "mset (qsort base compar) = mset base \<and> sorted_wrt (\<lambda>x y. compar x y \<le> 0) (qsort base compar)"
proof -
  have "length (qsort base compar) = length base" using outer_loop [OF assms order_refl, of base] unfolding qsort_def Let_def by (metis size_mset)
  then show ?thesis using outer_loop [OF assms order_refl, of base] unfolding qsort_def [symmetric] sorted_wrt_iff_nth_less Let_def by auto
qed

lemma qsort_sorts_witness:
  "compares (\<lambda>x y :: int. x - y) \<and> sorted_wrt (\<lambda>x y. x - y \<le> 0) (qsort [3, 1, 2, 1 :: int] (\<lambda>x y. x - y))"
proof -
  have "compares (\<lambda>x y :: int. x - y)" by (auto simp: compares_def)
  then show ?thesis using qsort_sorts by blast
qed

text \<open>
  \<open>strlen\<close> counts the terminator: for every string it returns one more than the number of its characters,
  so \<open>strcat\<close> puts its second string behind the terminator of the first, which stays as it was.
\<close>

theorem strlen_counts_terminator:
  assumes "cstr a s1" "cstr b s2"
  shows "strlen s1 = Inr (length a + 1) \<and> (case strcat s1 s2 of Inr (p, s) \<Rightarrow> p = length a + 1 \<and> cstr a s | Inl f \<Rightarrow> f = OutOfBounds)"
proof -
  have keep: "case for_each (\<lambda>i s. sbind (char_at s2 i) (\<lambda>c. char_put (length a + 1 + i) c s)) is s of Inr s \<Rightarrow> cstr a s | Inl f \<Rightarrow> f = OutOfBounds" if "cstr a s" for "is" s
    using that
  proof (induction "is" arbitrary: s)
    case (Cons i "is")
    have "cstr a (s[length a + 1 + i := x])" for x using Cons.prems by (auto simp: cstr_def list_update_append)
    then show ?case using Cons by (auto simp: char_at_def char_put_def)
  qed simp
  have fin: "cstr a s \<Longrightarrow> cstr a (s[length a + 1 + n := x])" for s n x by (auto simp: cstr_def list_update_append)
  define r where "r = for_each (\<lambda>i s1. sbind (char_at s2 i) (\<lambda>c. char_put (length a + 1 + i) c s1)) [0..<length b + 1] s1"
  have "strcat s1 s2 = sbind r (\<lambda>s1. sbind (char_put (length a + 1 + (length b + 1)) 0 s1) (\<lambda>s1. Inr (length a + 1, s1)))"
    by (simp only: strcat_def strlen_cstr [OF assms(1)] strlen_cstr [OF assms(2)] sbind_simps r_def)
  moreover have "case r of Inr s \<Rightarrow> cstr a s | Inl f \<Rightarrow> f = OutOfBounds" unfolding r_def by (rule keep [OF assms(1)])
  ultimately show ?thesis using strlen_cstr [OF assms(1)] fin [of _ "length b + 1"] by (cases r) (auto simp: char_put_def)
qed

lemma strlen_counts_terminator_witness:
  "strlen [97, 98, 0, 9, 9, 9] = Inr 3 \<and> strcat [97, 98, 0, 9, 9, 9] [99, 0] = Inr (3, [97, 98, 0, 99, 0, 0])"
proof
  have c: "cstr [97, 98] [97, 98, 0, 9, 9, 9]" "cstr [99] [99, 0]" by (auto simp: cstr_def)
  from strlen_counts_terminator [OF this] show "strlen [97, 98, 0, 9, 9, 9] = Inr 3" by simp
  show "strcat [97, 98, 0, 9, 9, 9] [99, 0] = Inr (3, [97, 98, 0, 99, 0, 0])" by code_simp
qed

end
