(* ===== verification/Spec2Isabelle.thy ===== *)
theory Spec2Isabelle
  imports Ring Slot Range_Alloc Pmm Vmm Messages Sched_Props Event_Props Interrupts Hash_Map Gzip_Props Deflate_Props Heap_Kernel Bvm_Props Json_Total Glob Lex Timestamps Ext2 Stdc
begin

text \<open>
  Verification of the Brutal operating system: its microkernel, the libraries the kernel is
  built on, and the codecs, parsers and file system of its user space.

  \<^bold>\<open>The program.\<close> Brutal is a capability-based microkernel (\<open>src/sources/kernel\<close>) with a user space of
  libraries (\<open>src/sources/libs\<close>), services and applications. A task has an address space, a domain
  (its table of handles to kernel objects), a channel (its queue of messages) and a set of
  rights. It reaches the kernel through system calls: it creates and maps memory, creates and starts
  tasks, sends and receives messages that can carry handles, and binds interrupts as events. Kernel
  objects are reference counted. The scheduler hands the processors to tasks on timer interrupts and
  completes the waiting sends and receives of blocked tasks. Below are a physical page allocator over
  a bitmap, the page tables of x86-64, and generic containers.

  \<^bold>\<open>Conventions.\<close> Theory Prelude has the faults (panics, and C accesses without a defined result), the
  sequencing of routines that can fault and loops over them. Machine integers keep their width.
  Error codes are ordinary results. Pointers to kernel objects are natural numbers that index an
  explicit store, so that sharing, freeing and use after free are visible. Code that is
  not part of the repository's own logic (the software interrupt that yields, I/O ports, the clock,
  the writers below a checksum) is an argument of the definitions.

  \<^bold>\<open>Containers.\<close> Ring (\<open>brutal-ds/ring.c\<close>): refines a bounded queue. Vec (\<open>vec.c\<close>, \<open>vec.h\<close>): refines a
  list while its sizes fit an \<open>int\<close>, but for the insertion, which loses elements. Slot (\<open>slot.c\<close>): allocation returns fresh slots.
  Bits (\<open>bits.c\<close>): first fit and completeness of the search for free runs, exact range updates, and the
  overrun of the search from above. Ranges and Range_Alloc (\<open>range.h\<close>, \<open>range.c\<close>): alignment and the
  allocator of address ranges. Mem (\<open>brutal-mem\<close>): copying and moving bytes. Hash_Map (\<open>map.c\<close>): refines a
  finite map, over Hashes (\<open>brutal-hash\<close>: FNV, Adler-32, CRC-32) and Text (\<open>ctype.c\<close>, \<open>str.c\<close>, \<open>utf8.c\<close>).

  \<^bold>\<open>Memory.\<close> Pmm (\<open>pmm.c\<close>, the kernel heap): allocations are exclusive, complete and accounted
  for. Vmm (\<open>x86_64/vmm.c\<close>): mapping and unmapping change the translation of exactly the given pages.

  \<^bold>\<open>Kernel objects.\<close> Abi holds the types of the system call interface; Kstate the state of the kernel
  as a record (object store, channels, event bindings, task list, processors, memory). Objects models
  \<open>object.c\<close>, \<open>domain.c\<close>, \<open>memory.c\<close>, \<open>space.c\<close> and \<open>task.c\<close>; Channels \<open>parcel.c\<close> and \<open>channel.c\<close>; Ipc the
  blocking operations and \<open>event.c\<close>; Sched \<open>sched.c\<close>; Syscalls all of \<open>syscalls.c\<close>. Interrupts models
  the interrupt handler and the saving and loading of contexts, Sync the locks, the read-write
  locks and the retention of interrupts (\<open>brutal-sync\<close>, \<open>cpu.c\<close>) as step relations over any number of
  processors.

  \<^bold>\<open>What is shown of the kernel.\<close> Refs defines the invariant \<open>kinv\<close>: no object is counted lower than
  the number of references held by tables, mappings, tasks, messages in flight and the code
  that is running. It may be counted higher: some paths of the code lose references, and such an object is
  never freed. Counts are 32-bit numbers that wrap around; the safety theorem keeps them bounded. Refs proves that releasing a reference keeps it, through all destructors, by a
  locale (\<open>release_contract\<close>) that closes the recursion. Mm_Safe, Safety, Ipc_Safe and Syscall_Safe
  carry the invariant through every operation: no system call that does not wait uses an object that is gone or of
  another type, or leaves a table of objects, as long as its handles have at most 32 bits (a longer one does make the
  kernel read outside of the table), and none gives a task a right it did not have. The arguments of a call are
  taken as read from the memory of the caller; the kernel does not check the address it reads them from. Capabilities states the
  contract of handles, Messages what sending and receiving transfer, Sched_Props fairness,
  termination and exclusiveness of scheduling, Event_Props which interrupt events are delivered and which are lost.
  Blocking proves, once for every relation that holds of a few elementary updates, that it holds
  of whatever a blocked task's operation does; Sched_Props and Interrupts use it for the
  processors and for the contexts of tasks.

  \<^bold>\<open>Heap.\<close> Heap models \<open>brutal-alloc/heap.c\<close>, the lists of major and minor blocks inside of pages; Heap_Props
  has its invariant and Heap_Kernel the allocator over the page provider of the kernel: blocks in use never
  meet, have the size asked for, keep their contents when they are resized, and are the only ones released.

  \<^bold>\<open>Streams and compression.\<close> Streams and Sources (\<open>brutal-io\<close>: readers, writers, bit streams), Huff
  (\<open>codec-deflate/huff\<close>), Deflate (\<open>inflate.c\<close>, \<open>deflate.c\<close>) and Gzip (\<open>codec-gzip\<close>, \<open>codec-zlib\<close>). Huff_Props compares
  the decoder with the canonical code of RFC 1951, Deflate_Props shows that decompression takes a bit of the input
  in every turn, Gzip_Props that decompression undoes compression. Where the input ends too early the code uses
  an undefined byte; the model stops there and says nothing of what follows.

  \<^bold>\<open>Text.\<close> Scan (\<open>brutal-parse/scan.c\<close>, \<open>nums.c\<close>) reads characters, Fmt (\<open>brutal-fmt\<close>) writes them; Json (\<open>json\<close>)
  is a parser and a printer over both. Json_Props shows that printing and parsing round-trip and that objects
  are finite maps, Json_Total that the parser ends on every text. Glob (\<open>brutal-glob\<close>) is compared with its
  documentation. Lex (\<open>brutal-parse/lex.c\<close>, \<open>cc/lex\<close>) has a locale for the rules of a lexer, whose lexemes make up
  the text, and its interpretation on the lexer of C.

  \<^bold>\<open>Other libraries.\<close> Bvm (\<open>bvm\<close>) is the bytecode machine with its stack of frames; Bvm_Props shows what the program
  of its utility computes and an invariant of the types of values in programs without native functions. Timestamps (\<open>brutal-time\<close>) converts dates and
  back. Stdc (\<open>stdc-ansi\<close>) has the string functions and the sort of the C library. Ext2 (\<open>fs/ext2\<close>) reads a file
  system; a file without holes is what the tables of its inode lead to.

  \<^bold>\<open>Bounds.\<close> The recursion of \<open>object_deref\<close> has as fuel one more than the number of addresses in use;
  Refs shows that it never runs out (the fault \<open>TooDeep\<close> is among those that the safety theorem
  excludes). The loop that dispatches tasks has one turn more than there are tasks, which
  Sched_Props shows to be enough. Decompression has eight turns for each byte of the input, one for
  each bit, and Deflate_Props shows that a turn reads one while there are any. The search of the heap has two turns for each
  block and two more. Loops of the scanner have one turn more than characters are left, the
  recursion of the JSON parser two for each and two more, and matching a pattern one for each character
  of the pattern and of the input; each is shown not to run out. The bytecode machine runs a given number of
  instructions, and the theorem on its program gives the number that is enough. The depth of the
  recursion over the indirect tables of ext2 is its argument. Loops with a fixed number of turns are folds; the remaining ones
  are recursive functions with a termination proof. Capability tables and reference counts are bounded by
  $2^{20}$ in the safety theorem, so that they fit the C \<open>int\<close> they are indexed and counted with.

  \<^bold>\<open>Not modelled.\<close> Device drivers and boot code (APIC, HPET, ACPI tables, SMP start-up, the loader),
  which only program hardware; the riscv64 port; the mathematical functions and other third-party
  code under \<open>stdc-math\<close>; graphics, fonts and the user interface; the C compiler behind its lexer and the IDL
  compiler; the part of the ext2 library that writes; services and applications. A read-write lock or lock is not taken in the kernel
  model, whose operations are atomic: Sync justifies that for the sections the locks guard.
\<close>

end
